(* ===== verification/Prelude.thy ===== *)
theory Prelude
  imports Main "HOL-Library.Word"
begin

text \<open>
  Shared vocabulary of the development: the machine integers of the Rust code, the result type
  of its fallible operations (an error value, a panic, or a result), slices and indexing with
  their panics, and the generic facts on bytes, lists and words that several components use.

  Conventions. \<open>u8\<close>, \<open>u16\<close>, \<open>u32\<close>, \<open>u64\<close> are words; \<open>i32\<close> and \<open>i64\<close> are words of the same width read
  with \<open>sint\<close>. \<open>usize\<close> is \<open>nat\<close>: program counters and lengths stay far below \<open>2 ^ 64\<close>, and the only
  place where the code relies on a wrapping \<open>usize\<close> conversion (the target of a backward jump)
  is modelled at its width there.
\<close>

unbundle bit_operations_syntax

type_synonym u8 = "8 word"
type_synonym u16 = "16 word"
type_synonym u32 = "32 word"
type_synonym u64 = "64 word"
type_synonym i32 = "32 word"
type_synonym i64 = "64 word"
type_synonym usize = nat

named_theorems rust_defs \<open>definitions of the Rust result combinators\<close>
named_theorems byte_simps \<open>values of little-endian byte sequences\<close>
named_theorems shape_simps \<open>equations of the instruction classification\<close>
named_theorems cursor_intros \<open>cursor operations stay inside the input\<close>


section \<open>Results: values, errors and panics\<close>

datatype 'e fault = Raised 'e | Panicked

type_synonym ('e, 'a) outcome = "'e fault + 'a"

definition bind_result :: "('e, 'a) outcome \<Rightarrow> ('a \<Rightarrow> ('e, 'b) outcome) \<Rightarrow> ('e, 'b) outcome" where
  "bind_result m f = (case m of Inl e \<Rightarrow> Inl e | Inr x \<Rightarrow> f x)"

definition panics :: "('e, 'a) outcome \<Rightarrow> bool" where
  "panics m \<longleftrightarrow> m = Inl Panicked"

lemma bind_result_simps [simp]:
  "bind_result (Inl e) f = Inl e"
  "bind_result (Inr x) f = f x"
  by (simp_all add: bind_result_def)

lemma bind_result_Inr_conv [simp]:
  "bind_result m f = Inr y \<longleftrightarrow> (\<exists>x. m = Inr x \<and> f x = Inr y)"
  by (cases m) auto

lemma panics_simps [simp]:
  "panics (Inr x) = False"
  "panics (Inl (Raised e)) = False"
  "panics (Inl Panicked)"
  by (simp_all add: panics_def)

lemma panics_bind:
  "\<not> panics m \<Longrightarrow> (\<And>x. m = Inr x \<Longrightarrow> \<not> panics (f x)) \<Longrightarrow> \<not> panics (bind_result m f)"
  by (cases m) (auto simp: panics_def)

lemma bind_result_cong:
  "m = m' \<Longrightarrow> (\<And>x. m' = Inr x \<Longrightarrow> f x = f' x) \<Longrightarrow> bind_result m f = bind_result m' f'"
  by (cases m') auto

text \<open>Indexing and slicing panic out of range, as \<open>xs[i]\<close> and \<open>xs[a..b]\<close> do.\<close>

definition index_at :: "'a list \<Rightarrow> usize \<Rightarrow> ('e, 'a) outcome" where
  "index_at xs i = (if i < length xs then Inr (xs ! i) else Inl Panicked)"

definition slice :: "'a list \<Rightarrow> usize \<Rightarrow> usize \<Rightarrow> ('e, 'a list) outcome" where
  "slice xs a b = (if a \<le> b \<and> b \<le> length xs then Inr (take (b - a) (drop a xs)) else Inl Panicked)"

lemma index_at_ok [simp]: "i < length xs \<Longrightarrow> index_at xs i = Inr (xs ! i)"
  by (simp add: index_at_def)

lemma slice_ok [simp]: "a \<le> b \<Longrightarrow> b \<le> length xs \<Longrightarrow> slice xs a b = Inr (take (b - a) (drop a xs))"
  by (simp add: slice_def)

lemma slice_Inr_length: "slice xs a b = Inr ys \<Longrightarrow> length ys = b - a"
  by (auto simp: slice_def split: if_splits)


section \<open>Bytes\<close>

text \<open>The value of a little-endian byte sequence, and \<open>from_le_bytes\<close> at any width.\<close>

primrec le_nat :: "u8 list \<Rightarrow> nat" where
  "le_nat [] = 0"
| "le_nat (b # bs) = unat b + 256 * le_nat bs"

definition from_le_bytes :: "u8 list \<Rightarrow> 'a::len word" where
  "from_le_bytes bs = of_nat (le_nat bs)"

text \<open>The bytes of a number, least significant first (a reference for round trips).\<close>

primrec to_le_bytes :: "nat \<Rightarrow> nat \<Rightarrow> u8 list" where
  "to_le_bytes 0 n = []"
| "to_le_bytes (Suc k) n = of_nat (n mod 256) # to_le_bytes k (n div 256)"

lemma length_to_le_bytes [simp]: "length (to_le_bytes k n) = k"
  by (induction k arbitrary: n) simp_all

lemma unat_u8_less [simp]: "unat (b :: u8) < 256"
  using unsigned_less [of b, where 'a = nat] by simp

lemma unat_of_nat_small: "n < 2 ^ LENGTH('a) \<Longrightarrow> unat (of_nat n :: 'a::len word) = n"
  by (simp add: unat_of_nat)

lemma le_nat_bound: "le_nat bs < 256 ^ length bs"
proof (induction bs)
  case (Cons b bs)
  have "unat b + 256 * n < 256 * m" if "n < m" for n m :: nat
    using that unat_u8_less [of b] by arith
  with Cons.IH show ?case by simp
qed simp

lemma le_nat_to_le_bytes [byte_simps]: "le_nat (to_le_bytes k n) = n mod 256 ^ k"
proof (induction k arbitrary: n)
  case (Suc k)
  have "n mod 256 + 256 * (n div 256 mod 256 ^ k) = n mod (256 * 256 ^ k)"
    by (simp add: mod_mult2_eq)
  then show ?case by (simp add: Suc.IH unat_of_nat)
qed simp

lemma to_le_bytes_le_nat [byte_simps]: "to_le_bytes (length bs) (le_nat bs) = bs"
  by (induction bs) simp_all

lemma unat_from_le_bytes:
  "256 ^ length bs \<le> (2::nat) ^ LENGTH('a) \<Longrightarrow> unat (from_le_bytes bs :: 'a::len word) = le_nat bs"
  using le_nat_bound [of bs] by (simp add: from_le_bytes_def unat_of_nat)

text \<open>A low nibble is below 16, so it is a valid index into 16 registers.\<close>

lemma and_0F_less [simp]: "unat (x AND 0x0F :: u8) < 16"
proof -
  have "x AND 0x0F = take_bit 4 x"
    by (simp add: take_bit_eq_mask mask_eq_decr_exp)
  moreover have "unat (take_bit 4 x) < 2 ^ 4"
    by (simp only: unsigned_take_bit_eq) (rule take_bit_nat_less_exp)
  ultimately show ?thesis by simp
qed

lemma take_bit_eq_if_less:
  assumes "unat (l :: 'a::len word) < 2 ^ k"
  shows "take_bit k l = l"
  using assms by (simp only: word_eq_iff_unsigned [where ?'a = nat] unsigned_take_bit_eq take_bit_nat_eq_self)

lemma two_digit_less:
  assumes "x < a" and "y < b" and "a * b \<le> c"
  shows "x * b + y < (c :: nat)"
proof -
  have "x * b + y < Suc x * b" using assms(2) by simp
  also have "\<dots> \<le> a * b" using assms(1) by (intro mult_right_mono) simp_all
  finally show ?thesis using assms(3) by simp
qed

text \<open>Widening casts keep the unsigned value.\<close>

lemma unat_ucast_widen [simp]:
  assumes "LENGTH('b::len) \<le> LENGTH('a::len)"
  shows "unat (ucast (w :: 'b word) :: 'a word) = unat w"
proof -
  have "unat w < 2 ^ LENGTH('b)" by (rule unsigned_less)
  also have "\<dots> \<le> 2 ^ LENGTH('a)" using assms by simp
  finally show ?thesis by (simp add: unsigned_ucast_eq take_bit_nat_eq_self)
qed

text \<open>Shifting a high part over a low part that fits below it is addition.\<close>

lemma unat_push_or:
  assumes l: "unat (l :: 'a::len word) < 2 ^ k"
    and h: "unat h * 2 ^ k + unat l < 2 ^ LENGTH('a)"
  shows "unat (push_bit k h OR l) = unat h * 2 ^ k + unat l"
proof -
  have "push_bit k h OR l = push_bit k h + l"
  proof (rule disjunctive_add [symmetric])
    fix n
    have "\<not> bit l n" if "k \<le> n"
      using that arg_cong [OF take_bit_eq_if_less [OF l], of "\<lambda>w. bit w n"]
      by (simp add: bit_take_bit_iff)
    then show "\<not> bit (push_bit k h) n \<or> \<not> bit l n"
      by (auto simp: bit_push_bit_iff)
  qed
  moreover have "unat (push_bit k h) = unat h * 2 ^ k"
    using h by (subst unsigned_push_bit_eq) (simp add: push_bit_eq_mult take_bit_nat_eq_self)
  ultimately show ?thesis
    using h by (simp add: unat_word_ariths)
qed


section \<open>Number formatting\<close>

text \<open>Decimal and lower-case hexadecimal digits, as \<open>format!\<close> writes them.\<close>

function show_base :: "nat \<Rightarrow> nat \<Rightarrow> string" where
  "show_base b n =
     (if n < b \<or> b \<le> 1 then [''0123456789abcdef'' ! (n mod 16)]
      else show_base b (n div b) @ [''0123456789abcdef'' ! (n mod b mod 16)])"
  by pat_completeness auto
termination
  by (relation "measure snd") auto

declare show_base.simps [simp del]

definition show_nat :: "nat \<Rightarrow> string" where
  "show_nat = show_base 10"

definition show_int :: "int \<Rightarrow> string" where
  "show_int i = (if i < 0 then ''-'' @ show_nat (nat (- i)) else show_nat (nat i))"

text \<open>\<open>{:#x}\<close> of an \<open>i32\<close> prints the bits of its two's complement.\<close>

definition show_hex :: "nat \<Rightarrow> string" where
  "show_hex n = ''0x'' @ show_base 16 n"


section \<open>Lists\<close>

lemma take_drop_append_left:
  "a + n \<le> length xs \<Longrightarrow> take n (drop a (xs @ ys)) = take n (drop a xs)"
  by simp

lemma sorted_wrt_less_distinct: "sorted_wrt (<) (xs :: nat list) \<Longrightarrow> distinct xs"
  using strict_sorted_iff by blast

lemma filter_upt_sorted: "sorted_wrt (<) (filter P [a..<b])"
  by (simp add: sorted_wrt_filter)

end
