(* ===== verification/Varint.thy ===== *)
theory Varint
  imports Prelude
begin

text \<open>
  The variable-length integers of \<open>src/varint.rs\<close>: \<open>decode_var_u32\<close> reads the prefix form used for
  lengths and counts in a program blob. The number of leading one bits of the first byte gives the
  number of bytes that follow; the remaining bits of the first byte are the high part of the value.

  The reference encoder \<open>encode_var\<close> is the natural-number encoding of the JAM Gray Paper
  restricted to 32 bits; the decoder inverts it, reads no byte past the encoding, and never looks
  past the length it reports.
\<close>

section \<open>The decoder\<close>

definition decode_var_u32 :: "u8 list \<Rightarrow> (u32 \<times> usize) option" where
  "decode_var_u32 data =
     (if data = [] then None
      else let first = data ! 0 in
      if first < 0x80 then Some (ucast first, 1)
      else if first < 0xC0 then
        (if length data < 2 then None
         else let high = ucast (first AND 0x3F) :: u32; low = ucast (data ! 1) :: u32
              in Some (push_bit 8 high OR low, 2))
      else if first < 0xE0 then
        (if length data < 3 then None
         else let high = ucast (first AND 0x1F) :: u32;
                  low = ucast (from_le_bytes [data ! 1, data ! 2] :: u16) :: u32
              in Some (push_bit 16 high OR low, 3))
      else if first < 0xF0 then
        (if length data < 4 then None
         else let high = ucast (first AND 0x0F) :: u32;
                  low = ucast (data ! 1) OR push_bit 8 (ucast (data ! 2))
                        OR push_bit 16 (ucast (data ! 3)) :: u32
              in Some (push_bit 24 high OR low, 4))
      else if first < 0xF8 then
        (if length data < 5 then None
         else if first \<noteq> 0xF0 then None
         else Some (from_le_bytes [data ! 1, data ! 2, data ! 3, data ! 4], 5))
      else None)"


text \<open>The value of each form, over the natural numbers.\<close>

lemma unat_low_bits: "unat (w AND mask k) = unat w mod 2 ^ k"
  by (simp only: take_bit_eq_mask [symmetric] unsigned_take_bit_eq) (simp only: take_bit_eq_mod)

lemma unat_and_masks:
  "unat (w AND 0x3F :: u8) = unat w mod 64"
  "unat (w AND 0x1F :: u8) = unat w mod 32"
  "unat (w AND 0x0F :: u8) = unat w mod 16"
  using unat_low_bits [of w 6] unat_low_bits [of w 5] unat_low_bits [of w 4]
  by (simp_all add: mask_eq_decr_exp)

lemma var_form2:
  "unat (push_bit 8 (ucast (f AND 0x3F :: u8)) OR ucast (b :: u8) :: u32) = (unat f mod 64) * 256 + unat b"
proof -
  have "(unat f mod 64) * 256 + unat b < 2 ^ 32"
    by (rule two_digit_less [where a = 64]) simp_all
  then show ?thesis by (subst unat_push_or) (simp_all add: unat_and_masks)
qed

lemma var_form3:
  "unat (push_bit 16 (ucast (f AND 0x1F :: u8)) OR ucast (from_le_bytes [a, b] :: u16) :: u32)
     = (unat f mod 32) * 65536 + le_nat [a, b]"
proof -
  have le: "unat (from_le_bytes [a, b] :: u16) = le_nat [a, b]" "le_nat [a, b] < 65536"
    using le_nat_bound [of "[a, b]"] by (simp_all add: unat_from_le_bytes del: le_nat.simps)
  moreover have "(unat f mod 32) * 65536 + le_nat [a, b] < 2 ^ 32"
    by (rule two_digit_less [OF _ le(2), where a = 32]) simp_all
  ultimately show ?thesis
    by (subst unat_push_or) (simp_all add: unat_and_masks del: le_nat.simps)
qed

lemma var_form4:
  "unat (push_bit 24 (ucast (f AND 0x0F :: u8)) OR
         (ucast (a :: u8) OR push_bit 8 (ucast (b :: u8)) OR push_bit 16 (ucast (c :: u8))) :: u32)
     = (unat f mod 16) * 16777216 + le_nat [a, b, c]"
proof -
  have ab: "unat (push_bit 8 (ucast b) OR ucast a :: u32) = unat b * 256 + unat a"
    by (subst unat_push_or)
      (auto intro: order.strict_trans2 [OF two_digit_less [where a = 256 and b = 256 and c = 65536]])
  have ab': "unat (push_bit 8 (ucast b) OR ucast a :: u32) < 65536"
    unfolding ab by (rule two_digit_less [where a = 256]) simp_all
  have "unat c * 65536 + (unat b * 256 + unat a) < 16777216"
    using ab' unfolding ab by (intro two_digit_less [where a = 256]) simp_all
  then have abc: "unat (push_bit 16 (ucast c) OR (push_bit 8 (ucast b) OR ucast a) :: u32) = le_nat [a, b, c]"
    using ab' by (subst unat_push_or) (simp_all add: ab)
  have bound: "le_nat [a, b, c] < 16777216"
    using le_nat_bound [of "[a, b, c]"] by (simp del: le_nat.simps)
  have "(unat f mod 16) * 16777216 + le_nat [a, b, c] < 2 ^ 32"
    by (rule two_digit_less [OF _ bound, where a = 16]) simp_all
  then have "unat (push_bit 24 (ucast (f AND 0x0F)) OR (push_bit 16 (ucast c) OR (push_bit 8 (ucast b) OR ucast a)) :: u32)
      = (unat f mod 16) * 16777216 + le_nat [a, b, c]"
    using bound by (subst unat_push_or) (simp_all add: abc unat_and_masks del: le_nat.simps)
  then show ?thesis by (simp only: ac_simps)
qed

lemmas var_forms = var_form2 var_form3 var_form4

section \<open>The forms in one equation\<close>

text \<open>The number of bytes after a first byte; \<open>None\<close> for the prefixes that no 32-bit value has.\<close>

definition prefix_len :: "u8 \<Rightarrow> nat option" where
  "prefix_len f = (if unat f < 128 then Some 0 else if unat f < 192 then Some 1
                   else if unat f < 224 then Some 2 else if unat f < 240 then Some 3
                   else if unat f = 240 then Some 4 else None)"

definition var_value :: "u8 \<Rightarrow> u8 list \<Rightarrow> nat" where
  "var_value f bs = (unat f mod 2 ^ (7 - length bs)) * 256 ^ length bs + le_nat bs"

lemma eq_of_natI: "unat w = n \<Longrightarrow> w = of_nat n"
  by auto

lemmas var_words = var_form2 [THEN eq_of_natI] var_form3 [THEN eq_of_natI] var_form4 [THEN eq_of_natI]

lemma decode_var_u32_forms:
  "decode_var_u32 (f # rest) =
     (case prefix_len f of None \<Rightarrow> None
      | Some l \<Rightarrow> if length rest < l then None
                  else Some (of_nat (var_value f (take l rest)), Suc l))"
proof -
  have cmp: "f < 0x80 \<longleftrightarrow> unat f < 128" "f < 0xC0 \<longleftrightarrow> unat f < 192" "f < 0xE0 \<longleftrightarrow> unat f < 224"
    "f < 0xF0 \<longleftrightarrow> unat f < 240" "f < 0xF8 \<longleftrightarrow> unat f < 248" "f = 0xF0 \<longleftrightarrow> unat f = 240"
    by (simp_all add: word_less_nat_alt word_eq_iff_unsigned [where ?'a = nat])
  consider "unat f < 128" | "128 \<le> unat f" "unat f < 192" | "192 \<le> unat f" "unat f < 224"
    | "224 \<le> unat f" "unat f < 240" | "unat f = 240" | "240 < unat f"
    by linarith
  then show ?thesis
  proof cases
    case 1
    then show ?thesis
      by (auto simp: decode_var_u32_def Let_def cmp prefix_len_def var_value_def intro!: eq_of_natI)
  next
    case 2
    then show ?thesis
      by (cases rest)
        (auto simp: decode_var_u32_def Let_def cmp prefix_len_def var_value_def var_words simp del: of_nat_add of_nat_mult)
  next
    case 3
    have "\<exists>a b ys. rest = a # b # ys" if "2 \<le> length rest"
      using that by (auto simp: numeral_2_eq_2 Suc_le_length_iff)
    with 3 show ?thesis
      by (cases "2 \<le> length rest")
        (auto simp: decode_var_u32_def Let_def cmp prefix_len_def var_value_def var_words
          simp del: of_nat_add of_nat_mult)
  next
    case 4
    have "\<exists>a b c ys. rest = a # b # c # ys" if "3 \<le> length rest"
      using that by (auto simp: numeral_3_eq_3 Suc_le_length_iff)
    with 4 show ?thesis
      by (cases "3 \<le> length rest")
        (auto simp: decode_var_u32_def Let_def cmp prefix_len_def var_value_def var_words
          simp del: of_nat_add of_nat_mult)
  next
    case 5
    have "\<exists>a b c d ys. rest = a # b # c # d # ys" if "4 \<le> length rest"
      using that by (auto simp: eval_nat_numeral Suc_le_length_iff)
    with 5 show ?thesis
      by (cases "4 \<le> length rest")
        (auto simp: decode_var_u32_def Let_def cmp prefix_len_def var_value_def from_le_bytes_def)
  next
    case 6
    then show ?thesis
      by (auto simp: decode_var_u32_def Let_def cmp prefix_len_def)
  qed
qed

section \<open>The reference encoder\<close>

definition var_len :: "nat \<Rightarrow> nat" where
  "var_len n = (if n < 2 ^ 7 then 0 else if n < 2 ^ 14 then 1 else if n < 2 ^ 21 then 2
                else if n < 2 ^ 28 then 3 else 4)"

definition encode_var :: "nat \<Rightarrow> u8 list" where
  "encode_var n = (let l = var_len n in
     of_nat (256 - 2 ^ (8 - l) + n div 256 ^ l) # to_le_bytes l n)"

lemma length_encode_var: "length (encode_var n) = Suc (var_len n)"
  by (simp add: encode_var_def Let_def)

lemma encode_first_byte:
  assumes "n < 2 ^ 32"
  defines "f \<equiv> of_nat (256 - 2 ^ (8 - var_len n) + n div 256 ^ var_len n) :: u8"
  shows "prefix_len f = Some (var_len n)"
    and "unat f mod 2 ^ (7 - var_len n) = n div 256 ^ var_len n"
proof -
  have q: "n div 256 < 64" if "n < 2 ^ 14" using that by simp
  have q': "n div 65536 < 32" if "n < 2 ^ 21" using that by simp
  have q'': "n div 16777216 < 16" if "n < 2 ^ 28" using that by simp
  have "256 - 2 ^ (8 - var_len n) + n div 256 ^ var_len n < 256"
    using assms(1) q q' q'' by (auto simp: var_len_def)
  then have unat_f: "unat f = 256 - 2 ^ (8 - var_len n) + n div 256 ^ var_len n"
    unfolding f_def by (intro unat_of_nat_small) simp
  show "prefix_len f = Some (var_len n)"
    using assms(1) q q' q'' unfolding prefix_len_def unat_f by (auto simp: var_len_def)
  have m: "(k * m + a) mod m = a" if "a < m" for a k m :: nat using that by simp
  show "unat f mod 2 ^ (7 - var_len n) = n div 256 ^ var_len n"
    using assms(1) q q' q'' m [of _ 64 2] m [of _ 32 6] m [of _ 16 14] unfolding unat_f
    by (auto simp: var_len_def)
qed


lemma var_round_trip:
  assumes "n < 2 ^ 32"
  shows "decode_var_u32 (encode_var n @ rest) = Some (of_nat n, length (encode_var n))"
proof -
  define l where "l = var_len n"
  define f where "f = (of_nat (256 - 2 ^ (8 - l) + n div 256 ^ l) :: u8)"
  have enc: "encode_var n = f # to_le_bytes l n"
    by (simp add: encode_var_def l_def f_def Let_def)
  have pre: "prefix_len f = Some l" and high: "unat f mod 2 ^ (7 - l) = n div 256 ^ l"
    using encode_first_byte [OF assms] by (simp_all add: l_def f_def)
  have "var_value f (to_le_bytes l n) = n div 256 ^ l * 256 ^ l + n mod 256 ^ l"
    by (simp add: var_value_def high byte_simps)
  also have "\<dots> = n" by (rule div_mult_mod_eq)
  finally show ?thesis
    by (simp add: enc decode_var_u32_forms pre)
qed

section \<open>Properties\<close>

text \<open>C30: decoding the Gray Paper encoding of any 32-bit number, whatever bytes follow it, returns
  that number and exactly the length of its encoding.\<close>

theorem decode_encode_var:
  assumes "n < 2 ^ 32"
  shows "decode_var_u32 (encode_var n @ rest) = Some (of_nat n, length (encode_var n))"
  by (rule var_round_trip [OF assms])

theorem decode_encode_var_witness:
  "decode_var_u32 (encode_var 16384 @ [7]) = Some (16384, length (encode_var 16384))"
  using decode_encode_var [of 16384 "[7]"] by simp

text \<open>A successful decode reports between one and five bytes, all inside the input, depends on
  those bytes only, and a value read from \<open>k \<le> 4\<close> bytes is below \<open>2 ^ (7 * k)\<close>.\<close>

theorem decode_var_u32_prefix:
  assumes "decode_var_u32 data = Some (v, k)"
  shows "1 \<le> k \<and> k \<le> 5 \<and> k \<le> length data \<and> decode_var_u32 (take k data @ junk) = Some (v, k)
    \<and> (k \<le> 4 \<longrightarrow> unat v < 2 ^ (7 * k))"
proof (cases data)
  case Nil
  with assms show ?thesis by (simp add: decode_var_u32_def)
next
  case (Cons f rest)
  with assms obtain l where pre: "prefix_len f = Some l" and len: "l \<le> length rest"
    and v: "v = of_nat (var_value f (take l rest))" and k: "k = Suc l"
    by (auto simp: decode_var_u32_forms split: option.splits if_splits)
  have l: "l \<le> 4" using pre by (auto simp: prefix_len_def split: if_splits)
  have bs: "length (take l rest) = l" using len by simp
  have "var_value f (take l rest) < 2 ^ (7 - l) * 256 ^ l"
    using le_nat_bound [of "take l rest"] unfolding var_value_def bs
    by (intro two_digit_less [where a = "2 ^ (7 - l)"]) simp_all
  also have "\<dots> = 2 ^ (7 - l + 8 * l)" by (simp add: power_add power_mult)
  also have "\<dots> \<le> 2 ^ (7 * k)" if "l \<le> 3" using that k by (intro power_increasing) auto
  finally have "unat v < 2 ^ (7 * k)" if "l \<le> 3"
    using that k unfolding v by (auto simp: unat_of_nat intro: le_less_trans [OF mod_less_eq_dividend])
  then show ?thesis
    using Cons len l k v by (simp add: decode_var_u32_forms pre)
qed

theorem decode_var_u32_prefix_witness:
  "decode_var_u32 (take 2 [0x81, 0x2c, 9] @ [1]) = Some (300, 2)"
  using decode_var_u32_prefix [of "[0x81, 0x2c, 9]" 300 2 "[1]"] by (simp add: decode_var_u32_def)

end
