(* ===== verification/Instruction.thy ===== *)
theory Instruction
  imports Prelude
begin

text \<open>
  Instructions and their classification (\<open>src/instruction.rs\<close>).

  \<^bold>\<open>instruction\<close> is the enum \<open>wasm_pvm::pvm::Instruction\<close> as the source uses it: \<open>classify\<close> matches
  all of its 140 variants without a wildcard and the decoder builds them, so their names and fields
  are known from the source. Variants with the same fields are grouped: the variant
  \<open>Instruction::Add32 {dst, src1, src2}\<close> is \<open>ThreeReg Add32 dst src1 src2\<close>, and so on for each
  decoding macro. \<open>AndR\<close>, \<open>OrR\<close>, \<open>XorR\<close>, \<open>MaxR\<close>, \<open>MinR\<close> are the variants \<open>And\<close>, \<open>Or\<close>, \<open>Xor\<close>, \<open>Max\<close>,
  \<open>Min\<close>; operators carry the prefix \<open>B\<close> (\<open>BinOp\<close>) or \<open>U\<close> (\<open>UnaryOp\<close>), shapes the prefix \<open>Sh\<close>.

  \<^bold>\<open>instruction_shape\<close> is \<open>InstructionShape\<close>, \<open>classify\<close> its constructor, and the accessors
  \<open>def_reg\<close>, \<open>def_use\<close>, \<open>is_terminator\<close>, \<open>branch_offset\<close>, \<open>is_conditional_branch\<close> and \<open>format_raw\<close>
  are its methods. The lemmas show that the accessors agree with each other and that classification
  identifies exactly the instructions that differ in a field no consumer reads.
\<close>

section \<open>Operators and widths\<close>

datatype (plugins only: code size) bin_op
  = BAdd | BSub | BMul | BDivU | BDivS | BRemU | BRemS | BShl | BShrU | BShrS | BAnd | BOr
  | BXor | BLtU | BLtS | BGeU | BGeS | BGtU | BGtS | BLeU | BLeS | BNegAdd | BRotL | BRotR
  | BMulUpperSS | BMulUpperUU | BMulUpperSU | BAndInv | BOrInv | BXnor | BMax | BMaxU | BMin
  | BMinU

primrec bin_op_display :: "bin_op \<Rightarrow> string" where
  "bin_op_display BAdd = ''+''"
| "bin_op_display BSub = ''-''"
| "bin_op_display BMul = ''*''"
| "bin_op_display BDivU = ''/u''"
| "bin_op_display BDivS = ''/s''"
| "bin_op_display BRemU = ''%u''"
| "bin_op_display BRemS = ''%s''"
| "bin_op_display BShl = ''<<''"
| "bin_op_display BShrU = ''>>u''"
| "bin_op_display BShrS = ''>>s''"
| "bin_op_display BAnd = ''&''"
| "bin_op_display BOr = ''|''"
| "bin_op_display BXor = ''^''"
| "bin_op_display BLtU = ''<u''"
| "bin_op_display BLtS = ''<s''"
| "bin_op_display BGeU = ''>=u''"
| "bin_op_display BGeS = ''>=s''"
| "bin_op_display BGtU = ''>u''"
| "bin_op_display BGtS = ''>s''"
| "bin_op_display BLeU = ''<=u''"
| "bin_op_display BLeS = ''<=s''"
| "bin_op_display BNegAdd = ''neg+''"
| "bin_op_display BRotL = ''rotl''"
| "bin_op_display BRotR = ''rotr''"
| "bin_op_display BMulUpperSS = ''mulhss''"
| "bin_op_display BMulUpperUU = ''mulhuu''"
| "bin_op_display BMulUpperSU = ''mulhsu''"
| "bin_op_display BAndInv = ''&~''"
| "bin_op_display BOrInv = ''|~''"
| "bin_op_display BXnor = ''xnor''"
| "bin_op_display BMax = ''max''"
| "bin_op_display BMaxU = ''maxu''"
| "bin_op_display BMin = ''min''"
| "bin_op_display BMinU = ''minu''"

datatype (plugins only: code size) unary_op
  = UNot | USext8 | USext16 | UZext16 | UPopcnt32 | UPopcnt64 | UClz32 | UClz64 | UCtz32
  | UCtz64 | USbrk | UBswap

primrec unary_op_display :: "unary_op \<Rightarrow> string" where
  "unary_op_display UNot = ''!''"
| "unary_op_display USext8 = ''sext8''"
| "unary_op_display USext16 = ''sext16''"
| "unary_op_display UZext16 = ''zext16''"
| "unary_op_display UPopcnt32 = ''popcnt32''"
| "unary_op_display UPopcnt64 = ''popcnt64''"
| "unary_op_display UClz32 = ''clz32''"
| "unary_op_display UClz64 = ''clz64''"
| "unary_op_display UCtz32 = ''ctz32''"
| "unary_op_display UCtz64 = ''ctz64''"
| "unary_op_display USbrk = ''sbrk''"
| "unary_op_display UBswap = ''bswap''"

datatype (plugins only: code size) mem_width
  = U8 | I8 | U16 | I16 | U32 | I32 | U64

primrec mem_width_display :: "mem_width \<Rightarrow> string" where
  "mem_width_display U8 = ''u8''"
| "mem_width_display I8 = ''i8''"
| "mem_width_display U16 = ''u16''"
| "mem_width_display I16 = ''i16''"
| "mem_width_display U32 = ''u32''"
| "mem_width_display I32 = ''i32''"
| "mem_width_display U64 = ''u64''"

primrec byte_size :: "mem_width \<Rightarrow> i64" where
  "byte_size U8 = 1" | "byte_size I8 = 1"
| "byte_size U16 = 2" | "byte_size I16 = 2"
| "byte_size U32 = 4" | "byte_size I32 = 4"
| "byte_size U64 = 8"

datatype bit_width = W32 | W64


section \<open>Instructions\<close>

datatype (plugins only: code size) three_reg_op
  = Add32 | Sub32 | Mul32 | DivU32 | DivS32 | RemU32 | RemS32 | ShloL32 | ShloR32 | SharR32
  | Add64 | Sub64 | Mul64 | DivU64 | DivS64 | RemU64 | RemS64 | ShloL64 | ShloR64 | SharR64
  | AndR | XorR | OrR | SetLtU | SetLtS | MulUpperSS | MulUpperUU | MulUpperSU | RotL64
  | RotL32 | RotR64 | RotR32 | AndInv | OrInv | Xnor | MaxR | MaxU | MinR | MinU

datatype (plugins only: code size) two_reg_op
  = Sbrk | CountSetBits64 | CountSetBits32 | LeadingZeroBits64 | LeadingZeroBits32
  | TrailingZeroBits64 | TrailingZeroBits32 | SignExtend8 | SignExtend16 | ZeroExtend16
  | MoveReg | ReverseBytes

datatype (plugins only: code size) two_reg_imm_op
  = AddImm32 | AddImm64 | SetLtUImm | SetLtSImm | AndImm | XorImm | OrImm | MulImm32
  | ShloLImm32 | ShloRImm32 | SharRImm32 | NegAddImm32 | SetGtUImm | SetGtSImm | ShloLImmAlt32
  | ShloRImmAlt32 | SharRImmAlt32 | MulImm64 | ShloLImm64 | ShloRImm64 | SharRImm64
  | NegAddImm64 | ShloLImmAlt64 | ShloRImmAlt64 | SharRImmAlt64 | RotRImm64 | RotRImmAlt64
  | RotRImm32 | RotRImmAlt32

datatype (plugins only: code size) load_ind_op
  = LoadIndU8 | LoadIndI8 | LoadIndU16 | LoadIndI16 | LoadIndU32 | LoadIndU64 | LoadIndI32

datatype store_ind_op
  = StoreIndU8 | StoreIndU16 | StoreIndU32 | StoreIndU64

datatype (plugins only: code size) branch_imm_op
  = BranchEqImm | BranchNeImm | BranchLtUImm | BranchLeUImm | BranchGeUImm | BranchGtUImm
  | BranchLtSImm | BranchLeSImm | BranchGeSImm | BranchGtSImm

datatype (plugins only: code size) branch_reg_op
  = BranchLtU | BranchGeU | BranchEq | BranchNe | BranchLtS | BranchGeS

datatype store_imm_op
  = StoreImmU8 | StoreImmU16 | StoreImmU32 | StoreImmU64

datatype (plugins only: code size) load_abs_op
  = LoadU8 | LoadI8 | LoadU16 | LoadI16 | LoadU32 | LoadI32 | LoadU64

datatype store_abs_op
  = StoreU8 | StoreU16 | StoreU32 | StoreU64

datatype store_imm_ind_op
  = StoreImmIndU8 | StoreImmIndU16 | StoreImmIndU32 | StoreImmIndU64

datatype (plugins only: code size) instruction
  = Trap | Fallthrough
  | LoadImm64 u8 u64
  | LoadImm u8 i32
  | Jump i32
  | JumpInd u8 i32
  | ThreeReg three_reg_op u8 u8 u8 \<comment> \<open>dst, src1, src2\<close>
  | TwoReg two_reg_op u8 u8 \<comment> \<open>dst, src\<close>
  | TwoRegImm two_reg_imm_op u8 u8 i32 \<comment> \<open>dst, src, value\<close>
  | LoadInd load_ind_op u8 u8 i32 \<comment> \<open>dst, base, offset\<close>
  | StoreInd store_ind_op u8 u8 i32 \<comment> \<open>base, src, offset\<close>
  | BranchImm branch_imm_op u8 i32 i32 \<comment> \<open>reg, value, offset\<close>
  | BranchReg branch_reg_op u8 u8 i32 \<comment> \<open>reg1, reg2, offset\<close>
  | Ecalli u32
  | StoreImm store_imm_op i32 i32 \<comment> \<open>address, value\<close>
  | LoadAbs load_abs_op u8 i32 \<comment> \<open>dst, address\<close>
  | StoreAbs store_abs_op u8 i32 \<comment> \<open>src, address\<close>
  | StoreImmInd store_imm_ind_op u8 i32 i32 \<comment> \<open>base, offset, value\<close>
  | LoadImmJump u8 i32 i32 \<comment> \<open>reg, value, offset\<close>
  | LoadImmJumpInd u8 u8 i32 i32 \<comment> \<open>base, dst, value, offset\<close>
  | CmovIzImm u8 u8 i32 \<comment> \<open>dst, cond, value\<close>
  | CmovNzImm u8 u8 i32
  | CmovIz u8 u8 u8 \<comment> \<open>dst, src, cond\<close>
  | CmovNz u8 u8 u8
  | Unknown u8 "u8 list" \<comment> \<open>opcode, raw bytes\<close>


section \<open>Shapes\<close>

datatype (plugins only: code size) instruction_shape
  = ShNoOp string
  | ShLoadImm u8 i64 \<comment> \<open>dst, value\<close>
  | ShBinReg bin_op bit_width u8 u8 u8 \<comment> \<open>op, width, dst, src1, src2\<close>
  | ShBinImm bin_op bit_width u8 u8 i32 \<comment> \<open>op, width, dst, src, value\<close>
  | ShUnary unary_op u8 u8 \<comment> \<open>op, dst, src\<close>
  | ShLoad mem_width u8 u8 i32 \<comment> \<open>width, dst, base, offset\<close>
  | ShStore mem_width u8 u8 i32 \<comment> \<open>width, base, src, offset\<close>
  | ShJump i32
  | ShJumpInd u8
  | ShBranchImm string u8 i32 i32 \<comment> \<open>cond, reg, value, offset\<close>
  | ShBranchReg string u8 u8 i32 \<comment> \<open>cond, reg1, reg2, offset\<close>
  | ShBinImmRev bin_op bit_width u8 u8 i32 \<comment> \<open>op, width, dst, src, value\<close>
  | ShCmovReg bool u8 u8 u8 \<comment> \<open>is_zero, dst, src, cond\<close>
  | ShCmovImm bool u8 u8 i32 \<comment> \<open>is_zero, dst, cond, value\<close>
  | ShLoadImmJump u8 i32 i32 \<comment> \<open>dst, value, offset\<close>
  | ShLoadImmJumpInd u8 u8 i32 \<comment> \<open>base, dst, value\<close>
  | ShLoadAbsolute mem_width u8 i32 \<comment> \<open>width, dst, address\<close>
  | ShStoreAbsolute mem_width u8 i32 \<comment> \<open>width, src, address\<close>
  | ShStoreImm mem_width i32 i32 \<comment> \<open>width, address, value\<close>
  | ShStoreImmInd mem_width u8 i32 i32 \<comment> \<open>width, base, offset, value\<close>
  | ShEcalli u32
  | ShUnknown u8

primrec three_reg_kind :: "three_reg_op \<Rightarrow> bin_op \<times> bit_width" where
  "three_reg_kind Add32 = (BAdd, W32)"
| "three_reg_kind Sub32 = (BSub, W32)"
| "three_reg_kind Mul32 = (BMul, W32)"
| "three_reg_kind DivU32 = (BDivU, W32)"
| "three_reg_kind DivS32 = (BDivS, W32)"
| "three_reg_kind RemU32 = (BRemU, W32)"
| "three_reg_kind RemS32 = (BRemS, W32)"
| "three_reg_kind ShloL32 = (BShl, W32)"
| "three_reg_kind ShloR32 = (BShrU, W32)"
| "three_reg_kind SharR32 = (BShrS, W32)"
| "three_reg_kind Add64 = (BAdd, W64)"
| "three_reg_kind Sub64 = (BSub, W64)"
| "three_reg_kind Mul64 = (BMul, W64)"
| "three_reg_kind DivU64 = (BDivU, W64)"
| "three_reg_kind DivS64 = (BDivS, W64)"
| "three_reg_kind RemU64 = (BRemU, W64)"
| "three_reg_kind RemS64 = (BRemS, W64)"
| "three_reg_kind ShloL64 = (BShl, W64)"
| "three_reg_kind ShloR64 = (BShrU, W64)"
| "three_reg_kind SharR64 = (BShrS, W64)"
| "three_reg_kind AndR = (BAnd, W32)"
| "three_reg_kind XorR = (BXor, W32)"
| "three_reg_kind OrR = (BOr, W32)"
| "three_reg_kind SetLtU = (BLtU, W32)"
| "three_reg_kind SetLtS = (BLtS, W32)"
| "three_reg_kind MulUpperSS = (BMulUpperSS, W64)"
| "three_reg_kind MulUpperUU = (BMulUpperUU, W64)"
| "three_reg_kind MulUpperSU = (BMulUpperSU, W64)"
| "three_reg_kind RotL64 = (BRotL, W64)"
| "three_reg_kind RotL32 = (BRotL, W32)"
| "three_reg_kind RotR64 = (BRotR, W64)"
| "three_reg_kind RotR32 = (BRotR, W32)"
| "three_reg_kind AndInv = (BAndInv, W64)"
| "three_reg_kind OrInv = (BOrInv, W64)"
| "three_reg_kind Xnor = (BXnor, W64)"
| "three_reg_kind MaxR = (BMax, W64)"
| "three_reg_kind MaxU = (BMaxU, W64)"
| "three_reg_kind MinR = (BMin, W64)"
| "three_reg_kind MinU = (BMinU, W64)"

primrec load_ind_width :: "load_ind_op \<Rightarrow> mem_width" where
  "load_ind_width LoadIndU8 = U8"
| "load_ind_width LoadIndI8 = I8"
| "load_ind_width LoadIndU16 = U16"
| "load_ind_width LoadIndI16 = I16"
| "load_ind_width LoadIndU32 = U32"
| "load_ind_width LoadIndU64 = U64"
| "load_ind_width LoadIndI32 = I32"

primrec store_ind_width :: "store_ind_op \<Rightarrow> mem_width" where
  "store_ind_width StoreIndU8 = U8"
| "store_ind_width StoreIndU16 = U16"
| "store_ind_width StoreIndU32 = U32"
| "store_ind_width StoreIndU64 = U64"

primrec load_abs_width :: "load_abs_op \<Rightarrow> mem_width" where
  "load_abs_width LoadU8 = U8"
| "load_abs_width LoadI8 = I8"
| "load_abs_width LoadU16 = U16"
| "load_abs_width LoadI16 = I16"
| "load_abs_width LoadU32 = U32"
| "load_abs_width LoadI32 = I32"
| "load_abs_width LoadU64 = U64"

primrec store_abs_width :: "store_abs_op \<Rightarrow> mem_width" where
  "store_abs_width StoreU8 = U8"
| "store_abs_width StoreU16 = U16"
| "store_abs_width StoreU32 = U32"
| "store_abs_width StoreU64 = U64"

primrec store_imm_width :: "store_imm_op \<Rightarrow> mem_width" where
  "store_imm_width StoreImmU8 = U8"
| "store_imm_width StoreImmU16 = U16"
| "store_imm_width StoreImmU32 = U32"
| "store_imm_width StoreImmU64 = U64"

primrec store_imm_ind_width :: "store_imm_ind_op \<Rightarrow> mem_width" where
  "store_imm_ind_width StoreImmIndU8 = U8"
| "store_imm_ind_width StoreImmIndU16 = U16"
| "store_imm_ind_width StoreImmIndU32 = U32"
| "store_imm_ind_width StoreImmIndU64 = U64"

primrec branch_imm_cond :: "branch_imm_op \<Rightarrow> string" where
  "branch_imm_cond BranchEqImm = ''==''"
| "branch_imm_cond BranchNeImm = ''!=''"
| "branch_imm_cond BranchLtUImm = ''<u''"
| "branch_imm_cond BranchLeUImm = ''<=u''"
| "branch_imm_cond BranchGeUImm = ''>=u''"
| "branch_imm_cond BranchGtUImm = ''>u''"
| "branch_imm_cond BranchLtSImm = ''<s''"
| "branch_imm_cond BranchLeSImm = ''<=s''"
| "branch_imm_cond BranchGeSImm = ''>=s''"
| "branch_imm_cond BranchGtSImm = ''>s''"

primrec branch_reg_cond :: "branch_reg_op \<Rightarrow> string" where
  "branch_reg_cond BranchLtU = ''<u''"
| "branch_reg_cond BranchGeU = ''>=u''"
| "branch_reg_cond BranchEq = ''==''"
| "branch_reg_cond BranchNe = ''!=''"
| "branch_reg_cond BranchLtS = ''<s''"
| "branch_reg_cond BranchGeS = ''>=s''"

primrec two_reg_imm_shape :: "two_reg_imm_op \<Rightarrow> u8 \<Rightarrow> u8 \<Rightarrow> i32 \<Rightarrow> instruction_shape" where
  "two_reg_imm_shape AddImm32 dst src value = ShBinImm BAdd W32 dst src value"
| "two_reg_imm_shape AddImm64 dst src value = ShBinImm BAdd W64 dst src value"
| "two_reg_imm_shape SetLtUImm dst src value = ShBinImm BLtU W32 dst src value"
| "two_reg_imm_shape SetLtSImm dst src value = ShBinImm BLtS W32 dst src value"
| "two_reg_imm_shape AndImm dst src value = ShBinImm BAnd W64 dst src value"
| "two_reg_imm_shape XorImm dst src value = ShBinImm BXor W64 dst src value"
| "two_reg_imm_shape OrImm dst src value = ShBinImm BOr W64 dst src value"
| "two_reg_imm_shape MulImm32 dst src value = ShBinImm BMul W32 dst src value"
| "two_reg_imm_shape ShloLImm32 dst src value = ShBinImm BShl W32 dst src value"
| "two_reg_imm_shape ShloRImm32 dst src value = ShBinImm BShrU W32 dst src value"
| "two_reg_imm_shape SharRImm32 dst src value = ShBinImm BShrS W32 dst src value"
| "two_reg_imm_shape NegAddImm32 dst src value = ShBinImm BNegAdd W32 dst src value"
| "two_reg_imm_shape SetGtUImm dst src value = ShBinImm BGtU W32 dst src value"
| "two_reg_imm_shape SetGtSImm dst src value = ShBinImm BGtS W32 dst src value"
| "two_reg_imm_shape ShloLImmAlt32 dst src value = ShBinImmRev BShl W32 dst src value"
| "two_reg_imm_shape ShloRImmAlt32 dst src value = ShBinImmRev BShrU W32 dst src value"
| "two_reg_imm_shape SharRImmAlt32 dst src value = ShBinImmRev BShrS W32 dst src value"
| "two_reg_imm_shape MulImm64 dst src value = ShBinImm BMul W64 dst src value"
| "two_reg_imm_shape ShloLImm64 dst src value = ShBinImm BShl W64 dst src value"
| "two_reg_imm_shape ShloRImm64 dst src value = ShBinImm BShrU W64 dst src value"
| "two_reg_imm_shape SharRImm64 dst src value = ShBinImm BShrS W64 dst src value"
| "two_reg_imm_shape NegAddImm64 dst src value = ShBinImm BNegAdd W64 dst src value"
| "two_reg_imm_shape ShloLImmAlt64 dst src value = ShBinImmRev BShl W64 dst src value"
| "two_reg_imm_shape ShloRImmAlt64 dst src value = ShBinImmRev BShrU W64 dst src value"
| "two_reg_imm_shape SharRImmAlt64 dst src value = ShBinImmRev BShrS W64 dst src value"
| "two_reg_imm_shape RotRImm64 dst src value = ShBinImm BRotR W64 dst src value"
| "two_reg_imm_shape RotRImmAlt64 dst src value = ShBinImmRev BRotR W64 dst src value"
| "two_reg_imm_shape RotRImm32 dst src value = ShBinImm BRotR W32 dst src value"
| "two_reg_imm_shape RotRImmAlt32 dst src value = ShBinImmRev BRotR W32 dst src value"

primrec two_reg_shape :: "two_reg_op \<Rightarrow> u8 \<Rightarrow> u8 \<Rightarrow> instruction_shape" where
  "two_reg_shape Sbrk dst src = ShUnary USbrk dst src"
| "two_reg_shape CountSetBits64 dst src = ShUnary UPopcnt64 dst src"
| "two_reg_shape CountSetBits32 dst src = ShUnary UPopcnt32 dst src"
| "two_reg_shape LeadingZeroBits64 dst src = ShUnary UClz64 dst src"
| "two_reg_shape LeadingZeroBits32 dst src = ShUnary UClz32 dst src"
| "two_reg_shape TrailingZeroBits64 dst src = ShUnary UCtz64 dst src"
| "two_reg_shape TrailingZeroBits32 dst src = ShUnary UCtz32 dst src"
| "two_reg_shape SignExtend8 dst src = ShUnary USext8 dst src"
| "two_reg_shape SignExtend16 dst src = ShUnary USext16 dst src"
| "two_reg_shape ZeroExtend16 dst src = ShUnary UZext16 dst src"
| "two_reg_shape MoveReg dst src = ShBinImm BAdd W64 dst src 0"
| "two_reg_shape ReverseBytes dst src = ShUnary UBswap dst src"

definition classify :: "instruction \<Rightarrow> instruction_shape" where
  "classify instr =
     (case instr of
        Trap \<Rightarrow> ShNoOp ''trap''
      | Fallthrough \<Rightarrow> ShNoOp ''fallthrough''
      | LoadImm reg value \<Rightarrow> ShLoadImm reg (scast value)
      | LoadImm64 reg value \<Rightarrow> ShLoadImm reg value
      | ThreeReg op dst src1 src2 \<Rightarrow> (case three_reg_kind op of (b, w) \<Rightarrow> ShBinReg b w dst src1 src2)
      | CmovIz dst src cond \<Rightarrow> ShCmovReg True dst src cond
      | CmovNz dst src cond \<Rightarrow> ShCmovReg False dst src cond
      | TwoRegImm op dst src value \<Rightarrow> two_reg_imm_shape op dst src value
      | TwoReg op dst src \<Rightarrow> two_reg_shape op dst src
      | CmovIzImm dst cond value \<Rightarrow> ShCmovImm True dst cond value
      | CmovNzImm dst cond value \<Rightarrow> ShCmovImm False dst cond value
      | LoadInd op dst base offset \<Rightarrow> ShLoad (load_ind_width op) dst base offset
      | StoreInd op base src offset \<Rightarrow> ShStore (store_ind_width op) base src offset
      | LoadAbs op dst address \<Rightarrow> ShLoadAbsolute (load_abs_width op) dst address
      | StoreAbs op src address \<Rightarrow> ShStoreAbsolute (store_abs_width op) src address
      | StoreImm op address value \<Rightarrow> ShStoreImm (store_imm_width op) address value
      | StoreImmInd op base offset value \<Rightarrow> ShStoreImmInd (store_imm_ind_width op) base offset value
      | Jump offset \<Rightarrow> ShJump offset
      | JumpInd reg offset \<Rightarrow> ShJumpInd reg
      | LoadImmJump reg value offset \<Rightarrow> ShLoadImmJump reg value offset
      | LoadImmJumpInd base dst value offset \<Rightarrow> ShLoadImmJumpInd base dst value
      | BranchImm op reg value offset \<Rightarrow> ShBranchImm (branch_imm_cond op) reg value offset
      | BranchReg op reg1 reg2 offset \<Rightarrow> ShBranchReg (branch_reg_cond op) reg2 reg1 offset
      | Ecalli index \<Rightarrow> ShEcalli index
      | Unknown opcode raw \<Rightarrow> ShUnknown opcode)"

lemma classify_simps [simp]:
  "classify Trap = ShNoOp ''trap''"
  "classify Fallthrough = ShNoOp ''fallthrough''"
  "classify (LoadImm reg value) = ShLoadImm reg (scast value)"
  "classify (LoadImm64 reg value64) = ShLoadImm reg value64"
  "classify (ThreeReg op5 dst src1 src2) = (case three_reg_kind op5 of (b, w) \<Rightarrow> ShBinReg b w dst src1 src2)"
  "classify (CmovIz dst src cond) = ShCmovReg True dst src cond"
  "classify (CmovNz dst src cond) = ShCmovReg False dst src cond"
  "classify (TwoRegImm op8 dst src value) = two_reg_imm_shape op8 dst src value"
  "classify (TwoReg op9 dst src) = two_reg_shape op9 dst src"
  "classify (CmovIzImm dst cond value) = ShCmovImm True dst cond value"
  "classify (CmovNzImm dst cond value) = ShCmovImm False dst cond value"
  "classify (LoadInd op12 dst base offset) = ShLoad (load_ind_width op12) dst base offset"
  "classify (StoreInd op13 base src offset) = ShStore (store_ind_width op13) base src offset"
  "classify (LoadAbs op14 dst address) = ShLoadAbsolute (load_abs_width op14) dst address"
  "classify (StoreAbs op15 src address) = ShStoreAbsolute (store_abs_width op15) src address"
  "classify (StoreImm op16 address value) = ShStoreImm (store_imm_width op16) address value"
  "classify (StoreImmInd op17 base offset value) = ShStoreImmInd (store_imm_ind_width op17) base offset value"
  "classify (Jump offset) = ShJump offset"
  "classify (JumpInd reg offset) = ShJumpInd reg"
  "classify (LoadImmJump reg value offset) = ShLoadImmJump reg value offset"
  "classify (LoadImmJumpInd base dst value offset) = ShLoadImmJumpInd base dst value"
  "classify (BranchImm op22 reg value offset) = ShBranchImm (branch_imm_cond op22) reg value offset"
  "classify (BranchReg op23 reg1 reg2 offset) = ShBranchReg (branch_reg_cond op23) reg2 reg1 offset"
  "classify (Ecalli index) = ShEcalli index"
  "classify (Unknown opcode raw) = ShUnknown opcode"
  by (simp_all only: classify_def instruction.case)



section \<open>Accessors\<close>

definition def_reg :: "instruction_shape \<Rightarrow> u8 option" where
  "def_reg shape =
     (case shape of
        ShLoadImm dst _ \<Rightarrow> Some dst
      | ShBinReg _ _ dst _ _ \<Rightarrow> Some dst
      | ShBinImm _ _ dst _ _ \<Rightarrow> Some dst
      | ShBinImmRev _ _ dst _ _ \<Rightarrow> Some dst
      | ShUnary _ dst _ \<Rightarrow> Some dst
      | ShLoad _ dst _ _ \<Rightarrow> Some dst
      | ShLoadAbsolute _ dst _ \<Rightarrow> Some dst
      | ShCmovReg _ dst _ _ \<Rightarrow> Some dst
      | ShCmovImm _ dst _ _ \<Rightarrow> Some dst
      | ShLoadImmJump dst _ _ \<Rightarrow> Some dst
      | ShLoadImmJumpInd _ dst _ \<Rightarrow> Some dst
      | _ \<Rightarrow> None)"

text \<open>The thirteen registers of the machine, \<open>0..=12\<close>.\<close>

definition all_regs :: "u8 list" where
  "all_regs = [0, 1, 2, 3, 4, 5, 6, 7, 8, 9, 10, 11, 12]"

definition def_use :: "instruction_shape \<Rightarrow> u8 list \<times> u8 list" where
  "def_use shape =
     (case shape of
        ShNoOp _ \<Rightarrow> ([], [])
      | ShLoadImm dst _ \<Rightarrow> ([dst], [])
      | ShBinReg _ _ dst src1 src2 \<Rightarrow> ([dst], [src1, src2])
      | ShBinImm _ _ dst src _ \<Rightarrow> ([dst], [src])
      | ShBinImmRev _ _ dst src _ \<Rightarrow> ([dst], [src])
      | ShUnary _ dst src \<Rightarrow> ([dst], [src])
      | ShLoad _ dst base _ \<Rightarrow> ([dst], [base])
      | ShStore _ base src _ \<Rightarrow> ([], [base, src])
      | ShLoadAbsolute _ dst _ \<Rightarrow> ([dst], [])
      | ShStoreAbsolute _ src _ \<Rightarrow> ([], [src])
      | ShStoreImm _ _ _ \<Rightarrow> ([], [])
      | ShStoreImmInd _ base _ _ \<Rightarrow> ([], [base])
      | ShCmovReg _ dst src cond \<Rightarrow> ([dst], [src, cond])
      | ShCmovImm _ dst cond _ \<Rightarrow> ([dst], [cond])
      | ShJump _ \<Rightarrow> ([], [])
      | ShJumpInd reg \<Rightarrow> ([], [reg])
      | ShLoadImmJump dst _ _ \<Rightarrow> ([dst], [])
      | ShLoadImmJumpInd base dst _ \<Rightarrow> ([dst], [base])
      | ShBranchImm _ reg _ _ \<Rightarrow> ([], [reg])
      | ShBranchReg _ reg1 reg2 _ \<Rightarrow> ([], [reg1, reg2])
      | ShEcalli _ \<Rightarrow> (all_regs, all_regs)
      | ShUnknown _ \<Rightarrow> (all_regs, all_regs))"

definition is_terminator :: "instruction_shape \<Rightarrow> bool" where
  "is_terminator shape =
     (case shape of
        ShJump _ \<Rightarrow> True
      | ShJumpInd _ \<Rightarrow> True
      | ShLoadImmJump _ _ _ \<Rightarrow> True
      | ShLoadImmJumpInd _ _ _ \<Rightarrow> True
      | ShBranchImm _ _ _ _ \<Rightarrow> True
      | ShBranchReg _ _ _ _ \<Rightarrow> True
      | ShNoOp name \<Rightarrow> name = ''trap''
      | _ \<Rightarrow> False)"

definition branch_offset :: "instruction_shape \<Rightarrow> i32 option" where
  "branch_offset shape =
     (case shape of
        ShJump offset \<Rightarrow> Some offset
      | ShLoadImmJump _ _ offset \<Rightarrow> Some offset
      | ShBranchImm _ _ _ offset \<Rightarrow> Some offset
      | ShBranchReg _ _ _ offset \<Rightarrow> Some offset
      | _ \<Rightarrow> None)"

definition is_conditional_branch :: "instruction_shape \<Rightarrow> bool" where
  "is_conditional_branch shape =
     (case shape of ShBranchImm _ _ _ _ \<Rightarrow> True | ShBranchReg _ _ _ _ \<Rightarrow> True | _ \<Rightarrow> False)"

definition width_suffix :: "bit_width \<Rightarrow> string" where
  "width_suffix w = (if w = W64 then ''64'' else [])"

definition show_reg :: "u8 \<Rightarrow> string" where
  "show_reg r = ''r'' @ show_nat (unat r)"

definition show_i32 :: "i32 \<Rightarrow> string" where
  "show_i32 v = show_int (sint v)"

definition zero_test :: "bool \<Rightarrow> string" where
  "zero_test is_zero = (if is_zero then ''== 0'' else ''!= 0'')"

text \<open>\<open>{:#04x}\<close>: at least four characters, zeros after the prefix.\<close>

definition show_opcode :: "u8 \<Rightarrow> string" where
  "show_opcode opcode =
     (if opcode < 16 then ''0x0'' @ show_base 16 (unat opcode) else show_hex (unat opcode))"

definition format_raw :: "instruction_shape \<Rightarrow> string" where
  "format_raw shape =
     (case shape of
        ShNoOp name \<Rightarrow> name
      | ShLoadImm dst value \<Rightarrow> show_reg dst @ '' = '' @ show_int (sint value)
      | ShBinReg op width dst src1 src2 \<Rightarrow>
          show_reg dst @ '' = '' @ show_reg src1 @ '' '' @ bin_op_display op @ width_suffix width
          @ '' '' @ show_reg src2
      | ShBinImm op width dst src value \<Rightarrow>
          show_reg dst @ '' = '' @ show_reg src @ '' '' @ bin_op_display op @ width_suffix width
          @ '' '' @ show_i32 value
      | ShUnary op dst src \<Rightarrow>
          show_reg dst @ '' = '' @ unary_op_display op @ ''('' @ show_reg src @ '')''
      | ShLoad width dst base offset \<Rightarrow>
          show_reg dst @ '' = '' @ mem_width_display width @ ''['' @ show_reg base @ '' + ''
          @ show_i32 offset @ '']''
      | ShStore width base src offset \<Rightarrow>
          mem_width_display width @ ''['' @ show_reg base @ '' + '' @ show_i32 offset @ ''] = ''
          @ show_reg src
      | ShJump offset \<Rightarrow> ''jump '' @ show_i32 offset
      | ShJumpInd reg \<Rightarrow> ''jump_ind '' @ show_reg reg
      | ShBranchImm cond reg value offset \<Rightarrow>
          ''if ('' @ show_reg reg @ '' '' @ cond @ '' '' @ show_i32 value @ '') jump '' @ show_i32 offset
      | ShBranchReg cond reg1 reg2 offset \<Rightarrow>
          ''if ('' @ show_reg reg1 @ '' '' @ cond @ '' '' @ show_reg reg2 @ '') jump '' @ show_i32 offset
      | ShBinImmRev op width dst src value \<Rightarrow>
          show_reg dst @ '' = '' @ show_i32 value @ '' '' @ bin_op_display op @ width_suffix width
          @ '' '' @ show_reg src
      | ShCmovReg is_zero dst src cond \<Rightarrow>
          ''if ('' @ show_reg cond @ '' '' @ zero_test is_zero @ '') '' @ show_reg dst @ '' = ''
          @ show_reg src
      | ShCmovImm is_zero dst cond value \<Rightarrow>
          ''if ('' @ show_reg cond @ '' '' @ zero_test is_zero @ '') '' @ show_reg dst @ '' = ''
          @ show_i32 value
      | ShLoadImmJump dst value offset \<Rightarrow>
          show_reg dst @ '' = '' @ show_i32 value @ ''; jump '' @ show_i32 offset
      | ShLoadImmJumpInd base dst value \<Rightarrow>
          show_reg dst @ '' = '' @ show_i32 value @ ''; jump_ind '' @ show_reg base
      | ShLoadAbsolute width dst address \<Rightarrow>
          show_reg dst @ '' = '' @ mem_width_display width @ ''['' @ show_hex (unat address) @ '']''
      | ShStoreAbsolute width src address \<Rightarrow>
          mem_width_display width @ ''['' @ show_hex (unat address) @ ''] = '' @ show_reg src
      | ShStoreImm width address value \<Rightarrow>
          mem_width_display width @ ''['' @ show_hex (unat address) @ ''] = '' @ show_i32 value
      | ShStoreImmInd width base offset value \<Rightarrow>
          mem_width_display width @ ''['' @ show_reg base @ '' + '' @ show_i32 offset @ ''] = ''
          @ show_i32 value
      | ShEcalli index \<Rightarrow> ''ecalli '' @ show_nat (unat index)
      | ShUnknown opcode \<Rightarrow> ''/* unknown opcode '' @ show_opcode opcode @ '' */'')"

lemmas accessor_defs = def_reg_def def_use_def is_terminator_def branch_offset_def
  is_conditional_branch_def



section \<open>What classification identifies\<close>

text \<open>The instruction with the fields that no shape keeps set to a canonical value.\<close>

definition normalize_instr :: "instruction \<Rightarrow> instruction" where
  "normalize_instr instr =
     (case instr of
        LoadImm reg value \<Rightarrow> LoadImm64 reg (scast value)
      | TwoReg op dst src \<Rightarrow> if op = MoveReg then TwoRegImm AddImm64 dst src 0 else instr
      | JumpInd reg _ \<Rightarrow> JumpInd reg 0
      | LoadImmJumpInd base dst value _ \<Rightarrow> LoadImmJumpInd base dst value 0
      | Unknown opcode _ \<Rightarrow> Unknown opcode []
      | _ \<Rightarrow> instr)"

lemma three_reg_kind_inject [simp]: "three_reg_kind a = three_reg_kind b \<longleftrightarrow> a = b"
  by (cases a; cases b) (simp_all only: three_reg_kind.simps three_reg_op.distinct prod.inject
      bin_op.distinct bit_width.distinct simp_thms)

lemma two_reg_imm_shape_inject:
  "two_reg_imm_shape a d s v = two_reg_imm_shape b d' s' v' \<longleftrightarrow> a = b \<and> d = d' \<and> s = s' \<and> v = v'"
  by (cases a; cases b) (simp_all only: two_reg_imm_shape.simps two_reg_imm_op.distinct
      instruction_shape.inject instruction_shape.distinct bin_op.distinct bit_width.distinct simp_thms)

lemma two_reg_shape_inject:
  "two_reg_shape a d s = two_reg_shape b d' s' \<longleftrightarrow> a = b \<and> d = d' \<and> s = s'"
  by (cases a; cases b) (simp_all only: two_reg_shape.simps two_reg_op.distinct
      instruction_shape.inject instruction_shape.distinct unary_op.distinct simp_thms)

lemma two_reg_shape_imm:
  "two_reg_shape a d s = two_reg_imm_shape b d' s' v \<longleftrightarrow>
     a = MoveReg \<and> b = AddImm64 \<and> d = d' \<and> s = s' \<and> v = 0"
  by (cases a; cases b) (simp_all only: two_reg_shape.simps two_reg_imm_shape.simps
      two_reg_op.distinct two_reg_imm_op.distinct instruction_shape.inject
      instruction_shape.distinct bin_op.distinct bit_width.distinct simp_thms, auto)

lemma load_ind_width_inject: "load_ind_width a = load_ind_width b \<longleftrightarrow> a = b"
  by (cases a; cases b; simp)

lemma store_ind_width_inject: "store_ind_width a = store_ind_width b \<longleftrightarrow> a = b"
  by (cases a; cases b; simp)

lemma load_abs_width_inject: "load_abs_width a = load_abs_width b \<longleftrightarrow> a = b"
  by (cases a; cases b; simp)

lemma store_abs_width_inject: "store_abs_width a = store_abs_width b \<longleftrightarrow> a = b"
  by (cases a; cases b; simp)

lemma store_imm_width_inject: "store_imm_width a = store_imm_width b \<longleftrightarrow> a = b"
  by (cases a; cases b; simp)

lemma store_imm_ind_width_inject: "store_imm_ind_width a = store_imm_ind_width b \<longleftrightarrow> a = b"
  by (cases a; cases b; simp)

lemma branch_imm_cond_inject: "branch_imm_cond a = branch_imm_cond b \<longleftrightarrow> a = b"
  by (cases a; cases b; simp)

lemma branch_reg_cond_inject: "branch_reg_cond a = branch_reg_cond b \<longleftrightarrow> a = b"
  by (cases a; cases b; simp)

lemmas kind_injects = three_reg_kind_inject two_reg_imm_shape_inject two_reg_shape_inject
  two_reg_shape_imm load_ind_width_inject store_ind_width_inject load_abs_width_inject
  store_abs_width_inject store_imm_width_inject store_imm_ind_width_inject
  branch_imm_cond_inject branch_reg_cond_inject

lemma classify_normalize: "classify (normalize_instr i) = classify i"
  by (cases i) (simp_all only: normalize_instr_def instruction.case classify_simps
      two_reg_shape.simps two_reg_imm_shape.simps if_distrib [where f = classify] if_cancel split: if_split, auto)

text \<open>An inverse on the shapes that classification produces.\<close>

definition unclassify :: "instruction_shape \<Rightarrow> instruction" where
  "unclassify shape =
     (case shape of
        ShNoOp name \<Rightarrow> if name = ''trap'' then Trap else Fallthrough
      | ShLoadImm dst value \<Rightarrow> LoadImm64 dst value
      | ShBinReg b w dst src1 src2 \<Rightarrow> ThreeReg (THE op. three_reg_kind op = (b, w)) dst src1 src2
      | ShBinImm _ _ dst src value \<Rightarrow>
          TwoRegImm (THE op. two_reg_imm_shape op dst src value = shape) dst src value
      | ShBinImmRev _ _ dst src value \<Rightarrow>
          TwoRegImm (THE op. two_reg_imm_shape op dst src value = shape) dst src value
      | ShUnary _ dst src \<Rightarrow> TwoReg (THE op. two_reg_shape op dst src = shape) dst src
      | ShLoad w dst base offset \<Rightarrow> LoadInd (THE op. load_ind_width op = w) dst base offset
      | ShStore w base src offset \<Rightarrow> StoreInd (THE op. store_ind_width op = w) base src offset
      | ShLoadAbsolute w dst address \<Rightarrow> LoadAbs (THE op. load_abs_width op = w) dst address
      | ShStoreAbsolute w src address \<Rightarrow> StoreAbs (THE op. store_abs_width op = w) src address
      | ShStoreImm w address value \<Rightarrow> StoreImm (THE op. store_imm_width op = w) address value
      | ShStoreImmInd w base offset value \<Rightarrow>
          StoreImmInd (THE op. store_imm_ind_width op = w) base offset value
      | ShJump offset \<Rightarrow> Jump offset
      | ShJumpInd reg \<Rightarrow> JumpInd reg 0
      | ShBranchImm c reg value offset \<Rightarrow> BranchImm (THE op. branch_imm_cond op = c) reg value offset
      | ShBranchReg c reg2 reg1 offset \<Rightarrow> BranchReg (THE op. branch_reg_cond op = c) reg1 reg2 offset
      | ShCmovReg z dst src cond \<Rightarrow> if z then CmovIz dst src cond else CmovNz dst src cond
      | ShCmovImm z dst cond value \<Rightarrow> if z then CmovIzImm dst cond value else CmovNzImm dst cond value
      | ShLoadImmJump dst value offset \<Rightarrow> LoadImmJump dst value offset
      | ShLoadImmJumpInd base dst value \<Rightarrow> LoadImmJumpInd base dst value 0
      | ShEcalli index \<Rightarrow> Ecalli index
      | ShUnknown opcode \<Rightarrow> Unknown opcode [])"

lemma two_reg_imm_shape_cases:
  "(\<exists>b w. two_reg_imm_shape op d s v = ShBinImm b w d s v) \<or>
   (\<exists>b w. two_reg_imm_shape op d s v = ShBinImmRev b w d s v)"
  by (cases op) (simp_all only: two_reg_imm_shape.simps instruction_shape.inject, simp_all)

lemma unclassify_two_reg_imm: "unclassify (two_reg_imm_shape op d s v) = TwoRegImm op d s v"
proof -
  have "(THE op'. two_reg_imm_shape op' d s v = two_reg_imm_shape op d s v) = op"
    by (simp add: two_reg_imm_shape_inject)
  then show ?thesis
    using two_reg_imm_shape_cases [of op d s v] by (auto simp: unclassify_def)
qed

lemma unclassify_two_reg: "unclassify (two_reg_shape op d s) = normalize_instr (TwoReg op d s)"
proof (cases "op = MoveReg")
  case True
  then have "two_reg_shape op d s = two_reg_imm_shape AddImm64 d s 0"
    by (simp add: two_reg_shape_imm)
  with True show ?thesis
    by (simp only: unclassify_two_reg_imm normalize_instr_def instruction.case if_True simp_thms)
next
  case False
  then obtain u where u: "two_reg_shape op d s = ShUnary u d s"
    by (cases op) (simp_all only: two_reg_shape.simps, auto)
  moreover have "(THE op'. two_reg_shape op' d s = two_reg_shape op d s) = op"
    by (simp add: two_reg_shape_inject)
  ultimately show ?thesis
    using False by (simp add: unclassify_def normalize_instr_def)
qed

lemma unclassify_three_reg: "unclassify (classify (ThreeReg op d s1 s2)) = ThreeReg op d s1 s2"
proof -
  obtain b w where k: "three_reg_kind op = (b, w)" by fastforce
  then have "(THE op'. three_reg_kind op' = (b, w)) = op" by (simp flip: k)
  with k show ?thesis by (simp add: unclassify_def)
qed

lemma unclassify_classify: "unclassify (classify i) = normalize_instr i"
proof (cases i)
  case (ThreeReg op d s1 s2)
  then show ?thesis by (simp only: unclassify_three_reg normalize_instr_def instruction.case)
next
  case (TwoReg op d s)
  then show ?thesis by (simp add: unclassify_two_reg)
next
  case (TwoRegImm op d s v)
  then show ?thesis by (simp add: unclassify_two_reg_imm normalize_instr_def)
qed (simp_all add: unclassify_def normalize_instr_def kind_injects)


section \<open>Properties\<close>

text \<open>Two instructions are classified alike exactly when they agree after the fields no shape keeps are
  erased (the width of a load-immediate, \<open>MoveReg\<close> as an addition of 0, the offset of an indirect
  jump, the raw bytes of an unknown instruction): classification loses nothing else.\<close>

theorem classify_eq_iff: "classify i = classify j \<longleftrightarrow> normalize_instr i = normalize_instr j"
  by (metis classify_normalize unclassify_classify)

text \<open>The accessors agree on every shape: \<open>def_reg\<close> names the register that \<open>def_use\<close> defines
  exactly when there is one, and a terminator is a shape with a static target, a trap, or one of
  the two indirect jumps; the conditional branches are the static targets that also fall through.\<close>

theorem accessors_agree:
  "(def_reg shape = Some r \<longleftrightarrow> fst (def_use shape) = [r]) \<and>
   (is_terminator shape \<longleftrightarrow> branch_offset shape \<noteq> None \<or> shape = ShNoOp ''trap''
      \<or> (\<exists>reg. shape = ShJumpInd reg) \<or> (\<exists>base dst value. shape = ShLoadImmJumpInd base dst value)) \<and>
   (is_conditional_branch shape \<longleftrightarrow> branch_offset shape \<noteq> None
      \<and> (\<forall>offset. shape \<noteq> ShJump offset) \<and> (\<forall>dst value offset. shape \<noteq> ShLoadImmJump dst value offset))"
  by (cases shape) (auto simp: accessor_defs all_regs_def)

theorem accessors_agree_witness:
  "is_terminator (ShJump 4) \<and> def_reg (ShLoadImm 1 5) = Some 1"
  using accessors_agree [of "ShJump 4"] accessors_agree [of "ShLoadImm 1 5" 1]
  by (simp add: branch_offset_def def_use_def)

lemma branch_offset_terminator: "branch_offset shape = Some x \<Longrightarrow> is_terminator shape"
  by (cases shape) (simp_all add: accessor_defs)

lemma conditional_has_offset: "is_conditional_branch shape \<Longrightarrow> \<exists>x. branch_offset shape = Some x"
  by (cases shape) (simp_all add: accessor_defs)

end
