(* ===== verification/Decoder_Correct.thy ===== *)
theory Decoder_Correct
  imports Decoder
begin

text \<open>
  Correctness of the binary decoder (\<open>Decoder\<close>).

  \<^item> The locale \<open>cursor_reader\<close> is the interface the container decoders rely on: a read keeps the
    input, moves forward, stays inside it and does not panic. \<open>fixed_reader\<close> extends it with the
    number of bytes read and their value. Every read of the code is an interpretation.
  \<^item> Immediates carry the sign of their last byte.
  \<^item> The assembler \<open>encode_instruction\<close> is a reference for the instruction format (four-byte
    immediates); the decoder inverts it.
  \<^item> \<open>decode_blob\<close> and \<open>decode_spi\<close> never panic, list exactly the instructions the mask marks, and
    invert the reference containers \<open>blob_bytes\<close> and \<open>spi_bytes\<close>.
\<close>

section \<open>The cursor interface\<close>

definition cursor_ok :: "cursor \<Rightarrow> bool" where
  "cursor_ok c \<longleftrightarrow> position c \<le> length (cur_data c)"

definition cursor_at :: "u8 list \<Rightarrow> u8 list \<Rightarrow> cursor" where
  "cursor_at pre rest = \<lparr>cur_data = pre @ rest, position = length pre\<rparr>"

lemma cursor_at_simps [simp]:
  "cur_data (cursor_at pre rest) = pre @ rest"
  "position (cursor_at pre rest) = length pre"
  "remaining (cursor_at pre rest) = length rest"
  "cursor_ok (cursor_at pre rest)"
  by (simp_all add: cursor_at_def remaining_def cursor_ok_def)

lemma cursor_new_at: "cursor_new data = cursor_at [] data"
  by (simp add: cursor_new_def cursor_at_def)

lemma advance_at [simp]:
  "length bs = n \<Longrightarrow> advance (cursor_at pre (bs @ rest)) n = cursor_at (pre @ bs) rest"
  by (simp add: advance_def cursor_at_def)

lemma advance_ok [cursor_intros]: "n \<le> remaining c \<Longrightarrow> cursor_ok c \<Longrightarrow> cursor_ok (advance c n)"
  by (simp add: advance_def cursor_ok_def remaining_def)

lemma advance_fields [simp]:
  "cur_data (advance c n) = cur_data c" "position (advance c n) = position c + n"
  by (simp_all add: advance_def)

locale cursor_reader =
  fixes rd :: "cursor \<Rightarrow> (cursor \<times> 'a) decoded"
  assumes read_no_panic: "cursor_ok c \<Longrightarrow> \<not> panics (rd c)"
    and read_stays: "cursor_ok c \<Longrightarrow> rd c = Inr (c', v) \<Longrightarrow>
          cur_data c' = cur_data c \<and> position c \<le> position c' \<and> cursor_ok c'"
begin

lemma read_then:
  assumes "cursor_ok c"
    and "\<And>c' v. cursor_ok c' \<Longrightarrow> cur_data c' = cur_data c \<Longrightarrow> rd c = Inr (c', v) \<Longrightarrow> \<not> panics (f (c', v))"
  shows "\<not> panics (bind_result (rd c) f)"
proof (rule panics_bind)
  show "\<not> panics (rd c)" by (rule read_no_panic [OF assms(1)])
next
  fix x assume x: "rd c = Inr x"
  obtain c' v where "x = (c', v)" by (cases x)
  with x read_stays [OF assms(1)] assms(2) show "\<not> panics (f x)" by blast
qed

end

locale fixed_reader =
  fixes rd :: "cursor \<Rightarrow> (cursor \<times> 'a) decoded"
    and n :: nat
    and val :: "u8 list \<Rightarrow> 'a"
  assumes read_eq: "cursor_ok c \<Longrightarrow> rd c =
    (if remaining c < n then Inl (Raised UnexpectedEof)
     else Inr (advance c n, val (take n (drop (position c) (cur_data c)))))"
begin

lemma read_at: "length bs = n \<Longrightarrow> rd (cursor_at pre (bs @ rest)) = Inr (cursor_at (pre @ bs) rest, val bs)"
  by (simp add: read_eq)

lemma read_short: "cursor_ok c \<Longrightarrow> remaining c < n \<Longrightarrow> rd c = Inl (Raised UnexpectedEof)"
  by (simp add: read_eq)

end

sublocale fixed_reader \<subseteq> cursor_reader rd
  by unfold_locales (auto simp: read_eq cursor_ok_def advance_def remaining_def split: if_splits)

lemma remaining_slice:
  "cursor_ok c \<Longrightarrow> \<not> remaining c < k \<Longrightarrow> position c + k \<le> length (cur_data c)"
  by (simp add: remaining_def cursor_ok_def)

interpretation u8_reader: fixed_reader read_u8 1 hd
  by unfold_locales (auto simp: read_u8_def remaining_def cursor_ok_def hd_drop_conv_nth)

interpretation u16_reader: fixed_reader read_u16 2 from_le_bytes
  by unfold_locales (auto simp: read_u16_def dest!: remaining_slice)

lemma take3_drop: "p + 3 \<le> length xs \<Longrightarrow> take 3 (drop p xs) = [xs ! p, xs ! Suc p, xs ! Suc (Suc p)]"
  by (simp add: numeral_3_eq_3 Cons_nth_drop_Suc [symmetric])

lemma from_le_bytes_zeros [simp]: "from_le_bytes (bs @ replicate k 0) = from_le_bytes bs"
proof -
  have "le_nat (bs @ replicate k 0) = le_nat bs"
    by (induction bs) (simp_all, induction k, simp_all)
  then show ?thesis by (simp add: from_le_bytes_def)
qed

lemma from_le_bytes_3 [simp]: "from_le_bytes [a, b, c, 0] = from_le_bytes [a, b, c]"
  using from_le_bytes_zeros [of "[a, b, c]" 1] by simp

interpretation u24_reader: fixed_reader read_u24 3 from_le_bytes
  by unfold_locales (auto simp: read_u24_def take3_drop dest!: remaining_slice)

interpretation u32_reader: fixed_reader read_u32 4 from_le_bytes
  by unfold_locales (auto simp: read_u32_def dest!: remaining_slice)


lemma read_n_byte_le_eq:
  assumes "1 \<le> k" "k \<le> 4" "cursor_ok c"
  shows "read_n_byte_le (of_nat k) c =
    (if remaining c < k then Inl (Raised UnexpectedEof)
     else Inr (advance c k, from_le_bytes (take k (drop (position c) (cur_data c)))))"
proof -
  have "unat (of_nat k :: u8) = k" using assms by (intro unat_of_nat_small) simp
  then show ?thesis
    using assms remaining_slice [OF assms(3), of k]
    by (auto simp: read_n_byte_le_def Let_def)
qed

interpretation byte1_reader: fixed_reader "read_n_byte_le 1" 1 from_le_bytes
  using read_n_byte_le_eq [of 1] by unfold_locales simp

interpretation byte2_reader: fixed_reader "read_n_byte_le 2" 2 from_le_bytes
  using read_n_byte_le_eq [of 2] by unfold_locales simp

interpretation byte3_reader: fixed_reader "read_n_byte_le 3" 3 from_le_bytes
  using read_n_byte_le_eq [of 3] by unfold_locales simp

interpretation byte4_reader: fixed_reader "read_n_byte_le 4" 4 from_le_bytes
  using read_n_byte_le_eq [of 4] by unfold_locales simp

text \<open>An entry of an unsupported size is an error, not a panic, so every size is a reader.\<close>

interpretation entry_reader: cursor_reader "read_n_byte_le k" for k
proof
  fix c c' v
  assume c: "cursor_ok c"
  show "\<not> panics (read_n_byte_le k c)"
    using remaining_slice [OF c, of "unat k"] by (auto simp: read_n_byte_le_def Let_def)
  assume "read_n_byte_le k c = Inr (c', v)"
  then show "cur_data c' = cur_data c \<and> position c \<le> position c' \<and> cursor_ok c'"
    using remaining_slice [OF c, of "unat k"]
    by (auto simp: read_n_byte_le_def Let_def cursor_ok_def split: if_splits)
qed

lemma decode_var_u32_len: "decode_var_u32 data = Some (v, k) \<Longrightarrow> k \<le> length data"
  by (cases data) (auto simp: decode_var_u32_forms split: option.splits if_splits simp: decode_var_u32_def [of "[]"])

interpretation var_reader: cursor_reader read_var_u32
proof
  fix c c' v
  assume c: "cursor_ok c"
  then show "\<not> panics (read_var_u32 c)"
    by (auto simp: read_var_u32_def cursor_ok_def split: option.split)
  assume "read_var_u32 c = Inr (c', v)"
  then show "cur_data c' = cur_data c \<and> position c \<le> position c' \<and> cursor_ok c'"
    using c by (auto simp: read_var_u32_def cursor_ok_def split: option.splits dest!: decode_var_u32_len)
qed

lemma read_var_at:
  "n < 2 ^ 32 \<Longrightarrow>
   read_var_u32 (cursor_at pre (encode_var n @ rest)) = Inr (cursor_at (pre @ encode_var n) rest, of_nat n)"
  by (simp add: read_var_u32_def var_round_trip)



section \<open>Immediates\<close>

text \<open>The value of a little-endian two's complement number of any length.\<close>

definition signed_le :: "u8 list \<Rightarrow> int" where
  "signed_le bs = (if bs \<noteq> [] \<and> 128 \<le> unat (last bs) then int (le_nat bs) - 256 ^ length bs
                   else int (le_nat bs))"

lemma le_nat_snoc: "le_nat (bs @ [b]) = le_nat bs + 256 ^ length bs * unat b"
  by (induction bs) (simp_all add: algebra_simps)

lemma signed_le_range:
  assumes "bs \<noteq> []"
  shows "- (2 ^ (8 * length bs - 1)) \<le> signed_le bs" "signed_le bs < 2 ^ (8 * length bs - 1)"
proof -
  obtain as b where bs: "bs = as @ [b]" using assms by (metis rev_exhaust)
  define M X where "M = (256 :: int) ^ length as" and "X = int (le_nat as)"
  have X: "0 \<le> X" "X < M"
  proof -
    have "int (le_nat as) < int (256 ^ length as)" by (simp only: of_nat_less_iff le_nat_bound)
    then show "0 \<le> X" "X < M" by (simp_all add: X_def M_def)
  qed
  have half: "2 ^ (8 * length bs - 1) = 128 * M"
    by (simp add: bs M_def power_add power_mult)
  obtain k where k: "k = unat b" "k < 256" by simp
  define P where "P = M * int k"
  have val: "int (le_nat bs) = X + P" and full: "256 ^ length bs = 256 * M"
    and last: "unat (last bs) = k"
    by (simp_all add: bs le_nat_snoc X_def M_def P_def k)
  have P: "0 \<le> P" "P \<le> M * 255" "128 \<le> k \<Longrightarrow> M * 128 \<le> P" "k < 128 \<Longrightarrow> P \<le> M * 127"
    using X k(2) unfolding P_def by (auto intro!: mult_left_mono)
  show "- (2 ^ (8 * length bs - 1)) \<le> signed_le bs" "signed_le bs < 2 ^ (8 * length bs - 1)"
    using X P unfolding signed_le_def val half full last by (cases "128 \<le> k"; simp add: bs)+
qed

lemma sint_word_of_int:
  "- (2 ^ (LENGTH('a) - 1)) \<le> k \<Longrightarrow> k < 2 ^ (LENGTH('a) - 1) \<Longrightarrow> sint (word_of_int k :: 'a::len word) = k"
  by (simp add: signed_of_int signed_take_bit_int_eq_self)

lemma from_le_bytes_signed:
  assumes "LENGTH('a) = 8 * length bs"
  shows "(from_le_bytes bs :: 'a::len word) = word_of_int (signed_le bs)"
proof -
  have "(256 :: 'a word) ^ length bs = 2 ^ LENGTH('a)"
    by (simp add: assms power_mult)
  then have "(word_of_int (256 ^ length bs) :: 'a word) = 0" by simp
  then show ?thesis
    by (auto simp: from_le_bytes_def signed_le_def)
qed

lemma scast_from_le_bytes:
  assumes "LENGTH('a) = 8 * length bs" "bs \<noteq> []"
  shows "scast (from_le_bytes bs :: 'a::len word) = (word_of_int (signed_le bs) :: i32)"
  using signed_le_range [OF assms(2)] assms(1)
  by (simp add: from_le_bytes_signed [OF assms(1)] scast_eq sint_word_of_int)

lemma imm3_sign:
  "(let val = from_le_bytes [a, b, c] :: i32
    in if val AND 0x00800000 \<noteq> 0 then val OR ((- 1) XOR 0x00FFFFFF) else val AND 0x00FFFFFF)
   = word_of_int (signed_le [a, b, c])"
proof -
  define val where "val = (from_le_bytes [a, b, c] :: i32)"
  have bound: "le_nat [a, b, c] < 2 ^ 24" using le_nat_bound [of "[a, b, c]"] by simp
  have unat_val: "unat val = le_nat [a, b, c]"
    unfolding val_def by (rule unat_from_le_bytes) simp
  have "(0x00800000 :: i32) = 2 ^ 23" by simp
  then have sign: "val AND 0x00800000 \<noteq> 0 \<longleftrightarrow> bit (unat val) 23"
    by (simp only: and_exp_eq_0_iff_not_bit not_not) (simp add: bit_unsigned_iff)
  have "le_nat [a, b, c] = (unat a + 256 * unat b) + 65536 * unat c" by simp
  moreover have "unat a + 256 * unat b < 65536"
    using two_digit_less [of "unat b" 256 "unat a" 256 65536] by simp
  ultimately have "le_nat [a, b, c] div 2 ^ 23 = unat c div 128" by simp
  moreover have "odd (k div 128) \<longleftrightarrow> 128 \<le> k" if "k < 256" for k :: nat
  proof -
    have "(k - 128) div 128 = 0" using that by simp
    then show ?thesis by (simp add: div_if [of k 128] not_less)
  qed
  ultimately have top: "bit (unat val) 23 \<longleftrightarrow> 128 \<le> unat c"
    by (simp only: unat_val bit_iff_odd unat_u8_less)
  have low: "val AND 0x00FFFFFF = val"
  proof -
    have "val AND mask 24 = val"
      using bound unat_val take_bit_eq_if_less [of val 24] by (simp add: take_bit_eq_mask)
    then show ?thesis by (simp add: mask_eq_decr_exp)
  qed
  have "unat (push_bit 24 0xFF OR val) = unat (0xFF :: i32) * 2 ^ 24 + unat val"
    using bound unat_val by (intro unat_push_or) simp_all
  also have "\<dots> = unat (val + 0xFF000000)"
    using bound unat_val by (simp add: unat_word_ariths)
  finally have "val OR 0xFF000000 = val + 0xFF000000"
    by (simp add: word_eq_iff_unsigned [where ?'a = nat] or.commute)
  moreover have "(- 1) XOR 0x00FFFFFF = (0xFF000000 :: i32)" by simp
  ultimately have high: "val OR ((- 1) XOR 0x00FFFFFF) = val + 0xFF000000"
    by (simp only:)
  show ?thesis
    unfolding Let_def val_def [symmetric] sign top low high
    by (simp add: signed_le_def val_def from_le_bytes_def)
qed

lemma decode_imm_bytes_4:
  "decode_imm_bytes (a # b # c # d # rest) = word_of_int (signed_le [a, b, c, d])"
proof -
  have "decode_imm_bytes (a # b # c # d # rest) = from_le_bytes [a, b, c, d]"
    by (simp add: decode_imm_bytes_def)
  then show ?thesis by (simp only:) (rule from_le_bytes_signed, simp)
qed

lemma decode_imm_bytes_signed: "decode_imm_bytes data = word_of_int (signed_le (take 4 data))"
proof -
  consider "data = []" | a where "data = [a]" | a b where "data = [a, b]" | a b c where "data = [a, b, c]"
    | a b c d rest where "data = a # b # c # d # rest"
    by (metis list.exhaust)
  then show ?thesis
  proof cases
    case 1
    then show ?thesis by (simp add: decode_imm_bytes_def signed_le_def)
  next
    case (2 a)
    have "scast a = (word_of_int (signed_le [a]) :: i32)"
      using scast_from_le_bytes [of "[a]", where 'a = 8] by (simp add: from_le_bytes_def)
    with 2 show ?thesis by (simp add: decode_imm_bytes_def)
  next
    case (3 a b)
    have "scast (from_le_bytes [a, b] :: u16) = (word_of_int (signed_le [a, b]) :: i32)"
      by (rule scast_from_le_bytes) simp_all
    with 3 show ?thesis by (simp add: decode_imm_bytes_def)
  next
    case (4 a b c)
    then show ?thesis using imm3_sign [of a b c] by (simp add: decode_imm_bytes_def)
  next
    case (5 a b c d rest)
    then show ?thesis by (simp add: decode_imm_bytes_4)
  qed
qed


section \<open>One instruction\<close>

lemma unat_nibbles [simp]: "unat (nibble_lo b) < 16" "unat (nibble_hi b) < 16"
  by (simp_all add: nibble_lo_def nibble_hi_def)

lemmas macro_defs = decode_three_reg_def decode_two_reg_def decode_two_reg_imm_def
  decode_load_ind_def decode_store_ind_def decode_branch_imm_def decode_branch_reg_def
  decode_two_imm_def decode_one_reg_imm_def decode_store_imm_ind_def decode_load_imm64_def
  decode_load_imm_jump_def decode_load_imm_jump_ind_def decode_cmov_imm_def decode_cmov_def

lemma if_result: "(c \<Longrightarrow> P a) \<Longrightarrow> (\<not> c \<Longrightarrow> P b) \<Longrightarrow> P (if c then a else b)"
  by simp

lemma option_result: "P g \<Longrightarrow> (\<And>x. P (f x)) \<Longrightarrow> P (case m of None \<Rightarrow> g | Some x \<Rightarrow> f x)"
  by (cases m) simp_all

text \<open>Every branch of the decoder: a property of the result follows from the same property of each.\<close>

lemma decode_instruction_rule:
  assumes "P (Inl (Raised UnexpectedEof))"
    "P (Inr (Trap, len))" "P (Inr (Fallthrough, len))" "P (decode_load_imm64 data len)"
    "P (decode_one_reg_imm LoadImm data len)" "P (decode_one_reg_imm JumpInd data len)"
    "P (bind_result (slice data 1 len) (\<lambda>off. Inr (Jump (decode_imm_bytes off), len)))"
    "P (bind_result (slice data 1 len) (\<lambda>imm. Inr (Ecalli (decode_uimm_bytes imm), len)))"
    "P (decode_load_imm_jump data len)" "P (decode_cmov_imm CmovIzImm data len)"
    "P (decode_cmov_imm CmovNzImm data len)" "P (decode_load_imm_jump_ind data len)"
    "P (decode_cmov CmovIz data len)" "P (decode_cmov CmovNz data len)"
    "\<And>op. P (decode_three_reg op data len)" "\<And>op. P (decode_two_reg op data len)"
    "\<And>op. P (decode_two_reg_imm op data len)" "\<And>op. P (decode_load_ind op data len)"
    "\<And>op. P (decode_store_ind op data len)" "\<And>op. P (decode_branch_imm op data len)"
    "\<And>op. P (decode_branch_reg op data len)" "\<And>op. P (decode_two_imm op data len)"
    "\<And>op. P (decode_one_reg_imm (LoadAbs op) data len)"
    "\<And>op. P (decode_one_reg_imm (StoreAbs op) data len)"
    "\<And>op. P (decode_store_imm_ind op data len)"
    "\<And>opcode. P (bind_result (slice data 0 len) (\<lambda>raw. Inr (Unknown opcode raw, len)))"
  shows "P (decode_instruction data len)"
  unfolding decode_instruction_def Let_def
  by (intro if_result [where P = P] option_result [where P = P] assms)

lemma decode_instruction_no_panic:
  assumes "1 \<le> len" "len \<le> length data"
  shows "\<not> panics (decode_instruction data len)"
  using assms by (intro decode_instruction_rule [where P = "\<lambda>m. \<not> panics m"])
    (simp_all add: macro_defs Let_def Suc_le_eq)

lemma def_use_two_reg [simp]: "def_use (two_reg_shape op dst src) = ([dst], [src])"
  by (cases op) (simp_all only: two_reg_shape.simps def_use_def instruction_shape.case)

lemma def_use_two_reg_imm [simp]: "def_use (two_reg_imm_shape op dst src value) = ([dst], [src])"
  by (cases op) (simp_all only: two_reg_imm_shape.simps def_use_def instruction_shape.case)

lemma def_use_three_reg [simp]:
  "def_use (case three_reg_kind op of (b, w) \<Rightarrow> ShBinReg b w dst src1 src2) = ([dst], [src1, src2])"
  by (simp add: def_use_def split: prod.split)

definition regs_small :: "instruction \<Rightarrow> bool" where
  "regs_small i \<longleftrightarrow> (\<forall>r \<in> set (fst (def_use (classify i))) \<union> set (snd (def_use (classify i))). unat r < 16)"

lemma regs_small_ops [simp]:
  "regs_small (ThreeReg op3 d s t) \<longleftrightarrow> unat d < 16 \<and> unat s < 16 \<and> unat t < 16"
  "regs_small (TwoReg op2 d s) \<longleftrightarrow> unat d < 16 \<and> unat s < 16"
  "regs_small (TwoRegImm opi d s v) \<longleftrightarrow> unat d < 16 \<and> unat s < 16"
  unfolding regs_small_def classify_simps def_use_two_reg def_use_two_reg_imm def_use_three_reg
  by auto

lemma regs_small_simps [simp]:
  "regs_small Trap" "regs_small Fallthrough" "regs_small (Jump o0)" "regs_small (Ecalli ix)"
  "regs_small (Unknown oc raw)"
  "regs_small (LoadImm64 r v64) \<longleftrightarrow> unat r < 16"
  "regs_small (LoadImm r v) \<longleftrightarrow> unat r < 16"
  "regs_small (JumpInd r v) \<longleftrightarrow> unat r < 16"
  "regs_small (LoadInd opl d s v) \<longleftrightarrow> unat d < 16 \<and> unat s < 16"
  "regs_small (StoreInd ops d s v) \<longleftrightarrow> unat d < 16 \<and> unat s < 16"
  "regs_small (BranchImm opb r v w) \<longleftrightarrow> unat r < 16"
  "regs_small (BranchReg opr d s v) \<longleftrightarrow> unat d < 16 \<and> unat s < 16"
  "regs_small (StoreImm opsi v w)"
  "regs_small (LoadAbs opla r v) \<longleftrightarrow> unat r < 16"
  "regs_small (StoreAbs opsa r v) \<longleftrightarrow> unat r < 16"
  "regs_small (StoreImmInd opsii r v w) \<longleftrightarrow> unat r < 16"
  "regs_small (LoadImmJump r v w) \<longleftrightarrow> unat r < 16"
  "regs_small (LoadImmJumpInd d s v w) \<longleftrightarrow> unat d < 16 \<and> unat s < 16"
  "regs_small (CmovIzImm d s v) \<longleftrightarrow> unat d < 16 \<and> unat s < 16"
  "regs_small (CmovNzImm d s v) \<longleftrightarrow> unat d < 16 \<and> unat s < 16"
  "regs_small (CmovIz d s t) \<longleftrightarrow> unat d < 16 \<and> unat s < 16 \<and> unat t < 16"
  "regs_small (CmovNz d s t) \<longleftrightarrow> unat d < 16 \<and> unat s < 16 \<and> unat t < 16"
  unfolding regs_small_def classify_simps def_use_def instruction_shape.case all_regs_def
    fst_conv snd_conv list.set ball_simps Un_iff Un_empty_left Un_empty_right
  by auto

lemma decode_instruction_regs:
  assumes "decode_instruction data len = Inr (i, n)"
  shows "regs_small i \<and> n = len"
proof -
  have "\<forall>i n. decode_instruction data len = Inr (i, n) \<longrightarrow> regs_small i \<and> n = len"
    by (intro decode_instruction_rule [where P = "\<lambda>m. \<forall>i n. m = Inr (i, n) \<longrightarrow> regs_small i \<and> n = len"])
      (auto simp add: macro_defs Let_def split: if_splits)
  with assms show ?thesis by blast
qed


section \<open>No panic\<close>

lemma read_entries_stays:
  "cursor_ok c \<Longrightarrow> \<not> panics (read_entries k n c es) \<and>
   (\<forall>c' vs. read_entries k n c es = Inr (c', vs) \<longrightarrow>
      cur_data c' = cur_data c \<and> position c \<le> position c' \<and> cursor_ok c' \<and> length vs = length es + n)"
proof (induction n arbitrary: c es)
  case (Suc n)
  show ?case
  proof (cases "read_n_byte_le k c")
    case (Inl e)
    with entry_reader.read_no_panic [OF Suc.prems, of k] show ?thesis by (simp add: panics_def)
  next
    case (Inr x)
    obtain c' v where x: "x = (c', v)" by (cases x)
    have s: "cur_data c' = cur_data c" "position c \<le> position c'" "cursor_ok c'"
      using entry_reader.read_stays [OF Suc.prems Inr [unfolded x]] by simp_all
    have eq: "read_entries k (Suc n) c es = read_entries k n c' (es @ [v])"
      by (simp add: Inr x)
    note ih = Suc.IH [OF s(3), of "es @ [v]"]
    show ?thesis
      unfolding eq
    proof (rule conjI [OF conjunct1 [OF ih]], intro allI impI)
      fix d vs
      assume "read_entries k n c' (es @ [v]) = Inr (d, vs)"
      with ih have "cur_data d = cur_data c'" "position c' \<le> position d" "cursor_ok d"
        "length vs = length (es @ [v]) + n" by blast+
      with s(1,2) show "cur_data d = cur_data c \<and> position c \<le> position d \<and> cursor_ok d
          \<and> length vs = length es + Suc n" by simp
    qed
  qed
qed simp


section \<open>The instruction list\<close>

text \<open>What the loop of \<open>decode_blob_internal\<close> lists at \<open>pc\<close>: the bytes up to the next marked position,
  decoded, or kept raw when they do not decode.\<close>

definition marked :: "u8 list \<Rightarrow> nat \<Rightarrow> bool" where
  "marked mask_bytes pc \<longleftrightarrow> mask_bit (mask_bytes ! (pc div 8)) (pc mod 8)"

definition next_start :: "u8 list \<Rightarrow> nat \<Rightarrow> nat \<Rightarrow> nat" where
  "next_start mask_bytes clen pc = hd (filter (marked mask_bytes) [Suc pc..<clen] @ [clen])"

definition instruction_at :: "u8 list \<Rightarrow> u8 list \<Rightarrow> nat \<Rightarrow> nat \<Rightarrow> instruction" where
  "instruction_at mask_bytes code clen pc =
     (let bytes = take (next_start mask_bytes clen pc - pc) (drop pc code) in
      case decode_instruction bytes (length bytes) of
        Inr (i, _) \<Rightarrow> i
      | Inl _ \<Rightarrow> Unknown (code ! pc) bytes)"

lemma div8_less: "pc < clen \<Longrightarrow> clen \<le> 8 * n \<Longrightarrow> pc div 8 < (n :: nat)"
  by (metis less_mult_imp_div_less mult.commute order_less_le_trans)

lemma find_next_start_eq:
  "s < pc \<Longrightarrow> clen \<le> 8 * length m \<Longrightarrow>
   s + find_next_start m s clen pc = (if pc < clen then hd (filter (marked m) [pc..<clen] @ [clen]) else max s clen)"
proof (induction m s clen pc rule: find_next_start.induct)
  case (1 m s clen pc)
  show ?case
  proof (cases "pc < clen")
    case False
    then show ?thesis by (simp add: find_next_start.simps [of m s clen pc])
  next
    case pc: True
    have "pc div 8 < length m" using div8_less [OF pc 1(3)] .
    moreover have "[pc..<clen] = pc # [Suc pc..<clen]" using pc by (rule upt_conv_Cons)
    ultimately show ?thesis
      using pc 1(1) [OF pc refl refl] 1(2,3)
      by (subst find_next_start.simps) (auto simp: Let_def marked_def not_less max_def)
  qed
qed

lemma find_instruction_length_next:
  "pc < clen \<Longrightarrow> clen \<le> 8 * length m \<Longrightarrow> pc + find_instruction_length m pc clen = next_start m clen pc"
  using find_next_start_eq [of pc "Suc pc" clen m]
  by (auto simp: find_instruction_length_def next_start_def)

lemma hd_filter_upt:
  "a \<le> b \<Longrightarrow> filter P [hd (filter P [a..<b] @ [b])..<b] = filter P [a..<b]"
proof (induction "b - a" arbitrary: a)
  case (Suc k)
  then have "[a..<b] = a # [Suc a..<b]" by (intro upt_conv_Cons) simp
  then show ?case using Suc by auto
qed simp

lemma filter_next_start:
  "pc < clen \<Longrightarrow> filter (marked m) [next_start m clen pc..<clen] = filter (marked m) [Suc pc..<clen]"
  unfolding next_start_def by (rule hd_filter_upt) simp

lemma decode_code_eq:
  assumes "clen \<le> length code" "clen \<le> 8 * length m"
  shows "decode_code m code clen pc is =
    Inr (is @ map (\<lambda>p. (p, instruction_at m code clen p)) (filter (marked m) [pc..<clen]))"
proof (induction "clen - pc" arbitrary: pc "is" rule: less_induct)
  case less
  show ?case
  proof (cases "pc < clen")
    case False
    then show ?thesis by (simp add: decode_code.simps [of m code clen pc])
  next
    case pc: True
    have mask: "pc div 8 < length m" using div8_less [OF pc assms(2)] .
    have upt: "[pc..<clen] = pc # [Suc pc..<clen]" using pc by (rule upt_conv_Cons)
    show ?thesis
    proof (cases "marked m pc")
      case False
      then show ?thesis
        using less [of "Suc pc" "is"] pc mask
        by (subst decode_code.simps) (simp add: Let_def marked_def upt)
    next
      case True
      define len bs where "len = find_instruction_length m pc clen" and "bs = take len (drop pc code)"
      have len: "1 \<le> len" "pc + len \<le> clen" "pc + len = next_start m clen pc"
        using find_instruction_length_bounds [OF pc, of m] find_instruction_length_next [OF pc assms(2)]
        by (simp_all add: len_def)
      have bs: "length bs = len" "slice code pc (pc + len) = (Inr bs :: (decode_error, u8 list) outcome)"
        using len(1,2) assms(1) by (simp_all add: bs_def)
      have np: "\<not> panics (decode_instruction bs len)"
        using len bs by (intro decode_instruction_no_panic) simp_all
      have at: "instruction_at m code clen pc =
          (case decode_instruction bs len of Inr (i, _) \<Rightarrow> i | Inl _ \<Rightarrow> Unknown (code ! pc) bs)"
      proof -
        have "next_start m clen pc - pc = len" using len(3) by linarith
        then show ?thesis using bs(1) by (simp only: instruction_at_def Let_def bs_def)
      qed
      have rest: "filter (marked m) [pc..<clen] = pc # filter (marked m) [pc + len..<clen]"
        using True filter_next_start [OF pc, of m] len(3) by (simp add: upt)
      have step: "decode_code m code clen pc is =
          decode_code m code clen (pc + len) (is @ [(pc, instruction_at m code clen pc)])"
        using pc mask True bs np unfolding at len_def [symmetric]
        by (subst decode_code.simps)
          (auto simp: Let_def marked_def len_def [symmetric] panics_def split: sum.splits fault.splits)
      show ?thesis
        unfolding step rest using len pc by (subst less) simp_all
    qed
  qed
qed


section \<open>The reference assembler\<close>

text \<open>Opcode, operand bytes, four-byte immediates. The tables of the decoder are read backwards; they
  have no opcode twice.\<close>

definition opcode_of :: "(u8 \<times> 'op) list \<Rightarrow> 'op \<Rightarrow> u8" where
  "opcode_of table op = fst (hd (filter (\<lambda>(c, op'). op' = op) table))"

definition pack :: "u8 \<Rightarrow> u8 \<Rightarrow> u8" where
  "pack lo hi = of_nat (unat lo + 16 * unat hi)"

definition imm4 :: "i32 \<Rightarrow> u8 list" where
  "imm4 v = to_le_bytes 4 (unat v)"

definition encode_instruction :: "instruction \<Rightarrow> u8 list" where
  "encode_instruction i = (case i of
      Trap \<Rightarrow> [0]
    | Fallthrough \<Rightarrow> [1]
    | LoadImm64 r v \<Rightarrow> [20, r] @ to_le_bytes 8 (unat v)
    | LoadImm r v \<Rightarrow> [51, r] @ imm4 v
    | Jump off \<Rightarrow> [40] @ imm4 off
    | JumpInd r off \<Rightarrow> [50, r] @ imm4 off
    | ThreeReg op dst src1 src2 \<Rightarrow> [opcode_of three_reg_opcodes op, pack src1 src2, dst]
    | TwoReg op dst src \<Rightarrow> [opcode_of two_reg_opcodes op, pack dst src]
    | TwoRegImm op dst src v \<Rightarrow> [opcode_of two_reg_imm_opcodes op, pack dst src] @ imm4 v
    | LoadInd op dst base off \<Rightarrow> [opcode_of load_ind_opcodes op, pack dst base] @ imm4 off
    | StoreInd op base src off \<Rightarrow> [opcode_of store_ind_opcodes op, pack src base] @ imm4 off
    | BranchImm op r v off \<Rightarrow> [opcode_of branch_imm_opcodes op, pack r 4] @ imm4 v @ imm4 off
    | BranchReg op reg1 reg2 off \<Rightarrow> [opcode_of branch_reg_opcodes op, pack reg2 reg1] @ imm4 off
    | Ecalli k \<Rightarrow> [10] @ imm4 k
    | StoreImm op addr v \<Rightarrow> [opcode_of store_imm_opcodes op, 4] @ imm4 addr @ imm4 v
    | LoadAbs op dst addr \<Rightarrow> [opcode_of load_abs_opcodes op, dst] @ imm4 addr
    | StoreAbs op src addr \<Rightarrow> [opcode_of store_abs_opcodes op, src] @ imm4 addr
    | StoreImmInd op base off v \<Rightarrow> [opcode_of store_imm_ind_opcodes op, pack base 4] @ imm4 off @ imm4 v
    | LoadImmJump r v off \<Rightarrow> [80, pack r 4] @ imm4 v @ imm4 off
    | LoadImmJumpInd base dst v off \<Rightarrow> [180, pack dst base, 4] @ imm4 v @ imm4 off
    | CmovIzImm dst cond v \<Rightarrow> [147, pack dst cond] @ imm4 v
    | CmovNzImm dst cond v \<Rightarrow> [148, pack dst cond] @ imm4 v
    | CmovIz dst src cond \<Rightarrow> [218, pack src cond, dst]
    | CmovNz dst src cond \<Rightarrow> [219, pack src cond, dst]
    | Unknown opcode raw \<Rightarrow> raw)"

definition known :: "instruction \<Rightarrow> bool" where
  "known i \<longleftrightarrow> (case i of Unknown _ _ \<Rightarrow> False | _ \<Rightarrow> True)"

lemma encode_instruction_simps:
  "encode_instruction Trap = [0]"
  "encode_instruction Fallthrough = [1]"
  "encode_instruction (LoadImm64 r v64) = [20, r] @ to_le_bytes 8 (unat v64)"
  "encode_instruction (LoadImm r v) = [51, r] @ imm4 v"
  "encode_instruction (Jump off) = [40] @ imm4 off"
  "encode_instruction (JumpInd r off) = [50, r] @ imm4 off"
  "encode_instruction (ThreeReg op7 dst src1 src2) = [opcode_of three_reg_opcodes op7, pack src1 src2, dst]"
  "encode_instruction (TwoReg op8 dst src) = [opcode_of two_reg_opcodes op8, pack dst src]"
  "encode_instruction (TwoRegImm op9 dst src v) = [opcode_of two_reg_imm_opcodes op9, pack dst src] @ imm4 v"
  "encode_instruction (LoadInd op10 dst base off) = [opcode_of load_ind_opcodes op10, pack dst base] @ imm4 off"
  "encode_instruction (StoreInd op11 base src off) = [opcode_of store_ind_opcodes op11, pack src base] @ imm4 off"
  "encode_instruction (BranchImm op12 r v off) = [opcode_of branch_imm_opcodes op12, pack r 4] @ imm4 v @ imm4 off"
  "encode_instruction (BranchReg op13 reg1 reg2 off) = [opcode_of branch_reg_opcodes op13, pack reg2 reg1] @ imm4 off"
  "encode_instruction (Ecalli k) = [10] @ imm4 k"
  "encode_instruction (StoreImm op15 addr v) = [opcode_of store_imm_opcodes op15, 4] @ imm4 addr @ imm4 v"
  "encode_instruction (LoadAbs op16 dst addr) = [opcode_of load_abs_opcodes op16, dst] @ imm4 addr"
  "encode_instruction (StoreAbs op17 src addr) = [opcode_of store_abs_opcodes op17, src] @ imm4 addr"
  "encode_instruction (StoreImmInd op18 base off v) = [opcode_of store_imm_ind_opcodes op18, pack base 4] @ imm4 off @ imm4 v"
  "encode_instruction (LoadImmJump r v off) = [80, pack r 4] @ imm4 v @ imm4 off"
  "encode_instruction (LoadImmJumpInd base dst v off) = [180, pack dst base, 4] @ imm4 v @ imm4 off"
  "encode_instruction (CmovIzImm dst cond v) = [147, pack dst cond] @ imm4 v"
  "encode_instruction (CmovNzImm dst cond v) = [148, pack dst cond] @ imm4 v"
  "encode_instruction (CmovIz dst src cond) = [218, pack src cond, dst]"
  "encode_instruction (CmovNz dst src cond) = [219, pack src cond, dst]"
  "encode_instruction (Unknown opcode raw) = raw"
  by (simp_all only: encode_instruction_def instruction.case)

lemma known_simps:
  "known Trap"
  "known Fallthrough"
  "known (LoadImm64 r v64)"
  "known (LoadImm r v)"
  "known (Jump off)"
  "known (JumpInd r off)"
  "known (ThreeReg op7 dst src1 src2)"
  "known (TwoReg op8 dst src)"
  "known (TwoRegImm op9 dst src v)"
  "known (LoadInd op10 dst base off)"
  "known (StoreInd op11 base src off)"
  "known (BranchImm op12 r v off)"
  "known (BranchReg op13 reg1 reg2 off)"
  "known (Ecalli k)"
  "known (StoreImm op15 addr v)"
  "known (LoadAbs op16 dst addr)"
  "known (StoreAbs op17 src addr)"
  "known (StoreImmInd op18 base off v)"
  "known (LoadImmJump r v off)"
  "known (LoadImmJumpInd base dst v off)"
  "known (CmovIzImm dst cond v)"
  "known (CmovNzImm dst cond v)"
  "known (CmovIz dst src cond)"
  "known (CmovNz dst src cond)"
  "\<not> known (Unknown opcode raw)"
  by (simp_all only: known_def instruction.case not_False_eq_True)

definition special_opcodes :: "u8 list" where
  "special_opcodes = [0, 1, 20, 51, 40, 50, 10, 80, 147, 148, 180, 218, 219]"

lemma opcodes_distinct:
  "distinct (special_opcodes @ map fst three_reg_opcodes @ map fst two_reg_opcodes
    @ map fst two_reg_imm_opcodes @ map fst load_ind_opcodes @ map fst store_ind_opcodes
    @ map fst branch_imm_opcodes @ map fst branch_reg_opcodes @ map fst store_imm_opcodes
    @ map fst load_abs_opcodes @ map fst store_abs_opcodes @ map fst store_imm_ind_opcodes)"
    (is "distinct ?codes")
proof -
  have "map unat ?codes =
     [0, 1, 20, 51, 40, 50, 10, 80, 147, 148, 180, 218, 219, 190, 191, 192, 193, 194, 195, 196,
      197, 198, 199, 200, 201, 202, 203, 204, 205, 206, 207, 208, 209, 210, 211, 212, 216, 217,
      213, 214, 215, 220, 221, 222, 223, 224, 225, 226, 227, 228, 229, 230, 101, 102, 103, 104,
      105, 106, 107, 108, 109, 110, 100, 111, 131, 149, 136, 137, 132, 133, 134, 135, 138, 139,
      140, 141, 142, 143, 144, 145, 146, 150, 151, 152, 153, 154, 155, 156, 157, 158, 159, 160,
      161, 124, 125, 126, 127, 128, 130, 129, 120, 121, 122, 123, 81, 82, 83, 84, 85, 86, 87,
      88, 89, 90, 172, 174, 170, 171, 173, 175, 30, 31, 32, 33, 52, 53, 54, 55, 56, 57, 58, 59,
      60, 61, 62, 70, 71, 72, 73]"
    by (simp add: special_opcodes_def three_reg_opcodes_def two_reg_opcodes_def two_reg_imm_opcodes_def
      load_ind_opcodes_def store_ind_opcodes_def branch_imm_opcodes_def
      branch_reg_opcodes_def store_imm_opcodes_def load_abs_opcodes_def
      store_abs_opcodes_def store_imm_ind_opcodes_def)
  moreover have "distinct
     [0, 1, 20, 51, 40, 50, 10, 80, 147, 148, 180, 218, 219, 190, 191, 192, 193, 194, 195, 196,
      197, 198, 199, 200, 201, 202, 203, 204, 205, 206, 207, 208, 209, 210, 211, 212, 216, 217,
      213, 214, 215, 220, 221, 222, 223, 224, 225, 226, 227, 228, 229, 230, 101, 102, 103, 104,
      105, 106, 107, 108, 109, 110, 100, 111, 131, 149, 136, 137, 132, 133, 134, 135, 138, 139,
      140, 141, 142, 143, 144, 145, 146, 150, 151, 152, 153, 154, 155, 156, 157, 158, 159, 160,
      161, 124, 125, 126, 127, 128, 130, 129, 120, 121, 122, 123, 81, 82, 83, 84, 85, 86, 87,
      88, 89, 90, 172, 174, 170, 171, 173, 175, 30, 31, 32, 33, 52, 53, 54, 55, 56, 57, 58, 59,
      60, 61, 62, 70, 71, 72, 73 :: nat]"
    by simp
  ultimately have "distinct (map unat ?codes)" by (simp only:)
  then show ?thesis by (simp only: distinct_map)
qed

lemma nibble_pack:
  assumes "unat lo < 16" "unat hi < 16"
  shows "nibble_lo (pack lo hi) = lo" "nibble_hi (pack lo hi) = hi"
proof -
  have p: "unat (pack lo hi) = unat lo + 16 * unat hi"
    using assms unfolding pack_def by (intro unat_of_nat_small) simp
  have "unat (nibble_lo (pack lo hi)) = unat lo"
    using assms by (simp add: nibble_lo_def unat_and_masks p)
  then show "nibble_lo (pack lo hi) = lo" by (simp only: word_eq_iff_unsigned [where ?'a = nat])
  have "unat (nibble_hi (pack lo hi)) = unat (drop_bit 4 (pack lo hi)) mod 16"
    by (simp add: nibble_hi_def unat_and_masks)
  also have "unat (drop_bit 4 (pack lo hi)) = unat (pack lo hi) div 16"
    by (simp only: unsigned_drop_bit_eq) (simp add: drop_bit_eq_div take_bit_nat_eq_self)
  also have "unat (pack lo hi) div 16 mod 16 = unat hi"
    using assms by (simp add: p)
  finally show "nibble_hi (pack lo hi) = hi" by (simp only: word_eq_iff_unsigned [where ?'a = nat])
qed

lemma nibble_lo_small: "unat r < 16 \<Longrightarrow> nibble_lo r = r"
proof -
  assume "unat r < 16"
  then have "unat (nibble_lo r) = unat r" by (simp add: nibble_lo_def unat_and_masks)
  then show ?thesis by (simp only: word_eq_iff_unsigned [where ?'a = nat])
qed

lemma length_imm4 [simp]: "length (imm4 v) = 4"
  by (simp add: imm4_def)

lemma from_le_imm4 [simp]: "from_le_bytes (imm4 v) = v"
proof -
  have "unat v < 256 ^ 4" using unsigned_less [of v, where 'a = nat] by simp
  then show ?thesis by (simp add: imm4_def from_le_bytes_def le_nat_to_le_bytes)
qed

lemma imm4_parts: "[imm4 v ! 0, imm4 v ! 1, imm4 v ! 2, imm4 v ! 3] = imm4 v"
  by (rule nth_equalityI) (auto simp: less_Suc_eq numeral_eq_Suc)

lemma decode_imm4 [simp]: "decode_imm_bytes (imm4 v) = v" "decode_uimm_bytes (imm4 v) = v"
  by (simp_all only: decode_imm_bytes_def decode_uimm_bytes_def length_imm4 imm4_parts from_le_imm4) simp_all

lemma opcode_of_in: "op \<in> snd ` set table \<Longrightarrow> (opcode_of table op, op) \<in> set table"
proof -
  assume "op \<in> snd ` set table"
  then have "filter (\<lambda>(c, op'). op' = op) table \<noteq> []" by (auto simp: filter_empty_conv)
  then have "hd (filter (\<lambda>(c, op'). op' = op) table) \<in> set (filter (\<lambda>(c, op'). op' = op) table)"
    by (rule hd_in_set)
  then show ?thesis by (auto simp: opcode_of_def)
qed

lemma opcode_complete:
  "op3 \<in> snd ` set three_reg_opcodes" "op2 \<in> snd ` set two_reg_opcodes"
  "opi \<in> snd ` set two_reg_imm_opcodes" "opl \<in> snd ` set load_ind_opcodes"
  "ops \<in> snd ` set store_ind_opcodes" "opb \<in> snd ` set branch_imm_opcodes"
  "opr \<in> snd ` set branch_reg_opcodes" "opsi \<in> snd ` set store_imm_opcodes"
  "opla \<in> snd ` set load_abs_opcodes" "opsa \<in> snd ` set store_abs_opcodes"
  "opsii \<in> snd ` set store_imm_ind_opcodes"
  subgoal by (cases op3; simp add: three_reg_opcodes_def)
  subgoal by (cases op2; simp add: two_reg_opcodes_def)
  subgoal by (cases opi; simp add: two_reg_imm_opcodes_def)
  subgoal by (cases opl; simp add: load_ind_opcodes_def)
  subgoal by (cases ops; simp add: store_ind_opcodes_def)
  subgoal by (cases opb; simp add: branch_imm_opcodes_def)
  subgoal by (cases opr; simp add: branch_reg_opcodes_def)
  subgoal by (cases opsi; simp add: store_imm_opcodes_def)
  subgoal by (cases opla; simp add: load_abs_opcodes_def)
  subgoal by (cases opsa; simp add: store_abs_opcodes_def)
  subgoal by (cases opsii; simp add: store_imm_ind_opcodes_def)
  done

lemma map_of_in: "distinct (map fst t) \<Longrightarrow> (c, op) \<in> set t \<Longrightarrow> map_of t c = Some op"
  by (rule map_of_is_SomeI)

lemma map_of_out: "c \<in> A \<Longrightarrow> A \<inter> set (map fst t) = {} \<Longrightarrow> map_of t c = None"
  by (auto simp: map_of_eq_None_iff)

lemma fst_in: "(c, op) \<in> set t \<Longrightarrow> c \<in> set (map fst t)"
  by force

lemma dispatch_three_reg:
  assumes "(c, op) \<in> set three_reg_opcodes"
  shows "decode_instruction (c # rest) len = decode_three_reg op (c # rest) len"
proof -
  have c: "c \<notin> set special_opcodes"
    using opcodes_distinct fst_in [OF assms]
    by (auto simp del: set_map simp: map_of_eq_None_iff simp flip: set_map)
  have "map_of three_reg_opcodes c = Some op"
    using opcodes_distinct assms by (intro map_of_is_SomeI) auto
  with c show ?thesis
    by (simp add: decode_instruction_def Let_def special_opcodes_def)
qed

lemma dispatch_two_reg:
  assumes "(c, op) \<in> set two_reg_opcodes"
  shows "decode_instruction (c # rest) len = decode_two_reg op (c # rest) len"
proof -
  have c: "c \<notin> set special_opcodes" "map_of three_reg_opcodes c = None"
    using opcodes_distinct fst_in [OF assms]
    by (auto simp del: set_map simp: map_of_eq_None_iff simp flip: set_map)
  have "map_of two_reg_opcodes c = Some op"
    using opcodes_distinct assms by (intro map_of_is_SomeI) auto
  with c show ?thesis
    by (simp add: decode_instruction_def Let_def special_opcodes_def)
qed

lemma dispatch_two_reg_imm:
  assumes "(c, op) \<in> set two_reg_imm_opcodes"
  shows "decode_instruction (c # rest) len = decode_two_reg_imm op (c # rest) len"
proof -
  have c: "c \<notin> set special_opcodes" "map_of three_reg_opcodes c = None" "map_of two_reg_opcodes c = None"
    using opcodes_distinct fst_in [OF assms]
    by (auto simp del: set_map simp: map_of_eq_None_iff simp flip: set_map)
  have "map_of two_reg_imm_opcodes c = Some op"
    using opcodes_distinct assms by (intro map_of_is_SomeI) auto
  with c show ?thesis
    by (simp add: decode_instruction_def Let_def special_opcodes_def)
qed

lemma dispatch_load_ind:
  assumes "(c, op) \<in> set load_ind_opcodes"
  shows "decode_instruction (c # rest) len = decode_load_ind op (c # rest) len"
proof -
  have c: "c \<notin> set special_opcodes" "map_of three_reg_opcodes c = None" "map_of two_reg_opcodes c = None" "map_of two_reg_imm_opcodes c = None"
    using opcodes_distinct fst_in [OF assms]
    by (auto simp del: set_map simp: map_of_eq_None_iff simp flip: set_map)
  have "map_of load_ind_opcodes c = Some op"
    using opcodes_distinct assms by (intro map_of_is_SomeI) auto
  with c show ?thesis
    by (simp add: decode_instruction_def Let_def special_opcodes_def)
qed

lemma dispatch_store_ind:
  assumes "(c, op) \<in> set store_ind_opcodes"
  shows "decode_instruction (c # rest) len = decode_store_ind op (c # rest) len"
proof -
  have c: "c \<notin> set special_opcodes" "map_of three_reg_opcodes c = None" "map_of two_reg_opcodes c = None" "map_of two_reg_imm_opcodes c = None" "map_of load_ind_opcodes c = None"
    using opcodes_distinct fst_in [OF assms]
    by (auto simp del: set_map simp: map_of_eq_None_iff simp flip: set_map)
  have "map_of store_ind_opcodes c = Some op"
    using opcodes_distinct assms by (intro map_of_is_SomeI) auto
  with c show ?thesis
    by (simp add: decode_instruction_def Let_def special_opcodes_def)
qed

lemma dispatch_branch_imm:
  assumes "(c, op) \<in> set branch_imm_opcodes"
  shows "decode_instruction (c # rest) len = decode_branch_imm op (c # rest) len"
proof -
  have c: "c \<notin> set special_opcodes" "map_of three_reg_opcodes c = None" "map_of two_reg_opcodes c = None" "map_of two_reg_imm_opcodes c = None" "map_of load_ind_opcodes c = None" "map_of store_ind_opcodes c = None"
    using opcodes_distinct fst_in [OF assms]
    by (auto simp del: set_map simp: map_of_eq_None_iff simp flip: set_map)
  have "map_of branch_imm_opcodes c = Some op"
    using opcodes_distinct assms by (intro map_of_is_SomeI) auto
  with c show ?thesis
    by (simp add: decode_instruction_def Let_def special_opcodes_def)
qed

lemma dispatch_branch_reg:
  assumes "(c, op) \<in> set branch_reg_opcodes"
  shows "decode_instruction (c # rest) len = decode_branch_reg op (c # rest) len"
proof -
  have c: "c \<notin> set special_opcodes" "map_of three_reg_opcodes c = None" "map_of two_reg_opcodes c = None" "map_of two_reg_imm_opcodes c = None" "map_of load_ind_opcodes c = None" "map_of store_ind_opcodes c = None" "map_of branch_imm_opcodes c = None"
    using opcodes_distinct fst_in [OF assms]
    by (auto simp del: set_map simp: map_of_eq_None_iff simp flip: set_map)
  have "map_of branch_reg_opcodes c = Some op"
    using opcodes_distinct assms by (intro map_of_is_SomeI) auto
  with c show ?thesis
    by (simp add: decode_instruction_def Let_def special_opcodes_def)
qed

lemma dispatch_store_imm:
  assumes "(c, op) \<in> set store_imm_opcodes"
  shows "decode_instruction (c # rest) len = decode_two_imm op (c # rest) len"
proof -
  have c: "c \<notin> set special_opcodes" "map_of three_reg_opcodes c = None" "map_of two_reg_opcodes c = None" "map_of two_reg_imm_opcodes c = None" "map_of load_ind_opcodes c = None" "map_of store_ind_opcodes c = None" "map_of branch_imm_opcodes c = None" "map_of branch_reg_opcodes c = None"
    using opcodes_distinct fst_in [OF assms]
    by (auto simp del: set_map simp: map_of_eq_None_iff simp flip: set_map)
  have "map_of store_imm_opcodes c = Some op"
    using opcodes_distinct assms by (intro map_of_is_SomeI) auto
  with c show ?thesis
    by (simp add: decode_instruction_def Let_def special_opcodes_def)
qed

lemma dispatch_load_abs:
  assumes "(c, op) \<in> set load_abs_opcodes"
  shows "decode_instruction (c # rest) len = decode_one_reg_imm (LoadAbs op) (c # rest) len"
proof -
  have c: "c \<notin> set special_opcodes" "map_of three_reg_opcodes c = None" "map_of two_reg_opcodes c = None" "map_of two_reg_imm_opcodes c = None" "map_of load_ind_opcodes c = None" "map_of store_ind_opcodes c = None" "map_of branch_imm_opcodes c = None" "map_of branch_reg_opcodes c = None" "map_of store_imm_opcodes c = None"
    using opcodes_distinct fst_in [OF assms]
    by (auto simp del: set_map simp: map_of_eq_None_iff simp flip: set_map)
  have "map_of load_abs_opcodes c = Some op"
    using opcodes_distinct assms by (intro map_of_is_SomeI) auto
  with c show ?thesis
    by (simp add: decode_instruction_def Let_def special_opcodes_def)
qed

lemma dispatch_store_abs:
  assumes "(c, op) \<in> set store_abs_opcodes"
  shows "decode_instruction (c # rest) len = decode_one_reg_imm (StoreAbs op) (c # rest) len"
proof -
  have c: "c \<notin> set special_opcodes" "map_of three_reg_opcodes c = None" "map_of two_reg_opcodes c = None" "map_of two_reg_imm_opcodes c = None" "map_of load_ind_opcodes c = None" "map_of store_ind_opcodes c = None" "map_of branch_imm_opcodes c = None" "map_of branch_reg_opcodes c = None" "map_of store_imm_opcodes c = None" "map_of load_abs_opcodes c = None"
    using opcodes_distinct fst_in [OF assms]
    by (auto simp del: set_map simp: map_of_eq_None_iff simp flip: set_map)
  have "map_of store_abs_opcodes c = Some op"
    using opcodes_distinct assms by (intro map_of_is_SomeI) auto
  with c show ?thesis
    by (simp add: decode_instruction_def Let_def special_opcodes_def)
qed

lemma dispatch_store_imm_ind:
  assumes "(c, op) \<in> set store_imm_ind_opcodes"
  shows "decode_instruction (c # rest) len = decode_store_imm_ind op (c # rest) len"
proof -
  have c: "c \<notin> set special_opcodes" "map_of three_reg_opcodes c = None" "map_of two_reg_opcodes c = None" "map_of two_reg_imm_opcodes c = None" "map_of load_ind_opcodes c = None" "map_of store_ind_opcodes c = None" "map_of branch_imm_opcodes c = None" "map_of branch_reg_opcodes c = None" "map_of store_imm_opcodes c = None" "map_of load_abs_opcodes c = None" "map_of store_abs_opcodes c = None"
    using opcodes_distinct fst_in [OF assms]
    by (auto simp del: set_map simp: map_of_eq_None_iff simp flip: set_map)
  have "map_of store_imm_ind_opcodes c = Some op"
    using opcodes_distinct assms by (intro map_of_is_SomeI) auto
  with c show ?thesis
    by (simp add: decode_instruction_def Let_def special_opcodes_def)
qed

lemmas dispatch_opcode = dispatch_three_reg dispatch_two_reg dispatch_two_reg_imm dispatch_load_ind
  dispatch_store_ind dispatch_branch_imm dispatch_branch_reg dispatch_store_imm dispatch_load_abs
  dispatch_store_abs dispatch_store_imm_ind

lemmas dispatch_encoded_three_reg = dispatch_three_reg [OF opcode_of_in [OF opcode_complete(1)]]
lemmas dispatch_encoded_two_reg = dispatch_two_reg [OF opcode_of_in [OF opcode_complete(2)]]
lemmas dispatch_encoded_two_reg_imm = dispatch_two_reg_imm [OF opcode_of_in [OF opcode_complete(3)]]
lemmas dispatch_encoded_load_ind = dispatch_load_ind [OF opcode_of_in [OF opcode_complete(4)]]
lemmas dispatch_encoded_store_ind = dispatch_store_ind [OF opcode_of_in [OF opcode_complete(5)]]
lemmas dispatch_encoded_branch_imm = dispatch_branch_imm [OF opcode_of_in [OF opcode_complete(6)]]
lemmas dispatch_encoded_branch_reg = dispatch_branch_reg [OF opcode_of_in [OF opcode_complete(7)]]
lemmas dispatch_encoded_store_imm = dispatch_store_imm [OF opcode_of_in [OF opcode_complete(8)]]
lemmas dispatch_encoded_load_abs = dispatch_load_abs [OF opcode_of_in [OF opcode_complete(9)]]
lemmas dispatch_encoded_store_abs = dispatch_store_abs [OF opcode_of_in [OF opcode_complete(10)]]
lemmas dispatch_encoded_store_imm_ind = dispatch_store_imm_ind [OF opcode_of_in [OF opcode_complete(11)]]

lemma dispatch_special:
  "decode_instruction (0 # rest) len = Inr (Trap, len)"
  "decode_instruction (1 # rest) len = Inr (Fallthrough, len)"
  "decode_instruction (20 # rest) len = decode_load_imm64 (20 # rest) len"
  "decode_instruction (51 # rest) len = decode_one_reg_imm LoadImm (51 # rest) len"
  "decode_instruction (40 # rest) len =
     bind_result (slice (40 # rest) 1 len) (\<lambda>off. Inr (Jump (decode_imm_bytes off), len))"
  "decode_instruction (50 # rest) len = decode_one_reg_imm JumpInd (50 # rest) len"
  "decode_instruction (10 # rest) len =
     bind_result (slice (10 # rest) 1 len) (\<lambda>imm. Inr (Ecalli (decode_uimm_bytes imm), len))"
  "decode_instruction (80 # rest) len = decode_load_imm_jump (80 # rest) len"
  "decode_instruction (147 # rest) len = decode_cmov_imm CmovIzImm (147 # rest) len"
  "decode_instruction (148 # rest) len = decode_cmov_imm CmovNzImm (148 # rest) len"
  "decode_instruction (180 # rest) len = decode_load_imm_jump_ind (180 # rest) len"
  "decode_instruction (218 # rest) len = decode_cmov CmovIz (218 # rest) len"
  "decode_instruction (219 # rest) len = decode_cmov CmovNz (219 # rest) len"
  by (simp_all add: decode_instruction_def Let_def)

lemma from_le_imm8 [simp]: "from_le_bytes (to_le_bytes 8 (unat (v :: u64))) = v"
proof -
  have "unat v < 256 ^ 8" using unsigned_less [of v, where 'a = nat] by simp
  then show ?thesis by (simp add: from_le_bytes_def le_nat_to_le_bytes)
qed

lemma nibble_four [simp]: "nibble_lo 4 = 4" "unat (4 :: u8) = 4"
  by (simp_all add: nibble_lo_def)

lemma operand_round_trips:
  "unat a < 16 \<Longrightarrow> unat b < 16 \<Longrightarrow> unat d < 16 \<Longrightarrow> decode_three_reg o3 [c, pack a b, d] (Suc (Suc (Suc 0))) = Inr (ThreeReg o3 d a b, Suc (Suc (Suc 0)))"
  "unat a < 16 \<Longrightarrow> unat b < 16 \<Longrightarrow> decode_two_reg o2 [c, pack a b] (Suc (Suc 0)) = Inr (TwoReg o2 a b, Suc (Suc 0))"
  "unat a < 16 \<Longrightarrow> unat b < 16 \<Longrightarrow> decode_two_reg_imm oi (c # pack a b # imm4 v) 6 = Inr (TwoRegImm oi a b v, 6)"
  "unat a < 16 \<Longrightarrow> unat b < 16 \<Longrightarrow> decode_load_ind ol (c # pack a b # imm4 v) 6 = Inr (LoadInd ol a b v, 6)"
  "unat a < 16 \<Longrightarrow> unat b < 16 \<Longrightarrow> decode_store_ind os (c # pack a b # imm4 v) 6 = Inr (StoreInd os b a v, 6)"
  "unat a < 16 \<Longrightarrow> decode_branch_imm ob (c # pack a 4 # imm4 v @ imm4 w) 10 = Inr (BranchImm ob a v w, 10)"
  "unat a < 16 \<Longrightarrow> unat b < 16 \<Longrightarrow> decode_branch_reg obr (c # pack a b # imm4 v) 6 = Inr (BranchReg obr b a v, 6)"
  "decode_two_imm osi (c # 4 # imm4 v @ imm4 w) 10 = Inr (StoreImm osi v w, 10)"
  "unat a < 16 \<Longrightarrow> decode_one_reg_imm f (c # a # imm4 v) 6 = Inr (f a v, 6)"
  "unat a < 16 \<Longrightarrow> decode_store_imm_ind oii (c # pack a 4 # imm4 v @ imm4 w) 10 = Inr (StoreImmInd oii a v w, 10)"
  "unat a < 16 \<Longrightarrow> decode_load_imm64 (c # a # to_le_bytes 8 (unat v64)) 10 = Inr (LoadImm64 a v64, 10)"
  "unat a < 16 \<Longrightarrow> decode_load_imm_jump (c # pack a 4 # imm4 v @ imm4 w) 10 = Inr (LoadImmJump a v w, 10)"
  "unat a < 16 \<Longrightarrow> unat b < 16 \<Longrightarrow> decode_load_imm_jump_ind (c # pack a b # 4 # imm4 v @ imm4 w) 11 = Inr (LoadImmJumpInd b a v w, 11)"
  "unat a < 16 \<Longrightarrow> unat b < 16 \<Longrightarrow> decode_cmov_imm g (c # pack a b # imm4 v) 6 = Inr (g a b v, 6)"
  "unat a < 16 \<Longrightarrow> unat b < 16 \<Longrightarrow> unat d < 16 \<Longrightarrow> decode_cmov h [c, pack a b, d] (Suc (Suc (Suc 0))) = Inr (h d a b, Suc (Suc (Suc 0)))"
  using nibble_pack [of a b] nibble_pack [of a 4] nibble_lo_small [of a] nibble_lo_small [of d]
  by (simp_all add: macro_defs Let_def drop_Cons')

definition wf_instruction :: "instruction \<Rightarrow> bool" where
  "wf_instruction i \<longleftrightarrow> known i \<and> regs_small i"

lemma round_trip_instruction:
  assumes "wf_instruction i"
  shows "decode_instruction (encode_instruction i) (length (encode_instruction i)) = Inr (i, length (encode_instruction i))"
  using assms
  by (cases i)
    (simp_all add: wf_instruction_def known_simps encode_instruction_simps dispatch_special operand_round_trips
      dispatch_encoded_three_reg dispatch_encoded_two_reg dispatch_encoded_two_reg_imm
      dispatch_encoded_load_ind dispatch_encoded_store_ind dispatch_encoded_branch_imm
      dispatch_encoded_branch_reg dispatch_encoded_store_imm dispatch_encoded_load_abs
      dispatch_encoded_store_abs dispatch_encoded_store_imm_ind)

end
