(* ===== verification/Container_Correct.thy ===== *)
theory Container_Correct
  imports Decoder_Correct
begin

text \<open>
  Correctness of the containers (\<open>decode_blob\<close>, \<open>decode_spi\<close>, \<open>try_strip_metadata\<close>) and the
  properties of the decoder as a whole. The reference encoders \<open>blob_bytes\<close> and \<open>spi_bytes\<close> write the
  two container formats; the decoders invert them, and never panic on any input.
\<close>

section \<open>Containers\<close>

lemma mask_covers: "n \<le> 8 * div_ceil n 8"
  unfolding div_ceil_def by presburger

lemma decode_code_total:
  "length code = clen \<Longrightarrow> length m = div_ceil clen 8 \<Longrightarrow>
   decode_code m code clen 0 [] = Inr (map (\<lambda>p. (p, instruction_at m code clen p)) (filter (marked m) [0..<clen]))"
  using decode_code_eq [of clen code m 0 "[]"] mask_covers [of clen] by simp

definition table_bytes :: "nat \<Rightarrow> u32 list \<Rightarrow> u8 list" where
  "table_bytes k entries = concat (map (\<lambda>e. to_le_bytes k (unat e)) entries)"

lemma read_entry_at:
  assumes "1 \<le> k" "k \<le> 4" "unat e < 256 ^ k"
  shows "read_n_byte_le (of_nat k) (cursor_at pre (to_le_bytes k (unat e) @ rest)) =
    Inr (cursor_at (pre @ to_le_bytes k (unat e)) rest, e)"
proof -
  have "from_le_bytes (to_le_bytes k (unat e)) = e"
    using assms(3) by (simp add: from_le_bytes_def le_nat_to_le_bytes)
  then show ?thesis by (simp add: read_n_byte_le_eq [OF assms(1,2)])
qed

lemma read_entries_at:
  assumes "1 \<le> k" "k \<le> 4" "\<forall>e \<in> set es. unat e < 256 ^ k"
  shows "read_entries (of_nat k) (length es) (cursor_at pre (table_bytes k es @ rest)) acc =
    Inr (cursor_at (pre @ table_bytes k es) rest, acc @ es)"
  using assms(3)
proof (induction es arbitrary: pre acc)
  case (Cons e es)
  then show ?case
    by (simp add: table_bytes_def read_entry_at [OF assms(1,2)])
qed (simp add: table_bytes_def)

text \<open>The reference encoder of a program blob: the counts, the table, the code and its mask.\<close>

definition blob_bytes :: "nat \<Rightarrow> u32 list \<Rightarrow> u8 list \<Rightarrow> u8 list \<Rightarrow> u8 list" where
  "blob_bytes k entries code mask_bytes =
     encode_var (length entries) @ [of_nat k] @ encode_var (length code) @ table_bytes k entries
       @ code @ mask_bytes"

lemma slice_mid [simp]:
  "n = length ys \<Longrightarrow> slice (xs @ ys @ zs) (length xs) (length xs + n) = Inr ys"
  by simp

lemma blob_round_trip:
  assumes "1 \<le> k" "k \<le> 4" "\<forall>e \<in> set es. unat e < 256 ^ k"
    "length es < 2 ^ 32" "length code < 2 ^ 32" "length m = div_ceil (length code) 8"
  shows "decode_blob_internal (blob_bytes k es code m @ junk) =
    Inr \<lparr>jump_table = es,
         instructions = map (\<lambda>p. (p, instruction_at m code (length code) p)) (filter (marked m) [0..<length code]),
         code_len = length code, memory_base = None\<rparr>"
proof -
  let ?E = "encode_var (length es)" and ?C = "encode_var (length code)" and ?T = "table_bytes k es"
  let ?K = "of_nat k :: u8"
  have k: "0 < ?K" "unat ?K = k" using assms(1,2) unat_of_nat_small [of k, where 'a = 8]
    by (simp_all add: word_less_nat_alt)
  have es: "unat (of_nat (length es) :: u32) = length es"
    using assms(4) by (intro unat_of_nat_small) simp
  have code: "unat (of_nat (length code) :: u32) = length code"
    using assms(5) by (intro unat_of_nat_small) simp
  let ?rest = "code @ m @ junk"
  have 1: "read_var_u32 (cursor_at [] (blob_bytes k es code m @ junk)) =
      Inr (cursor_at ?E ([?K] @ ?C @ ?T @ ?rest), of_nat (length es))"
    using read_var_at [OF assms(4), of "[]"] by (simp add: blob_bytes_def)
  have 2: "read_u8 (cursor_at ?E ([?K] @ ?C @ ?T @ ?rest)) = Inr (cursor_at (?E @ [?K]) (?C @ ?T @ ?rest), ?K)"
    using u8_reader.read_at [of "[?K]"] by simp
  have 3: "read_var_u32 (cursor_at (?E @ [?K]) (?C @ ?T @ ?rest)) =
      Inr (cursor_at ((?E @ [?K]) @ ?C) (?T @ ?rest), of_nat (length code))"
    by (rule read_var_at [OF assms(5)])
  have zero: "(0 :: u32) < of_nat (length es) \<longleftrightarrow> es \<noteq> []"
    using es by (simp add: word_less_nat_alt)
  have 4: "(if ?K > 0 \<and> (of_nat (length es) :: u32) > 0
        then read_entries ?K (unat (of_nat (length es) :: u32)) (cursor_at ((?E @ [?K]) @ ?C) (?T @ ?rest)) []
        else Inr (cursor_at ((?E @ [?K]) @ ?C) (?T @ ?rest), [])) =
      Inr (cursor_at (((?E @ [?K]) @ ?C) @ ?T) ?rest, es)"
    using read_entries_at [OF assms(1-3), of "(?E @ [?K]) @ ?C" ?rest "[]"] k(1)
    unfolding zero es by (cases "es = []") (simp_all add: table_bytes_def)
  have data: "blob_bytes k es code m @ junk = (((?E @ [?K]) @ ?C) @ ?T) @ code @ m @ junk"
    "blob_bytes k es code m @ junk = ((((?E @ [?K]) @ ?C) @ ?T) @ code) @ m @ junk"
    by (simp_all add: blob_bytes_def)
  note code_slice = slice_mid [of "length code" code "((?E @ [?K]) @ ?C) @ ?T" "m @ junk", folded data(1),
      where ?'b = decode_error]
  note mask_slice = slice_mid [of "length m" m "(((?E @ [?K]) @ ?C) @ ?T) @ code" junk, folded data(2),
      where ?'b = decode_error]
  show ?thesis
    unfolding decode_blob_internal_eq cursor_new_at 1 bind_result_simps case_prod_conv 2 3 4
    using code_slice mask_slice
    by (simp add: Let_def code assms(6) decode_code_total del: append_assoc)
qed


section \<open>What a decoded blob is, and that no input panics\<close>

lemma slice_within [simp]:
  "cursor_ok c \<Longrightarrow> \<not> remaining c < n \<Longrightarrow> cur_data c = data \<Longrightarrow>
   slice data (position c) (position c + n) = Inr (take n (drop (position c) data))"
  by (auto simp: remaining_def cursor_ok_def)

text \<open>The four reads before the code, as one reader.\<close>

definition read_header :: "cursor \<Rightarrow> (cursor \<times> u32 \<times> u8 \<times> u32 \<times> u32 list) decoded" where
  "read_header c0 =
     bind_result (read_var_u32 c0) (\<lambda>(c, jump_table_len).
     bind_result (read_u8 c) (\<lambda>(c, item_len).
     bind_result (read_var_u32 c) (\<lambda>(c, clen).
     bind_result
       (if item_len > 0 \<and> jump_table_len > 0 then read_entries item_len (unat jump_table_len) c []
        else Inr (c, [])) (\<lambda>(c, table). Inr (c, jump_table_len, item_len, clen, table)))))"

lemma bind_result_assoc_prod:
  "bind_result (bind_result m (\<lambda>(a, b). f a b)) g = bind_result m (\<lambda>(a, b). bind_result (f a b) g)"
  by (cases m) (simp_all add: split_beta)

lemma decode_blob_header:
  "decode_blob_internal data =
     bind_result (read_header (cursor_new data)) (\<lambda>(c, _, _, clen, table).
     if remaining c < unat clen then Inl (Raised UnexpectedEof)
     else
     bind_result (slice data (position c) (position c + unat clen)) (\<lambda>code_bytes.
     let c = advance c (unat clen); mask_len = div_ceil (unat clen) 8 in
     if remaining c < mask_len then Inl (Raised UnexpectedEof)
     else
     bind_result (slice data (position c) (position c + mask_len)) (\<lambda>mask_bytes.
     bind_result (decode_code mask_bytes code_bytes (unat clen) 0 []) (\<lambda>instrs.
       Inr \<lparr>jump_table = table, instructions = instrs, code_len = unat clen, memory_base = None\<rparr>))))"
  by (simp only: decode_blob_internal_eq read_header_def bind_result_assoc_prod bind_result_simps
      Let_def prod.case)

text \<open>Readers compose.\<close>

lemma reader_bind:
  assumes "cursor_reader rd" "\<And>v. cursor_reader (f v)"
  shows "cursor_reader (\<lambda>c. bind_result (rd c) (\<lambda>(c', v). f v c'))"
proof
  fix c assume c: "cursor_ok c"
  show "\<not> panics (bind_result (rd c) (\<lambda>(c', v). f v c'))"
    by (intro cursor_reader.read_then [OF assms(1) c])
      (simp add: cursor_reader.read_no_panic [OF assms(2)])
  fix d v assume "bind_result (rd c) (\<lambda>(c', v). f v c') = Inr (d, v)"
  then obtain c' u where "rd c = Inr (c', u)" "f u c' = Inr (d, v)" by auto
  then show "cur_data d = cur_data c \<and> position c \<le> position d \<and> cursor_ok d"
    using cursor_reader.read_stays [OF assms(1) c] cursor_reader.read_stays [OF assms(2)]
    by (metis order_trans)
qed

lemma reader_return: "cursor_reader (\<lambda>c. Inr (c, v))"
  by unfold_locales auto

lemma reader_if: "cursor_reader f \<Longrightarrow> cursor_reader g \<Longrightarrow> cursor_reader (\<lambda>c. if b then f c else g c)"
  by (cases b) simp_all

lemma reader_entries: "cursor_reader (\<lambda>c. read_entries k n c es)"
  using read_entries_stays by unfold_locales blast+

interpretation header_reader: cursor_reader read_header
  unfolding read_header_def [abs_def]
  by (intro reader_bind reader_return reader_if reader_entries var_reader.cursor_reader_axioms
      u8_reader.cursor_reader_axioms)

lemma decode_blob_shape:
  "(\<exists>e. decode_blob_internal data = Inl (Raised e)) \<or>
   (\<exists>c jl il clen table.
      let n = unat clen; code = take n (drop (position c) data);
          m = take (div_ceil n 8) (drop (position c + n) data) in
      read_header (cursor_new data) = Inr (c, jl, il, clen, table) \<and>
      position c + n + div_ceil n 8 \<le> length data \<and>
      decode_blob_internal data = Inr \<lparr>jump_table = table,
        instructions = map (\<lambda>p. (p, instruction_at m code n p)) (filter (marked m) [0..<n]),
        code_len = n, memory_base = None\<rparr>)"
proof (cases "read_header (cursor_new data)")
  case (Inl e)
  then have "\<not> panics (Inl e :: (decode_error, cursor) outcome)"
    using header_reader.read_no_panic [of "cursor_new data"] by (simp add: cursor_new_at panics_def)
  then obtain e' where "e = Raised e'" by (cases e) auto
  with Inl show ?thesis by (simp add: decode_blob_header)
next
  case (Inr x)
  obtain c jl il clen table where x: "x = (c, jl, il, clen, table)" by (cases x) auto
  have c: "cur_data c = data" "cursor_ok c"
    using header_reader.read_stays [OF _ Inr [unfolded x]] by (simp_all add: cursor_new_at)
  define n code m where "n = unat clen" and "code = take n (drop (position c) data)"
    and "m = take (div_ceil n 8) (drop (position c + n) data)"
  show ?thesis
  proof (cases "position c + n + div_ceil n 8 \<le> length data")
    case True
    then have "\<not> remaining c < n" "\<not> remaining (advance c n) < div_ceil n 8"
      "slice data (position c) (position c + n) = (Inr code :: (decode_error, u8 list) outcome)"
      "slice data (position (advance c n)) (position (advance c n) + div_ceil n 8) =
         (Inr m :: (decode_error, u8 list) outcome)"
      using c by (simp_all add: remaining_def code_def m_def)
    moreover have "length code = n" "length m = div_ceil n 8"
      using True by (simp_all add: code_def m_def)
    ultimately have "decode_blob_internal data = Inr \<lparr>jump_table = table,
        instructions = map (\<lambda>p. (p, instruction_at m code n p)) (filter (marked m) [0..<n]),
        code_len = n, memory_base = None\<rparr>"
      by (simp only: decode_blob_header Inr x bind_result_simps prod.case Let_def n_def [symmetric]
          if_False decode_code_total)
    with True Inr show ?thesis
      unfolding x n_def code_def m_def by (auto simp: Let_def)
  next
    case False
    then have "remaining c < n \<or> remaining (advance c n) < div_ceil n 8"
      using c by (auto simp: remaining_def cursor_ok_def)
    moreover have "slice data (position c) (position c + n) = (Inr code :: (decode_error, u8 list) outcome)"
      if "\<not> remaining c < n"
      using that c by (simp add: code_def)
    ultimately have "decode_blob_internal data = Inl (Raised UnexpectedEof)"
      by (auto simp: decode_blob_header Inr x Let_def n_def [symmetric])
    then show ?thesis by blast
  qed
qed

lemma decode_blob_internal_no_panic [simp]: "\<not> panics (decode_blob_internal data)"
  using decode_blob_shape [of data] by (auto simp: Let_def)


section \<open>The SPI container\<close>

lemma advance_cursor_ok [simp]: "cursor_ok c \<Longrightarrow> \<not> remaining c < n \<Longrightarrow> cursor_ok (advance c n)"
  by (rule advance_ok) simp

text \<open>The reads of the four sizes.\<close>

definition read_sizes :: "cursor \<Rightarrow> (cursor \<times> u32 \<times> u32 \<times> u16 \<times> u32) decoded" where
  "read_sizes c0 =
     bind_result (read_u24 c0) (\<lambda>(c, ro). bind_result (read_u24 c) (\<lambda>(c, rw).
     bind_result (read_u16 c) (\<lambda>(c, heap). bind_result (read_u24 c) (\<lambda>(c, stack).
       Inr (c, ro, rw, heap, stack)))))"

interpretation sizes_reader: cursor_reader read_sizes
  unfolding read_sizes_def [abs_def]
  by (intro reader_bind reader_return u24_reader.cursor_reader_axioms u16_reader.cursor_reader_axioms)

text \<open>What follows them: the data sections are skipped, the blob is delimited and decoded.\<close>

definition spi_body :: "u8 list \<Rightarrow> u32 \<Rightarrow> u32 \<Rightarrow> cursor \<Rightarrow> decoded_program decoded" where
  "spi_body data ro rw c =
     (if remaining c < unat ro then Inl (Raised UnexpectedEof)
      else let c = advance c (unat ro) in
      if remaining c < unat rw then Inl (Raised UnexpectedEof)
      else let c = advance c (unat rw) in
      bind_result (read_u32 c) (\<lambda>(c, blob_len).
      if remaining c < unat blob_len then Inl (Raised UnexpectedEof)
      else
      bind_result (slice data (position c) (position c + unat blob_len)) (\<lambda>code_blob.
      let c = advance c (unat blob_len) in
      if remaining c \<noteq> 0 then Inl (Raised TrailingData)
      else
      bind_result (decode_blob_internal code_blob) (\<lambda>program.
      Inr (program\<lparr>memory_base := Some (2 * SEGMENT_SIZE + align_to_segment_size ro)\<rparr>)))))"

lemma decode_spi_sizes:
  "decode_spi data =
     bind_result (read_sizes (cursor_new data)) (\<lambda>(c, ro, rw, _, _). spi_body data ro rw c)"
  by (simp only: decode_spi_def read_sizes_def spi_body_def bind_result_assoc_prod bind_result_simps
      Let_def prod.case)

lemma panics_map [simp]: "panics (bind_result m (\<lambda>x. Inr (g x))) \<longleftrightarrow> panics m"
  by (cases m) (simp_all add: panics_def)

lemma spi_body_no_panic:
  assumes "cursor_ok c" "cur_data c = data"
  shows "\<not> panics (spi_body data ro rw c)"
  using assms unfolding spi_body_def Let_def
  by (intro if_result [where P = "\<lambda>m. \<not> panics m"] u32_reader.read_then) (simp_all split: prod.split)

lemma decode_spi_no_panic: "\<not> panics (decode_spi data)"
  unfolding decode_spi_sizes
  by (rule sizes_reader.read_then) (simp_all add: cursor_new_at spi_body_no_panic split: prod.split)

lemma div_ceil_eq: "0 < b \<Longrightarrow> div_ceil n b = (n + (b - 1)) div b"
proof -
  assume b: "0 < b"
  obtain q r where n: "n = r + q * b" and r: "r < b"
    using b by (metis mod_div_mult_eq mod_less_divisor)
  have "(r + (b - 1)) div b = (if r = 0 then 0 else 1)"
    using b r by (cases r) (simp_all add: div_if)
  then have "(n + (b - 1)) div b = q + (if r = 0 then 0 else 1)"
    using b div_mult_self1 [of b "r + (b - 1)" q] by (simp add: n ac_simps)
  then show ?thesis using b r by (simp add: div_ceil_def n)
qed

lemma align_eq: "unat (align_to_segment_size v) = 65536 * ((unat v + 65535) div 65536)"
proof -
  define n where "n = unat v"
  have n: "n < 4294967296" using unsigned_less [of v, where 'a = nat] by (simp add: n_def)
  have ucast: "unat (ucast v :: u64) = n" by (simp add: n_def unat_ucast_widen)
  have zero: "(ucast v :: u64) = 0 \<longleftrightarrow> n = 0"
    using ucast by (simp add: word_eq_iff_unsigned [where ?'a = nat])
  have ceil: "div_ceil n 65536 = (n + 65535) div 65536"
    using div_ceil_eq [of 65536 n] by simp
  have small: "(n + 65535) div 65536 \<le> 65536" using n by simp
  then have "65536 * div_ceil n 65536 < 18446744073709551616" unfolding ceil by linarith
  then have k: "65536 * div_ceil n 65536 < 2 ^ LENGTH(64)" by simp
  have "(of_nat (div_ceil n 65536) * 65536 :: u64) = of_nat (65536 * div_ceil n 65536)" by simp
  then have "unat (of_nat (div_ceil n 65536) * 65536 :: u64) = 65536 * div_ceil n 65536"
    by (simp only: unat_of_nat_small [OF k])
  then show ?thesis
    unfolding align_to_segment_size_def Let_def zero ucast n_def [symmetric] SEGMENT_SIZE_def
    by (cases "n = 0") (simp_all add: ceil)
qed

text \<open>The reference encoder of the container.\<close>

definition spi_bytes :: "u8 list \<Rightarrow> u8 list \<Rightarrow> nat \<Rightarrow> nat \<Rightarrow> u8 list \<Rightarrow> u8 list" where
  "spi_bytes ro rw heap_pages stack_size blob =
     to_le_bytes 3 (length ro) @ to_le_bytes 3 (length rw) @ to_le_bytes 2 heap_pages
       @ to_le_bytes 3 stack_size @ ro @ rw @ to_le_bytes 4 (length blob) @ blob"

lemma read_sizes_at:
  "read_sizes (cursor_at [] (to_le_bytes 3 a @ to_le_bytes 3 b @ to_le_bytes 2 h @ to_le_bytes 3 s @ rest)) =
   Inr (cursor_at (to_le_bytes 3 a @ to_le_bytes 3 b @ to_le_bytes 2 h @ to_le_bytes 3 s) rest,
     from_le_bytes (to_le_bytes 3 a), from_le_bytes (to_le_bytes 3 b), from_le_bytes (to_le_bytes 2 h),
     from_le_bytes (to_le_bytes 3 s))"
  by (simp add: read_sizes_def u24_reader.read_at u16_reader.read_at)

lemma unat_le_bytes_small:
  "n < 256 ^ k \<Longrightarrow> 256 ^ k \<le> (2 :: nat) ^ LENGTH('a) \<Longrightarrow> unat (from_le_bytes (to_le_bytes k n) :: 'a::len word) = n"
  by (subst unat_from_le_bytes) (simp_all add: le_nat_to_le_bytes)

lemma spi_round_trip:
  assumes "length ro < 2 ^ 24" "length rw < 2 ^ 24" "length blob < 2 ^ 32"
  shows "decode_spi (spi_bytes ro rw h s blob @ junk) =
    (if junk \<noteq> [] then Inl (Raised TrailingData)
     else bind_result (decode_blob_internal blob) (\<lambda>p.
       Inr (p\<lparr>memory_base := Some (0x20000 + align_to_segment_size (of_nat (length ro)))\<rparr>)))"
proof -
  let ?H = "to_le_bytes 3 (length ro) @ to_le_bytes 3 (length rw) @ to_le_bytes 2 h @ to_le_bytes 3 s"
  have data: "spi_bytes ro rw h s blob @ junk = ?H @ ro @ rw @ to_le_bytes 4 (length blob) @ blob @ junk"
    by (simp add: spi_bytes_def)
  have sizes: "unat (from_le_bytes (to_le_bytes 3 (length ro)) :: u32) = length ro"
    "unat (from_le_bytes (to_le_bytes 3 (length rw)) :: u32) = length rw"
    "unat (from_le_bytes (to_le_bytes 4 (length blob)) :: u32) = length blob"
    using assms by (simp_all add: unat_le_bytes_small)
  have ro_len: "unat (of_nat (length ro) :: u32) = length ro"
    using assms(1) by (intro unat_of_nat_small) simp
  have ro: "(from_le_bytes (to_le_bytes 3 (length ro)) :: u32) = of_nat (length ro)"
    using sizes(1) by (rule eq_of_natI)
  have body: "spi_body data' (from_le_bytes (to_le_bytes 3 (length ro))) (from_le_bytes (to_le_bytes 3 (length rw)))
      (cursor_at pre (ro @ rw @ to_le_bytes 4 (length blob) @ blob @ junk)) =
    (if junk \<noteq> [] then Inl (Raised TrailingData)
     else bind_result (decode_blob_internal blob) (\<lambda>p.
       Inr (p\<lparr>memory_base := Some (0x20000 + align_to_segment_size (of_nat (length ro)))\<rparr>)))"
    if "data' = pre @ ro @ rw @ to_le_bytes 4 (length blob) @ blob @ junk" for data' pre
    using u32_reader.read_at [of "to_le_bytes 4 (length blob)" "(pre @ ro) @ rw" "blob @ junk"] that
    by (simp add: spi_body_def Let_def sizes ro ro_len SEGMENT_SIZE_def)
  show ?thesis
    unfolding decode_spi_sizes cursor_new_at data
    using read_sizes_at [of "length ro" "length rw" h s "ro @ rw @ to_le_bytes 4 (length blob) @ blob @ junk"]
    by (simp add: body)
qed


section \<open>The metadata prefix\<close>

lemma strip_cases:
  "try_strip_metadata data = Inr data \<or>
   (\<exists>pre meta rest. data = pre @ meta @ rest \<and> decode_var_u32 data = Some (of_nat (length meta), length pre) \<and>
      meta \<noteq> [] \<and> mostly_printable meta \<and> try_strip_metadata data = Inr rest)"
proof (cases "decode_var_u32 data")
  case None
  then show ?thesis by (simp add: try_strip_metadata_def)
next
  case (Some x)
  obtain mlen k where x: "x = (mlen, k)" by (cases x)
  define n where "n = unat mlen"
  show ?thesis
  proof (cases "data = [] \<or> n = 0 \<or> length data < k + n \<or> \<not> mostly_printable (take n (drop k data))")
    case True
    then show ?thesis
      by (auto simp: try_strip_metadata_def Some x Let_def n_def)
  next
    case False
    define pre meta rest where "pre = take k data" and "meta = take n (drop k data)"
      and "rest = drop (k + n) data"
    have kn: "k + n \<le> length data" using False by simp
    have len: "length pre = k" "length meta = n"
      using kn by (simp_all add: pre_def meta_def)
    have "drop k data = meta @ rest"
      using append_take_drop_id [of n "drop k data"] by (simp add: meta_def rest_def add.commute)
    then have data: "data = pre @ meta @ rest"
      using append_take_drop_id [of k data] by (simp add: pre_def)
    have strip: "try_strip_metadata data = Inr rest"
      using False kn by (simp add: try_strip_metadata_def Some x Let_def n_def [symmetric] rest_def meta_def)
    have "decode_var_u32 data = Some (of_nat (length meta), length pre)"
      unfolding len by (simp add: Some x n_def)
    moreover have "meta \<noteq> []" "mostly_printable meta"
      using False len by (auto simp: meta_def)
    ultimately show ?thesis using data strip by blast
  qed
qed

section \<open>Properties\<close>

lemma to_le_bytes_4:
  "to_le_bytes 4 n = [of_nat (n mod 256), of_nat (n div 256 mod 256), of_nat (n div 256 div 256 mod 256),
     of_nat (n div 256 div 256 div 256 mod 256)]"
proof -
  have "(4 :: nat) = Suc (Suc (Suc (Suc 0)))" by simp
  then show ?thesis by (simp only: to_le_bytes.simps)
qed

text \<open>Immediates are sign extended from their last byte: the value of the 32-bit word that
  \<open>decode_imm_bytes\<close> returns, read as a signed number, is the two's complement value of the first four
  bytes of the operand (of all of them, when there are fewer).\<close>

theorem decode_imm_sign_extends: "sint (decode_imm_bytes data) = signed_le (take 4 data)"
proof (cases "take 4 data = []")
  case True
  then show ?thesis by (simp add: decode_imm_bytes_signed signed_le_def)
next
  case False
  have "8 * length (take 4 data) - 1 \<le> 31" by simp
  then have "(2 :: int) ^ (8 * length (take 4 data) - 1) \<le> 2 ^ 31"
    by (rule power_increasing) simp
  then show ?thesis
    unfolding decode_imm_bytes_signed
    using signed_le_range [OF False] by (intro sint_word_of_int) simp_all
qed

text \<open>Every register operand of a decoded instruction is below 16, and the decoder consumes exactly
  the length it was given.\<close>

theorem decode_instruction_operands:
  assumes "decode_instruction data len = Inr (i, n)"
  shows "n = len \<and> (\<forall>r \<in> set (fst (def_use (classify i))) \<union> set (snd (def_use (classify i))). unat r < 16)"
  using decode_instruction_regs [OF assms] by (simp add: regs_small_def)

theorem decode_instruction_operands_witness:
  "decode_instruction [131, 0x21, 0xFF] 3 = Inr (TwoRegImm AddImm32 1 2 (- 1), 3) \<and>
   list_all (\<lambda>r. unat r < 16) (fst (def_use (classify (TwoRegImm AddImm32 1 2 (- 1))))
     @ snd (def_use (classify (TwoRegImm AddImm32 1 2 (- 1)))))"
proof
  show i: "decode_instruction [131, 0x21, 0xFF] 3 = Inr (TwoRegImm AddImm32 1 2 (- 1), 3)"
    by (simp add: dispatch_two_reg two_reg_imm_opcodes_def dispatch_two_reg_imm decode_two_reg_imm_def
        Let_def nibble_lo_def nibble_hi_def decode_imm_bytes_signed signed_le_def)
  show "list_all (\<lambda>r. unat r < 16) (fst (def_use (classify (TwoRegImm AddImm32 1 2 (- 1))))
     @ snd (def_use (classify (TwoRegImm AddImm32 1 2 (- 1)))))"
    unfolding list_all_iff set_append by (rule conjunct2 [OF decode_instruction_operands [OF i]])
qed

text \<open>C3: the decoder inverts the assembler: every instruction with registers below 16, other than the
  placeholder for undecodable bytes, is read back from its encoding, immediates included.\<close>

theorem decode_encode_instruction:
  assumes "wf_instruction i"
  shows "decode_instruction (encode_instruction i) (length (encode_instruction i)) =
    Inr (i, length (encode_instruction i))"
  by (rule round_trip_instruction [OF assms])

theorem decode_encode_instruction_witness:
  "decode_instruction [82, 0x47, 0xFE, 0xFF, 0xFF, 0xFF, 8, 0, 0, 0] 10 = Inr (BranchImm BranchNeImm 7 (- 2) 8, 10)"
  using decode_encode_instruction [of "BranchImm BranchNeImm 7 (- 2) 8"]
  by (simp add: wf_instruction_def known_simps encode_instruction_simps opcode_of_def
      branch_imm_opcodes_def pack_def imm4_def to_le_bytes_4)
      (simp add: eval_nat_numeral)

text \<open>The length of the jump table, when the three numbers at the start of a blob can be read.\<close>

definition announced_entries :: "u8 list \<Rightarrow> int option" where
  "announced_entries data = (case read_var_u32 (cursor_new data) of Inl _ \<Rightarrow> None | Inr (c, n) \<Rightarrow>
     (case read_u8 c of Inl _ \<Rightarrow> None | Inr (c', _) \<Rightarrow>
       (case read_var_u32 c' of Inl _ \<Rightarrow> None | Inr _ \<Rightarrow> Some (uint n))))"

lemma decode_blob_on_cases:
  "decode_blob_on bits data = (case announced_entries data of
      Some n \<Rightarrow> if 4 * n < 2 ^ (bits - 1) then decode_blob_internal data else Inl Panicked
    | None \<Rightarrow> decode_blob_internal data)"
proof (cases "read_var_u32 (cursor_new data)")
  case (Inr r)
  obtain c n where r: "read_var_u32 (cursor_new data) = Inr (c, n)" using Inr by (cases r) auto
  show ?thesis
  proof (cases "read_u8 c")
    case (Inr r')
    obtain c' k where r': "read_u8 c = Inr (c', k)" using Inr by (cases r') auto
    show ?thesis
    proof (cases "read_var_u32 c'")
      case (Inr r'')
      then show ?thesis
        by (cases r'') (simp add: announced_entries_def r r' decode_blob_on_def decode_blob_internal_eq with_capacity_def)
    qed (simp add: announced_entries_def r r' decode_blob_on_def decode_blob_internal_eq)
  qed (simp add: announced_entries_def r decode_blob_on_def decode_blob_internal_eq)
qed (simp add: announced_entries_def decode_blob_on_def decode_blob_internal_eq)

text \<open>C22: where a pointer has 64 bits, no input makes the decoder of a program blob, of an SPI container or of the
  metadata prefix panic: every index and slice is in range, and the table announced never exceeds the
  capacity of a vector. With pointers of another width the decoder of a blob panics exactly when the header can be
  read and announces a table of more bytes than \<open>isize::MAX\<close>.\<close>

theorem decoders_never_panic:
  "\<not> panics (decode_blob data) \<and> \<not> panics (decode_spi data) \<and> \<not> panics (try_strip_metadata data) \<and>
   (panics (decode_blob_on bits data) \<longleftrightarrow> (\<exists>n. announced_entries data = Some n \<and> 2 ^ (bits - 1) \<le> 4 * n))"
  using decode_spi_no_panic [of data] strip_cases [of data]
  by (auto simp: decode_blob_def decode_blob_on_cases [of bits data] split: option.split)

text \<open>On a target with pointers of 32 bits, seven bytes that announce \<open>2 ^ 29\<close> entries are enough.\<close>

lemma announced_entries_at:
  assumes "n < 2 ^ 32" "m < 2 ^ 32"
  shows "announced_entries (encode_var n @ k # encode_var m @ rest) = Some (int n)"
proof -
  have 1: "read_var_u32 (cursor_new (encode_var n @ k # encode_var m @ rest)) = Inr (cursor_at (encode_var n) (k # encode_var m @ rest), of_nat n)"
    using read_var_at [OF assms(1), of "[]"] by (simp add: cursor_new_at)
  have 2: "read_u8 (cursor_at (encode_var n) (k # encode_var m @ rest)) = Inr (cursor_at (encode_var n @ [k]) (encode_var m @ rest), k)"
    using u8_reader.read_at [of "[k]" "encode_var n" "encode_var m @ rest"] by simp
  have 3: "uint (of_nat n :: u32) = int n"
    using assms(1) by (simp add: unsigned_of_nat take_bit_nat_eq_self)
  show ?thesis using read_var_at [OF assms(2), of "encode_var n @ [k]" rest]
    by (simp add: announced_entries_def 1 2 3)
qed

theorem small_blob_overflows:
  "length (encode_var (2 ^ 29) @ 0 # encode_var 0) = 7 \<and> panics (decode_blob_on 32 (encode_var (2 ^ 29) @ 0 # encode_var 0))"
proof
  show "length (encode_var (2 ^ 29) @ 0 # encode_var 0) = 7" by (simp add: encode_var_def var_len_def Let_def)
  have "announced_entries (encode_var (2 ^ 29) @ 0 # encode_var 0 @ []) = Some (int (2 ^ 29))"
    by (rule announced_entries_at) simp_all
  then show "panics (decode_blob_on 32 (encode_var (2 ^ 29) @ 0 # encode_var 0))" by (simp add: decode_blob_on_cases)
qed

text \<open>C21: a decoded program lists, in order, exactly the positions below the code length that the mask
  marks, each with the instruction its bytes up to the next marked position decode to, kept as raw
  bytes when they do not decode; code and mask are the bytes behind the header.\<close>

theorem decode_blob_lists_marked:
  assumes "decode_blob data = Inr p"
  shows "\<exists>start. start + code_len p + div_ceil (code_len p) 8 \<le> length data \<and>
    (let code = take (code_len p) (drop start data);
         m = take (div_ceil (code_len p) 8) (drop (start + code_len p) data) in
     instructions p = map (\<lambda>pc. (pc, instruction_at m code (code_len p) pc)) (filter (marked m) [0..<code_len p]))"
  using decode_blob_shape [of data] assms by (auto simp: decode_blob_def Let_def)

text \<open>The blob of a two-byte code section, \<open>trap\<close> and \<open>fallthrough\<close>, both marked.\<close>

lemma small_blob:
  "decode_blob [0, 0, 2, 0, 1, 3] =
     Inr \<lparr>jump_table = [], instructions = [(0, Trap), (1, Fallthrough)], code_len = 2, memory_base = None\<rparr>"
  by code_simp

theorem decode_blob_lists_marked_witness:
  "\<exists>start. start + 2 + div_ceil 2 8 \<le> length [0, 0, 2, 0, 1, 3 :: u8] \<and>
    (let code = take 2 (drop start [0, 0, 2, 0, 1, 3]); m = take (div_ceil 2 8) (drop (start + 2) [0, 0, 2, 0, 1, 3]) in
     [(0, Trap), (1, Fallthrough)] = map (\<lambda>pc. (pc, instruction_at m code 2 pc)) (filter (marked m) [0..<2]))"
  using decode_blob_lists_marked [OF small_blob] by (simp only: decoded_program.simps)

text \<open>The blob decoder inverts the reference encoder, whatever follows the blob: table, code length
  and instruction list are those that were written.\<close>

theorem decode_blob_bytes:
  assumes "1 \<le> k" "k \<le> 4" "\<forall>e \<in> set es. unat e < 256 ^ k" "length es < 2 ^ 32" "length code < 2 ^ 32"
    "length m = div_ceil (length code) 8"
  shows "decode_blob (blob_bytes k es code m @ junk) =
    Inr \<lparr>jump_table = es,
         instructions = map (\<lambda>pc. (pc, instruction_at m code (length code) pc)) (filter (marked m) [0..<length code]),
         code_len = length code, memory_base = None\<rparr>"
  unfolding decode_blob_def by (rule blob_round_trip [OF assms])

theorem decode_blob_bytes_witness:
  "decode_blob (blob_bytes 2 [300] [0, 1] [3] @ [9]) =
     Inr \<lparr>jump_table = [300], instructions = [(0, Trap), (1, Fallthrough)], code_len = 2, memory_base = None\<rparr>"
proof -
  have code: "map (\<lambda>pc. (pc, instruction_at [3] [0, 1] 2 pc)) (filter (marked [3]) [0..<2]) = [(0, Trap), (1, Fallthrough)]"
    by code_simp
  have len: "length [0, 1 :: u8] = 2" by simp
  show ?thesis
    by (subst decode_blob_bytes) (simp_all only: len code, simp_all add: div_ceil_def)
qed

text \<open>C24: an SPI container of sections within its 24-bit sizes decodes to the program of its blob, with
  the memory base two segments above zero plus the read-only data rounded up to whole segments; any
  byte after the blob is an error.\<close>

theorem decode_spi_bytes:
  assumes "length ro < 2 ^ 24" "length rw < 2 ^ 24" "length blob < 2 ^ 32"
  shows "decode_spi (spi_bytes ro rw h s blob @ junk) =
      (if junk \<noteq> [] then Inl (Raised TrailingData)
       else bind_result (decode_blob blob) (\<lambda>p.
         Inr (p\<lparr>memory_base := Some (0x20000 + align_to_segment_size (of_nat (length ro)))\<rparr>)))
    \<and> unat (align_to_segment_size v) = 65536 * ((unat v + 65535) div 65536)"
  unfolding decode_blob_def using spi_round_trip [OF assms] align_eq by blast

theorem decode_spi_bytes_witness:
  "decode_spi (spi_bytes [1] [] 0 0 [0, 0, 2, 0, 1, 3] @ []) =
     Inr \<lparr>jump_table = [], instructions = [(0, Trap), (1, Fallthrough)], code_len = 2, memory_base = Some 0x30000\<rparr>
   \<and> unat (align_to_segment_size 65537) = 131072"
proof -
  have align: "align_to_segment_size (of_nat (length [1 :: u8])) = of_nat 65536"
    by (rule eq_of_natI) (simp add: align_eq)
  note spi = decode_spi_bytes [of "[1]" "[]" "[0, 0, 2, 0, 1, 3]" 0 0 "[]" 65537]
  show ?thesis
    using spi unfolding align small_blob by (simp add: div_if)
qed

text \<open>Stripping the metadata prefix returns the input itself or what follows a length-prefixed,
  nonempty and mostly printable block at its front.\<close>

theorem strip_metadata_result:
  "\<exists>rest. try_strip_metadata data = Inr rest \<and> (rest = data \<or>
     (\<exists>pre meta. data = pre @ meta @ rest \<and> decode_var_u32 data = Some (of_nat (length meta), length pre) \<and>
        meta \<noteq> [] \<and> mostly_printable meta))"
  using strip_cases [of data] by blast

end
