(* ===== verification/Cfg.thy ===== *)
theory Cfg
  imports Container_Correct "HOL-Library.AList" "HOL-Library.Multiset"
begin

text \<open>
  The control-flow graph (\<open>src/cfg.rs\<close>): leaders, basic blocks, edges, and the target of a relative
  jump.

  A \<open>HashMap\<close> keyed by block start is the association list of its entries in iteration order. That
  order is not determined by the code, so what is proved of an analysis is proved for every order:
  \<open>flow_graph\<close> does not depend on it, and every reordering of \<open>build p\<close> satisfies it. A \<open>HashSet\<close> of leaders
  is a set, and collecting and sorting it is \<open>sorted_list_of_set\<close>.

  The lemmas show, for every program whose instructions are listed in increasing order below the
  code length (which is what the decoder produces), that the blocks cut the instruction list into
  consecutive pieces, that control leaves a block only at its end, and that the edges are exactly the
  static control-flow steps that leave a block. The locale \<open>flow_graph\<close> is what the analyses rely on.
\<close>

section \<open>The graph\<close>

record basic_block =
  start_pc :: usize
  end_pc :: usize
  block_instrs :: "(usize \<times> instruction) list"
  successors :: "usize list"
  predecessors :: "usize list"

record control_flow_graph =
  blocks :: "(usize \<times> basic_block) list"
  entry_pc :: usize

definition get_block :: "control_flow_graph \<Rightarrow> usize \<rightharpoonup> basic_block" where
  "get_block cfg = map_of (blocks cfg)"

definition cfg_new :: "usize \<Rightarrow> control_flow_graph" where
  "cfg_new entry = \<lparr>blocks = [], entry_pc = entry\<rparr>"

definition add_block :: "control_flow_graph \<Rightarrow> basic_block \<Rightarrow> control_flow_graph" where
  "add_block cfg block = cfg\<lparr>blocks := AList.update (start_pc block) block (blocks cfg)\<rparr>"

text \<open>\<open>compute_jump_target\<close>: \<open>(-offset) as usize\<close> negates at 32 bits (wrapping, as a release build
  does) and sign extends to the width of \<open>usize\<close>; \<open>saturating_sub\<close> is subtraction on \<open>nat\<close>.\<close>

definition compute_jump_target :: "usize \<Rightarrow> i32 \<Rightarrow> usize" where
  "compute_jump_target current_pc offset =
     (if 0 \<le> sint offset then current_pc + unat (scast offset :: u64)
      else current_pc - unat (scast (- offset) :: u64))"


section \<open>Construction\<close>

text \<open>Step 1. The two loops of \<open>identify_leaders\<close>: branch targets, and what follows a terminator.\<close>

definition branch_targets :: "decoded_program \<Rightarrow> usize list" where
  "branch_targets p = concat (map (\<lambda>(pc, instr).
     case branch_offset (classify instr) of
       Some offset \<Rightarrow> [compute_jump_target pc offset]
     | None \<Rightarrow> []) (instructions p))"

definition after_terminators :: "decoded_program \<Rightarrow> usize list" where
  "after_terminators p = concat (map (\<lambda>i.
     if is_terminator (classify (snd (instructions p ! i))) \<and> i + 1 < length (instructions p)
     then [fst (instructions p ! (i + 1))] else []) [0..<length (instructions p)])"

definition identify_leaders :: "decoded_program \<Rightarrow> usize set" where
  "identify_leaders p = {0} \<union> set (branch_targets p) \<union> set (after_terminators p)"

text \<open>Step 2. A leader that owns no instruction gets no block.\<close>

definition block_between :: "decoded_program \<Rightarrow> usize \<Rightarrow> usize \<Rightarrow> basic_block list" where
  "block_between p start end' =
     (let block_is = filter (\<lambda>(pc, instr). pc \<ge> start \<and> pc < end') (instructions p) in
      if block_is \<noteq> [] then
        [\<lparr>start_pc = start, end_pc = end', block_instrs = block_is, successors = [], predecessors = []\<rparr>]
      else [])"

fun blocks_of_leaders :: "decoded_program \<Rightarrow> usize list \<Rightarrow> basic_block list" where
  "blocks_of_leaders p [] = []"
| "blocks_of_leaders p [start] = block_between p start (code_len p)"
| "blocks_of_leaders p (start # next # rest) =
     block_between p start next @ blocks_of_leaders p (next # rest)"

definition create_blocks :: "decoded_program \<Rightarrow> usize set \<Rightarrow> basic_block list" where
  "create_blocks p leaders = blocks_of_leaders p (sorted_list_of_set leaders)"

text \<open>Step 3. \<open>pc_to_block_idx\<close> keeps the last block inserted for a start.\<close>

definition pc_to_block_idx :: "basic_block list \<Rightarrow> usize \<rightharpoonup> nat" where
  "pc_to_block_idx bs = map_of (rev (zip (map start_pc bs) [0..<length bs]))"

definition fallthrough_pc :: "basic_block list \<Rightarrow> nat \<Rightarrow> usize list" where
  "fallthrough_pc bs idx = (if idx + 1 < length bs then [start_pc (bs ! (idx + 1))] else [])"

definition block_successors :: "basic_block list \<Rightarrow> nat \<Rightarrow> usize list" where
  "block_successors bs idx =
     (if block_instrs (bs ! idx) = [] then fallthrough_pc bs idx
      else let (term_pc, terminator) = last (block_instrs (bs ! idx)); shape = classify terminator in
      case branch_offset shape of
        Some offset \<Rightarrow>
          (let target_pc = compute_jump_target term_pc offset in
           (case pc_to_block_idx bs target_pc of Some succ_idx \<Rightarrow> [start_pc (bs ! succ_idx)] | None \<Rightarrow> [])
           @ (if is_conditional_branch shape then fallthrough_pc bs idx else []))
      | None \<Rightarrow>
          (case shape of
             ShNoOp name \<Rightarrow> if name = ''trap'' then [] else fallthrough_pc bs idx
           | ShJumpInd _ \<Rightarrow> []
           | ShLoadImmJumpInd _ _ _ \<Rightarrow> []
           | _ \<Rightarrow> fallthrough_pc bs idx))"

definition add_edges :: "usize \<Rightarrow> usize list \<Rightarrow> (usize \<Rightarrow> usize list) \<Rightarrow> usize \<Rightarrow> usize list" where
  "add_edges src succs preds = fold (\<lambda>s m. m(s := m s @ [src])) succs preds"

definition predecessor_map :: "basic_block list \<Rightarrow> usize \<Rightarrow> usize list" where
  "predecessor_map bs = fold (\<lambda>b. add_edges (start_pc b) (successors b)) bs (\<lambda>_. [])"

definition connect_blocks :: "basic_block list \<Rightarrow> basic_block list" where
  "connect_blocks bs =
     (let bs = map (\<lambda>idx. (bs ! idx)\<lparr>successors := block_successors bs idx\<rparr>) [0..<length bs];
          preds = predecessor_map bs
      in map (\<lambda>b. b\<lparr>predecessors := preds (start_pc b)\<rparr>) bs)"

definition build :: "decoded_program \<Rightarrow> control_flow_graph" where
  "build p =
     (let cfg = cfg_new 0 in
      if instructions p = [] then cfg
      else
        let leaders = identify_leaders p;
            bs = create_blocks p leaders;
            bs = connect_blocks bs
        in fold (\<lambda>b cfg. add_block cfg b) bs cfg)"

text \<open>\<open>build_test_cfg\<close>: the blocks are given with their successors.\<close>

definition test_block :: "usize \<times> (usize \<times> instruction) list \<times> usize list \<Rightarrow> basic_block" where
  "test_block = (\<lambda>(start, is, succs).
     \<lparr>start_pc = start, end_pc = (if is = [] then start else fst (last is) + 1),
      block_instrs = is, successors = succs, predecessors = []\<rparr>)"

fun push_predecessor :: "usize \<Rightarrow> usize \<Rightarrow> basic_block list \<Rightarrow> basic_block list" where
  "push_predecessor src target [] = []"
| "push_predecessor src target (b # bs) =
     (if start_pc b = target then b\<lparr>predecessors := predecessors b @ [src]\<rparr> # bs
      else b # push_predecessor src target bs)"

definition build_test_cfg ::
  "usize \<Rightarrow> (usize \<times> (usize \<times> instruction) list \<times> usize list) list \<Rightarrow> control_flow_graph" where
  "build_test_cfg entry bs =
     (let all_blocks = map test_block bs;
          successor_map = map (\<lambda>b. (start_pc b, successors b)) all_blocks;
          all_blocks = fold (\<lambda>(src, succs) acc. fold (\<lambda>s. push_predecessor src s) succs acc)
                         successor_map all_blocks
      in fold (\<lambda>b cfg. add_block cfg b) all_blocks (cfg_new entry))"


section \<open>Blocks cut the program\<close>

definition wf_program :: "decoded_program \<Rightarrow> bool" where
  "wf_program p \<longleftrightarrow> sorted_wrt (<) (map fst (instructions p)) \<and> (\<forall>pc \<in> set (map fst (instructions p)). pc < code_len p)"

definition valid_program :: "decoded_program \<Rightarrow> bool" where
  "valid_program p \<longleftrightarrow> wf_program p \<and> (\<forall>i \<in> set (map snd (instructions p)). regs_small i)"

lemma instruction_at_regs: "regs_small (instruction_at m code clen pc)"
  using decode_instruction_regs
  by (auto simp: instruction_at_def Let_def split: sum.split)

lemma decode_blob_valid: "decode_blob_internal data = Inr p \<Longrightarrow> valid_program p"
  using decode_blob_shape [of data]
  by (auto simp: Let_def valid_program_def wf_program_def comp_def filter_upt_sorted instruction_at_regs)

lemma decode_spi_valid:
  assumes "decode_spi data = Inr p"
  shows "valid_program p"
proof -
  obtain q blob where "decode_blob_internal blob = Inr q" "p = q\<lparr>memory_base := memory_base p\<rparr>"
    using assms by (auto simp: decode_spi_sizes spi_body_def Let_def split: if_splits)
  then have "valid_program q" "instructions p = instructions q" "code_len p = code_len q"
    using decode_blob_valid [of blob q] by (metis, metis decoded_program.select_convs(2) decoded_program.update_convs(4)
      decoded_program.surjective, metis decoded_program.select_convs(3) decoded_program.update_convs(4)
      decoded_program.surjective)
  then show ?thesis by (simp add: valid_program_def wf_program_def)
qed

lemma valid_wf: "valid_program p \<Longrightarrow> wf_program p"
  by (simp add: valid_program_def)

lemma filter_split:
  fixes xs :: "(nat \<times> 'a) list"
  assumes "sorted_wrt (<) (map fst xs)" "s \<le> e"
  shows "filter (\<lambda>(pc, _). pc \<ge> s \<and> pc < e) xs @ filter (\<lambda>(pc, _). pc \<ge> e) xs = filter (\<lambda>(pc, _). pc \<ge> s) xs"
  using assms
proof (induction xs)
  case (Cons x xs)
  show ?case
  proof (cases "fst x \<ge> e")
    case True
    then have "filter (\<lambda>(pc, _). pc \<ge> s \<and> pc < e) xs = []"
      using Cons.prems by (auto simp: filter_empty_conv)
    moreover have "filter (\<lambda>(pc, _). pc \<ge> e) xs = filter (\<lambda>(pc, _). pc \<ge> s) xs"
      using Cons.prems True by (intro filter_cong) auto
    ultimately show ?thesis using True Cons.prems by auto
  next
    case False
    then show ?thesis using Cons by auto
  qed
qed simp

lemma concat_blocks:
  assumes "wf_program p" "sorted (s # ls)"
  shows "concat (map block_instrs (blocks_of_leaders p (s # ls))) = filter (\<lambda>(pc, _). pc \<ge> s) (instructions p)"
  using assms(2)
proof (induction ls arbitrary: s)
  case Nil
  have "filter (\<lambda>(pc, i). s \<le> pc \<and> pc < code_len p) (instructions p) = filter (\<lambda>(pc, i). s \<le> pc) (instructions p)"
    using assms(1) by (intro filter_cong) (auto simp: wf_program_def)
  then show ?case by (simp add: block_between_def Let_def)
next
  case (Cons e ls)
  have "concat (map block_instrs (block_between p s e)) = filter (\<lambda>(pc, _). pc \<ge> s \<and> pc < e) (instructions p)"
    by (simp add: block_between_def Let_def)
  moreover have "concat (map block_instrs (blocks_of_leaders p (e # ls))) = filter (\<lambda>(pc, _). pc \<ge> e) (instructions p)"
    using Cons.prems by (intro Cons.IH) simp
  ultimately show ?case
    using filter_split [of "instructions p" s e] assms(1) Cons.prems by (simp add: wf_program_def)
qed

lemma leaders_finite [simp]: "finite (identify_leaders p)"
  by (simp add: identify_leaders_def)

lemma leaders_sorted: "\<exists>ls. sorted_list_of_set (identify_leaders p) = 0 # ls \<and> sorted (0 # ls)"
proof -
  let ?L = "sorted_list_of_set (identify_leaders p)"
  have zero: "0 \<in> set ?L" by (simp only: set_sorted_list_of_set leaders_finite) (simp add: identify_leaders_def)
  have srt: "sorted ?L" by simp
  obtain l ls where L: "?L = l # ls" using zero by (cases ?L) auto
  with srt zero have "l = 0" by auto
  with L srt show ?thesis by metis
qed

lemma create_blocks_concat:
  assumes "wf_program p"
  shows "concat (map block_instrs (create_blocks p (identify_leaders p))) = instructions p"
proof -
  obtain ls where "sorted_list_of_set (identify_leaders p) = 0 # ls" "sorted (0 # ls)"
    using leaders_sorted by blast
  then show ?thesis
    using concat_blocks [OF assms, of 0 ls] by (simp add: create_blocks_def)
qed

text \<open>Each block owns the instructions of an interval that starts at a leader and has none inside.\<close>

lemma blocks_of_leaders_mem:
  assumes "b \<in> set (blocks_of_leaders p ls)" "sorted_wrt (<) ls"
  shows "start_pc b \<in> set ls \<and> block_instrs b \<noteq> [] \<and> successors b = [] \<and> predecessors b = []
    \<and> block_instrs b = filter (\<lambda>(pc, _). start_pc b \<le> pc \<and> pc < end_pc b) (instructions p)
    \<and> (\<forall>l \<in> set ls. l \<le> start_pc b \<or> end_pc b \<le> l)
    \<and> (end_pc b = code_len p \<or> end_pc b \<in> set ls)"
  using assms
proof (induction p ls rule: blocks_of_leaders.induct)
  case (3 p s e ls)
  show ?case
  proof (cases "b \<in> set (block_between p s e)")
    case True
    then show ?thesis using 3(3) by (fastforce simp: block_between_def Let_def split: if_splits)
  next
    case False
    then have b: "b \<in> set (blocks_of_leaders p (e # ls))" using 3(2) by simp
    note ih = 3(1) [OF b]
    have "sorted_wrt (<) (e # ls)" "s < e" using 3(3) by simp_all
    with ih have "start_pc b \<in> set (e # ls)" by blast
    then have "s \<le> start_pc b" using 3(3) by auto
    then show ?thesis using ih \<open>sorted_wrt (<) (e # ls)\<close> by auto
  qed
qed (auto simp: block_between_def Let_def split: if_splits)

lemma blocks_of_leaders_starts:
  "sorted_wrt (<) ls \<Longrightarrow> sorted_wrt (<) (map start_pc (blocks_of_leaders p ls)) \<and>
    set (map start_pc (blocks_of_leaders p ls)) \<subseteq> set ls"
proof (induction p ls rule: blocks_of_leaders.induct)
  case (3 p s e ls)
  then show ?case
    by (fastforce simp: block_between_def Let_def)
qed (auto simp: block_between_def Let_def)


section \<open>The block list\<close>

text \<open>A list of consecutive nonempty blocks: what \<open>create_blocks\<close> returns, and all that the edges
  depend on.\<close>

lemma create_blocks_mem:
  assumes "b \<in> set (create_blocks p (identify_leaders p))"
  shows "start_pc b \<in> identify_leaders p" "block_instrs b \<noteq> []" "predecessors b = []"
    "block_instrs b = filter (\<lambda>(pc, _). start_pc b \<le> pc \<and> pc < end_pc b) (instructions p)"
    "\<And>l. l \<in> identify_leaders p \<Longrightarrow> l \<le> start_pc b \<or> end_pc b \<le> l"
    "end_pc b = code_len p \<or> end_pc b \<in> identify_leaders p"
  using blocks_of_leaders_mem [of b p "sorted_list_of_set (identify_leaders p)"] assms
  by (auto simp: create_blocks_def)

lemma create_blocks_starts:
  "sorted_wrt (<) (map start_pc (create_blocks p (identify_leaders p)))"
  using blocks_of_leaders_starts [of "sorted_list_of_set (identify_leaders p)" p]
  by (simp add: create_blocks_def)

lemma pc_to_block_idx_iff:
  assumes "distinct (map start_pc bs)"
  shows "pc_to_block_idx bs pc = Some k \<longleftrightarrow> k < length bs \<and> start_pc (bs ! k) = pc"
proof -
  have "distinct (map fst (rev (zip (map start_pc bs) [0..<length bs])))"
    using assms by (simp add: rev_map [symmetric] del: rev_map)
  then show ?thesis
    unfolding pc_to_block_idx_def
    by (subst map_of_eq_Some_iff) (auto simp: in_set_zip intro!: exI [of _ k])
qed

lemma add_edges_apply: "add_edges src succs m t = m t @ replicate (count_list succs t) src"
  unfolding add_edges_def
  by (induction succs arbitrary: m) (auto simp: replicate_append_same [symmetric])

lemma predecessor_map_apply:
  "fold (\<lambda>b. add_edges (start_pc b) (successors b)) bs m t =
     m t @ concat (map (\<lambda>b. replicate (count_list (successors b) t) (start_pc b)) bs)"
  by (induction bs arbitrary: m) (simp_all add: add_edges_apply)

lemma connect_blocks_nth:
  assumes "k < length bs"
  shows "connect_blocks bs ! k = (bs ! k)\<lparr>successors := block_successors bs k,
    predecessors := concat (map (\<lambda>i. replicate (count_list (block_successors bs i) (start_pc (bs ! k))) (start_pc (bs ! i))) [0..<length bs])\<rparr>"
  using assms by (simp add: connect_blocks_def Let_def predecessor_map_def predecessor_map_apply comp_def)

lemma length_connect [simp]: "length (connect_blocks bs) = length bs"
  by (simp add: connect_blocks_def Let_def)

lemma starts_connect [simp]: "map start_pc (connect_blocks bs) = map start_pc bs"
  by (rule nth_equalityI) (simp_all add: connect_blocks_nth)

lemma fold_add_block:
  "get_block (fold (\<lambda>b cfg. add_block cfg b) bs cfg) = get_block cfg ++ map_of (rev (map (\<lambda>b. (start_pc b, b)) bs))
   \<and> entry_pc (fold (\<lambda>b cfg. add_block cfg b) bs cfg) = entry_pc cfg"
  by (induction bs arbitrary: cfg) (simp_all add: add_block_def get_block_def update_conv')

definition program_blocks :: "decoded_program \<Rightarrow> basic_block list" where
  "program_blocks p = create_blocks p (identify_leaders p)"

lemma blocks_build: "get_block (build p) s = Some b \<longleftrightarrow>
    (\<exists>k < length (program_blocks p). b = connect_blocks (program_blocks p) ! k \<and> start_pc (program_blocks p ! k) = s)"
proof (cases "instructions p = []")
  case True
  have "blocks_of_leaders p ls = []" for ls
    using True by (induction p ls rule: blocks_of_leaders.induct) (simp_all add: block_between_def)
  with True show ?thesis
    by (simp add: build_def cfg_new_def program_blocks_def create_blocks_def get_block_def)
next
  case False
  let ?B = "connect_blocks (program_blocks p)"
  have d: "distinct (map start_pc ?B)"
    using sorted_wrt_less_distinct [OF create_blocks_starts] by (simp add: program_blocks_def)
  have "get_block (build p) = map_of (rev (map (\<lambda>b. (start_pc b, b)) ?B))"
    using False by (simp add: build_def Let_def fold_add_block cfg_new_def program_blocks_def get_block_def [of "\<lparr>blocks = [], entry_pc = 0\<rparr>"])
  moreover have "distinct (map fst (rev (map (\<lambda>b. (start_pc b, b)) ?B)))"
    using d by (simp add: rev_map [symmetric] comp_def del: rev_map)
  ultimately have "get_block (build p) s = Some b \<longleftrightarrow> (s, b) \<in> set (map (\<lambda>b. (start_pc b, b)) ?B)"
    by (simp only: map_of_eq_Some_iff set_rev)
  also have "\<dots> \<longleftrightarrow> b \<in> set ?B \<and> start_pc b = s" by auto
  also have "\<dots> \<longleftrightarrow> (\<exists>k < length ?B. ?B ! k = b \<and> start_pc b = s)"
    by (auto simp only: in_set_conv_nth)
  also have "\<dots> \<longleftrightarrow> (\<exists>k < length (program_blocks p). b = ?B ! k \<and> start_pc (program_blocks p ! k) = s)"
    by (auto simp: connect_blocks_nth)
  finally show ?thesis .
qed

lemma entry_build [simp]: "entry_pc (build p) = 0"
  by (simp add: build_def Let_def fold_add_block cfg_new_def)


section \<open>Control flow\<close>

text \<open>Where control can go from the \<open>k\<close>-th instruction without an indirect jump: to the target of a
  branch, and to the instruction after it unless it is an unconditional jump or a trap.\<close>

definition falls_through :: "instruction_shape \<Rightarrow> bool" where
  "falls_through sh \<longleftrightarrow> is_conditional_branch sh \<or> \<not> is_terminator sh"

definition static_next :: "decoded_program \<Rightarrow> nat \<Rightarrow> usize list" where
  "static_next p k =
     (let (pc, i) = instructions p ! k; sh = classify i in
      (case branch_offset sh of Some off \<Rightarrow> [compute_jump_target pc off] | None \<Rightarrow> [])
      @ (if falls_through sh \<and> k + 1 < length (instructions p) then [fst (instructions p ! (k + 1))] else []))"

lemma block_successors_eq:
  assumes "block_instrs (bs ! k) \<noteq> []" "distinct (map start_pc bs)"
    and "last (block_instrs (bs ! k)) = (pc, i)"
  shows "block_successors bs k =
    (case branch_offset (classify i) of
       Some off \<Rightarrow> filter (\<lambda>t. t \<in> set (map start_pc bs)) [compute_jump_target pc off]
     | None \<Rightarrow> [])
    @ (if falls_through (classify i) then fallthrough_pc bs k else [])"
proof (cases "branch_offset (classify i)")
  case None
  moreover have "classify i = ShNoOp nm \<Longrightarrow> nm = ''trap'' \<longleftrightarrow> is_terminator (classify i)" for nm
    by (simp add: is_terminator_def)
  ultimately show ?thesis
    using assms
    by (cases "classify i")
      (simp_all add: block_successors_def falls_through_def is_conditional_branch_def branch_offset_def is_terminator_def)
next
  case (Some off)
  have tmn: "is_terminator (classify i)" using branch_offset_terminator Some by blast
  have lookup: "(case pc_to_block_idx bs t of Some j \<Rightarrow> [start_pc (bs ! j)] | None \<Rightarrow> [])
      = filter (\<lambda>t. t \<in> set (map start_pc bs)) [t]" for t
  proof -
    have mem: "t \<in> set (map start_pc bs) \<longleftrightarrow> (\<exists>j < length bs. start_pc (bs ! j) = t)"
      unfolding in_set_conv_nth length_map by (metis nth_map)
    show ?thesis
    proof (cases "pc_to_block_idx bs t")
      case None
      then have "\<nexists>j. j < length bs \<and> start_pc (bs ! j) = t"
        using pc_to_block_idx_iff [OF assms(2), of t] by (metis option.distinct(1))
      with None mem show ?thesis by auto
    next
      case (Some j)
      then have "j < length bs" "start_pc (bs ! j) = t"
        using pc_to_block_idx_iff [OF assms(2), of t] by simp_all
      with Some mem show ?thesis by auto
    qed
  qed
  with Some assms tmn show ?thesis
    by (simp add: block_successors_def falls_through_def Let_def lookup del: filter.simps)
qed


text \<open>Positions in the instruction list: the block that owns the \<open>k\<close>-th instruction, and what follows
  its last one.\<close>

lemma concat_last_next:
  assumes "\<forall>xs \<in> set xss. xs \<noteq> []" "j < length xss" "k + 1 = length (concat (take (Suc j) xss))"
  shows "concat xss ! k = last (xss ! j)"
    and "k + 1 < length (concat xss) \<longleftrightarrow> j + 1 < length xss"
    and "j + 1 < length xss \<Longrightarrow> concat xss ! (k + 1) = hd (xss ! (j + 1))"
proof -
  have split: "concat xss = concat (take (Suc j) xss) @ concat (drop (Suc j) xss)"
    by (simp flip: concat_append)
  have tk: "take (Suc j) xss = take j xss @ [xss ! j]"
    using assms(2) by (rule take_Suc_conv_app_nth)
  have ne: "xss ! j \<noteq> []" using assms(1,2) by simp
  have "concat xss ! k = concat (take (Suc j) xss) ! k"
    using assms(3) by (subst split) (simp add: nth_append)
  also have "\<dots> = last (concat (take (Suc j) xss))"
    using assms(3) by (metis add_diff_cancel_right' last_conv_nth length_0_conv add_is_0 zero_neq_one)
  also have "\<dots> = last (xss ! j)" using ne by (simp add: tk)
  finally show "concat xss ! k = last (xss ! j)" .
  have drop: "drop (Suc j) xss = xss ! Suc j # drop (Suc (Suc j)) xss" if "Suc j < length xss"
    using that by (simp add: Cons_nth_drop_Suc)
  show "k + 1 < length (concat xss) \<longleftrightarrow> j + 1 < length xss"
  proof (cases "Suc j < length xss")
    case True
    then have "xss ! Suc j \<noteq> []" using assms(1) by simp
    with True assms(3) show ?thesis by (subst split) (simp add: drop)
  next
    case False
    with assms(3) show ?thesis by (subst split) simp
  qed
  show "concat xss ! (k + 1) = hd (xss ! (j + 1))" if "j + 1 < length xss"
  proof -
    have "xss ! Suc j \<noteq> []" using assms(1) that by simp
    then show ?thesis
      using that assms(3) by (subst split) (simp add: nth_append drop hd_conv_nth)
  qed
qed


lemma blocks_own:
  assumes "wf_program p" "k < length (instructions p)"
  obtains j where "j < length (program_blocks p)"
    "instructions p ! k \<in> set (block_instrs (program_blocks p ! j))"
proof -
  have "instructions p ! k \<in> set (concat (map block_instrs (program_blocks p)))"
    unfolding program_blocks_def create_blocks_concat [OF assms(1)] using assms(2) by simp
  then obtain b where "b \<in> set (program_blocks p)" "instructions p ! k \<in> set (block_instrs b)" by auto
  then show thesis using that by (metis in_set_conv_nth)
qed

lemma pc_inj:
  "wf_program p \<Longrightarrow> k < length (instructions p) \<Longrightarrow> l < length (instructions p) \<Longrightarrow>
    fst (instructions p ! k) < fst (instructions p ! l) \<longleftrightarrow> k < l"
  by (auto simp: wf_program_def sorted_wrt_iff_nth_less) (metis linorder_neqE_nat order.asym)

lemma block_interval:
  assumes "wf_program p" "j < length (program_blocks p)" "k < length (instructions p)"
  shows "instructions p ! k \<in> set (block_instrs (program_blocks p ! j)) \<longleftrightarrow>
    start_pc (program_blocks p ! j) \<le> fst (instructions p ! k) \<and> fst (instructions p ! k) < end_pc (program_blocks p ! j)"
  using create_blocks_mem(4) [of "program_blocks p ! j" p] assms(2,3)
  by (auto simp: program_blocks_def split_beta)

text \<open>If the next instruction is not in the block, this one is the last of it.\<close>

lemma concat_leave:
  assumes "distinct (concat xss)" "j < length xss" "k < length (concat xss)" "concat xss ! k \<in> set (xss ! j)"
    and "k + 1 < length (concat xss) \<Longrightarrow> concat xss ! (k + 1) \<notin> set (xss ! j)"
  shows "k + 1 = length (concat (take (Suc j) xss))"
proof -
  define A X C where "A = concat (take j xss)" and "X = xss ! j" and "C = concat (drop (Suc j) xss)"
  have xss: "concat xss = A @ X @ C"
    using id_take_nth_drop [OF assms(2)] unfolding A_def X_def C_def
    by (metis append_assoc concat.simps(2) concat_append)
  have tk: "length (concat (take (Suc j) xss)) = length A + length X"
    using take_Suc_conv_app_nth [OF assms(2)] by (simp add: A_def X_def)
  obtain i where i: "i < length X" "X ! i = concat xss ! k"
    using assms(4) by (auto simp: X_def in_set_conv_nth)
  have "concat xss ! (length A + i) = concat xss ! k"
    using i by (simp add: xss nth_append)
  then have k: "k = length A + i"
    using nth_eq_iff_index_eq [OF assms(1,3), of "length A + i"] i(1) by (simp add: xss)
  have "\<not> Suc i < length X"
  proof
    assume s: "Suc i < length X"
    then have "concat xss ! (k + 1) = X ! Suc i" by (simp add: xss k nth_append)
    then have "concat xss ! (k + 1) \<in> set X" using s by simp
    with assms(5) s show False by (simp add: xss k X_def)
  qed
  with i(1) k tk show ?thesis by simp
qed

lemma instrs_distinct: "wf_program p \<Longrightarrow> distinct (instructions p)"
  using sorted_wrt_less_distinct [of "map fst (instructions p)"] by (simp add: wf_program_def distinct_map)

lemma block_last:
  assumes "wf_program p" "j < length (program_blocks p)" "k < length (instructions p)"
    and "instructions p ! k \<in> set (block_instrs (program_blocks p ! j))"
    and "k + 1 < length (instructions p) \<Longrightarrow>
      instructions p ! (k + 1) \<notin> set (block_instrs (program_blocks p ! j))"
  shows "k + 1 = length (concat (take (Suc j) (map block_instrs (program_blocks p))))"
  using concat_leave [of "map block_instrs (program_blocks p)" j k]
    create_blocks_concat [OF assms(1)] instrs_distinct [OF assms(1)] assms(2-)
  by (simp add: program_blocks_def)

lemma blocks_nonempty: "\<forall>xs \<in> set (map block_instrs (program_blocks p)). xs \<noteq> []"
  using create_blocks_mem(2) by (auto simp: program_blocks_def)

lemma block_end_facts:
  assumes "wf_program p" "j < length (program_blocks p)"
    and "k + 1 = length (concat (take (Suc j) (map block_instrs (program_blocks p))))"
  shows "last (block_instrs (program_blocks p ! j)) = instructions p ! k"
    and "k + 1 < length (instructions p) \<longleftrightarrow> j + 1 < length (program_blocks p)"
    and "j + 1 < length (program_blocks p) \<Longrightarrow>
      hd (block_instrs (program_blocks p ! (j + 1))) = instructions p ! (k + 1)"
  using concat_last_next [OF blocks_nonempty, of j p k] assms(2,3) create_blocks_concat [OF assms(1)]
  by (simp_all add: program_blocks_def)

lemma program_blocks_distinct: "distinct (map start_pc (program_blocks p))"
  using sorted_wrt_less_distinct [OF create_blocks_starts] by (simp add: program_blocks_def)

text \<open>The edges of the \<open>j\<close>-th block.\<close>

lemma block_edges:
  assumes "j < length (program_blocks p)" "last (block_instrs (program_blocks p ! j)) = (pc, i)"
  shows "successors (connect_blocks (program_blocks p) ! j) =
    (case branch_offset (classify i) of
       Some off \<Rightarrow> filter (\<lambda>t. t \<in> set (map start_pc (program_blocks p))) [compute_jump_target pc off]
     | None \<Rightarrow> [])
    @ (if falls_through (classify i) then fallthrough_pc (program_blocks p) j else [])"
proof -
  have "block_instrs (program_blocks p ! j) \<noteq> []" using blocks_nonempty [of p] nth_mem [OF assms(1)] by auto
  then show ?thesis
    using block_successors_eq [OF _ program_blocks_distinct assms(2)] assms(1)
    by (simp add: connect_blocks_nth)
qed

text \<open>An instruction at a leader starts the block of that leader.\<close>

lemma leader_block:
  assumes "wf_program p" "k < length (instructions p)" "fst (instructions p ! k) \<in> identify_leaders p"
  obtains j where "j < length (program_blocks p)" "start_pc (program_blocks p ! j) = fst (instructions p ! k)"
    "hd (block_instrs (program_blocks p ! j)) = instructions p ! k"
proof -
  obtain j where j: "j < length (program_blocks p)" "instructions p ! k \<in> set (block_instrs (program_blocks p ! j))"
    by (rule blocks_own [OF assms(1,2)])
  let ?b = "program_blocks p ! j"
  have b: "?b \<in> set (create_blocks p (identify_leaders p))" using j(1) by (simp add: program_blocks_def)
  have int: "start_pc ?b \<le> fst (instructions p ! k)" "fst (instructions p ! k) < end_pc ?b"
    using block_interval [OF assms(1) j(1) assms(2)] j(2) by simp_all
  with create_blocks_mem(5) [OF b assms(3)] have start: "start_pc ?b = fst (instructions p ! k)" by simp
  have srt: "sorted_wrt (<) (map fst (block_instrs ?b))"
    using assms(1) unfolding create_blocks_mem(4) [OF b] by (simp add: wf_program_def sorted_wrt_map sorted_wrt_filter)
  obtain x xs where xs: "block_instrs ?b = x # xs" using create_blocks_mem(2) [OF b] by (cases "block_instrs ?b") auto
  have "x \<in> set (block_instrs ?b)" by (simp add: xs)
  then have "fst (instructions p ! k) \<le> fst x"
    unfolding create_blocks_mem(4) [OF b] using start by auto
  then have "x = instructions p ! k" using j(2) srt xs by fastforce
  with that j(1) start xs show thesis by simp
qed


lemma after_terminator_leader:
  "k + 1 < length (instructions p) \<Longrightarrow> is_terminator (classify (snd (instructions p ! k))) \<Longrightarrow>
   fst (instructions p ! (k + 1)) \<in> identify_leaders p"
  by (auto simp: identify_leaders_def after_terminators_def intro!: bexI [of _ k])

lemma branch_target_leader:
  "k < length (instructions p) \<Longrightarrow> instructions p ! k = (pc, i) \<Longrightarrow> branch_offset (classify i) = Some off \<Longrightarrow>
   compute_jump_target pc off \<in> identify_leaders p"
  by (force simp: identify_leaders_def branch_targets_def dest: nth_mem)

lemma static_next_cases:
  assumes "t \<in> set (static_next p k)" "instructions p ! k = (pc, i)"
  obtains (branch) off where "branch_offset (classify i) = Some off" "t = compute_jump_target pc off"
  | (fall) "falls_through (classify i)" "k + 1 < length (instructions p)" "t = fst (instructions p ! (k + 1))"
  using assms by (cases "branch_offset (classify i)") (auto simp: static_next_def Let_def split: if_splits)

text \<open>Control leaves a block only at its end.\<close>

lemma inside_not_terminator:
  assumes "wf_program p" "j < length (program_blocks p)" "k + 1 < length (instructions p)"
    and "instructions p ! k \<in> set (block_instrs (program_blocks p ! j))"
    and "instructions p ! (k + 1) \<in> set (block_instrs (program_blocks p ! j))"
  shows "\<not> is_terminator (classify (snd (instructions p ! k)))"
proof
  assume "is_terminator (classify (snd (instructions p ! k)))"
  then have l: "fst (instructions p ! (k + 1)) \<in> identify_leaders p"
    using after_terminator_leader assms(3) by blast
  have b: "program_blocks p ! j \<in> set (create_blocks p (identify_leaders p))"
    using assms(2) by (simp add: program_blocks_def)
  have "start_pc (program_blocks p ! j) \<le> fst (instructions p ! k)"
    "fst (instructions p ! (k + 1)) < end_pc (program_blocks p ! j)"
    using block_interval [OF assms(1,2)] assms(3-5) by simp_all
  moreover have "fst (instructions p ! k) < fst (instructions p ! (k + 1))"
    using pc_inj [OF assms(1), of k "k + 1"] assms(3) by simp
  ultimately show False using create_blocks_mem(5) [OF b l] by simp
qed

lemma build_nth:
  "j < length (program_blocks p) \<Longrightarrow>
   get_block (build p) (start_pc (program_blocks p ! j)) = Some (connect_blocks (program_blocks p) ! j)"
  unfolding blocks_build by blast

lemma connected_fields:
  "j < length bs \<Longrightarrow> start_pc (connect_blocks bs ! j) = start_pc (bs ! j) \<and>
   block_instrs (connect_blocks bs ! j) = block_instrs (bs ! j) \<and> end_pc (connect_blocks bs ! j) = end_pc (bs ! j)"
  by (simp add: connect_blocks_nth)

lemma step_edge:
  assumes p: "wf_program p" and k: "k < length (instructions p)"
    and t: "t \<in> set (static_next p k)" "t \<in> fst ` set (instructions p)"
  shows "\<exists>b. get_block (build p) (start_pc b) = Some b \<and> instructions p ! k \<in> set (block_instrs b) \<and>
    ((k + 1 < length (instructions p) \<and> t = fst (instructions p ! (k + 1)) \<and>
      instructions p ! (k + 1) \<in> set (block_instrs b)) \<or>
     last (block_instrs b) = instructions p ! k \<and>
     (\<exists>s b'. s \<in> set (successors b) \<and> get_block (build p) s = Some b' \<and> fst (hd (block_instrs b')) = t))"
proof -
  let ?B = "program_blocks p"
  obtain j where j: "j < length ?B" "instructions p ! k \<in> set (block_instrs (?B ! j))"
    by (rule blocks_own [OF p k])
  obtain pc i where pci: "instructions p ! k = (pc, i)" by (cases "instructions p ! k")
  let ?b = "connect_blocks ?B ! j"
  have b: "get_block (build p) (start_pc ?b) = Some ?b" "block_instrs ?b = block_instrs (?B ! j)"
    using build_nth [OF j(1)] connected_fields [OF j(1)] by simp_all
  show ?thesis
  proof (cases "k + 1 < length (instructions p) \<and> instructions p ! (k + 1) \<in> set (block_instrs (?B ! j))")
    case True
    then have nt: "\<not> is_terminator (classify i)"
      using inside_not_terminator [OF p j(1)] j(2) pci by fastforce
    show ?thesis
      using t(1) pci
    proof (cases rule: static_next_cases)
      case (branch off)
      then show ?thesis using nt branch_offset_terminator by blast
    next
      case fall
      then show ?thesis using True b j(2) by (intro exI [of _ ?b]) simp
    qed
  next
    case False
    then have "k + 1 = length (concat (take (Suc j) (map block_instrs ?B)))"
      by (intro block_last [OF p j(1) k j(2)]) simp
    note ends = block_end_facts [OF p j(1) this]
    have edges: "successors ?b = (case branch_offset (classify i) of
         Some off \<Rightarrow> filter (\<lambda>t. t \<in> set (map start_pc ?B)) [compute_jump_target pc off] | None \<Rightarrow> [])
      @ (if falls_through (classify i) then fallthrough_pc ?B j else [])"
      using block_edges [OF j(1)] ends(1) pci by simp
    have "\<exists>s b'. s \<in> set (successors ?b) \<and> get_block (build p) s = Some b' \<and> fst (hd (block_instrs b')) = t"
      using t(1) pci
    proof (cases rule: static_next_cases)
      case (branch off)
      obtain l where l: "l < length (instructions p)" "fst (instructions p ! l) = t"
        using t(2) by (metis (no_types, lifting) imageE in_set_conv_nth)
      have "t \<in> identify_leaders p" using branch_target_leader [OF k pci] branch by blast
      then obtain j' where j': "j' < length ?B" "start_pc (?B ! j') = t" "hd (block_instrs (?B ! j')) = instructions p ! l"
        using leader_block [OF p l(1)] l(2) by metis
      have "t \<in> set (map start_pc ?B)" using j'(1,2) by force
      then have "t \<in> set (successors ?b)" using branch by (simp add: edges)
      then show ?thesis
        using build_nth [OF j'(1)] connected_fields [OF j'(1)] j'(2,3) l(2) by auto
    next
      case fall
      then have j': "j + 1 < length ?B" using ends(2) by simp
      then have "start_pc (?B ! (j + 1)) \<in> set (successors ?b)"
        using fall by (simp add: edges fallthrough_pc_def)
      then show ?thesis
        using build_nth [OF j'] connected_fields [OF j'] ends(3) [OF j'] fall(3) by auto
    qed
    then show ?thesis using b j(2) ends(1) by (intro exI [of _ ?b]) simp
  qed
qed

lemma edge_step:
  assumes p: "wf_program p" and b: "get_block (build p) s = Some b" and s': "s' \<in> set (successors b)"
  shows "\<exists>b' k. get_block (build p) s' = Some b' \<and> k < length (instructions p) \<and>
    last (block_instrs b) = instructions p ! k \<and>
    ((\<exists>off. branch_offset (classify (snd (instructions p ! k))) = Some off \<and>
        s' = compute_jump_target (fst (instructions p ! k)) off) \<or>
     falls_through (classify (snd (instructions p ! k))) \<and> k + 1 < length (instructions p) \<and>
        hd (block_instrs b') = instructions p ! (k + 1))"
proof -
  let ?B = "program_blocks p"
  obtain j where j: "j < length ?B" "b = connect_blocks ?B ! j" using b unfolding blocks_build by blast
  have bi: "block_instrs b = block_instrs (?B ! j)" using connected_fields [OF j(1)] j(2) by simp
  have "block_instrs (?B ! j) \<noteq> []" using blocks_nonempty [of p] nth_mem [OF j(1)] by auto
  then have "0 < length (concat (take (Suc j) (map block_instrs ?B)))"
    using j(1) by (simp add: take_Suc_conv_app_nth)
  then obtain k where k1: "k + 1 = length (concat (take (Suc j) (map block_instrs ?B)))"
    by (metis Suc_eq_plus1 gr0_implies_Suc)
  note ends = block_end_facts [OF p j(1) k1]
  have "length (concat (take (Suc j) (map block_instrs ?B))) \<le> length (concat (map block_instrs ?B))"
    by (metis append_take_drop_id concat_append le_add1 length_append)
  then have k: "k < length (instructions p)"
    using k1 create_blocks_concat [OF p] by (simp add: program_blocks_def)
  obtain pc i where pci: "instructions p ! k = (pc, i)" by (cases "instructions p ! k")
  have edges: "successors b = (case branch_offset (classify i) of
         Some off \<Rightarrow> filter (\<lambda>t. t \<in> set (map start_pc ?B)) [compute_jump_target pc off] | None \<Rightarrow> [])
      @ (if falls_through (classify i) then fallthrough_pc ?B j else [])"
    using block_edges [OF j(1)] ends(1) pci j(2) by simp
  then consider off where "branch_offset (classify i) = Some off" "s' = compute_jump_target pc off"
      "s' \<in> set (map start_pc ?B)"
    | "falls_through (classify i)" "s' \<in> set (fallthrough_pc ?B j)"
    using s' by (auto split: option.splits if_splits)
  then show ?thesis
  proof cases
    case 1
    then obtain j' where "j' < length ?B" "start_pc (?B ! j') = s'" by (auto simp: in_set_conv_nth)
    with build_nth [of j' p] have "get_block (build p) s' = Some (connect_blocks ?B ! j')" by simp
    with 1 k ends(1) pci bi show ?thesis by fastforce
  next
    case 2
    then have j': "j + 1 < length ?B" "s' = start_pc (?B ! (j + 1))"
      by (simp_all add: fallthrough_pc_def split: if_splits)
    have "get_block (build p) s' = Some (connect_blocks ?B ! (j + 1))" using build_nth [OF j'(1)] j'(2) by simp
    moreover have "hd (block_instrs (connect_blocks ?B ! (j + 1))) = instructions p ! (k + 1)"
      using connected_fields [OF j'(1)] ends(3) [OF j'(1)] by simp
    ultimately show ?thesis using 2 k ends(1,2) pci bi j'(1) by fastforce
  qed
qed


section \<open>The interface of the analyses\<close>

text \<open>What liveness, dominators and loop detection assume of a graph: blocks are filed under their
  start, edges stay inside the graph, and predecessors list the same edges as successors.\<close>

definition cfg_nodes :: "control_flow_graph \<Rightarrow> usize set" where
  "cfg_nodes cfg = fst ` set (blocks cfg)"

lemma cfg_nodes_dom: "cfg_nodes cfg = dom (get_block cfg)"
  by (simp add: cfg_nodes_def get_block_def dom_map_of_conv_image_fst)

lemma cfg_nodes_finite [simp]: "finite (cfg_nodes cfg)"
  by (simp add: cfg_nodes_def)

definition cfg_succs :: "control_flow_graph \<Rightarrow> usize \<Rightarrow> usize list" where
  "cfg_succs cfg pc = (case get_block cfg pc of Some b \<Rightarrow> successors b | None \<Rightarrow> [])"

definition cfg_preds :: "control_flow_graph \<Rightarrow> usize \<Rightarrow> usize list" where
  "cfg_preds cfg pc = (case get_block cfg pc of Some b \<Rightarrow> predecessors b | None \<Rightarrow> [])"

lemma cfg_succsE:
  assumes "t \<in> set (cfg_succs cfg s)"
  obtains b where "get_block cfg s = Some b" "t \<in> set (successors b)"
  using assms by (cases "get_block cfg s") (auto simp: cfg_succs_def)

lemma cfg_predsE:
  assumes "s \<in> set (cfg_preds cfg t)"
  obtains b where "get_block cfg t = Some b" "s \<in> set (predecessors b)"
  using assms by (cases "get_block cfg t") (auto simp: cfg_preds_def)

locale flow_graph =
  fixes cfg :: control_flow_graph
  assumes keys_distinct: "distinct (map fst (blocks cfg))"
    and keyed: "get_block cfg s = Some b \<Longrightarrow> start_pc b = s"
    and succs_closed: "t \<in> set (cfg_succs cfg s) \<Longrightarrow> t \<in> cfg_nodes cfg"
    and preds_count: "t \<in> cfg_nodes cfg \<Longrightarrow> count_list (cfg_preds cfg t) s = count_list (cfg_succs cfg s) t"
begin

lemma preds_iff_succs: "t \<in> cfg_nodes cfg \<Longrightarrow> s \<in> set (cfg_preds cfg t) \<longleftrightarrow> t \<in> set (cfg_succs cfg s)"
  using preds_count [of t s] by (metis count_list_0_iff)

lemma succs_source: "t \<in> set (cfg_succs cfg s) \<Longrightarrow> s \<in> cfg_nodes cfg"
  by (auto simp: cfg_nodes_dom elim: cfg_succsE)

lemma preds_closed: "s \<in> set (cfg_preds cfg t) \<Longrightarrow> s \<in> cfg_nodes cfg"
proof -
  assume s: "s \<in> set (cfg_preds cfg t)"
  then have "t \<in> cfg_nodes cfg" by (auto simp: cfg_nodes_dom elim: cfg_predsE)
  with s show ?thesis using preds_iff_succs succs_source by blast
qed

end

lemma succs_closed_build:
  assumes "t \<in> set (cfg_succs (build p) s)"
  shows "t \<in> cfg_nodes (build p)"
proof -
  let ?B = "program_blocks p"
  obtain b where b: "get_block (build p) s = Some b" "t \<in> set (successors b)"
    by (rule cfg_succsE [OF assms])
  obtain j where j: "j < length ?B" "b = connect_blocks ?B ! j" using b(1) unfolding blocks_build by blast
  obtain pc i where "last (block_instrs (?B ! j)) = (pc, i)" by (cases "last (block_instrs (?B ! j))")
  then have "t \<in> set (map start_pc ?B)"
    using block_edges [OF j(1)] b(2) j(2) nth_mem [of "j + 1" ?B]
    by (auto simp: fallthrough_pc_def split: option.splits if_splits)
  then obtain j' where "j' < length ?B" "start_pc (?B ! j') = t" by (auto simp: in_set_conv_nth)
  with build_nth show ?thesis by (auto simp: cfg_nodes_dom)
qed

lemma nodes_build: "cfg_nodes (build p) = set (map start_pc (program_blocks p))"
  by (auto simp: cfg_nodes_dom dom_def blocks_build in_set_conv_nth) (metis nth_mem imageI)

lemma count_concat_replicate:
  "distinct (map f xs) \<Longrightarrow> count_list (concat (map (\<lambda>x. replicate (c x) (f x)) xs)) s =
    (case map_of (map (\<lambda>x. (f x, c x)) xs) s of Some n \<Rightarrow> n | None \<Rightarrow> 0)"
proof (induction xs)
  case (Cons x xs)
  have rep: "count_list (replicate n (f y)) s = (if f y = s then n else 0)" for n y
    by (cases "f y = s") (simp_all add: count_list_0_iff, induction n, simp_all)
  have none: "map_of (map (\<lambda>x. (f x, c x)) xs) s = None" if "f x = s"
    using Cons.prems that by (auto simp: map_of_eq_None_iff comp_def)
  show ?case using Cons none by (auto simp: rep)
qed simp

lemma preds_count_build:
  assumes "t \<in> cfg_nodes (build p)"
  shows "count_list (cfg_preds (build p) t) s = count_list (cfg_succs (build p) s) t"
proof -
  let ?B = "program_blocks p"
  let ?C = "connect_blocks ?B"
  obtain k where k: "k < length ?B" "start_pc (?B ! k) = t"
    using assms by (auto simp: nodes_build in_set_conv_nth)
  define f c where "f = (\<lambda>i. start_pc (?B ! i))" and "c = (\<lambda>i. count_list (successors (?C ! i)) t)"
  have d: "distinct (map f [0..<length ?B])"
  proof -
    have "map f [0..<length ?B] = map start_pc ?B" by (rule nth_equalityI) (simp_all add: f_def)
    then show ?thesis using program_blocks_distinct [of p] by simp
  qed
  have "get_block (build p) t = Some (?C ! k)" using build_nth [OF k(1)] k(2) by simp
  moreover have "predecessors (?C ! k) = concat (map (\<lambda>i. replicate (c i) (f i)) [0..<length ?B])"
    unfolding connect_blocks_nth [OF k(1)] c_def f_def
    by (auto simp: k connect_blocks_nth intro!: arg_cong [where f = concat])
  ultimately have l: "count_list (cfg_preds (build p) t) s =
      (case map_of (map (\<lambda>i. (f i, c i)) [0..<length ?B]) s of Some n \<Rightarrow> n | None \<Rightarrow> 0)"
    by (simp add: cfg_preds_def count_concat_replicate [OF d])
  show ?thesis
  proof (cases "get_block (build p) s")
    case None
    then have "s \<notin> set (map f [0..<length ?B])"
      using build_nth by (auto simp: f_def)
    then have "map_of (map (\<lambda>i. (f i, c i)) [0..<length ?B]) s = None"
      by (auto simp: map_of_eq_None_iff comp_def)
    with None show ?thesis by (simp add: l cfg_succs_def)
  next
    case (Some b)
    then obtain j where j: "j < length ?B" "b = ?C ! j" "f j = s"
      unfolding blocks_build f_def by blast
    have "map_of (map (\<lambda>i. (f i, c i)) [0..<length ?B]) s = Some (c j)"
      using d j by (intro map_of_is_SomeI) (auto simp: comp_def)
    with Some j show ?thesis by (simp add: l cfg_succs_def c_def)
  qed
qed

lemma keys_add_blocks:
  "distinct (map fst (blocks cfg)) \<Longrightarrow> distinct (map fst (blocks (fold (\<lambda>b cfg. add_block cfg b) bs cfg)))"
  by (induction bs arbitrary: cfg) (simp_all add: add_block_def distinct_update)

lemma keys_build: "distinct (map fst (blocks (build p)))"
proof -
  have "distinct (map fst (blocks (cfg_new 0)))" by (simp add: cfg_new_def)
  then show ?thesis unfolding build_def Let_def by (simp only: keys_add_blocks split: if_split) blast
qed

interpretation built: flow_graph "build p" for p
proof
  show "start_pc b = s" if "get_block (build p) s = Some b" for s b
    using that connected_fields unfolding blocks_build by metis
qed (simp_all add: keys_build succs_closed_build preds_count_build)

text \<open>The same graph in any other iteration order.\<close>

definition reorder :: "control_flow_graph \<Rightarrow> (usize \<times> basic_block) list \<Rightarrow> control_flow_graph" where
  "reorder cfg bs = (if mset bs = mset (blocks cfg) then cfg\<lparr>blocks := bs\<rparr> else cfg)"

lemma reorder_same:
  assumes "distinct (map fst (blocks cfg))"
  shows "get_block (reorder cfg bs) = get_block cfg" "cfg_nodes (reorder cfg bs) = cfg_nodes cfg"
    "cfg_succs (reorder cfg bs) = cfg_succs cfg" "cfg_preds (reorder cfg bs) = cfg_preds cfg"
    "distinct (map fst (blocks (reorder cfg bs)))"
proof -
  have d: "distinct (map fst bs)" if "mset bs = mset (blocks cfg)"
    using assms that mset_eq_imp_distinct_iff [of "map fst bs" "map fst (blocks cfg)"] by simp
  then show "distinct (map fst (blocks (reorder cfg bs)))"
    using assms by (simp add: reorder_def)
  have "map_of bs = map_of (blocks cfg)" if "mset bs = mset (blocks cfg)"
    using map_of_inject_set [OF d [OF that] assms] mset_eq_setD [OF that] by blast
  then show g: "get_block (reorder cfg bs) = get_block cfg"
    by (auto simp: get_block_def reorder_def)
  then show "cfg_nodes (reorder cfg bs) = cfg_nodes cfg" "cfg_succs (reorder cfg bs) = cfg_succs cfg"
    "cfg_preds (reorder cfg bs) = cfg_preds cfg"
    by (simp_all add: cfg_nodes_dom cfg_succs_def [abs_def] cfg_preds_def [abs_def])
qed

interpretation reordered: flow_graph "reorder (build p) bs" for p bs
  using built.keyed built.succs_closed built.preds_count
  by unfold_locales (simp_all add: reorder_same keys_build)

section \<open>Properties\<close>

text \<open>A program with a loop: decrement, branch back while not zero, trap.\<close>

definition loop_program :: decoded_program where
  "loop_program = \<lparr>jump_table = [],
     instructions = [(0, TwoRegImm AddImm64 1 1 (- 1)), (3, BranchImm BranchNeImm 1 0 (- 3)), (6, Trap)],
     code_len = 7, memory_base = None\<rparr>"

lemma loop_program_wf: "wf_program loop_program"
  by (simp add: wf_program_def loop_program_def)

lemma loop_graph:
  "get_block (build loop_program) 0 = Some \<lparr>start_pc = 0, end_pc = 6,
     block_instrs = [(0, TwoRegImm AddImm64 1 1 (- 1)), (3, BranchImm BranchNeImm 1 0 (- 3))],
     successors = [0, 6], predecessors = [0]\<rparr>"
  by code_simp

text \<open>C31: a program the decoder returns, from a blob or a container, lists its instructions at strictly
  increasing positions below the code length, with register operands below 16.\<close>

theorem decoded_programs_valid:
  assumes "decode_blob data = Inr p \<or> decode_spi data = Inr p"
  shows "valid_program p"
  using assms decode_blob_valid decode_spi_valid by (auto simp: decode_blob_def)

theorem decoded_programs_valid_witness:
  "valid_program \<lparr>jump_table = [], instructions = [(0, Trap), (1, Fallthrough)], code_len = 2, memory_base = None\<rparr>"
  using decoded_programs_valid [OF disjI1 [OF small_blob]] .

text \<open>C29: the blocks of the graph, in order of their starts, are nonempty and cut the instruction list
  into consecutive pieces; they are filed under their starts.\<close>

theorem build_partitions:
  assumes "wf_program p"
  shows "\<exists>bs. sorted_wrt (<) (map start_pc bs) \<and> concat (map block_instrs bs) = instructions p \<and>
    [] \<notin> set (map block_instrs bs) \<and> (\<forall>s b. get_block (build p) s = Some b \<longleftrightarrow> b \<in> set bs \<and> start_pc b = s)"
proof (intro exI [of _ "connect_blocks (program_blocks p)"] conjI allI)
  let ?B = "program_blocks p"
  have bi: "map block_instrs (connect_blocks ?B) = map block_instrs ?B"
    by (rule nth_equalityI) (simp_all add: connect_blocks_nth)
  show "sorted_wrt (<) (map start_pc (connect_blocks ?B))"
    using create_blocks_starts by (simp add: program_blocks_def)
  show "concat (map block_instrs (connect_blocks ?B)) = instructions p"
    unfolding bi using create_blocks_concat [OF assms] by (simp add: program_blocks_def)
  show "[] \<notin> set (map block_instrs (connect_blocks ?B))"
    unfolding bi using blocks_nonempty [of p] by (metis (no_types, lifting))
  show "get_block (build p) s = Some b \<longleftrightarrow> b \<in> set (connect_blocks ?B) \<and> start_pc b = s" for s b
    unfolding blocks_build in_set_conv_nth using connected_fields [of _ ?B] by auto
qed

theorem build_partitions_witness:
  "\<exists>bs. sorted_wrt (<) (map start_pc bs) \<and> concat (map block_instrs bs) = instructions loop_program \<and>
    [] \<notin> set (map block_instrs bs) \<and>
    (\<forall>s b. get_block (build loop_program) s = Some b \<longleftrightarrow> b \<in> set bs \<and> start_pc b = s)"
  by (rule build_partitions [OF loop_program_wf])

text \<open>C19: every static control-flow step from an instruction to an instruction of the program either
  goes to the next instruction of the same block, or leaves the block from its last instruction along
  an edge to the block that starts with the target.\<close>

theorem build_covers_steps:
  assumes "wf_program p" "k < length (instructions p)" "t \<in> set (static_next p k)"
    "t \<in> fst ` set (instructions p)"
  shows "\<exists>b. get_block (build p) (start_pc b) = Some b \<and> instructions p ! k \<in> set (block_instrs b) \<and>
    ((k + 1 < length (instructions p) \<and> t = fst (instructions p ! (k + 1)) \<and>
      instructions p ! (k + 1) \<in> set (block_instrs b)) \<or>
     last (block_instrs b) = instructions p ! k \<and>
     (\<exists>s b'. s \<in> set (successors b) \<and> get_block (build p) s = Some b' \<and> fst (hd (block_instrs b')) = t))"
  by (rule step_edge [OF assms])

theorem build_covers_steps_witness:
  "\<exists>b. get_block (build loop_program) (start_pc b) = Some b \<and> (3, BranchImm BranchNeImm 1 0 (- 3)) \<in> set (block_instrs b) \<and>
    last (block_instrs b) = (3, BranchImm BranchNeImm 1 0 (- 3)) \<and>
    (\<exists>s b'. s \<in> set (successors b) \<and> get_block (build loop_program) s = Some b' \<and> fst (hd (block_instrs b')) = 0)"
proof -
  have n: "instructions loop_program ! 1 = (3, BranchImm BranchNeImm 1 0 (- 3))"
    "length (instructions loop_program) = 3" "fst (instructions loop_program ! (1 + 1)) = 6"
    "fst ` set (instructions loop_program) = {0, 3, 6}"
    by (simp_all add: loop_program_def)
  have t: "0 \<in> set (static_next loop_program 1)" by code_simp
  show ?thesis
    using build_covers_steps [OF loop_program_wf _ t] unfolding n by simp
qed

text \<open>Every edge is such a step: the last instruction of the source branches to the start of the
  target block, or falls through to the first instruction of the target block.\<close>

theorem build_edges_are_steps:
  assumes "wf_program p" "get_block (build p) s = Some b" "s' \<in> set (successors b)"
  shows "\<exists>b' k. get_block (build p) s' = Some b' \<and> k < length (instructions p) \<and>
    last (block_instrs b) = instructions p ! k \<and>
    ((\<exists>off. branch_offset (classify (snd (instructions p ! k))) = Some off \<and>
        s' = compute_jump_target (fst (instructions p ! k)) off) \<or>
     falls_through (classify (snd (instructions p ! k))) \<and> k + 1 < length (instructions p) \<and>
        hd (block_instrs b') = instructions p ! (k + 1))"
  by (rule edge_step [OF assms])

theorem build_edges_are_steps_witness:
  "\<exists>b' k. get_block (build loop_program) 6 = Some b' \<and> k < 3 \<and>
    (3, BranchImm BranchNeImm 1 0 (- 3)) = instructions loop_program ! k"
proof -
  have n: "length (instructions loop_program) = 3" by (simp add: loop_program_def)
  show ?thesis
    using build_edges_are_steps [OF loop_program_wf loop_graph, of 6] unfolding n by auto
qed

text \<open>Predecessor lists are the successor lists turned around, with multiplicity, for any program.\<close>

theorem build_predecessors:
  assumes "get_block (build p) t = Some b"
  shows "count_list (predecessors b) s =
    (case get_block (build p) s of Some b' \<Rightarrow> count_list (successors b') t | None \<Rightarrow> 0)"
proof -
  have "t \<in> cfg_nodes (build p)" using assms by (auto simp: cfg_nodes_dom)
  from built.preds_count [OF this, of s] assms show ?thesis
    by (cases "get_block (build p) s") (simp_all add: cfg_preds_def cfg_succs_def)
qed

theorem build_predecessors_witness:
  "count_list [0 :: usize] 0 =
    (case get_block (build loop_program) 0 of Some b' \<Rightarrow> count_list (successors b') 0 | None \<Rightarrow> 0)"
  using build_predecessors [OF loop_graph, of 0] by simp

text \<open>C32: below \<open>2 ^ 31\<close> the target of a relative jump is the sum of position and signed offset, cut off at
  zero; this includes the least offset, whose negation wraps.\<close>

theorem jump_target_value:
  assumes "pc \<le> 2 ^ 31"
  shows "int (compute_jump_target pc offset) = max 0 (int pc + sint offset)"
proof -
  define k where "k = sint offset"
  have k: "- (2 ^ 31) \<le> k" "k < 2 ^ 31"
    using sint_ge [of offset] sint_lt [of offset] by (simp_all add: k_def)
  have off: "offset = word_of_int k" by (simp add: k_def)
  have ext: "unat (scast (word_of_int i :: i32) :: u64) = nat i" if "0 \<le> i" "i < 2 ^ 31" for i
  proof -
    have "sint (word_of_int i :: i32) = i" using that by (intro sint_word_of_int) simp_all
    then have "scast (word_of_int i :: i32) = (word_of_int i :: u64)" by (simp add: scast_eq)
    moreover have "unat (word_of_int i :: u64) = nat i"
      using that by (simp add: unsigned_of_int take_bit_int_eq_self)
    ultimately show ?thesis by simp
  qed
  consider "0 \<le> k" | "k < 0" "- (2 ^ 31) < k" | "k = - (2 ^ 31)" using k(1) by linarith
  then show ?thesis
  proof cases
    case 1
    then show ?thesis using ext [of k] k(2) by (simp add: compute_jump_target_def flip: k_def off)
  next
    case 2
    have "- offset = word_of_int (- k)" by (simp add: off)
    then have "unat (scast (- offset) :: u64) = nat (- k)" using 2 ext [of "- k"] by (simp only:)
    with 2 show ?thesis by (simp add: compute_jump_target_def flip: k_def)
  next
    case 3
    have "- offset = (0x80000000 :: i32)" using 3 by (simp add: off)
    then have "scast (- offset) = (0xFFFFFFFF80000000 :: u64)" by (simp add: scast_eq)
    then have "unat (scast (- offset) :: u64) = 0xFFFFFFFF80000000" by simp
    with 3 assms show ?thesis by (simp add: compute_jump_target_def flip: k_def)
  qed
qed

theorem jump_target_value_witness: "int (compute_jump_target 7 (- 3)) = 4"
  using jump_target_value [of 7 "- 3"] by simp

end
