(* ===== verification/Dataflow.thy ===== *)
theory Dataflow
  imports Cfg
begin

text \<open>
  Data-flow analysis (\<open>src/dataflow.rs\<close>): registers defined and used at each position, live registers
  at block borders, a reverse postorder of the graph, and def-use chains.

  A \<open>Vec\<close> used as a stack is a list whose head is the top. Iterating over the \<open>HashMap\<close> of blocks is
  iterating over \<open>blocks cfg\<close>, in whatever order it has. The masks are 16 bits wide, as in the code.
\<close>

section \<open>Results\<close>

record definition_point =
  def_pc :: usize
  def_point_reg :: u8

record use_point =
  use_pc :: usize
  use_point_reg :: u8

record def_use_chain =
  chain_definition :: definition_point
  chain_uses :: "use_point list"

record data_flow_analysis =
  chains :: "usize \<rightharpoonup> def_use_chain list"
  defs_at_pc :: "usize \<rightharpoonup> u8 list"
  uses_at_pc :: "usize \<rightharpoonup> u8 list"
  live_in :: "usize \<rightharpoonup> u8 set"
  live_out :: "usize \<rightharpoonup> u8 set"

definition extract_def_use :: "instruction \<Rightarrow> u8 list \<times> u8 list" where
  "extract_def_use instr = def_use (classify instr)"

text \<open>Step 1 of \<open>analyze\<close>.\<close>

definition record_def_use :: "usize \<times> instruction \<Rightarrow> data_flow_analysis \<Rightarrow> data_flow_analysis" where
  "record_def_use x a =
     (let (pc, instr) = x; (defs, uses) = extract_def_use instr;
          a = (if defs \<noteq> [] then a\<lparr>defs_at_pc := (defs_at_pc a)(pc \<mapsto> defs)\<rparr> else a)
      in if uses \<noteq> [] then a\<lparr>uses_at_pc := (uses_at_pc a)(pc \<mapsto> uses)\<rparr> else a)"

definition collect_def_use :: "control_flow_graph \<Rightarrow> data_flow_analysis \<Rightarrow> data_flow_analysis" where
  "collect_def_use cfg a = fold (\<lambda>(_, b). fold record_def_use (block_instrs b)) (blocks cfg) a"

text \<open>Used before any definition in the block, and defined in the block.\<close>

definition block_use_def_step ::
  "(usize \<rightharpoonup> u8 list) \<Rightarrow> (usize \<rightharpoonup> u8 list) \<Rightarrow> usize \<times> instruction \<Rightarrow> u8 set \<times> u8 set \<Rightarrow> u8 set \<times> u8 set" where
  "block_use_def_step defs_at uses_at x acc =
     (let (pc, _) = x; (use_set, def_set) = acc;
          use_set = (case uses_at pc of
              Some uses \<Rightarrow> fold (\<lambda>reg us. if reg \<notin> def_set then insert reg us else us) uses use_set
            | None \<Rightarrow> use_set);
          def_set = (case defs_at pc of Some defs \<Rightarrow> fold insert defs def_set | None \<Rightarrow> def_set)
      in (use_set, def_set))"

definition compute_block_use_def ::
  "basic_block \<Rightarrow> (usize \<rightharpoonup> u8 list) \<Rightarrow> (usize \<rightharpoonup> u8 list) \<Rightarrow> u8 set \<times> u8 set" where
  "compute_block_use_def block defs_at uses_at =
     fold (block_use_def_step defs_at uses_at) (block_instrs block) ({}, {})"


section \<open>Reverse postorder\<close>

text \<open>The \<open>while\<close> loop of \<open>dfs_from\<close>. Stack entries are a position and the index of its next successor.\<close>

function dfs_loop :: "control_flow_graph \<Rightarrow> (usize \<times> nat) list \<Rightarrow> usize set \<Rightarrow> usize list \<Rightarrow> usize set \<times> usize list" where
  "dfs_loop cfg [] visited postorder = (visited, postorder)"
| "dfs_loop cfg ((pc, idx) # stack) visited postorder =
     (let succs = cfg_succs cfg pc in
      if idx < length succs then
        (let succ = succs ! idx in
         if succ \<notin> visited then dfs_loop cfg ((succ, 0) # (pc, idx + 1) # stack) (insert succ visited) postorder
         else dfs_loop cfg ((pc, idx + 1) # stack) visited postorder)
      else dfs_loop cfg stack visited (postorder @ [pc]))"
  by pat_completeness auto

definition edge_targets :: "control_flow_graph \<Rightarrow> usize set" where
  "edge_targets cfg = (\<Union>(s, b) \<in> set (blocks cfg). set (successors b))"

lemma edge_targets_finite [simp]: "finite (edge_targets cfg)"
  by (auto simp: edge_targets_def)

lemma cfg_succs_target: "t \<in> set (cfg_succs cfg s) \<Longrightarrow> t \<in> edge_targets cfg"
  by (erule cfg_succsE) (auto simp: edge_targets_def get_block_def dest!: map_of_SomeD)

termination dfs_loop
proof (relation "measures [\<lambda>(cfg, stack, visited, postorder). card (edge_targets cfg - visited),
    \<lambda>(cfg, stack, visited, postorder). \<Sum>(pc, idx) \<leftarrow> stack. Suc (length (cfg_succs cfg pc) - idx)]", goal_cases)
  case (2 cfg pc idx stack visited postorder succs succ)
  then have "succ \<in> edge_targets cfg - visited" by (auto intro: cfg_succs_target nth_mem)
  then have "card (edge_targets cfg - insert succ visited) < card (edge_targets cfg - visited)"
    by (intro psubset_card_mono) auto
  then show ?case by simp
qed auto

definition dfs_from :: "control_flow_graph \<Rightarrow> usize \<Rightarrow> usize set \<times> usize list \<Rightarrow> usize set \<times> usize list" where
  "dfs_from cfg start acc =
     (let (visited, postorder) = acc in
      if start \<in> visited then (visited, postorder)
      else dfs_loop cfg [(start, 0)] (insert start visited) postorder)"

definition reverse_postorder :: "control_flow_graph \<Rightarrow> usize list" where
  "reverse_postorder cfg =
     (let acc = dfs_from cfg (entry_pc cfg) ({}, []);
          all_pcs = sort (map fst (blocks cfg));
          (visited, postorder) = fold (dfs_from cfg) all_pcs acc
      in rev postorder)"


section \<open>Liveness\<close>

definition to_mask :: "u8 set \<Rightarrow> u16" where
  "to_mask S = fold (\<lambda>r acc. acc OR push_bit (unat r) 1) (sorted_list_of_set S) 0"

definition to_set :: "u16 \<Rightarrow> u8 set" where
  "to_set m = set (filter (\<lambda>r. m AND push_bit (unat r) 1 \<noteq> 0) (map of_nat [0..<16]))"

record live_state =
  worklist :: "usize list"
  in_worklist :: "usize set"
  live_in_mask :: "usize \<rightharpoonup> u16"
  live_out_mask :: "usize \<rightharpoonup> u16"
  iterations :: usize

text \<open>What the loop reads: the graph, the masks of the blocks, the predecessor map.\<close>

record live_env =
  env_cfg :: control_flow_graph
  block_use :: "usize \<rightharpoonup> u16"
  block_def :: "usize \<rightharpoonup> u16"
  pred_map :: "usize \<rightharpoonup> usize list"

definition unwrap_or_zero :: "u16 option \<Rightarrow> u16" where
  "unwrap_or_zero x = (case x of Some m \<Rightarrow> m | None \<Rightarrow> 0)"

definition or_default :: "usize \<Rightarrow> (usize \<rightharpoonup> 'a list) \<Rightarrow> (usize \<rightharpoonup> 'a list)" where
  "or_default k m = (case m k of None \<Rightarrow> m(k \<mapsto> []) | Some _ \<Rightarrow> m)"

definition push_entry :: "usize \<Rightarrow> 'a \<Rightarrow> (usize \<rightharpoonup> 'a list) \<Rightarrow> (usize \<rightharpoonup> 'a list)" where
  "push_entry k x m = (case m k of None \<Rightarrow> m(k \<mapsto> [x]) | Some xs \<Rightarrow> m(k \<mapsto> xs @ [x]))"

definition build_pred_map :: "control_flow_graph \<Rightarrow> usize \<rightharpoonup> usize list" where
  "build_pred_map cfg =
     fold (\<lambda>(pc, b) m. fold (\<lambda>s. push_entry s pc) (successors b) (or_default pc m)) (blocks cfg) Map.empty"

definition push_preds :: "usize list \<Rightarrow> live_state \<Rightarrow> live_state" where
  "push_preds preds st =
     fold (\<lambda>p st. if p \<notin> in_worklist st
                  then st\<lparr>in_worklist := insert p (in_worklist st), worklist := p # worklist st\<rparr>
                  else st) preds st"

definition live_update :: "live_env \<Rightarrow> usize \<Rightarrow> live_state \<Rightarrow> live_state" where
  "live_update env pc st =
     (case get_block (env_cfg env) pc of
        None \<Rightarrow> st
      | Some block \<Rightarrow>
          (let new_out = fold (\<lambda>s acc. acc OR unwrap_or_zero (live_in_mask st s)) (successors block) 0;
               use_b = unwrap_or_zero (block_use env pc);
               def_b = unwrap_or_zero (block_def env pc);
               new_in = use_b OR (new_out AND NOT def_b);
               old_in = unwrap_or_zero (live_in_mask st pc);
               old_out = unwrap_or_zero (live_out_mask st pc)
           in if new_in \<noteq> old_in \<or> new_out \<noteq> old_out then
                (let st = st\<lparr>live_in_mask := (live_in_mask st)(pc \<mapsto> new_in),
                             live_out_mask := (live_out_mask st)(pc \<mapsto> new_out)\<rparr>
                 in case pred_map env pc of Some preds \<Rightarrow> push_preds preds st | None \<Rightarrow> st)
              else st))"

definition live_pop :: "live_state \<Rightarrow> live_state" where
  "live_pop st = st\<lparr>worklist := tl (worklist st), in_worklist := in_worklist st - {hd (worklist st)},
     iterations := iterations st + 1\<rparr>"

text \<open>\<open>live_update\<close> leaves the iteration count alone, so the loop stops at the latest when the count
  passes the bound.\<close>

lemma iterations_push_preds [simp]: "iterations (push_preds ps st) = iterations st"
  by (induction ps arbitrary: st) (simp_all add: push_preds_def)

lemma iterations_live_update [simp]: "iterations (live_update env pc st) = iterations st"
  by (simp add: live_update_def Let_def split: option.split)

function live_loop :: "live_env \<Rightarrow> usize \<Rightarrow> live_state \<Rightarrow> live_state" where
  "live_loop env max_iterations st =
     (if worklist st = [] then st
      else let pc = hd (worklist st); st = live_pop st in
      if iterations st > max_iterations then st
      else live_loop env max_iterations (live_update env pc st))"
  by pat_completeness auto
termination
  by (relation "measure (\<lambda>(env, m, st). Suc m - iterations st)") (auto simp: live_pop_def Let_def)

declare live_loop.simps [simp del]

definition mask_map :: "control_flow_graph \<Rightarrow> (basic_block \<Rightarrow> u16) \<Rightarrow> usize \<rightharpoonup> u16" where
  "mask_map cfg f = fold (\<lambda>(pc, b) m. m(pc \<mapsto> f b)) (blocks cfg) Map.empty"

definition live_env_of :: "control_flow_graph \<Rightarrow> data_flow_analysis \<Rightarrow> live_env" where
  "live_env_of cfg a = \<lparr>env_cfg = cfg,
     block_use = mask_map cfg (\<lambda>b. to_mask (fst (compute_block_use_def b (defs_at_pc a) (uses_at_pc a)))),
     block_def = mask_map cfg (\<lambda>b. to_mask (snd (compute_block_use_def b (defs_at_pc a) (uses_at_pc a)))),
     pred_map = build_pred_map cfg\<rparr>"

definition live_init :: "control_flow_graph \<Rightarrow> live_state" where
  "live_init cfg = (let rpo = reverse_postorder cfg in
     \<lparr>worklist = rpo, in_worklist = set rpo, live_in_mask = mask_map cfg (\<lambda>_. 0),
      live_out_mask = mask_map cfg (\<lambda>_. 0), iterations = 0\<rparr>)"

definition live_final :: "control_flow_graph \<Rightarrow> data_flow_analysis \<Rightarrow> live_state" where
  "live_final cfg a = live_loop (live_env_of cfg a) (length (blocks cfg) * 15) (live_init cfg)"

definition compute_liveness :: "control_flow_graph \<Rightarrow> data_flow_analysis \<Rightarrow> data_flow_analysis" where
  "compute_liveness cfg a =
     (let st = live_final cfg a in
      a\<lparr>live_in := map_option to_set \<circ> live_in_mask st, live_out := map_option to_set \<circ> live_out_mask st\<rparr>)"


section \<open>Def-use chains\<close>

text \<open>The scan of the defining block after the definition: the uses, and whether the register was
  redefined (then the search ends).\<close>

fun scan_uses :: "u8 \<Rightarrow> (usize \<times> instruction) list \<Rightarrow> use_point list \<times> bool" where
  "scan_uses reg [] = ([], False)"
| "scan_uses reg ((pc, instr) # is) =
     (let (instr_defs, instr_uses) = extract_def_use instr;
          here = (if reg \<in> set instr_uses then [\<lparr>use_pc = pc, use_point_reg = reg\<rparr>] else [])
      in if reg \<in> set instr_defs then (here, True)
         else (let (uses, killed) = scan_uses reg is in (here @ uses, killed)))"

text \<open>\<open>found_def\<close>: everything after the first instruction at the definition's position, without the
  instructions at that position.\<close>

definition after_def :: "usize \<Rightarrow> (usize \<times> instruction) list \<Rightarrow> (usize \<times> instruction) list" where
  "after_def pc is = filter (\<lambda>(q, _). q \<noteq> pc) (dropWhile (\<lambda>(q, _). q \<noteq> pc) is)"

definition MAX_BLOCKS_TO_VISIT :: usize where
  "MAX_BLOCKS_TO_VISIT = 200"

function follow_uses :: "control_flow_graph \<Rightarrow> u8 \<Rightarrow> usize list \<Rightarrow> usize set \<Rightarrow> use_point list \<Rightarrow> use_point list" where
  "follow_uses cfg reg [] seen uses = uses"
| "follow_uses cfg reg (pc # wl) seen uses =
     (if pc \<in> seen then follow_uses cfg reg wl seen uses
      else if card seen \<ge> MAX_BLOCKS_TO_VISIT then uses
      else let seen = insert pc seen in
      case get_block cfg pc of
        None \<Rightarrow> follow_uses cfg reg wl seen uses
      | Some b \<Rightarrow>
          (let (found, killed) = scan_uses reg (block_instrs b); uses = uses @ found in
           if killed then follow_uses cfg reg wl seen uses
           else follow_uses cfg reg (rev (filter (\<lambda>s. s \<notin> seen) (successors b)) @ wl) seen uses))"
  by pat_completeness auto

lemma unseen_decreases:
  assumes "get_block cfg pc = Some b" "pc \<notin> seen"
  shows "card (cfg_nodes cfg - insert pc seen) < card (cfg_nodes cfg - seen)"
proof -
  have "pc \<in> cfg_nodes cfg" using assms(1) by (auto simp: cfg_nodes_dom)
  with assms(2) show ?thesis by (intro psubset_card_mono) auto
qed

lemma unseen_unchanged: "get_block cfg pc = None \<Longrightarrow> cfg_nodes cfg - insert pc seen = cfg_nodes cfg - seen"
  by (auto simp: cfg_nodes_dom)

termination follow_uses
  by (relation "measures [\<lambda>(cfg, reg, wl, seen, uses). card (cfg_nodes cfg - seen),
      \<lambda>(cfg, reg, wl, seen, uses). length wl]")
    (auto simp: unseen_decreases unseen_unchanged)

definition find_uses_for_def :: "definition_point \<Rightarrow> basic_block \<Rightarrow> control_flow_graph \<Rightarrow> use_point list" where
  "find_uses_for_def d block cfg =
     (let (uses, killed) = scan_uses (def_point_reg d) (after_def (def_pc d) (block_instrs block)) in
      if killed then uses
      else follow_uses cfg (def_point_reg d) (rev (successors block)) {start_pc block} uses)"

definition instr_chains :: "control_flow_graph \<Rightarrow> basic_block \<Rightarrow> usize \<times> instruction \<Rightarrow> def_use_chain list" where
  "instr_chains cfg block x =
     (let (pc, instr) = x in
      map (\<lambda>reg. let d = \<lparr>def_pc = pc, def_point_reg = reg\<rparr> in
             \<lparr>chain_definition = d, chain_uses = find_uses_for_def d block cfg\<rparr>)
        (fst (extract_def_use instr)))"

definition build_chains :: "control_flow_graph \<Rightarrow> data_flow_analysis \<Rightarrow> data_flow_analysis" where
  "build_chains cfg a =
     a\<lparr>chains := fold (\<lambda>(block_pc, block) m.
         fold (push_entry block_pc) (concat (map (instr_chains cfg block) (block_instrs block))) m)
       (blocks cfg) (chains a)\<rparr>"

definition analyze :: "control_flow_graph \<Rightarrow> data_flow_analysis" where
  "analyze cfg =
     (let analysis = \<lparr>chains = Map.empty, defs_at_pc = Map.empty, uses_at_pc = Map.empty,
                      live_in = Map.empty, live_out = Map.empty\<rparr>;
          analysis = collect_def_use cfg analysis;
          analysis = compute_liveness cfg analysis
      in build_chains cfg analysis)"

end
