(* ===== verification/Dataflow_Correct.thy ===== *)
theory Dataflow_Correct
  imports Dataflow
begin

text \<open>
  Correctness of the data-flow analysis (\<open>Dataflow\<close>): the reverse postorder visits every block once,
  the live registers are those of some path, all of them when the worklist drains, and the uses in a
  def-use chain are reached from the definition.
\<close>

section \<open>Reverse postorder\<close>

text \<open>The invariant of the search: every visited position is either finished or on the stack, once; the
  successors of a finished position, and those a stack entry has passed, are visited.\<close>

definition dfs_inv :: "control_flow_graph \<Rightarrow> (usize \<times> nat) list \<Rightarrow> usize set \<Rightarrow> usize list \<Rightarrow> bool" where
  "dfs_inv cfg stack visited post \<longleftrightarrow>
     visited = set post \<union> fst ` set stack \<and> distinct (map fst stack @ post) \<and>
     (\<forall>x \<in> set post. set (cfg_succs cfg x) \<subseteq> visited) \<and>
     (\<forall>(pc, idx) \<in> set stack. set (take idx (cfg_succs cfg pc)) \<subseteq> visited)"

lemma dfs_loop_inv:
  "dfs_inv cfg stack visited post \<Longrightarrow> dfs_loop cfg stack visited post = (v, p) \<Longrightarrow>
   dfs_inv cfg [] v p \<and> visited \<subseteq> v \<and> v \<subseteq> visited \<union> edge_targets cfg"
proof (induction cfg stack visited post rule: dfs_loop.induct)
  case (1 cfg visited post)
  then show ?case by simp
next
  case (2 cfg pc idx stack visited post)
  let ?S = "cfg_succs cfg pc"
  show ?case
  proof (cases "idx < length ?S")
    case False
    then have "set ?S \<subseteq> visited" using 2(4) by (auto simp: dfs_inv_def)
    then have "dfs_inv cfg stack visited (post @ [pc])" using 2(4) by (auto simp: dfs_inv_def)
    then show ?thesis using 2(3) [OF refl False] 2(5) False by simp
  next
    case True
    have tk: "set (take (Suc idx) ?S) = insert (?S ! idx) (set (take idx ?S))"
      using True by (simp add: take_Suc_conv_app_nth)
    have target: "?S ! idx \<in> edge_targets cfg" by (rule cfg_succs_target [OF nth_mem [OF True]])
    show ?thesis
    proof (cases "?S ! idx \<in> visited")
      case False
      then have "dfs_inv cfg ((?S ! idx, 0) # (pc, idx + 1) # stack) (insert (?S ! idx) visited) post"
        using 2(4) tk by (auto simp: dfs_inv_def)
      then show ?thesis using 2(1) [OF refl True refl False] 2(5) True False target by (auto simp: Let_def)
    next
      case vis: True
      then have "dfs_inv cfg ((pc, idx + 1) # stack) visited post"
        using 2(4) tk by (auto simp: dfs_inv_def)
      then show ?thesis using 2(2) [OF refl True refl] 2(5) True vis by (auto simp: Let_def)
    qed
  qed
qed

lemma dfs_from_inv:
  assumes "dfs_inv cfg [] visited post" "dfs_from cfg start (visited, post) = (v, p)"
  shows "dfs_inv cfg [] v p \<and> visited \<subseteq> v \<and> start \<in> v \<and> v \<subseteq> insert start visited \<union> edge_targets cfg"
proof (cases "start \<in> visited")
  case True
  then show ?thesis using assms by (auto simp: dfs_from_def)
next
  case False
  then have "dfs_inv cfg [(start, 0)] (insert start visited) post"
    using assms(1) by (auto simp: dfs_inv_def)
  from dfs_loop_inv [OF this] assms(2) False show ?thesis by (auto simp: dfs_from_def)
qed

lemma dfs_fold_inv:
  "dfs_inv cfg [] visited post \<Longrightarrow> fold (dfs_from cfg) starts (visited, post) = (v, p) \<Longrightarrow>
   dfs_inv cfg [] v p \<and> visited \<subseteq> v \<and> set starts \<subseteq> v \<and> v \<subseteq> visited \<union> set starts \<union> edge_targets cfg"
proof (induction starts arbitrary: visited post)
  case (Cons s ss)
  obtain v1 p1 where 1: "dfs_from cfg s (visited, post) = (v1, p1)" by (cases "dfs_from cfg s (visited, post)")
  note i = dfs_from_inv [OF Cons.prems(1) 1]
  with Cons.IH [of v1 p1] Cons.prems(2) 1 show ?case by auto
qed simp

lemma reverse_postorder_inv:
  "dfs_inv cfg [] (set (reverse_postorder cfg)) (rev (reverse_postorder cfg)) \<and>
   insert (entry_pc cfg) (cfg_nodes cfg) \<subseteq> set (reverse_postorder cfg) \<and>
   set (reverse_postorder cfg) \<subseteq> insert (entry_pc cfg) (cfg_nodes cfg) \<union> edge_targets cfg"
proof -
  have init: "dfs_inv cfg [] {} []" by (simp add: dfs_inv_def)
  obtain v1 p1 where 1: "dfs_from cfg (entry_pc cfg) ({}, []) = (v1, p1)"
    by (cases "dfs_from cfg (entry_pc cfg) ({}, [])")
  obtain v p where 2: "fold (dfs_from cfg) (sort (map fst (blocks cfg))) (v1, p1) = (v, p)"
    by (cases "fold (dfs_from cfg) (sort (map fst (blocks cfg))) (v1, p1)")
  note i1 = dfs_from_inv [OF init 1]
  note i2 = dfs_fold_inv [OF conjunct1 [OF i1] 2]
  have "v = set p" using i2 by (simp add: dfs_inv_def)
  moreover have "reverse_postorder cfg = rev p" using 1 2 by (simp add: reverse_postorder_def)
  ultimately show ?thesis using i1 i2 by (auto simp: cfg_nodes_def)
qed

context flow_graph
begin

lemma block_entry: "(s, b) \<in> set (blocks cfg) \<longleftrightarrow> get_block cfg s = Some b"
  using keys_distinct by (simp add: get_block_def)

lemma edge_targets_nodes: "edge_targets cfg \<subseteq> cfg_nodes cfg"
proof
  fix t
  assume "t \<in> edge_targets cfg"
  then obtain s b where "get_block cfg s = Some b" "t \<in> set (successors b)"
    by (auto simp: edge_targets_def block_entry)
  then have "t \<in> set (cfg_succs cfg s)" by (simp add: cfg_succs_def)
  then show "t \<in> cfg_nodes cfg" by (rule succs_closed)
qed

lemma rpo_nodes: "set (reverse_postorder cfg) = insert (entry_pc cfg) (cfg_nodes cfg)"
  using reverse_postorder_inv [of cfg] edge_targets_nodes by blast

lemma rpo_distinct: "distinct (reverse_postorder cfg)"
  using reverse_postorder_inv [of cfg] by (simp add: dfs_inv_def)

end


section \<open>Masks\<close>

lemma bit_shifted_one: "bit (2 ^ n :: 'a::len word) k \<longleftrightarrow> k = n \<and> k < LENGTH('a)"
  by (auto simp: bit_simps)

lemma bit_fold_or:
  "bit (fold (\<lambda>x acc. acc OR f x) xs a) k \<longleftrightarrow> bit a k \<or> (\<exists>x \<in> set xs. bit (f x) k)"
  by (induction xs arbitrary: a) (auto simp: bit_or_iff)

lemma bit_to_mask:
  "finite S \<Longrightarrow> bit (to_mask S) k \<longleftrightarrow> k < 16 \<and> (\<exists>r \<in> S. unat r = k)"
  unfolding to_mask_def bit_fold_or by (auto simp: bit_shifted_one)

lemma mem_to_set: "r \<in> to_set m \<longleftrightarrow> unat r < 16 \<and> bit m (unat r)"
proof -
  have "r \<in> of_nat ` {0..<16} \<longleftrightarrow> unat r < 16"
  proof
    assume "r \<in> of_nat ` {0..<16}"
    then show "unat r < 16" by (auto simp: unat_of_nat_small)
  next
    assume "unat r < 16"
    then show "r \<in> of_nat ` {0..<16}" by (intro image_eqI [of _ _ "unat r"]) simp_all
  qed
  then show ?thesis unfolding to_set_def by (auto simp: and_exp_eq_0_iff_not_bit)
qed

section \<open>Used and defined in a block\<close>

fun exposed :: "u8 \<Rightarrow> (usize \<times> instruction) list \<Rightarrow> bool" where
  "exposed r [] = False"
| "exposed r ((pc, i) # is) =
     (r \<in> set (snd (extract_def_use i)) \<or> r \<notin> set (fst (extract_def_use i)) \<and> exposed r is)"

definition redefines :: "u8 \<Rightarrow> (usize \<times> instruction) list \<Rightarrow> bool" where
  "redefines r is \<longleftrightarrow> (\<exists>(pc, i) \<in> set is. r \<in> set (fst (extract_def_use i)))"

definition entry_of :: "(usize \<rightharpoonup> u8 list) \<Rightarrow> usize \<Rightarrow> u8 list" where
  "entry_of m pc = (case m pc of Some rs \<Rightarrow> rs | None \<Rightarrow> [])"

lemma fold_insert_unless:
  "fold (\<lambda>r us. if r \<notin> D then insert r us else us) rs U = U \<union> (set rs - D)"
  by (induction rs arbitrary: U) auto

lemma fold_insert_set: "fold insert xs A = set xs \<union> A"
  by (induction xs arbitrary: A) auto

lemma block_use_def_step_eq:
  "block_use_def_step defs uses (pc, i) (U, D) = (U \<union> (set (entry_of uses pc) - D), D \<union> set (entry_of defs pc))"
  by (auto simp: block_use_def_step_def entry_of_def fold_insert_unless fold_insert_set split: option.split)

lemma compute_block_use_def_eq:
  assumes "\<forall>(pc, i) \<in> set is. entry_of defs pc = fst (extract_def_use i) \<and> entry_of uses pc = snd (extract_def_use i)"
  shows "fold (block_use_def_step defs uses) is (U, D) =
    (U \<union> {r. r \<notin> D \<and> exposed r is}, D \<union> {r. redefines r is})"
  using assms
proof (induction "is" arbitrary: U D)
  case (Cons x "is")
  obtain pc i where x: "x = (pc, i)" by (cases x)
  have e: "entry_of defs pc = fst (extract_def_use i)" "entry_of uses pc = snd (extract_def_use i)"
    using Cons.prems by (simp_all add: x)
  show ?case
    using Cons by (auto simp: x block_use_def_step_eq e redefines_def)
qed (simp add: redefines_def)

lemma record_def_use_entry:
  "entry_of (defs_at_pc (record_def_use x a)) pc = (if fst x = pc \<and> fst (extract_def_use (snd x)) \<noteq> []
     then fst (extract_def_use (snd x)) else entry_of (defs_at_pc a) pc)"
  "entry_of (uses_at_pc (record_def_use x a)) pc = (if fst x = pc \<and> snd (extract_def_use (snd x)) \<noteq> []
     then snd (extract_def_use (snd x)) else entry_of (uses_at_pc a) pc)"
  by (auto simp: record_def_use_def Let_def entry_of_def split: prod.splits)

lemma collect_def_use_eq:
  assumes "\<forall>x \<in> set xs. \<forall>y \<in> set xs. fst x = fst y \<longrightarrow> x = y"
    and "defs_at_pc a = Map.empty" "uses_at_pc a = Map.empty" "(pc, i) \<in> set xs"
  shows "entry_of (defs_at_pc (fold record_def_use xs a)) pc = fst (extract_def_use i) \<and>
    entry_of (uses_at_pc (fold record_def_use xs a)) pc = snd (extract_def_use i)"
proof -
  have none: "pc \<notin> fst ` set ys \<Longrightarrow> entry_of (defs_at_pc (fold record_def_use ys a)) pc = [] \<and>
      entry_of (uses_at_pc (fold record_def_use ys a)) pc = []" for ys
    by (induction ys rule: rev_induct) (simp_all add: record_def_use_entry assms(2,3) entry_of_def [of Map.empty])
  show ?thesis
    using assms(1,4)
  proof (induction xs rule: rev_induct)
    case (snoc x xs)
    show ?case
    proof (cases "fst x = pc")
      case True
      then have x: "x = (pc, i)" using snoc.prems by auto
      have "entry_of (defs_at_pc (fold record_def_use xs a)) pc = (if (pc, i) \<in> set xs then fst (extract_def_use i) else [])"
        "entry_of (uses_at_pc (fold record_def_use xs a)) pc = (if (pc, i) \<in> set xs then snd (extract_def_use i) else [])"
        using snoc none [of xs] by (force split: if_splits)+
      then show ?thesis
        by (simp add: x record_def_use_entry)
    next
      case False
      then show ?thesis using snoc by (auto simp: record_def_use_entry)
    qed
  qed simp
qed


section \<open>Programs as graphs\<close>

text \<open>A graph whose blocks hold a program: one instruction per position, registers below 16.\<close>

locale program_graph = flow_graph +
  assumes instr_unique: "get_block cfg s = Some b \<Longrightarrow> (pc, i) \<in> set (block_instrs b) \<Longrightarrow>
      get_block cfg s' = Some b' \<Longrightarrow> (pc, i') \<in> set (block_instrs b') \<Longrightarrow> i = i'"
    and instr_regs: "get_block cfg s = Some b \<Longrightarrow> (pc, i) \<in> set (block_instrs b) \<Longrightarrow> regs_small i"
begin

definition initial :: data_flow_analysis where
  "initial = \<lparr>chains = Map.empty, defs_at_pc = Map.empty, uses_at_pc = Map.empty,
     live_in = Map.empty, live_out = Map.empty\<rparr>"

lemma collect_concat: "collect_def_use cfg a = fold record_def_use (concat (map (block_instrs \<circ> snd) (blocks cfg))) a"
proof -
  have "fold (\<lambda>(_, b). fold record_def_use (block_instrs b)) xs a =
      fold record_def_use (concat (map (block_instrs \<circ> snd) xs)) a" for xs :: "(usize \<times> basic_block) list"
    by (induction xs arbitrary: a) auto
  then show ?thesis by (simp add: collect_def_use_def)
qed

lemma collected:
  assumes "get_block cfg s = Some b" "(pc, i) \<in> set (block_instrs b)"
  shows "entry_of (defs_at_pc (collect_def_use cfg initial)) pc = fst (extract_def_use i) \<and>
    entry_of (uses_at_pc (collect_def_use cfg initial)) pc = snd (extract_def_use i)"
  unfolding collect_concat
proof (rule collect_def_use_eq)
  show "\<forall>x \<in> set (concat (map (block_instrs \<circ> snd) (blocks cfg))).
      \<forall>y \<in> set (concat (map (block_instrs \<circ> snd) (blocks cfg))). fst x = fst y \<longrightarrow> x = y"
    using instr_unique by (fastforce simp: block_entry)
  show "(pc, i) \<in> set (concat (map (block_instrs \<circ> snd) (blocks cfg)))"
    using assms by (force simp: block_entry [symmetric])
qed (simp_all add: initial_def)

lemma block_use_def_eq:
  assumes "get_block cfg s = Some b"
  shows "compute_block_use_def b (defs_at_pc (collect_def_use cfg initial)) (uses_at_pc (collect_def_use cfg initial)) =
    ({r. exposed r (block_instrs b)}, {r. redefines r (block_instrs b)})"
  unfolding compute_block_use_def_def
  using collected [OF assms] by (subst compute_block_use_def_eq) auto

lemma regs_below:
  assumes "get_block cfg s = Some b" "exposed r (block_instrs b) \<or> redefines r (block_instrs b)"
  shows "unat r < 16"
proof -
  have ex: "exposed r is \<Longrightarrow> \<exists>(pc, i) \<in> set is. r \<in> set (snd (extract_def_use i))" for "is"
    by (induction r "is" rule: exposed.induct) auto
  obtain pc i where "(pc, i) \<in> set (block_instrs b)" "r \<in> set (fst (extract_def_use i)) \<union> set (snd (extract_def_use i))"
    using assms(2) ex by (fastforce simp: redefines_def)
  with instr_regs [OF assms(1)] show ?thesis by (fastforce simp: regs_small_def extract_def_use_def)
qed

end


section \<open>The worklist\<close>

text \<open>Liveness over masks: bit \<open>k\<close> is live into a block that uses it first, or leaves it alone and has a
  successor into which it is live.\<close>

inductive mask_live :: "live_env \<Rightarrow> nat \<Rightarrow> usize \<Rightarrow> bool" for env k where
  used: "s \<in> cfg_nodes (env_cfg env) \<Longrightarrow> bit (unwrap_or_zero (block_use env s)) k \<Longrightarrow> mask_live env k s"
| through: "t \<in> set (cfg_succs (env_cfg env) s) \<Longrightarrow> mask_live env k t \<Longrightarrow>
    \<not> bit (unwrap_or_zero (block_def env s)) k \<Longrightarrow> mask_live env k s"

definition IN :: "live_state \<Rightarrow> usize \<Rightarrow> u16" where
  "IN st s = unwrap_or_zero (live_in_mask st s)"

definition OUT :: "live_state \<Rightarrow> usize \<Rightarrow> u16" where
  "OUT st s = unwrap_or_zero (live_out_mask st s)"

definition new_out :: "live_env \<Rightarrow> live_state \<Rightarrow> usize \<Rightarrow> u16" where
  "new_out env st s = fold (\<lambda>t acc. acc OR IN st t) (cfg_succs (env_cfg env) s) 0"

definition new_in :: "live_env \<Rightarrow> u16 \<Rightarrow> usize \<Rightarrow> u16" where
  "new_in env out s = unwrap_or_zero (block_use env s) OR (out AND NOT (unwrap_or_zero (block_def env s)))"

definition balanced :: "live_env \<Rightarrow> live_state \<Rightarrow> usize \<Rightarrow> bool" where
  "balanced env st s \<longleftrightarrow> OUT st s = new_out env st s \<and> IN st s = new_in env (OUT st s) s"

lemma bit_new_out: "bit (new_out env st s) k \<longleftrightarrow> (\<exists>t \<in> set (cfg_succs (env_cfg env) s). bit (IN st t) k)"
  by (simp add: new_out_def bit_fold_or)

lemma bit_new_in: "bit (new_in env out s) k \<longleftrightarrow>
    bit (unwrap_or_zero (block_use env s)) k \<or> bit out k \<and> \<not> bit (unwrap_or_zero (block_def env s)) k"
  by (auto simp: new_in_def bit_simps dest: bit_imp_le_length)

text \<open>The mask equations and the sound direction.\<close>

definition sound_masks :: "live_env \<Rightarrow> live_state \<Rightarrow> bool" where
  "sound_masks env st \<longleftrightarrow> (\<forall>s k. (bit (IN st s) k \<longrightarrow> mask_live env k s) \<and>
     (bit (OUT st s) k \<longrightarrow> (\<exists>t \<in> set (cfg_succs (env_cfg env) s). mask_live env k t)))"

definition pending_inv :: "live_env \<Rightarrow> live_state \<Rightarrow> bool" where
  "pending_inv env st \<longleftrightarrow> in_worklist st \<subseteq> set (worklist st) \<and>
     (\<forall>s \<in> cfg_nodes (env_cfg env). s \<in> set (worklist st) \<or> balanced env st s)"

lemma push_preds_masks [simp]:
  "live_in_mask (push_preds ps st) = live_in_mask st" "live_out_mask (push_preds ps st) = live_out_mask st"
  by (induction ps arbitrary: st) (simp_all add: push_preds_def)

lemma push_preds_worklist:
  "in_worklist st \<subseteq> set (worklist st) \<Longrightarrow>
   set (worklist st) \<union> set ps \<subseteq> set (worklist (push_preds ps st)) \<and>
   in_worklist (push_preds ps st) \<subseteq> set (worklist (push_preds ps st))"
proof (induction ps arbitrary: st)
  case (Cons p ps)
  define st' where "st' = (if p \<notin> in_worklist st
    then st\<lparr>in_worklist := insert p (in_worklist st), worklist := p # worklist st\<rparr> else st)"
  have step: "push_preds (p # ps) st = push_preds ps st'" by (simp add: push_preds_def st'_def)
  have "in_worklist st' \<subseteq> set (worklist st')" "insert p (set (worklist st)) \<subseteq> set (worklist st')"
    using Cons.prems by (auto simp: st'_def)
  with Cons.IH [of st'] show ?case unfolding step by auto
qed (simp add: push_preds_def)

lemma live_update_cases:
  assumes "s \<in> cfg_nodes (env_cfg env)"
  obtains (same) "live_update env s st = st" "balanced env st s"
  | (changed) ps where "live_update env s st = push_preds ps
      (st\<lparr>live_in_mask := (live_in_mask st)(s \<mapsto> new_in env (new_out env st s) s),
          live_out_mask := (live_out_mask st)(s \<mapsto> new_out env st s)\<rparr>)"
      "ps = (case pred_map env s of Some ps \<Rightarrow> ps | None \<Rightarrow> [])"
proof -
  obtain b where b: "get_block (env_cfg env) s = Some b" using assms by (auto simp: cfg_nodes_dom)
  have o: "fold (\<lambda>t acc. acc OR unwrap_or_zero (live_in_mask st t)) (successors b) 0 = new_out env st s"
    using b by (simp add: new_out_def IN_def [abs_def] cfg_succs_def)
  show thesis
  proof (cases "new_in env (new_out env st s) s = IN st s \<and> new_out env st s = OUT st s")
    case True
    then have "new_in env (new_out env st s) s = unwrap_or_zero (live_in_mask st s)"
      "new_out env st s = unwrap_or_zero (live_out_mask st s)"
      unfolding IN_def [symmetric] OUT_def [symmetric] by blast+
    then have "live_update env s st = st"
      unfolding live_update_def b Let_def option.case o new_in_def [symmetric] by (simp only: simp_thms if_False)
    moreover have "balanced env st s" unfolding balanced_def using True by metis
    ultimately show thesis by (rule same)
  next
    case False
    then show thesis
      using changed [OF _ refl] push_preds_def [of "[]"]
      by (simp add: live_update_def b Let_def o new_in_def [symmetric] IN_def OUT_def split: option.splits)
  qed
qed


lemma sound_update:
  assumes "sound_masks env st" "s \<in> cfg_nodes (env_cfg env)"
  shows "sound_masks env (live_update env s st)"
  using assms(2)
proof (cases rule: live_update_cases [of s env st])
  case same
  then show ?thesis using assms(1) by simp
next
  case (changed ps)
  have out: "bit (new_out env st s) k \<Longrightarrow> \<exists>t \<in> set (cfg_succs (env_cfg env) s). mask_live env k t" for k
    using assms(1) by (auto simp: bit_new_out sound_masks_def)
  have inn: "bit (new_in env (new_out env st s) s) k \<Longrightarrow> mask_live env k s" for k
    using out [of k] assms(2) by (auto simp: bit_new_in intro: mask_live.intros)
  show ?thesis
    using assms(1) out inn by (simp add: changed(1) sound_masks_def IN_def OUT_def unwrap_or_zero_def)
qed

lemma pending_update:
  assumes inv: "in_worklist st \<subseteq> set (worklist st)"
      "\<forall>t \<in> cfg_nodes (env_cfg env). t = s \<or> t \<in> set (worklist st) \<or> balanced env st t"
    and s: "s \<in> cfg_nodes (env_cfg env)"
    and preds: "\<And>t. s \<in> set (cfg_succs (env_cfg env) t) \<Longrightarrow> \<exists>ps. pred_map env s = Some ps \<and> t \<in> set ps"
  shows "pending_inv env (live_update env s st)"
  using s
proof (cases rule: live_update_cases [of s env st])
  case same
  then show ?thesis using inv by (auto simp: pending_inv_def)
next
  case (changed ps)
  define st' where "st' = st\<lparr>live_in_mask := (live_in_mask st)(s \<mapsto> new_in env (new_out env st s) s),
    live_out_mask := (live_out_mask st)(s \<mapsto> new_out env st s)\<rparr>"
  have upd: "live_update env s st = push_preds ps st'" using changed(1) by (simp add: st'_def)
  have inout: "IN st' t = (if t = s then new_in env (new_out env st s) s else IN st t)"
    "OUT st' t = (if t = s then new_out env st s else OUT st t)" for t
    by (simp_all add: st'_def IN_def OUT_def unwrap_or_zero_def)
  have same_out: "new_out env st' t = new_out env st t" if "s \<notin> set (cfg_succs (env_cfg env) t)" for t
    using that by (intro bit_eqI) (auto simp: bit_new_out inout)
  have bal: "balanced env st' t" if "s \<notin> set (cfg_succs (env_cfg env) t)" "t = s \<or> balanced env st t" for t
    using that same_out [OF that(1)] by (auto simp: balanced_def inout)
  have wl: "worklist st' = worklist st" "in_worklist st' = in_worklist st" by (simp_all add: st'_def)
  note pp = push_preds_worklist [of st' ps, unfolded wl, OF inv(1)]
  have "balanced env (push_preds ps st') t = balanced env st' t" for t
    by (simp add: balanced_def new_out_def IN_def [abs_def] OUT_def)
  moreover have "t \<in> set ps" if "s \<in> set (cfg_succs (env_cfg env) t)" for t
    using preds [OF that] changed(2) by auto
  ultimately show ?thesis
    unfolding upd pending_inv_def using pp inv(2) bal by blast
qed

lemma live_loop_inv:
  assumes "sound_masks env st" "pending_inv env st" "iterations st \<le> m"
    and preds: "\<And>s t. s \<in> set (cfg_succs (env_cfg env) t) \<Longrightarrow> \<exists>ps. pred_map env s = Some ps \<and> t \<in> set ps"
  shows "sound_masks env (live_loop env m st) \<and>
    (iterations (live_loop env m st) \<le> m \<longrightarrow> (\<forall>s \<in> cfg_nodes (env_cfg env). balanced env (live_loop env m st) s))"
  using assms
proof (induction env m st rule: live_loop.induct)
  case (1 env m st)
  show ?case
  proof (cases "worklist st = []")
    case True
    then show ?thesis using 1(2-4) by (simp add: live_loop.simps [of env m st] pending_inv_def)
  next
    case False
    define s st1 where "s = hd (worklist st)" and "st1 = live_pop st"
    have fields: "live_in_mask st1 = live_in_mask st" "live_out_mask st1 = live_out_mask st"
      "worklist st1 = tl (worklist st)" "in_worklist st1 = in_worklist st - {s}" "iterations st1 = iterations st + 1"
      by (simp_all add: st1_def live_pop_def s_def)
    have io: "IN st1 = IN st" "OUT st1 = OUT st" by (auto simp: IN_def OUT_def fields)
    have sound1: "sound_masks env st1" using 1(2) by (simp add: sound_masks_def io)
    have wl: "set (worklist st) = insert s (set (worklist st1))"
      using False by (cases "worklist st") (simp_all add: fields s_def)
    have pend1: "in_worklist st1 \<subseteq> set (worklist st1)"
      "\<forall>t \<in> cfg_nodes (env_cfg env). t = s \<or> t \<in> set (worklist st1) \<or> balanced env st1 t"
      using 1(3) wl by (auto simp: pending_inv_def fields(4) balanced_def new_out_def io)
    show ?thesis
    proof (cases "iterations st1 > m")
      case True
      have "live_loop env m st = st1"
        using False True by (subst live_loop.simps) (simp add: Let_def st1_def)
      with sound1 True show ?thesis by simp
    next
      case within: False
      have step: "live_loop env m st = live_loop env m (live_update env s st1)"
        using False within by (subst live_loop.simps) (simp add: Let_def st1_def s_def)
      have inv2: "sound_masks env (live_update env s st1) \<and> pending_inv env (live_update env s st1)"
      proof (cases "s \<in> cfg_nodes (env_cfg env)")
        case True
        then show ?thesis using sound_update [OF sound1 True] pending_update [OF pend1 True] 1(5) by blast
      next
        case out: False
        then have "live_update env s st1 = st1"
          by (simp add: live_update_def cfg_nodes_dom domIff)
        with sound1 pend1 out show ?thesis by (auto simp: pending_inv_def)
      qed
      show ?thesis
        unfolding step using 1(1) [OF False s_def st1_def within] inv2 within 1(5) by simp
    qed
  qed
qed


text \<open>When every block is balanced the masks hold every live bit.\<close>

lemma balanced_complete:
  assumes "\<forall>s \<in> cfg_nodes (env_cfg env). balanced env st s" "mask_live env k s"
  shows "bit (IN st s) k"
  using assms(2)
proof induction
  case (used s)
  then show ?case using assms(1) by (auto simp: balanced_def bit_new_in)
next
  case (through t s)
  have "s \<in> cfg_nodes (env_cfg env)"
    using through(1) by (auto simp: cfg_nodes_dom elim: cfg_succsE)
  then have "bit (OUT st s) k" "IN st s = new_in env (OUT st s) s"
    using assms(1) through by (auto simp: balanced_def bit_new_out)
  then show ?case using through(3) by (simp add: bit_new_in)
qed

lemma mask_map_at: "distinct (map fst (blocks cfg)) \<Longrightarrow> mask_map cfg f s = map_option f (get_block cfg s)"
proof -
  assume d: "distinct (map fst (blocks cfg))"
  have fold_eq: "fold (\<lambda>(pc, b) m. m(pc \<mapsto> f b)) xs m = m ++ map_of (rev (map (\<lambda>(pc, b). (pc, f b)) xs))" for xs m
    by (induction xs arbitrary: m) auto
  have "mask_map cfg f = map_of (rev (map (\<lambda>(pc, b). (pc, f b)) (blocks cfg)))"
    unfolding mask_map_def fold_eq by simp
  also have "\<dots> = map_of (map (\<lambda>(pc, b). (pc, f b)) (blocks cfg))"
    using d by (intro map_of_inject_set [THEN iffD2])
      (simp_all add: rev_map [symmetric] comp_def split_beta del: rev_map)
  finally show ?thesis by (simp add: get_block_def map_of_map)
qed

lemma push_entry_mem:
  "(\<exists>ps. fold (\<lambda>s. push_entry s x) succs m t = Some ps \<and> y \<in> set ps) \<longleftrightarrow>
   (\<exists>ps. m t = Some ps \<and> y \<in> set ps) \<or> t \<in> set succs \<and> y = x"
proof (induction succs arbitrary: m)
  case (Cons s succs)
  have "(\<exists>ps. push_entry s x m t = Some ps \<and> y \<in> set ps) \<longleftrightarrow> (\<exists>ps. m t = Some ps \<and> y \<in> set ps) \<or> s = t \<and> y = x"
    by (auto simp: push_entry_def split: option.splits)
  then show ?case by (auto simp: Cons.IH)
qed simp

lemma pred_map_mem:
  "(\<exists>ps. fold (\<lambda>(pc, b) m. fold (\<lambda>s. push_entry s pc) (successors b) (or_default pc m)) bs m t = Some ps \<and> y \<in> set ps) \<longleftrightarrow>
   (\<exists>ps. m t = Some ps \<and> y \<in> set ps) \<or> (\<exists>b. (y, b) \<in> set bs \<and> t \<in> set (successors b))"
proof (induction bs arbitrary: m)
  case (Cons x bs)
  obtain pc b where x: "x = (pc, b)" by (cases x)
  have d: "(\<exists>ps. or_default pc m t = Some ps \<and> y \<in> set ps) \<longleftrightarrow> (\<exists>ps. m t = Some ps \<and> y \<in> set ps)"
    by (auto simp: or_default_def split: option.splits)
  show ?case
    unfolding x list.simps fold_Cons comp_apply prod.case Cons.IH push_entry_mem d by auto
qed simp

context program_graph
begin

abbreviation env where
  "env \<equiv> live_env_of cfg (collect_def_use cfg initial)"

lemma env_cfg [simp]: "env_cfg env = cfg"
  by (simp add: live_env_of_def)

lemma env_masks:
  assumes "get_block cfg s = Some b"
  shows "bit (unwrap_or_zero (block_use env s)) k \<longleftrightarrow> k < 16 \<and> exposed (of_nat k) (block_instrs b)"
    "bit (unwrap_or_zero (block_def env s)) k \<longleftrightarrow> k < 16 \<and> redefines (of_nat k) (block_instrs b)"
proof -
  have fin: "finite S" for S :: "u8 set" by simp
  have use_eq: "unwrap_or_zero (block_use env s) = to_mask {r. exposed r (block_instrs b)}"
    and def_eq: "unwrap_or_zero (block_def env s) = to_mask {r. redefines r (block_instrs b)}"
    by (simp_all add: live_env_of_def mask_map_at [OF keys_distinct] assms unwrap_or_zero_def block_use_def_eq [OF assms])
  have reg: "(\<exists>r \<in> Collect P. unat r = k) \<longleftrightarrow> P (of_nat k)" if "k < 16" for P :: "u8 \<Rightarrow> bool"
  proof
    assume "\<exists>r \<in> Collect P. unat r = k"
    then show "P (of_nat k)" by auto
  next
    assume "P (of_nat k)"
    moreover have "unat (of_nat k :: u8) = k" using that by (intro unat_of_nat_small) simp
    ultimately show "\<exists>r \<in> Collect P. unat r = k" by blast
  qed
  show "bit (unwrap_or_zero (block_use env s)) k \<longleftrightarrow> k < 16 \<and> exposed (of_nat k) (block_instrs b)"
    "bit (unwrap_or_zero (block_def env s)) k \<longleftrightarrow> k < 16 \<and> redefines (of_nat k) (block_instrs b)"
    by (simp_all only: use_eq def_eq bit_to_mask [OF fin] reg cong: conj_cong)
qed

lemma env_preds:
  assumes "s \<in> set (cfg_succs cfg t)"
  shows "\<exists>ps. pred_map env s = Some ps \<and> t \<in> set ps"
proof -
  obtain b where "get_block cfg t = Some b" "s \<in> set (successors b)" by (rule cfg_succsE [OF assms])
  then have "\<exists>b. (t, b) \<in> set (blocks cfg) \<and> s \<in> set (successors b)" by (auto simp: block_entry)
  then show ?thesis
    using pred_map_mem [of "blocks cfg" Map.empty s t] by (simp add: live_env_of_def build_pred_map_def)
qed

lemma init_inv: "sound_masks env (live_init cfg)" "pending_inv env (live_init cfg)" "iterations (live_init cfg) = 0"
proof -
  have "IN (live_init cfg) s = 0" "OUT (live_init cfg) s = 0" for s
    by (simp_all add: IN_def OUT_def live_init_def Let_def mask_map_at [OF keys_distinct] unwrap_or_zero_def split: option.split)
  then show "sound_masks env (live_init cfg)" by (simp add: sound_masks_def)
  show "pending_inv env (live_init cfg)" by (auto simp: pending_inv_def live_init_def Let_def rpo_nodes)
  show "iterations (live_init cfg) = 0" by (simp add: live_init_def Let_def)
qed

end


section \<open>Liveness on paths\<close>

text \<open>The specification: a register is live into a block that may read it before writing it, or that
  does not write it and has a successor into which it is live.\<close>

inductive live_at :: "control_flow_graph \<Rightarrow> u8 \<Rightarrow> usize \<Rightarrow> bool" for cfg r where
  read_here: "get_block cfg s = Some b \<Longrightarrow> exposed r (block_instrs b) \<Longrightarrow> live_at cfg r s"
| read_later: "get_block cfg s = Some b \<Longrightarrow> \<not> redefines r (block_instrs b) \<Longrightarrow> t \<in> set (successors b) \<Longrightarrow>
    live_at cfg r t \<Longrightarrow> live_at cfg r s"

definition live_in_at :: "data_flow_analysis \<Rightarrow> usize \<Rightarrow> u8 set" where
  "live_in_at a s = (case live_in a s of Some R \<Rightarrow> R | None \<Rightarrow> {})"

definition live_out_at :: "data_flow_analysis \<Rightarrow> usize \<Rightarrow> u8 set" where
  "live_out_at a s = (case live_out a s of Some R \<Rightarrow> R | None \<Rightarrow> {})"

lemma build_chains_live [simp]:
  "live_in (build_chains cfg a) = live_in a" "live_out (build_chains cfg a) = live_out a"
  by (simp_all add: build_chains_def)

lemma to_set_zero: "to_set 0 = {}"
  using mem_to_set [of _ 0] by auto

context program_graph
begin

lemma succs_block: "get_block cfg s = Some b \<Longrightarrow> cfg_succs cfg s = successors b"
  by (simp add: cfg_succs_def)

lemma mask_live_iff: "mask_live env k s \<longleftrightarrow> k < 16 \<and> live_at cfg (of_nat k) s"
proof
  show "k < 16 \<and> live_at cfg (of_nat k) s" if "mask_live env k s"
    using that
  proof induction
    case (used s)
    then obtain b where "get_block cfg s = Some b" by (auto simp: cfg_nodes_dom)
    with used env_masks show ?case by (auto intro: live_at.read_here)
  next
    case (through t s)
    then obtain b where "get_block cfg s = Some b" "t \<in> set (successors b)" by (auto elim: cfg_succsE)
    with through env_masks show ?case by (auto intro: live_at.read_later)
  qed
  have conv: "mask_live env k s" if "live_at cfg r s" "r = of_nat k" "k < 16" for r
    using that
  proof induction
    case (read_here s b)
    then have "bit (unwrap_or_zero (block_use env s)) k" using env_masks(1) [of s b k] by simp
    moreover have "s \<in> cfg_nodes (env_cfg env)" using read_here(1) by (auto simp: cfg_nodes_dom)
    ultimately show ?case by (rule mask_live.used [rotated])
  next
    case (read_later s b t)
    then have "\<not> bit (unwrap_or_zero (block_def env s)) k" "mask_live env k t"
      using env_masks(2) [of s b k] by simp_all
    moreover have "t \<in> set (cfg_succs (env_cfg env) s)" using read_later(1,3) succs_block by simp
    ultimately show ?case by (metis mask_live.through)
  qed
  show "mask_live env k s" if "k < 16 \<and> live_at cfg (of_nat k) s"
    by (rule conv [OF conjunct2 [OF that] refl conjunct1 [OF that]])
qed

lemma mask_live_reg: "unat r < 16 \<Longrightarrow> mask_live env (unat r) s \<longleftrightarrow> live_at cfg r s"
  by (simp add: mask_live_iff)

lemma live_at_small: "live_at cfg r s \<Longrightarrow> unat r < 16"
  by (induction rule: live_at.induct) (auto intro: regs_below)

lemma analyze_live:
  "live_in_at (analyze cfg) s = to_set (IN (live_final cfg (collect_def_use cfg initial)) s)"
  "live_out_at (analyze cfg) s = to_set (OUT (live_final cfg (collect_def_use cfg initial)) s)"
  by (simp_all add: analyze_def Let_def live_in_at_def live_out_at_def compute_liveness_def initial_def
      IN_def OUT_def unwrap_or_zero_def to_set_zero split: option.split)

lemma final_inv:
  defines "fin \<equiv> live_final cfg (collect_def_use cfg initial)"
  shows "sound_masks env fin"
    and "iterations fin \<le> length (blocks cfg) * 15 \<Longrightarrow> s \<in> cfg_nodes cfg \<Longrightarrow> balanced env fin s"
  using live_loop_inv [OF init_inv(1,2), of "length (blocks cfg) * 15"] init_inv(3) env_preds
  unfolding fin_def live_final_def by simp_all

lemma live_in_sound: "r \<in> live_in_at (analyze cfg) s \<Longrightarrow> live_at cfg r s"
  using final_inv(1) mask_live_reg by (auto simp: analyze_live mem_to_set sound_masks_def)

lemma live_out_sound: "r \<in> live_out_at (analyze cfg) s \<Longrightarrow> \<exists>t \<in> set (cfg_succs cfg s). live_at cfg r t"
  using final_inv(1) mask_live_reg by (fastforce simp: analyze_live mem_to_set sound_masks_def)

lemma live_in_complete:
  assumes "iterations (live_final cfg (collect_def_use cfg initial)) \<le> length (blocks cfg) * 15" "live_at cfg r s"
  shows "r \<in> live_in_at (analyze cfg) s"
proof -
  have r: "unat r < 16" by (rule live_at_small [OF assms(2)])
  then have "mask_live env (unat r) s" using assms(2) by (simp add: mask_live_iff)
  from balanced_complete [OF _ this] final_inv(2) [OF assms(1)] r show ?thesis
    by (simp add: analyze_live mem_to_set)
qed

lemma live_out_complete:
  assumes "iterations (live_final cfg (collect_def_use cfg initial)) \<le> length (blocks cfg) * 15"
    "t \<in> set (cfg_succs cfg s)" "live_at cfg r t"
  shows "r \<in> live_out_at (analyze cfg) s"
proof -
  let ?fin = "live_final cfg (collect_def_use cfg initial)"
  have "bit (IN ?fin t) (unat r)" "unat r < 16"
    using live_in_complete [OF assms(1,3)] by (simp_all add: analyze_live mem_to_set)
  moreover have "OUT ?fin s = new_out env ?fin s"
    using final_inv(2) [OF assms(1) succs_source [OF assms(2)]] by (simp add: balanced_def)
  ultimately show ?thesis using assms(2) by (auto simp: analyze_live mem_to_set bit_new_out)
qed

end

section \<open>The graphs of decoded programs\<close>

lemma program_graph_build:
  assumes "valid_program p"
  shows "program_graph (reorder (build p) bs)"
proof -
  have p: "wf_program p" using assms by (rule valid_wf)
  have owned: "(pc, i) \<in> set (instructions p)"
    if blk: "get_block (build p) s = Some b" and mem: "(pc, i) \<in> set (block_instrs b)" for s b pc i
  proof -
    obtain j where j: "j < length (program_blocks p)" "b = connect_blocks (program_blocks p) ! j"
      using blk unfolding blocks_build by blast
    then have "(pc, i) \<in> set (concat (map block_instrs (program_blocks p)))"
      using mem connected_fields [OF j(1)] by auto
    then show ?thesis unfolding program_blocks_def create_blocks_concat [OF p] .
  qed
  have inj: "i = i'" if "(pc, i) \<in> set (instructions p)" "(pc, i') \<in> set (instructions p)" for pc i i'
    using that sorted_wrt_less_distinct [of "map fst (instructions p)"] p
    by (auto simp: wf_program_def eq_key_imp_eq_value)
  show ?thesis
  proof (intro program_graph.intro program_graph_axioms.intro reordered.flow_graph_axioms)
    fix s b pc i s' b' i'
    assume *: "get_block (reorder (build p) bs) s = Some b" "(pc, i) \<in> set (block_instrs b)"
    note own = owned [of s b pc i, OF _ *(2)]
    show "regs_small i"
      using own * assms by (force simp: reorder_same keys_build valid_program_def)
    assume "get_block (reorder (build p) bs) s' = Some b'" "(pc, i') \<in> set (block_instrs b')"
    with own * owned [of s' b' pc i'] inj show "i = i'" by (simp add: reorder_same keys_build)
  qed
qed

text \<open>The program a decoder returns; nothing when it fails.\<close>

definition program_of :: "decoded_program decoded \<Rightarrow> decoded_program" where
  "program_of result = (case result of Inr p \<Rightarrow> p
     | Inl _ \<Rightarrow> \<lparr>jump_table = [], instructions = [], code_len = 0, memory_base = None\<rparr>)"

lemma program_of_valid: "valid_program (program_of (decode_blob data))" "valid_program (program_of (decode_spi data))"
  using decode_blob_valid [of data] decode_spi_valid [of data]
  by (auto simp: program_of_def decode_blob_def valid_program_def wf_program_def split: sum.split)

interpretation blob_graph: program_graph "reorder (build (program_of (decode_blob data))) bs" for data bs
  by (rule program_graph_build [OF program_of_valid(1)])

interpretation spi_graph: program_graph "reorder (build (program_of (decode_spi data))) bs" for data bs
  by (rule program_graph_build [OF program_of_valid(2)])


section \<open>Def-use chains\<close>

text \<open>A use is reached from the entry of a block when no instruction on the way redefines the register;
  blocks in \<open>A\<close> are not entered.\<close>

inductive clear_use :: "control_flow_graph \<Rightarrow> u8 \<Rightarrow> usize set \<Rightarrow> usize \<Rightarrow> usize \<Rightarrow> bool" for cfg r A where
  in_block: "s \<notin> A \<Longrightarrow> get_block cfg s = Some b \<Longrightarrow> block_instrs b = xs @ (pc, i) # ys \<Longrightarrow>
    r \<in> set (snd (extract_def_use i)) \<Longrightarrow> \<not> redefines r xs \<Longrightarrow> clear_use cfg r A s pc"
| in_later: "s \<notin> A \<Longrightarrow> get_block cfg s = Some b \<Longrightarrow> \<not> redefines r (block_instrs b) \<Longrightarrow>
    t \<in> set (successors b) \<Longrightarrow> clear_use cfg r A t pc \<Longrightarrow> clear_use cfg r A s pc"

definition scanned :: "u8 \<Rightarrow> (usize \<times> instruction) list \<Rightarrow> usize \<Rightarrow> bool" where
  "scanned r is pc \<longleftrightarrow> (\<exists>xs i ys. is = xs @ (pc, i) # ys \<and> r \<in> set (snd (extract_def_use i)) \<and> \<not> redefines r xs)"

lemma redefines_Nil [simp]: "\<not> redefines r []"
  by (simp add: redefines_def)

lemma redefines_Cons [simp]: "redefines r ((pc, i) # is) \<longleftrightarrow> r \<in> set (fst (extract_def_use i)) \<or> redefines r is"
  by (simp add: redefines_def)

lemma scanned_Cons: "scanned r ((q, j) # is) pc \<longleftrightarrow>
    q = pc \<and> r \<in> set (snd (extract_def_use j)) \<or> r \<notin> set (fst (extract_def_use j)) \<and> scanned r is pc"
  (is "?L \<longleftrightarrow> ?R")
proof
  assume ?L
  then obtain xs i ys where *: "(q, j) # is = xs @ (pc, i) # ys" "r \<in> set (snd (extract_def_use i))" "\<not> redefines r xs"
    by (auto simp: scanned_def)
  show ?R
  proof (cases xs)
    case Nil
    with * show ?thesis by simp
  next
    case (Cons x zs)
    with * have "is = zs @ (pc, i) # ys" "\<not> redefines r zs" "r \<notin> set (fst (extract_def_use j))" by auto
    with *(2) show ?thesis unfolding scanned_def by blast
  qed
next
  assume ?R
  then show ?L
  proof
    assume "q = pc \<and> r \<in> set (snd (extract_def_use j))"
    then show ?L unfolding scanned_def by (intro exI [of _ "[]"] exI [of _ j] exI [of _ "is"]) simp
  next
    assume "r \<notin> set (fst (extract_def_use j)) \<and> scanned r is pc"
    then obtain xs i ys where "is = xs @ (pc, i) # ys" "r \<in> set (snd (extract_def_use i))"
      "\<not> redefines r ((q, j) # xs)" by (auto simp: scanned_def)
    then show ?L unfolding scanned_def by (intro exI [of _ "(q, j) # xs"] exI [of _ i] exI [of _ ys]) simp
  qed
qed

lemma scan_uses_exact:
  "snd (scan_uses r is) = redefines r is \<and>
   set (fst (scan_uses r is)) = {\<lparr>use_pc = pc, use_point_reg = r\<rparr> | pc. scanned r is pc}"
proof (induction r "is" rule: scan_uses.induct)
  case (1 r)
  then show ?case by (simp add: scanned_def)
next
  case (2 r pc i "is")
  obtain us k where rec: "scan_uses r is = (us, k)" by (cases "scan_uses r is")
  show ?case
    using 2 [OF prod.collapse refl] rec
    by (auto simp: Let_def split_beta scanned_Cons)
qed

lemma clear_use_scanned: "s \<notin> A \<Longrightarrow> get_block cfg s = Some b \<Longrightarrow> scanned r (block_instrs b) pc \<Longrightarrow> clear_use cfg r A s pc"
  by (auto simp: scanned_def intro: clear_use.in_block)

lemma follow_uses_sound:
  assumes "A \<subseteq> seen" "u \<in> set (follow_uses cfg r wl seen uses)"
  shows "u \<in> set uses \<or> use_point_reg u = r \<and> (\<exists>w \<in> set wl. clear_use cfg r A w (use_pc u))"
  using assms
proof (induction cfg r wl seen uses rule: follow_uses.induct)
  case (1 cfg r seen uses)
  then show ?case by simp
next
  case (2 cfg r pc wl seen uses)
  consider "pc \<in> seen" | "pc \<notin> seen" "card seen \<ge> MAX_BLOCKS_TO_VISIT"
    | "pc \<notin> seen" "\<not> card seen \<ge> MAX_BLOCKS_TO_VISIT" "get_block cfg pc = None"
    | b where "pc \<notin> seen" "\<not> card seen \<ge> MAX_BLOCKS_TO_VISIT" "get_block cfg pc = Some b"
    by fastforce
  then show ?case
  proof cases
    case 1
    then show ?thesis using 2(1) 2(5,6) by auto
  next
    case 2
    then show ?thesis using \<open>u \<in> set (follow_uses cfg r (pc # wl) seen uses)\<close> by simp
  next
    case 3
    then have "A \<subseteq> insert pc seen" using 2(5) by blast
    with 3 2(2) [OF 3(1,2) refl 3(3)] 2(6) show ?thesis by (auto simp: Let_def)
  next
    case (4 b)
    have A: "A \<subseteq> insert pc seen" "pc \<notin> A" using 2(5) 4(1) by blast+
    obtain found killed where sc: "scan_uses r (block_instrs b) = (found, killed)"
      by (cases "scan_uses r (block_instrs b)")
    have k: "killed = redefines r (block_instrs b)"
      and f: "set found = {\<lparr>use_pc = pc, use_point_reg = r\<rparr> | pc. scanned r (block_instrs b) pc}"
      using scan_uses_exact [of r "block_instrs b"] by (simp_all add: sc)
    have ok: "use_point_reg u = r \<and> clear_use cfg r A pc (use_pc u)" if "u \<in> set found"
      using that A(2) 4(3) by (auto simp: f intro: clear_use_scanned)
    show ?thesis
    proof (cases killed)
      case True
      with 4 2(3) [OF 4(1,2) refl 4(3) sc [symmetric] refl refl True A(1)] 2(6) sc ok show ?thesis
        by (auto simp: Let_def)
    next
      case False
      have step: "clear_use cfg r A pc x" if "t \<in> set (successors b)" "clear_use cfg r A t x" for t x
        using that A(2) 4(3) False k by (auto intro: clear_use.in_later)
      from False 4 2(4) [OF 4(1,2) refl 4(3) sc [symmetric] refl refl False A(1)] 2(6) sc ok show ?thesis
        by (auto simp: Let_def dest: step)
    qed
  qed
qed


text \<open>Below the visit limit the search is complete: at its end, every block it has entered has been
  scanned, and has its successors entered when it does not redefine the register.\<close>

definition scanned_closed ::
  "control_flow_graph \<Rightarrow> u8 \<Rightarrow> usize set \<Rightarrow> usize set \<Rightarrow> usize set \<Rightarrow> use_point list \<Rightarrow> bool" where
  "scanned_closed cfg r A seen pending uses \<longleftrightarrow> (\<forall>s \<in> seen - A. \<forall>b. get_block cfg s = Some b \<longrightarrow>
     (\<forall>pc. scanned r (block_instrs b) pc \<longrightarrow> \<lparr>use_pc = pc, use_point_reg = r\<rparr> \<in> set uses) \<and>
     (\<not> redefines r (block_instrs b) \<longrightarrow> set (successors b) \<subseteq> seen \<union> pending))"

lemma scanned_closed_complete:
  assumes "scanned_closed cfg r A seen {} uses" "clear_use cfg r A s pc" "s \<in> seen"
  shows "\<lparr>use_pc = pc, use_point_reg = r\<rparr> \<in> set uses"
  using assms(2,3)
proof induction
  case (in_block s b xs pc i ys)
  then have "scanned r (block_instrs b) pc" by (auto simp: scanned_def)
  with in_block assms(1) show ?case by (auto simp: scanned_closed_def)
next
  case (in_later s b t pc)
  then have "t \<in> seen" using assms(1) by (auto simp: scanned_closed_def)
  with in_later show ?case by blast
qed

lemma follow_uses_mono: "set uses \<subseteq> set (follow_uses cfg r wl seen uses)"
proof (induction cfg r wl seen uses rule: follow_uses.induct)
  case (2 cfg r pc wl seen uses)
  show ?case
  proof (cases "get_block cfg pc")
    case None
    with 2(1,2) show ?thesis by (auto simp: Let_def)
  next
    case (Some b)
    obtain found killed where sc: "scan_uses r (block_instrs b) = (found, killed)"
      by (cases "scan_uses r (block_instrs b)")
    show ?thesis
      using 2(1) 2(3,4) [OF _ _ refl Some sc [symmetric] refl refl] Some sc by (auto simp: Let_def)
  qed
qed simp

lemma follow_uses_complete:
  assumes "card (cfg_nodes cfg) \<le> MAX_BLOCKS_TO_VISIT" "A \<subseteq> seen" "seen \<subseteq> cfg_nodes cfg"
    "set wl \<subseteq> cfg_nodes cfg" "scanned_closed cfg r A seen (set wl) uses"
    "\<forall>s b. get_block cfg s = Some b \<longrightarrow> set (successors b) \<subseteq> cfg_nodes cfg"
  shows "\<exists>seen'. seen \<union> set wl \<subseteq> seen' \<and> scanned_closed cfg r A seen' {} (follow_uses cfg r wl seen uses)"
  using assms
proof (induction cfg r wl seen uses rule: follow_uses.induct)
  case (1 cfg r seen uses)
  then show ?case by auto
next
  case (2 cfg r pc wl seen uses)
  note prems = 2(5-10)
  show ?case
  proof (cases "pc \<in> seen")
    case True
    have closed: "scanned_closed cfg r A seen (set wl) uses"
      using prems(5) True by (fastforce simp: scanned_closed_def)
    have "set wl \<subseteq> cfg_nodes cfg" using prems(4) by simp
    from 2(1) [OF True prems(1-3) this closed prems(6)] obtain seen' where
      "seen \<union> set wl \<subseteq> seen'" "scanned_closed cfg r A seen' {} (follow_uses cfg r wl seen uses)" by blast
    with True show ?thesis by (intro exI [of _ seen']) auto
  next
    case new: False
    have pc: "pc \<in> cfg_nodes cfg" using prems(4) by simp
    then have "seen \<subset> cfg_nodes cfg" using new prems(3) by blast
    then have "card seen < card (cfg_nodes cfg)" by (rule psubset_card_mono [OF cfg_nodes_finite])
    then have lim: "\<not> card seen \<ge> MAX_BLOCKS_TO_VISIT" using prems(1) by simp
    have A: "A \<subseteq> insert pc seen" and sub: "insert pc seen \<subseteq> cfg_nodes cfg" and wl: "set wl \<subseteq> cfg_nodes cfg"
      using prems(2-4) pc by auto
    obtain b where b: "get_block cfg pc = Some b" using pc unfolding cfg_nodes_dom by blast
    obtain found killed where sc: "scan_uses r (block_instrs b) = (found, killed)"
      by (cases "scan_uses r (block_instrs b)")
    have k: "killed = redefines r (block_instrs b)"
      and f: "set found = {\<lparr>use_pc = pc, use_point_reg = r\<rparr> | pc. scanned r (block_instrs b) pc}"
      using scan_uses_exact [of r "block_instrs b"] by (simp_all add: sc)
    show ?thesis
    proof (cases killed)
      case True
      have "scanned_closed cfg r A (insert pc seen) (set wl) (uses @ found)"
        using prems(5) True k f b by (fastforce simp: scanned_closed_def)
      from 2(3) [OF new lim refl b sc [symmetric] refl refl True prems(1) A sub wl this prems(6)]
      obtain seen' where "insert pc seen \<union> set wl \<subseteq> seen'"
        "scanned_closed cfg r A seen' {} (follow_uses cfg r wl (insert pc seen) (uses @ found))" by blast
      then show ?thesis using new lim b sc True by (intro exI [of _ seen']) (simp add: Let_def)
    next
      case False
      let ?new = "rev (filter (\<lambda>s. s \<notin> insert pc seen) (successors b)) @ wl"
      have "scanned_closed cfg r A (insert pc seen) (set ?new) (uses @ found)"
        using prems(5) False k f b by (fastforce simp: scanned_closed_def)
      moreover have "set ?new \<subseteq> cfg_nodes cfg" using wl prems(6) b by auto
      ultimately obtain seen' where "insert pc seen \<union> set ?new \<subseteq> seen'"
        "scanned_closed cfg r A seen' {} (follow_uses cfg r ?new (insert pc seen) (uses @ found))"
        using 2(4) [OF new lim refl b sc [symmetric] refl refl False prems(1) A sub _ _ prems(6)] by blast
      then show ?thesis using new lim b sc False by (intro exI [of _ seen']) (simp add: Let_def)
    qed
  qed
qed

context flow_graph
begin

lemma succs_in: "get_block cfg s = Some b \<Longrightarrow> set (successors b) \<subseteq> cfg_nodes cfg"
  using succs_closed [of _ s] by (auto simp: cfg_succs_def)

text \<open>The uses of a definition: later in its block, or reached from a successor without redefinition
  and without entering the block again.\<close>

lemma find_uses_sound:
  assumes "get_block cfg s = Some b" "u \<in> set (find_uses_for_def d b cfg)"
  shows "use_point_reg u = def_point_reg d \<and>
    (scanned (def_point_reg d) (after_def (def_pc d) (block_instrs b)) (use_pc u) \<or>
     \<not> redefines (def_point_reg d) (after_def (def_pc d) (block_instrs b)) \<and>
       (\<exists>t \<in> set (successors b). clear_use cfg (def_point_reg d) {s} t (use_pc u)))"
proof -
  obtain us killed where sc: "scan_uses (def_point_reg d) (after_def (def_pc d) (block_instrs b)) = (us, killed)"
    by (cases "scan_uses (def_point_reg d) (after_def (def_pc d) (block_instrs b))")
  note ex = scan_uses_exact [of "def_point_reg d" "after_def (def_pc d) (block_instrs b)", unfolded sc]
  have s: "start_pc b = s" by (rule keyed [OF assms(1)])
  show ?thesis
    using assms(2) ex follow_uses_sound [of "{s}" "{s}" u cfg "def_point_reg d" "rev (successors b)" us]
    by (auto simp: find_uses_for_def_def sc s split: if_splits)
qed

lemma find_uses_complete:
  assumes "get_block cfg s = Some b" "card (cfg_nodes cfg) \<le> MAX_BLOCKS_TO_VISIT"
    "scanned (def_point_reg d) (after_def (def_pc d) (block_instrs b)) pc \<or>
     \<not> redefines (def_point_reg d) (after_def (def_pc d) (block_instrs b)) \<and>
       (\<exists>t \<in> set (successors b). clear_use cfg (def_point_reg d) {s} t pc)"
  shows "\<lparr>use_pc = pc, use_point_reg = def_point_reg d\<rparr> \<in> set (find_uses_for_def d b cfg)"
proof -
  let ?r = "def_point_reg d" and ?is = "after_def (def_pc d) (block_instrs b)"
  obtain us killed where sc: "scan_uses ?r ?is = (us, killed)" by (cases "scan_uses ?r ?is")
  have k: "killed = redefines ?r ?is" and f: "set us = {\<lparr>use_pc = pc, use_point_reg = ?r\<rparr> | pc. scanned ?r ?is pc}"
    using scan_uses_exact [of ?r ?is] by (simp_all add: sc)
  have s: "start_pc b = s" by (rule keyed [OF assms(1)])
  show ?thesis
  proof (cases killed)
    case True
    with assms(3) k f show ?thesis by (auto simp: find_uses_for_def_def sc)
  next
    case False
    have eq: "find_uses_for_def d b cfg = follow_uses cfg ?r (rev (successors b)) {s} us"
      using False by (simp add: find_uses_for_def_def sc s)
    have "scanned_closed cfg ?r {s} {s} (set (rev (successors b))) us" by (simp add: scanned_closed_def)
    then obtain seen' where seen': "{s} \<union> set (successors b) \<subseteq> seen'" "scanned_closed cfg ?r {s} seen' {} (find_uses_for_def d b cfg)"
      using follow_uses_complete [OF assms(2), of "{s}" "{s}" "rev (successors b)" ?r us] succs_in assms(1)
      unfolding eq by (auto simp: cfg_nodes_dom)
    have "set us \<subseteq> set (find_uses_for_def d b cfg)" unfolding eq by (rule follow_uses_mono)
    with assms(3) f scanned_closed_complete [OF seen'(2)] seen'(1) show ?thesis by auto
  qed
qed

end


section \<open>Properties\<close>

lemma loop_program_valid: "valid_program loop_program"
  using loop_program_wf by (simp add: valid_program_def) (simp add: loop_program_def)

text \<open>The reverse postorder of the graph of any program, whatever order the hash map has, lists the
  entry and every block exactly once.\<close>

theorem reverse_postorder_visits:
  "distinct (reverse_postorder (reorder (build p) bs)) \<and>
   set (reverse_postorder (reorder (build p) bs)) = insert 0 (cfg_nodes (build p))"
proof -
  have "entry_pc (reorder (build p) bs) = 0" by (simp add: reorder_def)
  then show ?thesis
    using reordered.rpo_distinct [of p bs] reordered.rpo_nodes [of p bs] by (simp add: reorder_same keys_build)
qed

text \<open>The liveness analysis reports a register live into a block only when some path from the block
  reads it before writing it, even when the worklist stops at its iteration bound.\<close>

theorem liveness_sound:
  assumes "valid_program p" "r \<in> live_in_at (analyze (reorder (build p) bs)) s"
  shows "live_at (reorder (build p) bs) r s"
  by (rule program_graph.live_in_sound [OF program_graph_build [OF assms(1)] assms(2)])

lemma loop_live: "live_in_at (analyze (reorder (build loop_program) [])) 0 = {1}"
  by code_simp

theorem liveness_sound_witness: "live_at (reorder (build loop_program) []) 1 0"
  by (rule liveness_sound [OF loop_program_valid]) (simp add: loop_live)

text \<open>C18: when the worklist drains within the bound of fifteen rounds per block, the analysis is exact:
  it finds every register that is live into or out of a block.\<close>

theorem liveness_exact:
  assumes "valid_program p" "cfg = reorder (build p) bs"
    and "iterations (live_final cfg (collect_def_use cfg
      \<lparr>chains = Map.empty, defs_at_pc = Map.empty, uses_at_pc = Map.empty,
       live_in = Map.empty, live_out = Map.empty\<rparr>)) \<le> length (blocks cfg) * 15"
  shows "(r \<in> live_in_at (analyze cfg) s \<longleftrightarrow> live_at cfg r s) \<and>
    (r \<in> live_out_at (analyze cfg) s \<longleftrightarrow> (\<exists>t. t \<in> set (cfg_succs cfg s) \<and> live_at cfg r t))"
proof -
  have g: "program_graph cfg" unfolding assms(2) by (rule program_graph_build [OF assms(1)])
  note drained = assms(3) [folded program_graph.initial_def [OF g]]
  show ?thesis
    using program_graph.live_in_sound [OF g] program_graph.live_in_complete [OF g drained]
      program_graph.live_out_sound [OF g] program_graph.live_out_complete [OF g drained] by blast
qed

theorem liveness_exact_witness:
  "(1 \<in> live_in_at (analyze (reorder (build loop_program) [])) 0 \<longleftrightarrow> live_at (reorder (build loop_program) []) 1 0) \<and>
   (1 \<in> live_out_at (analyze (reorder (build loop_program) [])) 0 \<longleftrightarrow>
     (\<exists>t. t \<in> set (cfg_succs (reorder (build loop_program) []) 0) \<and> live_at (reorder (build loop_program) []) 1 t))"
proof (rule liveness_exact [OF loop_program_valid refl])
  show "iterations (live_final (reorder (build loop_program) []) (collect_def_use (reorder (build loop_program) [])
      \<lparr>chains = Map.empty, defs_at_pc = Map.empty, uses_at_pc = Map.empty,
       live_in = Map.empty, live_out = Map.empty\<rparr>)) \<le> length (blocks (reorder (build loop_program) [])) * 15"
    by code_simp
qed

text \<open>A walk that never comes to a block does not enter it again.\<close>

definition leads_to :: "control_flow_graph \<Rightarrow> usize \<Rightarrow> usize \<Rightarrow> bool" where
  "leads_to cfg = (\<lambda>x y. y \<in> set (cfg_succs cfg x))\<^sup>*\<^sup>*"

lemma leads_to_succ: "get_block cfg s = Some b \<Longrightarrow> t \<in> set (successors b) \<Longrightarrow> leads_to cfg t u \<Longrightarrow> leads_to cfg s u"
  unfolding leads_to_def by (rule converse_rtranclp_into_rtranclp) (simp_all add: cfg_succs_def)

lemma clear_use_avoids: "clear_use cfg r A t q \<Longrightarrow> \<forall>u \<in> B. \<not> leads_to cfg t u \<Longrightarrow> clear_use cfg r (A \<union> B) t q"
proof (induction rule: clear_use.induct)
  case (in_block s b xs pc i ys)
  then show ?case by (intro clear_use.in_block) (auto simp: leads_to_def)
next
  case (in_later s b t pc)
  have "s \<notin> B" using in_later.prems by (auto simp: leads_to_def)
  moreover have "\<forall>u \<in> B. \<not> leads_to cfg t u" using in_later.prems leads_to_succ [OF in_later.hyps(2,4)] by blast
  ultimately show ?case
    using in_later.hyps(1) by (intro clear_use.in_later [OF _ in_later.hyps(2-4) in_later.IH]) simp_all
qed

lemma clear_use_mono: "clear_use cfg r A t q \<Longrightarrow> B \<subseteq> A \<Longrightarrow> clear_use cfg r B t q"
  by (induction rule: clear_use.induct) (auto intro: clear_use.intros)

text \<open>Without the hypothesis on loops, what is found is what is reached without entering the block again.\<close>

lemma find_uses_exact:
  assumes "get_block (reorder (build p) bs) s = Some b" "card (cfg_nodes (build p)) \<le> MAX_BLOCKS_TO_VISIT"
  shows "\<lparr>use_pc = q, use_point_reg = r\<rparr> \<in> set (find_uses_for_def \<lparr>def_pc = pc, def_point_reg = r\<rparr> b (reorder (build p) bs)) \<longleftrightarrow>
    scanned r (after_def pc (block_instrs b)) q \<or>
    \<not> redefines r (after_def pc (block_instrs b)) \<and>
      (\<exists>t. t \<in> set (successors b) \<and> clear_use (reorder (build p) bs) r {s} t q)"
  using reordered.find_uses_sound [OF assms(1), of _ "\<lparr>def_pc = pc, def_point_reg = r\<rparr>"]
    reordered.find_uses_complete [OF assms(1), of "\<lparr>def_pc = pc, def_point_reg = r\<rparr>" q] assms(2)
  by (fastforce simp: reorder_same keys_build)

definition reached_use :: "control_flow_graph \<Rightarrow> basic_block \<Rightarrow> usize \<Rightarrow> u8 \<Rightarrow> usize \<Rightarrow> bool" where
  "reached_use cfg b pc r q \<longleftrightarrow> scanned r (after_def pc (block_instrs b)) q \<or>
     \<not> redefines r (after_def pc (block_instrs b)) \<and> (\<exists>t. t \<in> set (successors b) \<and> clear_use cfg r {} t q)"

text \<open>C28: every use listed for a definition is reached from it before another definition of the register; and in
  a graph of at most 200 blocks, the list for a definition in a block outside every loop is complete: it
  holds exactly the uses reached before another definition.\<close>

theorem def_use_exact:
  assumes "get_block (reorder (build p) bs) s = Some b"
    "uses = find_uses_for_def \<lparr>def_pc = pc, def_point_reg = r\<rparr> b (reorder (build p) bs)"
  shows "(\<forall>u \<in> set uses. use_point_reg u = r \<and> reached_use (reorder (build p) bs) b pc r (use_pc u)) \<and>
    (card (cfg_nodes (build p)) \<le> MAX_BLOCKS_TO_VISIT \<and> (\<forall>t \<in> set (successors b). \<not> leads_to (reorder (build p) bs) t s) \<longrightarrow>
      set uses = {\<lparr>use_pc = q, use_point_reg = r\<rparr> | q. reached_use (reorder (build p) bs) b pc r q})"
proof (intro conjI impI)
  let ?g = "reorder (build p) bs"
  have sound: "use_point_reg u = r \<and> reached_use ?g b pc r (use_pc u)" if "u \<in> set uses" for u
    using reordered.find_uses_sound [OF assms(1) that [unfolded assms(2)]] clear_use_mono [of ?g r "{s}" _ "use_pc u" "{}"]
    by (auto simp: reached_use_def)
  then show "\<forall>u \<in> set uses. use_point_reg u = r \<and> reached_use ?g b pc r (use_pc u)" by blast
  assume h: "card (cfg_nodes (build p)) \<le> MAX_BLOCKS_TO_VISIT \<and> (\<forall>t \<in> set (successors b). \<not> leads_to ?g t s)"
  have "\<lparr>use_pc = q, use_point_reg = r\<rparr> \<in> set uses" if q: "reached_use ?g b pc r q" for q
    using q clear_use_avoids [of ?g r "{}" _ q "{s}"] h find_uses_exact [OF assms(1) conjunct1 [OF h], of q r pc]
    by (auto simp: reached_use_def assms(2))
  moreover have "u = \<lparr>use_pc = use_pc u, use_point_reg = use_point_reg u\<rparr>" for u :: use_point by simp
  ultimately show "set uses = {\<lparr>use_pc = q, use_point_reg = r\<rparr> | q. reached_use ?g b pc r q}"
    using sound by (intro equalityI subsetI) (metis (mono_tags, lifting) mem_Collect_eq, blast)
qed

text \<open>A definition before a branch over one block, used on both sides.\<close>

definition forward_program :: decoded_program where
  "forward_program = \<lparr>jump_table = [],
     instructions = [(0, LoadImm 1 7), (3, BranchImm BranchEqImm 2 0 6), (6, TwoRegImm AddImm64 3 1 1), (9, TwoRegImm AddImm64 4 1 2), (12, Trap)],
     code_len = 13, memory_base = None\<rparr>"

theorem def_use_exact_witness:
  "{\<lparr>use_pc = q, use_point_reg = 1\<rparr> | q. reached_use (reorder (build forward_program) [])
       (the (get_block (reorder (build forward_program) []) 0)) 0 1 q} =
     {\<lparr>use_pc = 6, use_point_reg = 1\<rparr>, \<lparr>use_pc = 9, use_point_reg = 1\<rparr>}"
proof -
  let ?g = "reorder (build forward_program) []"
  let ?b = "the (get_block ?g 0)"
  have b: "get_block ?g 0 = Some ?b" by code_simp
  have few: "card (cfg_nodes (build forward_program)) \<le> MAX_BLOCKS_TO_VISIT" by code_simp
  have succs: "cfg_succs ?g 6 = [9]" "cfg_succs ?g 9 = []" "successors ?b = [9, 6]" by code_simp+
  have "leads_to ?g t u \<Longrightarrow> t \<in> {6, 9} \<Longrightarrow> u \<in> {6, 9}" for t u
    unfolding leads_to_def by (induction rule: converse_rtranclp_induct) (auto simp: succs)
  then have fwd: "\<forall>t \<in> set (successors ?b). \<not> leads_to ?g t 0" using succs(3) by fastforce
  have "set (find_uses_for_def \<lparr>def_pc = 0, def_point_reg = 1\<rparr> ?b ?g) = {\<lparr>use_pc = 6, use_point_reg = 1\<rparr>, \<lparr>use_pc = 9, use_point_reg = 1\<rparr>}"
    by code_simp
  then show ?thesis using def_use_exact [OF b refl, of 0 1] few fwd by blast
qed

text \<open>A definition in a loop does not list the uses before it in its own block, although the branch
  back reaches them: the register decremented at 0 is read there again in the next round.\<close>

theorem loop_use_missed:
  "clear_use (build loop_program) 1 {} 0 0 \<and>
   find_uses_for_def \<lparr>def_pc = 0, def_point_reg = 1\<rparr> (the (get_block (build loop_program) 0)) (build loop_program)
     = [\<lparr>use_pc = 3, use_point_reg = 1\<rparr>]"
proof
  show "clear_use (build loop_program) 1 {} 0 0"
    by (rule clear_use.in_block [where xs = "[]" and i = "TwoRegImm AddImm64 1 1 (- 1)"
          and ys = "[(3, BranchImm BranchNeImm 1 0 (- 3))]", OF _ loop_graph]) (simp_all add: extract_def_use_def def_use_def)
  show "find_uses_for_def \<lparr>def_pc = 0, def_point_reg = 1\<rparr> (the (get_block (build loop_program) 0)) (build loop_program)
     = [\<lparr>use_pc = 3, use_point_reg = 1\<rparr>]"
    by code_simp
qed

end
