(* ===== verification/Dominators.thy ===== *)
theory Dominators
  imports Dataflow_Correct
begin

text \<open>
  The dominator tree (\<open>DominatorTree\<close> in \<open>src/structuring/analysis.rs\<close>), computed by the iteration of
  Cooper, Harvey and Kennedy over a reverse postorder of the blocks reachable from the entry.

  Every loop of the code that could run forever (the recursion of the search, the walks up the tree,
  the iteration) takes a number of rounds; the results of the walks and of the iteration are \<open>None\<close>
  when the rounds run out. \<open>Dominators_Correct\<close> shows that the rounds given by \<open>compute\<close> are enough.
\<close>

record dominator_tree =
  idom :: "usize \<rightharpoonup> usize"
  children :: "usize \<rightharpoonup> usize list"
  rpo :: "usize list"
  rpo_index :: "usize \<rightharpoonup> usize"
  tree_entry :: usize

section \<open>Reverse postorder from the entry\<close>

text \<open>The recursion enters a block at most once, so its depth is at most the number of blocks.\<close>

fun dfs_post_order :: "nat \<Rightarrow> control_flow_graph \<Rightarrow> usize \<Rightarrow> usize set \<times> usize list \<Rightarrow> usize set \<times> usize list" where
  "dfs_post_order 0 cfg node acc = acc"
| "dfs_post_order (Suc n) cfg node acc =
     (let (visited, post_order) = acc in
      if node \<in> visited then (visited, post_order)
      else let visited = insert node visited in
      case get_block cfg node of
        None \<Rightarrow> (visited, post_order)
      | Some block \<Rightarrow>
          (let (visited, post_order) = fold (dfs_post_order n cfg) (successors block) (visited, post_order)
           in (visited, post_order @ [node])))"

definition compute_rpo :: "control_flow_graph \<Rightarrow> usize list" where
  "compute_rpo cfg = rev (snd (dfs_post_order (length (blocks cfg) + 1) cfg (entry_pc cfg) ({}, [])))"

definition index_of :: "usize list \<Rightarrow> usize \<rightharpoonup> usize" where
  "index_of xs = map_of (rev (zip xs [0..<length xs]))"


section \<open>The iteration\<close>

text \<open>\<open>intersect\<close>: a node that is missing from \<open>rpo_index\<close> counts as \<open>usize::MAX\<close>, beyond every index.\<close>

definition later :: "(usize \<rightharpoonup> usize) \<Rightarrow> usize \<Rightarrow> usize \<Rightarrow> bool" where
  "later index b1 b2 = (case index b1 of
      None \<Rightarrow> index b2 \<noteq> None
    | Some i1 \<Rightarrow> (case index b2 of None \<Rightarrow> False | Some i2 \<Rightarrow> i1 > i2))"

definition parent :: "(usize \<rightharpoonup> usize) \<Rightarrow> usize \<Rightarrow> usize" where
  "parent idm b = (case idm b of Some d \<Rightarrow> d | None \<Rightarrow> b)"

fun intersect :: "nat \<Rightarrow> usize \<Rightarrow> usize \<Rightarrow> (usize \<rightharpoonup> usize) \<Rightarrow> (usize \<rightharpoonup> usize) \<Rightarrow> usize option" where
  "intersect 0 b1 b2 idm index = None"
| "intersect (Suc n) b1 b2 idm index =
     (if b1 = b2 then Some b1
      else if later index b1 b2 then intersect n (parent idm b1) b2 idm index
      else intersect n b1 (parent idm b2) idm index)"

fun intersect_preds ::
  "nat \<Rightarrow> (usize \<rightharpoonup> usize) \<Rightarrow> (usize \<rightharpoonup> usize) \<Rightarrow> usize list \<Rightarrow> usize \<Rightarrow> usize option" where
  "intersect_preds n idm index [] new_idom = Some new_idom"
| "intersect_preds n idm index (p # ps) new_idom =
     (if p = new_idom then intersect_preds n idm index ps new_idom
      else if idm p \<noteq> None then
        Option.bind (intersect n p new_idom idm index) (intersect_preds n idm index ps)
      else intersect_preds n idm index ps new_idom)"

text \<open>The body of \<open>for &b in &rpo\<close>.\<close>

definition update_idom ::
  "control_flow_graph \<Rightarrow> (usize \<rightharpoonup> usize) \<Rightarrow> nat \<Rightarrow> usize \<Rightarrow> (usize \<rightharpoonup> usize) \<times> bool \<Rightarrow> ((usize \<rightharpoonup> usize) \<times> bool) option" where
  "update_idom cfg index n b st =
     (let (idm, changed) = st in
      if b = entry_pc cfg then Some (idm, changed)
      else case get_block cfg b of
        None \<Rightarrow> Some (idm, changed)
      | Some block \<Rightarrow>
          (case find (\<lambda>p. idm p \<noteq> None) (predecessors block) of
             None \<Rightarrow> Some (idm, changed)
           | Some first \<Rightarrow>
               Option.bind (intersect_preds n idm index (predecessors block) first) (\<lambda>new_idom.
                 if idm b \<noteq> Some new_idom then Some (idm(b \<mapsto> new_idom), True) else Some (idm, changed))))"

fun sweep ::
  "control_flow_graph \<Rightarrow> (usize \<rightharpoonup> usize) \<Rightarrow> nat \<Rightarrow> usize list \<Rightarrow> (usize \<rightharpoonup> usize) \<times> bool \<Rightarrow> ((usize \<rightharpoonup> usize) \<times> bool) option" where
  "sweep cfg index n [] st = Some st"
| "sweep cfg index n (b # bs) st = Option.bind (update_idom cfg index n b st) (sweep cfg index n bs)"

fun idom_loop ::
  "nat \<Rightarrow> control_flow_graph \<Rightarrow> (usize \<rightharpoonup> usize) \<Rightarrow> nat \<Rightarrow> usize list \<Rightarrow> (usize \<rightharpoonup> usize) \<Rightarrow> (usize \<rightharpoonup> usize) option" where
  "idom_loop 0 cfg index n order idm = None"
| "idom_loop (Suc rounds) cfg index n order idm =
     Option.bind (sweep cfg index n order (idm, False)) (\<lambda>(idm, changed).
       if changed then idom_loop rounds cfg index n order idm else Some idm)"

text \<open>The children are sorted, so the order in which the entries of \<open>idom\<close> are visited is irrelevant;
  its keys are the nodes of the order and the entry, which is its own dominator.\<close>

definition children_of :: "usize list \<Rightarrow> (usize \<rightharpoonup> usize) \<Rightarrow> usize \<rightharpoonup> usize list" where
  "children_of order idm = map_option sort \<circ> fold (\<lambda>node m. case idm node of
      Some d \<Rightarrow> if node \<noteq> d then push_entry d node m else m
    | None \<Rightarrow> m) order Map.empty"

definition compute :: "control_flow_graph \<Rightarrow> dominator_tree option" where
  "compute cfg =
     (let order = compute_rpo cfg; index = index_of order; entry = entry_pc cfg in
      map_option (\<lambda>idm. \<lparr>idom = idm, children = children_of order idm, rpo = order,
                         rpo_index = index, tree_entry = entry\<rparr>)
        (idom_loop (length order + 2) cfg index (2 * length order + 1) order [entry \<mapsto> entry]))"

text \<open>\<open>dominates\<close> walks up the tree; the walk visits each node of the tree at most once.\<close>

fun dominates_walk :: "nat \<Rightarrow> (usize \<rightharpoonup> usize) \<Rightarrow> usize \<Rightarrow> usize \<Rightarrow> bool" where
  "dominates_walk 0 idm a cur = False"
| "dominates_walk (Suc n) idm a cur =
     (case idm cur of
        None \<Rightarrow> False
      | Some d \<Rightarrow> if d = cur then False else if d = a then True else dominates_walk n idm a d)"

definition dominates :: "dominator_tree \<Rightarrow> usize \<Rightarrow> usize \<Rightarrow> bool" where
  "dominates t a b = (a = b \<or> dominates_walk (length (rpo t) + 1) (idom t) a b)"

end
