(* ===== verification/Dominators_Correct.thy ===== *)
theory Dominators_Correct
  imports Dominators
begin

text \<open>
  Correctness of the dominator tree: \<open>compute\<close> returns, and the tree it returns holds exactly the
  dominance relation, for every graph that satisfies \<open>flow_graph\<close>.

  The iteration is not monotone (moving a node in the tree moves everything below it), so it is not
  proved by a decreasing measure. Two families of facts are kept by every update: the tree contains
  all dominators (\<open>complete_tree\<close>, with \<open>high_walks\<close> to push a dominator through a part of the tree that
  moves), and, after \<open>s\<close> sweeps, it contains nothing that a simple walk with fewer than \<open>s\<close> retreating
  edges avoids (\<open>exact_for\<close>). A simple walk has fewer retreating edges than the order has nodes.
\<close>

section \<open>Walks and dominance\<close>

definition edge :: "control_flow_graph \<Rightarrow> usize \<Rightarrow> usize \<Rightarrow> bool" where
  "edge cfg s t \<longleftrightarrow> t \<in> set (cfg_succs cfg s)"

definition entry_walk :: "control_flow_graph \<Rightarrow> usize list \<Rightarrow> bool" where
  "entry_walk cfg xs \<longleftrightarrow> xs \<noteq> [] \<and> hd xs = entry_pc cfg \<and> successively (edge cfg) xs"

definition reachable :: "control_flow_graph \<Rightarrow> usize \<Rightarrow> bool" where
  "reachable cfg b \<longleftrightarrow> (\<exists>xs. entry_walk cfg xs \<and> last xs = b)"

definition on_every_walk :: "control_flow_graph \<Rightarrow> usize \<Rightarrow> usize \<Rightarrow> bool" where
  "on_every_walk cfg a b \<longleftrightarrow> (\<forall>xs. entry_walk cfg xs \<and> last xs = b \<longrightarrow> a \<in> set xs)"

lemma entry_walk_single [simp]: "entry_walk cfg [x] \<longleftrightarrow> x = entry_pc cfg"
  by (auto simp: entry_walk_def)

lemma entry_walk_snoc:
  "xs \<noteq> [] \<Longrightarrow> entry_walk cfg (xs @ [b]) \<longleftrightarrow> entry_walk cfg xs \<and> edge cfg (last xs) b"
  by (auto simp: entry_walk_def successively_append_iff)

lemma entry_walk_append:
  "entry_walk cfg xs \<Longrightarrow> successively (edge cfg) (last xs # ys) \<Longrightarrow> entry_walk cfg (xs @ ys)"
  by (cases ys) (auto simp: entry_walk_def successively_append_iff)

lemma entry_walk_prefix: "entry_walk cfg (xs @ ys) \<Longrightarrow> xs \<noteq> [] \<Longrightarrow> entry_walk cfg xs"
  by (auto simp: entry_walk_def successively_append_iff)

lemma reachable_entry [simp]: "reachable cfg (entry_pc cfg)"
  unfolding reachable_def by (rule exI [of _ "[entry_pc cfg]"]) simp

lemma reachable_edge: "reachable cfg s \<Longrightarrow> edge cfg s t \<Longrightarrow> reachable cfg t"
  unfolding reachable_def by (metis entry_walk_def entry_walk_snoc last_snoc)

text \<open>A walk contains a simple walk to the same node.\<close>

lemma simple_walk:
  assumes "entry_walk cfg xs"
  obtains ys where "entry_walk cfg ys" "distinct ys" "last ys = last xs" "set ys \<subseteq> set xs"
  using assms
proof (induction xs arbitrary: thesis rule: rev_induct)
  case Nil
  then show ?case by (simp add: entry_walk_def)
next
  case (snoc b xs)
  show ?case
  proof (cases "xs = []")
    case True
    with snoc.prems show ?thesis by (intro snoc.prems(1) [of "[b]"]) auto
  next
    case False
    then have w: "entry_walk cfg xs" "edge cfg (last xs) b" using snoc.prems(2) by (simp_all add: entry_walk_snoc)
    obtain ys where ys: "entry_walk cfg ys" "distinct ys" "last ys = last xs" "set ys \<subseteq> set xs"
      by (rule snoc.IH [OF _ w(1)])
    show ?thesis
    proof (cases "b \<in> set ys")
      case True
      then obtain us vs where "ys = us @ b # vs" by (auto simp: in_set_conv_decomp)
      then show ?thesis
        using ys entry_walk_prefix [of cfg "us @ [b]" vs] by (intro snoc.prems(1) [of "us @ [b]"]) auto
    next
      case False
      have "ys \<noteq> []" using ys(1) by (simp add: entry_walk_def)
      then show ?thesis
        using ys w(2) False by (intro snoc.prems(1) [of "ys @ [b]"]) (auto simp: entry_walk_snoc)
    qed
  qed
qed

lemma on_every_walk_edge:
  "on_every_walk cfg a b \<Longrightarrow> a \<noteq> b \<Longrightarrow> edge cfg p b \<Longrightarrow> on_every_walk cfg a p"
  unfolding on_every_walk_def
proof (intro allI impI)
  fix xs
  assume all: "\<forall>xs. entry_walk cfg xs \<and> last xs = b \<longrightarrow> a \<in> set xs" and "a \<noteq> b" "edge cfg p b"
    and xs: "entry_walk cfg xs \<and> last xs = p"
  then have "xs \<noteq> []" by (simp add: entry_walk_def)
  with xs \<open>edge cfg p b\<close> have "entry_walk cfg (xs @ [b])" by (simp add: entry_walk_snoc)
  then have "a \<in> set (xs @ [b])" using all by (metis last_snoc)
  with \<open>a \<noteq> b\<close> show "a \<in> set xs" by simp
qed

lemma on_every_walk_entry: "on_every_walk cfg a (entry_pc cfg) \<longleftrightarrow> a = entry_pc cfg"
  unfolding on_every_walk_def
proof (intro iffI allI impI)
  assume "\<forall>xs. entry_walk cfg xs \<and> last xs = entry_pc cfg \<longrightarrow> a \<in> set xs"
  from this [rule_format, of "[entry_pc cfg]"] show "a = entry_pc cfg" by simp
next
  fix xs
  assume "a = entry_pc cfg" "entry_walk cfg xs \<and> last xs = entry_pc cfg"
  then show "a \<in> set xs" by (metis entry_walk_def hd_in_set)
qed

lemma on_every_walk_preds:
  assumes "b \<noteq> entry_pc cfg" "\<And>p. edge cfg p b \<Longrightarrow> reachable cfg p \<Longrightarrow> on_every_walk cfg a p"
  shows "on_every_walk cfg a b"
  unfolding on_every_walk_def
proof (intro allI impI, elim conjE)
  fix xs
  assume xs: "entry_walk cfg xs" "last xs = b"
  then obtain ys where ys: "xs = ys @ [b]" by (metis append_butlast_last_id entry_walk_def)
  with xs assms(1) have "ys \<noteq> []" by (auto simp: entry_walk_def)
  with xs ys have w: "entry_walk cfg ys" "edge cfg (last ys) b" by (simp_all add: entry_walk_snoc)
  then have "on_every_walk cfg a (last ys)" using assms(2) by (auto simp: reachable_def)
  with w ys show "a \<in> set xs" by (auto simp: on_every_walk_def)
qed


section \<open>The order\<close>

text \<open>In postorder every node but the roots has a predecessor further on.\<close>

fun has_parents :: "control_flow_graph \<Rightarrow> usize set \<Rightarrow> usize list \<Rightarrow> bool" where
  "has_parents cfg roots [] = True"
| "has_parents cfg roots (x # xs) =
     ((x \<in> roots \<or> (\<exists>y \<in> set xs. edge cfg y x)) \<and> has_parents cfg roots xs)"

lemma has_parents_append: "has_parents cfg R xs \<Longrightarrow> has_parents cfg R ys \<Longrightarrow> has_parents cfg R (xs @ ys)"
  by (induction xs) auto

lemma has_parents_mono: "has_parents cfg R xs \<Longrightarrow> R \<subseteq> R' \<Longrightarrow> has_parents cfg R' xs"
  by (induction xs) auto

lemma has_parents_snoc:
  "has_parents cfg R xs \<Longrightarrow> (\<And>x. x \<in> R \<Longrightarrow> edge cfg y x) \<Longrightarrow> has_parents cfg {y} (xs @ [y])"
  by (induction xs) auto

definition finishes :: "control_flow_graph \<Rightarrow> usize set \<Rightarrow> usize set \<times> usize list \<Rightarrow> usize set \<times> usize list \<Rightarrow> bool" where
  "finishes cfg roots acc acc' \<longleftrightarrow> (\<exists>new. snd acc' = snd acc @ new \<and> fst acc' = fst acc \<union> set new \<and>
     distinct new \<and> set new \<inter> fst acc = {} \<and> has_parents cfg roots new \<and>
     (\<forall>x \<in> set new. set (cfg_succs cfg x) \<subseteq> fst acc') \<and> set new \<subseteq> cfg_nodes cfg)"

lemma finishes_refl: "finishes cfg R acc acc"
  unfolding finishes_def by (rule exI [of _ "[]"]) simp

lemma finishes_trans:
  assumes "finishes cfg R a b" "finishes cfg R b c"
  shows "finishes cfg R a c"
proof -
  obtain xs where x: "snd b = snd a @ xs" "fst b = fst a \<union> set xs" "distinct xs" "set xs \<inter> fst a = {}"
      "has_parents cfg R xs" "\<forall>x \<in> set xs. set (cfg_succs cfg x) \<subseteq> fst b" "set xs \<subseteq> cfg_nodes cfg"
    using assms(1) unfolding finishes_def by blast
  obtain ys where y: "snd c = snd b @ ys" "fst c = fst b \<union> set ys" "distinct ys" "set ys \<inter> fst b = {}"
      "has_parents cfg R ys" "\<forall>x \<in> set ys. set (cfg_succs cfg x) \<subseteq> fst c" "set ys \<subseteq> cfg_nodes cfg"
    using assms(2) unfolding finishes_def by blast
  show ?thesis
    unfolding finishes_def
  proof (intro exI [of _ "xs @ ys"] conjI)
    show "has_parents cfg R (xs @ ys)" using x y has_parents_append by blast
    show "distinct (xs @ ys)" "set (xs @ ys) \<inter> fst a = {}" using x y by auto
    show "\<forall>x \<in> set (xs @ ys). set (cfg_succs cfg x) \<subseteq> fst c" using x y by auto
  qed (use x y in auto)
qed

lemma finishes_mono: "finishes cfg R a b \<Longrightarrow> R \<subseteq> R' \<Longrightarrow> finishes cfg R' a b"
  unfolding finishes_def using has_parents_mono by blast

context flow_graph
begin

lemma nodes_finite: "finite (cfg_nodes cfg)"
  by (simp add: cfg_nodes_def)

lemma node_block: "b \<in> cfg_nodes cfg \<longleftrightarrow> (\<exists>block. get_block cfg b = Some block)"
  by (auto simp: cfg_nodes_dom)

lemma dfs_finishes:
  "card (cfg_nodes cfg - fst acc) < n \<Longrightarrow> node \<in> cfg_nodes cfg \<Longrightarrow>
   finishes cfg {node} acc (dfs_post_order n cfg node acc) \<and> node \<in> fst (dfs_post_order n cfg node acc)"
proof (induction n arbitrary: node acc)
  case (Suc n)
  obtain visited post where acc: "acc = (visited, post)" by (cases acc)
  obtain block where block: "get_block cfg node = Some block" using Suc.prems(2) node_block by blast
  show ?case
  proof (cases "node \<in> visited")
    case True
    then show ?thesis by (simp add: acc finishes_refl)
  next
    case False
    then have "cfg_nodes cfg - insert node visited \<subset> cfg_nodes cfg - visited" using Suc.prems(2) by auto
    from psubset_card_mono [OF finite_Diff [OF nodes_finite] this] Suc.prems(1)
    have card: "card (cfg_nodes cfg - insert node visited) < n" unfolding acc fst_conv by linarith
    have inner: "finishes cfg (set ss) a (fold (dfs_post_order n cfg) ss a) \<and>
        set ss \<subseteq> fst (fold (dfs_post_order n cfg) ss a)"
      if "set ss \<subseteq> cfg_nodes cfg" "insert node visited \<subseteq> fst a" for ss a
      using that
    proof (induction ss arbitrary: a)
      case (Cons s ss)
      let ?a = "dfs_post_order n cfg s a"
      have "card (cfg_nodes cfg - fst a) < n"
        by (rule le_less_trans [OF card_mono [OF finite_Diff [OF nodes_finite] Diff_mono [OF order_refl Cons.prems(2)]] card])
      then have one: "finishes cfg {s} a ?a" "s \<in> fst ?a" using Suc.IH [of a s] Cons.prems by auto
      then have sub: "fst a \<subseteq> fst ?a" by (auto simp: finishes_def)
      then have rest: "finishes cfg (set ss) ?a (fold (dfs_post_order n cfg) ss ?a)"
          "set ss \<subseteq> fst (fold (dfs_post_order n cfg) ss ?a)"
        using Cons.IH [of ?a] Cons.prems by auto
      have "finishes cfg (set (s # ss)) a (fold (dfs_post_order n cfg) ss ?a)"
        by (rule finishes_trans [OF finishes_mono [OF one(1)] finishes_mono [OF rest(1)]]) auto
      moreover have "fst ?a \<subseteq> fst (fold (dfs_post_order n cfg) ss ?a)" using rest(1) by (auto simp: finishes_def)
      ultimately show ?case using one(2) rest(2) by auto
    qed (simp add: finishes_refl)
    let ?ss = "successors block"
    obtain v p where f: "fold (dfs_post_order n cfg) ?ss (insert node visited, post) = (v, p)"
      by (cases "fold (dfs_post_order n cfg) ?ss (insert node visited, post)")
    have ss: "set ?ss \<subseteq> cfg_nodes cfg" "cfg_succs cfg node = ?ss"
      using succs_in [OF block] block by (simp_all add: cfg_succs_def)
    have sub: "set ?ss \<subseteq> v" using inner [OF ss(1), of "(insert node visited, post)"] f by simp
    have "finishes cfg (set ?ss) (insert node visited, post) (v, p)"
      using inner [OF ss(1), of "(insert node visited, post)"] f by simp
    then obtain new where new: "p = post @ new" "v = insert node visited \<union> set new" "distinct new"
        "set new \<inter> insert node visited = {}" "has_parents cfg (set ?ss) new"
        "\<forall>x \<in> set new. set (cfg_succs cfg x) \<subseteq> v" "set new \<subseteq> cfg_nodes cfg"
      unfolding finishes_def by auto
    have res: "dfs_post_order (Suc n) cfg node acc = (v, p @ [node])" using False block f by (simp add: acc)
    have hp: "has_parents cfg {node} (new @ [node])"
      by (rule has_parents_snoc [OF new(5)]) (simp add: edge_def ss)
    have "finishes cfg {node} acc (v, p @ [node])"
      unfolding finishes_def
      using hp new sub ss(2) False Suc.prems(2) by (intro exI [of _ "new @ [node]"]) (auto simp: acc)
    then show ?thesis using new(2) by (simp only: res) simp
  qed
qed simp

end

lemma has_parents_nth:
  "has_parents cfg R xs \<Longrightarrow> i < length xs \<Longrightarrow> xs ! i \<in> R \<or> (\<exists>j. i < j \<and> j < length xs \<and> edge cfg (xs ! j) (xs ! i))"
proof (induction xs arbitrary: i)
  case (Cons x xs)
  show ?case
  proof (cases i)
    case 0
    then show ?thesis using Cons.prems(1) by (force simp: in_set_conv_nth)
  next
    case (Suc k)
    with Cons show ?thesis by (metis Suc_less_eq has_parents.simps(2) length_Cons nth_Cons_Suc)
  qed
qed simp

text \<open>The place of a node in the order; a node that is not in it comes after all others.\<close>

definition position :: "usize list \<Rightarrow> usize \<Rightarrow> nat" where
  "position order b = (case index_of order b of Some i \<Rightarrow> i | None \<Rightarrow> length order)"

lemma index_of_Some: "distinct xs \<Longrightarrow> index_of xs b = Some i \<longleftrightarrow> i < length xs \<and> xs ! i = b"
proof -
  assume "distinct xs"
  then have "distinct (map fst (rev (zip xs [0..<length xs])))" by (simp add: rev_map [symmetric] del: rev_map)
  then show ?thesis
    unfolding index_of_def by (subst map_of_eq_Some_iff) (auto simp: in_set_zip intro!: exI [of _ i])
qed

lemma index_of_None: "index_of xs b = None \<longleftrightarrow> b \<notin> set xs"
  by (simp add: index_of_def map_of_eq_None_iff flip: set_map)

lemma position_nth [simp]: "distinct xs \<Longrightarrow> i < length xs \<Longrightarrow> position xs (xs ! i) = i"
  using index_of_Some [of xs "xs ! i" i] by (simp add: position_def)

lemma nth_position: "distinct xs \<Longrightarrow> b \<in> set xs \<Longrightarrow> position xs b < length xs \<and> xs ! position xs b = b"
  by (auto simp: in_set_conv_nth)

lemma position_out: "b \<notin> set xs \<Longrightarrow> position xs b = length xs"
  by (simp add: position_def index_of_None [THEN iffD2])

lemma position_le: "distinct xs \<Longrightarrow> position xs b \<le> length xs"
  using nth_position [of xs b] position_out [of b xs] by (cases "b \<in> set xs") simp_all

lemma index_position: "distinct xs \<Longrightarrow> b \<in> set xs \<Longrightarrow> index_of xs b = Some (position xs b)"
  by (simp add: index_of_Some nth_position)

lemma later_iff:
  assumes "distinct xs"
  shows "later (index_of xs) a b \<longleftrightarrow> position xs b < position xs a"
proof (cases "a \<in> set xs")
  case True
  with assms show ?thesis
    using nth_position [of xs a]
    by (cases "b \<in> set xs") (simp_all add: later_def index_position index_of_None [THEN iffD2] position_out)
next
  case False
  with assms show ?thesis
    using nth_position [of xs b]
    by (cases "b \<in> set xs") (simp_all add: later_def index_position index_of_None [THEN iffD2] position_out)
qed

context flow_graph
begin

abbreviation order :: "usize list" where "order \<equiv> compute_rpo cfg"
abbreviation pos :: "usize \<Rightarrow> nat" where "pos \<equiv> position (compute_rpo cfg)"

lemma order_shape:
  "distinct order" "set order \<subseteq> cfg_nodes cfg" "\<And>x. x \<in> set order \<Longrightarrow> set (cfg_succs cfg x) \<subseteq> set order"
  "has_parents cfg {entry_pc cfg} (rev order)" "order \<noteq> [] \<Longrightarrow> hd order = entry_pc cfg"
  "entry_pc cfg \<in> cfg_nodes cfg \<Longrightarrow> entry_pc cfg \<in> set order"
proof -
  let ?n = "length (blocks cfg) + 1"
  obtain v p where dfs: "dfs_post_order ?n cfg (entry_pc cfg) ({}, []) = (v, p)"
    by (cases "dfs_post_order ?n cfg (entry_pc cfg) ({}, [])")
  then have order: "order = rev p" by (simp add: compute_rpo_def)
  have shape: "distinct p \<and> set p \<subseteq> cfg_nodes cfg \<and> (\<forall>x \<in> set p. set (cfg_succs cfg x) \<subseteq> set p) \<and>
      has_parents cfg {entry_pc cfg} p \<and> (p \<noteq> [] \<longrightarrow> last p = entry_pc cfg) \<and>
      (entry_pc cfg \<in> cfg_nodes cfg \<longrightarrow> entry_pc cfg \<in> set p)"
  proof (cases "entry_pc cfg \<in> cfg_nodes cfg")
    case True
    then obtain block where "get_block cfg (entry_pc cfg) = Some block" using node_block by blast
    then have last: "p \<noteq> [] \<and> last p = entry_pc cfg" using dfs by (auto split: prod.splits)
    have "card (cfg_nodes cfg - fst ({}, [] :: usize list)) < ?n"
      by (simp add: cfg_nodes_def card_image_le card_length less_Suc_eq_le order_trans [OF card_image_le])
    from dfs_finishes [OF this True] have "finishes cfg {entry_pc cfg} ({}, []) (v, p)" "entry_pc cfg \<in> v"
      unfolding dfs by simp_all
    then show ?thesis using last by (auto simp: finishes_def)
  next
    case False
    then have "get_block cfg (entry_pc cfg) = None" using node_block by (cases "get_block cfg (entry_pc cfg)") auto
    then have "p = []" using dfs by simp
    then show ?thesis using False by simp
  qed
  show "distinct order" "set order \<subseteq> cfg_nodes cfg" "\<And>x. x \<in> set order \<Longrightarrow> set (cfg_succs cfg x) \<subseteq> set order"
    "has_parents cfg {entry_pc cfg} (rev order)" "order \<noteq> [] \<Longrightarrow> hd order = entry_pc cfg"
    "entry_pc cfg \<in> cfg_nodes cfg \<Longrightarrow> entry_pc cfg \<in> set order"
    using shape unfolding order by (simp_all add: hd_rev)
qed

lemma pos_entry: "b \<in> insert (entry_pc cfg) (set order) \<Longrightarrow> pos (entry_pc cfg) \<le> pos b"
proof (cases "order = []")
  case False
  then have "order ! 0 = entry_pc cfg" using order_shape(5) by (simp add: hd_conv_nth)
  then have "pos (entry_pc cfg) = 0" using position_nth [OF order_shape(1), of 0] False by simp
  then show ?thesis by simp
qed simp

lemma pos_inj:
  assumes "a \<in> insert (entry_pc cfg) (set order)" "b \<in> insert (entry_pc cfg) (set order)" "pos a = pos b"
  shows "a = b"
proof (cases "order = []")
  case False
  then have "entry_pc cfg \<in> set order" using order_shape(5) hd_in_set by metis
  with assms have "a \<in> set order" "b \<in> set order" by auto
  then show ?thesis using nth_position [OF order_shape(1)] assms(3) by metis
qed (use assms in simp)

lemma parent_before:
  assumes "b \<in> set order" "b \<noteq> entry_pc cfg"
  obtains p where "p \<in> set order" "edge cfg p b" "pos p < pos b"
proof -
  let ?n = "length order" and ?k = "pos b"
  have k: "?k < ?n" "order ! ?k = b" using nth_position [OF order_shape(1) assms(1)] by simp_all
  then have "rev order ! (?n - Suc ?k) = b" by (simp add: rev_nth)
  then obtain j where j: "?n - Suc ?k < j" "j < ?n" "edge cfg (rev order ! j) b"
    using has_parents_nth [OF order_shape(4), of "?n - Suc ?k"] k assms(2) by fastforce
  then have "rev order ! j = order ! (?n - Suc j)" "?n - Suc j < ?k" by (auto simp: rev_nth)
  with j k show ?thesis
    using that [of "order ! (?n - Suc j)"] position_nth [OF order_shape(1), of "?n - Suc j"] by simp
qed

lemma edge_into_order: "edge cfg s t \<Longrightarrow> s \<in> insert (entry_pc cfg) (set order) \<Longrightarrow> t \<in> set order"
  using order_shape(3,6) succs_source by (fastforce simp: edge_def)

lemma edge_pred: "edge cfg p b \<Longrightarrow> p \<in> set (cfg_preds cfg b)"
  using preds_iff_succs succs_closed by (auto simp: edge_def)

lemma pred_edge: "p \<in> set (cfg_preds cfg b) \<Longrightarrow> edge cfg p b"
proof -
  assume p: "p \<in> set (cfg_preds cfg b)"
  then have "b \<in> cfg_nodes cfg" by (auto simp: cfg_nodes_dom elim: cfg_predsE)
  with p show ?thesis using preds_iff_succs by (simp add: edge_def)
qed

lemma walk_in_order: "entry_walk cfg xs \<Longrightarrow> set xs \<subseteq> insert (entry_pc cfg) (set order)"
proof (induction xs rule: rev_induct)
  case (snoc b xs)
  show ?case
  proof (cases "xs = []")
    case False
    then have w: "entry_walk cfg xs" "edge cfg (last xs) b" using snoc.prems by (simp_all add: entry_walk_snoc)
    have "last xs \<in> insert (entry_pc cfg) (set order)" using snoc.IH [OF w(1)] False last_in_set by blast
    then have "b \<in> set order" by (rule edge_into_order [OF w(2)])
    then show ?thesis using snoc.IH [OF w(1)] by simp
  qed (use snoc.prems in simp)
qed simp

lemma reachable_iff: "reachable cfg b \<longleftrightarrow> b \<in> insert (entry_pc cfg) (set order)"
proof
  assume "reachable cfg b"
  then obtain xs where "entry_walk cfg xs" "last xs = b" by (auto simp: reachable_def)
  then show "b \<in> insert (entry_pc cfg) (set order)"
    using walk_in_order [of xs] last_in_set [of xs] by (auto simp: entry_walk_def)
next
  show "reachable cfg b" if "b \<in> insert (entry_pc cfg) (set order)"
    using that
  proof (induction "pos b" arbitrary: b rule: less_induct)
    case less
    show ?case
    proof (cases "b = entry_pc cfg")
      case False
      with less.prems obtain p where "p \<in> set order" "edge cfg p b" "pos p < pos b"
        by (auto elim: parent_before)
      then show ?thesis using less.hyps [of p] reachable_edge by blast
    qed simp
  qed
qed

end


section \<open>The tree\<close>

inductive anc :: "(usize \<rightharpoonup> usize) \<Rightarrow> usize \<Rightarrow> usize \<Rightarrow> bool" for idm where
  anc_self: "anc idm b b"
| anc_up: "idm b = Some d \<Longrightarrow> d \<noteq> b \<Longrightarrow> anc idm a d \<Longrightarrow> anc idm a b"

inductive_simps anc_at: "anc idm a b"

lemma anc_none: "I b = None \<Longrightarrow> anc I a b \<longleftrightarrow> a = b"
  by (subst anc_at) auto

lemma anc_some: "I b = Some d \<Longrightarrow> d \<noteq> b \<Longrightarrow> anc I a b \<longleftrightarrow> a = b \<or> anc I a d"
  by (subst anc_at) auto

declare anc_self [simp, intro]

definition tree_shape :: "control_flow_graph \<Rightarrow> (usize \<rightharpoonup> usize) \<Rightarrow> bool" where
  "tree_shape cfg idm \<longleftrightarrow> idm (entry_pc cfg) = Some (entry_pc cfg) \<and>
     (\<forall>b d. idm b = Some d \<and> b \<noteq> entry_pc cfg \<longrightarrow>
        b \<in> set (compute_rpo cfg) \<and> d \<in> dom idm \<and>
        position (compute_rpo cfg) d < position (compute_rpo cfg) b)"

text \<open>\<open>n\<close> is the deepest node above all predecessors of \<open>b\<close> that are in the tree.\<close>

definition meets :: "control_flow_graph \<Rightarrow> (usize \<rightharpoonup> usize) \<Rightarrow> usize \<Rightarrow> usize \<Rightarrow> bool" where
  "meets cfg idm b n \<longleftrightarrow> n \<in> dom idm \<and>
     (\<forall>a. anc idm a n \<longleftrightarrow> (\<forall>p \<in> set (cfg_preds cfg b) \<inter> dom idm. anc idm a p))"

context flow_graph
begin

lemma tree_dom: "tree_shape cfg I \<Longrightarrow> b \<in> dom I \<Longrightarrow> b \<in> insert (entry_pc cfg) (set order)"
  by (auto simp: tree_shape_def)

lemma tree_up:
  "tree_shape cfg I \<Longrightarrow> b \<in> dom I \<Longrightarrow> b \<noteq> entry_pc cfg \<Longrightarrow> \<exists>d. I b = Some d \<and> d \<noteq> b \<and> d \<in> dom I \<and> pos d < pos b"
  unfolding tree_shape_def by (metis domD nat_neq_iff)

lemma tree_entry: "tree_shape cfg I \<Longrightarrow> entry_pc cfg \<in> dom I"
  by (auto simp: tree_shape_def)

lemma anc_entry: "tree_shape cfg I \<Longrightarrow> anc I a (entry_pc cfg) \<longleftrightarrow> a = entry_pc cfg"
  by (subst anc_at) (auto simp: tree_shape_def)

lemma anc_pos:
  assumes "tree_shape cfg I" "anc I a b" "b \<in> dom I"
  shows "pos a \<le> pos b \<and> a \<in> dom I"
  using assms(2,3)
proof (induction rule: anc.induct)
  case (anc_up b d a)
  have "b \<noteq> entry_pc cfg" using anc_up.hyps assms(1) by (auto simp: tree_shape_def)
  then have "d \<in> dom I" "pos d < pos b" using tree_up [OF assms(1) anc_up.prems] anc_up.hyps by auto
  then show ?case using anc_up.IH by auto
qed simp

lemma anc_antisym:
  assumes "tree_shape cfg I" "anc I a b" "anc I b a" "b \<in> dom I"
  shows "a = b"
proof -
  have "pos a \<le> pos b" "a \<in> dom I" using anc_pos [OF assms(1,2,4)] by simp_all
  moreover have "pos b \<le> pos a" using anc_pos [OF assms(1,3)] calculation by simp
  ultimately show ?thesis using pos_inj tree_dom [OF assms(1)] assms(4) by (metis le_antisym)
qed

lemma intersect_anc:
  assumes "tree_shape cfg I"
  shows "b1 \<in> dom I \<Longrightarrow> b2 \<in> dom I \<Longrightarrow> pos b1 + pos b2 < n \<Longrightarrow>
    \<exists>m. intersect n b1 b2 I (index_of order) = Some m \<and> m \<in> dom I \<and> (\<forall>a. anc I a m \<longleftrightarrow> anc I a b1 \<and> anc I a b2)"
proof (induction n arbitrary: b1 b2)
  case (Suc n)
  consider "b1 = b2" | "b1 \<noteq> b2" "pos b2 < pos b1" | "b1 \<noteq> b2" "pos b1 < pos b2"
    using pos_inj tree_dom [OF assms] Suc.prems(1,2) by (metis nat_neq_iff)
  then show ?case
  proof cases
    case 1
    then show ?thesis using Suc.prems by auto
  next
    case 2
    then have "b1 \<noteq> entry_pc cfg" using pos_entry tree_dom [OF assms Suc.prems(2)] by (metis leD)
    then obtain d where d: "I b1 = Some d" "d \<noteq> b1" "d \<in> dom I" "pos d < pos b1"
      using tree_up [OF assms Suc.prems(1)] by blast
    have "\<not> anc I b1 b2" using anc_pos [OF assms _ Suc.prems(2)] 2 by (meson leD)
    moreover have "pos d + pos b2 < n" using d(4) Suc.prems(3) by simp
    ultimately show ?thesis
      using Suc.IH [of d b2] d 2 Suc.prems(2) later_iff [OF order_shape(1)] anc_some [where I = I, OF d(1,2)]
      by (auto simp: parent_def)
  next
    case 3
    then have "b2 \<noteq> entry_pc cfg" using pos_entry tree_dom [OF assms Suc.prems(1)] by (metis leD)
    then obtain d where d: "I b2 = Some d" "d \<noteq> b2" "d \<in> dom I" "pos d < pos b2"
      using tree_up [OF assms Suc.prems(2)] by blast
    have "\<not> anc I b2 b1" using anc_pos [OF assms _ Suc.prems(1)] 3 by (meson leD)
    moreover have "pos b1 + pos d < n" using d(4) Suc.prems(3) by simp
    moreover have "\<not> later (index_of order) b1 b2" using later_iff [OF order_shape(1)] 3(2) by simp
    ultimately show ?thesis
      using Suc.IH [of b1 d] d 3 Suc.prems(1) anc_some [where I = I, OF d(1,2)]
      by (auto simp: parent_def)
  qed
qed simp

lemma dom_small: "tree_shape cfg I \<Longrightarrow> b \<in> dom I \<Longrightarrow> order \<noteq> [] \<Longrightarrow> pos b < length order"
  using tree_dom [of I b] nth_position [OF order_shape(1), of b] order_shape(5) hd_in_set [of order] by auto

lemma intersect_preds_anc:
  assumes "tree_shape cfg I" "order \<noteq> []" "2 * length order \<le> n"
  shows "m \<in> dom I \<Longrightarrow> \<exists>m'. intersect_preds n I (index_of order) ps m = Some m' \<and> m' \<in> dom I \<and>
    (\<forall>a. anc I a m' \<longleftrightarrow> anc I a m \<and> (\<forall>p \<in> set ps \<inter> dom I. anc I a p))"
proof (induction ps arbitrary: m)
  case (Cons p ps)
  show ?case
  proof (cases "p = m \<or> I p = None")
    case True
    have "anc I a m \<and> (\<forall>q \<in> set (p # ps) \<inter> dom I. anc I a q) \<longleftrightarrow> anc I a m \<and> (\<forall>q \<in> set ps \<inter> dom I. anc I a q)" for a
      using True by auto
    moreover have "intersect_preds n I (index_of order) (p # ps) m = intersect_preds n I (index_of order) ps m"
      using True by auto
    ultimately show ?thesis using Cons.IH [OF Cons.prems] by presburger
  next
    case False
    then have p: "p \<in> dom I" by auto
    have "pos p + pos m < n" using dom_small [OF assms(1) p assms(2)] dom_small [OF assms(1) Cons.prems assms(2)] assms(3)
      by linarith
    then obtain k where k: "intersect n p m I (index_of order) = Some k" "k \<in> dom I"
        "\<forall>a. anc I a k \<longleftrightarrow> anc I a p \<and> anc I a m"
      using intersect_anc [OF assms(1) p Cons.prems] by blast
    then show ?thesis using Cons.IH [OF k(2)] False p by auto
  qed
qed simp

text \<open>One round of the loop puts \<open>b\<close> below a node that meets its predecessors.\<close>

lemma update_meets:
  assumes "tree_shape cfg I" "b \<in> set order" "b \<noteq> entry_pc cfg" "2 * length order \<le> n"
    and "p \<in> set (cfg_preds cfg b)" "p \<in> dom I"
  obtains m where "meets cfg I b m"
    "update_idom cfg (index_of order) n b (I, c) = (if I b = Some m then Some (I, c) else Some (I(b \<mapsto> m), True))"
proof -
  obtain block where block: "get_block cfg b = Some block" using assms(2) order_shape(2) node_block by blast
  then have preds: "cfg_preds cfg b = predecessors block" by (simp add: cfg_preds_def)
  obtain f where f: "find (\<lambda>p. I p \<noteq> None) (predecessors block) = Some f"
    using assms(5,6) preds by (cases "find (\<lambda>p. I p \<noteq> None) (predecessors block)") (auto simp: find_None_iff)
  then have f_in: "f \<in> set (cfg_preds cfg b)" "f \<in> dom I" by (auto simp: find_Some_iff preds)
  have "order \<noteq> []" using assms(2) by auto
  then obtain m where m: "intersect_preds n I (index_of order) (predecessors block) f = Some m" "m \<in> dom I"
      "\<forall>a. anc I a m \<longleftrightarrow> anc I a f \<and> (\<forall>p \<in> set (predecessors block) \<inter> dom I. anc I a p)"
    using intersect_preds_anc [OF assms(1) _ assms(4) f_in(2)] by blast
  show thesis
  proof (rule that)
    show "meets cfg I b m" using m(2,3) f_in by (auto simp: meets_def preds)
    show "update_idom cfg (index_of order) n b (I, c) = (if I b = Some m then Some (I, c) else Some (I(b \<mapsto> m), True))"
      using assms(3) block f m(1) by (simp add: update_idom_def)
  qed
qed

text \<open>Moving \<open>b\<close> below \<open>n\<close> changes what is above the nodes at and below \<open>b\<close>.\<close>

lemma anc_update:
  assumes I: "tree_shape cfg I" and b: "b \<in> set order" "b \<noteq> entry_pc cfg" and n: "n \<in> dom I" "pos n < pos b"
  shows "c \<in> insert b (dom I) \<Longrightarrow>
    anc (I(b \<mapsto> n)) a c \<longleftrightarrow> (if anc I b c then (anc I a c \<and> anc I b a) \<or> anc I a n else anc I a c)"
proof (induction "pos c" arbitrary: c rule: less_induct)
  case less
  consider "c = b" | "c \<noteq> b" "c = entry_pc cfg" | "c \<noteq> b" "c \<noteq> entry_pc cfg" by blast
  then show ?case
  proof cases
    case 1
    have "\<not> anc I b n" using anc_pos [OF I _ n(1)] n(2) by (meson leD)
    then have "anc (I(b \<mapsto> n)) a n \<longleftrightarrow> anc I a n" using less.hyps [of n] n 1 by simp
    moreover have "anc I a b \<and> anc I b a \<longleftrightarrow> a = b"
      using anc_antisym [OF I, of a b] anc_none [of I b a] by (cases "I b") auto
    moreover have "n \<noteq> b" using n(2) by auto
    ultimately show ?thesis using 1 anc_some [of "I(b \<mapsto> n)" b n a] by simp
  next
    case 2
    have "tree_shape cfg (I(b \<mapsto> n))" using I b n by (auto simp: tree_shape_def)
    then show ?thesis using 2 b(2) anc_entry [OF I] anc_entry [of "I(b \<mapsto> n)"] by auto
  next
    case 3
    then have "c \<in> dom I" using less.prems by simp
    then obtain d where d: "I c = Some d" "d \<noteq> c" "d \<in> dom I" "pos d < pos c" using tree_up [OF I] 3(2) by blast
    have "anc (I(b \<mapsto> n)) a d \<longleftrightarrow> (if anc I b d then (anc I a d \<and> anc I b a) \<or> anc I a n else anc I a d)"
      using less.hyps [OF d(4)] d(3) by simp
    moreover have "anc (I(b \<mapsto> n)) a c \<longleftrightarrow> a = c \<or> anc (I(b \<mapsto> n)) a d"
      using anc_some [of "I(b \<mapsto> n)" c d a] d 3(1) by simp
    ultimately show ?thesis using anc_some [where I = I, OF d(1,2)] 3(1) by auto
  qed
qed

lemma tree_shape_update:
  "tree_shape cfg I \<Longrightarrow> b \<in> set order \<Longrightarrow> b \<noteq> entry_pc cfg \<Longrightarrow> n \<in> dom I \<Longrightarrow> pos n < pos b \<Longrightarrow> tree_shape cfg (I(b \<mapsto> n))"
  by (auto simp: tree_shape_def)

end

section \<open>What every update keeps\<close>

definition high_path :: "control_flow_graph \<Rightarrow> usize \<Rightarrow> usize \<Rightarrow> bool" where
  "high_path cfg d b \<longleftrightarrow> (\<exists>ys. successively (edge cfg) (d # ys) \<and> last (d # ys) = b \<and>
     (\<forall>y \<in> set ys. position (compute_rpo cfg) d \<le> position (compute_rpo cfg) y))"

definition high_walks :: "control_flow_graph \<Rightarrow> (usize \<rightharpoonup> usize) \<Rightarrow> bool" where
  "high_walks cfg idm \<longleftrightarrow> (\<forall>b d. idm b = Some d \<and> b \<noteq> entry_pc cfg \<longrightarrow> high_path cfg d b)"

definition complete_tree :: "control_flow_graph \<Rightarrow> (usize \<rightharpoonup> usize) \<Rightarrow> bool" where
  "complete_tree cfg idm \<longleftrightarrow> (\<forall>b \<in> dom idm. \<forall>a. on_every_walk cfg a b \<longrightarrow> anc idm a b)"

text \<open>The number of edges of a walk that do not go forward in the order.\<close>

fun retreats :: "usize list \<Rightarrow> usize list \<Rightarrow> nat" where
  "retreats ord (x # y # zs) = (if position ord y \<le> position ord x then 1 else 0) + retreats ord (y # zs)"
| "retreats ord xs = 0"

definition exact_for :: "control_flow_graph \<Rightarrow> (usize \<Rightarrow> nat) \<Rightarrow> (usize \<rightharpoonup> usize) \<Rightarrow> bool" where
  "exact_for cfg lev idm \<longleftrightarrow> (\<forall>xs. entry_walk cfg xs \<and> distinct xs \<and> last xs \<in> set (compute_rpo cfg) \<and>
     retreats (compute_rpo cfg) xs < lev (last xs) \<longrightarrow>
     last xs \<in> dom idm \<and> (\<forall>a. anc idm a (last xs) \<longrightarrow> a \<in> set xs))"

definition level :: "usize list \<Rightarrow> nat \<Rightarrow> nat \<Rightarrow> usize \<Rightarrow> nat" where
  "level ord s k b = (if position ord b < k then s + 1 else s)"

text \<open>After \<open>s\<close> sweeps and the first \<open>k\<close> nodes of the next one.\<close>

definition sweep_inv :: "control_flow_graph \<Rightarrow> nat \<Rightarrow> nat \<Rightarrow> (usize \<rightharpoonup> usize) \<Rightarrow> bool" where
  "sweep_inv cfg s k idm \<longleftrightarrow> tree_shape cfg idm \<and> high_walks cfg idm \<and> complete_tree cfg idm \<and>
     exact_for cfg (level (compute_rpo cfg) s k) idm \<and>
     (\<forall>c \<in> set (compute_rpo cfg). position (compute_rpo cfg) c < k \<longrightarrow> c \<in> dom idm)"

definition exact_tree :: "control_flow_graph \<Rightarrow> (usize \<rightharpoonup> usize) \<Rightarrow> bool" where
  "exact_tree cfg idm \<longleftrightarrow> tree_shape cfg idm \<and> complete_tree cfg idm \<and>
     (\<forall>c \<in> set (compute_rpo cfg). c \<in> dom idm \<and> (\<forall>a. anc idm a c \<longrightarrow> on_every_walk cfg a c))"

lemma retreats_snoc: "xs \<noteq> [] \<Longrightarrow>
    retreats ord (xs @ [b]) = retreats ord xs + (if position ord b \<le> position ord (last xs) then 1 else 0)"
  by (induction ord xs rule: retreats.induct) simp_all

lemma retreats_prefix: "retreats ord xs \<le> retreats ord (xs @ ys)"
proof (induction ys rule: rev_induct)
  case (snoc y ys)
  then show ?case
    using retreats_snoc [of "xs @ ys" ord y] by (cases "xs @ ys = []") auto
qed simp

lemma retreats_length: "xs \<noteq> [] \<Longrightarrow> retreats ord xs < length xs"
  by (induction ord xs rule: retreats.induct) auto

lemma anc_linear: "anc I a c \<Longrightarrow> anc I b c \<Longrightarrow> anc I a b \<or> anc I b a"
proof (induction rule: anc.induct)
  case (anc_up c d a)
  then show ?case by (metis anc.anc_up anc_some)
qed simp

lemma high_path_refl: "high_path cfg d d"
  unfolding high_path_def by (rule exI [of _ "[]"]) simp

lemma high_path_trans:
  assumes "high_path cfg d p" "high_path cfg p b" "position (compute_rpo cfg) d \<le> position (compute_rpo cfg) p"
  shows "high_path cfg d b"
proof -
  let ?p = "position (compute_rpo cfg)"
  obtain ys where y: "successively (edge cfg) (d # ys)" "last (d # ys) = p" "\<forall>y \<in> set ys. ?p d \<le> ?p y"
    using assms(1) unfolding high_path_def by blast
  obtain zs where z: "successively (edge cfg) (p # zs)" "last (p # zs) = b" "\<forall>y \<in> set zs. ?p p \<le> ?p y"
    using assms(2) unfolding high_path_def by blast
  have "successively (edge cfg) ((d # ys) @ zs)"
    using y z(1) by (cases zs) (auto simp: successively_append_iff simp del: append_Cons)
  moreover have "last (d # ys @ zs) = b" using y(2) z(2) by (cases zs) auto
  ultimately show ?thesis
    unfolding high_path_def using y(3) z(3) assms(3) by (intro exI [of _ "ys @ zs"]) auto
qed

lemma high_path_edge:
  "edge cfg p b \<Longrightarrow> high_path cfg d p \<Longrightarrow> position (compute_rpo cfg) d \<le> position (compute_rpo cfg) b \<Longrightarrow> high_path cfg d b"
  unfolding high_path_def
proof (elim exE conjE)
  fix ys
  assume "edge cfg p b" "position (compute_rpo cfg) d \<le> position (compute_rpo cfg) b"
    and ys: "successively (edge cfg) (d # ys)" "last (d # ys) = p"
      "\<forall>y \<in> set ys. position (compute_rpo cfg) d \<le> position (compute_rpo cfg) y"
  moreover have "successively (edge cfg) ((d # ys) @ [b])"
    using calculation(1) ys by (simp only: successively_append_iff) simp
  ultimately show "\<exists>ys. successively (edge cfg) (d # ys) \<and> last (d # ys) = b \<and>
     (\<forall>y \<in> set ys. position (compute_rpo cfg) d \<le> position (compute_rpo cfg) y)"
    by (intro exI [of _ "ys @ [b]"]) auto
qed

text \<open>A dominator of the end of a high path that is not on the path dominates its start.\<close>

lemma on_every_walk_back:
  assumes "on_every_walk cfg a c" "high_path cfg b c" "position (compute_rpo cfg) a < position (compute_rpo cfg) b"
  shows "on_every_walk cfg a b"
  unfolding on_every_walk_def
proof (intro allI impI, elim conjE)
  fix xs
  assume xs: "entry_walk cfg xs" "last xs = b"
  obtain ys where y: "successively (edge cfg) (b # ys)" "last (b # ys) = c"
      "\<forall>y \<in> set ys. position (compute_rpo cfg) b \<le> position (compute_rpo cfg) y"
    using assms(2) unfolding high_path_def by blast
  have "entry_walk cfg (xs @ ys)" using entry_walk_append [OF xs(1)] y(1) xs(2) by simp
  moreover have "last (xs @ ys) = c" using y(2) xs(2) by (cases ys) auto
  ultimately have "a \<in> set (xs @ ys)" using assms(1) unfolding on_every_walk_def by blast
  moreover have "a \<notin> set ys" using y(3) assms(3) by (meson leD)
  ultimately show "a \<in> set xs" by simp
qed

context flow_graph
begin

lemma anc_high:
  assumes "tree_shape cfg I" "high_walks cfg I" "anc I a c" "c \<in> dom I"
  shows "high_path cfg a c"
  using assms(3,4)
proof (induction rule: anc.induct)
  case (anc_up b d a)
  have "b \<noteq> entry_pc cfg" using anc_up.hyps assms(1) by (auto simp: tree_shape_def)
  then have d: "d \<in> dom I" "high_path cfg d b"
    using tree_up [OF assms(1) anc_up.prems] anc_up.hyps(1) assms(2) by (auto simp: high_walks_def)
  then have "high_path cfg a d" "pos a \<le> pos d" using anc_up.IH anc_pos [OF assms(1) anc_up.hyps(3)] by auto
  then show ?case using high_path_trans d(2) by blast
qed (simp add: high_path_refl)

lemma meets_above:
  "tree_shape cfg I \<Longrightarrow> meets cfg I b m \<Longrightarrow> edge cfg p b \<Longrightarrow> p \<in> dom I \<Longrightarrow> anc I m p \<and> pos m \<le> pos p"
  unfolding meets_def using edge_pred anc_pos [of I m p] by blast

text \<open>The three parts of \<open>sweep_inv\<close>, for moving \<open>b\<close> below \<open>m\<close>.\<close>

lemma high_walks_update:
  assumes "tree_shape cfg I" "high_walks cfg I" "meets cfg I b m" "edge cfg p b" "p \<in> dom I" "pos p < pos b"
  shows "high_walks cfg (I(b \<mapsto> m))"
proof -
  have "anc I m p" "pos m \<le> pos p" using meets_above [OF assms(1,3,4,5)] by simp_all
  then have "high_path cfg m b"
    using high_path_edge [OF assms(4) anc_high [OF assms(1,2)]] assms(5,6) by simp
  then show ?thesis using assms(2) by (auto simp: high_walks_def)
qed

lemma meets_complete:
  assumes "complete_tree cfg I" "meets cfg I b m" "on_every_walk cfg a b" "a \<noteq> b"
  shows "anc I a m"
  using assms on_every_walk_edge [OF assms(3,4) pred_edge] unfolding meets_def complete_tree_def by blast

lemma complete_update:
  assumes I: "tree_shape cfg I" "high_walks cfg I" "complete_tree cfg I"
    and b: "b \<in> set order" "b \<noteq> entry_pc cfg" and m: "meets cfg I b m" "pos m < pos b"
  shows "complete_tree cfg (I(b \<mapsto> m))"
  unfolding complete_tree_def
proof (intro ballI allI impI)
  fix c a
  assume c: "c \<in> dom (I(b \<mapsto> m))" and a: "on_every_walk cfg a c"
  have m_dom: "m \<in> dom I" using m(1) by (simp add: meets_def)
  have c_in: "c \<in> insert b (dom I)" using c by (auto split: if_splits)
  have old: "anc I a c" if "c \<in> dom I" using I(3) a that by (simp add: complete_tree_def)
  have new: "(anc I a c \<and> anc I b a) \<or> anc I a m" if bc: "anc I b c"
  proof (cases "c = b")
    case True
    then show ?thesis using meets_complete [OF I(3) m(1)] a by (cases "a = b") auto
  next
    case False
    then have c_dom: "c \<in> dom I" using c_in by simp
    show ?thesis
    proof (cases "anc I b a")
      case no: False
      then have ab: "anc I a b" "a \<noteq> b" using anc_linear [OF old [OF c_dom] bc] by auto
      have b_dom: "b \<in> dom I" using anc_pos [OF I(1) bc c_dom] by simp
      have le: "pos a \<le> pos b" "a \<in> dom I" using anc_pos [OF I(1) ab(1) b_dom] by simp_all
      have "pos a \<noteq> pos b" using pos_inj [OF tree_dom [OF I(1) le(2)] tree_dom [OF I(1) b_dom]] ab(2) by blast
      then have "on_every_walk cfg a b" using on_every_walk_back [OF a anc_high [OF I(1,2) bc c_dom]] le(1) by simp
      then show ?thesis using meets_complete [OF I(3) m(1)] ab(2) by blast
    qed (use old [OF c_dom] in simp)
  qed
  show "anc (I(b \<mapsto> m)) a c"
  proof (cases "anc I b c")
    case True
    then show ?thesis unfolding anc_update [OF I(1) b m_dom m(2) c_in] using new by simp
  next
    case False
    then have "c \<in> dom I" using c_in anc_self [of I b] by blast
    then show ?thesis unfolding anc_update [OF I(1) b m_dom m(2) c_in] using False old by simp
  qed
qed

lemma exact_update:
  assumes I: "tree_shape cfg I" "exact_for cfg (level order s (pos b)) I"
    and b: "b \<in> set order" "b \<noteq> entry_pc cfg" and m: "meets cfg I b m" "pos m < pos b"
  shows "exact_for cfg (level order s (Suc (pos b))) (I(b \<mapsto> m))"
proof -
  have m_dom: "m \<in> dom I" using m(1) by (simp add: meets_def)
  have at_b: "a \<in> set (ys @ [b])"
    if w: "entry_walk cfg (ys @ [b])" "distinct (ys @ [b])" "retreats order (ys @ [b]) < s + 1" "anc I a m" for ys a
  proof -
    have ne: "ys \<noteq> []" using w(1) b(2) by auto
    let ?p = "last ys"
    have p: "entry_walk cfg ys" "edge cfg ?p b" using w(1) ne by (simp_all add: entry_walk_snoc)
    have "?p \<in> set ys" using ne by simp
    then have "?p \<in> insert (entry_pc cfg) (set order)" using walk_in_order [OF p(1)] by blast
    moreover have "entry_pc cfg \<in> set order" using b(1) order_shape(5) hd_in_set [of order] by fastforce
    ultimately have "?p \<in> set order" by auto
    moreover have "retreats order ys < level order s (pos b) ?p"
      using w(3) retreats_snoc [OF ne, of order b] by (auto simp: level_def split: if_splits)
    ultimately have "?p \<in> dom I" "anc I a ?p \<Longrightarrow> a \<in> set ys"
      using I(2) p(1) w(2) by (auto simp: exact_for_def)
    moreover have "anc I a ?p" using m(1) w(4) edge_pred [OF p(2)] calculation(1) by (auto simp: meets_def)
    ultimately show ?thesis by simp
  qed
  show ?thesis
    unfolding exact_for_def
  proof (intro allI impI, elim conjE)
    fix xs
    assume xs: "entry_walk cfg xs" "distinct xs" "last xs \<in> set order"
      and r: "retreats order xs < level order s (Suc (pos b)) (last xs)"
    obtain zs where zs: "xs = zs @ [last xs]" using xs(1) by (metis append_butlast_last_id entry_walk_def)
    show "last xs \<in> dom (I(b \<mapsto> m)) \<and> (\<forall>a. anc (I(b \<mapsto> m)) a (last xs) \<longrightarrow> a \<in> set xs)"
    proof (cases "last xs = b")
      case True
      have "a \<in> set xs" if "anc (I(b \<mapsto> m)) a b" for a
      proof (cases "a = b")
        case False
        then have "anc I a m"
          using that anc_update [OF I(1) b m_dom m(2), of b a] anc_none [of I b a] anc_antisym [OF I(1), of a b]
          by (cases "I b") auto
        then show ?thesis using at_b [of zs a] zs xs True r by (simp add: level_def)
      qed (use True xs(1) in \<open>auto simp: entry_walk_def\<close>)
      then show ?thesis using True by simp
    next
      case False
      let ?c = "last xs"
      have pos_ne: "pos ?c \<noteq> pos b" using False pos_inj xs(3) b(1) by blast
      then have lev: "level order s (Suc (pos b)) ?c = level order s (pos b) ?c" by (simp add: level_def)
      then have ih: "?c \<in> dom I" "\<And>a. anc I a ?c \<Longrightarrow> a \<in> set xs"
        using I(2) xs r by (auto simp: exact_for_def)
      have "a \<in> set xs" if bc: "anc I b ?c" and a: "anc I a m" for a
      proof -
        have "b \<in> set xs" using ih(2) [OF bc] .
        then obtain ys ws where split: "xs = ys @ b # ws" by (auto simp: in_set_conv_decomp)
        have "pos b \<le> pos ?c" using anc_pos [OF I(1) bc ih(1)] by simp
        then have "\<not> pos ?c < pos b" by simp
        then have "retreats order xs < s" using r lev by (simp add: level_def)
        moreover have "retreats order (ys @ [b]) \<le> retreats order xs"
          using retreats_prefix [of order "ys @ [b]" ws] split by simp
        moreover have "entry_walk cfg (ys @ [b])" using entry_walk_prefix [of cfg "ys @ [b]" ws] xs(1) split by simp
        ultimately have "a \<in> set (ys @ [b])" using at_b [of ys a] xs(2) split a by simp
        then show ?thesis using split by auto
      qed
      then show ?thesis
        using anc_update [OF I(1) b m_dom m(2), of ?c] ih by (auto split: if_splits)
    qed
  qed
qed

end

section \<open>The iteration\<close>

context flow_graph
begin

lemma simple_entry:
  assumes "entry_walk cfg xs" "distinct xs" "last xs = entry_pc cfg"
  shows "xs = [entry_pc cfg]"
proof (cases xs)
  case (Cons x ys)
  then have "x = entry_pc cfg" "ys = [] \<or> last ys = x" using assms by (auto simp: entry_walk_def split: if_splits)
  then show ?thesis using Cons assms(2) last_in_set [of ys] by (cases "ys = []") auto
qed (use assms in \<open>simp add: entry_walk_def\<close>)

lemma step_entry:
  assumes "sweep_inv cfg s k I" "order ! k = entry_pc cfg" "k < length order"
  shows "sweep_inv cfg s (Suc k) I"
proof -
  have I: "tree_shape cfg I" "exact_for cfg (level order s k) I" "entry_pc cfg \<in> dom I"
    using assms(1) tree_entry by (simp_all add: sweep_inv_def)
  have k: "c = entry_pc cfg" if "c \<in> set order" "pos c = k" for c
    using that assms(2) nth_position [OF order_shape(1), of c] by simp
  have "exact_for cfg (level order s (Suc k)) I"
    unfolding exact_for_def
  proof (intro allI impI, elim conjE)
    fix xs
    assume xs: "entry_walk cfg xs" "distinct xs" "last xs \<in> set order"
      "retreats order xs < level order s (Suc k) (last xs)"
    show "last xs \<in> dom I \<and> (\<forall>a. anc I a (last xs) \<longrightarrow> a \<in> set xs)"
    proof (cases "last xs = entry_pc cfg")
      case True
      then show ?thesis using simple_entry [OF xs(1,2)] I(3) anc_entry [OF I(1)] by simp
    next
      case False
      then have "level order s (Suc k) (last xs) = level order s k (last xs)"
        using k [OF xs(3)] by (auto simp: level_def less_Suc_eq)
      then show ?thesis using I(2) xs by (simp add: exact_for_def)
    qed
  qed
  then show ?thesis using assms(1) k I(3) by (auto simp: sweep_inv_def less_Suc_eq)
qed

lemma step_update:
  assumes "sweep_inv cfg s (pos b) I" "b \<in> set order" "b \<noteq> entry_pc cfg" "meets cfg I b m"
    and "edge cfg p b" "p \<in> dom I" "pos p < pos b"
  shows "sweep_inv cfg s (Suc (pos b)) (I(b \<mapsto> m))"
proof -
  have I: "tree_shape cfg I" "high_walks cfg I" "complete_tree cfg I" "exact_for cfg (level order s (pos b)) I"
      "\<forall>c \<in> set order. pos c < pos b \<longrightarrow> c \<in> dom I"
    using assms(1) by (simp_all add: sweep_inv_def)
  have m: "m \<in> dom I" "pos m < pos b"
    using meets_above [OF I(1) assms(4-6)] assms(4,7) by (auto simp: meets_def)
  show ?thesis
    unfolding sweep_inv_def
  proof (intro conjI ballI impI)
    show "c \<in> dom (I(b \<mapsto> m))" if "c \<in> set order" "pos c < Suc (pos b)" for c
      using that I(5) pos_inj [of c b] assms(2) by (cases "pos c = pos b") auto
  qed (use tree_shape_update [OF I(1) assms(2,3) m] high_walks_update [OF I(1,2) assms(4-7)]
      complete_update [OF I(1-3) assms(2-4) m(2)] exact_update [OF I(1,4) assms(2-4) m(2)] in simp_all)
qed

lemma exact_unmoved:
  assumes "exact_tree cfg I" "b \<in> set order" "b \<noteq> entry_pc cfg" "meets cfg I b m"
  shows "I b = Some m"
proof -
  have I: "tree_shape cfg I" "complete_tree cfg I" "\<And>c. c \<in> set order \<Longrightarrow> c \<in> dom I"
      "\<And>c a. c \<in> set order \<Longrightarrow> anc I a c \<Longrightarrow> on_every_walk cfg a c"
    using assms(1) by (simp_all add: exact_tree_def)
  obtain p where p: "p \<in> set order" "edge cfg p b" "pos p < pos b" by (rule parent_before [OF assms(2,3)])
  obtain d where d: "I b = Some d" "d \<noteq> b" "d \<in> dom I" using tree_up [OF I(1) I(3) [OF assms(2)] assms(3)] by blast
  have m: "m \<in> dom I" "pos m < pos b"
    using meets_above [OF I(1) assms(4) p(2) I(3) [OF p(1)]] p(3) assms(4) by (auto simp: meets_def)
  have "on_every_walk cfg d b" using I(4) [OF assms(2)] anc_some [where I = I, OF d(1,2)] by simp
  then have "anc I d m" using meets_complete [OF I(2) assms(4)] d(2) by blast
  moreover have "on_every_walk cfg m b"
  proof (rule on_every_walk_preds [OF assms(3)])
    fix q
    assume q: "edge cfg q b" "reachable cfg q"
    then have "q \<in> dom I" using reachable_iff I(3) tree_entry [OF I(1)] by auto
    then have "anc I m q" using meets_above [OF I(1) assms(4) q(1)] by simp
    then show "on_every_walk cfg m q"
      using q(2) reachable_iff I(4) anc_entry [OF I(1)] on_every_walk_entry by auto
  qed
  then have "anc I m b" using I(2,3) assms(2) by (simp add: complete_tree_def)
  then have "anc I m d" using m(2) anc_some [where I = I, OF d(1,2)] by auto
  ultimately show ?thesis using anc_antisym [OF I(1)] d(1,3) by metis
qed

lemma sweep_step:
  assumes "sweep_inv cfg s k I" "k < length order" "2 * length order \<le> n"
  obtains I' c' where "update_idom cfg (index_of order) n (order ! k) (I, c) = Some (I', c')"
    "sweep_inv cfg s (Suc k) I'" "\<not> c' \<longrightarrow> I' = I \<and> \<not> c" "exact_tree cfg I \<longrightarrow> I' = I \<and> c' = c"
proof (cases "order ! k = entry_pc cfg")
  case True
  then have "update_idom cfg (index_of order) n (order ! k) (I, c) = Some (I, c)" by (simp add: update_idom_def)
  then show thesis using that [of I c] step_entry [OF assms(1) True assms(2)] by simp
next
  case False
  let ?b = "order ! k"
  have I: "tree_shape cfg I" "\<forall>c \<in> set order. pos c < k \<longrightarrow> c \<in> dom I"
    using assms(1) by (simp_all add: sweep_inv_def)
  have b: "?b \<in> set order" "pos ?b = k" using assms(2) order_shape(1) by simp_all
  obtain p where p: "p \<in> set order" "edge cfg p ?b" "pos p < pos ?b" by (rule parent_before [OF b(1) False])
  have pI: "p \<in> dom I" using I(2) p b(2) by simp
  obtain m where m: "meets cfg I ?b m"
      "update_idom cfg (index_of order) n ?b (I, c) = (if I ?b = Some m then Some (I, c) else Some (I(?b \<mapsto> m), True))"
    by (rule update_meets [OF I(1) b(1) False assms(3) edge_pred [OF p(2)] pI])
  have inv: "sweep_inv cfg s (Suc k) (I(?b \<mapsto> m))"
    using step_update [OF _ b(1) False m(1) p(2) pI p(3), of s] assms(1) b(2) by simp
  show thesis
  proof (cases "I ?b = Some m")
    case True
    then have "I(?b \<mapsto> m) = I" by (simp add: fun_upd_idem)
    then show ?thesis using that [of I c] m(2) inv True by simp
  next
    case moved: False
    then have "\<not> exact_tree cfg I" using exact_unmoved [OF _ b(1) False m(1)] by blast
    then show ?thesis using that [of "I(?b \<mapsto> m)" True] m(2) inv moved by simp
  qed
qed

lemma sweep_rest:
  assumes "2 * length order \<le> n"
  shows "order = pre @ bs \<Longrightarrow> sweep_inv cfg s (length pre) I \<Longrightarrow>
    \<exists>I' c'. sweep cfg (index_of order) n bs (I, c) = Some (I', c') \<and> sweep_inv cfg s (length order) I' \<and>
      (\<not> c' \<longrightarrow> I' = I \<and> \<not> c) \<and> (exact_tree cfg I \<longrightarrow> I' = I \<and> c' = c)"
proof (induction bs arbitrary: pre I c)
  case (Cons b bs)
  have b: "order ! length pre = b" "length pre < length order" using Cons.prems(1) by (simp_all add: nth_append)
  obtain I1 c1 where 1: "update_idom cfg (index_of order) n b (I, c) = Some (I1, c1)"
      "sweep_inv cfg s (Suc (length pre)) I1" "\<not> c1 \<longrightarrow> I1 = I \<and> \<not> c" "exact_tree cfg I \<longrightarrow> I1 = I \<and> c1 = c"
    by (rule sweep_step [OF Cons.prems(2) b(2) assms, of c, unfolded b(1)])
  have "\<exists>I' c'. sweep cfg (index_of order) n bs (I1, c1) = Some (I', c') \<and> sweep_inv cfg s (length order) I' \<and>
      (\<not> c' \<longrightarrow> I' = I1 \<and> \<not> c1) \<and> (exact_tree cfg I1 \<longrightarrow> I' = I1 \<and> c' = c1)"
    by (rule Cons.IH [of "pre @ [b]"]) (use Cons.prems(1) 1(2) in simp_all)
  then obtain I' c' where 2: "sweep cfg (index_of order) n bs (I1, c1) = Some (I', c')" "sweep_inv cfg s (length order) I'"
      "\<not> c' \<longrightarrow> I' = I1 \<and> \<not> c1" "exact_tree cfg I1 \<longrightarrow> I' = I1 \<and> c' = c1" by blast
  have "sweep cfg (index_of order) n (b # bs) (I, c) = Some (I', c')" using 1(1) 2(1) by simp
  then show ?case using 1(3,4) 2(2-4) by blast
qed simp

lemma next_sweep: "sweep_inv cfg s (length order) I \<Longrightarrow> sweep_inv cfg (Suc s) 0 I"
proof -
  assume inv: "sweep_inv cfg s (length order) I"
  have "level order s (length order) c = level order (Suc s) 0 c" if "c \<in> set order" for c
    using nth_position [OF order_shape(1) that] by (simp add: level_def)
  then have "exact_for cfg (level order s (length order)) I = exact_for cfg (level order (Suc s) 0) I"
    unfolding exact_for_def by (intro all_cong1) auto
  with inv show ?thesis by (simp add: sweep_inv_def)
qed

lemma sweep_whole:
  assumes "2 * length order \<le> n" "sweep_inv cfg s 0 I"
  obtains I' c where "sweep cfg (index_of order) n order (I, False) = Some (I', c)" "sweep_inv cfg (Suc s) 0 I'"
    "\<not> c \<longrightarrow> I' = I" "exact_tree cfg I \<longrightarrow> \<not> c"
  using sweep_rest [OF assms(1), of "[]" order s I False] assms(2) next_sweep by auto

lemma enough_sweeps:
  assumes "sweep_inv cfg s 0 I" "length order \<le> s"
  shows "exact_tree cfg I"
proof -
  have I: "tree_shape cfg I" "complete_tree cfg I" "exact_for cfg (level order s 0) I"
    using assms(1) by (simp_all add: sweep_inv_def)
  have simple: "c \<in> dom I \<and> (\<forall>a. anc I a c \<longrightarrow> a \<in> set xs)"
    if c: "c \<in> set order" and xs: "entry_walk cfg xs" "distinct xs" "last xs = c" for c xs
  proof -
    have "entry_pc cfg \<in> set order" using c order_shape(5) hd_in_set [of order] by fastforce
    then have "set xs \<subseteq> set order" using walk_in_order [OF xs(1)] by auto
    then have "length xs \<le> length order"
      using xs(2) order_shape(1) by (metis card_mono distinct_card List.finite_set)
    moreover have "retreats order xs < length xs" using xs(1) retreats_length by (simp add: entry_walk_def)
    ultimately have "retreats order xs < level order s 0 (last xs)" using assms(2) by (simp add: level_def)
    then show ?thesis using I(3) xs c by (auto simp: exact_for_def)
  qed
  have "c \<in> dom I \<and> (\<forall>a. anc I a c \<longrightarrow> on_every_walk cfg a c)" if c: "c \<in> set order" for c
  proof (intro conjI allI impI)
    obtain xs where "entry_walk cfg xs" "last xs = c" using c reachable_iff by (auto simp: reachable_def)
    then show "c \<in> dom I" using simple_walk simple [OF c] by metis
    fix a
    assume a: "anc I a c"
    show "on_every_walk cfg a c"
      unfolding on_every_walk_def
    proof (intro allI impI, elim conjE)
      fix xs
      assume xs: "entry_walk cfg xs" "last xs = c"
      obtain ys where "entry_walk cfg ys" "distinct ys" "last ys = c" "set ys \<subseteq> set xs"
        using simple_walk [OF xs(1)] xs(2) by metis
      then show "a \<in> set xs" using simple [OF c] a by blast
    qed
  qed
  then show ?thesis using I by (simp add: exact_tree_def)
qed

text \<open>A sweep that changes nothing could be repeated for ever, so the tree is already exact.\<close>

lemma stable_exact:
  assumes "2 * length order \<le> n" "sweep_inv cfg s 0 I" "sweep cfg (index_of order) n order (I, False) = Some (I, False)"
  shows "exact_tree cfg I"
proof -
  have "sweep_inv cfg (s + j) 0 I" for j
  proof (induction j)
    case (Suc j)
    obtain I' c where sw: "sweep cfg (index_of order) n order (I, False) = Some (I', c)" "sweep_inv cfg (Suc (s + j)) 0 I'"
      by (rule sweep_whole [OF assms(1) Suc.IH])
    then show ?case using assms(3) by simp
  qed (use assms(2) in simp)
  then show ?thesis using enough_sweeps [of "s + length order" I] by simp
qed

lemma idom_loop_exact:
  assumes "2 * length order \<le> n"
  shows "sweep_inv cfg s 0 I \<Longrightarrow> length order + 2 \<le> rounds + s \<Longrightarrow> 0 < rounds \<Longrightarrow>
    \<exists>J. idom_loop rounds cfg (index_of order) n order I = Some J \<and> exact_tree cfg J"
proof (induction rounds arbitrary: s I)
  case (Suc rounds)
  obtain I' c where sw: "sweep cfg (index_of order) n order (I, False) = Some (I', c)" "sweep_inv cfg (Suc s) 0 I'"
    "\<not> c \<longrightarrow> I' = I" "exact_tree cfg I \<longrightarrow> \<not> c"
    by (rule sweep_whole [OF assms Suc.prems(1)])
  show ?case
  proof (cases c)
    case False
    then have "sweep cfg (index_of order) n order (I, False) = Some (I, False)" using sw(1,3) by simp
    from stable_exact [OF assms Suc.prems(1) this] this show ?thesis by simp
  next
    case True
    then have "\<not> length order \<le> s" using sw(4) enough_sweeps [OF Suc.prems(1)] by blast
    then show ?thesis using Suc.IH [OF sw(2)] Suc.prems(2) sw(1) True by simp
  qed
qed simp

lemma init_sweep: "sweep_inv cfg 0 0 [entry_pc cfg \<mapsto> entry_pc cfg]"
  by (auto simp: sweep_inv_def tree_shape_def high_walks_def complete_tree_def exact_for_def level_def on_every_walk_entry)

lemma dominates_walk_anc:
  "tree_shape cfg I \<Longrightarrow> b \<in> dom I \<Longrightarrow> pos b < n \<Longrightarrow> a = b \<or> dominates_walk n I a b \<longleftrightarrow> anc I a b"
proof (induction n arbitrary: b)
  case (Suc n)
  show ?case
  proof (cases "b = entry_pc cfg")
    case True
    then show ?thesis using Suc.prems(1) anc_entry by (simp add: tree_shape_def)
  next
    case False
    then obtain d where d: "I b = Some d" "d \<noteq> b" "d \<in> dom I" "pos d < pos b" using tree_up Suc.prems by blast
    then show ?thesis
      using Suc.IH [OF Suc.prems(1) d(3)] Suc.prems(3) anc_some [where I = I, OF d(1,2), of a] by auto
  qed
qed simp

lemma compute_exact:
  "\<exists>I. idom_loop (length order + 2) cfg (index_of order) (2 * length order + 1) order [entry_pc cfg \<mapsto> entry_pc cfg] = Some I
     \<and> exact_tree cfg I"
  by (rule idom_loop_exact [OF _ init_sweep]) simp_all

lemma dominates_exact:
  "\<exists>t. compute cfg = Some t \<and> (\<forall>a b. dominates t a b \<longleftrightarrow> a = b \<or> reachable cfg b \<and> on_every_walk cfg a b)"
proof -
  obtain I where loop: "idom_loop (length order + 2) cfg (index_of order) (2 * length order + 1) order
      [entry_pc cfg \<mapsto> entry_pc cfg] = Some I" and ex: "exact_tree cfg I"
    using compute_exact by blast
  define t where "t = \<lparr>idom = I, children = children_of order I, rpo = order, rpo_index = index_of order, tree_entry = entry_pc cfg\<rparr>"
  have I: "tree_shape cfg I" "complete_tree cfg I" "\<And>c. c \<in> set order \<Longrightarrow> c \<in> dom I"
      "\<And>c a. c \<in> set order \<Longrightarrow> anc I a c \<Longrightarrow> on_every_walk cfg a c"
    using ex by (simp_all add: exact_tree_def)
  have "dominates t a b \<longleftrightarrow> a = b \<or> reachable cfg b \<and> on_every_walk cfg a b" for a b
  proof (cases "b \<in> dom I")
    case True
    then have b: "b \<in> insert (entry_pc cfg) (set order)" using tree_dom [OF I(1)] by simp
    have "dominates t a b \<longleftrightarrow> anc I a b"
      using dominates_walk_anc [OF I(1) True, of "length order + 1" a] position_le [OF order_shape(1), of b]
      by (simp add: dominates_def t_def)
    also have "\<dots> \<longleftrightarrow> on_every_walk cfg a b"
      using I(2,4) True b anc_entry [OF I(1)] on_every_walk_entry by (auto simp: complete_tree_def)
    finally have "dominates t a b \<longleftrightarrow> on_every_walk cfg a b" .
    moreover have "dominates t a b" if "a = b" using that by (simp add: dominates_def)
    ultimately show ?thesis using b reachable_iff by blast
  next
    case False
    then have "\<not> reachable cfg b" using reachable_iff [of b] I(3) [of b] tree_entry [OF I(1)] by auto
    moreover have "I b = None" using False by auto
    ultimately show ?thesis by (simp add: dominates_def t_def)
  qed
  moreover have "compute cfg = Some t" using loop by (simp add: compute_def Let_def t_def)
  ultimately show ?thesis by blast
qed

end


section \<open>Properties\<close>

text \<open>C4: the dominator tree is computed for the graph of every program, whatever order the hash map has: the
  iteration stops, and \<open>dominates\<close> answers that \<open>a\<close> dominates \<open>b\<close> exactly when \<open>a\<close> is \<open>b\<close> or every walk
  from the entry to the reachable block \<open>b\<close> goes through \<open>a\<close>.\<close>

theorem dominator_tree_exact:
  "\<exists>t. compute (reorder (build p) bs) = Some t \<and>
     (\<forall>a b. dominates t a b \<longleftrightarrow>
        a = b \<or> reachable (reorder (build p) bs) b \<and> on_every_walk (reorder (build p) bs) a b)"
  by (rule reordered.dominates_exact)

end
