(* ===== verification/Structuring.thy ===== *)
theory Structuring
  imports Dominators_Correct
begin

text \<open>
  Structural analysis (\<open>src/structuring/mod.rs\<close>, \<open>src/structuring/analysis.rs\<close>): branch conditions,
  strongly connected components, natural loops, two-way branches and switches.

  A \<open>HashSet\<close> is a set; where the code iterates over one, the result does not depend on the order.
  Iterating over the \<open>HashMap\<close> of blocks is iterating over \<open>blocks cfg\<close>, in whatever order it has. A
  \<open>Vec\<close> used as a stack is a list whose head is the top, a \<open>VecDeque\<close> used as a queue a list whose head
  is the front. Every loop is a recursion with its termination proof.
\<close>

section \<open>Structures and conditions\<close>

datatype cond_op = CEq | CNe | CLtS | CLeS | CGeS | CGtS | CLeU | CGeU | CLtU | CGtU

datatype operand = OReg u8 | OImm i32

record condition =
  cond_op :: cond_op
  lhs :: operand
  rhs :: operand

datatype cf_structure
  = Loop (loop_header: usize) (loop_latch: usize) (loop_body: "usize set") (loop_condition: "condition option")
  | IfThenElse usize "usize list" "usize list" "usize option" "condition option"
    \<comment> \<open>header, then blocks, else blocks, join, condition\<close>
  | Switch usize u8 "(u32 list \<times> usize) list" bool \<comment> \<open>header, reg, cases, is dispatch\<close>

record structural_analysis =
  structures :: "cf_structure list"
  dom_tree :: dominator_tree

primrec imm_cond_op :: "branch_imm_op \<Rightarrow> cond_op" where
  "imm_cond_op BranchEqImm = CEq"
| "imm_cond_op BranchNeImm = CNe"
| "imm_cond_op BranchLtSImm = CLtS"
| "imm_cond_op BranchLeSImm = CLeS"
| "imm_cond_op BranchGeSImm = CGeS"
| "imm_cond_op BranchGtSImm = CGtS"
| "imm_cond_op BranchLeUImm = CLeU"
| "imm_cond_op BranchGeUImm = CGeU"
| "imm_cond_op BranchLtUImm = CLtU"
| "imm_cond_op BranchGtUImm = CGtU"

text \<open>A branch on two registers compares the second with the first.\<close>

primrec reg_cond_op :: "branch_reg_op \<Rightarrow> cond_op" where
  "reg_cond_op BranchEq = CEq"
| "reg_cond_op BranchNe = CNe"
| "reg_cond_op BranchLtS = CLtS"
| "reg_cond_op BranchGeS = CGeS"
| "reg_cond_op BranchGeU = CGeU"
| "reg_cond_op BranchLtU = CLtU"

definition extract_condition :: "instruction \<Rightarrow> condition option" where
  "extract_condition instr = (case instr of
      BranchImm opc reg v _ \<Rightarrow> Some \<lparr>cond_op = imm_cond_op opc, lhs = OReg reg, rhs = OImm v\<rparr>
    | BranchReg opc reg1 reg2 _ \<Rightarrow> Some \<lparr>cond_op = reg_cond_op opc, lhs = OReg reg2, rhs = OReg reg1\<rparr>
    | _ \<Rightarrow> None)"


section \<open>Strongly connected components\<close>

text \<open>The sorted adjacency lists, keyed by block.\<close>

definition adjacency_index :: "(basic_block \<Rightarrow> usize list) \<Rightarrow> control_flow_graph \<Rightarrow> (usize \<times> usize list) list" where
  "adjacency_index edges cfg = map (\<lambda>node. (node,
     sort (case get_block cfg node of Some b \<Rightarrow> edges b | None \<Rightarrow> []))) (sort (map fst (blocks cfg)))"

definition adjacent :: "(usize \<times> usize list) list \<Rightarrow> usize \<Rightarrow> usize list" where
  "adjacent idx node = (case map_of idx node of Some ns \<Rightarrow> ns | None \<Rightarrow> [])"

definition index_targets :: "(usize \<times> usize list) list \<Rightarrow> usize set" where
  "index_targets idx = (\<Union>(_, ns) \<in> set idx. set ns)"

lemma index_targets_finite [simp]: "finite (index_targets idx)"
  by (auto simp: index_targets_def)

lemma adjacent_target: "t \<in> set (adjacent idx s) \<Longrightarrow> t \<in> index_targets idx"
  by (cases "map_of idx s") (auto simp: adjacent_def index_targets_def dest: map_of_SomeD)

text \<open>First pass: the order in which a depth-first search finishes the blocks.\<close>

function finish_loop :: "(usize \<times> usize list) list \<Rightarrow> (usize \<times> nat) list \<Rightarrow> usize set \<Rightarrow> usize list \<Rightarrow> usize set \<times> usize list" where
  "finish_loop idx [] visited finish_order = (visited, finish_order)"
| "finish_loop idx ((node, i) # stack) visited finish_order =
     (let succs = adjacent idx node in
      if i < length succs then
        (let succ = succs ! i in
         if succ \<notin> visited then finish_loop idx ((succ, 0) # (node, i + 1) # stack) (insert succ visited) finish_order
         else finish_loop idx ((node, i + 1) # stack) visited finish_order)
      else finish_loop idx stack visited (finish_order @ [node]))"
  by pat_completeness auto

termination finish_loop
proof (relation "measures [\<lambda>(idx, stack, visited, finish). card (index_targets idx - visited),
    \<lambda>(idx, stack, visited, finish). \<Sum>(node, i) \<leftarrow> stack. Suc (length (adjacent idx node) - i)]", goal_cases)
  case (2 idx node i stack visited finish succs succ)
  then have "succ \<in> index_targets idx - visited" by (auto intro: adjacent_target nth_mem)
  then have "card (index_targets idx - insert succ visited) < card (index_targets idx - visited)"
    by (intro psubset_card_mono) auto
  then show ?case by simp
qed auto

definition finish_from :: "(usize \<times> usize list) list \<Rightarrow> usize \<Rightarrow> usize set \<times> usize list \<Rightarrow> usize set \<times> usize list" where
  "finish_from idx start acc =
     (let (visited, finish_order) = acc in
      if start \<in> visited then (visited, finish_order)
      else finish_loop idx [(start, 0)] (insert start visited) finish_order)"

text \<open>Second pass: what a search along the reversed edges finds before it meets an assigned block.\<close>

definition push_unassigned :: "usize \<Rightarrow> usize list \<times> usize set \<Rightarrow> usize list \<times> usize set" where
  "push_unassigned pred acc =
     (let (stack, assigned) = acc in
      if pred \<notin> assigned then (pred # stack, insert pred assigned) else (stack, assigned))"

lemma push_unassigned_fold:
  "\<exists>new. fold push_unassigned ps (stack, assigned) = (new @ stack, set new \<union> assigned) \<and>
     set new = set ps - assigned \<and> distinct new"
proof (induction ps arbitrary: stack assigned)
  case (Cons p ps)
  show ?case
  proof (cases "p \<in> assigned")
    case True
    then show ?thesis using Cons.IH [of stack assigned] by (auto simp: push_unassigned_def)
  next
    case False
    obtain new where new: "fold push_unassigned ps (p # stack, insert p assigned) = (new @ p # stack, set new \<union> insert p assigned)"
        "set new = set ps - insert p assigned" "distinct new" using Cons.IH by blast
    have "fold push_unassigned (p # ps) (stack, assigned) = ((new @ [p]) @ stack, set (new @ [p]) \<union> assigned)"
      using new(1) False by (simp add: push_unassigned_def insert_commute)
    then show ?thesis using new(2,3) False by (intro exI [of _ "new @ [p]"]) auto
  qed
qed simp

function component_loop :: "(usize \<times> usize list) list \<Rightarrow> usize list \<Rightarrow> usize set \<Rightarrow> usize set \<Rightarrow> usize set \<times> usize set" where
  "component_loop idx [] assigned component = (assigned, component)"
| "component_loop idx (node # stack) assigned component =
     (let (stack, assigned) = fold push_unassigned (adjacent idx node) (stack, assigned)
      in component_loop idx stack assigned (insert node component))"
  by pat_completeness auto

termination component_loop
proof (relation "measures [\<lambda>(idx, stack, assigned, component). card (index_targets idx - assigned),
    \<lambda>(idx, stack, assigned, component). length stack]", goal_cases)
  case (2 idx node stack assigned component x stack' assigned')
  obtain new where new: "(stack', assigned') = (new @ stack, set new \<union> assigned)"
      "set new = set (adjacent idx node) - assigned"
    using push_unassigned_fold [of "adjacent idx node" stack assigned] 2 by metis
  show ?case
  proof (cases "new = []")
    case False
    then obtain n where "n \<in> set new" by (cases new) auto
    then have "n \<in> index_targets idx - assigned" "n \<in> assigned'" using new by (auto intro: adjacent_target)
    moreover have "assigned \<subseteq> assigned'" using new by auto
    ultimately have "card (index_targets idx - assigned') < card (index_targets idx - assigned)"
      by (intro psubset_card_mono) auto
    then show ?thesis by simp
  qed (use new in simp)
qed simp

definition component_from ::
  "(usize \<times> usize list) list \<Rightarrow> usize \<Rightarrow> usize set \<times> usize set list \<Rightarrow> usize set \<times> usize set list" where
  "component_from idx start acc =
     (let (assigned, sccs) = acc in
      if start \<in> assigned then (assigned, sccs)
      else let (assigned, component) = component_loop idx [start] (insert start assigned) {}
           in (assigned, sccs @ [component]))"

definition usize_max :: usize where
  "usize_max = 2 ^ 64 - 1"

definition finish_order :: "control_flow_graph \<Rightarrow> usize list" where
  "finish_order cfg = snd (fold (finish_from (adjacency_index successors cfg)) (sort (map fst (blocks cfg))) ({}, []))"

definition compute_sccs :: "control_flow_graph \<Rightarrow> usize set list" where
  "compute_sccs cfg =
     sort_key (\<lambda>scc. if scc = {} then usize_max else Min scc)
       (snd (fold (component_from (adjacency_index predecessors cfg)) (rev (finish_order cfg)) ({}, [])))"

definition collect_dispatch_scc_blocks :: "cf_structure list \<Rightarrow> usize set list \<Rightarrow> usize set" where
  "collect_dispatch_scc_blocks switches sccs =
     (let dispatch_headers = set (concat (map (\<lambda>s. case s of Switch header _ _ True \<Rightarrow> [header] | _ \<Rightarrow> []) switches))
      in if dispatch_headers = {} then {}
         else fold (\<lambda>scc bs. if \<exists>b \<in> scc. b \<in> dispatch_headers then bs \<union> scc else bs) sccs {})"

text \<open>The blocks of a region that have a predecessor outside.\<close>

definition entry_nodes :: "control_flow_graph \<Rightarrow> usize set \<Rightarrow> usize set" where
  "entry_nodes cfg region = Set.filter (\<lambda>node. case get_block cfg node of
      Some block \<Rightarrow> list_ex (\<lambda>pred. pred \<notin> region) (predecessors block) | None \<Rightarrow> False) region"

definition collect_irreducible_scc_blocks :: "control_flow_graph \<Rightarrow> usize set list \<Rightarrow> usize set" where
  "collect_irreducible_scc_blocks cfg sccs =
     fold (\<lambda>scc bs. if card scc \<le> 1 then bs
                    else if card (entry_nodes cfg scc) > 1 then bs \<union> scc else bs) sccs {}"


section \<open>Loops\<close>

definition source_nodes :: "control_flow_graph \<Rightarrow> usize set" where
  "source_nodes cfg = (\<Union>(_, b) \<in> set (blocks cfg). set (predecessors b))"

lemma source_nodes_finite [simp]: "finite (source_nodes cfg)"
  by (auto simp: source_nodes_def)

lemma cfg_preds_source: "t \<in> set (cfg_preds cfg s) \<Longrightarrow> t \<in> source_nodes cfg"
  by (erule cfg_predsE) (auto simp: source_nodes_def get_block_def dest!: map_of_SomeD)

function body_loop :: "control_flow_graph \<Rightarrow> usize list \<Rightarrow> usize set \<Rightarrow> usize set" where
  "body_loop cfg [] body = body"
| "body_loop cfg (node # stack) body =
     (if node \<notin> body then
        let body = insert node body
        in body_loop cfg (fold (\<lambda>pred st. if pred \<notin> body then pred # st else st) (cfg_preds cfg node) stack) body
      else body_loop cfg stack body)"
  by pat_completeness auto

lemma push_new_set:
  "set (fold (\<lambda>pred st. if pred \<notin> body then pred # st else st) ps stack) = set stack \<union> (set ps - body)"
  by (induction ps arbitrary: stack) auto

termination body_loop
proof (relation "measures [\<lambda>(cfg, stack, body). card ((source_nodes cfg \<union> set stack) - body),
    \<lambda>(cfg, stack, body). length stack]", goal_cases)
  case (2 cfg node stack body x)
  let ?st = "fold (\<lambda>pred st. if pred \<notin> x then pred # st else st) (cfg_preds cfg node) stack"
  have "set ?st \<subseteq> set stack \<union> source_nodes cfg"
    unfolding push_new_set using cfg_preds_source by blast
  then have "(source_nodes cfg \<union> set ?st) - x \<subset> (source_nodes cfg \<union> set (node # stack)) - body"
    using 2 by auto
  then have "card ((source_nodes cfg \<union> set ?st) - x) < card ((source_nodes cfg \<union> set (node # stack)) - body)"
    by (intro psubset_card_mono) auto
  then show ?case by simp
next
  case (3 cfg node stack body)
  have "(source_nodes cfg \<union> set stack) - body = (source_nodes cfg \<union> set (node # stack)) - body"
    using 3 by auto
  then show ?case by simp
qed simp

definition collect_loop_body :: "control_flow_graph \<Rightarrow> usize \<Rightarrow> usize \<Rightarrow> usize set" where
  "collect_loop_body cfg header latch =
     (if header = latch then {header} else body_loop cfg [latch] {header})"

definition is_reducible_loop_region :: "control_flow_graph \<Rightarrow> dominator_tree \<Rightarrow> usize \<Rightarrow> usize set \<Rightarrow> bool" where
  "is_reducible_loop_region cfg t header body =
     (if body = {} \<or> header \<notin> body then False
      else if \<exists>n \<in> body. \<not> dominates t header n then False
      else let entries = entry_nodes cfg body in
        if header = entry_pc cfg \<and> entries = {} then True
        else card entries = 1 \<and> header \<in> entries)"

definition terminator_condition :: "control_flow_graph \<Rightarrow> usize \<Rightarrow> condition option" where
  "terminator_condition cfg pc = (case get_block cfg pc of
      None \<Rightarrow> None
    | Some b \<Rightarrow> if block_instrs b = [] then None else extract_condition (snd (last (block_instrs b))))"

text \<open>One edge of the double loop of \<open>detect_loops\<close>.\<close>

definition loop_of_edge :: "control_flow_graph \<Rightarrow> dominator_tree \<Rightarrow> usize set \<Rightarrow> basic_block \<Rightarrow> usize \<Rightarrow> cf_structure list" where
  "loop_of_edge cfg t dispatch block succ =
     (if dominates t succ (start_pc block) \<and> succ \<noteq> start_pc block
         \<or> (succ = start_pc block \<and> start_pc block \<in> set (predecessors block)) then
        let body = collect_loop_body cfg succ (start_pc block) in
        if \<not> is_reducible_loop_region cfg t succ body then []
        else if body \<subseteq> dispatch then []
        else [Loop succ (start_pc block) body (terminator_condition cfg succ)]
      else [])"

text \<open>\<open>dedup_by_key\<close> keeps the first of each run of elements with one key.\<close>

fun dedup_by_key :: "('a \<Rightarrow> 'k) \<Rightarrow> 'a list \<Rightarrow> 'a list" where
  "dedup_by_key f (x # y # zs) = (if f x = f y then dedup_by_key f (x # zs) else x # dedup_by_key f (y # zs))"
| "dedup_by_key f xs = xs"

definition header_key :: "cf_structure \<Rightarrow> usize" where
  "header_key s = (case s of Loop header _ _ _ \<Rightarrow> header | _ \<Rightarrow> 0)"

definition found_loops :: "control_flow_graph \<Rightarrow> dominator_tree \<Rightarrow> usize set \<Rightarrow> cf_structure list" where
  "found_loops cfg t dispatch =
     concat (map (\<lambda>(_, block). concat (map (loop_of_edge cfg t dispatch block) (successors block))) (blocks cfg))"

definition detect_loops :: "control_flow_graph \<Rightarrow> dominator_tree \<Rightarrow> usize set \<Rightarrow> cf_structure list" where
  "detect_loops cfg t dispatch = dedup_by_key header_key (sort_key header_key (found_loops cfg t dispatch))"


section \<open>Two-way branches\<close>

function reach_loop :: "control_flow_graph \<Rightarrow> usize \<Rightarrow> nat \<Rightarrow> (usize \<times> nat) list \<Rightarrow> usize set \<Rightarrow> usize set" where
  "reach_loop cfg stop max_depth [] reached = reached"
| "reach_loop cfg stop max_depth ((node, depth) # queue) reached =
     (if depth \<ge> max_depth then reach_loop cfg stop max_depth queue reached
      else let (queue, reached) = fold (\<lambda>s (queue, reached).
               if s \<noteq> stop \<and> s \<notin> reached then (queue @ [(s, depth + 1)], insert s reached) else (queue, reached))
             (cfg_succs cfg node) (queue, reached)
        in reach_loop cfg stop max_depth queue reached)"
  by pat_completeness auto

lemma reach_step_fold:
  "\<exists>new. fold (\<lambda>s (queue, reached).
       if s \<noteq> stop \<and> s \<notin> reached then (queue @ [(s, d)], insert s reached) else (queue, reached)) ss (queue, reached)
     = (queue @ map (\<lambda>s. (s, d)) new, reached \<union> set new) \<and> set new = set ss - {stop} - reached"
proof (induction ss arbitrary: queue reached)
  case (Cons s ss)
  show ?case
  proof (cases "s \<noteq> stop \<and> s \<notin> reached")
    case True
    obtain new where "fold (\<lambda>s (queue, reached).
       if s \<noteq> stop \<and> s \<notin> reached then (queue @ [(s, d)], insert s reached) else (queue, reached)) ss (queue @ [(s, d)], insert s reached)
     = ((queue @ [(s, d)]) @ map (\<lambda>s. (s, d)) new, insert s reached \<union> set new)" "set new = set ss - {stop} - insert s reached"
      using Cons.IH by blast
    then show ?thesis using True by (intro exI [of _ "s # new"]) auto
  next
    case False
    then have "set (s # ss) - {stop} - reached = set ss - {stop} - reached" by auto
    then show ?thesis using Cons.IH [of queue reached] False by auto
  qed
qed simp

termination reach_loop
proof (relation "measures [\<lambda>(cfg, stop, m, queue, reached). card (edge_targets cfg - reached),
    \<lambda>(cfg, stop, m, queue, reached). length queue]", goal_cases)
  case (3 cfg stop m node depth queue reached x queue' reached')
  obtain new where new: "(queue', reached') = (queue @ map (\<lambda>s. (s, depth + 1)) new, reached \<union> set new)"
      "set new = set (cfg_succs cfg node) - {stop} - reached"
    using reach_step_fold [of stop "depth + 1" "cfg_succs cfg node" queue reached] 3 by metis
  show ?case
  proof (cases "new = []")
    case False
    then obtain n where "n \<in> set new" by (cases new) auto
    then have "n \<in> edge_targets cfg - reached" "n \<in> reached'" using new by (auto intro: cfg_succs_target)
    moreover have "reached \<subseteq> reached'" using new by auto
    ultimately have "card (edge_targets cfg - reached') < card (edge_targets cfg - reached)"
      by (intro psubset_card_mono) auto
    then show ?thesis by simp
  qed (use new in simp)
qed auto

definition forward_reachable :: "control_flow_graph \<Rightarrow> usize \<Rightarrow> usize \<Rightarrow> nat \<Rightarrow> usize set" where
  "forward_reachable cfg start stop max_depth = reach_loop cfg stop max_depth [(start, 0)] {start}"

function join_loop ::
  "control_flow_graph \<Rightarrow> dominator_tree \<Rightarrow> usize set \<Rightarrow> usize \<Rightarrow> usize \<Rightarrow> usize list \<Rightarrow> usize set \<Rightarrow> usize option" where
  "join_loop cfg t reachable_a succ_a header [] visited = None"
| "join_loop cfg t reachable_a succ_a header (node # queue) visited =
     (if node \<in> visited then join_loop cfg t reachable_a succ_a header queue visited
      else let visited = insert node visited in
      if node \<in> reachable_a \<and> node \<noteq> succ_a then Some node
      else join_loop cfg t reachable_a succ_a header
        (queue @ filter (\<lambda>s. s \<notin> visited \<and> \<not> dominates t s header) (cfg_succs cfg node)) visited)"
  by pat_completeness auto

termination join_loop
proof (relation "measures [\<lambda>(cfg, t, ra, a, h, queue, visited). card ((edge_targets cfg \<union> set queue) - visited),
    \<lambda>(cfg, t, ra, a, h, queue, visited). length queue]", goal_cases)
  case (2 cfg t ra a h node queue visited)
  have "(edge_targets cfg \<union> set queue) - visited = (edge_targets cfg \<union> set (node # queue)) - visited"
    using 2 by auto
  then show ?case by simp
next
  case (3 cfg t ra a h node queue visited x)
  let ?q = "queue @ filter (\<lambda>s. s \<notin> x \<and> \<not> dominates t s h) (cfg_succs cfg node)"
  have "set ?q \<subseteq> set queue \<union> edge_targets cfg" using cfg_succs_target by auto
  then have "(edge_targets cfg \<union> set ?q) - x \<subset> (edge_targets cfg \<union> set (node # queue)) - visited"
    using 3 by auto
  then have "card ((edge_targets cfg \<union> set ?q) - x) < card ((edge_targets cfg \<union> set (node # queue)) - visited)"
    by (intro psubset_card_mono) auto
  then show ?case by simp
qed simp

definition find_join_point ::
  "control_flow_graph \<Rightarrow> usize \<Rightarrow> usize \<Rightarrow> usize \<Rightarrow> dominator_tree \<Rightarrow> usize option" where
  "find_join_point cfg succ_a succ_b header t =
     (let reachable_a = forward_reachable cfg succ_a header 20 in
      case join_loop cfg t reachable_a succ_a header [succ_b] {} of
        Some node \<Rightarrow> Some node
      | None \<Rightarrow> if succ_b \<in> reachable_a then Some succ_b else None)"

definition if_of_block :: "control_flow_graph \<Rightarrow> dominator_tree \<Rightarrow> usize set \<Rightarrow> usize \<Rightarrow> cf_structure list" where
  "if_of_block cfg t excluded block_pc = (case get_block cfg block_pc of
      None \<Rightarrow> []
    | Some block \<Rightarrow>
        if length (successors block) \<noteq> 2 \<or> block_pc \<in> excluded then []
        else let then_entry = successors block ! 0; else_entry = successors block ! 1 in
        if dominates t then_entry block_pc \<or> dominates t else_entry block_pc then []
        else let join = find_join_point cfg then_entry else_entry block_pc t;
                 (then_blocks, else_blocks) =
                   (if Some then_entry = join then ([], [else_entry])
                    else if Some else_entry = join then ([then_entry], [])
                    else ([then_entry], [else_entry]))
        in [IfThenElse block_pc then_blocks else_blocks join (terminator_condition cfg block_pc)])"

definition detect_if_then_else :: "control_flow_graph \<Rightarrow> dominator_tree \<Rightarrow> usize set \<Rightarrow> cf_structure list" where
  "detect_if_then_else cfg t excluded = concat (map (if_of_block cfg t excluded) (rpo t))"


section \<open>Switches\<close>

text \<open>The cases are grouped by target and sorted by target, so the order of the hash map is irrelevant.\<close>

definition jump_table_cases :: "u32 list \<Rightarrow> (u32 list \<times> usize) list" where
  "jump_table_cases jt =
     (let target_cases = fold (\<lambda>(idx, target) m. m(target \<mapsto>
            (case m target of Some vs \<Rightarrow> vs | None \<Rightarrow> []) @ [of_nat idx])) (zip [0..<length jt] jt) Map.empty
      in map (\<lambda>target. (the (target_cases target), unat target)) (sort (remdups jt)))"

definition switch_of_block :: "decoded_program \<Rightarrow> usize set \<Rightarrow> basic_block \<Rightarrow> cf_structure list" where
  "switch_of_block p function_entry_pcs block =
     (if block_instrs block = [] then []
      else case snd (last (block_instrs block)) of
        JumpInd reg _ \<Rightarrow>
          if jump_table p = [] then []
          else [Switch (start_pc block) reg (jump_table_cases (jump_table p)) (function_entry_pcs \<noteq> {})]
      | _ \<Rightarrow> [])"

definition detect_switches :: "control_flow_graph \<Rightarrow> decoded_program \<Rightarrow> usize set \<Rightarrow> cf_structure list" where
  "detect_switches cfg p function_entry_pcs =
     concat (map (\<lambda>(_, block). switch_of_block p function_entry_pcs block) (blocks cfg))"


section \<open>The analysis\<close>

definition analyze_with_dom_tree ::
  "control_flow_graph \<Rightarrow> decoded_program \<Rightarrow> dominator_tree \<Rightarrow> usize set \<Rightarrow> structural_analysis" where
  "analyze_with_dom_tree cfg p t function_entry_pcs =
     (if blocks cfg = [] then \<lparr>structures = [], dom_tree = t\<rparr>
      else let sccs = compute_sccs cfg;
               switches = detect_switches cfg p function_entry_pcs;
               dispatch_scc_blocks = collect_dispatch_scc_blocks switches sccs;
               irreducible_scc_blocks = collect_irreducible_scc_blocks cfg sccs;
               loops = detect_loops cfg t dispatch_scc_blocks;
               loop_headers = set (concat (map (\<lambda>s. case s of Loop header _ _ _ \<Rightarrow> [header] | _ \<Rightarrow> []) loops));
               excluded_if_headers = loop_headers \<union> dispatch_scc_blocks \<union> irreducible_scc_blocks;
               ifs = detect_if_then_else cfg t excluded_if_headers
           in \<lparr>structures = loops @ ifs @ switches, dom_tree = t\<rparr>)"

text \<open>\<open>analyze\<close> computes its own dominator tree.\<close>

definition analyze_structure :: "control_flow_graph \<Rightarrow> decoded_program \<Rightarrow> structural_analysis option" where
  "analyze_structure cfg p = map_option (\<lambda>t. analyze_with_dom_tree cfg p t {}) (compute cfg)"

end
