(* ===== verification/Structuring_Correct.thy ===== *)
theory Structuring_Correct
  imports Structuring
begin

text \<open>
  Correctness of the structural analysis: the components are the strongly connected ones, loop bodies
  are natural loops, and what the detected loops, branches and switches promise about the graph.
\<close>

section \<open>Strongly connected components\<close>

abbreviation reaches :: "control_flow_graph \<Rightarrow> usize \<Rightarrow> usize \<Rightarrow> bool" where
  "reaches cfg \<equiv> (edge cfg)\<^sup>*\<^sup>*"

definition mutual :: "control_flow_graph \<Rightarrow> usize \<Rightarrow> usize \<Rightarrow> bool" where
  "mutual cfg u v \<longleftrightarrow> reaches cfg u v \<and> reaches cfg v u"

definition scc_of :: "control_flow_graph \<Rightarrow> usize \<Rightarrow> usize set" where
  "scc_of cfg s = {u. mutual cfg u s}"

lemma mutual_refl [simp]: "mutual cfg u u"
  by (simp add: mutual_def)

lemma mutual_sym: "mutual cfg u v \<Longrightarrow> mutual cfg v u"
  by (simp add: mutual_def)

lemma mutual_trans: "mutual cfg u v \<Longrightarrow> mutual cfg v w \<Longrightarrow> mutual cfg u w"
  by (auto simp: mutual_def)

lemma map_of_tabulate: "map_of (map (\<lambda>n. (n, g n)) xs) n = (if n \<in> set xs then Some (g n) else None)"
  by (induction xs) auto

lemma adjacent_index:
  "adjacent (adjacency_index f cfg) n = sort (case get_block cfg n of Some b \<Rightarrow> f b | None \<Rightarrow> [])"
proof (cases "n \<in> fst ` set (blocks cfg)")
  case False
  then have "get_block cfg n = None" by (simp add: get_block_def map_of_eq_None_iff)
  then show ?thesis using False by (simp add: adjacent_def adjacency_index_def map_of_tabulate)
qed (simp add: adjacent_def adjacency_index_def map_of_tabulate)

lemma adjacent_succs: "adjacent (adjacency_index successors cfg) n = sort (cfg_succs cfg n)"
  by (simp add: adjacent_index cfg_succs_def)

lemma adjacent_preds: "adjacent (adjacency_index predecessors cfg) n = sort (cfg_preds cfg n)"
  by (simp add: adjacent_index cfg_preds_def)

text \<open>A path that leaves a set of finished blocks does so through the border of the set.\<close>

lemma escape:
  "reaches cfg u v \<Longrightarrow> u \<in> F \<Longrightarrow> v \<notin> F \<Longrightarrow> (\<And>x. x \<in> F \<Longrightarrow> set (cfg_succs cfg x) \<subseteq> F \<union> S) \<Longrightarrow>
   \<exists>w \<in> S. reaches cfg u w"
proof (induction rule: converse_rtranclp_induct)
  case (step u u')
  then have "u' \<in> F \<union> S" by (auto simp: edge_def)
  then show ?case
  proof
    assume "u' \<in> F"
    with step show ?thesis by (meson converse_rtranclp_into_rtranclp)
  next
    assume "u' \<in> S"
    with step(1) show ?thesis by blast
  qed
qed simp

text \<open>The invariant of the first pass. The last two parts say that a finished block which reaches the
  stack is connected with a block of the stack, and that nothing reaches a finished block from a
  component that was already finished when it was.\<close>

definition finish_inv :: "control_flow_graph \<Rightarrow> (usize \<times> nat) list \<Rightarrow> usize set \<Rightarrow> usize list \<Rightarrow> bool" where
  "finish_inv cfg stack visited fin \<longleftrightarrow>
     visited = set fin \<union> fst ` set stack \<and> distinct (map fst stack @ fin) \<and>
     successively (\<lambda>x y. edge cfg (fst y) (fst x)) stack \<and>
     (\<forall>x \<in> set fin. set (cfg_succs cfg x) \<subseteq> visited) \<and>
     (\<forall>(n, i) \<in> set stack. set (take i (adjacent (adjacency_index successors cfg) n)) \<subseteq> visited) \<and>
     (\<forall>u \<in> set fin. \<forall>v \<in> fst ` set stack. reaches cfg u v \<longrightarrow> (\<exists>w \<in> fst ` set stack. mutual cfg w u)) \<and>
     (\<forall>xs s ys. fin = xs @ s # ys \<longrightarrow> (\<forall>u. reaches cfg u s \<longrightarrow> (\<exists>z. mutual cfg z u \<and> z \<notin> set xs)))"

lemma stack_reaches:
  "successively (\<lambda>x y. edge cfg (fst y) (fst x)) (x # stack) \<Longrightarrow> y \<in> set stack \<Longrightarrow> reaches cfg (fst y) (fst x)"
proof (induction stack arbitrary: x)
  case (Cons z stack)
  then have "edge cfg (fst z) (fst x)" by simp
  moreover have "reaches cfg (fst y) (fst z)" if "y \<noteq> z" using Cons that by auto
  ultimately show ?case by (cases "y = z") auto
qed simp

lemma finish_inv_pop:
  assumes inv: "finish_inv cfg ((s, i) # stack) visited fin"
    and finished: "\<not> i < length (adjacent (adjacency_index successors cfg) s)"
  shows "finish_inv cfg stack visited (fin @ [s])"
proof -
  have "set (take i (adjacent (adjacency_index successors cfg) s)) \<subseteq> visited"
    using inv unfolding finish_inv_def by auto
  then have succs: "set (cfg_succs cfg s) \<subseteq> visited" using finished by (simp add: adjacent_succs)
  have up: "reaches cfg v s" if "v \<in> fst ` set stack" for v
    using stack_reaches [of cfg "(s, i)" stack] inv that by (auto simp: finish_inv_def)
  have conn: "\<exists>w \<in> insert s (fst ` set stack). mutual cfg w u"
    if "u \<in> set fin" "v \<in> insert s (fst ` set stack)" "reaches cfg u v" for u v
    using inv that unfolding finish_inv_def by simp blast
  have old: "\<exists>z. mutual cfg z u \<and> z \<notin> set xs" if "fin = xs @ x # ys" "reaches cfg u x" for xs x ys u
    using inv that unfolding finish_inv_def by blast
  have border: "\<exists>w \<in> fst ` set stack. mutual cfg w u"
    if u: "u \<in> set (fin @ [s])" and v: "v \<in> fst ` set stack" "reaches cfg u v" for u v
  proof (cases "u = s")
    case True
    then show ?thesis using v up [OF v(1)] by (auto simp: mutual_def)
  next
    case False
    then obtain w where w: "w \<in> insert s (fst ` set stack)" "mutual cfg w u" using conn [of u v] u v by auto
    show ?thesis
    proof (cases "w = s")
      case True
      then have "reaches cfg s v" using w(2) v(2) by (auto simp: mutual_def)
      then have "mutual cfg v s" using up [OF v(1)] by (simp add: mutual_def)
      then show ?thesis using v(1) w(2) True mutual_trans by blast
    qed (use w in auto)
  qed
  have late: "\<exists>z. mutual cfg z u \<and> z \<notin> set xs" if split: "fin @ [s] = xs @ x # ys" and u: "reaches cfg u x" for xs x ys u
  proof (cases "ys = []")
    case True
    then have x: "x = s" "xs = fin" using split by auto
    have new: "w \<notin> set fin" if "w \<in> insert s (fst ` set stack)" for w
      using inv that by (auto simp: finish_inv_def)
    show ?thesis
    proof (cases "u \<in> set fin")
      case True
      then show ?thesis using conn [of u s] u x new by blast
    qed (use x in \<open>auto intro: exI [of _ u]\<close>)
  next
    case False
    then obtain ys' where "ys = ys' @ [s]" "fin = xs @ x # ys'"
      using split by (metis append_butlast_last_id butlast.simps(2) butlast_append butlast_snoc last_ConsR last_appendR last_snoc list.distinct(1))
    then show ?thesis using old u by blast
  qed
  show ?thesis
    unfolding finish_inv_def
  proof (intro conjI)
    show "\<forall>u \<in> set (fin @ [s]). \<forall>v \<in> fst ` set stack. reaches cfg u v \<longrightarrow> (\<exists>w \<in> fst ` set stack. mutual cfg w u)"
      using border by blast
    show "\<forall>xs x ys. fin @ [s] = xs @ x # ys \<longrightarrow> (\<forall>u. reaches cfg u x \<longrightarrow> (\<exists>z. mutual cfg z u \<and> z \<notin> set xs))"
      using late by blast
  qed (use inv succs in \<open>auto simp: finish_inv_def successively_Cons\<close>)
qed

lemma finish_inv_push:
  assumes inv: "finish_inv cfg stack visited fin" and new: "v \<notin> visited"
    and top: "stack \<noteq> [] \<Longrightarrow> edge cfg (fst (hd stack)) v"
  shows "finish_inv cfg ((v, 0) # stack) (insert v visited) fin"
proof -
  have "\<exists>w \<in> insert v (fst ` set stack). mutual cfg w u"
    if u: "u \<in> set fin" "x \<in> insert v (fst ` set stack)" "reaches cfg u x" for u x
  proof -
    obtain w where "w \<in> fst ` set stack" "reaches cfg u w"
    proof (cases "x = v")
      case True
      have "x' \<in> set fin \<Longrightarrow> set (cfg_succs cfg x') \<subseteq> set fin \<union> fst ` set stack" for x'
        using inv by (auto simp: finish_inv_def)
      moreover have "v \<notin> set fin" using inv new by (auto simp: finish_inv_def)
      ultimately show ?thesis using escape [of cfg u v "set fin" "fst ` set stack"] u True that by blast
    qed (use u that in auto)
    then show ?thesis using inv u(1) unfolding finish_inv_def by blast
  qed
  then have border: "\<forall>u \<in> set fin. \<forall>x \<in> fst ` set ((v, 0) # stack). reaches cfg u x \<longrightarrow>
      (\<exists>w \<in> fst ` set ((v, 0) # stack). mutual cfg w u)" by simp
  have late: "\<forall>xs s ys. fin = xs @ s # ys \<longrightarrow> (\<forall>u. reaches cfg u s \<longrightarrow> (\<exists>z. mutual cfg z u \<and> z \<notin> set xs))"
    using inv unfolding finish_inv_def by blast
  show ?thesis
    unfolding finish_inv_def
  proof (intro conjI)
    show "successively (\<lambda>x y. edge cfg (fst y) (fst x)) ((v, 0) # stack)"
      using inv top by (cases stack) (auto simp: finish_inv_def)
  qed (use inv new border late in \<open>auto simp: finish_inv_def\<close>)
qed

lemma finish_inv_next:
  assumes "finish_inv cfg ((n, i) # stack) visited fin" "i < length (adjacent (adjacency_index successors cfg) n)"
    and "adjacent (adjacency_index successors cfg) n ! i \<in> visited"
  shows "finish_inv cfg ((n, i + 1) # stack) visited fin"
  using assms by (auto simp: finish_inv_def take_Suc_conv_app_nth successively_Cons)

lemma finish_inv_index:
  assumes "finish_inv cfg (t # (n, i) # stack) V fin" "set (take j (adjacent (adjacency_index successors cfg) n)) \<subseteq> V"
  shows "finish_inv cfg (t # (n, j) # stack) V fin"
  using assms unfolding finish_inv_def
  by (elim conjE, intro conjI) (simp_all add: successively_Cons)

lemma finish_inv_step:
  assumes "finish_inv cfg ((n, i) # stack) visited fin" "i < length (adjacent (adjacency_index successors cfg) n)"
    and "adjacent (adjacency_index successors cfg) n ! i \<notin> visited"
  shows "finish_inv cfg ((adjacent (adjacency_index successors cfg) n ! i, 0) # (n, i + 1) # stack)
    (insert (adjacent (adjacency_index successors cfg) n ! i) visited) fin"
proof -
  let ?v = "adjacent (adjacency_index successors cfg) n ! i"
  have "?v \<in> set (cfg_succs cfg n)" using nth_mem [OF assms(2)] by (simp add: adjacent_succs)
  then have "edge cfg n ?v" by (simp add: edge_def)
  then have 1: "finish_inv cfg ((?v, 0) # (n, i) # stack) (insert ?v visited) fin"
    using finish_inv_push [OF assms(1,3)] by simp
  have tk: "set (take (i + 1) (adjacent (adjacency_index successors cfg) n)) \<subseteq> insert ?v visited"
    using assms(1,2) by (auto simp: finish_inv_def take_Suc_conv_app_nth)
  show ?thesis by (rule finish_inv_index [OF 1 tk])
qed

lemma finish_loop_inv:
  "finish_inv cfg stack visited fin \<Longrightarrow> visited \<subseteq> N \<Longrightarrow> edge_targets cfg \<subseteq> N \<Longrightarrow>
   finish_loop (adjacency_index successors cfg) stack visited fin = (v, f) \<Longrightarrow>
   finish_inv cfg [] v f \<and> visited \<subseteq> v \<and> v \<subseteq> N"
proof (induction "adjacency_index successors cfg" stack visited fin rule: finish_loop.induct)
  case (2 n i stack visited fin)
  let ?adj = "adjacent (adjacency_index successors cfg) n"
  show ?case
  proof (cases "i < length ?adj")
    case False
    then show ?thesis using 2(3) [OF refl False finish_inv_pop [OF 2(4) False]] 2(5-7) by simp
  next
    case True
    show ?thesis
    proof (cases "?adj ! i \<in> visited")
      case vis: True
      have "\<not> ?adj ! i \<notin> visited" using vis by simp
      from 2(2) [OF refl True refl this finish_inv_next [OF 2(4) True vis]] 2(5-7) True vis show ?thesis by simp
    next
      case False
      have "?adj ! i \<in> N" using nth_mem [OF True] cfg_succs_target 2(6) by (auto simp: adjacent_succs)
      then show ?thesis
        using 2(1) [OF refl True refl False finish_inv_step [OF 2(4) True False]] 2(5-7) True False by (simp add: Let_def)
    qed
  qed
qed simp

lemma finish_fold_inv:
  "finish_inv cfg [] visited fin \<Longrightarrow> visited \<union> set starts \<subseteq> N \<Longrightarrow> edge_targets cfg \<subseteq> N \<Longrightarrow>
   fold (finish_from (adjacency_index successors cfg)) starts (visited, fin) = (v, f) \<Longrightarrow>
   finish_inv cfg [] v f \<and> visited \<union> set starts \<subseteq> v \<and> v \<subseteq> N"
proof (induction starts arbitrary: visited fin)
  case (Cons s ss)
  obtain v1 f1 where 1: "finish_from (adjacency_index successors cfg) s (visited, fin) = (v1, f1)"
    by (cases "finish_from (adjacency_index successors cfg) s (visited, fin)")
  have "finish_inv cfg [] v1 f1 \<and> insert s visited \<subseteq> v1 \<and> v1 \<subseteq> N"
  proof (cases "s \<in> visited")
    case True
    then show ?thesis using 1 Cons.prems by (auto simp: finish_from_def)
  next
    case False
    have "finish_inv cfg [(s, 0)] (insert s visited) fin" by (rule finish_inv_push [OF Cons.prems(1) False]) simp
    then show ?thesis
      using finish_loop_inv [of cfg "[(s, 0)]" "insert s visited" fin N v1 f1] 1 False Cons.prems
      by (auto simp: finish_from_def)
  qed
  then show ?case using Cons.IH [of v1 f1] Cons.prems 1 by auto
qed simp

context flow_graph
begin

lemma finish_order_shape:
  "set (finish_order cfg) = cfg_nodes cfg" "distinct (finish_order cfg)"
  "finish_order cfg = xs @ s # ys \<Longrightarrow> reaches cfg u s \<Longrightarrow> \<exists>z. mutual cfg z u \<and> z \<notin> set xs"
proof -
  obtain v f where vf: "fold (finish_from (adjacency_index successors cfg)) (sort (map fst (blocks cfg))) ({}, []) = (v, f)"
    by (cases "fold (finish_from (adjacency_index successors cfg)) (sort (map fst (blocks cfg))) ({}, [])")
  have "finish_inv cfg [] {} []" by (simp add: finish_inv_def)
  from finish_fold_inv [OF this _ edge_targets_nodes vf]
  have f: "finish_inv cfg [] v f" "cfg_nodes cfg \<subseteq> v" "v \<subseteq> cfg_nodes cfg" by (auto simp: cfg_nodes_def)
  moreover have "v = set f" using f(1) by (simp add: finish_inv_def)
  moreover have eq: "finish_order cfg = f" using vf by (simp add: finish_order_def)
  ultimately show "set (finish_order cfg) = cfg_nodes cfg" "distinct (finish_order cfg)"
    by (auto simp: finish_inv_def)
  show "\<exists>z. mutual cfg z u \<and> z \<notin> set xs" if "finish_order cfg = xs @ s # ys" "reaches cfg u s"
    using f(1) that unfolding finish_inv_def eq by blast
qed

lemma component_loop_result:
  "component_loop (adjacency_index predecessors cfg) stack assigned got = (A, C) \<Longrightarrow>
   assigned = A0 \<union> got \<union> set stack \<Longrightarrow> (got \<union> set stack) \<inter> A0 = {} \<Longrightarrow>
   (\<And>n. n \<in> got \<Longrightarrow> set (cfg_preds cfg n) \<subseteq> assigned) \<Longrightarrow> (\<And>n. n \<in> got \<union> set stack \<Longrightarrow> reaches cfg n s) \<Longrightarrow>
   A = A0 \<union> C \<and> C \<inter> A0 = {} \<and> got \<union> set stack \<subseteq> C \<and> (\<forall>n \<in> C. reaches cfg n s \<and> set (cfg_preds cfg n) \<subseteq> A)"
proof (induction "adjacency_index predecessors cfg" stack assigned got rule: component_loop.induct)
  case (2 node stack assigned got)
  let ?ps = "adjacent (adjacency_index predecessors cfg) node"
  obtain new where new: "fold push_unassigned ?ps (stack, assigned) = (new @ stack, set new \<union> assigned)"
      "set new = set ?ps - assigned"
    using push_unassigned_fold by blast
  have preds: "set ?ps = set (cfg_preds cfg node)" by (simp add: adjacent_preds)
  have node: "reaches cfg node s" using 2(6) by simp
  have up: "reaches cfg n s" if "n \<in> set new" for n
  proof -
    have "edge cfg n node" using that new(2) preds pred_edge by auto
    then show ?thesis using node by (rule converse_rtranclp_into_rtranclp)
  qed
  have "A = A0 \<union> C \<and> C \<inter> A0 = {} \<and> insert node got \<union> set (new @ stack) \<subseteq> C \<and>
      (\<forall>n \<in> C. reaches cfg n s \<and> set (cfg_preds cfg n) \<subseteq> A)"
  proof (rule 2(1) [OF new(1) [symmetric] refl])
    show "component_loop (adjacency_index predecessors cfg) (new @ stack) (set new \<union> assigned) (insert node got) = (A, C)"
      using 2(2) new(1) by simp
    show "set new \<union> assigned = A0 \<union> insert node got \<union> set (new @ stack)" using 2(3) by auto
    show "(insert node got \<union> set (new @ stack)) \<inter> A0 = {}" using 2(3,4) new(2) by auto
    show "set (cfg_preds cfg n) \<subseteq> set new \<union> assigned" if "n \<in> insert node got" for n
      using that 2(5) new(2) preds by auto
    show "reaches cfg n s" if "n \<in> insert node got \<union> set (new @ stack)" for n
      using that 2(6) up by auto
  qed
  then show ?case by auto
qed auto

lemma component_from_result:
  assumes fin: "finish_order cfg = xs @ s # ys" and closed: "\<And>u v. u \<in> A0 \<Longrightarrow> mutual cfg v u \<Longrightarrow> v \<in> A0"
    and later: "set ys \<subseteq> A0" and s: "s \<notin> A0"
  shows "component_loop (adjacency_index predecessors cfg) [s] (insert s A0) {} = (A0 \<union> scc_of cfg s, scc_of cfg s)"
proof -
  obtain A C where run: "component_loop (adjacency_index predecessors cfg) [s] (insert s A0) {} = (A, C)"
    by (cases "component_loop (adjacency_index predecessors cfg) [s] (insert s A0) {}")
  have "A = A0 \<union> C \<and> C \<inter> A0 = {} \<and> {} \<union> set [s] \<subseteq> C \<and> (\<forall>n \<in> C. reaches cfg n s \<and> set (cfg_preds cfg n) \<subseteq> A)"
    by (rule component_loop_result [OF run]) (use s in auto)
  then have C: "A = A0 \<union> C" "C \<inter> A0 = {}" "s \<in> C" "\<And>n. n \<in> C \<Longrightarrow> reaches cfg n s"
      "\<And>n p. n \<in> C \<Longrightarrow> edge cfg p n \<Longrightarrow> p \<in> A"
    using edge_pred by (simp_all, blast)
  have "C = scc_of cfg s"
  proof
    show "C \<subseteq> scc_of cfg s"
    proof
      fix u
      assume u: "u \<in> C"
      obtain z where z: "mutual cfg z u" "z \<notin> set xs" using finish_order_shape(3) [OF fin C(4) [OF u]] by blast
      have "s \<in> cfg_nodes cfg" using finish_order_shape(1) fin by auto
      moreover have "reaches cfg z s" using z(1) C(4) [OF u] by (auto simp: mutual_def)
      ultimately have "z \<in> cfg_nodes cfg" using succs_source by (auto simp: edge_def elim: converse_rtranclpE)
      then have "z = s \<or> z \<in> A0" using z(2) fin later finish_order_shape(1) by auto
      moreover have "z \<notin> A0" using closed [OF _ mutual_sym [OF z(1)]] u C(2) by blast
      ultimately show "u \<in> scc_of cfg s" using z(1) mutual_sym by (auto simp: scc_of_def)
    qed
    show "scc_of cfg s \<subseteq> C"
    proof
      fix u
      assume "u \<in> scc_of cfg s"
      then have "reaches cfg u s" "reaches cfg s u" by (simp_all add: scc_of_def mutual_def)
      then show "u \<in> C"
      proof (induction rule: converse_rtranclp_induct)
        case (step u u')
        then have u': "u' \<in> C" by (meson rtranclp.rtrancl_into_rtrancl)
        then have "u \<in> A" using C(5) step(1) by blast
        moreover have "mutual cfg s u" using step by (auto simp: mutual_def)
        then have "u \<notin> A0" using closed s by blast
        ultimately show ?case using C(1) by simp
      qed (rule C(3))
    qed
  qed
  then show ?thesis using run C(1) by simp
qed

lemma components_fold:
  "rev (finish_order cfg) = past @ rest \<Longrightarrow> A0 = \<Union> (set sccs) \<Longrightarrow> set past \<subseteq> A0 \<Longrightarrow>
   set sccs = scc_of cfg ` set past \<Longrightarrow> distinct sccs \<Longrightarrow>
   fold (component_from (adjacency_index predecessors cfg)) rest (A0, sccs) = (A, Cs) \<Longrightarrow>
   set Cs = scc_of cfg ` cfg_nodes cfg \<and> distinct Cs"
proof (induction rest arbitrary: past A0 sccs)
  case Nil
  then have "set past = cfg_nodes cfg" using finish_order_shape(1) by (metis append_Nil2 set_rev)
  then show ?case using Nil by simp
next
  case (Cons s rest)
  have closed: "v \<in> A0" if "u \<in> A0" "mutual cfg v u" for u v
    using that Cons.prems(2,4) mutual_trans by (fastforce simp: scc_of_def)
  show ?case
  proof (cases "s \<in> A0")
    case True
    then obtain x where x: "x \<in> set past" "mutual cfg s x" using Cons.prems(2,4) by (auto simp: scc_of_def)
    then have "scc_of cfg s = scc_of cfg x" using mutual_sym mutual_trans unfolding scc_of_def by blast
    then show ?thesis
      using Cons.IH [of "past @ [s]" A0 sccs] Cons.prems True x(1) by (simp add: component_from_def insert_absorb)
  next
    case False
    have fin: "finish_order cfg = rev rest @ s # rev past" using Cons.prems(1) by (simp add: rev_swap)
    have step: "component_from (adjacency_index predecessors cfg) s (A0, sccs) = (A0 \<union> scc_of cfg s, sccs @ [scc_of cfg s])"
      using component_from_result [OF fin closed] Cons.prems(3) False by (simp add: component_from_def)
    have "s \<in> scc_of cfg s" by (simp add: scc_of_def)
    then have "scc_of cfg s \<notin> set sccs" using False Cons.prems(2) by auto
    then show ?thesis
      using Cons.prems step \<open>s \<in> scc_of cfg s\<close>
      by (intro Cons.IH [of "past @ [s]" "A0 \<union> scc_of cfg s" "sccs @ [scc_of cfg s]"]) auto
  qed
qed

lemma scc_nonempty: "C \<in> scc_of cfg ` N \<Longrightarrow> C \<noteq> {}"
  by (auto simp: scc_of_def intro: mutual_refl)

lemma compute_sccs_exact:
  "set (compute_sccs cfg) = scc_of cfg ` cfg_nodes cfg" "distinct (compute_sccs cfg)"
  "sorted (map Min (compute_sccs cfg))"
proof -
  obtain A Cs where run: "fold (component_from (adjacency_index predecessors cfg)) (rev (finish_order cfg)) ({}, []) = (A, Cs)"
    by (cases "fold (component_from (adjacency_index predecessors cfg)) (rev (finish_order cfg)) ({}, [])")
  have Cs: "set Cs = scc_of cfg ` cfg_nodes cfg" "distinct Cs"
    using components_fold [of "[]" "rev (finish_order cfg)" "{}" "[]" A Cs] run by simp_all
  have eq: "compute_sccs cfg = sort_key (\<lambda>scc. if scc = {} then usize_max else Min scc) Cs"
    using run by (simp add: compute_sccs_def)
  show "set (compute_sccs cfg) = scc_of cfg ` cfg_nodes cfg" "distinct (compute_sccs cfg)"
    using Cs by (simp_all add: eq)
  have "map Min (compute_sccs cfg) = map (\<lambda>scc. if scc = {} then usize_max else Min scc) (compute_sccs cfg)"
    using Cs(1) scc_nonempty by (auto simp: eq)
  then show "sorted (map Min (compute_sccs cfg))" unfolding eq by (simp only: sorted_sort_key)
qed

end

section \<open>Natural loops\<close>

inductive reaches_avoiding :: "control_flow_graph \<Rightarrow> usize \<Rightarrow> usize \<Rightarrow> usize \<Rightarrow> bool" for cfg h l where
  at_end: "l \<noteq> h \<Longrightarrow> reaches_avoiding cfg h l l"
| along: "edge cfg n m \<Longrightarrow> reaches_avoiding cfg h l m \<Longrightarrow> n \<noteq> h \<Longrightarrow> reaches_avoiding cfg h l n"

definition natural_loop :: "control_flow_graph \<Rightarrow> usize \<Rightarrow> usize \<Rightarrow> usize set" where
  "natural_loop cfg h l = insert h {n. reaches_avoiding cfg h l n}"

lemma reaches_avoiding_start: "reaches_avoiding cfg h l n \<Longrightarrow> n \<noteq> h \<and> l \<noteq> h"
  by (induction rule: reaches_avoiding.induct) auto

lemma entry_nodes_mem: "n \<in> entry_nodes cfg R \<longleftrightarrow> n \<in> R \<and> (\<exists>p \<in> set (cfg_preds cfg n). p \<notin> R)"
  by (auto simp: entry_nodes_def cfg_preds_def list_ex_iff split: option.splits)

lemma dedup_by_key_set: "set (dedup_by_key f xs) \<subseteq> set xs"
  by (induction f xs rule: dedup_by_key.induct) auto

lemma dedup_by_key_hd: "xs \<noteq> [] \<Longrightarrow> \<exists>zs. dedup_by_key f xs = hd xs # zs"
  by (induction f xs rule: dedup_by_key.induct) auto

lemma dedup_by_key_image: "f ` set (dedup_by_key f xs) = f ` set xs"
  by (induction f xs rule: dedup_by_key.induct) auto

lemma dedup_by_key_strict: "sorted (map f xs) \<Longrightarrow> sorted_wrt (<) (map (f :: 'a \<Rightarrow> 'k::linorder) (dedup_by_key f xs))"
proof (induction f xs rule: dedup_by_key.induct)
  case (1 f x y zs)
  show ?case
  proof (cases "f x = f y")
    case False
    then have "f x < f y" using 1(3) by (simp add: order_less_le)
    moreover have "f y \<le> f z" if "z \<in> set (y # zs)" for z using 1(3) that by auto
    ultimately have "f x < f z" if "z \<in> set (dedup_by_key f (y # zs))" for z
      using that dedup_by_key_set [of f "y # zs"] by (meson order_less_le_trans subsetD)
    then show ?thesis using 1 False by simp
  qed (use 1 in simp)
qed simp_all

lemma body_loop_result:
  "(\<forall>p n. p \<in> set (cfg_preds cfg n) \<longrightarrow> edge cfg p n) \<Longrightarrow> h \<in> body \<Longrightarrow>
   (\<forall>n \<in> body \<union> set stack. n \<noteq> h \<longrightarrow> reaches_avoiding cfg h l n) \<Longrightarrow>
   (\<forall>n \<in> body. n \<noteq> h \<longrightarrow> set (cfg_preds cfg n) \<subseteq> body \<union> set stack) \<Longrightarrow>
   body \<union> set stack \<subseteq> body_loop cfg stack body \<and>
   (\<forall>n \<in> body_loop cfg stack body. n \<noteq> h \<longrightarrow>
      reaches_avoiding cfg h l n \<and> set (cfg_preds cfg n) \<subseteq> body_loop cfg stack body)"
proof (induction cfg stack body rule: body_loop.induct)
  case (2 cfg node stack body)
  show ?case
  proof (cases "node \<in> body")
    case True
    then show ?thesis using 2(2) 2(3-6) by (simp add: insert_absorb)
  next
    case False
    let ?body = "insert node body"
    let ?st = "fold (\<lambda>pred st. if pred \<notin> ?body then pred # st else st) (cfg_preds cfg node) stack"
    have node: "node \<noteq> h" "reaches_avoiding cfg h l node" using 2(4,5) False by auto
    have new: "reaches_avoiding cfg h l n" if "n \<in> set (cfg_preds cfg node)" "n \<noteq> h" for n
      using that 2(3) node(2) by (blast intro: reaches_avoiding.along)
    have "?body \<union> set ?st \<subseteq> body_loop cfg ?st ?body \<and>
       (\<forall>n \<in> body_loop cfg ?st ?body. n \<noteq> h \<longrightarrow>
          reaches_avoiding cfg h l n \<and> set (cfg_preds cfg n) \<subseteq> body_loop cfg ?st ?body)"
    proof (rule 2(1) [OF _ refl 2(3)])
      show "\<forall>n \<in> ?body \<union> set ?st. n \<noteq> h \<longrightarrow> reaches_avoiding cfg h l n"
        unfolding push_new_set using 2(5) new by auto
      show "\<forall>n \<in> ?body. n \<noteq> h \<longrightarrow> set (cfg_preds cfg n) \<subseteq> ?body \<union> set ?st"
        unfolding push_new_set using 2(6) by auto
    qed (use False 2(4) in auto)
    moreover have "body_loop cfg (node # stack) body = body_loop cfg ?st ?body" using False by (simp add: Let_def)
    moreover have "set stack \<subseteq> set ?st" unfolding push_new_set by blast
    ultimately show ?thesis by auto
  qed
qed auto

context flow_graph
begin

lemma edge_source: "edge cfg s t \<Longrightarrow> s \<in> cfg_nodes cfg"
  unfolding edge_def by (rule succs_source)

lemma edge_target: "edge cfg s t \<Longrightarrow> t \<in> cfg_nodes cfg"
  unfolding edge_def by (rule succs_closed)

lemma collect_loop_body_exact: "collect_loop_body cfg h l = natural_loop cfg h l"
proof (cases "h = l")
  case True
  then show ?thesis using reaches_avoiding_start [of cfg h l] by (auto simp: collect_loop_body_def natural_loop_def)
next
  case False
  let ?B = "body_loop cfg [l] {h}"
  have "{h} \<union> set [l] \<subseteq> ?B \<and> (\<forall>n \<in> ?B. n \<noteq> h \<longrightarrow> reaches_avoiding cfg h l n \<and> set (cfg_preds cfg n) \<subseteq> ?B)"
    by (rule body_loop_result) (use False pred_edge in \<open>auto intro: at_end\<close>)
  then have B: "h \<in> ?B" "l \<in> ?B" "\<And>n. n \<in> ?B \<Longrightarrow> n \<noteq> h \<Longrightarrow> reaches_avoiding cfg h l n"
      "\<And>n. n \<in> ?B \<Longrightarrow> n \<noteq> h \<Longrightarrow> set (cfg_preds cfg n) \<subseteq> ?B"
    by simp_all
  have "n \<in> ?B" if "reaches_avoiding cfg h l n" for n
    using that
  proof (induction rule: reaches_avoiding.induct)
    case (along n m)
    then show ?case using B(4) [of m] reaches_avoiding_start [of cfg h l m] edge_pred [of n m] by blast
  qed (rule B(2))
  then show ?thesis using False B(1,3) by (auto simp: collect_loop_body_def natural_loop_def)
qed

lemma dominates_iff: "dominates (the (compute cfg)) a b \<longleftrightarrow> a = b \<or> reachable cfg b \<and> on_every_walk cfg a b"
  using dominates_exact by auto

lemma block_edge: "get_block cfg s = Some b \<Longrightarrow> t \<in> set (successors b) \<longleftrightarrow> edge cfg s t"
  by (simp add: edge_def cfg_succs_def)

lemma found_loops_mem:
  "Loop h l body c \<in> set (found_loops cfg t dispatch) \<longleftrightarrow> edge cfg l h \<and> dominates t h l \<and>
     body = natural_loop cfg h l \<and> is_reducible_loop_region cfg t h body \<and> \<not> body \<subseteq> dispatch \<and>
     c = terminator_condition cfg h"
proof -
  have self: "l \<in> set (predecessors b) \<longleftrightarrow> edge cfg l l" if "get_block cfg l = Some b" for b
    using that edge_pred pred_edge by (force simp: cfg_preds_def)
  have of_edge: "Loop h l body c \<in> set (loop_of_edge cfg t dispatch b u) \<longleftrightarrow> u = h \<and> dominates t h l \<and>
      body = natural_loop cfg h l \<and> is_reducible_loop_region cfg t h body \<and> \<not> body \<subseteq> dispatch \<and>
      c = terminator_condition cfg h \<and> start_pc b = l"
    if "get_block cfg l = Some b" "edge cfg l u" for b u
  proof -
    have "start_pc b = l" using keyed that(1) by blast
    then show ?thesis
      using self [OF that(1)] that(2)
      by (auto simp: loop_of_edge_def Let_def collect_loop_body_exact dominates_def)
  qed
  have start: "start_pc b = l" if "Loop h l body c \<in> set (loop_of_edge cfg t dispatch b u)" for b u
    using that by (auto simp: loop_of_edge_def Let_def split: if_splits)
  show ?thesis
  proof
    assume "Loop h l body c \<in> set (found_loops cfg t dispatch)"
    then obtain s b u where b: "get_block cfg s = Some b" "u \<in> set (successors b)"
        "Loop h l body c \<in> set (loop_of_edge cfg t dispatch b u)"
      by (auto simp: found_loops_def block_entry)
    moreover have "s = l" using start [OF b(3)] keyed b(1) by blast
    ultimately show "edge cfg l h \<and> dominates t h l \<and> body = natural_loop cfg h l \<and>
        is_reducible_loop_region cfg t h body \<and> \<not> body \<subseteq> dispatch \<and> c = terminator_condition cfg h"
      using of_edge block_edge by blast
  next
    assume r: "edge cfg l h \<and> dominates t h l \<and> body = natural_loop cfg h l \<and>
        is_reducible_loop_region cfg t h body \<and> \<not> body \<subseteq> dispatch \<and> c = terminator_condition cfg h"
    then have "l \<in> cfg_nodes cfg" using edge_source by blast
    then obtain b where b: "get_block cfg l = Some b" using node_block by blast
    have "Loop h l body c \<in> set (loop_of_edge cfg t dispatch b h)" using of_edge [OF b] r keyed b by blast
    moreover have "h \<in> set (successors b)" using r block_edge [OF b] by simp
    ultimately show "Loop h l body c \<in> set (found_loops cfg t dispatch)"
      using b unfolding found_loops_def by (force simp: block_entry)
  qed
qed

lemma found_loops_only: "s \<in> set (found_loops cfg t dispatch) \<Longrightarrow> \<exists>h l body c. s = Loop h l body c"
  by (auto simp: found_loops_def loop_of_edge_def Let_def split: if_splits)

lemma detect_loops_found: "set (detect_loops cfg t dispatch) \<subseteq> set (found_loops cfg t dispatch)"
  unfolding detect_loops_def using dedup_by_key_set by fastforce

lemma detect_loops_headers: "header_key ` set (detect_loops cfg t dispatch) = header_key ` set (found_loops cfg t dispatch)"
  by (simp add: detect_loops_def dedup_by_key_image)

lemma detect_loops_sorted: "sorted_wrt (<) (map header_key (detect_loops cfg t dispatch))"
  by (simp add: detect_loops_def dedup_by_key_strict)

lemma natural_loop_entries: "entry_nodes cfg (natural_loop cfg h l) \<subseteq> {h}"
proof
  fix n
  assume "n \<in> entry_nodes cfg (natural_loop cfg h l)"
  then obtain p where p: "n \<in> natural_loop cfg h l" "edge cfg p n" "p \<notin> natural_loop cfg h l"
    using pred_edge by (auto simp: entry_nodes_mem)
  then show "n \<in> {h}" using reaches_avoiding.along [OF p(2), of h l] by (auto simp: natural_loop_def)
qed

lemma dominates_body:
  assumes "reachable cfg l" "on_every_walk cfg h l" "n \<in> natural_loop cfg h l" "reachable cfg n"
  shows "on_every_walk cfg h n"
proof (cases "n = h")
  case True
  then show ?thesis by (auto simp: on_every_walk_def entry_walk_def)
next
  case False
  then have "reaches_avoiding cfg h l n" using assms(3) by (simp add: natural_loop_def)
  then show ?thesis
  proof (induction rule: reaches_avoiding.induct)
    case (along n m)
    then show ?case using on_every_walk_edge reaches_avoiding_start by blast
  qed (rule assms(2))
qed

text \<open>In a graph whose blocks are all reachable every back edge gives a region the analysis accepts.\<close>

lemma back_edge_reducible:
  assumes all: "\<And>n. n \<in> cfg_nodes cfg \<Longrightarrow> reachable cfg n" and e: "edge cfg l h" "on_every_walk cfg h l"
  shows "is_reducible_loop_region cfg (the (compute cfg)) h (natural_loop cfg h l)"
proof -
  let ?B = "natural_loop cfg h l"
  have node: "n \<in> cfg_nodes cfg" if "n \<in> ?B" for n
    using that e(1) edge_source edge_target by (auto simp: natural_loop_def elim: reaches_avoiding.cases)
  have "dominates (the (compute cfg)) h n" if "n \<in> ?B" for n
    using dominates_body [OF all [OF edge_source [OF e(1)]] e(2) that] all [OF node [OF that]] dominates_iff by simp
  moreover have "entry_nodes cfg ?B = {h} \<or> entry_nodes cfg ?B = {} \<and> h = entry_pc cfg"
  proof (cases "h = entry_pc cfg")
    case False
    have "reachable cfg h" using node [of h] all by (simp add: natural_loop_def)
    then obtain xs where xs: "entry_walk cfg xs" "last xs = h" by (auto simp: reachable_def)
    obtain ys where ys: "entry_walk cfg ys" "distinct ys" "last ys = h" using simple_walk [OF xs(1)] xs(2) by metis
    then obtain zs where zs: "ys = zs @ [h]" by (metis append_butlast_last_id entry_walk_def)
    with ys(1) False have ne: "zs \<noteq> []" by auto
    then have p: "entry_walk cfg zs" "edge cfg (last zs) h" using ys(1) zs by (simp_all add: entry_walk_snoc)
    have "last zs \<notin> ?B"
    proof
      assume B: "last zs \<in> ?B"
      have "reachable cfg (last zs)" "reachable cfg l" using all node [OF B] edge_source [OF e(1)] by simp_all
      then have "on_every_walk cfg h (last zs)" using dominates_body e(2) B by blast
      then have "h \<in> set zs" using p(1) by (auto simp: on_every_walk_def)
      then show False using ys(2) zs by simp
    qed
    then have "h \<in> entry_nodes cfg ?B" using edge_pred [OF p(2)] by (auto simp: entry_nodes_mem natural_loop_def)
    then show ?thesis using natural_loop_entries [of h l] by blast
  qed (use natural_loop_entries [of h l] in blast)
  moreover have "h \<in> ?B" by (simp add: natural_loop_def)
  ultimately show ?thesis by (auto simp: is_reducible_loop_region_def Let_def)
qed

lemma loop_sound:
  assumes "Loop h l body c \<in> set (detect_loops cfg (the (compute cfg)) dispatch)"
  shows "edge cfg l h" "body = natural_loop cfg h l" "n \<in> body \<Longrightarrow> n = h \<or> reachable cfg n \<and> on_every_walk cfg h n"
    "edge cfg p n \<Longrightarrow> n \<in> body \<Longrightarrow> p \<notin> body \<Longrightarrow> n = h"
proof -
  have m: "edge cfg l h" "body = natural_loop cfg h l" "is_reducible_loop_region cfg (the (compute cfg)) h body"
    using subsetD [OF detect_loops_found assms] unfolding found_loops_mem by (blast, blast, blast)
  then show "edge cfg l h" "body = natural_loop cfg h l" by simp_all
  show "n = h \<or> reachable cfg n \<and> on_every_walk cfg h n" if "n \<in> body"
    using m(3) that dominates_iff by (auto simp: is_reducible_loop_region_def split: if_splits)
  show "n = h" if "edge cfg p n" "n \<in> body" "p \<notin> body"
  proof -
    have "n \<in> entry_nodes cfg body" using that edge_pred [OF that(1)] by (auto simp: entry_nodes_mem)
    then show ?thesis using natural_loop_entries [of h l] m(2) by auto
  qed
qed

lemma loop_headers_exact:
  assumes "\<And>n. n \<in> cfg_nodes cfg \<Longrightarrow> reachable cfg n"
  shows "header_key ` set (detect_loops cfg (the (compute cfg)) {}) = {h. \<exists>l. edge cfg l h \<and> on_every_walk cfg h l}"
proof -
  have "(\<exists>s \<in> set (found_loops cfg (the (compute cfg)) {}). header_key s = h) \<longleftrightarrow> (\<exists>l. edge cfg l h \<and> on_every_walk cfg h l)" for h
  proof
    assume "\<exists>s \<in> set (found_loops cfg (the (compute cfg)) {}). header_key s = h"
    then obtain l body c where m: "Loop h l body c \<in> set (found_loops cfg (the (compute cfg)) {})"
      using found_loops_only by (fastforce simp: header_key_def)
    then have "edge cfg l h" "dominates (the (compute cfg)) h l" by (simp_all add: found_loops_mem)
    then show "\<exists>l. edge cfg l h \<and> on_every_walk cfg h l"
      using dominates_iff by (auto simp: on_every_walk_def entry_walk_def)
  next
    assume "\<exists>l. edge cfg l h \<and> on_every_walk cfg h l"
    then obtain l where l: "edge cfg l h" "on_every_walk cfg h l" by blast
    have "reachable cfg l" using edge_source [OF l(1)] assms by simp
    then have "Loop h l (natural_loop cfg h l) (terminator_condition cfg h) \<in> set (found_loops cfg (the (compute cfg)) {})"
      using l back_edge_reducible [OF assms l] dominates_iff by (simp add: found_loops_mem natural_loop_def)
    then show "\<exists>s \<in> set (found_loops cfg (the (compute cfg)) {}). header_key s = h"
      by (force simp: header_key_def)
  qed
  then show ?thesis unfolding detect_loops_headers by (simp add: set_eq_iff image_iff) metis
qed

end

section \<open>Branches and switches\<close>

lemma reach_loop_sound:
  "(\<And>n. n \<in> reached \<union> fst ` set queue \<Longrightarrow> reaches cfg start n) \<Longrightarrow>
   n \<in> reach_loop cfg stop m queue reached \<Longrightarrow> reaches cfg start n"
proof (induction cfg stop m queue reached rule: reach_loop.induct)
  case (2 cfg stop m node depth queue reached)
  show ?case
  proof (cases "m \<le> depth")
    case True
    then show ?thesis using 2(1) [OF True] 2(3,4) by simp
  next
    case False
    obtain new where new: "fold (\<lambda>s (queue, reached).
       if s \<noteq> stop \<and> s \<notin> reached then (queue @ [(s, depth + 1)], insert s reached) else (queue, reached))
         (cfg_succs cfg node) (queue, reached) = (queue @ map (\<lambda>s. (s, depth + 1)) new, reached \<union> set new)"
      "set new = set (cfg_succs cfg node) - {stop} - reached"
      using reach_step_fold [of stop "depth + 1" "cfg_succs cfg node" queue reached] by metis
    have start: "reaches cfg start node" using 2(3) by simp
    have "reaches cfg start s" if "s \<in> set new" for s
    proof -
      have "edge cfg node s" using that new(2) by (simp add: edge_def)
      with start show ?thesis by (rule rtranclp.rtrancl_into_rtrancl)
    qed
    then have "reaches cfg start n'" if "n' \<in> (reached \<union> set new) \<union> fst ` set (queue @ map (\<lambda>s. (s, depth + 1)) new)" for n'
      using that 2(3) [of n'] by auto
    moreover have "n \<in> reach_loop cfg stop m (queue @ map (\<lambda>s. (s, depth + 1)) new) (reached \<union> set new)"
      using 2(4) False new(1) by simp
    ultimately show ?thesis using 2(2) [OF False new(1) [symmetric] refl] by blast
  qed
qed simp

lemma forward_reachable_sound: "n \<in> forward_reachable cfg start stop m \<Longrightarrow> reaches cfg start n"
proof -
  assume n: "n \<in> forward_reachable cfg start stop m"
  show ?thesis
    by (rule reach_loop_sound [OF _ n [unfolded forward_reachable_def]]) auto
qed

lemma join_loop_sound:
  "(\<And>n. n \<in> set queue \<Longrightarrow> reaches cfg start n) \<Longrightarrow> join_loop cfg t ra a h queue visited = Some j \<Longrightarrow>
   reaches cfg start j \<and> j \<in> ra \<and> j \<noteq> a"
proof (induction cfg t ra a h queue visited rule: join_loop.induct)
  case (2 cfg t ra a h node queue visited)
  show ?case
  proof (cases "node \<in> visited")
    case True
    then show ?thesis using 2 by simp
  next
    case False
    show ?thesis
    proof (cases "node \<in> ra \<and> node \<noteq> a")
      case go: False
      have "reaches cfg start n" if "n \<in> set (cfg_succs cfg node)" for n
        using that 2(3) [of node] rtranclp.rtrancl_into_rtrancl [of "edge cfg" start node n] by (simp add: edge_def [abs_def])
      then show ?thesis using 2(2) [OF False refl go] 2(3,4) False go by auto
    qed (use 2(3,4) False in auto)
  qed
qed simp

text \<open>The join point is reached from both branches, and it is the first branch only if both are one.\<close>

lemma join_point_sound:
  assumes "find_join_point cfg a b h t = Some j"
  shows "reaches cfg a j \<and> reaches cfg b j \<and> (j = a \<longrightarrow> a = b)"
proof (cases "join_loop cfg t (forward_reachable cfg a h 20) a h [b] {}")
  case None
  then show ?thesis using assms forward_reachable_sound by (auto simp: find_join_point_def split: if_splits)
next
  case (Some k)
  then have "j = k" using assms by (simp add: find_join_point_def)
  have "reaches cfg b k \<and> k \<in> forward_reachable cfg a h 20 \<and> k \<noteq> a"
    by (rule join_loop_sound [OF _ Some]) simp
  then show ?thesis using \<open>j = k\<close> forward_reachable_sound by blast
qed

lemma if_of_block_mem:
  assumes "IfThenElse h ts es j c \<in> set (if_of_block cfg t excluded pc)"
  obtains block a b where "h = pc" "pc \<notin> excluded" "get_block cfg pc = Some block" "successors block = [a, b]"
    "\<not> dominates t a pc" "\<not> dominates t b pc" "j = find_join_point cfg a b pc t" "c = terminator_condition cfg pc"
    "(ts, es) = (if Some a = j then ([], [b]) else if Some b = j then ([a], []) else ([a], [b]))"
proof -
  obtain block where block: "get_block cfg pc = Some block"
    using assms by (cases "get_block cfg pc") (simp_all add: if_of_block_def)
  with assms have two: "length (successors block) = 2" "pc \<notin> excluded"
    by (auto simp: if_of_block_def split: if_splits)
  then obtain a b where ab: "successors block = [a, b]" by (auto simp: numeral_2_eq_2 length_Suc_conv)
  show thesis
    by (rule that [of block a b]) (use assms block two ab in \<open>auto simp: if_of_block_def Let_def split: if_splits prod.splits\<close>)
qed

lemma detect_if_mem:
  "IfThenElse h ts es j c \<in> set (detect_if_then_else cfg t excluded) \<Longrightarrow>
   h \<in> set (rpo t) \<and> IfThenElse h ts es j c \<in> set (if_of_block cfg t excluded h)"
proof -
  assume "IfThenElse h ts es j c \<in> set (detect_if_then_else cfg t excluded)"
  then obtain pc where pc: "pc \<in> set (rpo t)" "IfThenElse h ts es j c \<in> set (if_of_block cfg t excluded pc)"
    by (auto simp: detect_if_then_else_def)
  moreover have "h = pc" by (rule if_of_block_mem [OF pc(2)])
  ultimately show ?thesis by simp
qed

definition indices_of :: "u32 list \<Rightarrow> u32 \<Rightarrow> u32 list" where
  "indices_of jt target = map of_nat (filter (\<lambda>i. jt ! i = target) [0..<length jt])"

lemma filter_snd_none: "x \<notin> snd ` set ps \<Longrightarrow> filter (\<lambda>p. snd p = x) ps = []"
  by (force simp: filter_empty_conv)

lemma group_fold:
  "fold (\<lambda>(idx, target) m. m(target \<mapsto> (case m target of Some vs \<Rightarrow> vs | None \<Rightarrow> []) @ [of_nat idx])) ps m x =
   (if x \<in> snd ` set ps then Some ((case m x of Some vs \<Rightarrow> vs | None \<Rightarrow> []) @ map (of_nat \<circ> fst) (filter (\<lambda>p. snd p = x) ps))
    else m x)"
  by (induction ps arbitrary: m) (auto split: option.splits simp: filter_snd_none)

lemma zip_indices: "map (of_nat \<circ> fst) (filter (\<lambda>p. snd p = x) (zip [0..<length jt] jt)) = indices_of jt x"
proof -
  have "zip [0..<length jt] jt = map (\<lambda>i. (i, jt ! i)) [0..<length jt]"
    by (rule nth_equalityI) simp_all
  then show ?thesis by (simp add: indices_of_def filter_map comp_def)
qed

lemma jump_table_cases_eq:
  "jump_table_cases jt = map (\<lambda>target. (indices_of jt target, unat target)) (sorted_list_of_set (set jt))"
proof -
  have "snd ` set (zip [0..<length jt] jt) = set jt" by (metis map_snd_zip length_map length_upt minus_nat.diff_0 set_map)
  then show ?thesis
    by (auto simp: jump_table_cases_def Let_def group_fold zip_indices sorted_list_of_set_sort_remdups)
qed

section \<open>The whole analysis\<close>

lemma irreducible_mem:
  "b \<in> collect_irreducible_scc_blocks cfg sccs \<longleftrightarrow>
   (\<exists>scc \<in> set sccs. b \<in> scc \<and> card scc > 1 \<and> card (entry_nodes cfg scc) > 1)"
proof -
  have "b \<in> fold (\<lambda>scc bs. if card scc \<le> 1 then bs
                    else if card (entry_nodes cfg scc) > 1 then bs \<union> scc else bs) sccs bs \<longleftrightarrow>
      b \<in> bs \<or> (\<exists>scc \<in> set sccs. b \<in> scc \<and> card scc > 1 \<and> card (entry_nodes cfg scc) > 1)" for bs
    by (induction sccs arbitrary: bs) auto
  then show ?thesis unfolding collect_irreducible_scc_blocks_def by simp
qed

lemma only_switches: "s \<in> set (detect_switches cfg p E) \<Longrightarrow> \<exists>h r cs d. s = Switch h r cs d"
  by (auto simp: detect_switches_def switch_of_block_def split: if_splits instruction.splits)

lemma only_ifs: "s \<in> set (detect_if_then_else cfg t ex) \<Longrightarrow> \<exists>h ts es j c. s = IfThenElse h ts es j c"
  by (auto simp: detect_if_then_else_def if_of_block_def Let_def split: if_splits option.splits prod.splits)

context flow_graph
begin

lemma rpo_compute: "rpo (the (compute cfg)) = order"
  using compute_exact by (auto simp: compute_def Let_def)

lemma if_sound:
  assumes "IfThenElse h ts es j c \<in> set (detect_if_then_else cfg (the (compute cfg)) excluded)"
  obtains a b where "reachable cfg h" "h \<notin> excluded" "cfg_succs cfg h = [a, b]"
    "\<not> on_every_walk cfg a h" "\<not> on_every_walk cfg b h"
    "j = None \<or> reaches cfg a (the j) \<and> reaches cfg b (the j)"
    "set ts \<union> set es \<subseteq> {a, b}" "{a, b} \<subseteq> set ts \<union> set es \<union> set_option j" "ts = [] \<longrightarrow> a = b"
proof -
  have h: "h \<in> set order" "IfThenElse h ts es j c \<in> set (if_of_block cfg (the (compute cfg)) excluded h)"
    using detect_if_mem [OF assms] by (simp_all add: rpo_compute)
  then have r: "reachable cfg h" using reachable_iff by simp
  obtain block a b where b: "h \<notin> excluded" "get_block cfg h = Some block" "successors block = [a, b]"
    "\<not> dominates (the (compute cfg)) a h" "\<not> dominates (the (compute cfg)) b h"
    "j = find_join_point cfg a b h (the (compute cfg))"
    "(ts, es) = (if Some a = j then ([], [b]) else if Some b = j then ([a], []) else ([a], [b]))"
    by (rule if_of_block_mem [OF h(2)])
  show thesis
  proof (rule that [OF r b(1)])
    show "cfg_succs cfg h = [a, b]" using b(2,3) by (simp add: cfg_succs_def)
    show "\<not> on_every_walk cfg a h" "\<not> on_every_walk cfg b h" using b(4,5) dominates_iff r by auto
    show "j = None \<or> reaches cfg a (the j) \<and> reaches cfg b (the j)"
      using b(6) join_point_sound by (cases j) auto
    show "set ts \<union> set es \<subseteq> {a, b}" using b(7) by (auto split: if_splits)
    show "{a, b} \<subseteq> set ts \<union> set es \<union> set_option j" using b(7) by (auto split: if_splits)
    show "ts = [] \<longrightarrow> a = b" using b(7) b(6) join_point_sound [of cfg a b h "the (compute cfg)" a]
      by (auto split: if_splits)
  qed
qed

end


section \<open>Properties\<close>

text \<open>C20: the components are exactly the classes of blocks that reach each other, each listed once, ordered by
  their smallest block, for the graph of every program and every order of the hash map.\<close>

theorem sccs_exact:
  "set (compute_sccs (reorder (build p) bs)) = scc_of (reorder (build p) bs) ` cfg_nodes (reorder (build p) bs) \<and>
   distinct (compute_sccs (reorder (build p) bs)) \<and> sorted (map Min (compute_sccs (reorder (build p) bs)))"
  using reordered.compute_sccs_exact by blast

text \<open>C23: a detected loop is the natural loop of an edge from its latch to its header, its header dominates
  all of its blocks, and every edge into it from outside ends at the header.\<close>

theorem loops_sound:
  assumes "g = reorder (build p) bs" "Loop h l body c \<in> set (detect_loops g (the (compute g)) dispatch)"
  shows "edge g l h \<and> body = natural_loop g h l \<and>
    (\<forall>n. n \<in> body \<longrightarrow> n = h \<or> reachable g n \<and> on_every_walk g h n) \<and>
    (\<forall>q n. edge g q n \<and> n \<in> body \<and> q \<notin> body \<longrightarrow> n = h)"
  using reordered.loop_sound [OF assms(2) [unfolded assms(1)]] unfolding assms(1) by blast

lemma loop_program_loops:
  "detect_loops (reorder (build loop_program) []) (the (compute (reorder (build loop_program) []))) {}
   = [Loop 0 0 {0} (Some \<lparr>cond_op = CNe, lhs = OReg 1, rhs = OImm 0\<rparr>)]"
  by code_simp

theorem loops_sound_witness:
  "natural_loop (reorder (build loop_program) []) 0 0 = {0} \<and> edge (reorder (build loop_program) []) 0 0"
  using loops_sound [OF refl, of 0 0 "{0}" "Some \<lparr>cond_op = CNe, lhs = OReg 1, rhs = OImm 0\<rparr>" loop_program "[]" "{}"]
    loop_program_loops by simp

text \<open>When every block is reachable the detected loops have exactly the headers of the back edges, the
  targets that dominate their sources, in increasing order and each once.\<close>

theorem loops_found:
  assumes "g = reorder (build p) bs" "cfg_nodes g \<subseteq> {n. reachable g n}"
  shows "header_key ` set (detect_loops g (the (compute g)) {}) = {h. \<exists>l. edge g l h \<and> on_every_walk g h l} \<and>
    sorted_wrt (<) (map header_key (detect_loops g (the (compute g)) {}))"
  using reordered.loop_headers_exact [of p bs] reordered.detect_loops_sorted assms by blast

theorem loops_found_witness:
  "{h. \<exists>l. edge (reorder (build loop_program) []) l h \<and> on_every_walk (reorder (build loop_program) []) h l} = {0}"
proof -
  let ?g = "reorder (build loop_program) []"
  have "cfg_nodes ?g = {0, 6}" by code_simp
  moreover have "edge ?g 0 6" unfolding edge_def by code_simp
  moreover have "entry_pc ?g = 0" by code_simp
  ultimately have "cfg_nodes ?g \<subseteq> {n. reachable ?g n}"
    using reachable_entry [of ?g] reachable_edge [of ?g 0 6] by auto
  from loops_found [OF refl this] show ?thesis by (simp add: loop_program_loops header_key_def)
qed

text \<open>A condition is extracted from an instruction exactly when it is a conditional branch.\<close>

theorem condition_of_branch: "extract_condition i \<noteq> None \<longleftrightarrow> is_conditional_branch (classify i)"
proof (cases i)
  case (TwoReg opc dst src)
  then show ?thesis by (cases opc) (simp_all add: extract_condition_def classify_def is_conditional_branch_def)
next
  case (TwoRegImm opc dst src v)
  then show ?thesis by (cases opc) (simp_all add: extract_condition_def classify_def is_conditional_branch_def)
next
  case (ThreeReg opc dst src1 src2)
  then show ?thesis by (cases opc) (simp_all add: extract_condition_def classify_def is_conditional_branch_def)
qed (simp_all add: extract_condition_def classify_def is_conditional_branch_def)

text \<open>A detected two-way branch is a reachable block with two successors that do not dominate it; both
  reach the join point, if there is one; a successor without a side is the join point, and only the
  second successor can be one.\<close>

theorem ifs_sound:
  assumes "g = reorder (build p) bs"
    and "IfThenElse h ts es j c \<in> set (detect_if_then_else g (the (compute g)) excluded)"
  shows "reachable g h \<and> h \<notin> excluded \<and> (\<exists>a b. cfg_succs g h = [a, b] \<and>
    \<not> on_every_walk g a h \<and> \<not> on_every_walk g b h \<and>
    (j = None \<or> reaches g a (the j) \<and> reaches g b (the j)) \<and>
    set ts \<union> set es \<subseteq> {a, b} \<and> {a, b} \<subseteq> set ts \<union> set es \<union> set_option j \<and> (ts \<noteq> [] \<or> a = b))"
proof -
  obtain a b where "reachable g h" "h \<notin> excluded" "cfg_succs g h = [a, b]"
    "\<not> on_every_walk g a h" "\<not> on_every_walk g b h"
    "j = None \<or> reaches g a (the j) \<and> reaches g b (the j)"
    "set ts \<union> set es \<subseteq> {a, b}" "{a, b} \<subseteq> set ts \<union> set es \<union> set_option j" "ts = [] \<longrightarrow> a = b"
    by (rule reordered.if_sound [OF assms(2) [unfolded assms(1)], folded assms(1)])
  then show ?thesis by blast
qed

text \<open>A branch over one block: the taken branch goes directly to where both paths meet.\<close>

definition triangle_program :: decoded_program where
  "triangle_program = \<lparr>jump_table = [],
     instructions = [(0, BranchImm BranchEqImm 1 0 6), (3, TwoRegImm AddImm64 1 1 1), (6, Trap)],
     code_len = 7, memory_base = None\<rparr>"

lemma triangle_ifs:
  "detect_if_then_else (reorder (build triangle_program) []) (the (compute (reorder (build triangle_program) []))) {}
   = [IfThenElse 0 [6] [3] None (Some \<lparr>cond_op = CEq, lhs = OReg 1, rhs = OImm 0\<rparr>)]"
  by code_simp

theorem ifs_sound_witness: "reachable (reorder (build triangle_program) []) 0"
  using ifs_sound [OF refl, of 0 "[6]" "[3]" None "Some \<lparr>cond_op = CEq, lhs = OReg 1, rhs = OImm 0\<rparr>" triangle_program "[]" "{}"]
    triangle_ifs by simp

text \<open>A branch over one block is reported as a two-sided branch without a join, although its first
  successor is where both paths meet.\<close>

theorem first_triangle_missed:
  "cfg_succs (build triangle_program) 0 = [6, 3] \<and> cfg_succs (build triangle_program) 3 = [6] \<and>
   detect_if_then_else (build triangle_program) (the (compute (build triangle_program))) {}
     = [IfThenElse 0 [6] [3] None (Some \<lparr>cond_op = CEq, lhs = OReg 1, rhs = OImm 0\<rparr>)]"
  by code_simp

text \<open>Two latches with one header.\<close>

definition two_latch_program :: decoded_program where
  "two_latch_program = \<lparr>jump_table = [],
     instructions = [(0, BranchImm BranchEqImm 1 0 6), (3, Jump (- 3)), (6, BranchImm BranchNeImm 1 0 (- 6)), (9, Trap)],
     code_len = 10, memory_base = None\<rparr>"

text \<open>Of two loops with one header, which one is kept depends on the order of the hash map: for one
  order the body is the header and block 3, for another the header and block 6.\<close>

theorem loops_depend_on_order:
  "map loop_body (detect_loops (reorder (build two_latch_program) []) (the (compute (build two_latch_program))) {}) = [{0, 3}] \<and>
   map loop_body (detect_loops (reorder (build two_latch_program) (rev (blocks (build two_latch_program))))
     (the (compute (build two_latch_program))) {}) = [{0, 6}]"
  by code_simp

text \<open>The cases of a switch are the targets of the jump table in increasing order, each with the
  indices that hold it; the switches are the blocks that end in an indirect jump.\<close>

theorem switches_exact:
  assumes "g = reorder (build p) bs" "jump_table p \<noteq> []"
  shows "set (detect_switches g p E) = {Switch h reg
      (map (\<lambda>target. (indices_of (jump_table p) target, unat target)) (sorted_list_of_set (set (jump_table p)))) (E \<noteq> {})
    | h reg. \<exists>b off. get_block g h = Some b \<and> block_instrs b \<noteq> [] \<and> snd (last (block_instrs b)) = JumpInd reg off}"
proof -
  have one: "Switch h reg cs d \<in> set (switch_of_block p E b) \<longleftrightarrow> h = start_pc b \<and> block_instrs b \<noteq> [] \<and>
      cs = jump_table_cases (jump_table p) \<and> d = (E \<noteq> {}) \<and> (\<exists>off. snd (last (block_instrs b)) = JumpInd reg off)" for h reg cs d b
    using assms(2) by (cases "snd (last (block_instrs b))") (auto simp: switch_of_block_def)
  have mem: "Switch h reg cs d \<in> set (detect_switches g p E) \<longleftrightarrow> cs = jump_table_cases (jump_table p) \<and> d = (E \<noteq> {}) \<and>
      (\<exists>b off. get_block g h = Some b \<and> block_instrs b \<noteq> [] \<and> snd (last (block_instrs b)) = JumpInd reg off)" for h reg cs d
  proof -
    have entry: "(s, b) \<in> set (blocks g) \<longleftrightarrow> get_block g s = Some b" for s b
      unfolding assms(1) by (rule reordered.block_entry)
    have key: "start_pc b = s" if "get_block g s = Some b" for s b
      using reordered.keyed [of p bs s b] that unfolding assms(1) by blast
    have "Switch h reg cs d \<in> set (detect_switches g p E) \<longleftrightarrow>
        (\<exists>s b. get_block g s = Some b \<and> Switch h reg cs d \<in> set (switch_of_block p E b))"
      by (auto simp: detect_switches_def simp flip: entry)
    then show ?thesis unfolding one using key by blast
  qed
  show ?thesis
  proof (rule set_eqI)
    show "s \<in> set (detect_switches g p E) \<longleftrightarrow> s \<in> {Switch h reg
      (map (\<lambda>target. (indices_of (jump_table p) target, unat target)) (sorted_list_of_set (set (jump_table p)))) (E \<noteq> {})
      | h reg. \<exists>b off. get_block g h = Some b \<and> block_instrs b \<noteq> [] \<and> snd (last (block_instrs b)) = JumpInd reg off}" for s
    proof (cases s)
      case (Switch h reg cs d)
      show ?thesis unfolding Switch mem jump_table_cases_eq by auto
    qed (use only_switches [of s g p E] in auto)
  qed
qed

definition switch_program :: decoded_program where
  "switch_program = \<lparr>jump_table = [5, 3, 5], instructions = [(0, JumpInd 2 0), (3, Trap), (5, Trap)],
     code_len = 6, memory_base = None\<rparr>"

theorem switches_exact_witness:
  "Switch 0 2 [([1], 3), ([0, 2], 5)] True \<in> set (detect_switches (reorder (build switch_program) []) switch_program {3})"
proof -
  have b: "get_block (reorder (build switch_program) []) 0 = Some \<lparr>start_pc = 0, end_pc = 3,
     block_instrs = [(0, JumpInd 2 0)], successors = [], predecessors = []\<rparr>" by code_simp
  have c: "map (\<lambda>target. (indices_of (jump_table switch_program) target, unat target))
      (sorted_list_of_set (set (jump_table switch_program))) = [([1], 3), ([0, 2], 5)]" by code_simp
  have "jump_table switch_program \<noteq> []" by code_simp
  note sw = switches_exact [OF refl this, of "[]" "{3}", unfolded c]
  show ?thesis unfolding sw using b by simp
qed

text \<open>C25: in the result of the analysis the header of a two-way branch is never the header of a loop, and
  it is in no strongly connected component that is entered at more than one block.\<close>

theorem headers_disjoint:
  assumes "g = reorder (build p) bs"
    and "IfThenElse h ts es j c \<in> set (structures (analyze_with_dom_tree g p (the (compute g)) E))"
  shows "Loop h l body c' \<notin> set (structures (analyze_with_dom_tree g p (the (compute g)) E)) \<and>
    card (entry_nodes g (scc_of g h)) \<le> 1"
proof -
  let ?t = "the (compute g)" and ?sw = "detect_switches g p E"
  let ?d = "collect_dispatch_scc_blocks ?sw (compute_sccs g)"
  let ?loops = "detect_loops g ?t ?d"
  define ex where "ex = set (concat (map (\<lambda>s. case s of Loop header _ _ _ \<Rightarrow> [header] | _ \<Rightarrow> []) ?loops))
    \<union> ?d \<union> collect_irreducible_scc_blocks g (compute_sccs g)"
  have "blocks g \<noteq> []" using assms(2) by (auto simp: analyze_with_dom_tree_def)
  then have st: "structures (analyze_with_dom_tree g p ?t E) = ?loops @ detect_if_then_else g ?t ex @ ?sw"
    by (simp add: analyze_with_dom_tree_def Let_def ex_def)
  have not_if: "Loop h' l' b' k \<notin> set (detect_if_then_else g ?t ex)" "Loop h' l' b' k \<notin> set ?sw"
      "IfThenElse h' ts' es' j' k \<notin> set ?sw" for h' l' b' k ts' es' j'
    using only_ifs only_switches by fastforce+
  have not_loop: "IfThenElse h' ts' es' j' k \<notin> set ?loops" for h' ts' es' j' k
    using reordered.detect_loops_found [of p bs] reordered.found_loops_only [of _ p bs] unfolding assms(1) by fastforce
  have "IfThenElse h ts es j c \<in> set (detect_if_then_else g ?t ex)" using assms(2) not_if(3) not_loop by (simp add: st)
  then obtain a b where if': "reachable g h" "h \<notin> ex" "cfg_succs g h = [a, b]"
    by (rule reordered.if_sound [of h ts es j c p bs, folded assms(1)]) blast
  have "Loop h l body c' \<notin> set ?loops"
  proof
    assume "Loop h l body c' \<in> set ?loops"
    then have "h \<in> ex" unfolding ex_def by force
    with if'(2) show False by simp
  qed
  then have loops: "Loop h l body c' \<notin> set (structures (analyze_with_dom_tree g p ?t E))" using not_if by (simp add: st)
  have node: "h \<in> cfg_nodes g"
    using if'(3) reordered.edge_source [of p bs h a, folded assms(1)] by (simp add: edge_def)
  then have scc: "scc_of g h \<in> set (compute_sccs g)" "h \<in> scc_of g h"
    using reordered.compute_sccs_exact(1) [of p bs, folded assms(1)] by (auto simp: scc_of_def)
  have few: "card (entry_nodes g (scc_of g h)) \<le> card (scc_of g h)"
  proof (rule card_mono)
    have "scc_of g h \<subseteq> insert h (cfg_nodes g)"
      using reordered.edge_source [of p bs, folded assms(1)] by (auto simp: scc_of_def mutual_def elim: converse_rtranclpE)
    then show "finite (scc_of g h)"
      using reordered.nodes_finite [of p bs, folded assms(1)] by (meson finite_insert finite_subset)
    show "entry_nodes g (scc_of g h) \<subseteq> scc_of g h" by (auto simp: entry_nodes_mem)
  qed
  have "h \<notin> collect_irreducible_scc_blocks g (compute_sccs g)" using if'(2) by (simp add: ex_def)
  then show ?thesis using loops scc few by (force simp: irreducible_mem not_less)
qed

theorem headers_disjoint_witness:
  "card (entry_nodes (reorder (build triangle_program) []) (scc_of (reorder (build triangle_program) []) 0)) \<le> 1"
proof -
  have "IfThenElse 0 [6] [3] None (Some \<lparr>cond_op = CEq, lhs = OReg 1, rhs = OImm 0\<rparr>)
    \<in> set (structures (analyze_with_dom_tree (reorder (build triangle_program) []) triangle_program
        (the (compute (reorder (build triangle_program) []))) {}))"
    by code_simp
  from headers_disjoint [OF refl this] show ?thesis by simp
qed

end
