(* ===== verification/Functions.thy ===== *)
theory Functions
  imports Structuring_Correct
begin

text \<open>
  Function boundaries (\<open>src/functions.rs\<close>): connected components, the split of a component at stack
  prologues, the call graph, direct calls, the graph of one function, prologues and epilogues.

  A \<open>HashSet\<close> is a set. The order in which the code iterates over one is the parameter \<open>iter\<close> of the
  operations whose result depends on it; it lists each element of the set once. A function whose blocks
  are collected into a sorted list first needs no such parameter.
\<close>

section \<open>Functions\<close>

record pvm_function =
  fn_entry :: usize
  fn_blocks :: "usize set"
  fn_name :: string

text \<open>A \<open>RawFunction\<close> is a pair of its entry and its blocks.\<close>

type_synonym raw_function = "usize \<times> usize set"

definition func_name :: "nat \<Rightarrow> string" where
  "func_name idx = ''func_'' @ show_nat idx"


section \<open>Connected components\<close>

function bfs_loop :: "control_flow_graph \<Rightarrow> usize list \<Rightarrow> usize set \<Rightarrow> usize set \<Rightarrow> usize set \<times> usize set" where
  "bfs_loop cfg [] visited component = (visited, component)"
| "bfs_loop cfg (pc # queue) visited component =
     (if pc \<in> visited then bfs_loop cfg queue visited component
      else let visited = insert pc visited in
        bfs_loop cfg
          (queue @ filter (\<lambda>s. s \<notin> visited) (cfg_succs cfg pc) @ filter (\<lambda>p. p \<notin> visited) (cfg_preds cfg pc))
          visited (insert pc component))"
  by pat_completeness auto

termination bfs_loop
proof (relation "measures [\<lambda>(cfg, queue, visited, component).
      card ((edge_targets cfg \<union> source_nodes cfg \<union> set queue) - visited),
    \<lambda>(cfg, queue, visited, component). length queue]", goal_cases)
  case (2 cfg pc queue visited component)
  then have "(edge_targets cfg \<union> source_nodes cfg \<union> set (pc # queue)) - visited =
      (edge_targets cfg \<union> source_nodes cfg \<union> set queue) - visited" by auto
  then show ?case by simp
next
  case (3 cfg pc queue visited component x)
  let ?q = "queue @ filter (\<lambda>s. s \<notin> x) (cfg_succs cfg pc) @ filter (\<lambda>p. p \<notin> x) (cfg_preds cfg pc)"
  have "set ?q \<subseteq> set queue \<union> edge_targets cfg \<union> source_nodes cfg"
    using cfg_succs_target cfg_preds_source by auto
  then have "(edge_targets cfg \<union> source_nodes cfg \<union> set ?q) - x
      \<subset> (edge_targets cfg \<union> source_nodes cfg \<union> set (pc # queue)) - visited"
    using 3 by auto
  then have "card ((edge_targets cfg \<union> source_nodes cfg \<union> set ?q) - x)
      < card ((edge_targets cfg \<union> source_nodes cfg \<union> set (pc # queue)) - visited)"
    by (intro psubset_card_mono) auto
  then show ?case by simp
qed simp

definition bfs_component :: "control_flow_graph \<Rightarrow> usize \<Rightarrow> usize set \<Rightarrow> usize set \<times> usize set" where
  "bfs_component cfg start visited = bfs_loop cfg [start] visited {}"

definition next_component :: "control_flow_graph \<Rightarrow> usize \<Rightarrow> usize set \<times> usize set list \<Rightarrow> usize set \<times> usize set list" where
  "next_component cfg start acc =
     (let (visited, components) = acc in
      if start \<in> visited then (visited, components)
      else let (visited, component) = bfs_component cfg start visited
           in (visited, components @ [component]))"

definition find_connected_components :: "control_flow_graph \<Rightarrow> usize set list" where
  "find_connected_components cfg =
     (let (visited, components) =
            (if entry_pc cfg \<in> cfg_nodes cfg then
               (let (visited, component) = bfs_component cfg (entry_pc cfg) {} in (visited, [component]))
             else ({}, []));
          remaining = sort (filter (\<lambda>pc. pc \<notin> visited) (map fst (blocks cfg)))
      in snd (fold (next_component cfg) remaining (visited, components)))"


section \<open>Splitting a component\<close>

definition find_component_entry :: "control_flow_graph \<Rightarrow> usize set \<Rightarrow> usize" where
  "find_component_entry cfg component =
     (let no_pred_entries = Set.filter (\<lambda>pc. case get_block cfg pc of
            Some block \<Rightarrow> \<not> list_ex (\<lambda>p. p \<in> component) (predecessors block) | None \<Rightarrow> False) component
      in if no_pred_entries \<noteq> {} then Min no_pred_entries else Min component)"

definition SP :: u8 where
  "SP = 2"

definition has_stack_prologue :: "control_flow_graph \<Rightarrow> usize \<Rightarrow> bool" where
  "has_stack_prologue cfg block_pc = (case get_block cfg block_pc of
      None \<Rightarrow> False
    | Some block \<Rightarrow> (case block_instrs block of
         [] \<Rightarrow> False
       | (_, first_instr) # _ \<Rightarrow> (case classify first_instr of
            ShBinImm _ _ dst src v \<Rightarrow> dst = SP \<and> src = SP \<and> sint v < 0
          | ShStore _ base _ _ \<Rightarrow> base = SP
          | _ \<Rightarrow> False)))"

definition is_jump :: "instruction_shape \<Rightarrow> bool" where
  "is_jump shape = (case shape of ShJump _ \<Rightarrow> True | _ \<Rightarrow> False)"

definition is_call_target :: "control_flow_graph \<Rightarrow> usize \<Rightarrow> usize set \<Rightarrow> bool" where
  "is_call_target cfg block_pc component = (case get_block cfg block_pc of
      None \<Rightarrow> False
    | Some block \<Rightarrow> list_ex (\<lambda>pred_pc. pred_pc \<in> component \<and>
        (case get_block cfg pred_pc of
           None \<Rightarrow> False
         | Some pred_block \<Rightarrow> block_instrs pred_block \<noteq> [] \<and> is_jump (classify (snd (last (block_instrs pred_block))))))
        (predecessors block))"

text \<open>\<open>assign_blocks_to_entries\<close>: a queue entry is taken up when it is closer than what is recorded, or
  as close with a smaller entry.\<close>

record assignment =
  distances :: "usize \<rightharpoonup> nat"
  assigned_entry :: "usize \<rightharpoonup> usize"

definition closer :: "usize \<Rightarrow> usize \<Rightarrow> nat \<Rightarrow> assignment \<Rightarrow> bool" where
  "closer entry pc dist a = (case distances a pc of
      None \<Rightarrow> True
    | Some prev_dist \<Rightarrow> dist < prev_dist \<or>
        (dist = prev_dist \<and> entry < (case assigned_entry a pc of Some e \<Rightarrow> e | None \<Rightarrow> usize_max)))"

definition take_up :: "usize \<Rightarrow> usize \<Rightarrow> nat \<Rightarrow> assignment \<Rightarrow> assignment" where
  "take_up entry pc dist a =
     a\<lparr>distances := (distances a)(pc \<mapsto> dist), assigned_entry := (assigned_entry a)(pc \<mapsto> entry)\<rparr>"

definition closer_succs :: "control_flow_graph \<Rightarrow> usize set \<Rightarrow> usize \<Rightarrow> nat \<Rightarrow> assignment \<Rightarrow> (usize \<times> nat) list" where
  "closer_succs cfg component pc dist a =
     map (\<lambda>succ. (succ, dist + 1)) (filter (\<lambda>succ. succ \<in> component \<and>
       (case distances a succ of None \<Rightarrow> True | Some prev \<Rightarrow> dist + 1 < prev)) (cfg_succs cfg pc))"

function assign_loop ::
  "control_flow_graph \<Rightarrow> usize set \<Rightarrow> usize \<Rightarrow> (usize \<times> nat) list \<Rightarrow> assignment \<Rightarrow> assignment" where
  "assign_loop cfg component entry [] a = a"
| "assign_loop cfg component entry ((pc, dist) # queue) a =
     (if pc \<notin> component then assign_loop cfg component entry queue a
      else if \<not> closer entry pc dist a then assign_loop cfg component entry queue a
      else let a = take_up entry pc dist a
           in assign_loop cfg component entry (queue @ closer_succs cfg component pc dist a) a)"
  by pat_completeness auto

text \<open>A round drops a queue entry, assigns a block, shortens a distance, or replaces the entry at the same
  distance. All blocks that occur are targets of edges or in the queue.\<close>

definition assign_scope :: "control_flow_graph \<Rightarrow> (usize \<times> nat) list \<Rightarrow> usize set" where
  "assign_scope cfg queue = edge_targets cfg \<union> fst ` set queue"

lemma assign_scope_finite [simp]: "finite (assign_scope cfg queue)"
  by (simp add: assign_scope_def)

lemma assign_scope_push:
  "assign_scope cfg (queue @ closer_succs cfg component pc dist a) \<subseteq> assign_scope cfg ((pc, dist) # queue)"
  using cfg_succs_target by (auto simp: assign_scope_def closer_succs_def)

definition recorded :: "assignment \<Rightarrow> usize \<Rightarrow> nat" where
  "recorded a pc = (case distances a pc of Some d \<Rightarrow> d | None \<Rightarrow> 0)"

lemma take_up_simps [simp]:
  "distances (take_up entry pc dist a) = (distances a)(pc \<mapsto> dist)"
  "assigned_entry (take_up entry pc dist a) = (assigned_entry a)(pc \<mapsto> entry)"
  by (simp_all add: take_up_def)

lemma scope_shrinks:
  assumes "finite U" "U' \<subseteq> U"
  shows "card {pc \<in> U'. P pc} \<le> card {pc \<in> U. P pc}" "sum (f :: usize \<Rightarrow> nat) U' \<le> sum f U"
  using assms by (auto intro!: card_mono sum_mono2)

lemma take_up_progress:
  assumes "finite U" "U' \<subseteq> U" "pc \<in> U" "closer entry pc dist a"
  defines "b \<equiv> take_up entry pc dist a"
  shows "card {x \<in> U'. distances b x = None} < card {x \<in> U. distances a x = None} \<or>
    card {x \<in> U'. distances b x = None} \<le> card {x \<in> U. distances a x = None} \<and>
      (sum (recorded b) U' < sum (recorded a) U \<or>
       sum (recorded b) U' \<le> sum (recorded a) U \<and>
         card {x \<in> U'. assigned_entry b x \<noteq> Some entry} < card {x \<in> U. assigned_entry a x \<noteq> Some entry})"
proof -
  have fin: "finite U'" using assms(1,2) finite_subset by blast
  have none: "card {x \<in> U'. distances b x = None} \<le> card {x \<in> U. distances a x = None}"
    using assms(1,2) by (intro card_mono) (auto simp: b_def split: if_splits)
  show ?thesis
  proof (cases "distances a pc")
    case None
    then have "{x \<in> U'. distances b x = None} \<subset> {x \<in> U. distances a x = None}"
      using assms(2,3) by (auto simp: b_def split: if_splits)
    then have "card {x \<in> U'. distances b x = None} < card {x \<in> U. distances a x = None}"
      using assms(1) by (intro psubset_card_mono) auto
    then show ?thesis by blast
  next
    case (Some d)
    have le: "recorded b x \<le> recorded a x" for x
      using assms(4) Some by (auto simp: b_def recorded_def closer_def)
    have U: "sum (recorded b) U' \<le> sum (recorded b) U" by (rule scope_shrinks(2) [OF assms(1,2)])
    show ?thesis
    proof (cases "dist < d")
      case True
      then have "recorded b pc < recorded a pc" using Some by (simp add: b_def recorded_def)
      then have "sum (recorded b) U < sum (recorded a) U"
        using assms(1,3) le by (intro sum_strict_mono_ex1) auto
      then show ?thesis using U none by linarith
    next
      case False
      then have "assigned_entry a pc \<noteq> Some entry" using assms(4) Some by (auto simp: closer_def)
      then have "{x \<in> U'. assigned_entry b x \<noteq> Some entry} \<subset> {x \<in> U. assigned_entry a x \<noteq> Some entry}"
        using assms(2,3) by (auto simp: b_def split: if_splits)
      then have "card {x \<in> U'. assigned_entry b x \<noteq> Some entry} < card {x \<in> U. assigned_entry a x \<noteq> Some entry}"
        using assms(1) by (intro psubset_card_mono) auto
      moreover have "sum (recorded b) U \<le> sum (recorded a) U" using le by (rule sum_mono)
      ultimately show ?thesis using U none by linarith
    qed
  qed
qed

lemma drop_progress:
  "card {x \<in> assign_scope cfg queue. P x} \<le> card {x \<in> assign_scope cfg (q # queue). P x}"
  "sum (f :: usize \<Rightarrow> nat) (assign_scope cfg queue) \<le> sum f (assign_scope cfg (q # queue))"
  by (rule scope_shrinks; auto simp: assign_scope_def)+

termination assign_loop
proof (relation "measures [\<lambda>(cfg, component, entry, queue, a). card {x \<in> assign_scope cfg queue. distances a x = None},
    \<lambda>(cfg, component, entry, queue, a). sum (recorded a) (assign_scope cfg queue),
    \<lambda>(cfg, component, entry, queue, a). card {x \<in> assign_scope cfg queue. assigned_entry a x \<noteq> Some entry},
    \<lambda>(cfg, component, entry, queue, a). length queue]", goal_cases)
  case (2 cfg component entry pc dist queue a)
  show ?case
    using drop_progress(1) [where cfg = cfg and queue = queue and P = "\<lambda>x. distances a x = None" and q = "(pc, dist)"]
      drop_progress(2) [where f = "recorded a" and cfg = cfg and queue = queue and q = "(pc, dist)"]
      drop_progress(1) [where cfg = cfg and queue = queue and P = "\<lambda>x. assigned_entry a x \<noteq> Some entry" and q = "(pc, dist)"]
    by (simp only: le_less) auto
next
  case (3 cfg component entry pc dist queue a)
  show ?case
    using drop_progress(1) [where cfg = cfg and queue = queue and P = "\<lambda>x. distances a x = None" and q = "(pc, dist)"]
      drop_progress(2) [where f = "recorded a" and cfg = cfg and queue = queue and q = "(pc, dist)"]
      drop_progress(1) [where cfg = cfg and queue = queue and P = "\<lambda>x. assigned_entry a x \<noteq> Some entry" and q = "(pc, dist)"]
    by (simp only: le_less) auto
next
  case (4 cfg component entry pc dist queue a x)
  have pc: "pc \<in> assign_scope cfg ((pc, dist) # queue)" by (simp add: assign_scope_def)
  have c: "closer entry pc dist a" using 4(2) by simp
  show ?case
    using take_up_progress [OF assign_scope_finite assign_scope_push pc c] unfolding 4(3)
    by (auto simp only: in_measures split_conv le_less)
qed simp

text \<open>The entries are tried in the order they are given.\<close>

definition assign_blocks_to_entries :: "control_flow_graph \<Rightarrow> usize set \<Rightarrow> usize list \<Rightarrow> usize \<rightharpoonup> usize" where
  "assign_blocks_to_entries cfg component entries =
     assigned_entry (fold (\<lambda>entry. assign_loop cfg component entry [(entry, 0)]) entries
       \<lparr>distances = Map.empty, assigned_entry = Map.empty\<rparr>)"

text \<open>The candidates are sorted before they are used, so the order of the component is irrelevant.\<close>

definition prologue_entries :: "control_flow_graph \<Rightarrow> usize set \<Rightarrow> usize list" where
  "prologue_entries cfg component =
     (let component_entry = find_component_entry cfg component
      in sorted_list_of_set (Set.filter (\<lambda>block_pc. block_pc \<noteq> component_entry \<and>
           has_stack_prologue cfg block_pc \<and> is_call_target cfg block_pc component) component))"

definition split_at_prologues :: "control_flow_graph \<Rightarrow> usize set \<Rightarrow> raw_function list" where
  "split_at_prologues cfg component =
     (if card component \<le> 1 then [(Min component, component)]
      else let component_entry = find_component_entry cfg component;
               entries = prologue_entries cfg component
      in if entries = [] then [(component_entry, component)]
      else let all_entries = component_entry # entries;
               assignments = assign_blocks_to_entries cfg component all_entries
      in filter (\<lambda>(_, block_pcs). block_pcs \<noteq> {})
           (map (\<lambda>entry. (entry, Set.filter (\<lambda>pc. assignments pc = Some entry) component)) all_entries))"

definition name_function :: "control_flow_graph \<Rightarrow> raw_function \<Rightarrow> nat \<times> pvm_function list \<Rightarrow> nat \<times> pvm_function list" where
  "name_function cfg sub_fn acc =
     (let (func_idx, functions) = acc; (entry, block_pcs) = sub_fn;
          name = (if entry = entry_pc cfg then ''main'' else func_name func_idx)
      in (func_idx + 1, functions @ [\<lparr>fn_entry = entry, fn_blocks = block_pcs, fn_name = name\<rparr>]))"

fun renumber :: "nat \<Rightarrow> pvm_function list \<Rightarrow> pvm_function list" where
  "renumber idx [] = []"
| "renumber idx (f # fs) =
     (if fn_name f \<noteq> ''main'' then f\<lparr>fn_name := func_name idx\<rparr> # renumber (idx + 1) fs
      else f # renumber idx fs)"

definition detect_functions :: "control_flow_graph \<Rightarrow> pvm_function list" where
  "detect_functions cfg =
     (if blocks cfg = [] then []
      else let components = find_connected_components cfg;
               (func_idx, functions) =
                 fold (\<lambda>component acc. fold (name_function cfg) (split_at_prologues cfg component) acc) components (0, [])
           in renumber 0 (sort_key fn_entry functions))"


section \<open>Calls\<close>

record call_site =
  site_block :: usize
  callee_entry :: usize
  site_callee_name :: string

text \<open>A map filled by inserting keeps the last value of a key: \<open>block_to_func\<close> and \<open>func_names\<close>.\<close>

definition block_to_func :: "pvm_function list \<Rightarrow> usize \<rightharpoonup> usize" where
  "block_to_func functions block_pc =
     map_option fn_entry (find (\<lambda>f. block_pc \<in> fn_blocks f) (rev functions))"

definition func_names :: "pvm_function list \<Rightarrow> usize \<rightharpoonup> string" where
  "func_names functions entry = map_option fn_name (find (\<lambda>f. fn_entry f = entry) (rev functions))"

text \<open>\<open>format!("func_at_{:#06x}", n)\<close> pads the digits to four.\<close>

definition func_at_name :: "usize \<Rightarrow> string" where
  "func_at_name n =
     (let digits = show_base 16 n
      in ''func_at_0x'' @ replicate (4 - length digits) (CHR ''0'') @ digits)"

definition callee_name :: "pvm_function list \<Rightarrow> usize \<Rightarrow> string" where
  "callee_name functions entry =
     (case func_names functions entry of Some name \<Rightarrow> name | None \<Rightarrow> func_at_name entry)"

definition call_sites_of_block ::
  "control_flow_graph \<Rightarrow> pvm_function list \<Rightarrow> pvm_function \<Rightarrow> usize \<Rightarrow> call_site list" where
  "call_sites_of_block cfg functions func block_pc = concat (map (\<lambda>succ.
     case block_to_func functions succ of
       Some succ_func_entry \<Rightarrow>
         if succ_func_entry \<noteq> fn_entry func \<and> succ = succ_func_entry then
           [\<lparr>site_block = block_pc, callee_entry = succ_func_entry,
             site_callee_name = callee_name functions succ_func_entry\<rparr>]
         else []
     | None \<Rightarrow> []) (cfg_succs cfg block_pc))"

definition build_call_graph ::
  "(usize set \<Rightarrow> usize list) \<Rightarrow> control_flow_graph \<Rightarrow> pvm_function list \<Rightarrow> usize \<rightharpoonup> call_site list" where
  "build_call_graph iter cfg functions =
     fold (\<lambda>func m. fold (\<lambda>block_pc m. fold (push_entry (fn_entry func))
         (call_sites_of_block cfg functions func block_pc) m) (iter (fn_blocks func)) m) functions Map.empty"

record direct_call_pattern =
  caller_block_pc :: usize
  load_imm_pc :: usize
  jump_pc :: usize
  jump_target_pc :: usize
  return_pc :: usize
  pattern_callee_name :: string

definition JUMP_ALIGNMENT_FACTOR :: nat where
  "JUMP_ALIGNMENT_FACTOR = 2"

fun skip_fallthrough :: "(usize \<times> instruction) list \<Rightarrow> (usize \<times> instruction) list" where
  "skip_fallthrough ((pc, instr) # rest) =
     (case instr of Fallthrough \<Rightarrow> skip_fallthrough rest | _ \<Rightarrow> (pc, instr) # rest)"
| "skip_fallthrough [] = []"

text \<open>The callee of a jump from a function: the function of its target, or, when the target is in the
  function itself, the entry at the return address.\<close>

definition callee_of_jump :: "pvm_function list \<Rightarrow> usize \<Rightarrow> usize \<Rightarrow> usize \<Rightarrow> usize option" where
  "callee_of_jump functions caller_block jump_target ret_pc =
     (case block_to_func functions caller_block of
        None \<Rightarrow> None
      | Some caller_entry \<Rightarrow> (case block_to_func functions jump_target of
          None \<Rightarrow> None
        | Some target_entry \<Rightarrow>
            if caller_entry = target_entry then
              if ret_pc \<in> fn_entry ` set functions \<and> ret_pc \<noteq> caller_entry then Some ret_pc else None
            else Some target_entry))"

definition pattern_at ::
  "decoded_program \<Rightarrow> pvm_function list \<Rightarrow> usize \<Rightarrow> usize \<Rightarrow> u64 \<Rightarrow> (usize \<times> instruction) list \<Rightarrow> direct_call_pattern list" where
  "pattern_at p functions block_pc load_pc v rest = (case skip_fallthrough rest of
      [] \<Rightarrow> []
    | (j_pc, instr) # _ \<Rightarrow> (case instr of
        Jump offset \<Rightarrow>
          if unat v = 0 \<or> unat v mod JUMP_ALIGNMENT_FACTOR \<noteq> 0 then []
          else let table_index = unat v div JUMP_ALIGNMENT_FACTOR - 1 in
          if table_index \<ge> length (jump_table p) then []
          else let jump_target = compute_jump_target j_pc offset;
                   ret_pc = unat (jump_table p ! table_index)
          in (case callee_of_jump functions block_pc jump_target ret_pc of
                None \<Rightarrow> []
              | Some callee \<Rightarrow>
                  [\<lparr>caller_block_pc = block_pc, load_imm_pc = load_pc, jump_pc = j_pc, jump_target_pc = jump_target,
                    return_pc = ret_pc, pattern_callee_name = callee_name functions callee\<rparr>])
      | _ \<Rightarrow> []))"

fun patterns_of_block ::
  "decoded_program \<Rightarrow> pvm_function list \<Rightarrow> usize \<Rightarrow> (usize \<times> instruction) list \<Rightarrow> direct_call_pattern list" where
  "patterns_of_block p functions block_pc [] = []"
| "patterns_of_block p functions block_pc ((load_pc, instr) # rest) =
     (case instr of
        LoadImm64 reg v \<Rightarrow> if reg = 0 then pattern_at p functions block_pc load_pc v rest else []
      | _ \<Rightarrow> []) @ patterns_of_block p functions block_pc rest"

definition detect_direct_call_patterns ::
  "control_flow_graph \<Rightarrow> pvm_function list \<Rightarrow> decoded_program \<Rightarrow> direct_call_pattern list" where
  "detect_direct_call_patterns cfg functions p =
     concat (map (\<lambda>(_, block). patterns_of_block p functions (start_pc block) (block_instrs block)) (blocks cfg))"


section \<open>The graph of a function\<close>

text \<open>\<open>blocks.get_mut(&pc)\<close> with a change: nothing happens when the block is missing.\<close>

definition modify_block :: "usize \<Rightarrow> (basic_block \<Rightarrow> basic_block) \<Rightarrow> control_flow_graph \<Rightarrow> control_flow_graph" where
  "modify_block pc f cfg = (case get_block cfg pc of
      None \<Rightarrow> cfg
    | Some b \<Rightarrow> cfg\<lparr>blocks := AList.update pc (f b) (blocks cfg)\<rparr>)"

definition push_unless :: "usize \<Rightarrow> usize list \<Rightarrow> usize list" where
  "push_unless x xs = (if x \<in> set xs then xs else xs @ [x])"

text \<open>The two places that add an edge do so in the same way.\<close>

definition add_edge :: "usize \<Rightarrow> usize \<Rightarrow> control_flow_graph \<Rightarrow> control_flow_graph" where
  "add_edge src dst cfg =
     modify_block dst (\<lambda>b. b\<lparr>predecessors := push_unless src (predecessors b)\<rparr>)
       (modify_block src (\<lambda>b. b\<lparr>successors := push_unless dst (successors b)\<rparr>) cfg)"

definition sub_blocks :: "(usize set \<Rightarrow> usize list) \<Rightarrow> control_flow_graph \<Rightarrow> pvm_function \<Rightarrow> control_flow_graph" where
  "sub_blocks iter cfg f = fold (\<lambda>block_pc sub_cfg. case get_block cfg block_pc of
      None \<Rightarrow> sub_cfg
    | Some block \<Rightarrow> add_block sub_cfg (block
        \<lparr>successors := filter (\<lambda>s. s \<in> fn_blocks f) (successors block),
         predecessors := filter (\<lambda>p. p \<in> fn_blocks f) (predecessors block)\<rparr>)) (iter (fn_blocks f)) (cfg_new (fn_entry f))"

definition add_return_edge :: "pvm_function \<Rightarrow> direct_call_pattern \<Rightarrow> control_flow_graph \<Rightarrow> control_flow_graph" where
  "add_return_edge f pat sub_cfg =
     (if caller_block_pc pat \<in> fn_blocks f \<and> return_pc pat \<in> fn_blocks f
      then add_edge (caller_block_pc pat) (return_pc pat) sub_cfg else sub_cfg)"

definition orphan_continuations :: "pvm_function \<Rightarrow> u32 list \<Rightarrow> control_flow_graph \<Rightarrow> usize list" where
  "orphan_continuations f jt sub_cfg = sort (map fst (filter (\<lambda>(pc, block).
     pc \<noteq> fn_entry f \<and> predecessors block = [] \<and> pc \<in> unat ` set jt) (blocks sub_cfg)))"

definition add_trampoline_edge ::
  "pvm_function \<Rightarrow> u32 list \<Rightarrow> direct_call_pattern \<Rightarrow> control_flow_graph \<Rightarrow> control_flow_graph" where
  "add_trampoline_edge f jt pat sub_cfg =
     (if caller_block_pc pat \<in> fn_blocks f \<and> return_pc pat \<notin> fn_blocks f \<and> jump_target_pc pat \<in> fn_blocks f then
        let orphans = orphan_continuations f jt sub_cfg in
        (case (case find (\<lambda>pc. pc > caller_block_pc pat) orphans of
                 Some pc \<Rightarrow> Some pc
               | None \<Rightarrow> (case orphans of [] \<Rightarrow> None | pc # _ \<Rightarrow> Some pc)) of
           Some continuation_pc \<Rightarrow> add_edge (jump_target_pc pat) continuation_pc sub_cfg
         | None \<Rightarrow> sub_cfg)
      else sub_cfg)"

definition build_function_cfg ::
  "(usize set \<Rightarrow> usize list) \<Rightarrow> control_flow_graph \<Rightarrow> pvm_function \<Rightarrow> direct_call_pattern list \<Rightarrow> u32 list \<Rightarrow> control_flow_graph" where
  "build_function_cfg iter cfg f direct_call_patterns jt =
     fold (add_trampoline_edge f jt) direct_call_patterns
       (fold (add_return_edge f) direct_call_patterns (sub_blocks iter cfg f))"

end
