(* ===== verification/Idioms.thy ===== *)
theory Idioms
  imports Functions
begin

text \<open>
  Compiler idioms recognised in a function (\<open>src/functions.rs\<close>): return and halt epilogues, the
  prologue of the entry block, and the heap allocation of AssemblyScript programs.
\<close>

section \<open>Instruction patterns\<close>

definition load_ind :: "load_ind_op \<Rightarrow> instruction \<Rightarrow> (u8 \<times> u8) option" where
  "load_ind opc instr = (case instr of
     LoadInd opc' dst base _ \<Rightarrow> if opc' = opc then Some (dst, base) else None | _ \<Rightarrow> None)"

definition store_ind :: "store_ind_op \<Rightarrow> instruction \<Rightarrow> (u8 \<times> u8 \<times> i32) option" where
  "store_ind opc instr = (case instr of
     StoreInd opc' base src offset \<Rightarrow> if opc' = opc then Some (base, src, offset) else None | _ \<Rightarrow> None)"

definition load_imm_value :: "instruction \<Rightarrow> i32 option" where
  "load_imm_value instr = (case instr of LoadImm _ v \<Rightarrow> Some v | _ \<Rightarrow> None)"

definition add_imm64 :: "u8 \<Rightarrow> u8 \<Rightarrow> instruction \<Rightarrow> int option" where
  "add_imm64 dst src instr = (case instr of
     TwoRegImm opc dst' src' v \<Rightarrow> if opc = AddImm64 \<and> dst' = dst \<and> src' = src then Some (sint v) else None
   | _ \<Rightarrow> None)"

definition callee_saved :: "u8 list" where
  "callee_saved = [9, 10, 11, 12]"


section \<open>Epilogues\<close>

datatype epilogue_kind = Return "usize list" | Halt "usize list"

definition halt_epilogue :: "(usize \<times> instruction) list \<Rightarrow> epilogue_kind option" where
  "halt_epilogue instrs =
     (if length instrs \<ge> 2 then
        let (j_pc, jump_instr) = instrs ! (length instrs - 1); (load_pc, load_instr) = instrs ! (length instrs - 2) in
        (case jump_instr of
           JumpInd jump_reg _ \<Rightarrow> (case load_instr of
             LoadImm load_reg v \<Rightarrow> if v = - 0x10000 \<and> jump_reg = load_reg then Some (Halt [load_pc, j_pc]) else None
           | _ \<Rightarrow> None)
         | _ \<Rightarrow> None)
      else None)"

text \<open>The scan goes down from index \<open>i\<close> and stops before index 0.\<close>

fun scan_restores :: "(usize \<times> instruction) list \<Rightarrow> nat \<Rightarrow> usize list" where
  "scan_restores instrs 0 = []"
| "scan_restores instrs (Suc i) =
     (let (pc, instr) = instrs ! Suc i in
      case load_ind LoadIndU64 instr of
        Some (dst, base) \<Rightarrow> if base = 1 \<and> dst \<in> set callee_saved then pc # scan_restores instrs i else []
      | None \<Rightarrow> [])"

definition return_epilogue :: "(usize \<times> instruction) list \<Rightarrow> epilogue_kind option" where
  "return_epilogue instrs =
     (let len = length instrs in
      if len < 3 then None
      else let (j_pc, jump_instr) = instrs ! (len - 1) in
      if (case jump_instr of JumpInd reg offset \<Rightarrow> reg \<noteq> 0 \<or> offset \<noteq> 0 | _ \<Rightarrow> True) then None
      else let (sp_pc, sp_instr) = instrs ! (len - 2) in
      if (case add_imm64 1 1 sp_instr of Some v \<Rightarrow> \<not> v > 0 | None \<Rightarrow> True) then None
      else let (r0_pc, r0_instr) = instrs ! (len - 3) in
      if load_ind LoadIndU64 r0_instr \<noteq> Some (0, 1) then None
      else Some (Return ([r0_pc, sp_pc, j_pc] @ scan_restores instrs (len - 4))))"

definition block_epilogue :: "basic_block \<Rightarrow> epilogue_kind option" where
  "block_epilogue block = (case halt_epilogue (block_instrs block) of
      Some e \<Rightarrow> Some e
    | None \<Rightarrow> return_epilogue (block_instrs block))"

definition detect_epilogues :: "control_flow_graph \<Rightarrow> usize \<rightharpoonup> epilogue_kind" where
  "detect_epilogues cfg pc = Option.bind (get_block cfg pc) block_epilogue"


section \<open>Prologues\<close>

definition stack_guard_pcs :: "(usize \<times> instruction) list \<Rightarrow> usize list" where
  "stack_guard_pcs instrs = (case dropWhile (\<lambda>(_, i). i = Fallthrough) instrs of
      (pc0, instr0) # (pc1, instr1) # (pc2, instr2) # _ \<Rightarrow>
        if (case instr0 of LoadImm64 reg _ \<Rightarrow> reg = 2 | _ \<Rightarrow> False)
         \<and> (case add_imm64 3 1 instr1 of Some v \<Rightarrow> v < 0 | None \<Rightarrow> False)
         \<and> (case instr2 of BranchReg opc reg1 reg2 _ \<Rightarrow> opc = BranchGeU \<and> reg1 = 2 \<and> reg2 = 3 | _ \<Rightarrow> False)
        then [pc0, pc1, pc2] else []
    | _ \<Rightarrow> [])"

definition is_frame_setup :: "instruction \<Rightarrow> bool" where
  "is_frame_setup instr =
     ((case add_imm64 1 1 instr of Some v \<Rightarrow> v < 0 | None \<Rightarrow> False) \<or>
      (case store_ind StoreIndU64 instr of
         Some (base, src, offset) \<Rightarrow> base = 1 \<and> (src = 0 \<and> offset = 0 \<or> src \<in> set callee_saved)
       | None \<Rightarrow> False))"

definition detect_prologue :: "control_flow_graph \<Rightarrow> usize \<Rightarrow> usize list" where
  "detect_prologue cfg entry = (case get_block cfg entry of
      None \<Rightarrow> []
    | Some entry_block \<Rightarrow> stack_guard_pcs (block_instrs entry_block) @
        concat (map (\<lambda>block_pc. case get_block cfg block_pc of
            Some block \<Rightarrow> map fst (filter (\<lambda>(_, instr). is_frame_setup instr) (block_instrs block))
          | None \<Rightarrow> []) (entry # successors entry_block)))"


section \<open>Heap allocation\<close>

record heap_alloc_pattern =
  sbrk_blocks :: "usize list"
  eliminated_pcs :: "usize list"
  convergence_block_pc :: usize
  alloc_size :: u64
  linear_memory_offset :: "u64 option"
  heap_ptr_arithmetic_pcs :: "usize list"
  header_write_pcs :: "usize list"

text \<open>The base is a 64-bit number; it and its sum with 20 are read as signed.\<close>

definition near_memory_base :: "u64 \<Rightarrow> i32 \<Rightarrow> bool" where
  "near_memory_base base v \<longleftrightarrow> sint base \<le> sint v \<and> sint v < sint (base + 20)"

text \<open>Steps 1 and 2: the first load of a global in the part of the block that starts at index \<open>idx\<close>.\<close>

fun find_global_load :: "(i32 \<Rightarrow> bool) \<Rightarrow> nat \<Rightarrow> (usize \<times> instruction) list \<Rightarrow> (nat \<times> i32) option" where
  "find_global_load near idx [] = None"
| "find_global_load near idx ((_, instr) # rest) =
     (case load_imm_value instr of
        Some v \<Rightarrow>
          if near v \<and> rest \<noteq> [] \<and> load_ind LoadIndU32 (snd (hd rest)) \<noteq> None then Some (idx, v)
          else find_global_load near (idx + 1) rest
      | None \<Rightarrow> find_global_load near (idx + 1) rest)"

text \<open>Step 3: the store of the heap pointer; the positions of the store-back and of a header write.\<close>

definition header_write :: "(usize \<times> instruction) list \<Rightarrow> usize list" where
  "header_write rest = (case rest of
      (pc0, instr0) # (pc1, instr1) # (pc2, instr2) # _ \<Rightarrow>
        if load_ind LoadIndU64 instr0 \<noteq> None \<and> load_imm_value instr1 \<noteq> None \<and> store_ind StoreIndU32 instr2 \<noteq> None
        then [pc0, pc1, pc2] else []
    | _ \<Rightarrow> [])"

definition store_value_pcs :: "(usize \<times> instruction) option \<Rightarrow> u8 \<Rightarrow> usize list" where
  "store_value_pcs prev store_src = (case prev of
      None \<Rightarrow> []
    | Some (pc, instr) \<Rightarrow> (case load_ind LoadIndU64 instr of
        Some (load_dst, _) \<Rightarrow> if load_dst = store_src then [pc] else []
      | None \<Rightarrow> []))"

fun find_store_back ::
  "i32 \<Rightarrow> (usize \<times> instruction) option \<Rightarrow> (usize \<times> instruction) list \<Rightarrow> (usize list \<times> usize list) option" where
  "find_store_back addr prev [] = None"
| "find_store_back addr prev ((pc, instr) # rest) =
     (case (if load_imm_value instr = Some addr \<and> rest \<noteq> [] then store_ind StoreIndU32 (snd (hd rest)) else None) of
        Some (_, store_src, _) \<Rightarrow>
          Some (store_value_pcs prev store_src @ [pc, fst (hd rest)], header_write (tl rest))
      | None \<Rightarrow> find_store_back addr (Some (pc, instr)) rest)"

fun find_convergence ::
  "control_flow_graph \<Rightarrow> usize \<Rightarrow> i32 \<Rightarrow> usize list \<Rightarrow> (usize \<times> usize list \<times> usize list) option" where
  "find_convergence cfg entry addr [] = None"
| "find_convergence cfg entry addr (pc # pcs) =
     (if pc = entry then find_convergence cfg entry addr pcs
      else case get_block cfg pc of
        None \<Rightarrow> find_convergence cfg entry addr pcs
      | Some block \<Rightarrow> (case find_store_back addr None (block_instrs block) of
          Some (store_pcs, header_pcs) \<Rightarrow> Some (pc, store_pcs, header_pcs)
        | None \<Rightarrow> find_convergence cfg entry addr pcs))"

text \<open>Step 4b.\<close>

definition alloc_step :: "usize \<times> instruction \<Rightarrow> u64 \<times> i32 option \<Rightarrow> u64 \<times> i32 option" where
  "alloc_step x acc =
     (let (_, instr) = x; (total, pending_const) = acc in
      case instr of
        LoadImm _ v \<Rightarrow> if sint v > 0 then (total, Some v) else (total, pending_const)
      | ThreeReg opc _ _ _ \<Rightarrow>
          if opc = Add32 then
            (case pending_const of Some c \<Rightarrow> (total + scast c, None) | None \<Rightarrow> (total, None))
          else (total, None)
      | _ \<Rightarrow> (total, None))"

text \<open>Step 6.\<close>

function sbrk_loop :: "control_flow_graph \<Rightarrow> usize list \<Rightarrow> usize set \<Rightarrow> usize list \<Rightarrow> usize list" where
  "sbrk_loop cfg [] visited found = found"
| "sbrk_loop cfg (bp # queue) visited found =
     (if bp \<in> visited then sbrk_loop cfg queue visited found
      else let visited = insert bp visited
           in sbrk_loop cfg (queue @ filter (\<lambda>s. s \<notin> visited) (cfg_succs cfg bp)) visited (found @ [bp]))"
  by pat_completeness auto

termination sbrk_loop
proof (relation "measures [\<lambda>(cfg, queue, visited, found). card ((edge_targets cfg \<union> set queue) - visited),
    \<lambda>(cfg, queue, visited, found). length queue]", goal_cases)
  case (2 cfg bp queue visited found)
  then have "(edge_targets cfg \<union> set (bp # queue)) - visited = (edge_targets cfg \<union> set queue) - visited" by auto
  then show ?case by simp
next
  case (3 cfg bp queue visited found x)
  let ?q = "queue @ filter (\<lambda>s. s \<notin> x) (cfg_succs cfg bp)"
  have "set ?q \<subseteq> set queue \<union> edge_targets cfg" using cfg_succs_target by auto
  then have "(edge_targets cfg \<union> set ?q) - x \<subset> (edge_targets cfg \<union> set (bp # queue)) - visited" using 3 by auto
  then have "card ((edge_targets cfg \<union> set ?q) - x) < card ((edge_targets cfg \<union> set (bp # queue)) - visited)"
    by (intro psubset_card_mono) auto
  then show ?case by simp
qed simp

text \<open>Step 7: the offset of a load or store, sign extended to 64 bits, and the most frequent one above the base.\<close>

definition access_offset :: "instruction \<Rightarrow> u64 list" where
  "access_offset instr = (case instr of
      StoreInd _ _ _ offset \<Rightarrow> [scast offset]
    | LoadInd opc _ _ offset \<Rightarrow>
        if opc \<in> {LoadIndU32, LoadIndU64, LoadIndU16, LoadIndU8} then [scast offset] else []
    | _ \<Rightarrow> [])"

definition most_frequent :: "u64 list \<Rightarrow> u64 option" where
  "most_frequent offs =
     (if offs = [] then None
      else let best_count = Max (count_list offs ` set offs);
               winners = filter (\<lambda>off. count_list offs off = best_count) (sort (remdups offs))
           in (case winners of [w] \<Rightarrow> Some w | _ \<Rightarrow> None))"

definition detect_linear_memory_offset :: "u64 \<Rightarrow> (usize \<times> instruction) list \<Rightarrow> u64 option" where
  "detect_linear_memory_offset base instrs =
     most_frequent (filter (\<lambda>off. off > base) (concat (map (access_offset \<circ> snd) instrs)))"

definition detect_heap_alloc_pattern ::
  "control_flow_graph \<Rightarrow> usize \<Rightarrow> u64 option \<Rightarrow> heap_alloc_pattern option" where
  "detect_heap_alloc_pattern cfg entry mem_base =
     Option.bind mem_base (\<lambda>base.
     Option.bind (get_block cfg entry) (\<lambda>entry_block.
     let instrs = block_instrs entry_block in
     Option.bind (find_global_load (near_memory_base base) 0 instrs) (\<lambda>(ptr_idx, ptr_addr).
     Option.bind (find_global_load (\<lambda>v. near_memory_base base v \<and> v \<noteq> ptr_addr) (ptr_idx + 2) (drop (ptr_idx + 2) instrs))
       (\<lambda>(pages_idx, _).
     Option.bind (find_convergence cfg entry ptr_addr (sort (map fst (blocks cfg)))) (\<lambda>(conv_pc, store_pcs, header_pcs).
     let arithmetic = drop ptr_idx (take pages_idx instrs);
         sbrks = sbrk_loop cfg (filter (\<lambda>s. s \<noteq> conv_pc) (successors entry_block)) {entry, conv_pc} []
     in if sbrks = [] then None
        else Some \<lparr>sbrk_blocks = sbrks, eliminated_pcs = map fst (drop pages_idx instrs) @ store_pcs,
               convergence_block_pc = conv_pc, alloc_size = fst (fold alloc_step arithmetic (0, None)),
               linear_memory_offset = (case get_block cfg conv_pc of
                   Some conv_block \<Rightarrow> detect_linear_memory_offset base (block_instrs conv_block) | None \<Rightarrow> None),
               heap_ptr_arithmetic_pcs = map fst arithmetic, header_write_pcs = header_pcs\<rparr>)))))"

end
