(* ===== verification/Functions_Correct.thy ===== *)
theory Functions_Correct
  imports Idioms
begin

text \<open>
  Function detection: the components are the connected ones, the functions are disjoint, own their
  entries and are closed under control flow, and the graph of a function satisfies \<open>flow_graph\<close> again, so
  that every analysis proved for the whole graph holds for the graph of a function.
\<close>

section \<open>Connected components\<close>

definition linked :: "control_flow_graph \<Rightarrow> usize \<Rightarrow> usize \<Rightarrow> bool" where
  "linked cfg u v \<longleftrightarrow> edge cfg u v \<or> edge cfg v u"

definition component_of :: "control_flow_graph \<Rightarrow> usize \<Rightarrow> usize set" where
  "component_of cfg s = {u. (linked cfg)\<^sup>*\<^sup>* s u}"

lemma linked_sym: "linked cfg u v \<Longrightarrow> linked cfg v u"
  by (auto simp: linked_def)

lemma component_self [simp]: "s \<in> component_of cfg s"
  by (simp add: component_of_def)

lemma connected_sym: "(linked cfg)\<^sup>*\<^sup>* u v \<Longrightarrow> (linked cfg)\<^sup>*\<^sup>* v u"
  by (induction rule: rtranclp_induct) (auto intro: linked_sym converse_rtranclp_into_rtranclp)

lemma component_eq: "u \<in> component_of cfg s \<Longrightarrow> component_of cfg u = component_of cfg s"
  unfolding component_of_def using connected_sym by (blast intro: rtranclp_trans)

context flow_graph
begin

lemma neighbours: "set (cfg_succs cfg n) \<union> set (cfg_preds cfg n) = {m. linked cfg n m}"
  using edge_pred pred_edge by (auto simp: linked_def edge_def)

lemma linked_nodes: "linked cfg u v \<Longrightarrow> u \<in> cfg_nodes cfg \<and> v \<in> cfg_nodes cfg"
  using edge_source edge_target by (auto simp: linked_def)

lemma component_nodes: "s \<in> cfg_nodes cfg \<Longrightarrow> component_of cfg s \<subseteq> cfg_nodes cfg"
proof
  fix u
  assume "s \<in> cfg_nodes cfg" "u \<in> component_of cfg s"
  then have "(linked cfg)\<^sup>*\<^sup>* s u" by (simp add: component_of_def)
  then show "u \<in> cfg_nodes cfg"
    using \<open>s \<in> cfg_nodes cfg\<close> linked_nodes by (induction rule: rtranclp_induct) auto
qed

end

lemma bfs_loop_result:
  "(\<forall>n. set (cfg_succs cfg n) \<union> set (cfg_preds cfg n) = {m. linked cfg n m}) \<Longrightarrow>
   visited = V0 \<union> got \<Longrightarrow> got \<inter> V0 = {} \<Longrightarrow> (\<forall>n \<in> got \<union> set queue. (linked cfg)\<^sup>*\<^sup>* s n) \<Longrightarrow>
   (\<forall>n \<in> got. {m. linked cfg n m} \<subseteq> visited \<union> set queue) \<Longrightarrow>
   \<exists>C. bfs_loop cfg queue visited got = (V0 \<union> C, C) \<and> C \<inter> V0 = {} \<and> got \<union> (set queue - V0) \<subseteq> C \<and>
     (\<forall>n \<in> C. (linked cfg)\<^sup>*\<^sup>* s n \<and> {m. linked cfg n m} \<subseteq> V0 \<union> C)"
proof (induction cfg queue visited got rule: bfs_loop.induct)
  case (1 cfg visited got)
  then show ?case by auto
next
  case (2 cfg pc queue visited got)
  show ?case
  proof (cases "pc \<in> visited")
    case True
    have "\<exists>C. bfs_loop cfg queue visited got = (V0 \<union> C, C) \<and> C \<inter> V0 = {} \<and> got \<union> (set queue - V0) \<subseteq> C \<and>
       (\<forall>n \<in> C. (linked cfg)\<^sup>*\<^sup>* s n \<and> {m. linked cfg n m} \<subseteq> V0 \<union> C)"
      by (rule 2(1) [OF True 2(3) 2(4) 2(5)]) (use 2(6,7) True in auto)
    then show ?thesis using True 2(4) by auto
  next
    case False
    let ?q = "queue @ filter (\<lambda>s. s \<notin> insert pc visited) (cfg_succs cfg pc) @ filter (\<lambda>p. p \<notin> insert pc visited) (cfg_preds cfg pc)"
    have nb: "set ?q \<union> insert pc visited = set queue \<union> {m. linked cfg pc m} \<union> insert pc visited"
      "set ?q \<subseteq> set queue \<union> {m. linked cfg pc m}"
      using 2(3) [rule_format, of pc] by auto
    have pc: "(linked cfg)\<^sup>*\<^sup>* s pc" using 2(6) by simp
    have "\<exists>C. bfs_loop cfg ?q (insert pc visited) (insert pc got) = (V0 \<union> C, C) \<and> C \<inter> V0 = {} \<and>
       insert pc got \<union> (set ?q - V0) \<subseteq> C \<and> (\<forall>n \<in> C. (linked cfg)\<^sup>*\<^sup>* s n \<and> {m. linked cfg n m} \<subseteq> V0 \<union> C)"
    proof (rule 2(2) [OF False refl 2(3)])
      show "\<forall>n \<in> insert pc got \<union> set ?q. (linked cfg)\<^sup>*\<^sup>* s n"
      proof
        fix n
        assume "n \<in> insert pc got \<union> set ?q"
        then consider "n = pc \<or> n \<in> got \<or> n \<in> set queue" | "linked cfg pc n" using nb(2) by blast
        then show "(linked cfg)\<^sup>*\<^sup>* s n"
        proof cases
          case 2
          with pc show ?thesis by (rule rtranclp.rtrancl_into_rtrancl)
        qed (use 2(6) in auto)
      qed
      show "\<forall>n \<in> insert pc got. {m. linked cfg n m} \<subseteq> insert pc visited \<union> set ?q"
      proof
        fix n
        assume n: "n \<in> insert pc got"
        show "{m. linked cfg n m} \<subseteq> insert pc visited \<union> set ?q"
        proof (cases "n = pc")
          case True
          then show ?thesis using nb(1) by blast
        next
          case False
          then have "{m. linked cfg n m} \<subseteq> visited \<union> set (pc # queue)" using n 2(7) by blast
          then show ?thesis by auto
        qed
      qed
      show "insert pc visited = V0 \<union> insert pc got" using 2(4) by auto
      show "insert pc got \<inter> V0 = {}" using 2(4,5) False by auto
    qed
    then obtain C where C: "bfs_loop cfg ?q (insert pc visited) (insert pc got) = (V0 \<union> C, C)" "C \<inter> V0 = {}"
      "insert pc got \<union> (set ?q - V0) \<subseteq> C" "\<forall>n \<in> C. (linked cfg)\<^sup>*\<^sup>* s n \<and> {m. linked cfg n m} \<subseteq> V0 \<union> C"
      by blast
    moreover have "bfs_loop cfg (pc # queue) visited got = bfs_loop cfg ?q (insert pc visited) (insert pc got)"
      using False by (simp add: Let_def)
    moreover have "got \<union> (set (pc # queue) - V0) \<subseteq> C" using C(3) by auto
    ultimately show ?thesis by metis
  qed
qed

context flow_graph
begin

lemma bfs_component_exact:
  assumes closed: "\<And>u v. u \<in> V0 \<Longrightarrow> linked cfg u v \<Longrightarrow> v \<in> V0" and s: "s \<notin> V0"
  shows "bfs_component cfg s V0 = (V0 \<union> component_of cfg s, component_of cfg s)"
proof -
  have "\<exists>C. bfs_loop cfg [s] V0 {} = (V0 \<union> C, C) \<and> C \<inter> V0 = {} \<and> {} \<union> (set [s] - V0) \<subseteq> C \<and>
     (\<forall>n \<in> C. (linked cfg)\<^sup>*\<^sup>* s n \<and> {m. linked cfg n m} \<subseteq> V0 \<union> C)"
    by (rule bfs_loop_result) (use neighbours in auto)
  then obtain C where C: "bfs_loop cfg [s] V0 {} = (V0 \<union> C, C)" "C \<inter> V0 = {}" "{} \<union> (set [s] - V0) \<subseteq> C"
      "\<forall>n \<in> C. (linked cfg)\<^sup>*\<^sup>* s n \<and> {m. linked cfg n m} \<subseteq> V0 \<union> C"
    by blast
  have "s \<in> C" using C(3) s by auto
  have "u \<in> C" if "(linked cfg)\<^sup>*\<^sup>* s u" for u
    using that
  proof (induction rule: rtranclp_induct)
    case (step u v)
    then have "v \<in> V0 \<union> C" using C(4) by blast
    moreover have "v \<notin> V0" using closed linked_sym step C(2) by blast
    ultimately show ?case by simp
  qed (rule \<open>s \<in> C\<close>)
  then have "C = component_of cfg s" using C(4) by (auto simp: component_of_def)
  then show ?thesis using C(1) by (simp add: bfs_component_def)
qed

definition cover :: "usize set \<Rightarrow> usize set \<Rightarrow> usize set list \<Rightarrow> bool" where
  "cover S V Cs \<longleftrightarrow> V = \<Union> (set Cs) \<and> set Cs = component_of cfg ` S \<and> distinct Cs"

lemma cover_closed: "cover S V Cs \<Longrightarrow> u \<in> V \<Longrightarrow> linked cfg u v \<Longrightarrow> v \<in> V"
  unfolding cover_def component_of_def by (auto intro: rtranclp.rtrancl_into_rtrancl)

lemma cover_next:
  assumes "cover S V Cs"
  shows "\<exists>S' V' Cs'. next_component cfg s (V, Cs) = (V', Cs') \<and> cover S' V' Cs' \<and> V' = V \<union> component_of cfg s \<and>
    S \<subseteq> S' \<and> S' \<subseteq> insert s S"
proof (cases "s \<in> V")
  case True
  then obtain t where "t \<in> S" "s \<in> component_of cfg t" using assms by (auto simp: cover_def)
  then have "component_of cfg s \<subseteq> V" using component_eq assms by (auto simp: cover_def)
  then show ?thesis using assms True by (auto simp: next_component_def)
next
  case False
  have "bfs_component cfg s V = (V \<union> component_of cfg s, component_of cfg s)"
    by (rule bfs_component_exact [OF cover_closed [OF assms] False])
  then have "next_component cfg s (V, Cs) = (V \<union> component_of cfg s, Cs @ [component_of cfg s])"
    using False by (simp add: next_component_def)
  moreover have "component_of cfg s \<notin> set Cs" using False assms component_self by (auto simp: cover_def)
  then have "cover (insert s S) (V \<union> component_of cfg s) (Cs @ [component_of cfg s])"
    using assms by (auto simp: cover_def)
  ultimately show ?thesis by blast
qed

lemma cover_fold:
  "cover S V Cs \<Longrightarrow> \<exists>S' V' Cs'. fold (next_component cfg) ss (V, Cs) = (V', Cs') \<and> cover S' V' Cs' \<and>
    V \<union> set ss \<subseteq> V' \<and> S' \<subseteq> S \<union> set ss"
proof (induction ss arbitrary: S V Cs)
  case (Cons s ss)
  obtain S1 V1 Cs1 where 1: "next_component cfg s (V, Cs) = (V1, Cs1)" "cover S1 V1 Cs1" "V1 = V \<union> component_of cfg s"
      "S1 \<subseteq> insert s S" using cover_next [OF Cons.prems, of s] by blast
  obtain S2 V2 Cs2 where 2: "fold (next_component cfg) ss (V1, Cs1) = (V2, Cs2)" "cover S2 V2 Cs2" "V1 \<union> set ss \<subseteq> V2"
      "S2 \<subseteq> S1 \<union> set ss" using Cons.IH [OF 1(2)] by blast
  have "s \<in> V1" using 1(3) by simp
  then have "V \<union> set (s # ss) \<subseteq> V2" "S2 \<subseteq> S \<union> set (s # ss)" using 1(3,4) 2(3,4) by auto
  then show ?case using 1(1) 2(1,2) by auto
qed auto

lemma components_exact:
  "set (find_connected_components cfg) = component_of cfg ` cfg_nodes cfg" "distinct (find_connected_components cfg)"
proof -
  define start where "start = (if entry_pc cfg \<in> cfg_nodes cfg then
      (let (visited, component) = bfs_component cfg (entry_pc cfg) {} in (visited, [component])) else ({}, []))"
  obtain V Cs where start: "start = (V, Cs)" by (cases start)
  have none: "bfs_component cfg s {} = (component_of cfg s, component_of cfg s)" for s
    using bfs_component_exact [of "{}" s] by simp
  define S where "S = (if entry_pc cfg \<in> cfg_nodes cfg then {entry_pc cfg} else {})"
  have c: "cover S V Cs" using start by (auto simp: start_def none cover_def S_def split: if_splits)
  let ?rem = "sort (filter (\<lambda>pc. pc \<notin> V) (map fst (blocks cfg)))"
  obtain S' V' Cs' where r: "fold (next_component cfg) ?rem (V, Cs) = (V', Cs')" "cover S' V' Cs'"
      "V \<union> set ?rem \<subseteq> V'" "S' \<subseteq> S \<union> set ?rem"
    using cover_fold [OF c] by blast
  have eq: "find_connected_components cfg = Cs'"
    using r(1) start by (simp add: find_connected_components_def start_def [symmetric])
  have S': "S' \<subseteq> cfg_nodes cfg" using r(4) by (auto simp: S_def cfg_nodes_def split: if_splits)
  have all: "cfg_nodes cfg \<subseteq> V'" using r(3) by (auto simp: cfg_nodes_def)
  have "component_of cfg n \<in> component_of cfg ` S'" if "n \<in> cfg_nodes cfg" for n
  proof -
    have "n \<in> \<Union> (component_of cfg ` S')" using all that r(2) by (auto simp: cover_def)
    then show ?thesis using component_eq by auto
  qed
  then show "set (find_connected_components cfg) = component_of cfg ` cfg_nodes cfg" "distinct (find_connected_components cfg)"
    using r(2) S' by (auto simp: eq cover_def)
qed

end

section \<open>Blocks and entries\<close>

definition edge_in :: "control_flow_graph \<Rightarrow> usize set \<Rightarrow> usize \<Rightarrow> usize \<Rightarrow> bool" where
  "edge_in cfg C u v \<longleftrightarrow> edge cfg u v \<and> u \<in> C \<and> v \<in> C"

text \<open>What holds while the entry \<open>e\<close> is worked on and the entries of \<open>P\<close> have been started: what is assigned
  is reached from its entry, what is assigned passes on to its successors, entries keep themselves.\<close>

definition assign_inv ::
  "control_flow_graph \<Rightarrow> usize set \<Rightarrow> usize set \<Rightarrow> usize \<Rightarrow> (usize \<times> nat) list \<Rightarrow> assignment \<Rightarrow> bool" where
  "assign_inv cfg C P e queue a \<longleftrightarrow>
     dom (distances a) = dom (assigned_entry a) \<and>
     (\<forall>x y. assigned_entry a x = Some y \<longrightarrow> x \<in> C \<and> y \<in> P \<and> (edge_in cfg C)\<^sup>*\<^sup>* y x) \<and>
     (\<forall>x \<in> dom (distances a). \<forall>y. edge_in cfg C x y \<longrightarrow> y \<in> dom (distances a) \<or> y \<in> fst ` set queue) \<and>
     (\<forall>p \<in> P. distances a p = Some 0 \<and> assigned_entry a p = Some p) \<and>
     (\<forall>x. distances a x = Some 0 \<longrightarrow> assigned_entry a x = Some x) \<and>
     (\<forall>(x, d) \<in> set queue. (edge_in cfg C)\<^sup>*\<^sup>* e x \<and> 0 < d)"

lemma assign_invD:
  assumes "assign_inv cfg C P e queue a"
  shows "dom (distances a) = dom (assigned_entry a)"
    and "assigned_entry a x = Some y \<Longrightarrow> x \<in> C \<and> y \<in> P \<and> (edge_in cfg C)\<^sup>*\<^sup>* y x"
    and "x \<in> dom (distances a) \<Longrightarrow> edge_in cfg C x y \<Longrightarrow> y \<in> dom (distances a) \<or> y \<in> fst ` set queue"
    and "p \<in> P \<Longrightarrow> distances a p = Some 0 \<and> assigned_entry a p = Some p"
    and "distances a x = Some 0 \<Longrightarrow> assigned_entry a x = Some x"
    and "(x, d) \<in> set queue \<Longrightarrow> (edge_in cfg C)\<^sup>*\<^sup>* e x \<and> 0 < d"
  using assms unfolding assign_inv_def by (blast, blast, blast, blast, blast, blast)

lemma assign_invI:
  assumes "dom (distances a) = dom (assigned_entry a)"
    and "\<And>x y. assigned_entry a x = Some y \<Longrightarrow> x \<in> C \<and> y \<in> P \<and> (edge_in cfg C)\<^sup>*\<^sup>* y x"
    and "\<And>x y. x \<in> dom (distances a) \<Longrightarrow> edge_in cfg C x y \<Longrightarrow> y \<in> dom (distances a) \<or> y \<in> fst ` set queue"
    and "\<And>p. p \<in> P \<Longrightarrow> distances a p = Some 0 \<and> assigned_entry a p = Some p"
    and "\<And>x. distances a x = Some 0 \<Longrightarrow> assigned_entry a x = Some x"
    and "\<And>x d. (x, d) \<in> set queue \<Longrightarrow> (edge_in cfg C)\<^sup>*\<^sup>* e x \<and> 0 < d"
  shows "assign_inv cfg C P e queue a"
  unfolding assign_inv_def
proof (intro conjI)
  show "\<forall>(x, d) \<in> set queue. (edge_in cfg C)\<^sup>*\<^sup>* e x \<and> 0 < d"
  proof
    show "case z of (x, d) \<Rightarrow> (edge_in cfg C)\<^sup>*\<^sup>* e x \<and> 0 < d" if "z \<in> set queue" for z
      using assms(6) [of "fst z" "snd z"] that by (cases z) simp
  qed
  show "\<forall>x y. assigned_entry a x = Some y \<longrightarrow> x \<in> C \<and> y \<in> P \<and> (edge_in cfg C)\<^sup>*\<^sup>* y x"
    using assms(2) by (intro allI impI)
  show "\<forall>x \<in> dom (distances a). \<forall>y. edge_in cfg C x y \<longrightarrow> y \<in> dom (distances a) \<or> y \<in> fst ` set queue"
    using assms(3) by (intro allI ballI impI)
  show "\<forall>p \<in> P. distances a p = Some 0 \<and> assigned_entry a p = Some p"
    using assms(4) by (intro ballI)
  show "\<forall>x. distances a x = Some 0 \<longrightarrow> assigned_entry a x = Some x"
    using assms(5) by (intro allI impI)
qed (rule assms(1))

lemma closer_succs_mem:
  "(x, d) \<in> set (closer_succs cfg C pc dist a) \<longleftrightarrow> d = dist + 1 \<and> edge cfg pc x \<and> x \<in> C \<and>
    (case distances a x of None \<Rightarrow> True | Some prev \<Rightarrow> dist + 1 < prev)"
  by (auto simp: closer_succs_def edge_def)

lemma closer_succs_next:
  assumes "edge_in cfg C pc y"
  shows "y \<in> dom (distances a) \<or> y \<in> fst ` set (closer_succs cfg C pc dist a)"
proof (cases "distances a y")
  case None
  then have "(y, dist + 1) \<in> set (closer_succs cfg C pc dist a)"
    unfolding closer_succs_mem using assms by (simp add: edge_in_def)
  then show ?thesis by force
qed blast

lemma edge_in_step: "(edge_in cfg C)\<^sup>*\<^sup>* e pc \<Longrightarrow> edge cfg pc x \<Longrightarrow> pc \<in> C \<Longrightarrow> x \<in> C \<Longrightarrow> (edge_in cfg C)\<^sup>*\<^sup>* e x"
  by (rule rtranclp.rtrancl_into_rtrancl [of _ _ pc]) (simp_all add: edge_in_def)

lemma assign_inv_take:
  assumes inv: "assign_inv cfg C P e ((pc, dist) # queue) a" and e: "e \<in> P" and pc: "pc \<in> C" "closer e pc dist a"
  shows "assign_inv cfg C P e (queue @ closer_succs cfg C pc dist (take_up e pc dist a)) (take_up e pc dist a)"
proof -
  let ?b = "take_up e pc dist a"
  have q: "(edge_in cfg C)\<^sup>*\<^sup>* e pc" "0 < dist" using assign_invD(6) [OF inv, of pc dist] by simp_all
  have far: "pc \<notin> P" using assign_invD(4) [OF inv, of pc] pc(2) q(2) by (auto simp: closer_def)
  show ?thesis
  proof (rule assign_invI)
    show "dom (distances ?b) = dom (assigned_entry ?b)" using assign_invD(1) [OF inv] by simp
    show "x \<in> C \<and> y \<in> P \<and> (edge_in cfg C)\<^sup>*\<^sup>* y x" if "assigned_entry ?b x = Some y" for x y
      using assign_invD(2) [OF inv, of x y] that e pc(1) q(1) by (simp split: if_splits)
    show "y \<in> dom (distances ?b) \<or> y \<in> fst ` set (queue @ closer_succs cfg C pc dist ?b)"
      if "x \<in> dom (distances ?b)" "edge_in cfg C x y" for x y
    proof (cases "x = pc")
      case True
      then show ?thesis using closer_succs_next [of cfg C pc y ?b dist] that(2) by auto
    next
      case False
      then show ?thesis using assign_invD(3) [OF inv, of x y] that by auto
    qed
    show "distances ?b p = Some 0 \<and> assigned_entry ?b p = Some p" if "p \<in> P" for p
      using assign_invD(4) [OF inv that] far that by auto
    show "assigned_entry ?b x = Some x" if "distances ?b x = Some 0" for x
      using assign_invD(5) [OF inv, of x] that q(2) by (simp split: if_splits)
    show "(edge_in cfg C)\<^sup>*\<^sup>* e x \<and> 0 < d" if m: "(x, d) \<in> set (queue @ closer_succs cfg C pc dist ?b)" for x d
    proof (cases "(x, d) \<in> set queue")
      case True
      then show ?thesis using assign_invD(6) [OF inv, of x d] by simp
    next
      case False
      then have "(x, d) \<in> set (closer_succs cfg C pc dist ?b)" using m by simp
      then show ?thesis unfolding closer_succs_mem using edge_in_step [OF q(1) _ pc(1)] by simp
    qed
  qed
qed

lemma assign_inv_drop:
  assumes inv: "assign_inv cfg C P e ((pc, dist) # queue) a" and pc: "pc \<notin> C \<or> pc \<in> dom (distances a)"
  shows "assign_inv cfg C P e queue a"
proof (rule assign_invI)
  show "y \<in> dom (distances a) \<or> y \<in> fst ` set queue" if "x \<in> dom (distances a)" "edge_in cfg C x y" for x y
    using assign_invD(3) [OF inv that] pc that(2) by (auto simp: edge_in_def)
  show "(edge_in cfg C)\<^sup>*\<^sup>* e x \<and> 0 < d" if "(x, d) \<in> set queue" for x d
    using assign_invD(6) [OF inv, of x d] that by simp
qed (use assign_invD(1,2,4,5) [OF inv] in blast)+

lemma assign_loop_inv:
  "assign_inv cfg C P e queue a \<Longrightarrow> e \<in> P \<Longrightarrow> assign_inv cfg C P e [] (assign_loop cfg C e queue a)"
proof (induction cfg C e queue a rule: assign_loop.induct)
  case (2 cfg C e pc dist queue a)
  consider "pc \<notin> C" | "pc \<in> C" "\<not> closer e pc dist a" | "pc \<in> C" "closer e pc dist a" by blast
  then show ?case
  proof cases
    case 1
    then show ?thesis using 2(1) [OF 1 assign_inv_drop [OF 2(4)]] 2(5) by simp
  next
    case no: 2
    then have "pc \<in> dom (distances a)" by (auto simp: closer_def split: option.splits)
    then show ?thesis using 2(2) [OF _ no(2) assign_inv_drop [OF 2(4)]] 2(5) no by simp
  next
    case 3
    then show ?thesis using 2(3) [OF _ _ refl assign_inv_take [OF 2(4,5) 3]] 2(5) by (simp add: Let_def)
  qed
qed simp

lemma assign_entry_inv:
  assumes inv: "assign_inv cfg C P e' [] a" and e: "e \<in> C"
  shows "assign_inv cfg C (insert e P) e [] (assign_loop cfg C e [(e, 0)] a)"
proof (cases "closer e e 0 a")
  case True
  let ?b = "take_up e e 0 a"
  have "assign_inv cfg C (insert e P) e (closer_succs cfg C e 0 ?b) ?b"
  proof (rule assign_invI)
    show "dom (distances ?b) = dom (assigned_entry ?b)" using assign_invD(1) [OF inv] by simp
    show "x \<in> C \<and> y \<in> insert e P \<and> (edge_in cfg C)\<^sup>*\<^sup>* y x" if "assigned_entry ?b x = Some y" for x y
      using assign_invD(2) [OF inv, of x y] that e by (auto split: if_splits)
    show "y \<in> dom (distances ?b) \<or> y \<in> fst ` set (closer_succs cfg C e 0 ?b)"
      if "x \<in> dom (distances ?b)" "edge_in cfg C x y" for x y
    proof (cases "x = e")
      case True
      then show ?thesis using closer_succs_next [of cfg C e y ?b 0] that(2) by auto
    next
      case False
      then show ?thesis using assign_invD(3) [OF inv, of x y] that by auto
    qed
    show "distances ?b p = Some 0 \<and> assigned_entry ?b p = Some p" if "p \<in> insert e P" for p
      using assign_invD(4) [OF inv, of p] that by auto
    show "assigned_entry ?b x = Some x" if "distances ?b x = Some 0" for x
      using assign_invD(5) [OF inv, of x] that by (auto split: if_splits)
    show "(edge_in cfg C)\<^sup>*\<^sup>* e x \<and> 0 < d" if "(x, d) \<in> set (closer_succs cfg C e 0 ?b)" for x d
      using that edge_in_step [of cfg C e e x] e unfolding closer_succs_mem by simp
  qed
  then have "assign_inv cfg C (insert e P) e [] (assign_loop cfg C e (closer_succs cfg C e 0 ?b) ?b)"
    by (rule assign_loop_inv) simp
  then show ?thesis using True e by (simp add: Let_def)
next
  case False
  then have zero: "distances a e = Some 0" by (auto simp: closer_def split: option.splits)
  have "assign_inv cfg C (insert e P) e [] a"
  proof (rule assign_invI)
    show "distances a p = Some 0 \<and> assigned_entry a p = Some p" if "p \<in> insert e P" for p
      using assign_invD(4) [OF inv, of p] assign_invD(5) [OF inv zero] zero that by auto
    show "x \<in> C \<and> y \<in> insert e P \<and> (edge_in cfg C)\<^sup>*\<^sup>* y x" if "assigned_entry a x = Some y" for x y
      using assign_invD(2) [OF inv that] by simp
    show "y \<in> dom (distances a) \<or> y \<in> fst ` set []" if "x \<in> dom (distances a)" "edge_in cfg C x y" for x y
      using assign_invD(3) [OF inv that] by simp
    show "assigned_entry a x = Some x" if "distances a x = Some 0" for x
      using assign_invD(5) [OF inv that] .
  qed (use assign_invD(1) [OF inv] in simp_all)
  then show ?thesis using False e by simp
qed

lemma assign_all_inv:
  "assign_inv cfg C P e' [] a \<Longrightarrow> set es \<subseteq> C \<Longrightarrow>
   \<exists>e. assign_inv cfg C (P \<union> set es) e [] (fold (\<lambda>entry. assign_loop cfg C entry [(entry, 0)]) es a)"
proof (induction es arbitrary: P e' a)
  case (Cons x es)
  have "assign_inv cfg C (insert x P) x [] (assign_loop cfg C x [(x, 0)] a)"
    using assign_entry_inv [OF Cons.prems(1)] Cons.prems(2) by simp
  from Cons.IH [OF this] Cons.prems(2) show ?case by simp
qed auto

lemma assign_blocks:
  fixes cfg :: control_flow_graph
  assumes "set es \<subseteq> C"
  defines "f \<equiv> assign_blocks_to_entries cfg C es"
  shows "f x = Some e \<Longrightarrow> x \<in> C \<and> e \<in> set es \<and> (edge_in cfg C)\<^sup>*\<^sup>* e x"
    and "x \<in> dom f \<Longrightarrow> edge_in cfg C x y \<Longrightarrow> y \<in> dom f"
    and "e \<in> set es \<Longrightarrow> f e = Some e"
proof -
  let ?a0 = "\<lparr>distances = Map.empty, assigned_entry = Map.empty\<rparr>"
  have "assign_inv cfg C {} 0 [] ?a0" by (simp add: assign_inv_def)
  from assign_all_inv [OF this assms(1)] obtain e' where
    inv: "assign_inv cfg C (set es) e' [] (fold (\<lambda>entry. assign_loop cfg C entry [(entry, 0)]) es ?a0)" by auto
  show "x \<in> C \<and> e \<in> set es \<and> (edge_in cfg C)\<^sup>*\<^sup>* e x" if "f x = Some e"
    using assign_invD(2) [OF inv] that unfolding f_def assign_blocks_to_entries_def by blast
  show "y \<in> dom f" if "x \<in> dom f" "edge_in cfg C x y"
    using assign_invD(3) [OF inv _ that(2)] assign_invD(1) [OF inv] that(1) unfolding f_def assign_blocks_to_entries_def by auto
  show "f e = Some e" if "e \<in> set es"
    using assign_invD(4) [OF inv that] unfolding f_def assign_blocks_to_entries_def by blast
qed

section \<open>The split and the list of functions\<close>

text \<open>What a list of entries with their blocks must satisfy inside a region \<open>C\<close>.\<close>

definition owns :: "control_flow_graph \<Rightarrow> usize set \<Rightarrow> raw_function list \<Rightarrow> bool" where
  "owns cfg C rs \<longleftrightarrow> distinct (map fst rs) \<and> (\<forall>(e, B) \<in> set rs. e \<in> B \<and> B \<subseteq> C) \<and>
     (\<forall>r \<in> set rs. \<forall>r' \<in> set rs. r \<noteq> r' \<longrightarrow> snd r \<inter> snd r' = {}) \<and>
     (\<forall>x \<in> \<Union> (snd ` set rs). \<forall>y. edge cfg x y \<longrightarrow> y \<in> \<Union> (snd ` set rs))"

lemma owns_single: "e \<in> C \<Longrightarrow> (\<And>x y. x \<in> C \<Longrightarrow> edge cfg x y \<Longrightarrow> y \<in> C) \<Longrightarrow> owns cfg C [(e, C)]"
  by (auto simp: owns_def)

lemma find_component_entry_in: "finite C \<Longrightarrow> C \<noteq> {} \<Longrightarrow> find_component_entry cfg C \<in> C"
proof -
  assume C: "finite C" "C \<noteq> {}"
  have "Min S \<in> C" if "S \<subseteq> C" "S \<noteq> {}" for S using Min_in [of S] that C(1) finite_subset by blast
  then show ?thesis using Min_in [OF C] by (auto simp: find_component_entry_def Let_def)
qed

lemma prologue_entries_in: "finite C \<Longrightarrow> set (prologue_entries cfg C) \<subseteq> C"
  by (auto simp: prologue_entries_def Let_def)

lemma split_owns:
  assumes C: "finite C" "C \<noteq> {}" and closed: "\<And>x y. x \<in> C \<Longrightarrow> edge cfg x y \<Longrightarrow> y \<in> C"
  shows "owns cfg C (split_at_prologues cfg C)"
proof -
  let ?ce = "find_component_entry cfg C" and ?pe = "prologue_entries cfg C"
  note ce = find_component_entry_in [OF C, of cfg] and pe = prologue_entries_in [OF C(1), of cfg]
  consider "card C \<le> 1" | "\<not> card C \<le> 1" "?pe = []" | "\<not> card C \<le> 1" "?pe \<noteq> []" by blast
  then show ?thesis
  proof cases
    case 1
    then show ?thesis using owns_single [OF _ closed] Min_in [OF C] by (simp add: split_at_prologues_def)
  next
    case 2
    then show ?thesis using owns_single [OF ce closed] by (simp add: split_at_prologues_def)
  next
    case 3
    define es where "es = ?ce # ?pe"
    define f where "f = assign_blocks_to_entries cfg C es"
    have es: "set es \<subseteq> C" "distinct es" using ce pe C(1) by (auto simp: es_def prologue_entries_def Let_def)
    note own = assign_blocks(3) [OF es(1), of _ cfg, folded f_def]
    note into = assign_blocks(1) [OF es(1), of cfg, folded f_def]
    note next' = assign_blocks(2) [OF es(1), of _ cfg, folded f_def]
    let ?B = "\<lambda>e. Set.filter (\<lambda>pc. f pc = Some e) C"
    have ne: "?B e \<noteq> {}" if "e \<in> set es" for e using own [OF that] es(1) that by auto
    have "split_at_prologues cfg C = filter (\<lambda>(_, B). B \<noteq> {}) (map (\<lambda>e. (e, ?B e)) es)"
      by (simp only: split_at_prologues_def Let_def es_def f_def 3 if_False)
    also have "\<dots> = map (\<lambda>e. (e, ?B e)) es" using ne by (intro filter_True) auto
    finally have eq: "split_at_prologues cfg C = map (\<lambda>e. (e, ?B e)) es" .
    have union: "\<Union> (snd ` set (map (\<lambda>e. (e, ?B e)) es)) = dom f"
      using into by (auto simp: dom_def)
    show ?thesis
      unfolding owns_def eq union
    proof (intro conjI)
      show "distinct (map fst (map (\<lambda>e. (e, ?B e)) es))" using es(2) by (simp add: comp_def)
      show "\<forall>(e, B) \<in> set (map (\<lambda>e. (e, ?B e)) es). e \<in> B \<and> B \<subseteq> C" using own es(1) by auto
      show "\<forall>r \<in> set (map (\<lambda>e. (e, ?B e)) es). \<forall>r' \<in> set (map (\<lambda>e. (e, ?B e)) es). r \<noteq> r' \<longrightarrow> snd r \<inter> snd r' = {}"
        by auto
      show "\<forall>x \<in> dom f. \<forall>y. edge cfg x y \<longrightarrow> y \<in> dom f"
        using next' into closed by (fastforce simp: edge_in_def)
    qed
  qed
qed

lemma owns_mem: "owns cfg C rs \<Longrightarrow> r \<in> set rs \<Longrightarrow> fst r \<in> snd r \<and> snd r \<subseteq> C"
  unfolding owns_def by (cases r) fastforce

lemma owns_apart: "owns cfg C rs \<Longrightarrow> r \<in> set rs \<Longrightarrow> r' \<in> set rs \<Longrightarrow> r \<noteq> r' \<Longrightarrow> snd r \<inter> snd r' = {}"
  unfolding owns_def by blast

lemma owns_next:
  "owns cfg C rs \<Longrightarrow> x \<in> \<Union> (snd ` set rs) \<Longrightarrow> edge cfg x y \<Longrightarrow> y \<in> \<Union> (snd ` set rs)"
  unfolding owns_def by (elim conjE) (drule (1) bspec, drule spec, drule (1) mp)

lemma owns_append:
  assumes A: "owns cfg A rs" and B: "owns cfg B ss" and sep: "A \<inter> B = {}"
  shows "owns cfg (A \<union> B) (rs @ ss)"
proof -
  have apart: "snd r \<inter> snd r' = {}" if "r \<in> set rs" "r' \<in> set ss" for r r'
    using owns_mem [OF A that(1)] owns_mem [OF B that(2)] sep by blast
  have names: "fst ` set rs \<inter> fst ` set ss = {}"
  proof (rule equals0I)
    fix e
    assume "e \<in> fst ` set rs \<inter> fst ` set ss"
    then obtain r r' where "r \<in> set rs" "r' \<in> set ss" "e = fst r" "e = fst r'" by blast
    then show False using apart [of r r'] owns_mem [OF A, of r] owns_mem [OF B, of r'] by auto
  qed
  show ?thesis
    unfolding owns_def
  proof (intro conjI)
    show "distinct (map fst (rs @ ss))" using A B names by (simp add: owns_def)
    show "\<forall>(e, D) \<in> set (rs @ ss). e \<in> D \<and> D \<subseteq> A \<union> B"
    proof
      show "case r of (e, D) \<Rightarrow> e \<in> D \<and> D \<subseteq> A \<union> B" if "r \<in> set (rs @ ss)" for r
      proof -
        have "fst r \<in> snd r \<and> snd r \<subseteq> A \<union> B"
          using that owns_mem [OF A, of r] owns_mem [OF B, of r] by auto
        then show ?thesis by (simp add: split_def)
      qed
    qed
    show "\<forall>r \<in> set (rs @ ss). \<forall>r' \<in> set (rs @ ss). r \<noteq> r' \<longrightarrow> snd r \<inter> snd r' = {}"
    proof (intro ballI impI)
      fix r r'
      assume r: "r \<in> set (rs @ ss)" "r' \<in> set (rs @ ss)" "r \<noteq> r'"
      then consider "r \<in> set rs" "r' \<in> set rs" | "r \<in> set rs" "r' \<in> set ss"
        | "r' \<in> set rs" "r \<in> set ss" | "r \<in> set ss" "r' \<in> set ss" by auto
      then show "snd r \<inter> snd r' = {}"
      proof cases
        case 1
        then show ?thesis using owns_apart [OF A] r(3) by blast
      next
        case 3
        then show ?thesis using apart by blast
      next
        case 4
        then show ?thesis using owns_apart [OF B] r(3) by blast
      qed (rule apart)
    qed
    show "\<forall>x \<in> \<Union> (snd ` set (rs @ ss)). \<forall>y. edge cfg x y \<longrightarrow> y \<in> \<Union> (snd ` set (rs @ ss))"
    proof (intro ballI allI impI)
      fix x y
      assume "x \<in> \<Union> (snd ` set (rs @ ss))" "edge cfg x y"
      then have "y \<in> \<Union> (snd ` set rs) \<or> y \<in> \<Union> (snd ` set ss)"
        using owns_next [OF A, of x y] owns_next [OF B, of x y] unfolding set_append image_Un Union_Un_distrib by blast
      then show "y \<in> \<Union> (snd ` set (rs @ ss))" unfolding set_append image_Un Union_Un_distrib by blast
    qed
  qed
qed

lemma owns_concat:
  "(\<And>C. C \<in> set Cs \<Longrightarrow> owns cfg C (g C)) \<Longrightarrow> distinct Cs \<Longrightarrow>
   (\<And>C C'. C \<in> set Cs \<Longrightarrow> C' \<in> set Cs \<Longrightarrow> C \<noteq> C' \<Longrightarrow> C \<inter> C' = {}) \<Longrightarrow>
   owns cfg (\<Union> (set Cs)) (concat (map g Cs))"
proof (induction Cs)
  case (Cons C Cs)
  have "C \<inter> \<Union> (set Cs) = {}" using Cons.prems(2,3) by fastforce
  moreover have "owns cfg (\<Union> (set Cs)) (concat (map g Cs))" using Cons by simp
  ultimately have "owns cfg (C \<union> \<Union> (set Cs)) (g C @ concat (map g Cs))"
    using owns_append [of cfg C "g C"] Cons.prems(1) by simp
  then show ?case by simp
qed (simp add: owns_def)

definition raw_of :: "pvm_function \<Rightarrow> raw_function" where
  "raw_of f = (fn_entry f, fn_blocks f)"

lemma name_function_fold:
  "map raw_of (snd (fold (name_function cfg) rs (k, fs))) = map raw_of fs @ rs"
proof (induction rs arbitrary: k fs)
  case (Cons r rs)
  show ?case using Cons [of "k + 1"] by (cases r) (simp add: name_function_def Let_def raw_of_def)
qed simp

lemma name_components_fold:
  "map raw_of (snd (fold (\<lambda>C acc. fold (name_function cfg) (g C) acc) Cs acc)) = map raw_of (snd acc) @ concat (map g Cs)"
proof (induction Cs arbitrary: acc)
  case (Cons C Cs)
  show ?case using name_function_fold [of cfg "g C" "fst acc" "snd acc"] by (simp add: Cons)
qed simp

lemma raw_renumber: "map raw_of (renumber k fs) = map raw_of fs"
  by (induction k fs rule: renumber.induct) (auto simp: raw_of_def)

lemma fn_entry_raw: "map fn_entry fs = map fst (map raw_of fs)"
  by (simp add: raw_of_def comp_def)

context flow_graph
begin

lemma component_finite: "C \<in> set (find_connected_components cfg) \<Longrightarrow> finite C \<and> C \<noteq> {} \<and> C \<subseteq> cfg_nodes cfg"
proof -
  assume "C \<in> set (find_connected_components cfg)"
  then obtain n where n: "n \<in> cfg_nodes cfg" "C = component_of cfg n" using components_exact(1) by auto
  then have "C \<subseteq> cfg_nodes cfg" "n \<in> C" using component_nodes by simp_all
  then show ?thesis using finite_subset [OF _ nodes_finite] by blast
qed

lemma component_closed: "C \<in> set (find_connected_components cfg) \<Longrightarrow> x \<in> C \<Longrightarrow> edge cfg x y \<Longrightarrow> y \<in> C"
  unfolding components_exact(1) component_of_def by (auto simp: linked_def intro: rtranclp.rtrancl_into_rtrancl)

lemma components_apart:
  "C \<in> set (find_connected_components cfg) \<Longrightarrow> C' \<in> set (find_connected_components cfg) \<Longrightarrow> C \<noteq> C' \<Longrightarrow> C \<inter> C' = {}"
  unfolding components_exact(1) using component_eq by blast

lemma functions_raw:
  obtains rs where "owns cfg (cfg_nodes cfg) rs" "mset (map raw_of (detect_functions cfg)) = mset rs"
    "sorted (map fn_entry (detect_functions cfg))"
proof (cases "blocks cfg = []")
  case True
  then show thesis using that [of "[]"] by (simp add: detect_functions_def owns_def)
next
  case False
  let ?Cs = "find_connected_components cfg"
  let ?rs = "concat (map (split_at_prologues cfg) ?Cs)"
  have "owns cfg (\<Union> (set ?Cs)) ?rs"
  proof (rule owns_concat)
    show "owns cfg C (split_at_prologues cfg C)" if "C \<in> set ?Cs" for C
      using split_owns [of C cfg] component_finite [OF that] component_closed [OF that] by blast
  qed (use components_exact(2) components_apart in simp_all)
  moreover have "\<Union> (set ?Cs) = cfg_nodes cfg"
    unfolding components_exact(1) using component_nodes component_self by blast
  ultimately have 1: "owns cfg (cfg_nodes cfg) ?rs" by simp
  let ?fs = "snd (fold (\<lambda>C acc. fold (name_function cfg) (split_at_prologues cfg C) acc) ?Cs (0, []))"
  have eq: "detect_functions cfg = renumber 0 (sort_key fn_entry ?fs)"
    using False by (simp add: detect_functions_def Let_def split_def)
  have fs: "map raw_of ?fs = ?rs" using name_components_fold [of cfg _ ?Cs "(0, [])"] by simp
  have 2: "mset (map raw_of (detect_functions cfg)) = mset ?rs"
    unfolding eq raw_renumber fs [symmetric] by simp
  have "map fn_entry (detect_functions cfg) = map fn_entry (sort_key fn_entry ?fs)"
    unfolding eq fn_entry_raw raw_renumber ..
  then have 3: "sorted (map fn_entry (detect_functions cfg))" by simp
  show thesis by (rule that [OF 1 2 3])
qed

lemma functions_partition:
  "sorted_wrt (<) (map fn_entry (detect_functions cfg))"
  "f \<in> set (detect_functions cfg) \<Longrightarrow> fn_entry f \<in> fn_blocks f \<and> fn_blocks f \<subseteq> cfg_nodes cfg"
  "f \<in> set (detect_functions cfg) \<Longrightarrow> f' \<in> set (detect_functions cfg) \<Longrightarrow> fn_entry f \<noteq> fn_entry f' \<Longrightarrow> fn_blocks f \<inter> fn_blocks f' = {}"
  "f \<in> set (detect_functions cfg) \<Longrightarrow> x \<in> fn_blocks f \<Longrightarrow> edge cfg x y \<Longrightarrow> \<exists>f' \<in> set (detect_functions cfg). y \<in> fn_blocks f'"
proof -
  obtain rs where rs: "owns cfg (cfg_nodes cfg) rs" "mset (map raw_of (detect_functions cfg)) = mset rs"
      "sorted (map fn_entry (detect_functions cfg))" by (rule functions_raw)
  have set: "raw_of ` set (detect_functions cfg) = set rs" using rs(2) by (metis set_map set_mset_mset)
  have "mset (map fn_entry (detect_functions cfg)) = mset (map fst rs)"
    unfolding fn_entry_raw using rs(2) by (metis mset_map)
  then have "distinct (map fn_entry (detect_functions cfg))"
    using rs(1) by (metis mset_eq_imp_distinct_iff owns_def)
  then show "sorted_wrt (<) (map fn_entry (detect_functions cfg))" using rs(3) by (simp add: strict_sorted_iff)
  have mem: "(fn_entry f, fn_blocks f) \<in> set rs" if "f \<in> set (detect_functions cfg)" for f
    using set that by (force simp: raw_of_def)
  show "fn_entry f \<in> fn_blocks f \<and> fn_blocks f \<subseteq> cfg_nodes cfg" if "f \<in> set (detect_functions cfg)"
    using owns_mem [OF rs(1) mem [OF that]] by simp
  show "fn_blocks f \<inter> fn_blocks f' = {}"
    if "f \<in> set (detect_functions cfg)" "f' \<in> set (detect_functions cfg)" "fn_entry f \<noteq> fn_entry f'"
    using owns_apart [OF rs(1) mem [OF that(1)] mem [OF that(2)]] that(3) by simp
  have union: "\<Union> (snd ` set rs) = \<Union> (fn_blocks ` set (detect_functions cfg))"
    unfolding set [symmetric] by (simp add: raw_of_def image_image)
  show "\<exists>f' \<in> set (detect_functions cfg). y \<in> fn_blocks f'"
    if "f \<in> set (detect_functions cfg)" "x \<in> fn_blocks f" "edge cfg x y"
  proof -
    have "x \<in> \<Union> (snd ` set rs)" unfolding union using that(1,2) by blast
    then have "y \<in> \<Union> (snd ` set rs)" using rs(1) that(3) unfolding owns_def by blast
    then show ?thesis unfolding union by blast
  qed
qed

end

end
