(* ===== verification/Function_Graphs.thy ===== *)
theory Function_Graphs
  imports Functions_Correct
begin

text \<open>
  The graph of one function (\<open>build_function_cfg\<close>) satisfies \<open>flow_graph\<close> again: its nodes are the blocks
  of the function, its predecessor lists mirror its successor lists, also after the edges of direct calls
  have been added. So what is proved of an analysis for the graph of a program holds for the graph of
  every function.
\<close>

section \<open>Adding an edge\<close>

lemma get_block_modify: "get_block (modify_block pc f cfg) x = (if x = pc then map_option f (get_block cfg x) else get_block cfg x)"
  by (auto simp: modify_block_def get_block_def update_conv' split: option.splits)

lemma modify_block_keys: "map fst (blocks (modify_block pc f cfg)) = map fst (blocks cfg)"
proof (cases "get_block cfg pc")
  case (Some b)
  then have "pc \<in> fst ` set (blocks cfg)" by (force simp: get_block_def dest: map_of_SomeD)
  then show ?thesis using Some by (simp add: modify_block_def update_keys)
qed (simp add: modify_block_def)

lemma modify_block_entry [simp]: "entry_pc (modify_block pc f cfg) = entry_pc cfg"
  by (simp add: modify_block_def split: option.splits)

lemma modify_block_nodes [simp]: "cfg_nodes (modify_block pc f cfg) = cfg_nodes cfg"
  unfolding cfg_nodes_def by (metis modify_block_keys set_map)

lemma get_block_nodes: "x \<in> cfg_nodes cfg \<Longrightarrow> \<exists>b. get_block cfg x = Some b"
  by (auto simp: cfg_nodes_dom)

lemma add_edge_nodes [simp]: "cfg_nodes (add_edge s d cfg) = cfg_nodes cfg"
  by (simp add: add_edge_def)

lemma add_edge_entry [simp]: "entry_pc (add_edge s d cfg) = entry_pc cfg"
  by (simp add: add_edge_def)

lemma add_edge_succs:
  "s \<in> cfg_nodes cfg \<Longrightarrow> cfg_succs (add_edge s d cfg) x = (if x = s then push_unless d (cfg_succs cfg x) else cfg_succs cfg x)"
  by (auto simp: cfg_succs_def add_edge_def get_block_modify split: option.splits dest: get_block_nodes)

lemma add_edge_preds:
  "d \<in> cfg_nodes cfg \<Longrightarrow> cfg_preds (add_edge s d cfg) x = (if x = d then push_unless s (cfg_preds cfg x) else cfg_preds cfg x)"
  by (auto simp: cfg_preds_def add_edge_def get_block_modify split: option.splits dest: get_block_nodes)

lemma count_push_unless: "count_list (push_unless x xs) y = (if y = x \<and> x \<notin> set xs then 1 else count_list xs y)"
  by (auto simp: push_unless_def)

lemma set_push_unless [simp]: "set (push_unless x xs) = insert x (set xs)"
  by (auto simp: push_unless_def)

lemma add_edge_flow_graph:
  assumes fg: "flow_graph cfg" and s: "s \<in> cfg_nodes cfg" and d: "d \<in> cfg_nodes cfg"
  shows "flow_graph (add_edge s d cfg)"
proof
  show "distinct (map fst (blocks (add_edge s d cfg)))"
    unfolding add_edge_def modify_block_keys by (rule flow_graph.keys_distinct [OF fg])
  show "start_pc b = x" if "get_block (add_edge s d cfg) x = Some b" for x b
    using that flow_graph.keyed [OF fg, of x] by (auto simp: add_edge_def get_block_modify split: if_splits)
  show "t \<in> cfg_nodes (add_edge s d cfg)" if "t \<in> set (cfg_succs (add_edge s d cfg) x)" for t x
    using that flow_graph.succs_closed [OF fg, of t x] d by (auto simp: add_edge_succs [OF s] split: if_splits)
  show "count_list (cfg_preds (add_edge s d cfg) t) x = count_list (cfg_succs (add_edge s d cfg) x) t"
    if "t \<in> cfg_nodes (add_edge s d cfg)" for t x
  proof -
    have "count_list (cfg_preds cfg t) x = count_list (cfg_succs cfg x) t"
      using flow_graph.preds_count [OF fg] that by simp
    moreover have "s \<in> set (cfg_preds cfg d) \<longleftrightarrow> d \<in> set (cfg_succs cfg s)"
      by (rule flow_graph.preds_iff_succs [OF fg d])
    ultimately show ?thesis by (auto simp: add_edge_succs [OF s] add_edge_preds [OF d] count_push_unless)
  qed
qed


section \<open>The blocks of a function\<close>

text \<open>What the code relies on when it iterates over a hash set: every element comes up exactly once.\<close>

locale set_iteration =
  fixes iter :: "usize set \<Rightarrow> usize list"
  assumes iter_set: "finite A \<Longrightarrow> set (iter A) = A"
    and iter_distinct: "finite A \<Longrightarrow> distinct (iter A)"

interpretation ascending: set_iteration sorted_list_of_set
  by unfold_locales auto

interpretation descending: set_iteration "\<lambda>A. rev (sorted_list_of_set A)"
  by unfold_locales auto

definition restrict_block :: "usize set \<Rightarrow> basic_block \<Rightarrow> basic_block" where
  "restrict_block B block = block\<lparr>successors := filter (\<lambda>s. s \<in> B) (successors block),
     predecessors := filter (\<lambda>p. p \<in> B) (predecessors block)\<rparr>"

lemma get_block_add_block: "get_block (add_block cfg b) x = (if x = start_pc b then Some b else get_block cfg x)"
  by (simp add: get_block_def add_block_def update_conv')

lemma add_block_distinct: "distinct (map fst (blocks cfg)) \<Longrightarrow> distinct (map fst (blocks (add_block cfg b)))"
  by (simp add: add_block_def distinct_update)

definition restrict_step :: "control_flow_graph \<Rightarrow> usize set \<Rightarrow> usize \<Rightarrow> control_flow_graph \<Rightarrow> control_flow_graph" where
  "restrict_step cfg B block_pc sub_cfg = (case get_block cfg block_pc of
      None \<Rightarrow> sub_cfg | Some block \<Rightarrow> add_block sub_cfg (restrict_block B block))"

lemma sub_blocks_steps:
  "sub_blocks iter cfg f = fold (restrict_step cfg (fn_blocks f)) (iter (fn_blocks f)) (cfg_new (fn_entry f))"
  unfolding sub_blocks_def restrict_step_def restrict_block_def ..

lemma restrict_start [simp]: "start_pc (restrict_block B b) = start_pc b"
  by (simp add: restrict_block_def)

context flow_graph
begin

lemma restrict_step_block:
  "get_block (restrict_step cfg B y g) x =
     (if x = y \<and> y \<in> cfg_nodes cfg then map_option (restrict_block B) (get_block cfg x) else get_block g x)"
proof (cases "get_block cfg y")
  case (Some b)
  then show ?thesis using keyed [OF Some] by (auto simp: restrict_step_def get_block_add_block cfg_nodes_dom)
qed (auto simp: restrict_step_def cfg_nodes_dom)

lemma restrict_step_entry: "entry_pc (restrict_step cfg B y g) = entry_pc g"
  by (simp add: restrict_step_def add_block_def split: option.splits)

lemma restrict_step_distinct: "distinct (map fst (blocks g)) \<Longrightarrow> distinct (map fst (blocks (restrict_step cfg B y g)))"
  by (simp add: restrict_step_def add_block_distinct split: option.splits)

lemma restrict_fold_block:
  "get_block (fold (restrict_step cfg B) xs g) x = (if x \<in> set xs \<and> x \<in> cfg_nodes cfg
      then map_option (restrict_block B) (get_block cfg x) else get_block g x)"
proof (induction xs arbitrary: g)
  case (Cons y ys)
  show ?case by (simp only: fold_simps comp_apply Cons restrict_step_block list.set insert_iff) auto
qed simp

lemma restrict_fold_entry: "entry_pc (fold (restrict_step cfg B) xs g) = entry_pc g"
  by (induction xs arbitrary: g) (simp_all add: restrict_step_entry)

lemma restrict_fold_distinct:
  "distinct (map fst (blocks g)) \<Longrightarrow> distinct (map fst (blocks (fold (restrict_step cfg B) xs g)))"
  by (induction xs arbitrary: g) (simp_all add: restrict_step_distinct)

end

context set_iteration
begin

lemma get_block_sub_blocks:
  assumes "flow_graph cfg" "fn_blocks f \<subseteq> cfg_nodes cfg"
  shows "get_block (sub_blocks iter cfg f) x =
      (if x \<in> fn_blocks f then map_option (restrict_block (fn_blocks f)) (get_block cfg x) else None)"
    and "distinct (map fst (blocks (sub_blocks iter cfg f)))" "entry_pc (sub_blocks iter cfg f) = fn_entry f"
proof -
  have fin: "set (iter (fn_blocks f)) = fn_blocks f"
    by (rule iter_set [OF finite_subset [OF assms(2) cfg_nodes_finite]])
  show "get_block (sub_blocks iter cfg f) x =
      (if x \<in> fn_blocks f then map_option (restrict_block (fn_blocks f)) (get_block cfg x) else None)"
    using assms(2) unfolding sub_blocks_steps flow_graph.restrict_fold_block [OF assms(1)] fin
    by (auto simp: cfg_new_def get_block_def)
  show "distinct (map fst (blocks (sub_blocks iter cfg f)))"
    unfolding sub_blocks_steps by (rule flow_graph.restrict_fold_distinct [OF assms(1)]) (simp add: cfg_new_def)
  show "entry_pc (sub_blocks iter cfg f) = fn_entry f"
    unfolding sub_blocks_steps flow_graph.restrict_fold_entry [OF assms(1)] by (simp add: cfg_new_def)
qed

lemma sub_blocks_nodes:
  assumes "flow_graph cfg" "fn_blocks f \<subseteq> cfg_nodes cfg"
  shows "cfg_nodes (sub_blocks iter cfg f) = fn_blocks f"
proof -
  have "x \<in> cfg_nodes (sub_blocks iter cfg f) \<longleftrightarrow> x \<in> fn_blocks f" for x
    using assms(2) unfolding cfg_nodes_dom domIff get_block_sub_blocks(1) [OF assms] by auto
  then show ?thesis by blast
qed

lemma sub_blocks_succs:
  assumes "flow_graph cfg" "fn_blocks f \<subseteq> cfg_nodes cfg"
  shows "cfg_succs (sub_blocks iter cfg f) x = (if x \<in> fn_blocks f then filter (\<lambda>s. s \<in> fn_blocks f) (cfg_succs cfg x) else [])"
    and "cfg_preds (sub_blocks iter cfg f) x = (if x \<in> fn_blocks f then filter (\<lambda>s. s \<in> fn_blocks f) (cfg_preds cfg x) else [])"
  by (cases "get_block cfg x"; simp add: cfg_succs_def cfg_preds_def get_block_sub_blocks(1) [OF assms] restrict_block_def)+

lemma count_list_filter: "count_list (filter P xs) x = (if P x then count_list xs x else 0)"
  by (induction xs) auto

lemma sub_blocks_flow_graph:
  assumes fg: "flow_graph cfg" and B: "fn_blocks f \<subseteq> cfg_nodes cfg"
  shows "flow_graph (sub_blocks iter cfg f)"
proof
  show "distinct (map fst (blocks (sub_blocks iter cfg f)))" by (rule get_block_sub_blocks(2) [OF assms])
  show "start_pc b = x" if "get_block (sub_blocks iter cfg f) x = Some b" for x b
    using that flow_graph.keyed [OF fg]
    by (auto simp: get_block_sub_blocks(1) [OF assms] restrict_block_def split: if_splits)
  show "t \<in> cfg_nodes (sub_blocks iter cfg f)" if "t \<in> set (cfg_succs (sub_blocks iter cfg f) x)" for t x
    using that by (auto simp: sub_blocks_succs [OF assms] sub_blocks_nodes [OF assms] split: if_splits)
  show "count_list (cfg_preds (sub_blocks iter cfg f) t) x = count_list (cfg_succs (sub_blocks iter cfg f) x) t"
    if "t \<in> cfg_nodes (sub_blocks iter cfg f)" for t x
  proof -
    have t: "t \<in> fn_blocks f" using that sub_blocks_nodes [OF assms] by simp
    then have "count_list (cfg_preds cfg t) x = count_list (cfg_succs cfg x) t"
      using flow_graph.preds_count [OF fg] B by blast
    then show ?thesis using t by (simp add: sub_blocks_succs [OF assms] count_list_filter)
  qed
qed

end

section \<open>The edges of direct calls\<close>

text \<open>Adding edges between blocks of the function keeps the graph one and keeps its nodes and its entry.\<close>

definition grown :: "control_flow_graph \<Rightarrow> control_flow_graph \<Rightarrow> bool" where
  "grown g h \<longleftrightarrow> flow_graph h \<and> cfg_nodes h = cfg_nodes g \<and> entry_pc h = entry_pc g \<and>
     (\<forall>x y. edge g x y \<longrightarrow> edge h x y)"

lemma grown_trans: "grown g h \<Longrightarrow> grown h k \<Longrightarrow> grown g k"
  by (simp add: grown_def)

lemma grown_fold:
  assumes "\<And>x h. flow_graph h \<Longrightarrow> cfg_nodes h = N \<Longrightarrow> grown h (step x h)" "flow_graph g" "cfg_nodes g = N"
  shows "grown g (fold step xs g)"
  using assms(2,3)
proof (induction xs arbitrary: g)
  case (Cons x xs)
  have 1: "grown g (step x g)" by (rule assms(1) [OF Cons.prems])
  then have "grown (step x g) (fold step xs (step x g))"
    using Cons.IH [of "step x g"] Cons.prems(2) by (simp add: grown_def)
  then show ?case using grown_trans [OF 1] by simp
qed (simp add: grown_def)

lemma grown_add_edge: "flow_graph g \<Longrightarrow> s \<in> cfg_nodes g \<Longrightarrow> d \<in> cfg_nodes g \<Longrightarrow> grown g (add_edge s d g)"
  using add_edge_flow_graph by (auto simp: grown_def edge_def add_edge_succs)

lemma grown_refl: "flow_graph g \<Longrightarrow> grown g g"
  by (simp add: grown_def)

lemma grown_return: "flow_graph g \<Longrightarrow> cfg_nodes g = fn_blocks f \<Longrightarrow> grown g (add_return_edge f pat g)"
  using grown_add_edge grown_refl by (simp add: add_return_edge_def)

lemma orphan_nodes: "pc \<in> set (orphan_continuations f jt g) \<Longrightarrow> pc \<in> cfg_nodes g"
  by (force simp: orphan_continuations_def cfg_nodes_def)

lemma add_trampoline_cases:
  "add_trampoline_edge f jt pat g = g \<or>
   (\<exists>d \<in> cfg_nodes g. jump_target_pc pat \<in> fn_blocks f \<and> add_trampoline_edge f jt pat g = add_edge (jump_target_pc pat) d g)"
proof -
  let ?os = "orphan_continuations f jt g"
  let ?d = "case find (\<lambda>pc. pc > caller_block_pc pat) ?os of
      Some pc \<Rightarrow> Some pc | None \<Rightarrow> (case ?os of [] \<Rightarrow> None | pc # _ \<Rightarrow> Some pc)"
  have mem: "d \<in> set ?os" if "?d = Some d" for d
    using that by (auto split: option.splits list.splits simp: find_Some_iff dest!: sym [of _ ?os])
  show ?thesis
  proof (cases "jump_target_pc pat \<in> fn_blocks f \<and> ?d \<noteq> None")
    case True
    then obtain d where d: "?d = Some d" by blast
    then have "d \<in> cfg_nodes g" using mem orphan_nodes by blast
    moreover have "add_trampoline_edge f jt pat g = g \<or> add_trampoline_edge f jt pat g = add_edge (jump_target_pc pat) d g"
      unfolding add_trampoline_edge_def Let_def d by simp
    ultimately show ?thesis using True by blast
  next
    case False
    then have "add_trampoline_edge f jt pat g = g"
      unfolding add_trampoline_edge_def Let_def by auto
    then show ?thesis ..
  qed
qed

lemma grown_trampoline: "flow_graph g \<Longrightarrow> cfg_nodes g = fn_blocks f \<Longrightarrow> grown g (add_trampoline_edge f jt pat g)"
  using add_trampoline_cases [of f jt pat g] grown_add_edge grown_refl by metis

context set_iteration
begin

lemma function_graph:
  assumes "flow_graph cfg" "fn_blocks f \<subseteq> cfg_nodes cfg"
  shows "grown (sub_blocks iter cfg f) (build_function_cfg iter cfg f pats jt)"
proof -
  note g = sub_blocks_flow_graph [OF assms] and n = sub_blocks_nodes [OF assms]
  have 1: "grown (sub_blocks iter cfg f) (fold (add_return_edge f) pats (sub_blocks iter cfg f))"
    by (rule grown_fold [OF grown_return g n])
  then have "flow_graph (fold (add_return_edge f) pats (sub_blocks iter cfg f))"
      "cfg_nodes (fold (add_return_edge f) pats (sub_blocks iter cfg f)) = fn_blocks f"
    using n by (simp_all add: grown_def)
  then have "grown (fold (add_return_edge f) pats (sub_blocks iter cfg f)) (build_function_cfg iter cfg f pats jt)"
    unfolding build_function_cfg_def by (rule grown_fold [OF grown_trampoline, rotated 2])
  with 1 show ?thesis by (rule grown_trans)
qed

lemma function_flow_graph:
  fixes pats jt
  assumes "flow_graph cfg" "f \<in> set (detect_functions cfg)"
  defines "g \<equiv> build_function_cfg iter cfg f pats jt"
  shows "flow_graph g" "cfg_nodes g = fn_blocks f" "entry_pc g = fn_entry f" "fn_entry f \<in> cfg_nodes g"
    "x \<in> fn_blocks f \<Longrightarrow> y \<in> fn_blocks f \<Longrightarrow> edge cfg x y \<Longrightarrow> edge g x y"
proof -
  have f: "fn_entry f \<in> fn_blocks f" "fn_blocks f \<subseteq> cfg_nodes cfg"
    using flow_graph.functions_partition(2) [OF assms(1,2)] by simp_all
  have g: "grown (sub_blocks iter cfg f) g" unfolding g_def by (rule function_graph [OF assms(1) f(2)])
  then show "flow_graph g" "cfg_nodes g = fn_blocks f" "entry_pc g = fn_entry f"
    using sub_blocks_nodes [OF assms(1) f(2)] get_block_sub_blocks(3) [OF assms(1) f(2)] by (simp_all add: grown_def)
  then show "fn_entry f \<in> cfg_nodes g" using f(1) by simp
  show "edge g x y" if "x \<in> fn_blocks f" "y \<in> fn_blocks f" "edge cfg x y"
  proof -
    have "edge (sub_blocks iter cfg f) x y"
      using that by (simp add: edge_def sub_blocks_succs [OF assms(1) f(2)])
    then show ?thesis using g by (simp add: grown_def)
  qed
qed

end

section \<open>Names\<close>

definition named :: "control_flow_graph \<Rightarrow> pvm_function list \<Rightarrow> bool" where
  "named cfg fs \<longleftrightarrow> (\<forall>f \<in> set fs. fn_name f = ''main'' \<longleftrightarrow> fn_entry f = entry_pc cfg)"

lemma named_Cons: "named cfg (f # fs) \<longleftrightarrow> (fn_name f = ''main'' \<longleftrightarrow> fn_entry f = entry_pc cfg) \<and> named cfg fs"
  unfolding named_def list.set by (rule ball_simps)

lemma func_name_main [simp]: "func_name n \<noteq> ''main''"
  by (simp add: func_name_def)

lemma named_fold: "named cfg fs \<Longrightarrow> named cfg (snd (fold (name_function cfg) rs (k, fs)))"
proof (induction rs arbitrary: k fs)
  case (Cons r rs)
  show ?case
    using Cons.IH [of "snd (name_function cfg r (k, fs))" "fst (name_function cfg r (k, fs))"] Cons.prems
    by (cases r) (simp add: name_function_def named_def)
qed simp

lemma named_components:
  "named cfg (snd acc) \<Longrightarrow> named cfg (snd (fold (\<lambda>C acc. fold (name_function cfg) (g C) acc) Cs acc))"
proof (induction Cs arbitrary: acc)
  case (Cons C Cs)
  have "named cfg (snd (fold (name_function cfg) (g C) acc))"
    using named_fold [of cfg "snd acc" "g C" "fst acc"] Cons.prems by simp
  then show ?case using Cons.IH by simp
qed simp

lemma named_renumber: "named cfg fs \<Longrightarrow> named cfg (renumber k fs)"
proof (induction k fs rule: renumber.induct)
  case (2 idx f fs)
  then show ?case by (cases "fn_name f = ''main''") (simp_all add: named_Cons del: func_name_main, simp)
qed simp

lemma renumber_names:
  "map fn_name (filter (\<lambda>f. fn_name f \<noteq> ''main'') (renumber k fs)) =
   map func_name [k..<k + length (filter (\<lambda>f. fn_name f \<noteq> ''main'') fs)]"
proof (induction k fs rule: renumber.induct)
  case (2 idx f fs)
  then show ?case by (cases "fn_name f = ''main''") (simp_all add: upt_conv_Cons del: upt_Suc)
qed simp

lemma detect_named: "named cfg (detect_functions cfg)"
proof -
  let ?fs = "snd (fold (\<lambda>C acc. fold (name_function cfg) (split_at_prologues cfg C) acc) (find_connected_components cfg) (0, []))"
  have "named cfg ?fs" by (rule named_components) (simp add: named_def)
  then have "named cfg (sort_key fn_entry ?fs)" unfolding named_def by (simp only: set_sort)
  then have "named cfg (renumber 0 (sort_key fn_entry ?fs))" by (rule named_renumber)
  moreover have "detect_functions cfg = (if blocks cfg = [] then [] else renumber 0 (sort_key fn_entry ?fs))"
    by (simp only: detect_functions_def Let_def split_def)
  moreover have "named cfg []" by (simp add: named_def)
  ultimately show ?thesis by simp
qed

lemma detect_numbered:
  "\<exists>n. map fn_name (filter (\<lambda>f. fn_name f \<noteq> ''main'') (detect_functions cfg)) = map func_name [0..<n]"
  by (cases "blocks cfg = []") (auto simp: detect_functions_def Let_def split_def renumber_names)


section \<open>The call graph\<close>

definition listed :: "('k \<rightharpoonup> 'a list) \<Rightarrow> 'k \<Rightarrow> 'a set" where
  "listed m k = (case m k of None \<Rightarrow> {} | Some xs \<Rightarrow> set xs)"

lemma listed_push: "listed (push_entry k x m) t = listed m t \<union> (if t = k then {x} else {})"
  by (auto simp: listed_def push_entry_def split: option.splits)

lemma listed_fold:
  assumes "\<And>x m. listed (step x m) t = listed m t \<union> S x"
  shows "listed (fold step xs m) t = listed m t \<union> (\<Union>x \<in> set xs. S x)"
  by (induction xs arbitrary: m) (auto simp: assms)

lemma UN_if_eq: "f \<in> A \<Longrightarrow> (\<And>g. g \<in> A \<Longrightarrow> S g = (if g = f then X else {})) \<Longrightarrow> (\<Union>g \<in> A. S g) = X"
  by (auto split: if_splits)

lemma find_mem: "find P xs = Some x \<Longrightarrow> x \<in> set xs \<and> P x"
  by (induction xs) (auto split: if_splits)

lemma find_rev_unique:
  assumes "x \<in> set xs" "P x" "\<And>y. y \<in> set xs \<Longrightarrow> P y \<Longrightarrow> y = x"
  shows "find P (rev xs) = Some x"
proof (cases "find P (rev xs)")
  case None
  then show ?thesis using assms(1,2) by (simp add: find_None_iff)
next
  case (Some y)
  then have "y \<in> set xs" "P y" using find_mem [OF Some] by simp_all
  then show ?thesis using Some assms(3) by simp
qed

lemma find_rev_None: "(\<And>y. y \<in> set xs \<Longrightarrow> \<not> P y) \<Longrightarrow> find P (rev xs) = None"
  by (simp add: find_None_iff)

context flow_graph
begin

lemma functions_apart:
  assumes "f \<in> set (detect_functions cfg)" "f' \<in> set (detect_functions cfg)" "x \<in> fn_blocks f" "x \<in> fn_blocks f'"
  shows "f' = f"
proof -
  have d: "distinct (map fn_entry (detect_functions cfg))"
    using functions_partition(1) by (simp add: strict_sorted_iff)
  have "fn_entry f = fn_entry f'" using functions_partition(3) [OF assms(1,2)] assms(3,4) by blast
  then show ?thesis using d assms(1,2) by (auto simp: distinct_map inj_on_def)
qed

lemma block_to_func_exact:
  "f \<in> set (detect_functions cfg) \<Longrightarrow> x \<in> fn_blocks f \<Longrightarrow> block_to_func (detect_functions cfg) x = Some (fn_entry f)"
  unfolding block_to_func_def by (subst find_rev_unique [of f]) (auto intro: functions_apart)

lemma block_to_func_Some:
  assumes "block_to_func (detect_functions cfg) x = Some e"
  obtains f where "f \<in> set (detect_functions cfg)" "x \<in> fn_blocks f" "e = fn_entry f"
proof -
  obtain f where f: "find (\<lambda>f. x \<in> fn_blocks f) (rev (detect_functions cfg)) = Some f" "e = fn_entry f"
    using assms by (auto simp: block_to_func_def)
  then have "f \<in> set (detect_functions cfg)" "x \<in> fn_blocks f" using find_mem [OF f(1)] by simp_all
  then show thesis using that f(2) by blast
qed

lemma callee_name_exact: "f \<in> set (detect_functions cfg) \<Longrightarrow> callee_name (detect_functions cfg) (fn_entry f) = fn_name f"
proof -
  assume f: "f \<in> set (detect_functions cfg)"
  have "find (\<lambda>g. fn_entry g = fn_entry f) (rev (detect_functions cfg)) = Some f"
    by (rule find_rev_unique [OF f refl]) (metis f functions_apart functions_partition(2))
  then show ?thesis by (simp add: callee_name_def func_names_def)
qed

lemma call_sites_exact:
  assumes f: "f \<in> set (detect_functions cfg)"
  shows "set (call_sites_of_block cfg (detect_functions cfg) f b) =
    {\<lparr>site_block = b, callee_entry = fn_entry f', site_callee_name = fn_name f'\<rparr> | f'.
       f' \<in> set (detect_functions cfg) \<and> f' \<noteq> f \<and> edge cfg b (fn_entry f')}" (is "?L = ?R")
proof (rule set_eqI)
  fix c
  let ?site = "\<lambda>s. case block_to_func (detect_functions cfg) s of
      Some e \<Rightarrow> if e \<noteq> fn_entry f \<and> s = e then
          [\<lparr>site_block = b, callee_entry = e, site_callee_name = callee_name (detect_functions cfg) e\<rparr>] else []
    | None \<Rightarrow> []"
  have own: "fn_entry f' \<in> fn_blocks f'" if "f' \<in> set (detect_functions cfg)" for f'
    using functions_partition(2) [OF that] by simp
  have "c \<in> set (?site s) \<longleftrightarrow> (\<exists>f' \<in> set (detect_functions cfg). f' \<noteq> f \<and> s = fn_entry f' \<and>
      c = \<lparr>site_block = b, callee_entry = fn_entry f', site_callee_name = fn_name f'\<rparr>)" for s
  proof
    assume c: "c \<in> set (?site s)"
    obtain e where e: "block_to_func (detect_functions cfg) s = Some e"
      using c by (cases "block_to_func (detect_functions cfg) s") simp_all
    then obtain f' where f': "f' \<in> set (detect_functions cfg)" "s \<in> fn_blocks f'" "e = fn_entry f'"
      by (rule block_to_func_Some)
    have "e \<noteq> fn_entry f \<and> s = e \<and> c = \<lparr>site_block = b, callee_entry = e, site_callee_name = callee_name (detect_functions cfg) e\<rparr>"
      using c e by (simp split: if_splits)
    then show "\<exists>f' \<in> set (detect_functions cfg). f' \<noteq> f \<and> s = fn_entry f' \<and>
        c = \<lparr>site_block = b, callee_entry = fn_entry f', site_callee_name = fn_name f'\<rparr>"
      using f' callee_name_exact by (intro bexI [of _ f']) auto
  next
    assume "\<exists>f' \<in> set (detect_functions cfg). f' \<noteq> f \<and> s = fn_entry f' \<and>
        c = \<lparr>site_block = b, callee_entry = fn_entry f', site_callee_name = fn_name f'\<rparr>"
    then obtain f' where f': "f' \<in> set (detect_functions cfg)" "f' \<noteq> f" "s = fn_entry f'"
        "c = \<lparr>site_block = b, callee_entry = fn_entry f', site_callee_name = fn_name f'\<rparr>" by blast
    have "fn_entry f' \<noteq> fn_entry f" using functions_apart [OF f f'(1)] own f f'(1,2) by metis
    then show "c \<in> set (?site s)"
      using f' block_to_func_exact [OF f'(1) own [OF f'(1)]] callee_name_exact [OF f'(1)] by simp
  qed
  note site = this
  have "c \<in> ?L \<longleftrightarrow> (\<exists>s \<in> set (cfg_succs cfg b). c \<in> set (?site s))"
    unfolding call_sites_of_block_def set_concat set_map UN_iff bex_simps ..
  also have "\<dots> \<longleftrightarrow> c \<in> ?R" unfolding site edge_def by blast
  finally show "c \<in> ?L \<longleftrightarrow> c \<in> ?R" .
qed

end

context set_iteration
begin

lemma call_graph_exact:
  assumes fg: "flow_graph cfg" and f: "f \<in> set (detect_functions cfg)"
  shows "listed (build_call_graph iter cfg (detect_functions cfg)) (fn_entry f) =
    {\<lparr>site_block = b, callee_entry = fn_entry f', site_callee_name = fn_name f'\<rparr> | b f'.
       b \<in> fn_blocks f \<and> f' \<in> set (detect_functions cfg) \<and> f' \<noteq> f \<and> edge cfg b (fn_entry f')}"
proof -
  let ?fs = "detect_functions cfg"
  define S where "S = (\<lambda>g b. if fn_entry f = fn_entry g then set (call_sites_of_block cfg ?fs g b) else {})"
  have block: "listed (fold (push_entry (fn_entry g)) (call_sites_of_block cfg ?fs g b) m) (fn_entry f) =
      listed m (fn_entry f) \<union> S g b" for g b m
    by (subst listed_fold [where S = "\<lambda>c. if fn_entry f = fn_entry g then {c} else {}"]) (auto simp: listed_push S_def)
  have func: "listed (fold (\<lambda>b m. fold (push_entry (fn_entry g)) (call_sites_of_block cfg ?fs g b) m) (iter (fn_blocks g)) m) (fn_entry f) =
      listed m (fn_entry f) \<union> (\<Union>b \<in> set (iter (fn_blocks g)). S g b)" for g m
    by (rule listed_fold [OF block])
  have "listed (build_call_graph iter cfg ?fs) (fn_entry f) =
      (\<Union>g \<in> set ?fs. \<Union>b \<in> set (iter (fn_blocks g)). S g b)"
    unfolding build_call_graph_def by (subst listed_fold [OF func]) (simp add: listed_def)
  also have "\<dots> = (\<Union>b \<in> set (iter (fn_blocks f)). set (call_sites_of_block cfg ?fs f b))"
  proof -
    have "g = f" if "g \<in> set ?fs" "fn_entry f = fn_entry g" for g
      using flow_graph.functions_apart [OF fg f that(1)] flow_graph.functions_partition(2) [OF fg] f that by metis
    then have own: "(\<Union>b \<in> set (iter (fn_blocks g)). S g b) =
        (if g = f then \<Union>b \<in> set (iter (fn_blocks f)). set (call_sites_of_block cfg ?fs f b) else {})"
      if "g \<in> set ?fs" for g
      using that by (simp add: S_def)
    show ?thesis by (rule UN_if_eq [where S = "\<lambda>g. \<Union>b \<in> set (iter (fn_blocks g)). S g b", OF f]) (rule own)
  qed
  also have "set (iter (fn_blocks f)) = fn_blocks f"
    by (rule iter_set [OF finite_subset [OF flow_graph.functions_partition(2) [OF fg f, THEN conjunct2] cfg_nodes_finite]])
  finally show ?thesis unfolding flow_graph.call_sites_exact [OF fg f] by blast
qed

end


section \<open>Properties\<close>

text \<open>A program with a call: the return address goes to register 0, the callee opens a stack frame and jumps
  back through register 0.\<close>

definition call_program :: decoded_program where
  "call_program = \<lparr>jump_table = [15],
     instructions = [(0, LoadImm64 0 2), (10, Jump 10), (15, Trap), (20, TwoRegImm AddImm64 2 2 (- 8)), (23, JumpInd 0 0)],
     code_len = 25, memory_base = None\<rparr>"

abbreviation call_cfg :: control_flow_graph where
  "call_cfg \<equiv> reorder (build call_program) []"

definition main_function :: pvm_function where
  "main_function = \<lparr>fn_entry = 0, fn_blocks = {0}, fn_name = ''main''\<rparr>"

definition called_function :: pvm_function where
  "called_function = \<lparr>fn_entry = 20, fn_blocks = {20}, fn_name = ''func_1''\<rparr>"

lemma call_program_functions:
  "detect_functions call_cfg =
     [main_function, \<lparr>fn_entry = 15, fn_blocks = {15}, fn_name = ''func_0''\<rparr>, called_function]"
  by code_simp

lemma call_functions: "main_function \<in> set (detect_functions call_cfg)" "called_function \<in> set (detect_functions call_cfg)"
  unfolding call_program_functions by simp_all

lemma main_is_not_called: "main_function \<noteq> called_function"
  by (simp add: main_function_def called_function_def)

text \<open>C27: the functions detected in the graph of a program are listed by increasing entry, every function
  consists of blocks of the graph, its entry among them, different functions share no block, and an edge
  that leaves a function ends in a function.\<close>

theorem functions_disjoint:
  assumes "f \<in> set (detect_functions (reorder (build p) bs))" "f' \<in> set (detect_functions (reorder (build p) bs))" "f \<noteq> f'"
  shows "sorted_wrt (<) (map fn_entry (detect_functions (reorder (build p) bs))) \<and>
    fn_entry f \<in> fn_blocks f \<and> fn_blocks f \<subseteq> cfg_nodes (build p) \<and> fn_blocks f \<inter> fn_blocks f' = {} \<and>
    {y. \<exists>x. x \<in> fn_blocks f \<and> edge (build p) x y} \<subseteq> \<Union> (fn_blocks ` set (detect_functions (reorder (build p) bs)))"
proof (intro conjI)
  have e: "edge (build p) = edge (reorder (build p) bs)"
    by (simp add: edge_def [abs_def] reorder_same [OF built.keys_distinct])
  show "sorted_wrt (<) (map fn_entry (detect_functions (reorder (build p) bs)))" by (rule reordered.functions_partition(1))
  show "fn_entry f \<in> fn_blocks f" "fn_blocks f \<subseteq> cfg_nodes (build p)"
    using reordered.functions_partition(2) [OF assms(1)] by (simp_all add: reorder_same [OF built.keys_distinct])
  show "fn_blocks f \<inter> fn_blocks f' = {}" using reordered.functions_apart [OF assms(1,2)] assms(3) by blast
  show "{y. \<exists>x. x \<in> fn_blocks f \<and> edge (build p) x y} \<subseteq> \<Union> (fn_blocks ` set (detect_functions (reorder (build p) bs)))"
    unfolding e using reordered.functions_partition(4) [OF assms(1)] by blast
qed

theorem functions_disjoint_witness:
  "sorted_wrt (<) (map fn_entry (detect_functions call_cfg)) \<and> (0::usize) \<in> {0} \<and> {0} \<subseteq> cfg_nodes (build call_program) \<and>
   {0} \<inter> {20 :: usize} = {} \<and>
   {y. \<exists>x. x \<in> {0} \<and> edge (build call_program) x y} \<subseteq> \<Union> (fn_blocks ` set (detect_functions call_cfg))"
  using functions_disjoint [OF call_functions main_is_not_called] by (simp only: main_function_def called_function_def pvm_function.simps)

text \<open>A function is named \<open>main\<close> exactly when it starts at the entry of the program, and the other functions
  are numbered from zero in the order of their entries.\<close>

theorem functions_named:
  "{f \<in> set (detect_functions cfg). fn_name f = ''main''} = {f \<in> set (detect_functions cfg). fn_entry f = entry_pc cfg} \<and>
   (\<exists>n. map fn_name (filter (\<lambda>f. fn_name f \<noteq> ''main'') (detect_functions cfg)) = map func_name [0..<n])"
  using detect_named detect_numbered by (auto simp: named_def)

text \<open>C26: the graph that is built for a detected function has the blocks of the function as nodes, its entry as
  entry, keeps the edges between its blocks, and its dominator tree is computed and decides dominance
  exactly, whatever direct-call edges are added and in whatever order the sets are iterated.\<close>

theorem function_graph_dominators:
  assumes "set_iteration iter" "f \<in> set (detect_functions (reorder (build p) bs))"
    and g: "g = build_function_cfg iter (reorder (build p) bs) f pats jt"
  shows "cfg_nodes g = fn_blocks f \<and> entry_pc g = fn_entry f \<and>
    {(x, y). edge (build p) x y} \<inter> fn_blocks f \<times> fn_blocks f \<subseteq> {(x, y). edge g x y} \<and>
    (\<exists>t. compute g = Some t \<and>
      (\<forall>a b. dominates t a b \<longleftrightarrow> a = b \<or> reachable g b \<and> on_every_walk g a b))"
proof (intro conjI)
  note fg = set_iteration.function_flow_graph [OF assms(1) reordered.flow_graph_axioms assms(2), where pats = pats and jt = jt, folded g]
  have e: "edge (build p) = edge (reorder (build p) bs)"
    by (simp add: edge_def [abs_def] reorder_same [OF built.keys_distinct])
  show "cfg_nodes g = fn_blocks f" "entry_pc g = fn_entry f" by (rule fg(2), rule fg(3))
  show "{(x, y). edge (build p) x y} \<inter> fn_blocks f \<times> fn_blocks f \<subseteq> {(x, y). edge g x y}"
    unfolding e using fg(5) by blast
  show "\<exists>t. compute g = Some t \<and> (\<forall>a b. dominates t a b \<longleftrightarrow> a = b \<or> reachable g b \<and> on_every_walk g a b)"
    by (rule flow_graph.dominates_exact [OF fg(1)])
qed

abbreviation main_cfg :: control_flow_graph where
  "main_cfg \<equiv> build_function_cfg sorted_list_of_set call_cfg main_function [] []"

theorem function_graph_dominators_witness:
  "cfg_nodes main_cfg = fn_blocks main_function \<and> entry_pc main_cfg = fn_entry main_function \<and>
    {(x, y). edge (build call_program) x y} \<inter> fn_blocks main_function \<times> fn_blocks main_function \<subseteq> {(x, y). edge main_cfg x y} \<and>
    (\<exists>t. compute main_cfg = Some t \<and>
      (\<forall>a b. dominates t a b \<longleftrightarrow> a = b \<or> reachable main_cfg b \<and> on_every_walk main_cfg a b))"
  by (rule function_graph_dominators [OF ascending.set_iteration_axioms call_functions(1) refl])

text \<open>C33: the call graph lists for a function exactly the edges from its blocks to the entries of other
  functions, each with the name of the function called.\<close>

theorem call_graph_of_program:
  assumes "set_iteration iter" "f \<in> set (detect_functions (reorder (build p) bs))"
    and m: "m = build_call_graph iter (reorder (build p) bs) (detect_functions (reorder (build p) bs))"
  shows "(case m (fn_entry f) of None \<Rightarrow> {} | Some sites \<Rightarrow> set sites) =
    {\<lparr>site_block = b, callee_entry = fn_entry f', site_callee_name = fn_name f'\<rparr> | b f'.
       b \<in> fn_blocks f \<and> f' \<in> set (detect_functions (reorder (build p) bs)) \<and> f' \<noteq> f \<and> edge (build p) b (fn_entry f')}"
proof -
  have e: "edge (build p) = edge (reorder (build p) bs)"
    by (simp add: edge_def [abs_def] reorder_same [OF built.keys_distinct])
  show ?thesis unfolding m e listed_def [symmetric]
    by (rule set_iteration.call_graph_exact [OF assms(1) reordered.flow_graph_axioms assms(2)])
qed

theorem call_graph_of_program_witness:
  "(case build_call_graph sorted_list_of_set call_cfg (detect_functions call_cfg) (fn_entry main_function) of
      None \<Rightarrow> {} | Some sites \<Rightarrow> set sites) =
    {\<lparr>site_block = b, callee_entry = fn_entry f', site_callee_name = fn_name f'\<rparr> | b f'.
       b \<in> fn_blocks main_function \<and> f' \<in> set (detect_functions call_cfg) \<and> f' \<noteq> main_function \<and>
       edge (build call_program) b (fn_entry f')}"
  by (rule call_graph_of_program [OF ascending.set_iteration_axioms call_functions(1) refl])

text \<open>A component whose entry of the program has a predecessor while another of its blocks has none is split
  at that other block; what only the entry of the program reaches is then in no function, and no function
  is named \<open>main\<close>. Here the first block branches to itself and control reaches 9 from it.\<close>

definition split_program :: decoded_program where
  "split_program = \<lparr>jump_table = [],
     instructions = [(0, BranchReg BranchNe 1 2 0), (3, Jump 6), (6, Jump 3), (9, TwoRegImm AddImm64 2 2 (- 8)), (12, Trap)],
     code_len = 13, memory_base = None\<rparr>"

theorem entry_function_lost:
  "map fn_entry (detect_functions (build split_program)) = [6, 9] \<and>
   map fn_name (detect_functions (build split_program)) = [''func_0'', ''func_1''] \<and>
   map fn_blocks (detect_functions (build split_program)) = [{6}, {9}] \<and>
   entry_pc (build split_program) = 0 \<and> map fst (blocks (build split_program)) = [0, 3, 6, 9]"
  by code_simp

end
