(* ===== verification/Idioms_Correct.thy ===== *)
theory Idioms_Correct
  imports Function_Graphs
begin

text \<open>
  Idioms: a return epilogue is a suffix of its block that only restores registers and returns, and the blocks
  dropped as heap allocation boilerplate are exactly those reached from the entry block without entering
  the convergence block.
\<close>

section \<open>Epilogues\<close>

definition is_restore :: "usize \<times> instruction \<Rightarrow> bool" where
  "is_restore x \<longleftrightarrow> (case load_ind LoadIndU64 (snd x) of
     Some (dst, base) \<Rightarrow> base = 1 \<and> dst \<in> set callee_saved | None \<Rightarrow> False)"

lemma scan_restores_suffix:
  "i < length instrs \<Longrightarrow> scan_restores instrs i = map fst (takeWhile is_restore (rev (tl (take (Suc i) instrs))))"
proof (induction i)
  case 0
  then show ?case by (cases instrs) simp_all
next
  case (Suc i)
  have "tl (take (Suc (Suc i)) instrs) = tl (take (Suc i) instrs) @ [instrs ! Suc i]"
    using Suc.prems by (cases instrs) (simp_all add: take_Suc_conv_app_nth)
  then show ?case
    using Suc by (auto simp: is_restore_def split_def Let_def split: option.splits)
qed

lemma load_ind_Some: "load_ind opc i = Some (d, b) \<longleftrightarrow> (\<exists>offset. i = LoadInd opc d b offset)"
  by (auto simp: load_ind_def split: instruction.splits)

lemma add_imm64_Some: "add_imm64 d s i = Some v \<longleftrightarrow> (\<exists>w. i = TwoRegImm AddImm64 d s w \<and> v = sint w)"
  by (auto simp: add_imm64_def split: instruction.splits)

lemma is_restore_iff: "is_restore x \<longleftrightarrow> (\<exists>dst offset. snd x = LoadInd LoadIndU64 dst 1 offset \<and> dst \<in> set callee_saved)"
  by (auto simp: is_restore_def load_ind_Some split: option.splits) (simp add: load_ind_def)

lemma last_three:
  assumes "3 \<le> length xs"
  shows "xs = take (length xs - 3) xs @ [xs ! (length xs - 3), xs ! (length xs - 2), xs ! (length xs - 1)]"
proof -
  define k where "k = length xs - 3"
  have k: "k + 3 = length xs" "length xs - 2 = Suc k" "length xs - 1 = Suc (Suc k)" "Suc (Suc (Suc k)) = length xs"
    using assms by (simp_all add: k_def)
  have "drop k xs = xs ! k # xs ! Suc k # xs ! Suc (Suc k) # drop (Suc (Suc (Suc k))) xs"
    using Cons_nth_drop_Suc [of k xs] Cons_nth_drop_Suc [of "Suc k" xs] Cons_nth_drop_Suc [of "Suc (Suc k)" xs] k(1) by simp
  then have "drop k xs = [xs ! (length xs - 3), xs ! (length xs - 2), xs ! (length xs - 1)]"
    unfolding k(2,3,4) by (simp add: k_def)
  then show ?thesis unfolding k_def [symmetric] by (metis append_take_drop_id)
qed

lemma return_epilogueD:
  assumes "return_epilogue instrs = Some e"
  obtains pc1 pc2 pc3 offset v where "3 \<le> length instrs" "sint v > 0"
    "instrs ! (length instrs - 3) = (pc1, LoadInd LoadIndU64 0 1 offset)"
    "instrs ! (length instrs - 2) = (pc2, TwoRegImm AddImm64 1 1 v)"
    "instrs ! (length instrs - 1) = (pc3, JumpInd 0 0)"
    "e = Return ([pc1, pc2, pc3] @ scan_restores instrs (length instrs - 4))"
proof -
  obtain pc1 i1 pc2 i2 pc3 i3 where at: "instrs ! (length instrs - 3) = (pc1, i1)"
      "instrs ! (length instrs - 2) = (pc2, i2)" "instrs ! (length instrs - 1) = (pc3, i3)"
    by (cases "instrs ! (length instrs - 3)", cases "instrs ! (length instrs - 2)", cases "instrs ! (length instrs - 1)") blast
  note r = assms [unfolded return_epilogue_def Let_def at split_conv]
  have len: "3 \<le> length instrs" using r by (simp split: if_splits)
  have j: "i3 = JumpInd 0 0" using r by (simp split: if_splits instruction.splits)
  obtain v where v: "add_imm64 1 1 i2 = Some v" "v > 0" using r by (simp split: if_splits option.splits)
  have l: "load_ind LoadIndU64 i1 = Some (0, 1)" using r by (simp split: if_splits)
  have e: "e = Return ([pc1, pc2, pc3] @ scan_restores instrs (length instrs - 4))" using r by (simp split: if_splits)
  obtain w where w: "i2 = TwoRegImm AddImm64 1 1 w" "v = sint w" using v(1) unfolding add_imm64_Some by blast
  obtain offset where o: "i1 = LoadInd LoadIndU64 0 1 offset" using l unfolding load_ind_Some by blast
  show thesis by (rule that [of w pc1 offset pc2 pc3]) (use len v(2) w o j at e in simp_all)
qed

lemma takeWhile_rev_split:
  "\<exists>pre. xs = pre @ rev (takeWhile P (rev xs))"
  by (metis rev_append rev_rev_ident takeWhile_dropWhile_id)

section \<open>Heap allocation\<close>

inductive escapes :: "control_flow_graph \<Rightarrow> usize set \<Rightarrow> usize \<Rightarrow> usize \<Rightarrow> bool" for cfg stop s where
  step: "edge cfg s t \<Longrightarrow> t \<notin> stop \<Longrightarrow> escapes cfg stop s t"
| trans: "escapes cfg stop s t \<Longrightarrow> edge cfg t u \<Longrightarrow> u \<notin> stop \<Longrightarrow> escapes cfg stop s u"

lemma sbrk_loop_result:
  assumes "visited = stop \<union> set found" "set found \<inter> stop = {}" "distinct found"
    "\<And>b t. b \<in> set found \<Longrightarrow> edge cfg b t \<Longrightarrow> t \<in> visited \<union> set queue"
  shows "\<exists>new. sbrk_loop cfg queue visited found = found @ new \<and> distinct (found @ new) \<and> set new \<inter> stop = {} \<and>
    set queue \<subseteq> stop \<union> set (found @ new) \<and>
    {t. \<exists>b \<in> set (found @ new). edge cfg b t} \<subseteq> stop \<union> set (found @ new)"
  using assms
proof (induction cfg queue visited found rule: sbrk_loop.induct)
  case (1 cfg visited found)
  then show ?case by auto
next
  case (2 cfg bp queue visited found)
  show ?case
  proof (cases "bp \<in> visited")
    case True
    have "t \<in> visited \<union> set queue" if "b \<in> set found" "edge cfg b t" for b t
      using 2(6) [OF that] True by auto
    then obtain new where new: "sbrk_loop cfg queue visited found = found @ new" "distinct (found @ new)" "set new \<inter> stop = {}"
        "set queue \<subseteq> stop \<union> set (found @ new)" "{t. \<exists>b \<in> set (found @ new). edge cfg b t} \<subseteq> stop \<union> set (found @ new)"
      using 2(1) [OF True 2(3,4,5)] by blast
    have "set (bp # queue) \<subseteq> stop \<union> set (found @ new)" using new(4) True 2(3) by auto
    then show ?thesis using new True by auto
  next
    case False
    let ?q = "queue @ filter (\<lambda>s. s \<notin> insert bp visited) (cfg_succs cfg bp)"
    have q: "t \<in> insert bp visited \<union> set ?q" if "b \<in> set (found @ [bp])" "edge cfg b t" for b t
    proof (cases "b = bp")
      case True
      then show ?thesis using that(2) by (auto simp: edge_def)
    next
      case False
      then show ?thesis using 2(6) [of b t] that by auto
    qed
    have "\<exists>new. sbrk_loop cfg ?q (insert bp visited) (found @ [bp]) = (found @ [bp]) @ new \<and> distinct ((found @ [bp]) @ new) \<and>
        set new \<inter> stop = {} \<and> set ?q \<subseteq> stop \<union> set ((found @ [bp]) @ new) \<and>
        {t. \<exists>b \<in> set ((found @ [bp]) @ new). edge cfg b t} \<subseteq> stop \<union> set ((found @ [bp]) @ new)"
    proof (rule 2(2) [OF False refl])
      show "insert bp visited = stop \<union> set (found @ [bp])" using 2(3) by auto
      show "set (found @ [bp]) \<inter> stop = {}" "distinct (found @ [bp])" using 2(3,4,5) False by auto
    qed (rule q)
    then obtain new where new: "sbrk_loop cfg ?q (insert bp visited) (found @ [bp]) = (found @ [bp]) @ new" "distinct ((found @ [bp]) @ new)"
        "set new \<inter> stop = {}" "set ?q \<subseteq> stop \<union> set ((found @ [bp]) @ new)"
        "{t. \<exists>b \<in> set ((found @ [bp]) @ new). edge cfg b t} \<subseteq> stop \<union> set ((found @ [bp]) @ new)" by blast
    have eq: "sbrk_loop cfg (bp # queue) visited found = found @ (bp # new)" using False new(1) by (simp add: Let_def)
    have assoc: "(found @ [bp]) @ new = found @ (bp # new)" by simp
    have "set (bp # new) \<inter> stop = {}" using new(3) False 2(3) by auto
    moreover have "set (bp # queue) \<subseteq> stop \<union> set (found @ (bp # new))" using new(4) by auto
    ultimately show ?thesis using eq new(2,5) unfolding assoc by (intro exI [of _ "bp # new"]) simp
  qed
qed

lemma sbrk_loop_source:
  "(\<And>t. t \<in> set queue \<Longrightarrow> edge cfg e t \<or> (\<exists>b \<in> set found. edge cfg b t)) \<Longrightarrow>
   (\<And>b. b \<in> set found \<Longrightarrow> escapes cfg stop e b) \<Longrightarrow> stop \<subseteq> visited \<Longrightarrow>
   b \<in> set (sbrk_loop cfg queue visited found) \<Longrightarrow> escapes cfg stop e b"
proof (induction cfg queue visited found rule: sbrk_loop.induct)
  case (2 cfg bp queue visited found)
  show ?case
  proof (cases "bp \<in> visited")
    case True
    show ?thesis
      by (rule 2(1) [OF True]) (use 2(3-6) True in auto)
  next
    case False
    have bp: "escapes cfg stop e bp"
    proof -
      have "bp \<notin> stop" using False 2(5) by blast
      then show ?thesis using 2(3) [of bp] 2(4) escapes.intros [where cfg = cfg and stop = stop and s = e] by auto
    qed
    show ?thesis
    proof (rule 2(2) [OF False refl])
      show "edge cfg e t \<or> (\<exists>b \<in> set (found @ [bp]). edge cfg b t)"
        if "t \<in> set (queue @ filter (\<lambda>s. s \<notin> insert bp visited) (cfg_succs cfg bp))" for t
        using that 2(3) [of t] by (auto simp: edge_def)
      show "escapes cfg stop e b" if "b \<in> set (found @ [bp])" for b using that 2(4) bp by auto
      show "stop \<subseteq> insert bp visited" using 2(5) by blast
      show "b \<in> set (sbrk_loop cfg (queue @ filter (\<lambda>s. s \<notin> insert bp visited) (cfg_succs cfg bp)) (insert bp visited) (found @ [bp]))"
        using 2(6) False by (simp add: Let_def)
    qed
  qed
qed auto

lemma sbrk_exact:
  "set (sbrk_loop cfg (filter (\<lambda>s. s \<noteq> conv) (cfg_succs cfg e)) {e, conv} []) = {b. escapes cfg {e, conv} e b}"
proof (rule set_eqI)
  fix b
  let ?r = "sbrk_loop cfg (filter (\<lambda>s. s \<noteq> conv) (cfg_succs cfg e)) {e, conv} []"
  have "\<exists>new. ?r = [] @ new \<and> distinct ([] @ new) \<and> set new \<inter> {e, conv} = {} \<and>
      set (filter (\<lambda>s. s \<noteq> conv) (cfg_succs cfg e)) \<subseteq> {e, conv} \<union> set ([] @ new) \<and>
      {t. \<exists>b \<in> set ([] @ new). edge cfg b t} \<subseteq> {e, conv} \<union> set ([] @ new)"
    by (rule sbrk_loop_result) auto
  then obtain new where new: "?r = new" "set (filter (\<lambda>s. s \<noteq> conv) (cfg_succs cfg e)) \<subseteq> {e, conv} \<union> set new"
      "{t. \<exists>b \<in> set new. edge cfg b t} \<subseteq> {e, conv} \<union> set new" by auto
  have "b \<in> set new" if "escapes cfg {e, conv} e b"
    using that
  proof induction
    case (step t)
    then show ?case using new(2) by (auto simp: edge_def)
  next
    case (trans t u)
    then show ?case using new(3) by auto
  qed
  moreover have "escapes cfg {e, conv} e b" if "b \<in> set ?r"
    by (rule sbrk_loop_source [OF _ _ _ that]) (auto simp: edge_def)
  ultimately show "b \<in> set ?r \<longleftrightarrow> b \<in> {b. escapes cfg {e, conv} e b}"
    using new(1) by blast
qed

lemma find_convergence_block:
  "find_convergence cfg entry addr pcs = Some (conv, s, h) \<Longrightarrow> conv \<noteq> entry \<and> conv \<in> set pcs \<and> conv \<in> cfg_nodes cfg"
proof (induction cfg entry addr pcs rule: find_convergence.induct)
  case (2 cfg entry addr pc pcs)
  then show ?case
    by (cases "pc = entry"; cases "get_block cfg pc")
      (auto simp: cfg_nodes_dom split: option.splits prod.splits)
qed simp

lemma detect_heap_allocD:
  assumes "detect_heap_alloc_pattern cfg entry mem_base = Some pat"
  obtains b where "get_block cfg entry = Some b" "convergence_block_pc pat \<noteq> entry" "convergence_block_pc pat \<in> cfg_nodes cfg"
    "sbrk_blocks pat = sbrk_loop cfg (filter (\<lambda>s. s \<noteq> convergence_block_pc pat) (successors b)) {entry, convergence_block_pc pat} []"
    "sbrk_blocks pat \<noteq> []"
proof -
  note r = assms [unfolded detect_heap_alloc_pattern_def Let_def bind_eq_Some_conv split_paired_Ex split_conv]
  then obtain b conv sp hp where b: "get_block cfg entry = Some b" "find_convergence cfg entry sp hp = Some conv"
    "fst conv = convergence_block_pc pat"
    "sbrk_blocks pat = sbrk_loop cfg (filter (\<lambda>s. s \<noteq> fst conv) (successors b)) {entry, fst conv} []" "sbrk_blocks pat \<noteq> []"
    by (auto split: if_splits)
  obtain c s h where "conv = (c, s, h)" by (cases conv)
  then show thesis using that [OF b(1)] find_convergence_block [of cfg entry sp hp c s h] b by simp
qed


section \<open>Properties\<close>

text \<open>C34: a block is given a return epilogue only when it ends with restores of callee-saved registers from the
  stack pointer, the restore of the return address, the release of the frame and the jump back; exactly
  the positions of these instructions are dropped.\<close>

theorem epilogue_is_suffix:
  assumes "detect_epilogues cfg block_pc = Some (Return pcs)"
  shows "\<exists>block pre restores pc1 pc2 pc3 offset v.
    get_block cfg block_pc = Some block \<and>
    block_instrs block = pre @ restores @
      [(pc1, LoadInd LoadIndU64 0 1 offset), (pc2, TwoRegImm AddImm64 1 1 v), (pc3, JumpInd 0 0)] \<and>
    sint v > 0 \<and> filter is_restore restores = restores \<and> pcs = [pc1, pc2, pc3] @ map fst (rev restores)"
proof -
  obtain block where block: "get_block cfg block_pc = Some block" "block_epilogue block = Some (Return pcs)"
    using assms by (auto simp: detect_epilogues_def bind_eq_Some_conv)
  define xs where "xs = block_instrs block"
  have "halt_epilogue xs \<noteq> Some (Return pcs)"
    by (auto simp: halt_epilogue_def Let_def split: prod.splits instruction.splits)
  then have "return_epilogue xs = Some (Return pcs)"
    using block(2) by (auto simp: block_epilogue_def xs_def split: option.splits)
  then obtain pc1 pc2 pc3 offset v where r: "3 \<le> length xs" "sint v > 0"
    "xs ! (length xs - 3) = (pc1, LoadInd LoadIndU64 0 1 offset)" "xs ! (length xs - 2) = (pc2, TwoRegImm AddImm64 1 1 v)"
    "xs ! (length xs - 1) = (pc3, JumpInd 0 0)" "pcs = [pc1, pc2, pc3] @ scan_restores xs (length xs - 4)"
    by (elim return_epilogueD) simp
  define ys where "ys = take (length xs - 3) xs"
  define rs where "rs = rev (takeWhile is_restore (rev (tl ys)))"
  have scan: "scan_restores xs (length xs - 4) = map fst (rev rs)"
  proof (cases "length xs = 3")
    case True
    then show ?thesis by (simp add: rs_def ys_def)
  next
    case False
    then have "length xs - 4 < length xs" "Suc (length xs - 4) = length xs - 3" using r(1) by linarith+
    then show ?thesis using scan_restores_suffix [of "length xs - 4" xs] by (simp add: rs_def ys_def)
  qed
  obtain pre where pre: "tl ys = pre @ rs" using takeWhile_rev_split [of "tl ys" is_restore] unfolding rs_def by blast
  have "\<exists>pre. ys = pre @ rs"
    by (metis pre append_Cons append_Nil hd_Cons_tl list.sel(2) append_is_Nil_conv)
  then obtain pre where "ys = pre @ rs" by blast
  then have "xs = pre @ rs @ [(pc1, LoadInd LoadIndU64 0 1 offset), (pc2, TwoRegImm AddImm64 1 1 v), (pc3, JumpInd 0 0)]"
    using last_three [OF r(1)] r(3,4,5) by (simp add: ys_def)
  moreover have "filter is_restore rs = rs"
    unfolding rs_def by (rule filter_True) (auto dest: set_takeWhileD)
  ultimately show ?thesis using block(1) r(2,6) scan unfolding xs_def by (intro exI conjI) auto
qed

definition epilogue_program :: decoded_program where
  "epilogue_program = \<lparr>jump_table = [],
     instructions = [(0, TwoRegImm AddImm64 3 3 1), (3, LoadInd LoadIndU64 9 1 8), (6, LoadInd LoadIndU64 0 1 0),
       (9, TwoRegImm AddImm64 1 1 16), (12, JumpInd 0 0)],
     code_len = 14, memory_base = None\<rparr>"

theorem epilogue_is_suffix_witness:
  "\<exists>block pre restores pc1 pc2 pc3 offset v.
    get_block (build epilogue_program) 0 = Some block \<and>
    block_instrs block = pre @ restores @
      [(pc1, LoadInd LoadIndU64 0 1 offset), (pc2, TwoRegImm AddImm64 1 1 v), (pc3, JumpInd 0 0)] \<and>
    sint v > 0 \<and> filter is_restore restores = restores \<and> [6, 9, 12, 3] = [pc1, pc2, pc3] @ map fst (rev restores)"
proof (rule epilogue_is_suffix)
  show "detect_epilogues (build epilogue_program) 0 = Some (Return [6, 9, 12, 3])" by code_simp
qed

text \<open>The scan never looks at the first instruction of a block: a block that holds nothing but the epilogue keeps
  its first restore.\<close>

theorem first_restore_kept:
  "return_epilogue [(3, LoadInd LoadIndU64 9 1 8), (6, LoadInd LoadIndU64 0 1 0),
     (9, TwoRegImm AddImm64 1 1 16), (12, JumpInd 0 0)] = Some (Return [6, 9, 12])"
  by code_simp

text \<open>C35: the blocks dropped as heap allocation boilerplate are exactly those that control reaches from the entry
  block without entering the convergence block or the entry again; the convergence block is another block of
  the graph.\<close>

theorem heap_alloc_blocks:
  assumes "detect_heap_alloc_pattern cfg entry mem_base = Some pat"
  shows "set (sbrk_blocks pat) = {b. escapes cfg {entry, convergence_block_pc pat} entry b} \<and>
    sbrk_blocks pat \<noteq> [] \<and> convergence_block_pc pat \<in> cfg_nodes cfg - {entry}"
proof -
  obtain b where b: "get_block cfg entry = Some b" "convergence_block_pc pat \<noteq> entry" "convergence_block_pc pat \<in> cfg_nodes cfg"
    "sbrk_blocks pat = sbrk_loop cfg (filter (\<lambda>s. s \<noteq> convergence_block_pc pat) (successors b)) {entry, convergence_block_pc pat} []"
    "sbrk_blocks pat \<noteq> []"
    by (rule detect_heap_allocD [OF assms])
  have "successors b = cfg_succs cfg entry" using b(1) by (simp add: cfg_succs_def)
  then show ?thesis using sbrk_exact b by simp
qed

definition heap_program :: decoded_program where
  "heap_program = \<lparr>jump_table = [],
     instructions = [(0, LoadImm 2 0x30000), (6, LoadInd LoadIndU32 3 2 0), (9, LoadImm 4 0x30004),
       (15, LoadInd LoadIndU32 5 4 0), (18, BranchReg BranchGeU 3 5 9), (22, LoadImm 7 1),
       (27, LoadImm 2 0x30000), (33, StoreInd StoreIndU32 2 3 0), (36, Trap)],
     code_len = 37, memory_base = Some 0x30000\<rparr>"

theorem heap_alloc_blocks_witness:
  "\<exists>pat. detect_heap_alloc_pattern (build heap_program) 0 (Some 0x30000) = Some pat \<and>
     set (sbrk_blocks pat) = {b. escapes (build heap_program) {0, convergence_block_pc pat} 0 b} \<and>
     sbrk_blocks pat \<noteq> [] \<and> convergence_block_pc pat \<in> cfg_nodes (build heap_program) - {0}"
proof -
  have "detect_heap_alloc_pattern (build heap_program) 0 (Some 0x30000) \<noteq> None" by code_simp
  then obtain pat where pat: "detect_heap_alloc_pattern (build heap_program) 0 (Some 0x30000) = Some pat" by blast
  show ?thesis using pat heap_alloc_blocks [OF pat] by blast
qed

text \<open>An offset below zero, as in a store next to the stack pointer, is read as a large unsigned number and taken
  for the offset of the linear memory.\<close>

theorem negative_offset_counted:
  "detect_linear_memory_offset 0x30000 [(0, StoreInd StoreIndU64 1 2 (- 8))] = Some 0xFFFFFFFFFFFFFFF8"
  by code_simp

end
