(* ===== verification/Ssa.thy ===== *)
theory Ssa
  imports Idioms_Correct "HOL-Library.List_Lexorder"
begin

text \<open>
  The value graph over register definitions (\<open>src/ir/ssa.rs\<close>): a value for each parameter, undefined
  register and definition, merge values where several reach a block, and the value each use reads.

  The state of the registers at a block is the association list of its \<open>HashMap\<close>. It is always built by the
  same insertions in the same order, so two states are equal as maps exactly when they are equal as
  lists. A panic of \<open>build\<close> is the result \<open>None\<close>.
\<close>

section \<open>Values\<close>

type_synonym ssa_value_id = nat

datatype ssa_value_kind
  = SsaParam u8
  | SsaUndef u8
  | SsaInstr usize u8 usize
  | SsaPhi usize u8

record ssa_value =
  ssa_kind :: ssa_value_kind
  ssa_operands :: "ssa_value_id list"

datatype ssa_use_site
  = UseInstr usize u8
  | UsePhi usize u8

text \<open>The derived order of use sites: instructions before merges, then by position and register.\<close>

primrec site_key :: "ssa_use_site \<Rightarrow> nat list" where
  "site_key (UseInstr pc reg) = [0, pc, unat reg]"
| "site_key (UsePhi block_pc reg) = [1, block_pc, unat reg]"

lemma site_key_inject: "site_key a = site_key b \<longleftrightarrow> a = b"
  by (cases a; cases b) (auto simp: word_unat_eq_iff)

instantiation ssa_use_site :: linorder
begin

definition less_eq_ssa_use_site :: "ssa_use_site \<Rightarrow> ssa_use_site \<Rightarrow> bool" where
  "less_eq_ssa_use_site a b \<longleftrightarrow> site_key a \<le> site_key b"

definition less_ssa_use_site :: "ssa_use_site \<Rightarrow> ssa_use_site \<Rightarrow> bool" where
  "less_ssa_use_site a b \<longleftrightarrow> site_key a < site_key b"

instance
  by standard (auto simp: less_eq_ssa_use_site_def less_ssa_use_site_def site_key_inject [symmetric])

end

record ssa_program =
  ssa_values :: "ssa_value list"
  def_value_by_pc_reg :: "usize \<times> u8 \<rightharpoonup> ssa_value_id"
  use_value_by_pc_reg :: "usize \<times> u8 \<rightharpoonup> ssa_value_id"
  uses_by_value :: "ssa_value_id \<rightharpoonup> ssa_use_site list"
  phi_value_by_block_reg :: "usize \<times> u8 \<rightharpoonup> ssa_value_id"
  pc_to_block :: "usize \<rightharpoonup> usize"


section \<open>Construction\<close>

definition new_value :: "ssa_value list \<Rightarrow> ssa_value_kind \<Rightarrow> ssa_value list" where
  "new_value vals kind = vals @ [\<lparr>ssa_kind = kind, ssa_operands = []\<rparr>]"

definition block_of_pc :: "control_flow_graph \<Rightarrow> usize \<rightharpoonup> usize" where
  "block_of_pc cfg =
     fold (\<lambda>(_, block) m. fold (\<lambda>(pc, _) m. m(pc \<mapsto> start_pc block)) (block_instrs block) m) (blocks cfg) Map.empty"

definition ssa_regs :: "u8 list" where
  "ssa_regs = [0, 1, 2, 3, 4, 5, 6, 7, 8, 9, 10, 11, 12]"

text \<open>A parameter and an undefined value for each register, in this order.\<close>

definition initial_values :: "ssa_value list" where
  "initial_values = fold (\<lambda>reg vals. new_value (new_value vals (SsaParam reg)) (SsaUndef reg)) ssa_regs []"

definition param_value :: "u8 \<Rightarrow> ssa_value_id" where
  "param_value reg = 2 * unat reg"

definition undef_value :: "u8 \<Rightarrow> ssa_value_id" where
  "undef_value reg = 2 * unat reg + 1"

definition instr_defs :: "instruction \<Rightarrow> u8 list" where
  "instr_defs instr = remdups (sort (fst (def_use (classify instr))))"

definition instr_uses :: "instruction \<Rightarrow> u8 list" where
  "instr_uses instr = remdups (sort (snd (def_use (classify instr))))"

definition sorted_blocks :: "control_flow_graph \<Rightarrow> usize list" where
  "sorted_blocks cfg = sort (map fst (blocks cfg))"

definition block_code :: "control_flow_graph \<Rightarrow> usize \<Rightarrow> (usize \<times> instruction) list" where
  "block_code cfg block_pc = (case get_block cfg block_pc of Some block \<Rightarrow> block_instrs block | None \<Rightarrow> [])"

definition all_defs :: "control_flow_graph \<Rightarrow> (usize \<times> u8 \<times> usize) list" where
  "all_defs cfg = concat (map (\<lambda>block_pc. concat (map (\<lambda>(pc, instr).
     map (\<lambda>reg. (pc, reg, block_pc)) (instr_defs instr)) (block_code cfg block_pc))) (sorted_blocks cfg))"

definition add_def ::
  "usize \<times> u8 \<times> usize \<Rightarrow> ssa_value list \<times> (usize \<times> u8 \<rightharpoonup> ssa_value_id) \<Rightarrow> ssa_value list \<times> (usize \<times> u8 \<rightharpoonup> ssa_value_id)" where
  "add_def d acc =
     (let (pc, reg, block_pc) = d; (vals, m) = acc
      in (new_value vals (SsaInstr pc reg block_pc), m((pc, reg) \<mapsto> length vals)))"

definition def_values :: "control_flow_graph \<Rightarrow> ssa_value list \<times> (usize \<times> u8 \<rightharpoonup> ssa_value_id)" where
  "def_values cfg = fold add_def (all_defs cfg) (initial_values, Map.empty)"

text \<open>The blocks in reverse postorder, the unreachable ones after them in increasing order.\<close>

definition block_order :: "control_flow_graph \<Rightarrow> dominator_tree \<Rightarrow> usize list" where
  "block_order cfg t = rpo t @ filter (\<lambda>b. b \<notin> set (rpo t)) (remdups (sorted_blocks cfg))"

text \<open>The state of the fixed-point iteration.\<close>

type_synonym reg_state = "(u8 \<times> ssa_value_id) list"

record ssa_state =
  st_values :: "ssa_value list"
  st_phis :: "usize \<times> u8 \<rightharpoonup> ssa_value_id"
  block_in :: "usize \<rightharpoonup> reg_state"
  block_out :: "usize \<rightharpoonup> reg_state"

definition incoming :: "ssa_state \<Rightarrow> usize list \<Rightarrow> u8 \<Rightarrow> ssa_value_id list" where
  "incoming st preds reg = remdups (sort (concat (map (\<lambda>pred. case block_out st pred of
       Some out \<Rightarrow> (case map_of out reg of Some v \<Rightarrow> [v] | None \<Rightarrow> [])
     | None \<Rightarrow> []) preds)))"

definition merge_reg :: "usize \<Rightarrow> usize list \<Rightarrow> u8 \<Rightarrow> ssa_state \<Rightarrow> ssa_value_id \<times> ssa_state" where
  "merge_reg block_pc preds reg st = (case incoming st preds reg of
      [] \<Rightarrow> (undef_value reg, st)
    | [v] \<Rightarrow> (v, st)
    | _ \<Rightarrow> (case st_phis st (block_pc, reg) of
        Some phi \<Rightarrow> (phi, st)
      | None \<Rightarrow> (length (st_values st),
          st\<lparr>st_values := new_value (st_values st) (SsaPhi block_pc reg),
             st_phis := (st_phis st)((block_pc, reg) \<mapsto> length (st_values st))\<rparr>)))"

definition merge_step :: "usize \<Rightarrow> usize list \<Rightarrow> u8 \<Rightarrow> reg_state \<times> ssa_state \<Rightarrow> reg_state \<times> ssa_state" where
  "merge_step block_pc preds reg acc =
     (let (in_map, st) = acc; (v, st) = merge_reg block_pc preds reg st in (in_map @ [(reg, v)], st))"

definition in_state :: "control_flow_graph \<Rightarrow> usize \<Rightarrow> basic_block \<Rightarrow> ssa_state \<Rightarrow> reg_state \<times> ssa_state" where
  "in_state cfg block_pc block st =
     (if predecessors block = [] then
        (map (\<lambda>reg. (reg, if block_pc = entry_pc cfg then param_value reg else undef_value reg)) ssa_regs, st)
      else fold (merge_step block_pc (predecessors block)) ssa_regs ([], st))"

definition define_regs :: "(usize \<times> u8 \<rightharpoonup> ssa_value_id) \<Rightarrow> usize \<times> instruction \<Rightarrow> reg_state \<Rightarrow> reg_state" where
  "define_regs dm x out = (let (pc, instr) = x in
     fold (\<lambda>reg out. case dm (pc, reg) of Some v \<Rightarrow> AList.update reg v out | None \<Rightarrow> out) (instr_defs instr) out)"

definition update_block ::
  "control_flow_graph \<Rightarrow> (usize \<times> u8 \<rightharpoonup> ssa_value_id) \<Rightarrow> usize \<Rightarrow> ssa_state \<times> bool \<Rightarrow> ssa_state \<times> bool" where
  "update_block cfg dm block_pc acc = (let (st, changed) = acc in
     case get_block cfg block_pc of
       None \<Rightarrow> (st, changed)
     | Some block \<Rightarrow>
        (let (in_map, st) = in_state cfg block_pc block st;
             (st, changed) = (if block_in st block_pc \<noteq> Some in_map
               then (st\<lparr>block_in := (block_in st)(block_pc \<mapsto> in_map)\<rparr>, True) else (st, changed));
             out_map = fold (define_regs dm) (block_instrs block) in_map
         in (if block_out st block_pc \<noteq> Some out_map
             then (st\<lparr>block_out := (block_out st)(block_pc \<mapsto> out_map)\<rparr>, True) else (st, changed))))"

text \<open>The bound on the number of passes is the code's: twenty times the number of blocks. The second part of
  the result says whether the last pass changed something.\<close>

fun fixpoint ::
  "nat \<Rightarrow> control_flow_graph \<Rightarrow> (usize \<times> u8 \<rightharpoonup> ssa_value_id) \<Rightarrow> usize list \<Rightarrow> ssa_state \<times> bool \<Rightarrow> ssa_state \<times> bool" where
  "fixpoint 0 cfg dm order acc = acc"
| "fixpoint (Suc n) cfg dm order (st, changed) =
     (if changed then fixpoint n cfg dm order (fold (update_block cfg dm) order (st, False)) else (st, changed))"

definition initial_state :: "ssa_value list \<Rightarrow> ssa_state" where
  "initial_state vals = \<lparr>st_values = vals, st_phis = Map.empty, block_in = Map.empty, block_out = Map.empty\<rparr>"

definition converge :: "control_flow_graph \<Rightarrow> dominator_tree \<Rightarrow> ssa_state \<times> bool" where
  "converge cfg t =
     (let (vals, dm) = def_values cfg
      in fixpoint (max (length (blocks cfg)) 1 * 20) cfg dm (block_order cfg t) (initial_state vals, True))"


section \<open>Operands and uses\<close>

text \<open>The keys of \<open>phi_value_by_block_reg\<close>, sorted, are all pairs of a block and a register that have a phi.\<close>

definition phi_entries :: "control_flow_graph \<Rightarrow> ssa_state \<Rightarrow> (usize \<times> u8 \<times> ssa_value_id) list" where
  "phi_entries cfg st = concat (map (\<lambda>block_pc. concat (map (\<lambda>reg.
     case st_phis st (block_pc, reg) of Some phi \<Rightarrow> [(block_pc, reg, phi)] | None \<Rightarrow> []) ssa_regs)) (remdups (sorted_blocks cfg)))"

definition phi_operands ::
  "control_flow_graph \<Rightarrow> ssa_state \<Rightarrow> usize \<times> u8 \<times> ssa_value_id \<Rightarrow>
   ssa_value list \<times> (ssa_value_id \<rightharpoonup> ssa_use_site list) \<Rightarrow> ssa_value list \<times> (ssa_value_id \<rightharpoonup> ssa_use_site list)" where
  "phi_operands cfg st entry acc =
     (let (block_pc, reg, phi) = entry; (vals, uses) = acc in
      case get_block cfg block_pc of
        None \<Rightarrow> (vals, uses)
      | Some block \<Rightarrow> (let ops = incoming st (predecessors block) reg in
          if length ops \<le> 1 then (vals, uses)
          else (vals[phi := (vals ! phi)\<lparr>ssa_operands := ops\<rparr>],
                fold (\<lambda>opd. push_entry opd (UsePhi block_pc reg)) ops uses)))"

record use_state =
  cur_regs :: reg_state
  use_map :: "usize \<times> u8 \<rightharpoonup> ssa_value_id"
  value_uses :: "ssa_value_id \<rightharpoonup> ssa_use_site list"

text \<open>The value a use reads. \<open>undef_value_by_reg[&reg]\<close> panics for a register above 12.\<close>

definition read_reg :: "reg_state \<Rightarrow> u8 \<Rightarrow> ssa_value_id option" where
  "read_reg cur reg = (case map_of cur reg of
      Some v \<Rightarrow> Some v
    | None \<Rightarrow> if reg \<in> set ssa_regs then Some (undef_value reg) else None)"

fun record_uses :: "usize \<Rightarrow> u8 list \<Rightarrow> use_state \<Rightarrow> use_state option" where
  "record_uses pc [] us = Some us"
| "record_uses pc (reg # regs) us = (case read_reg (cur_regs us) reg of
      None \<Rightarrow> None
    | Some v \<Rightarrow> record_uses pc regs
        (us\<lparr>use_map := (use_map us)((pc, reg) \<mapsto> v), value_uses := push_entry v (UseInstr pc reg) (value_uses us)\<rparr>))"

fun uses_of_instrs :: "(usize \<times> u8 \<rightharpoonup> ssa_value_id) \<Rightarrow> (usize \<times> instruction) list \<Rightarrow> use_state \<Rightarrow> use_state option" where
  "uses_of_instrs dm [] us = Some us"
| "uses_of_instrs dm ((pc, instr) # rest) us = (case record_uses pc (instr_uses instr) us of
      None \<Rightarrow> None
    | Some us \<Rightarrow> uses_of_instrs dm rest (us\<lparr>cur_regs := define_regs dm (pc, instr) (cur_regs us)\<rparr>))"

definition undef_state :: reg_state where
  "undef_state = map (\<lambda>reg. (reg, undef_value reg)) ssa_regs"

fun uses_of_blocks ::
  "control_flow_graph \<Rightarrow> (usize \<times> u8 \<rightharpoonup> ssa_value_id) \<Rightarrow> ssa_state \<Rightarrow> usize list \<Rightarrow> use_state \<Rightarrow> use_state option" where
  "uses_of_blocks cfg dm st [] us = Some us"
| "uses_of_blocks cfg dm st (block_pc # rest) us = (case get_block cfg block_pc of
      None \<Rightarrow> uses_of_blocks cfg dm st rest us
    | Some block \<Rightarrow>
        (case uses_of_instrs dm (block_instrs block)
           (us\<lparr>cur_regs := (case block_in st block_pc of Some m \<Rightarrow> m | None \<Rightarrow> undef_state)\<rparr>) of
          None \<Rightarrow> None
        | Some us \<Rightarrow> uses_of_blocks cfg dm st rest us))"

definition ssa_build :: "control_flow_graph \<Rightarrow> dominator_tree \<Rightarrow> ssa_program option" where
  "ssa_build cfg t =
     (let dm = snd (def_values cfg); st = fst (converge cfg t);
          (vals, phi_uses) = fold (phi_operands cfg st) (phi_entries cfg st) (st_values st, Map.empty)
      in map_option (\<lambda>us.
           \<lparr>ssa_values = vals, def_value_by_pc_reg = dm, use_value_by_pc_reg = use_map us,
            uses_by_value = (\<lambda>v. map_option (\<lambda>sites. remdups (sort sites)) (value_uses us v)),
            phi_value_by_block_reg = st_phis st, pc_to_block = block_of_pc cfg\<rparr>)
         (uses_of_blocks cfg dm st (block_order cfg t)
           \<lparr>cur_regs = [], use_map = Map.empty, value_uses = phi_uses\<rparr>))"


section \<open>Queries\<close>

definition value_for_def_pc_reg :: "ssa_program \<Rightarrow> usize \<Rightarrow> u8 \<Rightarrow> ssa_value_id option" where
  "value_for_def_pc_reg ssa pc reg = def_value_by_pc_reg ssa (pc, reg)"

definition value_for_use_pc_reg :: "ssa_program \<Rightarrow> usize \<Rightarrow> u8 \<Rightarrow> ssa_value_id option" where
  "value_for_use_pc_reg ssa pc reg = use_value_by_pc_reg ssa (pc, reg)"

definition phi_value_for_block_reg :: "ssa_program \<Rightarrow> usize \<Rightarrow> u8 \<Rightarrow> ssa_value_id option" where
  "phi_value_for_block_reg ssa block_pc reg = phi_value_by_block_reg ssa (block_pc, reg)"

definition value_kind :: "ssa_program \<Rightarrow> ssa_value_id \<Rightarrow> ssa_value_kind option" where
  "value_kind ssa v = (if v < length (ssa_values ssa) then Some (ssa_kind (ssa_values ssa ! v)) else None)"

definition value_operands :: "ssa_program \<Rightarrow> ssa_value_id \<Rightarrow> ssa_value_id list option" where
  "value_operands ssa v = (if v < length (ssa_values ssa) then Some (ssa_operands (ssa_values ssa ! v)) else None)"

definition use_count :: "ssa_program \<Rightarrow> ssa_value_id \<Rightarrow> nat" where
  "use_count ssa v = (case uses_by_value ssa v of Some sites \<Rightarrow> length sites | None \<Rightarrow> 0)"

definition is_phi_use :: "ssa_use_site \<Rightarrow> bool" where
  "is_phi_use u = (case u of UsePhi _ _ \<Rightarrow> True | _ \<Rightarrow> False)"

definition single_instruction_use_pc :: "ssa_program \<Rightarrow> ssa_value_id \<Rightarrow> usize option" where
  "single_instruction_use_pc ssa v = (case uses_by_value ssa v of
      None \<Rightarrow> None
    | Some sites \<Rightarrow>
        if list_ex is_phi_use sites then None
        else (case sites of [UseInstr pc _] \<Rightarrow> Some pc | _ \<Rightarrow> None))"

definition value_definition_dominates_use_pc :: "ssa_program \<Rightarrow> ssa_value_id \<Rightarrow> usize \<Rightarrow> dominator_tree \<Rightarrow> bool" where
  "value_definition_dominates_use_pc ssa v upc t = (case pc_to_block ssa upc of
      None \<Rightarrow> False
    | Some use_block \<Rightarrow> (case value_kind ssa v of
        None \<Rightarrow> False
      | Some kind \<Rightarrow> (case kind of
          SsaParam _ \<Rightarrow> True
        | SsaUndef _ \<Rightarrow> False
        | SsaInstr _ _ block_pc \<Rightarrow> dominates t block_pc use_block
        | SsaPhi block_pc _ \<Rightarrow> dominates t block_pc use_block)))"

end
