(* ===== verification/Ssa_Correct.thy ===== *)
theory Ssa_Correct
  imports Ssa
begin

text \<open>
  The value graph is sound: once the iteration has converged, a use that reads the value of a definition is
  reached by that definition on every walk from the entry, and a use that reads a parameter by none, provided
  control never comes back to the entry block. Without that proviso the parameters are lost.
\<close>

section \<open>Values\<close>

definition kind_at :: "ssa_value list \<Rightarrow> ssa_value_id \<Rightarrow> ssa_value_kind option" where
  "kind_at vals v = (if v < length vals then Some (ssa_kind (vals ! v)) else None)"

definition grows :: "ssa_value list \<Rightarrow> ssa_value list \<Rightarrow> bool" where
  "grows vals vals' \<longleftrightarrow> (\<exists>ext. vals' = vals @ ext)"

lemma grows_refl [simp]: "grows vals vals"
  by (simp add: grows_def)

lemma grows_trans: "grows a b \<Longrightarrow> grows b c \<Longrightarrow> grows a c"
  by (auto simp: grows_def)

lemma grows_new [simp]: "grows vals (new_value vals kind)"
  by (simp add: grows_def new_value_def)

lemma kind_grows: "grows vals vals' \<Longrightarrow> kind_at vals v = Some k \<Longrightarrow> kind_at vals' v = Some k"
  by (auto simp: grows_def kind_at_def nth_append split: if_splits)

lemma kind_new [simp]: "kind_at (new_value vals kind) (length vals) = Some kind"
  by (simp add: new_value_def kind_at_def)

text \<open>All that is added are merges.\<close>

definition adds_phis :: "ssa_value list \<Rightarrow> ssa_value list \<Rightarrow> bool" where
  "adds_phis vals vals' \<longleftrightarrow> grows vals vals' \<and>
     (\<forall>v k. kind_at vals' v = Some k \<longrightarrow> kind_at vals v = Some k \<or> (\<exists>b r. k = SsaPhi b r))"

lemma adds_phis_refl [simp]: "adds_phis vals vals"
  by (simp add: adds_phis_def)

lemma adds_phis_trans: "adds_phis a b \<Longrightarrow> adds_phis b c \<Longrightarrow> adds_phis a c"
  unfolding adds_phis_def by (blast intro: grows_trans)

lemma adds_phis_new [simp]: "adds_phis vals (new_value vals (SsaPhi b r))"
  by (auto simp: adds_phis_def) (auto simp: new_value_def kind_at_def nth_append split: if_splits)

lemma adds_phis_grows: "adds_phis a b \<Longrightarrow> grows a b"
  by (simp add: adds_phis_def)

lemma initial_kinds:
  "reg \<in> set ssa_regs \<Longrightarrow> kind_at initial_values (param_value reg) = Some (SsaParam reg)"
  "reg \<in> set ssa_regs \<Longrightarrow> kind_at initial_values (undef_value reg) = Some (SsaUndef reg)"
  by (auto simp: ssa_regs_def kind_at_def initial_values_def new_value_def param_value_def undef_value_def)

lemma add_def_simp: "add_def (pc, reg, b) (vals, m) = (new_value vals (SsaInstr pc reg b), m((pc, reg) \<mapsto> length vals))"
  by (simp add: add_def_def)

lemma add_def_grows: "grows vals (fst (fold add_def ds (vals, m)))"
proof (induction ds arbitrary: vals m)
  case (Cons d ds)
  show ?case by (cases d) (simp add: add_def_simp grows_trans [OF grows_new Cons.IH])
qed simp

lemma add_def_sound:
  "snd (fold add_def ds (vals, m)) (pc, reg) = Some v \<Longrightarrow> m (pc, reg) = Some v \<or>
   (\<exists>b. (pc, reg, b) \<in> set ds \<and> kind_at (fst (fold add_def ds (vals, m))) v = Some (SsaInstr pc reg b))"
proof (induction ds arbitrary: vals m)
  case (Cons d ds)
  obtain p r b where d: "d = (p, r, b)" by (cases d)
  let ?vals = "new_value vals (SsaInstr p r b)" and ?m = "m((p, r) \<mapsto> length vals)"
  have rest: "snd (fold add_def ds (?vals, ?m)) (pc, reg) = Some v" using Cons.prems by (simp add: d add_def_simp)
  consider "?m (pc, reg) = Some v"
    | b' where "(pc, reg, b') \<in> set ds" "kind_at (fst (fold add_def ds (?vals, ?m))) v = Some (SsaInstr pc reg b')"
    using Cons.IH [OF rest] by blast
  then show ?case
  proof cases
    case 1
    have "kind_at (fst (fold add_def ds (?vals, ?m))) (length vals) = Some (SsaInstr p r b)"
      by (rule kind_grows [OF add_def_grows kind_new])
    then show ?thesis using 1 by (auto simp: d add_def_simp split: if_splits)
  qed (auto simp: d add_def_simp)
qed simp

lemma add_def_total: "m k \<noteq> None \<or> (fst k, snd k, b) \<in> set ds \<Longrightarrow> snd (fold add_def ds (vals, m)) k \<noteq> None"
proof (induction ds arbitrary: vals m)
  case (Cons d ds)
  obtain p r b' where d: "d = (p, r, b')" by (cases d)
  have "(m((p, r) \<mapsto> length vals)) k \<noteq> None \<or> (fst k, snd k, b) \<in> set ds"
    using Cons.prems by (cases k) (auto simp: d)
  then show ?case using Cons.IH by (simp add: d add_def_simp)
qed simp

definition base_values :: "control_flow_graph \<Rightarrow> ssa_value list" where
  "base_values cfg = fst (def_values cfg)"

definition def_map :: "control_flow_graph \<Rightarrow> usize \<times> u8 \<rightharpoonup> ssa_value_id" where
  "def_map cfg = snd (def_values cfg)"

lemma base_grows: "grows initial_values (base_values cfg)"
  unfolding base_values_def def_values_def by (rule add_def_grows)

lemma def_map_kind:
  "def_map cfg (pc, reg) = Some v \<Longrightarrow> \<exists>b. kind_at (base_values cfg) v = Some (SsaInstr pc reg b)"
  using add_def_sound [of "all_defs cfg" initial_values Map.empty pc reg v]
  by (auto simp: def_map_def base_values_def def_values_def)

lemma def_map_total:
  assumes "get_block cfg b = Some block" "(pc, instr) \<in> set (block_instrs block)" "reg \<in> set (instr_defs instr)"
  shows "\<exists>v. def_map cfg (pc, reg) = Some v"
proof -
  have "b \<in> set (sorted_blocks cfg)"
    using assms(1) by (force simp: sorted_blocks_def get_block_def dest: map_of_SomeD)
  then have "(pc, reg, b) \<in> set (all_defs cfg)"
    using assms by (force simp: all_defs_def block_code_def)
  then show ?thesis
    using add_def_total [of Map.empty "(pc, reg)" b "all_defs cfg" initial_values]
    by (auto simp: def_map_def def_values_def)
qed


section \<open>Convergence\<close>

definition merged :: "ssa_state \<Rightarrow> usize \<Rightarrow> u8 \<Rightarrow> ssa_value_id list \<Rightarrow> ssa_value_id \<Rightarrow> bool" where
  "merged st b reg inc v \<longleftrightarrow> (case inc of [] \<Rightarrow> True | [x] \<Rightarrow> v = x | _ \<Rightarrow> kind_at (st_values st) v = Some (SsaPhi b reg))"

text \<open>What one block satisfies when its update changes nothing.\<close>

definition settled :: "control_flow_graph \<Rightarrow> (usize \<times> u8 \<rightharpoonup> ssa_value_id) \<Rightarrow> ssa_state \<Rightarrow> usize \<Rightarrow> bool" where
  "settled cfg dm st b \<longleftrightarrow> (\<forall>block. get_block cfg b = Some block \<longrightarrow>
     (\<exists>m. block_in st b = Some m \<and> block_out st b = Some (fold (define_regs dm) (block_instrs block) m) \<and>
        map fst m = ssa_regs \<and>
        (\<forall>reg v. (reg, v) \<in> set m \<longrightarrow>
           (if predecessors block = [] then v = (if b = entry_pc cfg then param_value reg else undef_value reg)
            else merged st b reg (incoming st (predecessors block) reg) v))))"

definition phis_ok :: "ssa_state \<Rightarrow> bool" where
  "phis_ok st \<longleftrightarrow> (\<forall>k v. st_phis st k = Some v \<longrightarrow> kind_at (st_values st) v = Some (SsaPhi (fst k) (snd k)))"

text \<open>What a step may change: values are added, phis keep their kind, the states of the blocks stay.\<close>

definition steps_to :: "ssa_state \<Rightarrow> ssa_state \<Rightarrow> bool" where
  "steps_to st st' \<longleftrightarrow> adds_phis (st_values st) (st_values st') \<and> (phis_ok st \<longrightarrow> phis_ok st') \<and>
     block_in st' = block_in st \<and> block_out st' = block_out st"

lemma steps_to_refl [simp]: "steps_to st st"
  by (simp add: steps_to_def)

lemma steps_to_trans: "steps_to a b \<Longrightarrow> steps_to b c \<Longrightarrow> steps_to a c"
  by (auto simp: steps_to_def intro: adds_phis_trans)

lemma incoming_steps: "steps_to st st' \<Longrightarrow> incoming st' preds reg = incoming st preds reg"
  by (simp add: steps_to_def incoming_def)

lemma kind_steps: "steps_to st st' \<Longrightarrow> kind_at (st_values st) v = Some k \<Longrightarrow> kind_at (st_values st') v = Some k"
  unfolding steps_to_def by (blast intro: kind_grows adds_phis_grows)

lemma merged_steps: "steps_to st st' \<Longrightarrow> merged st b reg inc v \<Longrightarrow> merged st' b reg inc v"
  by (auto simp: merged_def split: list.splits dest: kind_steps)

lemma merge_reg_merged:
  assumes "phis_ok st"
  shows "steps_to st (snd (merge_reg b preds reg st))"
    and "merged (snd (merge_reg b preds reg st)) b reg (incoming st preds reg) (fst (merge_reg b preds reg st))"
proof -
  let ?st = "st\<lparr>st_values := new_value (st_values st) (SsaPhi b reg), st_phis := (st_phis st)((b, reg) \<mapsto> length (st_values st))\<rparr>"
  have new: "steps_to st ?st"
    using assms kind_grows [OF grows_new] by (fastforce simp: steps_to_def phis_ok_def)
  show "steps_to st (snd (merge_reg b preds reg st))"
    using new by (simp add: merge_reg_def split: list.split option.split)
  show "merged (snd (merge_reg b preds reg st)) b reg (incoming st preds reg) (fst (merge_reg b preds reg st))"
    using assms by (auto simp: merge_reg_def merged_def phis_ok_def split: list.split option.split)
qed

lemma merge_step_snd: "snd (merge_step b preds reg acc) = snd (merge_reg b preds reg (snd acc))"
  and merge_step_fst: "fst (merge_step b preds reg acc) = fst acc @ [(reg, fst (merge_reg b preds reg (snd acc)))]"
  by (simp_all add: merge_step_def split_def Let_def)

lemma phis_ok_steps: "steps_to st st' \<Longrightarrow> phis_ok st \<Longrightarrow> phis_ok st'"
  by (simp add: steps_to_def)

lemma merge_fold:
  "phis_ok (snd acc) \<Longrightarrow>
   steps_to (snd acc) (snd (fold (merge_step b preds) regs acc)) \<and>
   map fst (fst (fold (merge_step b preds) regs acc)) = map fst (fst acc) @ regs \<and>
   (\<forall>reg v. (reg, v) \<in> set (fst (fold (merge_step b preds) regs acc)) \<longrightarrow>
      (reg, v) \<in> set (fst acc) \<or> merged (snd (fold (merge_step b preds) regs acc)) b reg (incoming (snd acc) preds reg) v)"
proof (induction regs arbitrary: acc)
  case (Cons r regs)
  let ?acc = "merge_step b preds r acc"
  let ?v = "fst (merge_reg b preds r (snd acc))"
  note step = merge_reg_merged [OF Cons.prems, of b preds r, folded merge_step_snd]
  have IH: "steps_to (snd ?acc) (snd (fold (merge_step b preds) regs ?acc))"
      "map fst (fst (fold (merge_step b preds) regs ?acc)) = map fst (fst ?acc) @ regs"
      "(reg, v) \<in> set (fst (fold (merge_step b preds) regs ?acc)) \<Longrightarrow>
         (reg, v) \<in> set (fst ?acc) \<or> merged (snd (fold (merge_step b preds) regs ?acc)) b reg (incoming (snd ?acc) preds reg) v" for reg v
    using Cons.IH [OF phis_ok_steps [OF step(1) Cons.prems]] by blast+
  show ?case
    unfolding fold_simps comp_apply
  proof (intro conjI allI impI)
    show "steps_to (snd acc) (snd (fold (merge_step b preds) regs ?acc))" by (rule steps_to_trans [OF step(1) IH(1)])
    show "map fst (fst (fold (merge_step b preds) regs ?acc)) = map fst (fst acc) @ r # regs"
      unfolding IH(2) merge_step_fst by simp
    fix reg v
    assume "(reg, v) \<in> set (fst (fold (merge_step b preds) regs ?acc))"
    then have "(reg, v) \<in> set (fst ?acc) \<or> merged (snd (fold (merge_step b preds) regs ?acc)) b reg (incoming (snd acc) preds reg) v"
      using IH(3) [of reg v] unfolding incoming_steps [OF step(1)] by blast
    then show "(reg, v) \<in> set (fst acc) \<or> merged (snd (fold (merge_step b preds) regs ?acc)) b reg (incoming (snd acc) preds reg) v"
      using merged_steps [OF IH(1) step(2)] unfolding merge_step_fst by auto
  qed
qed simp

lemma in_state_spec:
  assumes "phis_ok st" "in_state cfg b block st = (m, st')"
  shows "steps_to st st'" "map fst m = ssa_regs"
    "(reg, v) \<in> set m \<Longrightarrow> if predecessors block = [] then v = (if b = entry_pc cfg then param_value reg else undef_value reg)
      else merged st' b reg (incoming st (predecessors block) reg) v"
proof -
  have "steps_to st st' \<and> map fst m = ssa_regs \<and> (\<forall>reg v. (reg, v) \<in> set m \<longrightarrow>
      (if predecessors block = [] then v = (if b = entry_pc cfg then param_value reg else undef_value reg)
       else merged st' b reg (incoming st (predecessors block) reg) v))"
  proof (cases "predecessors block = []")
    case True
    then show ?thesis using assms(2) by (auto simp: in_state_def comp_def)
  next
    case False
    then show ?thesis
      using merge_fold [where acc = "([], st)" and b = b and preds = "predecessors block" and regs = ssa_regs] assms
      by (auto simp: in_state_def)
  qed
  then show "steps_to st st'" "map fst m = ssa_regs"
    "(reg, v) \<in> set m \<Longrightarrow> if predecessors block = [] then v = (if b = entry_pc cfg then param_value reg else undef_value reg)
      else merged st' b reg (incoming st (predecessors block) reg) v"
    by blast+
qed

lemma settled_steps:
  assumes "steps_to st st'" "settled cfg dm st b"
  shows "settled cfg dm st' b"
  unfolding settled_def
proof (intro allI impI)
  fix block
  assume "get_block cfg b = Some block"
  then obtain m where m: "block_in st b = Some m" "block_out st b = Some (fold (define_regs dm) (block_instrs block) m)"
      "map fst m = ssa_regs" "\<And>reg v. (reg, v) \<in> set m \<Longrightarrow>
        if predecessors block = [] then v = (if b = entry_pc cfg then param_value reg else undef_value reg)
        else merged st b reg (incoming st (predecessors block) reg) v"
    using assms(2) unfolding settled_def by blast
  have keep: "block_in st' = block_in st" "block_out st' = block_out st" using assms(1) by (simp_all add: steps_to_def)
  show "\<exists>m. block_in st' b = Some m \<and> block_out st' b = Some (fold (define_regs dm) (block_instrs block) m) \<and>
      map fst m = ssa_regs \<and> (\<forall>reg v. (reg, v) \<in> set m \<longrightarrow>
        (if predecessors block = [] then v = (if b = entry_pc cfg then param_value reg else undef_value reg)
         else merged st' b reg (incoming st' (predecessors block) reg) v))"
    unfolding keep incoming_steps [OF assms(1)]
    using m merged_steps [OF assms(1)] by (intro exI [of _ m] conjI allI impI) (simp_all split: if_splits)
qed

definition sound_step :: "ssa_state \<Rightarrow> ssa_state \<Rightarrow> bool" where
  "sound_step st st' \<longleftrightarrow> phis_ok st' \<and> adds_phis (st_values st) (st_values st')"

lemma sound_step_trans: "sound_step a b \<Longrightarrow> sound_step b c \<Longrightarrow> sound_step a c"
  by (auto simp: sound_step_def intro: adds_phis_trans)

lemma update_block_spec:
  assumes "phis_ok st" "update_block cfg dm b (st, c) = (st', c')"
  shows "sound_step st st'" "\<not> c' \<Longrightarrow> \<not> c \<and> steps_to st st' \<and> settled cfg dm st' b"
proof -
  have "sound_step st st' \<and> (\<not> c' \<longrightarrow> \<not> c \<and> steps_to st st' \<and> settled cfg dm st' b)"
  proof (cases "get_block cfg b")
    case None
    then show ?thesis using assms by (simp add: update_block_def sound_step_def settled_def)
  next
    case (Some block)
    obtain m s where ms: "in_state cfg b block st = (m, s)" by (cases "in_state cfg b block st")
    note spec = in_state_spec [OF assms(1) ms]
    let ?out = "fold (define_regs dm) (block_instrs block) m"
    have s: "phis_ok s" "adds_phis (st_values st) (st_values s)"
      using spec(1) assms(1) by (simp_all add: steps_to_def)
    have eq: "update_block cfg dm b (st, c) =
        (let (st, changed) = (if block_in s b \<noteq> Some m then (s\<lparr>block_in := (block_in s)(b \<mapsto> m)\<rparr>, True) else (s, c))
         in if block_out st b \<noteq> Some ?out then (st\<lparr>block_out := (block_out st)(b \<mapsto> ?out)\<rparr>, True) else (st, changed))"
      by (simp add: update_block_def Some ms)
    have val: "st_values st' = st_values s \<and> st_phis st' = st_phis s"
      using assms(2) unfolding eq by (auto simp: Let_def split: if_splits)
    then have sound: "sound_step st st'" using s by (simp add: sound_step_def phis_ok_def)
    have quiet: "\<not> c \<and> st' = s \<and> block_in s b = Some m \<and> block_out s b = Some ?out" if "\<not> c'"
      using assms(2) that unfolding eq by (auto simp: Let_def split: if_splits)
    have "settled cfg dm s b" if "block_in s b = Some m" "block_out s b = Some ?out"
      unfolding settled_def
    proof (intro allI impI exI conjI)
      fix block' assume "get_block cfg b = Some block'"
      then have "block' = block" using Some by simp
      then show "block_in s b = Some m" "block_out s b = Some (fold (define_regs dm) (block_instrs block') m)" "map fst m = ssa_regs"
        using that spec(2) by simp_all
      fix reg v assume "(reg, v) \<in> set m"
      then show "if predecessors block' = [] then v = (if b = entry_pc cfg then param_value reg else undef_value reg)
          else merged s b reg (incoming s (predecessors block') reg) v"
        using spec(3) \<open>block' = block\<close> incoming_steps [OF spec(1)] by simp
    qed
    then show ?thesis using sound quiet spec(1) by blast
  qed
  then show "sound_step st st'" "\<not> c' \<Longrightarrow> \<not> c \<and> steps_to st st' \<and> settled cfg dm st' b" by blast+
qed

lemma update_fold_spec:
  "phis_ok st \<Longrightarrow> fold (update_block cfg dm) order (st, c) = (st', c') \<Longrightarrow>
   sound_step st st' \<and> (\<not> c' \<longrightarrow> \<not> c \<and> steps_to st st' \<and> (\<forall>b \<in> set order. settled cfg dm st' b))"
proof (induction order arbitrary: st c)
  case Nil
  then show ?case by (simp add: sound_step_def)
next
  case (Cons b order)
  obtain s c1 where s: "update_block cfg dm b (st, c) = (s, c1)" by (cases "update_block cfg dm b (st, c)")
  note step = update_block_spec [OF Cons.prems(1) s]
  have rest: "fold (update_block cfg dm) order (s, c1) = (st', c')" using Cons.prems(2) s by simp
  have "phis_ok s" using step(1) by (simp add: sound_step_def)
  note IH = Cons.IH [OF this rest]
  show ?case
  proof (intro conjI impI)
    show "sound_step st st'" using step(1) IH sound_step_trans by blast
    assume "\<not> c'"
    then have q: "\<not> c1" "steps_to s st'" "\<forall>b \<in> set order. settled cfg dm st' b" using IH by blast+
    then show "\<not> c" "steps_to st st'" using step(2) steps_to_trans by blast+
    show "\<forall>x \<in> set (b # order). settled cfg dm st' x"
      using q step(2) [OF q(1)] settled_steps [OF q(2)] by simp
  qed
qed

lemma fixpoint_spec:
  "phis_ok st \<Longrightarrow> (\<not> c \<longrightarrow> (\<forall>b \<in> set order. settled cfg dm st b)) \<Longrightarrow> fixpoint n cfg dm order (st, c) = (st', c') \<Longrightarrow>
   sound_step st st' \<and> (\<not> c' \<longrightarrow> (\<forall>b \<in> set order. settled cfg dm st' b))"
proof (induction n arbitrary: st c)
  case (Suc n)
  show ?case
  proof (cases c)
    case True
    obtain s c1 where s: "fold (update_block cfg dm) order (st, False) = (s, c1)"
      by (cases "fold (update_block cfg dm) order (st, False)")
    note step = update_fold_spec [OF Suc.prems(1) s]
    have "phis_ok s" using step by (simp add: sound_step_def)
    moreover have "fixpoint n cfg dm order (s, c1) = (st', c')" using Suc.prems(3) True s by simp
    moreover have "\<not> c1 \<longrightarrow> (\<forall>b \<in> set order. settled cfg dm s b)" using step by blast
    ultimately have "sound_step s st' \<and> (\<not> c' \<longrightarrow> (\<forall>b \<in> set order. settled cfg dm st' b))" by (intro Suc.IH)
    then show ?thesis using step sound_step_trans by blast
  qed (use Suc.prems in \<open>auto simp: sound_step_def\<close>)
qed (auto simp: sound_step_def)

lemma converge_spec:
  assumes "converge cfg t = (st, c)"
  shows "phis_ok st" "adds_phis (base_values cfg) (st_values st)" "\<not> c \<Longrightarrow> b \<in> set (block_order cfg t) \<Longrightarrow> settled cfg (def_map cfg) st b"
proof -
  have "fixpoint (max (length (blocks cfg)) 1 * 20) cfg (def_map cfg) (block_order cfg t) (initial_state (base_values cfg), True) = (st, c)"
    using assms by (simp add: converge_def base_values_def def_map_def split_def Let_def)
  then have "sound_step (initial_state (base_values cfg)) st \<and> (\<not> c \<longrightarrow> (\<forall>b \<in> set (block_order cfg t). settled cfg (def_map cfg) st b))"
    by (rule fixpoint_spec [rotated 2]) (simp_all add: phis_ok_def initial_state_def)
  then show "phis_ok st" "adds_phis (base_values cfg) (st_values st)" "\<not> c \<Longrightarrow> b \<in> set (block_order cfg t) \<Longrightarrow> settled cfg (def_map cfg) st b"
    by (auto simp: sound_step_def initial_state_def)
qed


section \<open>Reaching definitions\<close>

text \<open>What a walk does: it enters blocks and runs instructions.\<close>

datatype event = At usize | Ran usize instruction

fun event_defs :: "u8 \<Rightarrow> event \<Rightarrow> bool" where
  "event_defs reg (At _) = False"
| "event_defs reg (Ran _ i) = (reg \<in> set (instr_defs i))"

fun event_pc :: "event \<Rightarrow> usize" where
  "event_pc (At b) = b"
| "event_pc (Ran pc _) = pc"

definition execs :: "(usize \<times> instruction) list \<Rightarrow> event list" where
  "execs xs = map (\<lambda>(pc, i). Ran pc i) xs"

definition walk_events :: "control_flow_graph \<Rightarrow> usize list \<Rightarrow> event list" where
  "walk_events cfg ws = concat (map (\<lambda>b. At b # execs (block_code cfg b)) ws)"

text \<open>The position of the last definition of a register in a piece of history, if any.\<close>

definition last_def :: "u8 \<Rightarrow> event list \<Rightarrow> usize option" where
  "last_def reg es = (let defs = filter (event_defs reg) es in if defs = [] then None else Some (event_pc (last defs)))"

lemma last_def_Nil [simp]: "last_def reg [] = None"
  by (simp add: last_def_def)

lemma last_def_snoc [simp]: "last_def reg (es @ [e]) = (if event_defs reg e then Some (event_pc e) else last_def reg es)"
  by (simp add: last_def_def)

text \<open>A value describes a register after a piece of history: a definition is the last one, a parameter has
  none before it, a merge is of this register at a block that was entered and after which nothing has
  defined it.\<close>

definition describes :: "ssa_value list \<Rightarrow> ssa_value_id \<Rightarrow> u8 \<Rightarrow> event list \<Rightarrow> bool" where
  "describes vals v reg es \<longleftrightarrow> (case kind_at vals v of
      Some (SsaInstr pc r _) \<Rightarrow> r = reg \<and> last_def reg es = Some pc
    | Some (SsaParam r) \<Rightarrow> r = reg \<and> last_def reg es = None
    | Some (SsaUndef _) \<Rightarrow> False
    | Some (SsaPhi b r) \<Rightarrow> r = reg \<and> (\<exists>xs ys. es = xs @ At b # ys \<and> last_def reg ys = None)
    | None \<Rightarrow> False)"

lemma last_def_after: "last_def reg ys = None \<Longrightarrow> \<not> event_defs reg e \<Longrightarrow> last_def reg (ys @ [e]) = None"
  by simp

lemma describes_step: "\<not> event_defs reg e \<Longrightarrow> describes vals v reg es \<Longrightarrow> describes vals v reg (es @ [e])"
  unfolding describes_def by (auto split: option.splits ssa_value_kind.splits dest: last_def_after) (metis append_Cons append_assoc last_def_after)

lemma describes_phi: "kind_at vals v = Some (SsaPhi b reg) \<Longrightarrow> describes vals v reg (es @ [At b])"
  unfolding describes_def by (auto intro: exI [of _ es])

definition state_describes :: "ssa_value list \<Rightarrow> reg_state \<Rightarrow> event list \<Rightarrow> bool" where
  "state_describes vals m es \<longleftrightarrow> (\<forall>reg v. map_of m reg = Some v \<longrightarrow> describes vals v reg es) \<and> set ssa_regs \<subseteq> fst ` set m"

lemma define_regs_map:
  assumes "\<And>reg. reg \<in> set (instr_defs i) \<Longrightarrow> dm (pc, reg) \<noteq> None"
  shows "map_of (define_regs dm (pc, i) m) reg = (if reg \<in> set (instr_defs i) then dm (pc, reg) else map_of m reg)"
    and "fst ` set m \<subseteq> fst ` set (define_regs dm (pc, i) m)"
proof -
  let ?step = "\<lambda>reg out. case dm (pc, reg) of Some v \<Rightarrow> AList.update reg v out | None \<Rightarrow> out"
  have "(\<And>reg. reg \<in> set rs \<Longrightarrow> dm (pc, reg) \<noteq> None) \<Longrightarrow>
      map_of (fold ?step rs m) reg = (if reg \<in> set rs then dm (pc, reg) else map_of m reg) \<and>
      fst ` set m \<subseteq> fst ` set (fold ?step rs m)" for rs
  proof (induction rs arbitrary: m)
    case (Cons r rs)
    obtain v where v: "dm (pc, r) = Some v" using Cons.prems [of r] by auto
    have IH: "map_of (fold ?step rs (AList.update r v m)) reg =
        (if reg \<in> set rs then dm (pc, reg) else map_of (AList.update r v m) reg)"
      "fst ` set (AList.update r v m) \<subseteq> fst ` set (fold ?step rs (AList.update r v m))"
      using Cons.IH [of "AList.update r v m"] Cons.prems by auto
    have "fst ` set m \<subseteq> fst ` set (AList.update r v m)" by (simp add: dom_update subset_insertI)
    then show ?case using IH v by (auto simp: update_conv')
  qed simp
  then show "map_of (define_regs dm (pc, i) m) reg = (if reg \<in> set (instr_defs i) then dm (pc, reg) else map_of m reg)"
    "fst ` set m \<subseteq> fst ` set (define_regs dm (pc, i) m)"
    using assms by (simp_all add: define_regs_def)
qed

definition defs_known :: "ssa_value list \<Rightarrow> (usize \<times> u8 \<rightharpoonup> ssa_value_id) \<Rightarrow> (usize \<times> instruction) list \<Rightarrow> bool" where
  "defs_known vals dm xs \<longleftrightarrow> (\<forall>pc i reg. (pc, i) \<in> set xs \<longrightarrow> reg \<in> set (instr_defs i) \<longrightarrow>
     (\<exists>v b. dm (pc, reg) = Some v \<and> kind_at vals v = Some (SsaInstr pc reg b)))"

lemma define_describes:
  assumes "state_describes vals m code" "defs_known vals dm [(pc, i)]"
  shows "state_describes vals (define_regs dm (pc, i) m) (code @ [Ran pc i])"
proof -
  have known: "\<exists>v b. dm (pc, reg) = Some v \<and> kind_at vals v = Some (SsaInstr pc reg b)" if "reg \<in> set (instr_defs i)" for reg
    using assms(2) that by (simp add: defs_known_def)
  then have total: "dm (pc, reg) \<noteq> None" if "reg \<in> set (instr_defs i)" for reg using that by force
  have map: "map_of (define_regs dm (pc, i) m) reg = (if reg \<in> set (instr_defs i) then dm (pc, reg) else map_of m reg)"
    "fst ` set m \<subseteq> fst ` set (define_regs dm (pc, i) m)" for reg
    by (rule define_regs_map, erule total)+
  have "describes vals v reg (code @ [Ran pc i])" if "map_of (define_regs dm (pc, i) m) reg = Some v" for reg v
  proof (cases "reg \<in> set (instr_defs i)")
    case True
    then show ?thesis using known [OF True] that unfolding map(1) by (auto simp: describes_def)
  next
    case False
    then have "describes vals v reg code" using that assms(1) unfolding map(1) state_describes_def by simp
    then show ?thesis using False by (simp add: describes_step)
  qed
  then show ?thesis using assms(1) map(2) unfolding state_describes_def by blast
qed

lemma define_fold_describes:
  "state_describes vals m code \<Longrightarrow> defs_known vals dm xs \<Longrightarrow>
   state_describes vals (fold (define_regs dm) xs m) (code @ execs xs)"
proof (induction xs arbitrary: m code)
  case (Cons x xs)
  obtain pc i where x: "x = (pc, i)" by (cases x)
  have "defs_known vals dm [(pc, i)]" "defs_known vals dm xs" using Cons.prems(2) by (auto simp: defs_known_def x)
  then show ?case using Cons.IH [OF define_describes [OF Cons.prems(1)]] by (simp add: x execs_def)
qed (simp add: execs_def)

lemma defs_known_block:
  assumes "get_block cfg b = Some block" "set xs \<subseteq> set (block_instrs block)" "grows (base_values cfg) vals"
  shows "defs_known vals (def_map cfg) xs"
  unfolding defs_known_def
proof (intro allI impI)
  fix pc i reg
  assume x: "(pc, i) \<in> set xs" "reg \<in> set (instr_defs i)"
  then obtain v where v: "def_map cfg (pc, reg) = Some v" using def_map_total [OF assms(1)] assms(2) by blast
  then show "\<exists>v b. def_map cfg (pc, reg) = Some v \<and> kind_at vals v = Some (SsaInstr pc reg b)"
    using def_map_kind [OF v] kind_grows [OF assms(3)] by blast
qed

lemma incoming_mem:
  assumes "p \<in> set preds" "block_out st p = Some out" "map_of out reg = Some v"
  shows "v \<in> set (incoming st preds reg)"
  using assms by (force simp: incoming_def)

text \<open>The states at the blocks describe every walk from an entry without predecessors.\<close>

lemma walk_described:
  assumes fg: "flow_graph cfg" and st: "converge cfg t = (st, False)"
    and order: "cfg_nodes cfg \<subseteq> set (block_order cfg t)"
    and entry: "cfg_preds cfg (entry_pc cfg) = []" "entry_pc cfg \<in> cfg_nodes cfg"
  shows "entry_walk cfg (ws @ [b]) \<Longrightarrow> \<exists>m. block_in st b = Some m \<and> state_describes (st_values st) m (walk_events cfg ws @ [At b])"
proof (induction ws arbitrary: b rule: rev_induct)
  case Nil
  then have b: "b = entry_pc cfg" by simp
  obtain block where block: "get_block cfg b = Some block" using entry(2) b by (auto simp: cfg_nodes_dom)
  have "settled cfg (def_map cfg) st b" using converge_spec(3) [OF st] order entry(2) b by blast
  moreover have "predecessors block = []" using entry(1) b block by (simp add: cfg_preds_def)
  ultimately obtain m where m: "block_in st b = Some m" "map fst m = ssa_regs"
      "\<And>reg v. (reg, v) \<in> set m \<Longrightarrow> v = param_value reg"
    using block b unfolding settled_def by auto
  have "describes (st_values st) v reg (walk_events cfg [] @ [At b])" if "map_of m reg = Some v" for reg v
  proof -
    have mem: "(reg, v) \<in> set m" using that by (rule map_of_SomeD)
    then have "reg \<in> set ssa_regs" using m(2) by (metis fst_conv image_eqI set_map)
    then have "kind_at (st_values st) (param_value reg) = Some (SsaParam reg)"
      using kind_grows [OF adds_phis_grows [OF converge_spec(2) [OF st]]] kind_grows [OF base_grows] initial_kinds(1) by blast
    then show ?thesis using m(3) [OF mem] by (simp add: describes_def walk_events_def last_def_def)
  qed
  moreover have "set ssa_regs \<subseteq> fst ` set m" using m(2) by (metis order_refl set_map)
  ultimately show ?case using m(1) by (simp add: state_describes_def)
next
  case (snoc p ws)
  have walk: "entry_walk cfg (ws @ [p])" and e: "edge cfg p b"
    using snoc.prems entry_walk_snoc [of "ws @ [p]" cfg b] by simp_all
  obtain mp where mp: "block_in st p = Some mp" "state_describes (st_values st) mp (walk_events cfg ws @ [At p])"
    using snoc.IH [OF walk] by blast
  have nodes: "p \<in> cfg_nodes cfg" "b \<in> cfg_nodes cfg"
    using flow_graph.edge_source [OF fg e] flow_graph.edge_target [OF fg e] .
  then obtain pblock block where blocks: "get_block cfg p = Some pblock" "get_block cfg b = Some block"
    by (auto simp: cfg_nodes_dom)
  have settled: "settled cfg (def_map cfg) st p" "settled cfg (def_map cfg) st b"
    using converge_spec(3) [OF st] order nodes by blast+
  define out where "out = fold (define_regs (def_map cfg)) (block_instrs pblock) mp"
  have out: "block_out st p = Some out" using settled(1) blocks(1) mp(1) unfolding settled_def out_def by auto
  have code: "block_code cfg p = block_instrs pblock" using blocks(1) by (simp add: block_code_def)
  have od: "state_describes (st_values st) out (walk_events cfg (ws @ [p]))"
    unfolding out_def using define_fold_describes [OF mp(2) defs_known_block [OF blocks(1) order_refl adds_phis_grows [OF converge_spec(2) [OF st]]]]
    by (simp add: code walk_events_def)
  have pred: "p \<in> set (predecessors block)" using flow_graph.edge_pred [OF fg e] blocks(2) by (simp add: cfg_preds_def)
  then obtain m where m: "block_in st b = Some m" "map fst m = ssa_regs"
      "\<And>reg v. (reg, v) \<in> set m \<Longrightarrow> if predecessors block = [] then v = (if b = entry_pc cfg then param_value reg else undef_value reg)
        else merged st b reg (incoming st (predecessors block) reg) v"
    using settled(2) blocks(2) unfolding settled_def by blast
  have merged: "merged st b reg (incoming st (predecessors block) reg) v" if "(reg, v) \<in> set m" for reg v
    using m(3) [OF that] pred by (auto split: if_splits)
  have "describes (st_values st) v reg (walk_events cfg (ws @ [p]) @ [At b])" if "map_of m reg = Some v" for reg v
  proof -
    have mem: "(reg, v) \<in> set m" using that by (rule map_of_SomeD)
    then have "reg \<in> fst ` set out" using m(2) od unfolding state_describes_def by (metis fst_conv image_eqI set_map subsetD)
    then obtain v' where v': "map_of out reg = Some v'" by (cases "map_of out reg") (auto simp: map_of_eq_None_iff)
    have "v' \<in> set (incoming st (predecessors block) reg)" by (rule incoming_mem [OF pred out v'])
    then consider "v = v'" | "kind_at (st_values st) v = Some (SsaPhi b reg)"
      using merged [OF mem] by (auto simp: merged_def split: list.splits)
    then show ?thesis
    proof cases
      case 1
      then have "describes (st_values st) v reg (walk_events cfg (ws @ [p]))" using od v' unfolding state_describes_def by blast
      then show ?thesis by (simp add: describes_step)
    next
      case 2
      then show ?thesis by (rule describes_phi)
    qed
  qed
  moreover have "set ssa_regs \<subseteq> fst ` set m" using m(2) by (metis order_refl set_map)
  ultimately show ?case using m(1) by (simp add: state_describes_def)
qed


section \<open>Uses\<close>

lemma record_uses_spec:
  "record_uses pc regs us = Some us' \<Longrightarrow> cur_regs us' = cur_regs us \<and>
   (use_map us' (x, reg) = Some v \<longrightarrow> use_map us (x, reg) = Some v \<or>
      x = pc \<and> reg \<in> set regs \<and> read_reg (cur_regs us) reg = Some v)"
proof (induction pc regs us rule: record_uses.induct)
  case (2 pc r regs us)
  then show ?case by (fastforce split: option.splits if_splits)
qed simp

text \<open>Where an entry of the use map comes from: the state before the instruction.\<close>

definition read_at ::
  "(usize \<times> u8 \<rightharpoonup> ssa_value_id) \<Rightarrow> (usize \<times> instruction) list \<Rightarrow> reg_state \<Rightarrow> usize \<Rightarrow> u8 \<Rightarrow> ssa_value_id \<Rightarrow> bool" where
  "read_at dm xs m pc reg v \<longleftrightarrow> (\<exists>pre i post. xs = pre @ (pc, i) # post \<and> reg \<in> set (instr_uses i) \<and>
     read_reg (fold (define_regs dm) pre m) reg = Some v)"

lemma read_at_Cons: "read_at dm xs (define_regs dm x m) pc reg v \<Longrightarrow> read_at dm (x # xs) m pc reg v"
  unfolding read_at_def by (metis append_Cons comp_apply fold_simps(2))

lemma uses_of_instrs_spec:
  "uses_of_instrs dm xs us = Some us' \<Longrightarrow> use_map us' (pc, reg) = Some v \<Longrightarrow>
   use_map us (pc, reg) = Some v \<or> read_at dm xs (cur_regs us) pc reg v"
proof (induction dm xs us rule: uses_of_instrs.induct)
  case (2 dm p i rest us)
  obtain us1 where us1: "record_uses p (instr_uses i) us = Some us1"
      "uses_of_instrs dm rest (us1\<lparr>cur_regs := define_regs dm (p, i) (cur_regs us1)\<rparr>) = Some us'"
    using 2(2) by (auto split: option.splits)
  note rec = record_uses_spec [OF us1(1)]
  have "use_map us1 (pc, reg) = Some v \<or> read_at dm rest (define_regs dm (p, i) (cur_regs us)) pc reg v"
    using 2(1) [OF us1] 2(3) rec by simp
  moreover have "read_at dm ((p, i) # rest) (cur_regs us) pc reg v"
    if "pc = p" "reg \<in> set (instr_uses i)" "read_reg (cur_regs us) reg = Some v"
    unfolding read_at_def using that by (intro exI [of _ "[]"] exI [of _ i] exI [of _ rest]) simp
  ultimately show ?case using rec read_at_Cons by blast
qed simp

lemma uses_of_blocks_spec:
  "uses_of_blocks cfg dm st bs us = Some us' \<Longrightarrow> use_map us' (pc, reg) = Some v \<Longrightarrow>
   use_map us (pc, reg) = Some v \<or>
   (\<exists>b block. b \<in> set bs \<and> get_block cfg b = Some block \<and>
      read_at dm (block_instrs block) (case block_in st b of Some m \<Rightarrow> m | None \<Rightarrow> undef_state) pc reg v)"
proof (induction cfg dm st bs us rule: uses_of_blocks.induct)
  case (2 cfg dm st b rest us)
  show ?case
  proof (cases "get_block cfg b")
    case None
    then show ?thesis using 2 by auto
  next
    case (Some block)
    let ?m = "case block_in st b of Some m \<Rightarrow> m | None \<Rightarrow> undef_state"
    obtain us1 where us1: "uses_of_instrs dm (block_instrs block) (us\<lparr>cur_regs := ?m\<rparr>) = Some us1"
        "uses_of_blocks cfg dm st rest us1 = Some us'"
      using 2(3) Some by (auto split: option.splits)
    have "use_map us1 (pc, reg) = Some v \<or> (\<exists>b block. b \<in> set rest \<and> get_block cfg b = Some block \<and>
        read_at dm (block_instrs block) (case block_in st b of Some m \<Rightarrow> m | None \<Rightarrow> undef_state) pc reg v)"
      by (rule 2(2) [OF Some us1 2(4)])
    moreover have "use_map us (pc, reg) = Some v \<or> read_at dm (block_instrs block) ?m pc reg v" if "use_map us1 (pc, reg) = Some v"
      using uses_of_instrs_spec [OF us1(1) that] by simp
    ultimately show ?thesis using Some by auto
  qed
qed simp

text \<open>Operands of merges are entered into the values; the kinds stay.\<close>

lemma phi_operands_kind: "kind_at (fst (phi_operands cfg st e acc)) v = kind_at (fst acc) v"
  by (cases "snd (snd e) = v")
    (auto simp: phi_operands_def kind_at_def split_def Let_def split: option.split)

lemma phi_operands_fold_kind: "kind_at (fst (fold (phi_operands cfg st) es acc)) v = kind_at (fst acc) v"
  by (induction es arbitrary: acc) (simp_all add: phi_operands_kind)

text \<open>A position belongs to one place of one block.\<close>

definition unique_pcs :: "control_flow_graph \<Rightarrow> bool" where
  "unique_pcs cfg \<longleftrightarrow> (\<forall>b block b' block' pre pc i post pre' i' post'.
     get_block cfg b = Some block \<longrightarrow> get_block cfg b' = Some block' \<longrightarrow>
     block_instrs block = pre @ (pc, i) # post \<longrightarrow> block_instrs block' = pre' @ (pc, i') # post' \<longrightarrow> b = b' \<and> pre = pre')"

lemma split_unique:
  "distinct (map fst xs) \<Longrightarrow> xs = pre @ (k, a) # post \<Longrightarrow> xs = pre' @ (k, a') # post' \<Longrightarrow> pre = pre' \<and> a = a' \<and> post = post'"
proof (induction pre arbitrary: xs pre')
  case Nil
  then show ?case by (cases pre') auto
next
  case (Cons x pre)
  then show ?case by (cases pre') auto
qed

text \<open>Two members of a list whose pieces share a key are the same member.\<close>

lemma distinct_owner:
  "distinct (map fst (concat (map f bs))) \<Longrightarrow> p \<in> set bs \<Longrightarrow> p' \<in> set bs \<Longrightarrow>
   k \<in> fst ` set (f p) \<Longrightarrow> k \<in> fst ` set (f p') \<Longrightarrow> p = p' \<and> distinct (map fst (f p))"
proof (induction bs)
  case (Cons q bs)
  have apart: "k \<notin> fst ` set (f q)" if "r \<in> set bs" "k \<in> fst ` set (f r)" for r
  proof -
    have "k \<in> fst ` set (concat (map f bs))" using that by force
    moreover have "fst ` set (f q) \<inter> fst ` set (concat (map f bs)) = {}"
      using Cons.prems(1) by (simp only: list.map concat.simps map_append distinct_append set_map)
    ultimately show ?thesis by blast
  qed
  have rest: "distinct (map fst (concat (map f bs)))" "distinct (map fst (f q))"
    using Cons.prems(1) by simp_all
  consider "p = q" "p' = q" | "p = q" "p' \<in> set bs" | "p \<in> set bs" "p' = q" | "p \<in> set bs" "p' \<in> set bs"
    using Cons.prems(2,3) by auto
  then show ?case
  proof cases
    case 1
    then show ?thesis using rest by simp
  next
    case 2
    then show ?thesis using apart [of p'] Cons.prems by blast
  next
    case 3
    then show ?thesis using apart [of p] Cons.prems by blast
  next
    case 4
    then show ?thesis using Cons.IH rest(1) Cons.prems by blast
  qed
qed simp

lemma unique_pcs_build:
  assumes p: "wf_program p"
  shows "unique_pcs (reorder (build p) bs)"
  unfolding unique_pcs_def reorder_same(1) [OF keys_build]
proof (intro allI impI)
  fix b block b' block' pre pc i post pre' i' post'
  assume bl: "get_block (build p) b = Some block" "get_block (build p) b' = Some block'"
    and split: "block_instrs block = pre @ (pc, i) # post" "block_instrs block' = pre' @ (pc, i') # post'"
  let ?B = "program_blocks p"
  let ?f = "\<lambda>k. block_instrs (?B ! k)"
  obtain j j' where j: "j \<in> set [0..<length ?B]" "j' \<in> set [0..<length ?B]"
      "block = connect_blocks ?B ! j" "start_pc (?B ! j) = b" "block' = connect_blocks ?B ! j'" "start_pc (?B ! j') = b'"
    using bl unfolding blocks_build by auto
  have f: "?f j = pre @ (pc, i) # post" "?f j' = pre' @ (pc, i') # post'"
    using split connected_fields j by simp_all
  have "map ?f [0..<length ?B] = map block_instrs ?B"
    by (rule nth_equalityI) simp_all
  then have "concat (map ?f [0..<length ?B]) = instructions p"
    using create_blocks_concat [OF p] by (simp add: program_blocks_def)
  then have dist: "distinct (map fst (concat (map ?f [0..<length ?B])))"
    using sorted_wrt_less_distinct p by (simp add: wf_program_def)
  have keys: "pc \<in> fst ` set (?f j)" "pc \<in> fst ` set (?f j')" using f by simp_all
  have same: "j = j'" "distinct (map fst (?f j))" using distinct_owner [OF dist j(1,2) keys] by blast+
  have "?f j = pre' @ (pc, i') # post'" using same(1) f(2) by simp
  then have "pre = pre'" using split_unique [OF same(2) f(1)] by blast
  then show "b = b' \<and> pre = pre'" using same(1) j(4,6) by simp
qed

lemma block_order_covers: "cfg_nodes cfg \<subseteq> set (block_order cfg t)"
  by (auto simp: block_order_def sorted_blocks_def cfg_nodes_def)

lemma ssa_use_described:
  assumes ssa: "ssa_build cfg t = Some ssa" and st: "converge cfg t = (st, False)"
    and fg: "flow_graph cfg" and pcs: "unique_pcs cfg"
    and entry: "cfg_preds cfg (entry_pc cfg) = []" "entry_pc cfg \<in> cfg_nodes cfg"
    and use: "use_value_by_pc_reg ssa (pc, reg) = Some v"
    and walk: "entry_walk cfg (ws @ [b])" and at: "block_code cfg b = pre @ (pc, i) # post"
  shows "describes (ssa_values ssa) v reg (walk_events cfg ws @ At b # execs pre)"
proof -
  obtain us' where us: "uses_of_blocks cfg (def_map cfg) st (block_order cfg t)
      \<lparr>cur_regs = [], use_map = Map.empty, value_uses = snd (fold (phi_operands cfg st) (phi_entries cfg st) (st_values st, Map.empty))\<rparr> = Some us'"
    "use_value_by_pc_reg ssa = use_map us'"
    "ssa_values ssa = fst (fold (phi_operands cfg st) (phi_entries cfg st) (st_values st, Map.empty))"
    using ssa st by (auto simp: ssa_build_def def_map_def split_def Let_def)
  have kinds: "kind_at (ssa_values ssa) x = kind_at (st_values st) x" for x
    unfolding us(3) phi_operands_fold_kind by simp
  obtain m where m: "block_in st b = Some m" "state_describes (st_values st) m (walk_events cfg ws @ [At b])"
    using walk_described [OF fg st block_order_covers entry walk] by blast
  obtain block where block: "get_block cfg b = Some block" "block_instrs block = pre @ (pc, i) # post"
    using at by (cases "get_block cfg b") (simp_all add: block_code_def)
  obtain b' block' where b': "get_block cfg b' = Some block'"
      "read_at (def_map cfg) (block_instrs block') (case block_in st b' of Some m \<Rightarrow> m | None \<Rightarrow> undef_state) pc reg v"
    using uses_of_blocks_spec [OF us(1), of pc reg v] use us(2) by auto
  obtain pre' i' post' where r: "block_instrs block' = pre' @ (pc, i') # post'"
      "read_reg (fold (define_regs (def_map cfg)) pre' (case block_in st b' of Some m \<Rightarrow> m | None \<Rightarrow> undef_state)) reg = Some v"
    using b'(2) unfolding read_at_def by blast
  have same: "b' = b" "pre' = pre" using pcs block b'(1) r(1) unfolding unique_pcs_def by blast+
  have read: "read_reg (fold (define_regs (def_map cfg)) pre m) reg = Some v" using r(2) m(1) same by simp
  have "defs_known (st_values st) (def_map cfg) pre"
    by (rule defs_known_block [OF block(1) _ adds_phis_grows [OF converge_spec(2) [OF st]]]) (use block(2) in auto)
  then have d: "state_describes (st_values st) (fold (define_regs (def_map cfg)) pre m) (walk_events cfg ws @ At b # execs pre)"
    using define_fold_describes [OF m(2)] by simp
  have "map_of (fold (define_regs (def_map cfg)) pre m) reg = Some v"
  proof (cases "map_of (fold (define_regs (def_map cfg)) pre m) reg")
    case None
    then have "reg \<notin> set ssa_regs" using d unfolding state_describes_def by (auto simp: map_of_eq_None_iff)
    then show ?thesis using read None by (simp add: read_reg_def)
  qed (use read in \<open>simp add: read_reg_def\<close>)
  then have "describes (st_values st) v reg (walk_events cfg ws @ At b # execs pre)"
    using d unfolding state_describes_def by blast
  then show ?thesis unfolding describes_def kinds .
qed

text \<open>The use map grows, and covers a set of sites.\<close>

definition covers :: "use_state \<Rightarrow> (usize \<times> u8) set \<Rightarrow> use_state \<Rightarrow> bool" where
  "covers us S us' \<longleftrightarrow> dom (use_map us) \<union> S \<subseteq> dom (use_map us')"

lemma covers_trans: "covers a S b \<Longrightarrow> covers b T c \<Longrightarrow> covers a (S \<union> T) c"
  unfolding covers_def by blast

lemma covers_refl [simp]: "covers a {} a"
  by (simp add: covers_def)

lemma covers_regs [simp]: "covers (us\<lparr>cur_regs := m\<rparr>) S us' = covers us S us'"
  by (simp add: covers_def)

lemma covers_push: "covers us {k} (us\<lparr>use_map := (use_map us)(k \<mapsto> v), value_uses := u\<rparr>)"
  by (auto simp: covers_def)

lemma record_uses_total:
  "set regs \<subseteq> set ssa_regs \<Longrightarrow> \<exists>us'. record_uses pc regs us = Some us' \<and> covers us (Pair pc ` set regs) us'"
proof (induction pc regs us rule: record_uses.induct)
  case (2 pc r regs us)
  then have "r \<in> set ssa_regs" by simp
  then obtain v where v: "read_reg (cur_regs us) r = Some v"
    by (cases "map_of (cur_regs us) r") (simp_all add: read_reg_def)
  have regs: "set regs \<subseteq> set ssa_regs" using 2(2) by simp
  obtain us' where us': "record_uses pc (r # regs) us = Some us'"
      "covers (us\<lparr>use_map := (use_map us)((pc, r) \<mapsto> v), value_uses := push_entry v (UseInstr pc r) (value_uses us)\<rparr>) (Pair pc ` set regs) us'"
    using 2(1) [OF v regs] by (simp only: record_uses.simps v option.case) blast
  then show ?case using covers_trans [OF covers_push us'(2)] by auto
qed simp

definition uses_within :: "(usize \<times> instruction) list \<Rightarrow> bool" where
  "uses_within xs \<longleftrightarrow> list_all (\<lambda>(_, i). set (instr_uses i) \<subseteq> set ssa_regs) xs"

definition use_sites :: "(usize \<times> instruction) list \<Rightarrow> (usize \<times> u8) set" where
  "use_sites xs = (\<Union>(pc, i) \<in> set xs. Pair pc ` set (instr_uses i))"

lemma uses_of_instrs_total:
  "uses_within xs \<Longrightarrow> \<exists>us'. uses_of_instrs dm xs us = Some us' \<and> covers us (use_sites xs) us'"
proof (induction dm xs us rule: uses_of_instrs.induct)
  case (2 dm pc i rest us)
  have within: "set (instr_uses i) \<subseteq> set ssa_regs" "uses_within rest" using 2(2) by (simp_all add: uses_within_def)
  obtain us1 where us1: "record_uses pc (instr_uses i) us = Some us1" "covers us (Pair pc ` set (instr_uses i)) us1"
    using record_uses_total [OF within(1)] by blast
  obtain us' where us': "uses_of_instrs dm ((pc, i) # rest) us = Some us'" "covers us1 (use_sites rest) us'"
    using 2(1) [OF us1(1) within(2)] by (simp only: uses_of_instrs.simps us1(1) option.case covers_regs) blast
  have "use_sites ((pc, i) # rest) = Pair pc ` set (instr_uses i) \<union> use_sites rest" by (simp add: use_sites_def)
  then show ?case using us'(1) covers_trans [OF us1(2) us'(2)] by simp
qed (simp add: use_sites_def)

lemma uses_of_blocks_total:
  "\<forall>b. uses_within (block_code cfg b) \<Longrightarrow> \<exists>us'. uses_of_blocks cfg dm st bs us = Some us' \<and>
     covers us (\<Union>b \<in> set bs. use_sites (block_code cfg b)) us'"
proof (induction cfg dm st bs us rule: uses_of_blocks.induct)
  case (2 cfg dm st b rest us)
  show ?case
  proof (cases "get_block cfg b")
    case None
    then have "use_sites (block_code cfg b) = {}" by (simp add: block_code_def use_sites_def)
    then show ?thesis using 2(1) [OF None 2(3)] None by simp
  next
    case (Some block)
    let ?m = "case block_in st b of Some m \<Rightarrow> m | None \<Rightarrow> undef_state"
    have code: "block_code cfg b = block_instrs block" using Some by (simp add: block_code_def)
    have "uses_within (block_instrs block)" using 2(3) [rule_format, of b] by (simp add: code)
    then obtain us1 where us1: "uses_of_instrs dm (block_instrs block) (us\<lparr>cur_regs := ?m\<rparr>) = Some us1"
        "covers us (use_sites (block_code cfg b)) us1"
      using uses_of_instrs_total [of "block_instrs block" dm "us\<lparr>cur_regs := ?m\<rparr>"] unfolding code covers_regs by blast
    obtain us' where us': "uses_of_blocks cfg dm st (b # rest) us = Some us'"
        "covers us1 (\<Union>b \<in> set rest. use_sites (block_code cfg b)) us'"
      using 2(2) [OF Some us1(1) 2(3)] by (simp only: uses_of_blocks.simps Some us1(1) option.case) blast
    then show ?thesis using covers_trans [OF us1(2) us'(2)] by simp
  qed
qed simp


section \<open>Properties\<close>

text \<open>C9: the value recorded for a use is the reaching definition. In the graph of any program with increasing
  positions, in any iteration order of its blocks, whose entry block is not a jump target: once the iteration
  has converged, on every walk from the entry to an instruction, the value its register use was given is the
  last definition executed, or the parameter when the register was not written, or a merge at a block of the
  walk after which the register was not written. It is never an undefined value.\<close>

theorem ssa_use_sound:
  assumes p: "wf_program p" and cfg: "cfg = reorder (build p) bs"
    and entry: "cfg_preds cfg 0 = []" and converged: "\<not> snd (converge cfg t)"
    and ssa: "ssa_build cfg t = Some ssa" and use: "use_value_by_pc_reg ssa (pc, reg) = Some v"
    and walk: "entry_walk cfg (ws @ [b])" and at: "block_code cfg b = pre @ (pc, i) # post"
  shows "describes (ssa_values ssa) v reg (walk_events cfg ws @ At b # execs pre)"
proof -
  have fg: "flow_graph cfg" unfolding cfg by (rule reordered.flow_graph_axioms)
  have e: "entry_pc cfg = 0" by (simp add: cfg reorder_def)
  have "0 \<in> cfg_nodes cfg"
  proof (cases ws)
    case Nil
    then have "b = 0" using walk e by (simp add: entry_walk_def)
    then show ?thesis using at by (cases "get_block cfg b") (auto simp: block_code_def cfg_nodes_dom)
  next
    case (Cons w ws')
    then obtain x where "edge cfg 0 x" using walk e by (cases ws') (auto simp: entry_walk_def)
    then show ?thesis by (rule flow_graph.edge_source [OF fg])
  qed
  moreover obtain st where "converge cfg t = (st, False)" using converged by (cases "converge cfg t") simp
  moreover have "unique_pcs cfg" unfolding cfg by (rule unique_pcs_build [OF p])
  ultimately show ?thesis using ssa_use_described [OF ssa _ fg _ _ _ use walk at] entry e by simp
qed

text \<open>A branch around a decrement, and a use where the paths meet.\<close>

definition merge_program :: decoded_program where
  "merge_program = \<lparr>jump_table = [],
     instructions = [(0, BranchImm BranchEqImm 1 0 6), (3, TwoRegImm AddImm64 1 1 (- 1)), (6, TwoRegImm AddImm64 2 1 0), (9, Trap)],
     code_len = 10, memory_base = None\<rparr>"

definition merge_graph :: control_flow_graph where
  "merge_graph = reorder (build merge_program) []"

definition merge_tree :: dominator_tree where
  "merge_tree = the (compute merge_graph)"

lemma merge_facts:
  "wf_program merge_program" "cfg_preds merge_graph 0 = []" "\<not> snd (converge merge_graph merge_tree)"
  "entry_walk merge_graph ([0, 3] @ [6])"
  "block_code merge_graph 6 = [] @ (6, TwoRegImm AddImm64 2 1 0) # [(9, Trap)]"
  by code_simp+

lemma merge_values:
  "map_option (\<lambda>ssa. map_option (\<lambda>v. (v, kind_at (ssa_values ssa) v)) (use_value_by_pc_reg ssa (6, 1))) (ssa_build merge_graph merge_tree)
     = Some (Some (28, Some (SsaPhi 6 1)))"
  by code_simp

theorem ssa_use_sound_witness:
  "\<exists>ssa. ssa_build merge_graph merge_tree = Some ssa \<and> kind_at (ssa_values ssa) 28 = Some (SsaPhi 6 1) \<and>
     describes (ssa_values ssa) 28 1 (walk_events merge_graph [0, 3] @ At 6 # execs [])"
proof -
  obtain ssa where ssa: "ssa_build merge_graph merge_tree = Some ssa" "use_value_by_pc_reg ssa (6, 1) = Some 28"
      "kind_at (ssa_values ssa) 28 = Some (SsaPhi 6 1)"
    using merge_values by (auto simp: map_option_eq_Some)
  show ?thesis
    using ssa_use_sound [OF merge_facts(1) merge_graph_def merge_facts(2,3) ssa(1,2) merge_facts(4,5)] ssa(1,3) by blast
qed

text \<open>Construction succeeds on every program that reads only the thirteen registers, and then every use
  of every block has a value.\<close>

theorem ssa_total:
  assumes "\<forall>b. uses_within (block_code cfg b)"
  shows "\<exists>ssa. ssa_build cfg t = Some ssa \<and>
    (\<forall>b \<in> cfg_nodes cfg. use_sites (block_code cfg b) \<subseteq> dom (use_value_by_pc_reg ssa))"
proof -
  let ?st = "fst (converge cfg t)"
  let ?us = "\<lparr>cur_regs = [], use_map = Map.empty,
    value_uses = snd (fold (phi_operands cfg ?st) (phi_entries cfg ?st) (st_values ?st, Map.empty))\<rparr>"
  obtain us' where us': "uses_of_blocks cfg (def_map cfg) ?st (block_order cfg t) ?us = Some us'"
      "covers ?us (\<Union>b \<in> set (block_order cfg t). use_sites (block_code cfg b)) us'"
    using uses_of_blocks_total [OF assms] by blast
  then obtain ssa where "ssa_build cfg t = Some ssa" "use_value_by_pc_reg ssa = use_map us'"
    by (auto simp: ssa_build_def def_map_def split_def Let_def)
  moreover have "use_sites (block_code cfg b) \<subseteq> dom (use_map us')" if "b \<in> cfg_nodes cfg" for b
    using us'(2) subsetD [OF block_order_covers that] unfolding covers_def by blast
  ultimately show ?thesis by auto
qed

theorem ssa_total_witness:
  "\<exists>ssa. ssa_build (reorder (build loop_program) []) (the (compute (build loop_program))) = Some ssa"
proof -
  have "\<forall>(_, block) \<in> set (blocks (reorder (build loop_program) [])). uses_within (block_instrs block)" by code_simp
  then have "\<forall>b. uses_within (block_code (reorder (build loop_program) []) b)"
    by (auto simp: block_code_def get_block_def uses_within_def split: option.split dest: map_of_SomeD)
  then show ?thesis using ssa_total by blast
qed

text \<open>The states at the starts of blocks hold the thirteen registers only, in every round.\<close>

definition starts_known :: "ssa_state \<Rightarrow> bool" where
  "starts_known st \<longleftrightarrow> (\<forall>b m. block_in st b = Some m \<longrightarrow> set (map fst m) \<subseteq> set ssa_regs)"

lemma merge_fold_starts:
  "set regs \<subseteq> set ssa_regs \<Longrightarrow> set (map fst (fst acc)) \<subseteq> set ssa_regs \<Longrightarrow>
   set (map fst (fst (fold (merge_step b preds) regs acc))) \<subseteq> set ssa_regs \<and>
   block_in (snd (fold (merge_step b preds) regs acc)) = block_in (snd acc)"
proof (induction regs arbitrary: acc)
  case (Cons r regs)
  obtain m st where acc: "acc = (m, st)" by (cases acc)
  obtain v st' where v: "merge_reg b preds r st = (v, st')" by (cases "merge_reg b preds r st")
  have "block_in st' = block_in st" using v by (auto simp: merge_reg_def split: list.splits option.splits)
  then show ?case using Cons.IH [of "merge_step b preds r acc"] Cons.prems by (simp add: acc merge_step_def v)
qed simp

lemma update_block_starts: "starts_known (fst acc) \<Longrightarrow> starts_known (fst (update_block cfg dm b acc))"
proof (cases "get_block cfg b")
  case (Some block)
  assume known: "starts_known (fst acc)"
  obtain st c where acc: "acc = (st, c)" by (cases acc)
  obtain m s where ms: "in_state cfg b block st = (m, s)" by (cases "in_state cfg b block st")
  have "set (map fst m) \<subseteq> set ssa_regs \<and> block_in s = block_in st"
    using merge_fold_starts [of ssa_regs "([], st)" b "predecessors block"] ms by (auto simp: in_state_def split: if_splits)
  then show ?thesis using known by (auto simp: update_block_def acc Some ms starts_known_def Let_def split: if_splits)
qed (simp add: update_block_def split_def)

lemma fixpoint_starts: "starts_known (fst acc) \<Longrightarrow> starts_known (fst (fixpoint n cfg dm bs acc))"
proof (induction n cfg dm bs acc rule: fixpoint.induct)
  case (2 n cfg dm bs st changed)
  have "starts_known (fst (fold (update_block cfg dm) bs' acc))" if "starts_known (fst acc)" for bs' acc
    using that by (induction bs' arbitrary: acc) (simp_all add: update_block_starts)
  then show ?case using 2 by simp
qed simp

lemma converge_starts: "starts_known (fst (converge cfg t))"
  unfolding converge_def split_def Let_def by (rule fixpoint_starts) (simp add: starts_known_def initial_state_def)

text \<open>Code that reads a register outside a set before it defines it.\<close>

fun reads_unbound :: "u8 set \<Rightarrow> (usize \<times> instruction) list \<Rightarrow> bool" where
  "reads_unbound D [] = False"
| "reads_unbound D ((pc, i) # rest) = (\<not> set (instr_uses i) \<subseteq> D \<or> reads_unbound (D \<union> set (instr_defs i)) rest)"

lemma record_uses_panics:
  "record_uses pc regs us = None \<longleftrightarrow> \<not> set regs \<subseteq> set (map fst (cur_regs us)) \<union> set ssa_regs"
proof (induction pc regs us rule: record_uses.induct)
  case (2 pc r regs us)
  have known: "read_reg (cur_regs us) r = None \<longleftrightarrow> r \<notin> set (map fst (cur_regs us)) \<union> set ssa_regs"
    using map_of_eq_None_iff [of "cur_regs us" r] by (cases "map_of (cur_regs us) r") (auto simp: read_reg_def)
  show ?case
  proof (cases "read_reg (cur_regs us) r")
    case None
    then have "r \<notin> set (map fst (cur_regs us)) \<union> set ssa_regs" using known by blast
    then show ?thesis using None by simp
  next
    case (Some v)
    then have "r \<in> set (map fst (cur_regs us)) \<union> set ssa_regs" using known by (metis option.distinct(1))
    then show ?thesis using 2 [OF Some] Some by (auto simp del: set_map)
  qed
qed simp

lemma record_uses_regs: "record_uses pc regs us = Some us' \<Longrightarrow> cur_regs us' = cur_regs us"
  by (induction pc regs us rule: record_uses.induct) (auto split: option.splits)

lemma define_regs_keys:
  assumes "\<forall>r \<in> set (instr_defs i). \<exists>v. dm (pc, r) = Some v"
  shows "set (map fst (define_regs dm (pc, i) out)) = set (map fst out) \<union> set (instr_defs i)"
proof -
  have "set (map fst (fold (\<lambda>reg out. case dm (pc, reg) of Some v \<Rightarrow> AList.update reg v out | None \<Rightarrow> out) regs out)) =
      set (map fst out) \<union> set regs" if "\<forall>r \<in> set regs. \<exists>v. dm (pc, r) = Some v" for regs out
    using that
  proof (induction regs arbitrary: out)
    case (Cons r regs)
    then obtain v where "dm (pc, r) = Some v" by auto
    moreover have "set (map fst (AList.update r v out)) = insert r (set (map fst out))"
      by (simp only: set_map update_keys split: if_splits) auto
    ultimately show ?case using Cons by simp
  qed simp
  then show ?thesis using assms by (simp add: define_regs_def)
qed

lemma uses_of_instrs_panics:
  "\<forall>(pc, i) \<in> set xs. \<forall>r \<in> set (instr_defs i). \<exists>v. dm (pc, r) = Some v \<Longrightarrow>
   uses_of_instrs dm xs us = None \<longleftrightarrow> reads_unbound (set (map fst (cur_regs us)) \<union> set ssa_regs) xs"
proof (induction dm xs us rule: uses_of_instrs.induct)
  case (2 dm pc i rest us)
  show ?case
  proof (cases "record_uses pc (instr_uses i) us")
    case None
    then show ?thesis using record_uses_panics [of pc "instr_uses i" us] by simp
  next
    case (Some us1)
    then have ok: "set (instr_uses i) \<subseteq> set (map fst (cur_regs us)) \<union> set ssa_regs"
      using record_uses_panics [of pc "instr_uses i" us] by auto
    have keys: "set (map fst (define_regs dm (pc, i) (cur_regs us1))) \<union> set ssa_regs =
        set (map fst (cur_regs us)) \<union> set ssa_regs \<union> set (instr_defs i)"
      using define_regs_keys [of i dm pc "cur_regs us1"] 2(2) record_uses_regs [OF Some] by auto
    show ?thesis using 2(1) [OF Some] 2(2) Some ok keys by simp
  qed
qed simp

lemma uses_of_blocks_panics:
  assumes "dm = def_map cfg" "starts_known st"
  shows "uses_of_blocks cfg dm st bs us = None \<longleftrightarrow> (\<exists>b \<in> set bs. reads_unbound (set ssa_regs) (block_code cfg b))"
  using assms
proof (induction cfg dm st bs us rule: uses_of_blocks.induct)
  case (2 cfg dm st b rest us)
  show ?case
  proof (cases "get_block cfg b")
    case None
    then show ?thesis using 2(1) [OF None 2(3,4)] by (simp add: block_code_def)
  next
    case (Some block)
    let ?us = "us\<lparr>cur_regs := case block_in st b of Some m \<Rightarrow> m | None \<Rightarrow> undef_state\<rparr>"
    have keys: "set (map fst (cur_regs ?us)) \<union> set ssa_regs = set ssa_regs"
      using 2(4) by (auto simp: starts_known_def undef_state_def split: option.splits)
    have code: "block_code cfg b = block_instrs block" using Some by (simp add: block_code_def)
    have total: "\<forall>(pc, i) \<in> set (block_instrs block). \<forall>r \<in> set (instr_defs i). \<exists>v. dm (pc, r) = Some v"
      using def_map_total [OF Some] 2(3) by blast
    have here: "uses_of_instrs dm (block_instrs block) ?us = None \<longleftrightarrow> reads_unbound (set ssa_regs) (block_code cfg b)"
      using uses_of_instrs_panics [OF total, of ?us] unfolding keys code .
    show ?thesis
    proof (cases "uses_of_instrs dm (block_instrs block) ?us")
      case None
      then show ?thesis using here Some by simp
    next
      case (Some us1)
      then show ?thesis using here 2(2) [OF \<open>get_block cfg b = Some block\<close> Some 2(3,4)] \<open>get_block cfg b = Some block\<close> by simp
    qed
  qed
qed simp

text \<open>C39: construction of the value graph panics exactly on the graphs with a block that reads a register above
  12 which the block has not defined before.\<close>

theorem ssa_panics_exactly:
  "ssa_build cfg t = None \<longleftrightarrow> (\<exists>b \<in> cfg_nodes cfg. reads_unbound {0..12} (block_code cfg b))"
proof -
  have regs: "set ssa_regs = {0..12}"
  proof (intro equalityI subsetI)
    fix r :: u8 assume "r \<in> {0..12}"
    then have "unat r \<in> set [0..<13]" by (simp add: word_le_nat_alt)
    then have "(of_nat (unat r) :: u8) \<in> set (map of_nat [0..<13])" unfolding set_map by (rule imageI)
    moreover have "map of_nat [0..<13] = ssa_regs" by code_simp
    ultimately show "r \<in> set ssa_regs" by simp
  qed (auto simp: ssa_regs_def)
  have nodes: "(\<exists>b \<in> set (block_order cfg t). reads_unbound D (block_code cfg b)) \<longleftrightarrow>
      (\<exists>b \<in> cfg_nodes cfg. reads_unbound D (block_code cfg b))" for D
  proof
    assume "\<exists>b \<in> set (block_order cfg t). reads_unbound D (block_code cfg b)"
    then obtain b where b: "reads_unbound D (block_code cfg b)" by blast
    then have "get_block cfg b \<noteq> None" by (cases "get_block cfg b") (auto simp: block_code_def)
    then show "\<exists>b \<in> cfg_nodes cfg. reads_unbound D (block_code cfg b)" using b by (auto simp: cfg_nodes_dom)
  qed (use block_order_covers in blast)
  show ?thesis
    unfolding ssa_build_def Let_def split_def option.map_disc_iff
      uses_of_blocks_panics [OF def_map_def [of cfg, symmetric] converge_starts [of cfg t]] nodes regs ..
qed

text \<open>A program the decoder accepts on which construction panics: it reads register 13.\<close>

definition high_register_program :: decoded_program where
  "high_register_program = \<lparr>jump_table = [], instructions = [(0, TwoRegImm AddImm64 1 13 0), (3, Trap)],
     code_len = 4, memory_base = None\<rparr>"

theorem ssa_register_panic:
  "valid_program high_register_program \<and>
   ssa_build (build high_register_program) (the (compute (build high_register_program))) = None"
proof
  show "valid_program high_register_program"
    by (simp add: valid_program_def wf_program_def high_register_program_def)
qed code_simp

text \<open>When control can come back to the entry block its parameters are lost: the decrement at the head of the
  loop reads, on entry, the parameter, but it is given its own definition.\<close>

theorem ssa_entry_parameter_lost:
  "map_option (\<lambda>ssa. map_option (kind_at (ssa_values ssa)) (use_value_by_pc_reg ssa (0, 1)))
     (ssa_build (build loop_program) (the (compute (build loop_program)))) = Some (Some (Some (SsaInstr 0 1 0))) \<and>
   entry_walk (build loop_program) [0] \<and> last_def 1 (walk_events (build loop_program) [] @ At 0 # execs []) = None"
proof (intro conjI)
  show "entry_walk (build loop_program) [0]" by code_simp
  show "last_def 1 (walk_events (build loop_program) [] @ At 0 # execs []) = None"
    by (simp add: last_def_def walk_events_def execs_def)
qed code_simp

end
