(* ===== verification/Expression.thy ===== *)
theory Expression
  imports Idioms_Correct
begin

text \<open>
  Expression trees (\<open>src/lifting.rs\<close>): the expressions that instructions are lifted to, the queries and
  rewritings on them, and their simplification.
\<close>

section \<open>Expressions\<close>

datatype expression
  = Const i64
  | Var string
  | BinOp bin_op expression expression
  | UnaryOp unary_op expression
  | Load mem_width expression i32
  | Store mem_width expression i32 expression
  | Call string "expression list"
  | Raw string

datatype var_type = TU64 | TI64 | TU32 | TI32 | TPointer | TBoolean

primrec var_type_display :: "var_type \<Rightarrow> string" where
  "var_type_display TU64 = ''u64''"
| "var_type_display TI64 = ''i64''"
| "var_type_display TU32 = ''u32''"
| "var_type_display TI32 = ''i32''"
| "var_type_display TPointer = ''ptr''"
| "var_type_display TBoolean = ''bool''"

record variable =
  var_name :: string
  var_type :: var_type

fun collect_var_names :: "expression \<Rightarrow> string set" where
  "collect_var_names (Var n) = {n}"
| "collect_var_names (Const _) = {}"
| "collect_var_names (Raw _) = {}"
| "collect_var_names (BinOp _ lop rop) = collect_var_names lop \<union> collect_var_names rop"
| "collect_var_names (UnaryOp _ operand) = collect_var_names operand"
| "collect_var_names (Load _ base _) = collect_var_names base"
| "collect_var_names (Store _ base _ v) = collect_var_names base \<union> collect_var_names v"
| "collect_var_names (Call _ args) = \<Union> (set (map collect_var_names args))"

fun substitute_var :: "expression \<Rightarrow> string \<Rightarrow> expression \<Rightarrow> expression" where
  "substitute_var (Var n) name replacement = (if n = name then replacement else Var n)"
| "substitute_var (Const v) name replacement = Const v"
| "substitute_var (Raw s) name replacement = Raw s"
| "substitute_var (BinOp opr lop rop) name replacement =
     BinOp opr (substitute_var lop name replacement) (substitute_var rop name replacement)"
| "substitute_var (UnaryOp opr operand) name replacement = UnaryOp opr (substitute_var operand name replacement)"
| "substitute_var (Load width base offset) name replacement = Load width (substitute_var base name replacement) offset"
| "substitute_var (Store width base offset v) name replacement =
     Store width (substitute_var base name replacement) offset (substitute_var v name replacement)"
| "substitute_var (Call callee args) name replacement =
     Call callee (map (\<lambda>a. substitute_var a name replacement) args)"

fun rename_vars_multi :: "expression \<Rightarrow> (string \<rightharpoonup> string) \<Rightarrow> expression" where
  "rename_vars_multi (Var n) rename_map = (case rename_map n of Some new_name \<Rightarrow> Var new_name | None \<Rightarrow> Var n)"
| "rename_vars_multi (Const v) rename_map = Const v"
| "rename_vars_multi (Raw s) rename_map = Raw s"
| "rename_vars_multi (BinOp opr lop rop) rename_map =
     BinOp opr (rename_vars_multi lop rename_map) (rename_vars_multi rop rename_map)"
| "rename_vars_multi (UnaryOp opr operand) rename_map = UnaryOp opr (rename_vars_multi operand rename_map)"
| "rename_vars_multi (Load width base offset) rename_map = Load width (rename_vars_multi base rename_map) offset"
| "rename_vars_multi (Store width base offset v) rename_map =
     Store width (rename_vars_multi base rename_map) offset (rename_vars_multi v rename_map)"
| "rename_vars_multi (Call name args) rename_map = Call name (map (\<lambda>a. rename_vars_multi a rename_map) args)"

fun rename_var_in_expression :: "expression \<Rightarrow> string \<Rightarrow> string \<Rightarrow> expression" where
  "rename_var_in_expression (Var n) old_name new_name = (if n = old_name then Var new_name else Var n)"
| "rename_var_in_expression (Const v) old_name new_name = Const v"
| "rename_var_in_expression (Raw s) old_name new_name = Raw s"
| "rename_var_in_expression (BinOp opr lop rop) old_name new_name =
     BinOp opr (rename_var_in_expression lop old_name new_name) (rename_var_in_expression rop old_name new_name)"
| "rename_var_in_expression (UnaryOp opr operand) old_name new_name =
     UnaryOp opr (rename_var_in_expression operand old_name new_name)"
| "rename_var_in_expression (Load width base offset) old_name new_name =
     Load width (rename_var_in_expression base old_name new_name) offset"
| "rename_var_in_expression (Store width base offset v) old_name new_name =
     Store width (rename_var_in_expression base old_name new_name) offset (rename_var_in_expression v old_name new_name)"
| "rename_var_in_expression (Call name args) old_name new_name =
     Call name (map (\<lambda>a. rename_var_in_expression a old_name new_name) args)"

fun expression_depth :: "expression \<Rightarrow> nat" where
  "expression_depth (Const _) = 0"
| "expression_depth (Var _) = 0"
| "expression_depth (Raw _) = 0"
| "expression_depth (BinOp _ lop rop) = 1 + max (expression_depth lop) (expression_depth rop)"
| "expression_depth (UnaryOp _ operand) = 1 + expression_depth operand"
| "expression_depth (Load _ base _) = 1 + expression_depth base"
| "expression_depth (Store _ base _ v) = 1 + max (expression_depth base) (expression_depth v)"
| "expression_depth (Call _ args) = 1 + fold max (map expression_depth args) 0"

fun has_side_effects :: "expression \<Rightarrow> bool" where
  "has_side_effects (Load _ _ _) = True"
| "has_side_effects (Store _ _ _ _) = True"
| "has_side_effects (Call _ _) = True"
| "has_side_effects (Raw _) = True"
| "has_side_effects (Const _) = False"
| "has_side_effects (Var _) = False"
| "has_side_effects (BinOp _ lop rop) = (has_side_effects lop \<or> has_side_effects rop)"
| "has_side_effects (UnaryOp _ operand) = has_side_effects operand"


section \<open>Stack slots\<close>

text \<open>A slot is a pointer variable with an offset. \<open>slot_of\<close> is the test the walks share: the base is a
  variable whose name starts with \<open>ptr_\<close>.\<close>

definition is_ptr_name :: "string \<Rightarrow> bool" where
  "is_ptr_name name \<longleftrightarrow> take 4 name = ''ptr_''"

definition slot_of :: "expression \<Rightarrow> i32 \<Rightarrow> (string \<times> i32) set" where
  "slot_of base offset = (case base of Var name \<Rightarrow> if is_ptr_name name then {(name, offset)} else {} | _ \<Rightarrow> {})"

fun collect_stack_slots :: "expression \<Rightarrow> (string \<times> i32) set" where
  "collect_stack_slots (Load _ base offset) = slot_of base offset \<union> collect_stack_slots base"
| "collect_stack_slots (Store _ base offset v) =
     slot_of base offset \<union> collect_stack_slots base \<union> collect_stack_slots v"
| "collect_stack_slots (BinOp _ lop rop) = collect_stack_slots lop \<union> collect_stack_slots rop"
| "collect_stack_slots (UnaryOp _ operand) = collect_stack_slots operand"
| "collect_stack_slots (Call _ args) = \<Union> (set (map collect_stack_slots args))"
| "collect_stack_slots (Const _) = {}"
| "collect_stack_slots (Var _) = {}"
| "collect_stack_slots (Raw _) = {}"

text \<open>\<open>collect_slot_store_blocks\<close> and \<open>collect_slot_load_blocks\<close> enter the block under every slot they meet;
  these are the slots.\<close>

fun stored_slots :: "expression \<Rightarrow> (string \<times> i32) set" where
  "stored_slots (Store _ base offset v) = slot_of base offset \<union> stored_slots base \<union> stored_slots v"
| "stored_slots (Load _ base _) = stored_slots base"
| "stored_slots (BinOp _ lop rop) = stored_slots lop \<union> stored_slots rop"
| "stored_slots (UnaryOp _ operand) = stored_slots operand"
| "stored_slots (Call _ args) = \<Union> (set (map stored_slots args))"
| "stored_slots (Const _) = {}"
| "stored_slots (Var _) = {}"
| "stored_slots (Raw _) = {}"

fun loaded_slots :: "expression \<Rightarrow> (string \<times> i32) set" where
  "loaded_slots (Load _ base offset) = slot_of base offset \<union> loaded_slots base"
| "loaded_slots (Store _ base _ v) = loaded_slots base \<union> loaded_slots v"
| "loaded_slots (BinOp _ lop rop) = loaded_slots lop \<union> loaded_slots rop"
| "loaded_slots (UnaryOp _ operand) = loaded_slots operand"
| "loaded_slots (Call _ args) = \<Union> (set (map loaded_slots args))"
| "loaded_slots (Const _) = {}"
| "loaded_slots (Var _) = {}"
| "loaded_slots (Raw _) = {}"

definition slot_name :: "(string \<times> i32 \<rightharpoonup> string) \<Rightarrow> expression \<Rightarrow> i32 \<Rightarrow> string option" where
  "slot_name stack_vars base offset = (case base of Var name \<Rightarrow> stack_vars (name, offset) | _ \<Rightarrow> None)"

fun replace_stack_loads :: "expression \<Rightarrow> (string \<times> i32 \<rightharpoonup> string) \<Rightarrow> expression" where
  "replace_stack_loads (Load width base offset) stack_vars =
     (case slot_name stack_vars base offset of
        Some name \<Rightarrow> Var name
      | None \<Rightarrow> Load width (replace_stack_loads base stack_vars) offset)"
| "replace_stack_loads (Store width base offset v) stack_vars =
     Store width (replace_stack_loads base stack_vars) offset (replace_stack_loads v stack_vars)"
| "replace_stack_loads (BinOp opr lop rop) stack_vars =
     BinOp opr (replace_stack_loads lop stack_vars) (replace_stack_loads rop stack_vars)"
| "replace_stack_loads (UnaryOp opr operand) stack_vars = UnaryOp opr (replace_stack_loads operand stack_vars)"
| "replace_stack_loads (Call name args) stack_vars = Call name (map (\<lambda>a. replace_stack_loads a stack_vars) args)"
| "replace_stack_loads (Const v) stack_vars = Const v"
| "replace_stack_loads (Var n) stack_vars = Var n"
| "replace_stack_loads (Raw s) stack_vars = Raw s"


section \<open>Simplification\<close>

fun is_boolean_expr :: "expression \<Rightarrow> bool" where
  "is_boolean_expr (UnaryOp opr _) = (opr = UNot)"
| "is_boolean_expr (BinOp opr lop rop) =
     (opr \<in> {BLtU, BLtS, BGeU, BGeS, BGtU, BGtS, BLeU, BLeS} \<or>
      opr \<in> {BAnd, BOr} \<and> is_boolean_expr lop \<and> is_boolean_expr rop)"
| "is_boolean_expr _ = False"

text \<open>The arms of the match on a binary operation whose operands are simplified, in order. Constant folding
  and the reassociation of additions are separate definitions.\<close>

definition fold_constants :: "bin_op \<Rightarrow> expression \<Rightarrow> expression \<Rightarrow> expression option" where
  "fold_constants opr lop rop = (case lop of
      Const a \<Rightarrow> (case rop of
         Const b \<Rightarrow>
           if opr = BAdd then Some (Const (a + b))
           else if opr = BSub then Some (Const (a - b))
           else if opr = BMul then Some (Const (a * b))
           else None
       | _ \<Rightarrow> None)
    | _ \<Rightarrow> None)"

definition reassociate :: "bin_op \<Rightarrow> expression \<Rightarrow> expression \<Rightarrow> expression option" where
  "reassociate opr lop rop = (case rop of
      Const c2 \<Rightarrow> (case lop of
         BinOp inner x (Const c1) \<Rightarrow>
           if opr = BAdd \<and> inner = BAdd then
             (let sum = c1 + c2 in Some (if sum = 0 then x else BinOp BAdd x (Const sum)))
           else None
       | _ \<Rightarrow> None)
    | _ \<Rightarrow> None)"

definition is_const :: "expression \<Rightarrow> bool" where
  "is_const e \<longleftrightarrow> (case e of Const _ \<Rightarrow> True | _ \<Rightarrow> False)"

definition simplify_binop :: "bin_op \<Rightarrow> expression \<Rightarrow> expression \<Rightarrow> expression" where
  "simplify_binop opr lop rop = (case fold_constants opr lop rop of Some e \<Rightarrow> e | None \<Rightarrow>
     if opr \<in> {BAdd, BSub, BOr, BXor, BShl, BShrU, BShrS} \<and> rop = Const 0 then lop
     else if opr \<in> {BAdd, BOr, BXor} \<and> lop = Const 0 then rop
     else (case reassociate opr lop rop of Some e \<Rightarrow> e | None \<Rightarrow>
     if opr \<in> {BMul, BDivU, BDivS} \<and> rop = Const 1 then lop
     else if opr = BMul \<and> lop = Const 1 then rop
     else if opr \<in> {BMul, BAnd} \<and> (rop = Const 0 \<or> lop = Const 0) then Const 0
     else if opr = BLtU \<and> rop = Const 1 then UnaryOp UNot lop
     else if opr = BLtU \<and> lop = Const 0 then (if is_boolean_expr rop then rop else BinOp opr lop rop)
     else if opr = BLtU \<and> is_const lop then BinOp BGtU rop lop
     else if opr = BLtS \<and> is_const lop then BinOp BGtS rop lop
     else BinOp opr lop rop))"

definition invert_comparison :: "bin_op \<Rightarrow> bin_op option" where
  "invert_comparison opr = (case opr of
      BLtU \<Rightarrow> Some BGeU | BLtS \<Rightarrow> Some BGeS | BGtU \<Rightarrow> Some BLeU | BGtS \<Rightarrow> Some BLeS
    | BGeU \<Rightarrow> Some BLtU | BGeS \<Rightarrow> Some BLtS | BLeU \<Rightarrow> Some BGtU | BLeS \<Rightarrow> Some BGtS | _ \<Rightarrow> None)"

definition simplify_unary :: "unary_op \<Rightarrow> expression \<Rightarrow> expression" where
  "simplify_unary opr operand =
     (if opr = UNot then (case operand of
         UnaryOp opr' inner \<Rightarrow> if opr' = UNot then inner else UnaryOp opr operand
       | BinOp cmp_op lop rop \<Rightarrow> (case invert_comparison cmp_op of
           Some inverted \<Rightarrow> BinOp inverted lop rop | None \<Rightarrow> UnaryOp opr operand)
       | _ \<Rightarrow> UnaryOp opr operand)
      else UnaryOp opr operand)"

text \<open>\<open>i32::try_from\<close>, and the absorption of a constant of the base into the offset.\<close>

definition i32_of :: "i64 \<Rightarrow> i32 option" where
  "i32_of c = (if - (2 ^ 31) \<le> sint c \<and> sint c < 2 ^ 31 then Some (ucast c) else None)"

definition absorb_offset :: "expression \<Rightarrow> i32 \<Rightarrow> expression \<times> i32" where
  "absorb_offset base offset = (case base of
      BinOp opr lop (Const c) \<Rightarrow>
        if opr = BAdd then (case i32_of c of Some c32 \<Rightarrow> (lop, offset + c32) | None \<Rightarrow> (base, offset))
        else (base, offset)
    | _ \<Rightarrow> (base, offset))"

fun simplify_expression :: "expression \<Rightarrow> expression" where
  "simplify_expression (BinOp opr lop rop) = simplify_binop opr (simplify_expression lop) (simplify_expression rop)"
| "simplify_expression (UnaryOp opr operand) = simplify_unary opr (simplify_expression operand)"
| "simplify_expression (Load width base offset) =
     (let (base, offset) = absorb_offset (simplify_expression base) offset in Load width base offset)"
| "simplify_expression (Store width base offset v) =
     (let (base, offset) = absorb_offset (simplify_expression base) offset
      in Store width base offset (simplify_expression v))"
| "simplify_expression (Call name args) = Call name (map simplify_expression args)"
| "simplify_expression (Const v) = Const v"
| "simplify_expression (Var n) = Var n"
| "simplify_expression (Raw s) = Raw s"

end
