(* ===== verification/Expression_Correct.thy ===== *)
theory Expression_Correct
  imports Expression "HOL-Library.Signed_Division"
begin

text \<open>
  What expressions mean, and what the rewritings keep of it. A valuation gives the variables, what a load
  finds at an address, and the values of the parts whose meaning is outside the code (calls, raw text,
  operators without a law the code uses). Addresses have 32 bits and wrap, registers 64.

  Simplification keeps the value of every expression in which a doubly negated expression is 0 or 1.
  Substitution and renaming are evaluation under another valuation.
\<close>

section \<open>Evaluation\<close>

record valuation =
  var_value :: "string \<Rightarrow> u64"
  mem_value :: "mem_width \<Rightarrow> u32 \<Rightarrow> u64"
  store_value :: "mem_width \<Rightarrow> u32 \<Rightarrow> u64 \<Rightarrow> u64"
  call_value :: "string \<Rightarrow> u64 list \<Rightarrow> u64"
  raw_value :: "string \<Rightarrow> u64"
  other_binop :: "bin_op \<Rightarrow> u64 \<Rightarrow> u64 \<Rightarrow> u64"
  other_unary :: "unary_op \<Rightarrow> u64 \<Rightarrow> u64"

text \<open>Division by zero, shifts by the width or more and the division of the least number by \<open>-1\<close> are left
  to \<open>other_binop\<close>.\<close>

definition binop_value :: "valuation \<Rightarrow> bin_op \<Rightarrow> u64 \<Rightarrow> u64 \<Rightarrow> u64" where
  "binop_value env opr a b = (case opr of
      BAdd \<Rightarrow> a + b | BSub \<Rightarrow> a - b | BMul \<Rightarrow> a * b
    | BAnd \<Rightarrow> a AND b | BOr \<Rightarrow> a OR b | BXor \<Rightarrow> a XOR b
    | BAndInv \<Rightarrow> a AND NOT b | BOrInv \<Rightarrow> a OR NOT b | BXnor \<Rightarrow> NOT (a XOR b)
    | BDivU \<Rightarrow> if b = 0 then other_binop env opr a b else a div b
    | BDivS \<Rightarrow> if b = 0 \<or> b = - 1 then other_binop env opr a b else word_of_int (sint a sdiv sint b)
    | BShl \<Rightarrow> if unat b < 64 then push_bit (unat b) a else other_binop env opr a b
    | BShrU \<Rightarrow> if unat b < 64 then drop_bit (unat b) a else other_binop env opr a b
    | BShrS \<Rightarrow> if unat b < 64 then signed_drop_bit (unat b) a else other_binop env opr a b
    | BLtU \<Rightarrow> of_bool (a < b) | BGeU \<Rightarrow> of_bool (b \<le> a) | BGtU \<Rightarrow> of_bool (b < a) | BLeU \<Rightarrow> of_bool (a \<le> b)
    | BLtS \<Rightarrow> of_bool (sint a < sint b) | BGeS \<Rightarrow> of_bool (sint b \<le> sint a)
    | BGtS \<Rightarrow> of_bool (sint b < sint a) | BLeS \<Rightarrow> of_bool (sint a \<le> sint b)
    | _ \<Rightarrow> other_binop env opr a b)"

definition unary_value :: "valuation \<Rightarrow> unary_op \<Rightarrow> u64 \<Rightarrow> u64" where
  "unary_value env opr a = (if opr = UNot then of_bool (a = 0) else other_unary env opr a)"

definition address :: "u64 \<Rightarrow> i32 \<Rightarrow> u32" where
  "address b offset = ucast b + offset"

fun eval :: "valuation \<Rightarrow> expression \<Rightarrow> u64" where
  "eval env (Const v) = v"
| "eval env (Var n) = var_value env n"
| "eval env (BinOp opr l r) = binop_value env opr (eval env l) (eval env r)"
| "eval env (UnaryOp opr e) = unary_value env opr (eval env e)"
| "eval env (Load width b offset) = mem_value env width (address (eval env b) offset)"
| "eval env (Store width b offset v) = store_value env width (address (eval env b) offset) (eval env v)"
| "eval env (Call name args) = call_value env name (map (eval env) args)"
| "eval env (Raw s) = raw_value env s"

lemma binop_value_simps [simp]:
  "binop_value env BAdd a b = a + b" "binop_value env BSub a b = a - b" "binop_value env BMul a b = a * b"
  "binop_value env BAnd a b = a AND b" "binop_value env BOr a b = a OR b" "binop_value env BXor a b = a XOR b"
  "binop_value env BAndInv a b = a AND NOT b" "binop_value env BOrInv a b = a OR NOT b" "binop_value env BXnor a b = NOT (a XOR b)"
  "binop_value env BLtU a b = of_bool (a < b)" "binop_value env BGeU a b = of_bool (b \<le> a)"
  "binop_value env BGtU a b = of_bool (b < a)" "binop_value env BLeU a b = of_bool (a \<le> b)"
  "binop_value env BLtS a b = of_bool (sint a < sint b)" "binop_value env BGeS a b = of_bool (sint b \<le> sint a)"
  "binop_value env BGtS a b = of_bool (sint b < sint a)" "binop_value env BLeS a b = of_bool (sint a \<le> sint b)"
  by (simp_all add: binop_value_def)

lemma shift_zero [simp]:
  "binop_value env BShl a 0 = a" "binop_value env BShrU a 0 = a" "binop_value env BShrS a 0 = a"
  by (simp_all add: binop_value_def)

lemma div_one [simp]: "binop_value env BDivU a 1 = a" "binop_value env BDivS a 1 = a"
  by (simp_all add: binop_value_def)

lemma not_value [simp]: "unary_value env UNot a = of_bool (a = 0)"
  by (simp add: unary_value_def)


section \<open>Booleans\<close>

definition is_bit :: "u64 \<Rightarrow> bool" where
  "is_bit v \<longleftrightarrow> v = 0 \<or> v = 1"

lemma is_bit_of_bool [simp]: "is_bit (of_bool b)"
  by (cases b) (simp_all add: is_bit_def)

lemma is_bit_and_or: "is_bit a \<Longrightarrow> is_bit b \<Longrightarrow> is_bit (a AND b) \<and> is_bit (a OR b)"
  by (auto simp: is_bit_def)

lemma boolean_expr_bit: "is_boolean_expr e \<Longrightarrow> is_bit (eval env e)"
  by (induction e rule: is_boolean_expr.induct) (auto simp: is_bit_and_or)

lemma not_not_bit: "is_bit v \<Longrightarrow> of_bool ((of_bool (v = 0) :: u64) = 0) = v"
  by (auto simp: is_bit_def)


section \<open>Simplification keeps the value\<close>

lemma fold_constants_value: "fold_constants opr l r = Some e \<Longrightarrow> eval env e = eval env (BinOp opr l r)"
  by (auto simp: fold_constants_def split: expression.splits if_splits)

lemma reassociate_value: "reassociate opr l r = Some e \<Longrightarrow> eval env e = eval env (BinOp opr l r)"
  by (auto simp: reassociate_def Let_def add.assoc split: expression.splits if_splits)

lemma less_one_iff: "(a :: u64) < 1 \<longleftrightarrow> a = 0"
  by (metis word_gt_0 word_not_simps(1) unat_1 unat_eq_zero less_one word_less_nat_alt)

text \<open>An expression that is chosen by cases has a value when each choice has it.\<close>

lemma eval_if: "(P \<Longrightarrow> eval env a = v) \<Longrightarrow> eval env b = v \<Longrightarrow> eval env (if P then a else b) = v"
  by simp

lemma eval_case:
  "(\<And>e. x = Some e \<Longrightarrow> eval env e = v) \<Longrightarrow> eval env b = v \<Longrightarrow>
   eval env (case x of Some e \<Rightarrow> e | None \<Rightarrow> b) = v"
  by (simp split: option.split)

lemma boolean_positive: "is_boolean_expr e \<Longrightarrow> of_bool (0 < eval env e) = eval env e"
  using boolean_expr_bit [of e env] by (auto simp: is_bit_def)

lemma simplify_binop_value: "eval env (simplify_binop opr l r) = eval env (BinOp opr l r)"
  unfolding simplify_binop_def
proof (intro eval_case eval_if)
  show "eval env e = eval env (BinOp opr l r)" if "fold_constants opr l r = Some e" for e
    by (rule fold_constants_value [OF that])
  show "eval env e = eval env (BinOp opr l r)" if "reassociate opr l r = Some e" for e
    by (rule reassociate_value [OF that])
  show "eval env r = eval env (BinOp opr l r)" if "opr = BLtU \<and> l = Const 0" "is_boolean_expr r"
    using that boolean_positive [of r env] by simp
qed (auto simp: less_one_iff is_const_def)

lemma invert_comparison_value:
  "invert_comparison opr = Some opr' \<Longrightarrow> binop_value env opr' a b = of_bool (binop_value env opr a b = 0)"
  by (cases opr) (auto simp: invert_comparison_def)

lemma simplify_unary_value:
  assumes "\<And>inner. opr = UNot \<Longrightarrow> e = UnaryOp UNot inner \<Longrightarrow> is_bit (eval env inner)"
  shows "eval env (simplify_unary opr e) = eval env (UnaryOp opr e)"
proof (cases "opr = UNot")
  case True
  show ?thesis
  proof (cases e)
    case (UnaryOp opr' inner)
    then show ?thesis using True assms [of inner] not_not_bit [of "eval env inner"]
      by (simp add: simplify_unary_def)
  next
    case (BinOp cmp l r)
    then show ?thesis using True invert_comparison_value [of cmp _ env "eval env l" "eval env r"]
      by (simp add: simplify_unary_def split: option.splits)
  qed (simp_all add: simplify_unary_def True)
qed (simp add: simplify_unary_def)

lemma i32_of_ucast: "i32_of c = Some d \<Longrightarrow> d = ucast c"
  by (simp add: i32_of_def split: if_splits)

lemma ucast_add: "(ucast (a + b :: 64 word) :: 32 word) = ucast a + ucast b"
proof -
  have "take_bit 32 (take_bit 64 (x + y)) = take_bit 32 (take_bit 64 x + take_bit 64 (y :: int))" for x y
    by (subst (2) take_bit_add [symmetric]) (simp add: take_bit_take_bit take_bit_add)
  then show ?thesis by transfer simp
qed

lemma absorb_offset_address:
  assumes "absorb_offset b offset = (b', offset')"
  shows "address (eval env b') offset' = address (eval env b) offset"
proof -
  have "b' = b \<and> offset' = offset \<or> (\<exists>l c. b = BinOp BAdd l (Const c) \<and> b' = l \<and> offset' = offset + ucast c)"
    using assms by (auto simp: absorb_offset_def dest: i32_of_ucast split: expression.splits if_splits option.splits)
  then show ?thesis by (auto simp: address_def ucast_add)
qed

text \<open>Where the code turns \<open>!!x\<close> into \<open>x\<close>, \<open>x\<close> has to be a truth value.\<close>

fun double_negations_boolean :: "valuation \<Rightarrow> expression \<Rightarrow> bool" where
  "double_negations_boolean env (BinOp opr l r) \<longleftrightarrow> double_negations_boolean env l \<and> double_negations_boolean env r"
| "double_negations_boolean env (UnaryOp opr e) \<longleftrightarrow> double_negations_boolean env e \<and>
     (if opr = UNot then case simplify_expression e of
        UnaryOp opr' inner \<Rightarrow> opr' = UNot \<longrightarrow> is_bit (eval env inner) | _ \<Rightarrow> True else True)"
| "double_negations_boolean env (Load _ b _) \<longleftrightarrow> double_negations_boolean env b"
| "double_negations_boolean env (Store _ b _ v) \<longleftrightarrow> double_negations_boolean env b \<and> double_negations_boolean env v"
| "double_negations_boolean env (Call _ args) \<longleftrightarrow> list_all (double_negations_boolean env) args"
| "double_negations_boolean env _ \<longleftrightarrow> True"

lemma simplify_value: "double_negations_boolean env e \<Longrightarrow> eval env (simplify_expression e) = eval env e"
proof (induction e rule: simplify_expression.induct)
  case (1 opr l r)
  then show ?case by (simp add: simplify_binop_value)
next
  case (2 opr e)
  have "eval env (simplify_unary opr (simplify_expression e)) = eval env (UnaryOp opr (simplify_expression e))"
    by (rule simplify_unary_value) (use 2(2) in auto)
  then show ?case using 2 by simp
next
  case (3 width b offset)
  then show ?case
    using absorb_offset_address [of "simplify_expression b" offset]
    by (cases "absorb_offset (simplify_expression b) offset") simp
next
  case (4 width b offset v)
  then show ?case
    using absorb_offset_address [of "simplify_expression b" offset]
    by (cases "absorb_offset (simplify_expression b) offset") simp
next
  case (5 name args)
  have "map (eval env) (map simplify_expression args) = map (eval env) args"
    using 5 by (simp add: list_all_iff)
  then show ?case by (simp only: eval.simps simplify_expression.simps)
qed simp_all

section \<open>Substitution and renaming\<close>

lemma binop_var_value [simp]: "binop_value (env\<lparr>var_value := f\<rparr>) opr a b = binop_value env opr a b"
  by (cases opr) (simp_all add: binop_value_def)

lemma unary_var_value [simp]: "unary_value (env\<lparr>var_value := f\<rparr>) opr a = unary_value env opr a"
  by (simp add: unary_value_def)

lemma eval_substitute:
  "eval env (substitute_var e x r) = eval (env\<lparr>var_value := (var_value env)(x := eval env r)\<rparr>) e"
  by (induction e x r rule: substitute_var.induct) (simp_all add: comp_def cong: map_cong)

lemma eval_rename:
  "eval env (rename_vars_multi e m) =
   eval (env\<lparr>var_value := \<lambda>n. case m n of Some n' \<Rightarrow> var_value env n' | None \<Rightarrow> var_value env n\<rparr>) e"
  by (induction e m rule: rename_vars_multi.induct) (simp_all add: comp_def cong: map_cong split: option.split)

lemma rename_is_substitution: "rename_var_in_expression e x y = substitute_var e x (Var y)"
  by (induction e x y rule: rename_var_in_expression.induct) simp_all

lemma eval_cong_names:
  "(\<And>n. n \<in> collect_var_names e \<Longrightarrow> f n = g n) \<Longrightarrow> eval (env\<lparr>var_value := f\<rparr>) e = eval (env\<lparr>var_value := g\<rparr>) e"
proof (induction e rule: collect_var_names.induct)
  case (8 name args)
  have "map (eval (env\<lparr>var_value := f\<rparr>)) args = map (eval (env\<lparr>var_value := g\<rparr>)) args"
    using 8 by (intro map_cong) auto
  from arg_cong [OF this, of "call_value env name"] show ?case by simp
qed simp_all

lemma substitute_names:
  "collect_var_names (substitute_var e x r) =
     (if x \<in> collect_var_names e then collect_var_names e - {x} \<union> collect_var_names r else collect_var_names e)"
  by (induction e x r rule: substitute_var.induct) (auto split: if_splits)

text \<open>Replacing a variable by an expression of the same value changes nothing.\<close>

lemma substitute_same_value: "var_value env x = eval env r \<Longrightarrow> eval env (substitute_var e x r) = eval env e"
proof -
  assume "var_value env x = eval env r"
  then have "(var_value env)(x := eval env r) = var_value env" by auto
  then show ?thesis unfolding eval_substitute by simp
qed

lemma rename_same_value:
  assumes "\<And>n n'. m n = Some n' \<Longrightarrow> var_value env n' = var_value env n"
  shows "eval env (rename_vars_multi e m) = eval env e"
proof -
  have "(\<lambda>n. case m n of Some n' \<Rightarrow> var_value env n' | None \<Rightarrow> var_value env n) = var_value env"
    using assms by (auto split: option.split)
  then show ?thesis unfolding eval_rename by simp
qed

section \<open>Properties\<close>

text \<open>C16: simplification keeps the value of an expression under every valuation in which what is doubly negated is
  0 or 1: constant folding, neutral and absorbing operands, reassociation, inverted and flipped comparisons,
  and constants that move from the address of an access into its offset.\<close>

theorem simplify_preserves_value:
  "double_negations_boolean env e \<Longrightarrow> eval env (simplify_expression e) = eval env e"
  by (rule simplify_value)

definition sample_valuation :: valuation where
  "sample_valuation = \<lparr>var_value = \<lambda>n. if n = ''x'' then 2 else 8, mem_value = \<lambda>_ a. ucast a, store_value = \<lambda>_ _ v. v,
     call_value = \<lambda>_ _. 0, raw_value = \<lambda>_. 0, other_binop = \<lambda>_ _ _. 0, other_unary = \<lambda>_ _. 0\<rparr>"

definition sample_expression :: expression where
  "sample_expression = UnaryOp UNot (UnaryOp UNot (BinOp BLtU (Const 3)
     (Load U32 (BinOp BAdd (BinOp BAdd (Var ''p'') (Const 4)) (Const 8)) 16)))"

theorem simplify_preserves_value_witness:
  "simplify_expression sample_expression = BinOp BGtU (Load U32 (Var ''p'') 28) (Const 3) \<and>
   eval sample_valuation (simplify_expression sample_expression) = eval sample_valuation sample_expression"
proof
  have "double_negations_boolean sample_valuation sample_expression" by code_simp
  then show "eval sample_valuation (simplify_expression sample_expression) = eval sample_valuation sample_expression"
    by (rule simplify_preserves_value)
qed code_simp

text \<open>Without this condition the value changes, and simplifying again goes on: \<open>(x <u 1) <u 1\<close>, which is 1
  for \<open>x = 2\<close>, becomes \<open>!!x\<close> and then \<open>x\<close>.\<close>

theorem double_negation_changes_value:
  "let e = BinOp BLtU (BinOp BLtU (Var ''x'') (Const 1)) (Const 1) in
     simplify_expression e = UnaryOp UNot (UnaryOp UNot (Var ''x'')) \<and>
     simplify_expression (simplify_expression e) = Var ''x'' \<and>
     eval sample_valuation e = 1 \<and> eval sample_valuation (simplify_expression (simplify_expression e)) = 2"
  by code_simp

text \<open>Substituting an expression for a variable is evaluating with the variable set to the value of the
  expression, and renaming variables is evaluating with the values of the new names; the names of the result are
  those expected.\<close>

theorem substitution_is_evaluation:
  "eval env (substitute_var e x r) = eval (env\<lparr>var_value := (var_value env)(x := eval env r)\<rparr>) e \<and>
   eval env (rename_vars_multi e m) =
     eval (env\<lparr>var_value := \<lambda>n. case m n of Some n' \<Rightarrow> var_value env n' | None \<Rightarrow> var_value env n\<rparr>) e \<and>
   rename_var_in_expression e x y = substitute_var e x (Var y) \<and>
   collect_var_names (substitute_var e x r) =
     (if x \<in> collect_var_names e then collect_var_names e - {x} \<union> collect_var_names r else collect_var_names e)"
  by (intro conjI eval_substitute eval_rename rename_is_substitution substitute_names)

end
