(* ===== verification/Expression_Format.thy ===== *)
theory Expression_Format
  imports Expression
begin

text \<open>
  Formatting of expressions (\<open>src/lifting.rs\<close>). The text of an access is decided first
  (\<open>access_form\<close>: a fixed text, an indexed access with a suffix, or an array element), then its
  sub-expressions are formatted; the code mixes the two.
\<close>

section \<open>Constants and contexts\<close>

definition upper_hex :: "char \<Rightarrow> char" where
  "upper_hex c = (if c = CHR ''a'' then CHR ''A'' else if c = CHR ''b'' then CHR ''B'' else if c = CHR ''c'' then CHR ''C''
     else if c = CHR ''d'' then CHR ''D'' else if c = CHR ''e'' then CHR ''E'' else if c = CHR ''f'' then CHR ''F'' else c)"

definition format_const :: "i64 \<Rightarrow> string" where
  "format_const v =
     (if sint v \<ge> 0x1000 then ''0x'' @ map upper_hex (show_base 16 (unat v))
      else if sint v \<le> - 0x1000 then ''-0x'' @ map upper_hex (show_base 16 (unat (- v)))
      else show_int (sint v))"

record format_context =
  ctx_memory_base :: "u64 option"
  ctx_linear_offset :: "u64 option"
  deref_context :: bool

definition new_context :: "u64 option \<Rightarrow> format_context" where
  "new_context mem = \<lparr>ctx_memory_base = mem, ctx_linear_offset = None, deref_context = False\<rparr>"

definition with_deref_context :: "format_context \<Rightarrow> format_context" where
  "with_deref_context ctx = ctx\<lparr>deref_context := True\<rparr>"


section \<open>Precedence\<close>

definition is_commutative :: "bin_op \<Rightarrow> bool" where
  "is_commutative opr \<longleftrightarrow> opr \<in> {BAdd, BMul, BAnd, BOr, BXor}"

definition op_precedence :: "bin_op \<Rightarrow> nat" where
  "op_precedence opr = (case opr of
      BOr \<Rightarrow> 1 | BOrInv \<Rightarrow> 1
    | BXor \<Rightarrow> 2 | BXnor \<Rightarrow> 2
    | BAnd \<Rightarrow> 3 | BAndInv \<Rightarrow> 3
    | BShl \<Rightarrow> 5 | BShrU \<Rightarrow> 5 | BShrS \<Rightarrow> 5 | BRotL \<Rightarrow> 5 | BRotR \<Rightarrow> 5
    | BAdd \<Rightarrow> 6 | BSub \<Rightarrow> 6 | BNegAdd \<Rightarrow> 6
    | BMul \<Rightarrow> 7 | BDivU \<Rightarrow> 7 | BDivS \<Rightarrow> 7 | BRemU \<Rightarrow> 7 | BRemS \<Rightarrow> 7
    | BMulUpperSS \<Rightarrow> 7 | BMulUpperUU \<Rightarrow> 7 | BMulUpperSU \<Rightarrow> 7
    | _ \<Rightarrow> 4)"

definition needs_parens :: "expression \<Rightarrow> bin_op \<Rightarrow> bool \<Rightarrow> bool" where
  "needs_parens e parent_op is_left = (case e of
      BinOp opr _ _ \<Rightarrow>
        if op_precedence opr < op_precedence parent_op then True
        else if op_precedence opr = op_precedence parent_op \<and> \<not> is_left then \<not> is_commutative parent_op
        else False
    | _ \<Rightarrow> False)"

definition parens_if :: "bool \<Rightarrow> string \<Rightarrow> string" where
  "parens_if p s = (if p then ''('' @ s @ '')'' else s)"


section \<open>Accesses\<close>

datatype access_form
  = Text string
  | Indexed expression string
  | Element expression expression

definition resolve_named_global :: "expression \<Rightarrow> i32 \<Rightarrow> mem_width \<Rightarrow> format_context \<Rightarrow> string option" where
  "resolve_named_global base_expr offset width ctx = (case base_expr of
      Const b \<Rightarrow>
        (let addr = b + scast offset in
         if addr = 0x30000 then Some ''RESULT_PTR''
         else if addr = 0x30004 then Some ''RESULT_LEN''
         else if addr = 0x30008 then Some ''HEAP_PTR''
         else if addr = 0x3000C then Some ''HEAP_PAGES''
         else (case ctx_memory_base ctx of
             Some mem_base \<Rightarrow>
               if sint mem_base \<le> sint addr then
                 Some (mem_width_display width @ ''['' @ format_const (addr - mem_base) @ '']'')
               else None
           | None \<Rightarrow> None))
    | _ \<Rightarrow> None)"

definition mem_base_form :: "expression \<Rightarrow> i32 \<Rightarrow> format_context \<Rightarrow> access_form option" where
  "mem_base_form base_expr offset ctx = (case ctx_memory_base ctx of
      None \<Rightarrow> None
    | Some mem_base \<Rightarrow>
       (case (if offset = 0 then (case base_expr of
                BinOp opr l r \<Rightarrow>
                  if opr \<noteq> BAdd then None
                  else if r = Const mem_base then Some (Indexed l [])
                  else if l = Const mem_base then Some (Indexed r [])
                  else None
              | _ \<Rightarrow> None) else None) of
          Some form \<Rightarrow> Some form
        | None \<Rightarrow>
          (case (case ctx_linear_offset ctx of
                   Some lmo \<Rightarrow> if scast offset = lmo then
                     (case base_expr of Var name \<Rightarrow> if is_ptr_name name then Some (Text (''*'' @ name)) else None | _ \<Rightarrow> None)
                     else None
                 | None \<Rightarrow> None) of
             Some form \<Rightarrow> Some form
           | None \<Rightarrow> if scast offset = mem_base then Some (Indexed base_expr []) else None)))"

definition struct_field :: "expression \<Rightarrow> i32 \<Rightarrow> format_context \<Rightarrow> string option" where
  "struct_field base_expr offset ctx = (case base_expr of
      Var name \<Rightarrow>
        if is_ptr_name name \<and> 0 \<le> sint offset then
          (if ctx_linear_offset ctx = Some (scast offset) then Some (''*'' @ name)
           else if ctx_memory_base ctx = Some (scast offset) then Some (''*'' @ name)
           else Some (name @ ''->field_'' @ show_int (sint offset)))
        else None
    | _ \<Rightarrow> None)"

definition scaled_index :: "mem_width \<Rightarrow> expression \<Rightarrow> expression option" where
  "scaled_index width e = (case e of
      BinOp opr index (Const m) \<Rightarrow> if opr = BMul \<and> m = byte_size width then Some index else None
    | _ \<Rightarrow> None)"

definition array_form :: "expression \<Rightarrow> i32 \<Rightarrow> mem_width \<Rightarrow> access_form option" where
  "array_form base_expr offset width =
     (if offset \<noteq> 0 \<or> sint (byte_size width) \<le> 1 then None
      else (case base_expr of
         BinOp opr ptr index_expr \<Rightarrow>
           if opr = BAdd then (case scaled_index width index_expr of
               Some index \<Rightarrow> Some (Element ptr index)
             | None \<Rightarrow> (case scaled_index width ptr of Some index \<Rightarrow> Some (Element index_expr index) | None \<Rightarrow> None))
           else None
       | _ \<Rightarrow> None))"

text \<open>\<open>format_mem_address\<close> with the width and the brackets around it.\<close>

definition address_form :: "expression \<Rightarrow> i32 \<Rightarrow> mem_width \<Rightarrow> access_form" where
  "address_form base_expr offset width = (case base_expr of
      Const b \<Rightarrow> Text (mem_width_display width @ ''['' @ format_const (b + scast offset) @ '']'')
    | _ \<Rightarrow>
      if offset = 0 then Indexed base_expr []
      else if sint offset < 0 then Indexed base_expr ('' - '' @ format_const (scast (- offset)))
      else Indexed base_expr ('' + '' @ format_const (scast offset)))"

definition access_form_of :: "expression \<Rightarrow> i32 \<Rightarrow> mem_width \<Rightarrow> format_context \<Rightarrow> access_form" where
  "access_form_of base_expr offset width ctx =
     (case resolve_named_global base_expr offset width ctx of Some name \<Rightarrow> Text name | None \<Rightarrow>
     (case mem_base_form base_expr offset ctx of Some form \<Rightarrow> form | None \<Rightarrow>
     (case struct_field base_expr offset ctx of Some field \<Rightarrow> Text field | None \<Rightarrow>
     (case array_form base_expr offset width of Some form \<Rightarrow> form | None \<Rightarrow>
        address_form base_expr offset width))))"

text \<open>The parts of an access are parts of its base.\<close>

primrec form_size :: "access_form \<Rightarrow> nat" where
  "form_size (Text _) = 0"
| "form_size (Indexed e _) = size e"
| "form_size (Element a b) = max (size a) (size b)"

lemma form_size_case:
  "(\<And>f. x = Some f \<Longrightarrow> form_size f \<le> n) \<Longrightarrow> form_size g \<le> n \<Longrightarrow> form_size (case x of Some f \<Rightarrow> f | None \<Rightarrow> g) \<le> n"
  "form_size g \<le> n \<Longrightarrow> form_size (case y of Some s \<Rightarrow> Text s | None \<Rightarrow> g) \<le> n"
  by (simp_all split: option.split)

lemma mem_base_form_size: "mem_base_form b offset ctx = Some f \<Longrightarrow> form_size f \<le> size b"
  by (auto simp: mem_base_form_def split: option.splits if_splits expression.splits)

lemma scaled_index_size: "scaled_index width e = Some i \<Longrightarrow> size i < size e"
  by (auto simp: scaled_index_def split: expression.splits if_splits)

lemma array_form_size: "array_form b offset width = Some f \<Longrightarrow> form_size f \<le> size b"
  by (auto simp: array_form_def dest!: scaled_index_size split: option.splits if_splits expression.splits)

lemma address_form_size: "form_size (address_form b offset width) \<le> size b"
  by (auto simp: address_form_def split: expression.splits)

lemma access_form_size: "form_size (access_form_of b offset width ctx) \<le> size b"
  unfolding access_form_of_def
  by (intro form_size_case address_form_size) (erule mem_base_form_size array_form_size)+


section \<open>Formatting\<close>

text \<open>The sum of an expression and a constant below zero, and the other special forms of a binary operation.\<close>

datatype binop_form
  = Wrapped string expression
  | Stripped expression
  | Minus expression i64
  | NotZero expression
  | Infix

definition binop_form_of :: "bin_op \<Rightarrow> expression \<Rightarrow> expression \<Rightarrow> format_context \<Rightarrow> binop_form" where
  "binop_form_of opr l r ctx =
     (case (if opr = BAdd then (case r of
          Const v \<Rightarrow>
            if sint v < 0 then
              (if ctx_memory_base ctx = Some (- v) then Some (Wrapped ''wasm_ptr('' l)
               else if ctx_linear_offset ctx = Some (- v) \<and> deref_context ctx then Some (Stripped l)
               else Some (Minus l (- v)))
            else if 0 < sint v \<and> ctx_memory_base ctx = Some v then Some (Wrapped ''pvm_addr('' l)
            else None
        | _ \<Rightarrow> None) else None) of
        Some form \<Rightarrow> form
      | None \<Rightarrow>
        (case (if opr = BAdd then (case l of
             Const v \<Rightarrow> if 0 < sint v \<and> ctx_memory_base ctx = Some v then Some (Wrapped ''pvm_addr('' r) else None
           | _ \<Rightarrow> None) else None) of
           Some form \<Rightarrow> form
         | None \<Rightarrow> if opr = BLtU \<and> l = Const 0 \<and> \<not> is_boolean_expr r then NotZero r else Infix))"

primrec binop_form_size :: "binop_form \<Rightarrow> nat" where
  "binop_form_size (Wrapped _ e) = size e"
| "binop_form_size (Stripped e) = size e"
| "binop_form_size (Minus e _) = size e"
| "binop_form_size (NotZero e) = size e"
| "binop_form_size Infix = 0"

lemma binop_form_size: "binop_form_size (binop_form_of opr l r ctx) \<le> size l + size r"
  by (auto simp: binop_form_of_def split: option.splits expression.splits if_splits)

definition is_binop :: "expression \<Rightarrow> bool" where
  "is_binop e \<longleftrightarrow> (case e of BinOp _ _ _ \<Rightarrow> True | _ \<Rightarrow> False)"

fun join_comma :: "string list \<Rightarrow> string" where
  "join_comma [] = []"
| "join_comma [s] = s"
| "join_comma (s # ss) = s @ '', '' @ join_comma ss"

function (sequential) format_expression :: "expression \<Rightarrow> format_context \<Rightarrow> string"
  and format_access :: "expression \<Rightarrow> i32 \<Rightarrow> mem_width \<Rightarrow> format_context \<Rightarrow> string" where
  "format_expression (Const v) ctx = format_const v"
| "format_expression (Var name) ctx = name"
| "format_expression (Raw s) ctx = s"
| "format_expression (BinOp opr l r) ctx = (case binop_form_of opr l r ctx of
      Wrapped prefix e \<Rightarrow> prefix @ format_expression e ctx @ '')''
    | Stripped e \<Rightarrow> format_expression e ctx
    | Minus e v \<Rightarrow> parens_if (needs_parens e BSub True) (format_expression e ctx) @ '' - '' @ format_const v
    | NotZero e \<Rightarrow> parens_if (is_binop e) (format_expression e ctx) @ '' != 0''
    | Infix \<Rightarrow>
        parens_if (needs_parens l opr True) (format_expression l ctx) @ '' '' @ bin_op_display opr @ '' '' @
        parens_if (needs_parens r opr False) (format_expression r ctx))"
| "format_expression (UnaryOp opr e) ctx = unary_op_display opr @ ''('' @ format_expression e ctx @ '')''"
| "format_expression (Load width b offset) ctx = format_access b offset width ctx"
| "format_expression (Store width b offset v) ctx = format_access b offset width ctx @ '' = '' @ format_expression v ctx"
| "format_expression (Call name args) ctx = name @ ''('' @ join_comma (map (\<lambda>a. format_expression a ctx) args) @ '')''"
| "format_access b offset width ctx = (case access_form_of b offset width ctx of
      Text s \<Rightarrow> s
    | Indexed e suffix \<Rightarrow>
        mem_width_display width @ ''['' @ format_expression e (with_deref_context ctx) @ suffix @ '']''
    | Element e index \<Rightarrow> format_expression e ctx @ ''['' @ format_expression index ctx @ '']'')"
  by pat_completeness auto

lemma access_part_size:
  "access_form_of b offset width ctx = Indexed e suffix \<Longrightarrow> size e \<le> size b"
  "access_form_of b offset width ctx = Element e index \<Longrightarrow> size e \<le> size b"
  "access_form_of b offset width ctx = Element e index \<Longrightarrow> size index \<le> size b"
  using access_form_size [of b offset width ctx] by simp_all

lemma binop_part_size:
  "binop_form_of opr l r ctx = Wrapped s e \<Longrightarrow> size e \<le> size l + size r"
  "binop_form_of opr l r ctx = Stripped e \<Longrightarrow> size e \<le> size l + size r"
  "binop_form_of opr l r ctx = Minus e v \<Longrightarrow> size e \<le> size l + size r"
  "binop_form_of opr l r ctx = NotZero e \<Longrightarrow> size e \<le> size l + size r"
  using binop_form_size [of opr l r ctx] by simp_all

lemma argument_size: "x \<in> set args \<Longrightarrow> size x \<le> size_list size args"
  by (induction args) auto

termination format_expression
  by (relation "measure (\<lambda>x. case x of Inl (e, ctx) \<Rightarrow> 2 * size e | Inr (b, offset, width, ctx) \<Rightarrow> 2 * size b + 1)")
    (auto dest: access_part_size binop_part_size argument_size intro: le_imp_less_Suc)

end
