(* ===== verification/Lifted.thy ===== *)
theory Lifted
  imports Ssa Expression_Format "HOL-Library.Product_Lexorder" "HOL-Library.Char_ord"
begin

text \<open>
  Lifting of a graph to named variables and expressions (\<open>src/lifting.rs\<close>, \<open>LiftedProgram\<close>): naming of
  the definitions, names at the uses, one expression per instruction, and the passes that rewrite them.

  The hash maps that are iterated over are association lists, in any order; those that are only looked up are
  partial maps. \<open>HashMap::remove\<close> followed by \<open>insert\<close> of the same key is an update in place. A panic of
  the value graph makes \<open>analyze_with_dom_tree\<close> return \<open>None\<close>.
\<close>

section \<open>The lifted program\<close>

record lifted_program =
  variables :: "((usize \<times> u8) \<times> variable) list"
  expressions :: "(usize \<times> expression) list"
  eliminated_pcs :: "usize set"
  var_at_use :: "((usize \<times> u8) \<times> string) list"
  declared_vars :: "string set"
  stack_vars :: "((string \<times> i32) \<times> string) list"
  call_targets :: "(usize \<times> string) list"
  direct_call_sites :: "usize \<rightharpoonup> string"
  call_param_regs :: "string \<rightharpoonup> u8 list"
  var_name_to_def_pc :: "string \<rightharpoonup> usize"
  epilogue_blocks :: "usize \<rightharpoonup> epilogue_kind"
  suppressed_blocks :: "usize set"
  lifted_memory_base :: "u64 option"
  lifted_heap_alloc :: "heap_alloc_pattern option"
  hidden_labels :: "usize set"
  linear_memory_offset :: "u64 option"
  heap_alloc_data_ptr :: "string option"

definition empty_lifted :: lifted_program where
  "empty_lifted = \<lparr>variables = [], expressions = [], eliminated_pcs = {}, var_at_use = [], declared_vars = {},
     stack_vars = [], call_targets = [], direct_call_sites = Map.empty, call_param_regs = Map.empty,
     var_name_to_def_pc = Map.empty, epilogue_blocks = Map.empty, suppressed_blocks = {}, lifted_memory_base = None,
     lifted_heap_alloc = None, hidden_labels = {}, linear_memory_offset = None, heap_alloc_data_ptr = None\<rparr>"

definition lifted_format_context :: "lifted_program \<Rightarrow> format_context" where
  "lifted_format_context lp = (new_context (lifted_memory_base lp))\<lparr>ctx_linear_offset := linear_memory_offset lp\<rparr>"

definition expr_at :: "lifted_program \<Rightarrow> usize \<rightharpoonup> expression" where
  "expr_at lp = map_of (expressions lp)"

definition set_expr :: "usize \<Rightarrow> expression \<Rightarrow> lifted_program \<Rightarrow> lifted_program" where
  "set_expr pc e lp = lp\<lparr>expressions := AList.update pc e (expressions lp)\<rparr>"

definition map_exprs :: "(expression \<Rightarrow> expression) \<Rightarrow> lifted_program \<Rightarrow> lifted_program" where
  "map_exprs f lp = lp\<lparr>expressions := map (\<lambda>(pc, e). (pc, f e)) (expressions lp)\<rparr>"

definition eliminate :: "usize \<Rightarrow> lifted_program \<Rightarrow> lifted_program" where
  "eliminate pc lp = lp\<lparr>eliminated_pcs := insert pc (eliminated_pcs lp)\<rparr>"

definition variable_name :: "lifted_program \<Rightarrow> usize \<times> u8 \<Rightarrow> string option" where
  "variable_name lp key = map_option var_name (map_of (variables lp) key)"


section \<open>Naming the definitions\<close>

definition cfg_instructions :: "control_flow_graph \<Rightarrow> (usize \<times> instruction) list" where
  "cfg_instructions cfg = concat (map (\<lambda>(_, b). block_instrs b) (blocks cfg))"

definition instruction_at_pc :: "control_flow_graph \<Rightarrow> usize \<rightharpoonup> instruction" where
  "instruction_at_pc cfg = map_of (rev (cfg_instructions cfg))"

text \<open>The chains are filed under blocks of the graph.\<close>

definition chain_list :: "control_flow_graph \<Rightarrow> data_flow_analysis \<Rightarrow> def_use_chain list" where
  "chain_list cfg df = concat (map (\<lambda>(block_pc, _). case chains df block_pc of Some cs \<Rightarrow> cs | None \<Rightarrow> []) (blocks cfg))"

definition chain_key :: "def_use_chain \<Rightarrow> usize \<times> u8" where
  "chain_key c = (def_pc (chain_definition c), def_point_reg (chain_definition c))"

definition chain_uses_index :: "control_flow_graph \<Rightarrow> data_flow_analysis \<Rightarrow> usize \<times> u8 \<Rightarrow> use_point list" where
  "chain_uses_index cfg df key = concat (map chain_uses (filter (\<lambda>c. chain_key c = key) (chain_list cfg df)))"

definition is_used_as_base :: "instruction \<Rightarrow> u8 \<Rightarrow> bool" where
  "is_used_as_base instr reg = (case classify instr of
      ShLoad _ _ base _ \<Rightarrow> base = reg
    | ShStore _ base _ _ \<Rightarrow> base = reg
    | _ \<Rightarrow> False)"

definition is_pointer_use :: "(usize \<rightharpoonup> instruction) \<Rightarrow> use_point list \<Rightarrow> u8 \<Rightarrow> bool" where
  "is_pointer_use instr_at uses reg \<longleftrightarrow>
     list_ex (\<lambda>u. case instr_at (use_pc u) of Some instr \<Rightarrow> is_used_as_base instr reg | None \<Rightarrow> False) uses"

definition type_by_shape :: "instruction_shape \<Rightarrow> var_type option" where
  "type_by_shape shape = (case shape of
      ShBinReg opr _ _ _ _ \<Rightarrow> if opr = BLtU \<or> opr = BLtS then Some TBoolean else None
    | ShBinImm opr _ _ _ _ \<Rightarrow> if opr = BLtU \<or> opr = BLtS then Some TBoolean else None
    | ShUnary opr _ _ \<Rightarrow> if opr = USbrk then Some TPointer else None
    | _ \<Rightarrow> None)"

definition width_and_sign :: "instruction_shape \<Rightarrow> bit_width option \<times> bool" where
  "width_and_sign shape = (case shape of
      ShBinReg opr width _ _ _ \<Rightarrow> (Some width, opr = BDivS \<or> opr = BRemS \<or> opr = BShrS)
    | ShBinImm opr width _ _ _ \<Rightarrow> (Some width, opr = BDivS \<or> opr = BRemS \<or> opr = BShrS)
    | ShUnary opr _ _ \<Rightarrow> (None, opr = USext8 \<or> opr = USext16)
    | _ \<Rightarrow> (None, False))"

definition infer_type :: "(usize \<rightharpoonup> instruction) \<Rightarrow> (usize \<times> u8 \<Rightarrow> use_point list) \<Rightarrow> usize \<times> u8 \<Rightarrow> var_type" where
  "infer_type instr_at uses_of key = (let (pc, reg) = key; pointer = is_pointer_use instr_at (uses_of key) reg in
     case instr_at pc of
       Some instr \<Rightarrow>
        (case type_by_shape (classify instr) of
           Some ty \<Rightarrow> ty
         | None \<Rightarrow>
            let (width, signed) = width_and_sign (classify instr) in
            if pointer then TPointer
            else if width = Some W32 then (if signed then TI32 else TU32)
            else if signed then TI64 else TU64)
     | None \<Rightarrow> if pointer then TPointer else TU64)"

text \<open>All definitions, block by block in increasing order.\<close>

definition definition_order :: "control_flow_graph \<Rightarrow> data_flow_analysis \<Rightarrow> (usize \<times> u8) list" where
  "definition_order cfg df = concat (map (\<lambda>block_pc. concat (map (\<lambda>(pc, _).
     case defs_at_pc df pc of Some defs \<Rightarrow> map (Pair pc) defs | None \<Rightarrow> []) (block_code cfg block_pc))) (sorted_blocks cfg))"

record name_counters =
  var_counter :: nat
  ptr_counter :: nat
  cond_counter :: nat

definition fresh_name :: "var_type \<Rightarrow> name_counters \<Rightarrow> string \<times> name_counters" where
  "fresh_name ty c = (case ty of
      TPointer \<Rightarrow> (''ptr_'' @ show_nat (ptr_counter c), c\<lparr>ptr_counter := ptr_counter c + 1\<rparr>)
    | TBoolean \<Rightarrow> (''cond_'' @ show_nat (cond_counter c), c\<lparr>cond_counter := cond_counter c + 1\<rparr>)
    | _ \<Rightarrow> (''var_'' @ show_nat (var_counter c), c\<lparr>var_counter := var_counter c + 1\<rparr>))"

definition assign_name ::
  "(usize \<times> u8 \<Rightarrow> var_type) \<Rightarrow> usize \<times> u8 \<Rightarrow> name_counters \<times> lifted_program \<Rightarrow> name_counters \<times> lifted_program" where
  "assign_name ty_of key acc = (let (c, lp) = acc; (name, c) = fresh_name (ty_of key) c in
     (c, lp\<lparr>var_name_to_def_pc := (var_name_to_def_pc lp)(name \<mapsto> fst key),
            variables := AList.update key \<lparr>var_name = name, var_type = ty_of key\<rparr> (variables lp)\<rparr>))"

text \<open>The name at a use is that of the smallest position whose chain lists it.\<close>

definition bind_use ::
  "string \<Rightarrow> usize \<Rightarrow> use_point \<Rightarrow> ((usize \<times> u8) \<times> string) list \<times> (usize \<times> u8 \<rightharpoonup> usize) \<Rightarrow>
   ((usize \<times> u8) \<times> string) list \<times> (usize \<times> u8 \<rightharpoonup> usize)" where
  "bind_use name dpc u acc = (let (at_use, first_def) = acc; key = (use_pc u, use_point_reg u) in
     if (case first_def key of None \<Rightarrow> True | Some prev \<Rightarrow> dpc < prev)
     then (AList.update key name at_use, first_def(key \<mapsto> dpc)) else (at_use, first_def))"

definition bind_chain ::
  "lifted_program \<Rightarrow> def_use_chain \<Rightarrow> ((usize \<times> u8) \<times> string) list \<times> (usize \<times> u8 \<rightharpoonup> usize) \<Rightarrow>
   ((usize \<times> u8) \<times> string) list \<times> (usize \<times> u8 \<rightharpoonup> usize)" where
  "bind_chain lp c acc = (case variable_name lp (chain_key c) of
      None \<Rightarrow> acc
    | Some name \<Rightarrow> fold (bind_use name (def_pc (chain_definition c))) (chain_uses c) acc)"

definition assign_variables :: "control_flow_graph \<Rightarrow> data_flow_analysis \<Rightarrow> lifted_program \<Rightarrow> lifted_program" where
  "assign_variables cfg df lp =
     (let ty_of = infer_type (instruction_at_pc cfg) (chain_uses_index cfg df);
          lp = snd (fold (assign_name ty_of) (definition_order cfg df)
                 (\<lparr>var_counter = 0, ptr_counter = 0, cond_counter = 0\<rparr>, lp))
      in lp\<lparr>var_at_use := fst (fold (bind_chain lp) (chain_list cfg df) (var_at_use lp, Map.empty))\<rparr>)"


section \<open>Names from the value graph\<close>

fun unique_name :: "lifted_program \<Rightarrow> ssa_program \<Rightarrow> ssa_value_id list \<Rightarrow> string option \<Rightarrow> string option" where
  "unique_name lp ssa [] acc = acc"
| "unique_name lp ssa (v # vs) acc = (case value_kind ssa v of
      Some (SsaInstr pc reg _) \<Rightarrow>
        (case variable_name lp (pc, reg) of
           None \<Rightarrow> None
         | Some name \<Rightarrow> (case acc of
              Some existing \<Rightarrow> if existing \<noteq> name then None else unique_name lp ssa vs acc
            | None \<Rightarrow> unique_name lp ssa vs (Some name)))
    | _ \<Rightarrow> None)"

definition resolve_phi_to_single_name :: "lifted_program \<Rightarrow> ssa_program \<Rightarrow> ssa_value_id \<Rightarrow> string option" where
  "resolve_phi_to_single_name lp ssa phi = (case value_operands ssa phi of
      None \<Rightarrow> None
    | Some vs \<Rightarrow> if vs = [] then None else unique_name lp ssa vs None)"

definition use_name :: "lifted_program \<Rightarrow> ssa_program \<Rightarrow> ssa_value_id \<Rightarrow> string option" where
  "use_name lp ssa v = (case value_kind ssa v of
      Some (SsaInstr pc reg _) \<Rightarrow> variable_name lp (pc, reg)
    | Some (SsaPhi _ _) \<Rightarrow> resolve_phi_to_single_name lp ssa v
    | _ \<Rightarrow> None)"

text \<open>The use mappings are a hash map; its keys are register uses of the graph, taken here in the order of
  the instructions.\<close>

definition use_keys :: "control_flow_graph \<Rightarrow> (usize \<times> u8) list" where
  "use_keys cfg = concat (map (\<lambda>(pc, i). map (Pair pc) (instr_uses i)) (cfg_instructions cfg))"

definition lower_use :: "ssa_program \<Rightarrow> usize \<times> u8 \<Rightarrow> lifted_program \<Rightarrow> lifted_program" where
  "lower_use ssa key lp = (case use_value_by_pc_reg ssa key of
      None \<Rightarrow> lp
    | Some v \<Rightarrow> (case use_name lp ssa v of
        None \<Rightarrow> lp
      | Some name \<Rightarrow> lp\<lparr>var_at_use := AList.update key name (var_at_use lp)\<rparr>))"

definition lower_ssa_to_lifted_uses :: "control_flow_graph \<Rightarrow> ssa_program \<Rightarrow> lifted_program \<Rightarrow> lifted_program" where
  "lower_ssa_to_lifted_uses cfg ssa lp = fold (lower_use ssa) (use_keys cfg) lp"

definition coalesce_variable :: "string \<Rightarrow> string \<Rightarrow> lifted_program \<Rightarrow> lifted_program" where
  "coalesce_variable old_name new_name lp =
     (if old_name = new_name then lp
      else let lp = lp\<lparr>
          variables := map (\<lambda>(k, v). (k, if var_name v = old_name then v\<lparr>var_name := new_name\<rparr> else v)) (variables lp),
          var_at_use := map (\<lambda>(k, n). (k, if n = old_name then new_name else n)) (var_at_use lp),
          expressions := map (\<lambda>(pc, e). (pc, rename_var_in_expression e old_name new_name)) (expressions lp),
          declared_vars := (if old_name \<in> declared_vars lp then insert new_name (declared_vars lp - {old_name}) else declared_vars lp)\<rparr>
        in case var_name_to_def_pc lp old_name of
             None \<Rightarrow> lp
           | Some dpc \<Rightarrow> let index = (var_name_to_def_pc lp)(old_name := None) in
               lp\<lparr>var_name_to_def_pc := (case index new_name of None \<Rightarrow> index(new_name \<mapsto> dpc) | Some _ \<Rightarrow> index)\<rparr>)"


section \<open>Expressions of instructions\<close>

definition R8_CAPTURE_SLOT_OFFSET :: i32 where
  "R8_CAPTURE_SLOT_OFFSET = - 0x108"

definition is_r8_capture_store :: "instruction \<Rightarrow> bool" where
  "is_r8_capture_store instr = (classify instr = ShStore U64 1 8 R8_CAPTURE_SLOT_OFFSET)"

definition host_function_names :: "(u32 \<times> string) list" where
  "host_function_names =
     [(0, ''gas_remaining''), (1, ''fetch''), (2, ''lookup''), (3, ''read''), (4, ''write''), (5, ''info''),
      (6, ''historical_lookup''), (7, ''export''), (8, ''machine''), (9, ''peek''), (10, ''poke''), (11, ''pages''),
      (12, ''invoke''), (13, ''expunge''), (14, ''bless''), (15, ''assign''), (16, ''designate''), (17, ''checkpoint''),
      (18, ''new_service''), (19, ''upgrade''), (20, ''transfer''), (21, ''eject''), (22, ''query''), (23, ''solicit''),
      (24, ''forget''), (25, ''yield_''), (26, ''provide''), (100, ''log'')]"

definition ecalli_name :: "u32 \<Rightarrow> string" where
  "ecalli_name index = (case map_of host_function_names index of
      Some name \<Rightarrow> name
    | None \<Rightarrow> ''ecalli('' @ show_nat (unat index) @ '')'')"

definition reg_name :: "lifted_program \<Rightarrow> usize \<Rightarrow> u8 \<Rightarrow> string" where
  "reg_name lp upc reg = (case map_of (var_at_use lp) (upc, reg) of Some name \<Rightarrow> name | None \<Rightarrow> show_reg reg)"

definition var_name_for_def :: "lifted_program \<Rightarrow> usize \<Rightarrow> u8 \<Rightarrow> string" where
  "var_name_for_def lp pc reg = (case variable_name lp (pc, reg) of Some name \<Rightarrow> name | None \<Rightarrow> show_reg reg)"

definition expression_for_var :: "lifted_program \<Rightarrow> string \<Rightarrow> expression option" where
  "expression_for_var lp name = (case var_name_to_def_pc lp name of None \<Rightarrow> None | Some dpc \<Rightarrow> expr_at lp dpc)"

text \<open>The constant that a register is known to hold at a use.\<close>

definition const_at_use :: "lifted_program \<Rightarrow> usize \<Rightarrow> u8 \<Rightarrow> i64 option" where
  "const_at_use lp upc reg = (case map_of (var_at_use lp) (upc, reg) of
      None \<Rightarrow> None
    | Some name \<Rightarrow> (case expression_for_var lp name of Some (Const v) \<Rightarrow> Some v | _ \<Rightarrow> None))"

definition resolve_indirect_call :: "lifted_program \<Rightarrow> usize \<Rightarrow> u8 \<Rightarrow> string option" where
  "resolve_indirect_call lp upc reg =
     (if call_targets lp = [] then None
      else case const_at_use lp upc reg of Some v \<Rightarrow> map_of (call_targets lp) (unat v) | None \<Rightarrow> None)"

definition is_halt_target :: "lifted_program \<Rightarrow> usize \<Rightarrow> u8 \<Rightarrow> bool" where
  "is_halt_target lp upc reg \<longleftrightarrow> const_at_use lp upc reg = Some (- 0x10000)"

definition reg_var :: "lifted_program \<Rightarrow> usize \<Rightarrow> u8 \<Rightarrow> expression" where
  "reg_var lp pc reg = Var (reg_name lp pc reg)"

definition make_binop :: "lifted_program \<Rightarrow> usize \<Rightarrow> bin_op \<Rightarrow> u8 \<Rightarrow> u8 \<Rightarrow> expression" where
  "make_binop lp pc opr src1 src2 = BinOp opr (reg_var lp pc src1) (reg_var lp pc src2)"

definition make_binop_imm :: "lifted_program \<Rightarrow> usize \<Rightarrow> bin_op \<Rightarrow> u8 \<Rightarrow> i64 \<Rightarrow> expression" where
  "make_binop_imm lp pc opr src v = BinOp opr (reg_var lp pc src) (Const v)"

definition make_binop_imm_rev :: "lifted_program \<Rightarrow> usize \<Rightarrow> bin_op \<Rightarrow> u8 \<Rightarrow> i64 \<Rightarrow> expression" where
  "make_binop_imm_rev lp pc opr src v = BinOp opr (Const v) (reg_var lp pc src)"

definition make_unary :: "lifted_program \<Rightarrow> usize \<Rightarrow> unary_op \<Rightarrow> u8 \<Rightarrow> expression" where
  "make_unary lp pc opr src = UnaryOp opr (reg_var lp pc src)"

definition make_load :: "lifted_program \<Rightarrow> usize \<Rightarrow> mem_width \<Rightarrow> u8 \<Rightarrow> i32 \<Rightarrow> expression" where
  "make_load lp pc width base offset = Load width (reg_var lp pc base) offset"

definition make_store :: "lifted_program \<Rightarrow> usize \<Rightarrow> mem_width \<Rightarrow> u8 \<Rightarrow> i32 \<Rightarrow> u8 \<Rightarrow> expression" where
  "make_store lp pc width base offset src = Store width (reg_var lp pc base) offset (reg_var lp pc src)"

definition make_load_absolute :: "mem_width \<Rightarrow> i32 \<Rightarrow> expression" where
  "make_load_absolute width addr = Load width (Const 0) addr"

definition make_store_absolute :: "lifted_program \<Rightarrow> usize \<Rightarrow> mem_width \<Rightarrow> i32 \<Rightarrow> u8 \<Rightarrow> expression" where
  "make_store_absolute lp pc width addr src = Store width (Const 0) addr (reg_var lp pc src)"

definition instruction_to_expression :: "lifted_program \<Rightarrow> usize \<Rightarrow> instruction \<Rightarrow> expression" where
  "instruction_to_expression lp pc instr = (case classify instr of
      ShLoadImm _ v \<Rightarrow> Const v
    | ShBinReg opr _ _ src1 src2 \<Rightarrow> make_binop lp pc opr src1 src2
    | ShBinImm opr _ _ src v \<Rightarrow> make_binop_imm lp pc opr src (scast v)
    | ShUnary opr _ src \<Rightarrow> make_unary lp pc opr src
    | ShLoad width _ base offset \<Rightarrow>
        if base = 1 \<and> offset = R8_CAPTURE_SLOT_OFFSET \<and> width = U64 then Call ''host_call_r8'' []
        else make_load lp pc width base offset
    | ShStore width base src offset \<Rightarrow> make_store lp pc width base offset src
    | ShEcalli index \<Rightarrow> Call (ecalli_name index) []
    | ShNoOp name \<Rightarrow> Raw (if name = ''trap'' then ''return'' else name)
    | ShJump offset \<Rightarrow> Raw (''jump '' @ show_i32 offset)
    | ShJumpInd reg \<Rightarrow>
        if is_halt_target lp pc reg then Raw ''halt()'' else Raw (''call_indirect('' @ reg_name lp pc reg @ '')'')
    | ShBranchImm cnd reg v offset \<Rightarrow>
        Raw (''if ('' @ reg_name lp pc reg @ '' '' @ cnd @ '' '' @ show_i32 v @ '') jump '' @ show_i32 offset)
    | ShBranchReg cnd reg1 reg2 offset \<Rightarrow>
        Raw (''if ('' @ reg_name lp pc reg1 @ '' '' @ cnd @ '' '' @ reg_name lp pc reg2 @ '') jump '' @ show_i32 offset)
    | ShBinImmRev opr _ _ src v \<Rightarrow> make_binop_imm_rev lp pc opr src (scast v)
    | ShCmovReg is_zero dst src cnd \<Rightarrow>
        Raw (''if ('' @ reg_name lp pc cnd @ '' '' @ zero_test is_zero @ '') '' @ var_name_for_def lp pc dst @ '' = '' @ reg_name lp pc src)
    | ShCmovImm is_zero dst cnd v \<Rightarrow>
        Raw (''if ('' @ reg_name lp pc cnd @ '' '' @ zero_test is_zero @ '') '' @ var_name_for_def lp pc dst @ '' = '' @ show_i32 v)
    | ShLoadImmJump dst v _ \<Rightarrow> Raw (var_name_for_def lp pc dst @ '' = '' @ show_i32 v)
    | ShLoadImmJumpInd base dst v \<Rightarrow>
        Raw (var_name_for_def lp pc dst @ '' = '' @ show_i32 v @ ''; jump_ind '' @ reg_name lp pc base)
    | ShLoadAbsolute width _ addr \<Rightarrow> make_load_absolute width addr
    | ShStoreAbsolute width src addr \<Rightarrow> make_store_absolute lp pc width addr src
    | ShStoreImm width addr v \<Rightarrow>
        Raw (mem_width_display width @ ''['' @ show_hex (unat addr) @ ''] = '' @ show_i32 v)
    | ShStoreImmInd width base offset v \<Rightarrow>
        Raw (mem_width_display width @ ''['' @ reg_name lp pc base @ '' + '' @ format_const (scast offset) @ ''] = '' @ show_i32 v)
    | ShUnknown opcode \<Rightarrow> Raw (''/* unknown opcode '' @ show_opcode opcode @ '' */''))"

definition is_ecalli :: "instruction \<Rightarrow> bool" where
  "is_ecalli instr = (case classify instr of ShEcalli _ \<Rightarrow> True | _ \<Rightarrow> False)"

text \<open>The second argument is the instruction before, if any.\<close>

fun build_block :: "(usize \<times> instruction) list \<Rightarrow> instruction option \<Rightarrow> lifted_program \<Rightarrow> lifted_program" where
  "build_block [] prev lp = lp"
| "build_block ((pc, instr) # rest) prev lp =
     (let lp = set_expr pc (instruction_to_expression lp pc instr) lp;
          lp = (if is_r8_capture_store instr \<and> (case prev of Some p \<Rightarrow> is_ecalli p | None \<Rightarrow> False) then eliminate pc lp else lp)
      in build_block rest (Some instr) lp)"

definition build_expressions :: "control_flow_graph \<Rightarrow> lifted_program \<Rightarrow> lifted_program" where
  "build_expressions cfg lp = fold (\<lambda>block_pc. build_block (block_code cfg block_pc) None) (sorted_blocks cfg) lp"

end
