(* ===== verification/Lifted_Passes.thy ===== *)
theory Lifted_Passes
  imports Lifted
begin

text \<open>
  The passes that rewrite the lifted expressions (\<open>src/lifting.rs\<close>): constants, folding within a block and
  across blocks, copies, forwarding of stores to loads, dead stores, stack variables, and the pipeline
  \<open>analyze_with_dom_tree\<close> that runs them. The loops that repeat until nothing changes are functions with a
  termination proof: every round uses up a definition.
\<close>

section \<open>Constants\<close>

definition name_use_count :: "lifted_program \<Rightarrow> string \<Rightarrow> nat" where
  "name_use_count lp name = length (filter (\<lambda>(_, n). n = name) (var_at_use lp))"

definition single_use_constants :: "lifted_program \<Rightarrow> ((usize \<times> u8) \<times> i64) list" where
  "single_use_constants lp = concat (map (\<lambda>(key, v). case expr_at lp (fst key) of
      Some (Const c) \<Rightarrow> if name_use_count lp (var_name v) = 1 then [(key, c)] else []
    | _ \<Rightarrow> []) (variables lp))"

definition propagate_constant :: "(usize \<times> u8) \<times> i64 \<Rightarrow> lifted_program \<Rightarrow> lifted_program" where
  "propagate_constant d lp = (let (key, c) = d in
     case variable_name lp key of
       None \<Rightarrow> lp
     | Some name \<Rightarrow> eliminate (fst key) (map_exprs (\<lambda>e. substitute_var e name (Const c)) lp))"

definition propagate_constants :: "lifted_program \<Rightarrow> lifted_program" where
  "propagate_constants lp = fold propagate_constant (single_use_constants lp) lp"

definition simplify_all_expressions :: "lifted_program \<Rightarrow> lifted_program" where
  "simplify_all_expressions lp = map_exprs simplify_expression lp"


section \<open>Folding\<close>

text \<open>The index of uses: the positions whose expression names a variable, and those whose expression is raw
  text or missing and whose registers are bound to it.\<close>

definition needs_var_at_use :: "lifted_program \<Rightarrow> usize \<Rightarrow> bool" where
  "needs_var_at_use lp upc = (case expr_at lp upc of None \<Rightarrow> True | Some (Raw _) \<Rightarrow> True | _ \<Rightarrow> False)"

definition build_var_use_index :: "lifted_program \<Rightarrow> string \<Rightarrow> usize set" where
  "build_var_use_index lp name =
     set (map fst (filter (\<lambda>(pc, e). pc \<notin> eliminated_pcs lp \<and> name \<in> collect_var_names e) (expressions lp))) \<union>
     set (map (fst \<circ> fst) (filter (\<lambda>((upc, _), n). upc \<notin> eliminated_pcs lp \<and> n = name \<and> needs_var_at_use lp upc) (var_at_use lp)))"

fun later_pcs :: "(usize \<times> instruction) list \<Rightarrow> (usize \<rightharpoonup> usize list) \<Rightarrow> (usize \<rightharpoonup> usize list)" where
  "later_pcs [] m = m"
| "later_pcs ((pc, _) # rest) m = later_pcs rest (m(pc \<mapsto> map fst rest))"

definition same_block_pcs :: "control_flow_graph \<Rightarrow> usize \<rightharpoonup> usize list" where
  "same_block_pcs cfg = fold (\<lambda>(_, b). later_pcs (block_instrs b)) (blocks cfg) Map.empty"

definition is_raw_or_store :: "expression \<Rightarrow> bool" where
  "is_raw_or_store e = (case e of Raw _ \<Rightarrow> True | Store _ _ _ _ \<Rightarrow> True | _ \<Rightarrow> False)"

definition fold_candidate ::
  "(usize \<rightharpoonup> usize list) \<Rightarrow> lifted_program \<Rightarrow> (usize \<times> u8) \<times> variable \<Rightarrow> (usize \<times> string \<times> usize) list" where
  "fold_candidate later_of lp d = (let dpc = fst (fst d); name = var_name (snd d) in
     if dpc \<in> eliminated_pcs lp then []
     else case later_of dpc of
       None \<Rightarrow> []
     | Some pcs \<Rightarrow> (case expr_at lp dpc of
         None \<Rightarrow> []
       | Some def_expr \<Rightarrow>
          if is_raw_or_store def_expr then []
          else let use_pcs = build_var_use_index lp name in
            if card (use_pcs - {dpc}) \<noteq> 1 then []
            else case List.find (\<lambda>pc. pc \<in> use_pcs) pcs of
              None \<Rightarrow> []
            | Some upc \<Rightarrow> if expression_depth def_expr \<ge> 3 then [] else [(dpc, name, upc)]))"

definition fold_candidates :: "control_flow_graph \<Rightarrow> lifted_program \<Rightarrow> (usize \<times> string \<times> usize) list" where
  "fold_candidates cfg lp = sort_key fst (concat (map (fold_candidate (same_block_pcs cfg) lp) (variables lp)))"

definition apply_fold :: "usize \<times> string \<times> usize \<Rightarrow> lifted_program \<times> bool \<Rightarrow> lifted_program \<times> bool" where
  "apply_fold cand acc = (let (dpc, name, upc) = cand; (lp, changed) = acc in
     case expr_at lp dpc of
       None \<Rightarrow> (lp, changed)
     | Some def_expr \<Rightarrow> (case expr_at lp upc of
         None \<Rightarrow> (lp, changed)
       | Some use_expr \<Rightarrow> (eliminate dpc (set_expr upc (substitute_var use_expr name def_expr) lp), True)))"

text \<open>What is left to fold: the positions of variables that are not eliminated.\<close>

definition unfolded :: "lifted_program \<Rightarrow> usize set" where
  "unfolded lp = fst ` fst ` set (variables lp) - eliminated_pcs lp"

lemma unfolded_finite [simp]: "finite (unfolded lp)"
  by (simp add: unfolded_def)

lemma lp_update_simps [simp]:
  "variables (set_expr pc e lp) = variables lp" "eliminated_pcs (set_expr pc e lp) = eliminated_pcs lp"
  "variables (eliminate pc lp) = variables lp" "eliminated_pcs (eliminate pc lp) = insert pc (eliminated_pcs lp)"
  "variables (map_exprs f lp) = variables lp" "eliminated_pcs (map_exprs f lp) = eliminated_pcs lp"
  "var_at_use (set_expr pc e lp) = var_at_use lp" "var_at_use (eliminate pc lp) = var_at_use lp"
  "var_at_use (map_exprs f lp) = var_at_use lp"
  "var_name_to_def_pc (set_expr pc e lp) = var_name_to_def_pc lp" "var_name_to_def_pc (eliminate pc lp) = var_name_to_def_pc lp"
  "var_name_to_def_pc (map_exprs f lp) = var_name_to_def_pc lp"
  "expr_at (eliminate pc lp) = expr_at lp" "expr_at (set_expr pc e lp) = (expr_at lp)(pc \<mapsto> e)"
  by (simp_all add: set_expr_def eliminate_def map_exprs_def expr_at_def update_conv')

lemma expr_at_map [simp]: "expr_at (map_exprs f lp) pc = map_option f (expr_at lp pc)"
  by (simp add: expr_at_def map_exprs_def map_of_map)

lemma apply_fold_step:
  "variables (fst (apply_fold c acc)) = variables (fst acc)"
  "eliminated_pcs (fst acc) \<subseteq> eliminated_pcs (fst (apply_fold c acc))"
  "snd (apply_fold c acc) \<Longrightarrow> \<not> snd acc \<Longrightarrow> fst c \<in> eliminated_pcs (fst (apply_fold c acc))"
  "snd acc \<Longrightarrow> snd (apply_fold c acc)"
  by (cases c; cases acc; auto simp: apply_fold_def split: option.split)+

lemma fold_apply:
  "variables (fst (fold apply_fold cs acc)) = variables (fst acc) \<and>
   eliminated_pcs (fst acc) \<subseteq> eliminated_pcs (fst (fold apply_fold cs acc)) \<and>
   (snd (fold apply_fold cs acc) \<longrightarrow> snd acc \<or> (\<exists>c \<in> set cs. fst c \<in> eliminated_pcs (fst (fold apply_fold cs acc))))"
proof (induction cs arbitrary: acc)
  case (Cons c cs)
  note step = apply_fold_step [where c = c and acc = acc] and IH = Cons.IH [of "apply_fold c acc"]
  let ?after = "fold apply_fold cs (apply_fold c acc)"
  have "snd acc \<or> (\<exists>c' \<in> set (c # cs). fst c' \<in> eliminated_pcs (fst ?after))" if "snd ?after"
  proof (cases "snd acc \<or> \<not> snd (apply_fold c acc)")
    case True
    then show ?thesis using IH that by (auto simp only: set_simps)
  next
    case False
    then have "fst c \<in> eliminated_pcs (fst ?after)" using IH step(3) by blast
    then show ?thesis by simp
  qed
  then show ?case using IH step(1,2) by auto
qed simp

lemma fold_round_decreases:
  assumes "fold apply_fold cs (lp, False) = (lp', True)" "\<forall>c \<in> set cs. fst c \<in> unfolded lp"
  shows "card (unfolded lp') < card (unfolded lp)"
proof -
  have eq: "variables lp' = variables lp" "eliminated_pcs lp \<subseteq> eliminated_pcs lp'" "\<exists>c \<in> set cs. fst c \<in> eliminated_pcs lp'"
    using fold_apply [of cs "(lp, False)"] assms(1) by simp_all
  then have "unfolded lp' \<subset> unfolded lp" using assms(2) by (auto simp: unfolded_def)
  then show ?thesis by (simp add: psubset_card_mono)
qed

lemma fold_candidate_unfolded:
  "d \<in> set (variables lp) \<Longrightarrow> c \<in> set (fold_candidate later_of lp d) \<Longrightarrow> fst c \<in> unfolded lp"
  by (force simp: fold_candidate_def unfolded_def Let_def split: if_splits option.splits)

text \<open>The \<open>while changed\<close> loop of \<open>fold_expressions\<close>.\<close>

function fold_loop :: "control_flow_graph \<Rightarrow> lifted_program \<Rightarrow> lifted_program" where
  "fold_loop cfg lp =
     (let (lp', changed) = fold apply_fold (fold_candidates cfg lp) (lp, False)
      in if changed then fold_loop cfg lp' else lp')"
  by pat_completeness auto

termination fold_loop
proof (relation "measure (\<lambda>(cfg, lp). card (unfolded lp))", goal_cases)
  case (2 cfg lp x lp' changed)
  have "\<forall>c \<in> set (fold_candidates cfg lp). fst c \<in> unfolded lp"
    using fold_candidate_unfolded by (auto simp: fold_candidates_def)
  then show ?case using fold_round_decreases [of "fold_candidates cfg lp" lp lp'] 2 by simp
qed simp

declare fold_loop.simps [simp del]

definition fold_expressions :: "control_flow_graph \<Rightarrow> lifted_program \<Rightarrow> lifted_program" where
  "fold_expressions cfg lp = fold_loop cfg lp"


section \<open>Folding across blocks\<close>

definition detect_loop_headers :: "control_flow_graph \<Rightarrow> dominator_tree \<Rightarrow> usize set" where
  "detect_loop_headers cfg t =
     set (concat (map (\<lambda>(_, b). filter (\<lambda>succ. dominates t succ (start_pc b)) (successors b)) (blocks cfg)))"

text \<open>The bodies are only searched, so the order of the headers does not matter.\<close>

definition collect_loop_bodies :: "control_flow_graph \<Rightarrow> dominator_tree \<Rightarrow> usize set \<Rightarrow> (usize \<times> usize set) list" where
  "collect_loop_bodies cfg t headers = map (\<lambda>header.
     (header, body_loop cfg (rev (filter (dominates t header) (cfg_preds cfg header))) {header})) (sorted_list_of_set headers)"

definition is_loop_carried :: "(usize \<times> usize set) list \<Rightarrow> usize \<Rightarrow> usize \<Rightarrow> bool" where
  "is_loop_carried bodies def_block use_block = list_ex (\<lambda>(header, body). def_block \<in> body \<and> header = use_block) bodies"

definition cross_candidate ::
  "(usize \<rightharpoonup> usize) \<Rightarrow> (usize \<times> usize set) list \<Rightarrow> dominator_tree \<Rightarrow> ssa_program \<Rightarrow> lifted_program \<Rightarrow>
   (usize \<times> u8) \<times> variable \<Rightarrow> (usize \<times> string \<times> usize) list" where
  "cross_candidate block_of bodies t ssa lp d = (let (dpc, reg) = fst d in
     if dpc \<in> eliminated_pcs lp then []
     else case expr_at lp dpc of
       None \<Rightarrow> []
     | Some def_expr \<Rightarrow>
        if has_side_effects def_expr \<or> expression_depth def_expr \<ge> 2 then []
        else case value_for_def_pc_reg ssa dpc reg of
          None \<Rightarrow> []
        | Some v \<Rightarrow>
           if use_count ssa v \<noteq> 1 then []
           else case single_instruction_use_pc ssa v of
             None \<Rightarrow> []
           | Some upc \<Rightarrow>
              if upc = dpc \<or> upc \<in> eliminated_pcs lp then []
              else case (block_of dpc, block_of upc) of
                (Some def_block, Some use_block) \<Rightarrow>
                  if def_block = use_block \<or> \<not> value_definition_dominates_use_pc ssa v upc t
                     \<or> is_loop_carried bodies def_block use_block then []
                  else [(dpc, var_name (snd d), upc)]
              | _ \<Rightarrow> [])"

definition cross_candidates ::
  "control_flow_graph \<Rightarrow> dominator_tree \<Rightarrow> ssa_program \<Rightarrow> lifted_program \<Rightarrow> (usize \<times> string \<times> usize) list" where
  "cross_candidates cfg t ssa lp =
     (let bodies = collect_loop_bodies cfg t (detect_loop_headers cfg t)
      in sort_key fst (concat (map (cross_candidate (block_of_pc cfg) bodies t ssa lp) (variables lp))))"

lemma cross_candidate_unfolded:
  assumes "d \<in> set (variables lp)" "c \<in> set (cross_candidate block_of bodies t ssa lp d)"
  shows "fst c \<in> unfolded lp"
proof -
  obtain dpc reg v where d: "d = ((dpc, reg), v)" by (metis prod.collapse)
  have "fst c = dpc" "dpc \<notin> eliminated_pcs lp"
    using assms(2) by (auto simp: cross_candidate_def d Let_def split: if_splits option.splits)
  then show ?thesis using assms(1) by (force simp: unfolded_def d)
qed

function cross_loop :: "control_flow_graph \<Rightarrow> dominator_tree \<Rightarrow> ssa_program \<Rightarrow> lifted_program \<Rightarrow> lifted_program" where
  "cross_loop cfg t ssa lp =
     (let (lp', changed) = fold apply_fold (cross_candidates cfg t ssa lp) (lp, False)
      in if changed then cross_loop cfg t ssa lp' else lp')"
  by pat_completeness auto

termination cross_loop
proof (relation "measure (\<lambda>(cfg, t, ssa, lp). card (unfolded lp))", goal_cases)
  case (2 cfg t ssa lp x lp' changed)
  have "\<forall>c \<in> set (cross_candidates cfg t ssa lp). fst c \<in> unfolded lp"
    using cross_candidate_unfolded by (auto simp: cross_candidates_def Let_def)
  then show ?case using fold_round_decreases [of "cross_candidates cfg t ssa lp" lp lp'] 2 by simp
qed simp

declare cross_loop.simps [simp del]

definition fold_expressions_cross_block ::
  "control_flow_graph \<Rightarrow> dominator_tree \<Rightarrow> ssa_program \<Rightarrow> lifted_program \<Rightarrow> lifted_program" where
  "fold_expressions_cross_block cfg t ssa lp = (if length (blocks cfg) \<le> 1 then lp else cross_loop cfg t ssa lp)"


section \<open>Copies\<close>

definition copy_definitions :: "usize set \<Rightarrow> lifted_program \<Rightarrow> (usize \<times> string \<times> string) list" where
  "copy_definitions processed lp = concat (map (\<lambda>((dpc, _), v).
     if dpc \<in> processed then []
     else case expr_at lp dpc of
       Some (Var source) \<Rightarrow> if var_name v \<noteq> source then [(dpc, var_name v, source)] else []
     | _ \<Rightarrow> []) (variables lp))"

definition rename_entries :: "(usize \<times> string \<times> string) list \<Rightarrow> (string \<times> string) list" where
  "rename_entries cs = fold (\<lambda>(_, name, source). AList.update name source) cs []"

text \<open>Following a chain of copies until its end or until it would come back.\<close>

function chase :: "(string \<times> string) list \<Rightarrow> string set \<Rightarrow> string \<Rightarrow> string" where
  "chase m seen target = (case map_of m target of
      None \<Rightarrow> target
    | Some source \<Rightarrow> if source \<in> seen then target else chase m (insert target seen) source)"
  by pat_completeness auto

termination chase
proof (relation "measures [\<lambda>(m, seen, target). card (fst ` set m - seen), \<lambda>(m, seen, target). of_bool (target \<in> seen)]", goal_cases)
  case (2 m seen target source)
  have key: "target \<in> fst ` set m" using 2(1) by (metis domIff dom_map_of_conv_image_fst option.distinct(1))
  show ?case
  proof (cases "target \<in> seen")
    case True
    then show ?thesis using 2(2) by (simp add: insert_absorb)
  next
    case False
    then have "fst ` set m - insert target seen \<subset> fst ` set m - seen" using key by blast
    then show ?thesis by (simp add: psubset_card_mono)
  qed
qed simp

declare chase.simps [simp del]

definition resolve_key :: "string \<Rightarrow> (string \<times> string) list \<Rightarrow> (string \<times> string) list" where
  "resolve_key key m = (case map_of m key of None \<Rightarrow> m | Some source \<Rightarrow> AList.update key (chase m {key} source) m)"

definition resolve_chains :: "(string \<times> string) list \<Rightarrow> (string \<times> string) list" where
  "resolve_chains m = fold resolve_key (map fst m) m"

definition rename_all :: "(string \<rightharpoonup> string) \<Rightarrow> lifted_program \<Rightarrow> lifted_program" where
  "rename_all m lp = (map_exprs (\<lambda>e. rename_vars_multi e m) lp)
     \<lparr>var_at_use := map (\<lambda>(k, n). (k, case m n of Some n' \<Rightarrow> n' | None \<Rightarrow> n)) (var_at_use lp)\<rparr>"

lemma rename_all_simps [simp]:
  "variables (rename_all m lp) = variables lp" "eliminated_pcs (rename_all m lp) = eliminated_pcs lp"
  "expr_at (rename_all m lp) pc = map_option (\<lambda>e. rename_vars_multi e m) (expr_at lp pc)"
  "var_name_to_def_pc (rename_all m lp) = var_name_to_def_pc lp"
  by (simp_all add: rename_all_def expr_at_def map_exprs_def map_of_map)

lemma fold_eliminate [simp]:
  "variables (fold eliminate pcs lp) = variables lp" "expr_at (fold eliminate pcs lp) = expr_at lp"
  "eliminated_pcs (fold eliminate pcs lp) = set pcs \<union> eliminated_pcs lp"
  "var_name_to_def_pc (fold eliminate pcs lp) = var_name_to_def_pc lp"
  by (induction pcs arbitrary: lp) auto

function copy_loop :: "usize set \<Rightarrow> lifted_program \<Rightarrow> lifted_program" where
  "copy_loop processed lp = (let cs = copy_definitions processed lp in
     if cs = [] then lp
     else copy_loop (processed \<union> set (map fst cs))
       (fold eliminate (map fst cs) (rename_all (map_of (resolve_chains (rename_entries cs))) lp)))"
  by pat_completeness auto

lemma copy_definition_unprocessed:
  "c \<in> set (copy_definitions processed lp) \<Longrightarrow> fst c \<in> fst ` fst ` set (variables lp) - processed"
  by (force simp: copy_definitions_def split: if_splits option.splits expression.splits)

termination copy_loop
proof (relation "measure (\<lambda>(processed, lp). card (fst ` fst ` set (variables lp) - processed))", goal_cases)
  case (2 processed lp x)
  define c where "c = hd x"
  have "c \<in> set x" using 2(2) by (simp add: c_def)
  then have "fst c \<in> fst ` fst ` set (variables lp) - processed" "fst c \<in> set (map fst x)"
    using copy_definition_unprocessed 2(1) by auto
  then have "fst ` fst ` set (variables lp) - (processed \<union> set (map fst x)) \<subset> fst ` fst ` set (variables lp) - processed"
    by blast
  then show ?case by (simp add: psubset_card_mono)
qed simp

declare copy_loop.simps [simp del]

definition propagate_copies :: "lifted_program \<Rightarrow> lifted_program" where
  "propagate_copies lp = copy_loop {} lp"


section \<open>Stores and loads\<close>

text \<open>The stored values of a block, by the text of the base and the offset.\<close>

type_synonym store_map = "string \<times> i32 \<rightharpoonup> expression \<times> usize"

definition forward_step :: "usize \<times> instruction \<Rightarrow> store_map \<times> lifted_program \<Rightarrow> store_map \<times> lifted_program" where
  "forward_step x acc = (let (pc, _) = x; (stores, lp) = acc; ctx = lifted_format_context lp in
     if pc \<in> eliminated_pcs lp then (stores, lp)
     else case expr_at lp pc of
       Some (Store _ base offset v) \<Rightarrow> (stores((format_expression base ctx, offset) \<mapsto> (v, pc)), lp)
     | Some (Load _ base offset) \<Rightarrow> (case stores (format_expression base ctx, offset) of
           Some (stored, _) \<Rightarrow> (stores, set_expr pc stored lp)
         | None \<Rightarrow> (stores, lp))
     | _ \<Rightarrow> (stores, lp))"

definition forward_block :: "(usize \<times> instruction) list \<Rightarrow> lifted_program \<Rightarrow> lifted_program" where
  "forward_block instrs lp = snd (fold forward_step instrs (Map.empty, lp))"

definition forward_store_loads :: "control_flow_graph \<Rightarrow> lifted_program \<Rightarrow> lifted_program" where
  "forward_store_loads cfg lp = fold (\<lambda>block_pc. forward_block (block_code cfg block_pc)) (sorted_blocks cfg) lp"

fun collect_live_loads :: "format_context \<Rightarrow> expression \<Rightarrow> (string \<times> i32) set" where
  "collect_live_loads ctx (Load _ base offset) = insert (format_expression base ctx, offset) (collect_live_loads ctx base)"
| "collect_live_loads ctx (BinOp _ l r) = collect_live_loads ctx l \<union> collect_live_loads ctx r"
| "collect_live_loads ctx (UnaryOp _ e) = collect_live_loads ctx e"
| "collect_live_loads ctx (Store _ base _ v) = collect_live_loads ctx base \<union> collect_live_loads ctx v"
| "collect_live_loads ctx (Call _ args) = \<Union> (set (map (collect_live_loads ctx) args))"
| "collect_live_loads ctx _ = {}"

text \<open>Whether an address comes from the stack pointer (register 1) by adding constants. The set of names
  being visited is restored on return, so it is passed down only; \<open>depth\<close> counts the calls.\<close>

function expression_is_constant_like :: "lifted_program \<Rightarrow> expression \<Rightarrow> string set \<Rightarrow> nat \<Rightarrow> bool" where
  "expression_is_constant_like lp e visiting depth \<longleftrightarrow>
     (if depth > 20 then False
      else case e of
        Const _ \<Rightarrow> True
      | UnaryOp _ operand \<Rightarrow> expression_is_constant_like lp operand visiting (depth + 1)
      | BinOp _ l r \<Rightarrow> expression_is_constant_like lp l visiting (depth + 1) \<and> expression_is_constant_like lp r visiting (depth + 1)
      | Var name \<Rightarrow> name \<notin> visiting \<and>
          (case expression_for_var lp name of
             Some def_expr \<Rightarrow> expression_is_constant_like lp def_expr (insert name visiting) (depth + 1)
           | None \<Rightarrow> False)
      | _ \<Rightarrow> False)"
  by pat_completeness auto

termination expression_is_constant_like
  by (relation "measure (\<lambda>(lp, e, visiting, depth). 21 - depth)") auto

declare expression_is_constant_like.simps [simp del]

definition is_sp_def :: "lifted_program \<Rightarrow> string \<Rightarrow> usize \<Rightarrow> bool" where
  "is_sp_def lp name dpc = list_ex (\<lambda>((pc, reg), v). pc = dpc \<and> var_name v = name \<and> reg = 1) (variables lp)"

function expression_has_stack_slot_provenance :: "lifted_program \<Rightarrow> expression \<Rightarrow> string set \<Rightarrow> nat \<Rightarrow> bool"
  and variable_has_stack_slot_provenance :: "lifted_program \<Rightarrow> string \<Rightarrow> string set \<Rightarrow> nat \<Rightarrow> bool" where
  "expression_has_stack_slot_provenance lp e visiting depth \<longleftrightarrow>
     (if depth > 20 then False
      else case e of
        Var name \<Rightarrow> variable_has_stack_slot_provenance lp name visiting (depth + 1)
      | BinOp opr l r \<Rightarrow>
          (opr = BAdd \<or> opr = BSub) \<and> expression_has_stack_slot_provenance lp l visiting (depth + 1)
            \<and> expression_is_constant_like lp r visiting (depth + 1)
          \<or> opr = BAdd \<and> expression_has_stack_slot_provenance lp r visiting (depth + 1)
            \<and> expression_is_constant_like lp l visiting (depth + 1)
      | _ \<Rightarrow> False)"
| "variable_has_stack_slot_provenance lp name visiting depth \<longleftrightarrow>
     name \<notin> visiting \<and>
     (case var_name_to_def_pc lp name of
        None \<Rightarrow> False
      | Some dpc \<Rightarrow> is_sp_def lp name dpc \<or>
          (case expr_at lp dpc of
             Some e \<Rightarrow> expression_has_stack_slot_provenance lp e (insert name visiting) (depth + 1)
           | None \<Rightarrow> False))"
  by pat_completeness auto

termination expression_has_stack_slot_provenance
  by (relation "measure (\<lambda>x. case x of Inl (lp, e, visiting, depth) \<Rightarrow> 2 * (21 - depth)
      | Inr (lp, name, visiting, depth) \<Rightarrow> 2 * (20 - depth) + 1)") auto

declare expression_has_stack_slot_provenance.simps [simp del] variable_has_stack_slot_provenance.simps [simp del]

definition has_stack_slot_provenance :: "lifted_program \<Rightarrow> expression \<Rightarrow> bool" where
  "has_stack_slot_provenance lp base = expression_has_stack_slot_provenance lp base {} 0"

definition live_loads :: "lifted_program \<Rightarrow> (string \<times> i32) set" where
  "live_loads lp = \<Union> (set (map (collect_live_loads (lifted_format_context lp) \<circ> snd)
     (filter (\<lambda>(pc, _). pc \<notin> eliminated_pcs lp) (expressions lp))))"

definition is_dead_store :: "lifted_program \<Rightarrow> expression \<Rightarrow> bool" where
  "is_dead_store lp e = (case e of
      Store _ base offset _ \<Rightarrow>
        has_stack_slot_provenance lp base \<and> 0 \<le> sint offset \<and> sint offset < 0x10000 \<and>
        (format_expression base (lifted_format_context lp), offset) \<notin> live_loads lp
    | _ \<Rightarrow> False)"

text \<open>What makes a store dead does not depend on the stores eliminated meanwhile.\<close>

definition eliminate_dead_stores :: "lifted_program \<Rightarrow> lifted_program" where
  "eliminate_dead_stores lp = fold (\<lambda>(pc, e) lp'.
     if pc \<in> eliminated_pcs lp' then lp' else if is_dead_store lp e then eliminate pc lp' else lp') (expressions lp) lp"


section \<open>Stack variables\<close>

text \<open>The blocks in which instructions that are not eliminated store to, or load from, a slot.\<close>

definition slot_blocks ::
  "(expression \<Rightarrow> (string \<times> i32) set) \<Rightarrow> (usize \<rightharpoonup> usize) \<Rightarrow> lifted_program \<Rightarrow> string \<times> i32 \<Rightarrow> usize set" where
  "slot_blocks slots_of block_of lp slot =
     set (map (\<lambda>(pc, _). case block_of pc of Some b \<Rightarrow> b | None \<Rightarrow> pc)
       (filter (\<lambda>(pc, e). pc \<notin> eliminated_pcs lp \<and> slot \<in> slots_of e) (expressions lp)))"

definition slot_recoverable :: "(usize \<rightharpoonup> usize) \<Rightarrow> dominator_tree \<Rightarrow> lifted_program \<Rightarrow> string \<times> i32 \<Rightarrow> bool" where
  "slot_recoverable block_of t lp slot =
     (let stores = slot_blocks stored_slots block_of lp slot; loads = slot_blocks loaded_slots block_of lp slot
      in stores \<noteq> {} \<and> (\<forall>load \<in> loads. \<exists>store \<in> stores. store \<noteq> load \<and> dominates t store load))"

definition slot_variable :: "string \<times> i32 \<Rightarrow> string" where
  "slot_variable slot = fst slot @ ''_'' @ show_i32 (snd slot)"

text \<open>The order in which the slots are looked at does not matter; offsets are compared as bits here.\<close>

definition recover_stack_variables :: "control_flow_graph \<Rightarrow> dominator_tree \<Rightarrow> lifted_program \<Rightarrow> lifted_program" where
  "recover_stack_variables cfg t lp =
     (let slots = sorted_list_of_set (\<Union> (set (map (collect_stack_slots \<circ> snd) (expressions lp))));
          recovered = filter (slot_recoverable (block_of_pc cfg) t lp) slots;
          lp = lp\<lparr>stack_vars := fold (\<lambda>slot. AList.update slot (slot_variable slot)) recovered (stack_vars lp)\<rparr>
      in if stack_vars lp = [] then lp
         else map_exprs (\<lambda>e. replace_stack_loads e (map_of (stack_vars lp))) lp)"


section \<open>Queries\<close>

definition is_synthetic_boolean_temp :: "lifted_program \<Rightarrow> string \<Rightarrow> usize \<Rightarrow> bool" where
  "is_synthetic_boolean_temp lp name dpc \<longleftrightarrow>
     list_ex (\<lambda>((pc, _), v). pc = dpc \<and> var_name v = name \<and> var_type v = TBoolean) (variables lp) \<and>
     (case expression_for_var lp name of Some e \<Rightarrow> is_boolean_expr e | None \<Rightarrow> False)"

text \<open>The definition of a variable whose definition was eliminated.\<close>

definition eliminated_definition :: "lifted_program \<Rightarrow> string \<Rightarrow> expression option" where
  "eliminated_definition lp name = (case var_name_to_def_pc lp name of
      None \<Rightarrow> None
    | Some dpc \<Rightarrow> if dpc \<in> eliminated_pcs lp then expr_at lp dpc else None)"

function resolve_eliminated_vars_depth :: "lifted_program \<Rightarrow> expression \<Rightarrow> nat \<Rightarrow> expression" where
  "resolve_eliminated_vars_depth lp e depth =
     (if depth > 10 then e
      else case e of
        Var name \<Rightarrow> (case eliminated_definition lp name of
            Some def_expr \<Rightarrow> resolve_eliminated_vars_depth lp def_expr (depth + 1)
          | None \<Rightarrow> e)
      | BinOp opr l r \<Rightarrow> BinOp opr (resolve_eliminated_vars_depth lp l depth) (resolve_eliminated_vars_depth lp r depth)
      | UnaryOp opr operand \<Rightarrow> UnaryOp opr (resolve_eliminated_vars_depth lp operand depth)
      | Load width base offset \<Rightarrow> Load width (resolve_eliminated_vars_depth lp base depth) offset
      | Store width base offset v \<Rightarrow>
          Store width (resolve_eliminated_vars_depth lp base depth) offset (resolve_eliminated_vars_depth lp v depth)
      | Call name args \<Rightarrow> Call name (map (\<lambda>a. resolve_eliminated_vars_depth lp a depth) args)
      | _ \<Rightarrow> e)"
  by pat_completeness auto

termination resolve_eliminated_vars_depth
  by (relation "measures [\<lambda>(lp, e, depth). 11 - depth, \<lambda>(lp, e, depth). size e]") (auto dest: argument_size)

declare resolve_eliminated_vars_depth.simps [simp del]

definition resolve_eliminated_vars :: "lifted_program \<Rightarrow> expression \<Rightarrow> expression" where
  "resolve_eliminated_vars lp e = resolve_eliminated_vars_depth lp e 0"

definition def_var_name_with_type :: "lifted_program \<Rightarrow> usize \<Rightarrow> instruction \<Rightarrow> (string \<times> var_type) option" where
  "def_var_name_with_type lp pc instr = (case def_reg (classify instr) of
      None \<Rightarrow> None
    | Some reg \<Rightarrow> map_option (\<lambda>v. (var_name v, var_type v)) (map_of (variables lp) (pc, reg)))"

text \<open>The line of an instruction and the variable it declares. A store that is no named slot is written as
  \<open>format_expression\<close> writes it.\<close>

definition format_pc_raw :: "lifted_program \<Rightarrow> usize \<Rightarrow> instruction \<Rightarrow> (string \<times> string option) option" where
  "format_pc_raw lp pc instr =
     (let ctx = lifted_format_context lp;
          dst_name = map_option fst (def_var_name_with_type lp pc instr);
          assigned = (\<lambda>e. case dst_name of
              Some dst \<Rightarrow> (dst @ '' = '' @ format_expression e ctx, Some dst)
            | None \<Rightarrow> (format_expression e ctx, None))
      in case expr_at lp pc of
           None \<Rightarrow> None
         | Some (Raw s) \<Rightarrow> Some (s, None)
         | Some (Store width base offset v) \<Rightarrow> Some
             (case slot_name (map_of (stack_vars lp)) base offset of
                Some slot \<Rightarrow> (slot @ '' = '' @ format_expression v ctx, Some slot)
              | None \<Rightarrow> (format_expression (Store width base offset v) ctx, None))
         | Some e \<Rightarrow> Some (assigned e))"

definition format_pc :: "lifted_program \<Rightarrow> usize \<Rightarrow> instruction \<Rightarrow> string option \<times> lifted_program" where
  "format_pc lp pc instr =
     (if pc \<in> eliminated_pcs lp then (None, lp)
      else case format_pc_raw lp pc instr of
        None \<Rightarrow> (None, lp)
      | Some (line, Some name) \<Rightarrow>
          if name \<notin> declared_vars lp
          then (Some (''let '' @ line), lp\<lparr>declared_vars := insert name (declared_vars lp)\<rparr>)
          else (Some line, lp)
      | Some (line, None) \<Rightarrow> (Some line, lp))"

text \<open>\<open>{:#06x}\<close>: at least four digits after the prefix.\<close>

definition show_pc :: "usize \<Rightarrow> string" where
  "show_pc pc = (let digits = show_base 16 pc in ''0x'' @ replicate (4 - length digits) (CHR ''0'') @ digits)"

definition summary_type :: "var_type \<Rightarrow> string" where
  "summary_type ty = (case ty of TU64 \<Rightarrow> ''u64'' | TI64 \<Rightarrow> ''i64'' | TU32 \<Rightarrow> ''u32'' | TI32 \<Rightarrow> ''i32''
     | TPointer \<Rightarrow> ''ptr'' | TBoolean \<Rightarrow> ''bool'')"

definition newline :: string where
  "newline = [CHR 0x0A]"

definition summarize :: "lifted_program \<Rightarrow> string" where
  "summarize lp = ''=== Register Lifting ==='' @ newline @ newline @
     ''Variables: '' @ show_nat (length (variables lp)) @ '', Eliminated instructions: '' @ show_nat (card (eliminated_pcs lp)) @ newline @
     concat (map (\<lambda>((pc, reg), v). ''  '' @ var_name v @ '' : '' @ summary_type (var_type v) @ '' (r'' @ show_nat (unat reg)
       @ '' @ '' @ show_pc pc @ '')'' @ newline) (sort_key fst (variables lp)))"


section \<open>The pipeline\<close>

definition prepare :: "control_flow_graph \<Rightarrow> lifted_program \<Rightarrow> lifted_program" where
  "prepare cfg lp = (let
      lp = propagate_constants lp;
      lp = simplify_all_expressions lp;
      lp = propagate_copies lp;
      lp = forward_store_loads cfg lp;
      lp = propagate_copies lp;
      lp = eliminate_dead_stores lp
    in simplify_all_expressions lp)"

definition fold_all :: "control_flow_graph \<Rightarrow> dominator_tree \<Rightarrow> ssa_program \<Rightarrow> lifted_program \<Rightarrow> lifted_program" where
  "fold_all cfg t ssa lp = (let
      lp = fold_expressions cfg lp;
      lp = simplify_all_expressions lp;
      lp = fold_expressions cfg lp;
      lp = simplify_all_expressions lp;
      lp = fold_expressions_cross_block cfg t ssa lp
    in simplify_all_expressions lp)"

definition recover :: "control_flow_graph \<Rightarrow> dominator_tree \<Rightarrow> lifted_program \<Rightarrow> lifted_program" where
  "recover cfg t lp = (let
      lp = recover_stack_variables cfg t lp;
      lp = propagate_copies lp;
      lp = fold_expressions cfg lp;
      lp = simplify_all_expressions lp;
      lp = propagate_copies lp
    in simplify_all_expressions lp)"

text \<open>\<open>None\<close> where the construction of the value graph panics.\<close>

definition lift_with_dom_tree :: "control_flow_graph \<Rightarrow> data_flow_analysis \<Rightarrow> dominator_tree \<Rightarrow> lifted_program option" where
  "lift_with_dom_tree cfg df t =
     (let lp = assign_variables cfg df empty_lifted
      in case ssa_build cfg t of
           None \<Rightarrow> None
         | Some ssa \<Rightarrow> Some (let
               lp = lower_ssa_to_lifted_uses cfg ssa lp;
               lp = build_expressions cfg lp
             in recover cfg t (fold_all cfg t ssa (prepare cfg lp))))"

end
