(* ===== verification/Lifted_Names.thy ===== *)
theory Lifted_Names
  imports Lifted_Passes Ssa_Correct
begin

text \<open>
  The names of the lifted program: every definition gets a name of its own, the index from names to
  positions is exact, and the name a use is given by the value graph belongs to the definition that reaches it.
  A merge never gets a name this way, so its uses keep the name of one of the definitions.
\<close>

section \<open>Decimal numbers\<close>

lemma show_nat_rec: "show_nat n = (if n < 10 then [''0123456789abcdef'' ! n] else show_nat (n div 10) @ [''0123456789abcdef'' ! (n mod 10)])"
  unfolding show_nat_def by (subst show_base.simps) simp

lemma digit_inject: "m < 10 \<Longrightarrow> n < 10 \<Longrightarrow> ''0123456789abcdef'' ! m = ''0123456789abcdef'' ! n \<longleftrightarrow> m = n"
  by (auto simp: nth_eq_iff_index_eq)

lemma show_nat_nonempty [simp]: "show_nat n \<noteq> []" "[] \<noteq> show_nat n"
  by (subst show_nat_rec, simp)+

lemma show_nat_inject: "show_nat m = show_nat n \<longleftrightarrow> m = n"
proof
  show "m = n" if "show_nat m = show_nat n"
    using that
  proof (induction m arbitrary: n rule: less_induct)
    case (less m)
    have eq: "(if m < 10 then [''0123456789abcdef'' ! m] else show_nat (m div 10) @ [''0123456789abcdef'' ! (m mod 10)]) =
        (if n < 10 then [''0123456789abcdef'' ! n] else show_nat (n div 10) @ [''0123456789abcdef'' ! (n mod 10)])"
      using less.prems by (simp only: show_nat_rec [of m, symmetric] show_nat_rec [of n, symmetric])
    consider "m < 10" "n < 10" | "\<not> m < 10" "\<not> n < 10" | "m < 10 \<longleftrightarrow> \<not> n < 10" by blast
    then show ?case
    proof cases
      case 1
      then show ?thesis using eq digit_inject by simp
    next
      case 2
      then have "show_nat (m div 10) = show_nat (n div 10)" "m mod 10 = n mod 10"
        using eq digit_inject [of "m mod 10" "n mod 10"] by simp_all
      then have "m div 10 = n div 10" using less.IH [of "m div 10"] 2 by simp
      then show ?thesis using \<open>m mod 10 = n mod 10\<close> by (metis div_mult_mod_eq)
    next
      case 3
      then show ?thesis using eq by (auto split: if_splits)
    qed
  qed
qed simp


section \<open>Fresh names\<close>

text \<open>The names handed out so far.\<close>

definition numbered :: "string \<Rightarrow> nat \<Rightarrow> string set" where
  "numbered prefix n = (\<lambda>k. prefix @ show_nat k) ` {..<n}"

lemma numbered_Suc: "numbered prefix (n + 1) = insert (prefix @ show_nat n) (numbered prefix n)"
  by (simp add: numbered_def lessThan_Suc)

lemma numbered_fresh: "prefix @ show_nat n \<notin> numbered prefix n"
  by (auto simp: numbered_def show_nat_inject)

definition issued :: "name_counters \<Rightarrow> string set" where
  "issued c = numbered ''ptr_'' (ptr_counter c) \<union> numbered ''cond_'' (cond_counter c) \<union> numbered ''var_'' (var_counter c)"

lemma issued_fresh:
  "''ptr_'' @ show_nat (ptr_counter c) \<notin> issued c"
  "''cond_'' @ show_nat (cond_counter c) \<notin> issued c"
  "''var_'' @ show_nat (var_counter c) \<notin> issued c"
  by (auto simp: issued_def numbered_def show_nat_inject)

lemma issued_next:
  "issued (c\<lparr>ptr_counter := ptr_counter c + 1\<rparr>) = insert (''ptr_'' @ show_nat (ptr_counter c)) (issued c)"
  "issued (c\<lparr>cond_counter := cond_counter c + 1\<rparr>) = insert (''cond_'' @ show_nat (cond_counter c)) (issued c)"
  "issued (c\<lparr>var_counter := var_counter c + 1\<rparr>) = insert (''var_'' @ show_nat (var_counter c)) (issued c)"
  using numbered_Suc by (auto simp: issued_def)

lemma fresh_name_issued:
  assumes "fresh_name ty c = (name, c')"
  shows "name \<notin> issued c \<and> issued c' = insert name (issued c)"
proof -
  consider "name = ''ptr_'' @ show_nat (ptr_counter c)" "c' = c\<lparr>ptr_counter := ptr_counter c + 1\<rparr>"
    | "name = ''cond_'' @ show_nat (cond_counter c)" "c' = c\<lparr>cond_counter := cond_counter c + 1\<rparr>"
    | "name = ''var_'' @ show_nat (var_counter c)" "c' = c\<lparr>var_counter := var_counter c + 1\<rparr>"
    using assms unfolding fresh_name_def by (cases ty) (simp_all only: var_type.case prod.inject)
  then show ?thesis by cases (simp_all only: issued_fresh issued_next simp_thms)
qed

text \<open>What naming keeps: the names are issued, tell the definitions apart, and the index finds them.\<close>

definition names_ok :: "string set \<Rightarrow> lifted_program \<Rightarrow> bool" where
  "names_ok used lp \<longleftrightarrow> distinct (map fst (variables lp)) \<and>
     (\<forall>key v. (key, v) \<in> set (variables lp) \<longrightarrow> var_name v \<in> used \<and> var_name_to_def_pc lp (var_name v) = Some (fst key)) \<and>
     (\<forall>key v key' v'. (key, v) \<in> set (variables lp) \<longrightarrow> (key', v') \<in> set (variables lp) \<longrightarrow> var_name v = var_name v' \<longrightarrow> key = key')"

lemma update_mem: "distinct (map fst al) \<Longrightarrow> (k', v') \<in> set (AList.update k v al) \<longleftrightarrow> k' = k \<and> v' = v \<or> k' \<noteq> k \<and> (k', v') \<in> set al"
proof -
  assume d: "distinct (map fst al)"
  then have "distinct (map fst (AList.update k v al))" by (rule distinct_update)
  then have "(k', v') \<in> set (AList.update k v al) \<longleftrightarrow> map_of (AList.update k v al) k' = Some v'" by (metis map_of_SomeD map_of_is_SomeI)
  also have "\<dots> \<longleftrightarrow> k' = k \<and> v' = v \<or> k' \<noteq> k \<and> map_of al k' = Some v'" by (auto simp: update_conv')
  also have "map_of al k' = Some v' \<longleftrightarrow> (k', v') \<in> set al" using d by (metis map_of_SomeD map_of_is_SomeI)
  finally show ?thesis .
qed

lemma assign_name_ok:
  assumes "names_ok (issued c) lp" "assign_name ty_of key (c, lp) = (c', lp')"
  shows "names_ok (issued c') lp'" "fst ` set (variables lp') = insert key (fst ` set (variables lp))"
proof -
  obtain name where name: "fresh_name (ty_of key) c = (name, c')"
    and lp': "lp' = lp\<lparr>var_name_to_def_pc := (var_name_to_def_pc lp)(name \<mapsto> fst key),
      variables := AList.update key \<lparr>var_name = name, var_type = ty_of key\<rparr> (variables lp)\<rparr>"
    using assms(2) by (auto simp: assign_name_def split: prod.splits)
  have d: "distinct (map fst (variables lp))" using assms(1) by (simp add: names_ok_def)
  have old: "var_name v \<in> issued c" "var_name v \<noteq> name" if "(k, v) \<in> set (variables lp)" for k v
    using that assms(1) fresh_name_issued [OF name] unfolding names_ok_def by blast+
  show "names_ok (issued c') lp'"
    unfolding names_ok_def
  proof (intro conjI allI impI)
    show "distinct (map fst (variables lp'))" using d by (simp add: lp' distinct_update)
    fix k v
    assume "(k, v) \<in> set (variables lp')"
    then have m: "k = key \<and> v = \<lparr>var_name = name, var_type = ty_of key\<rparr> \<or> k \<noteq> key \<and> (k, v) \<in> set (variables lp)"
      by (simp add: lp' update_mem [OF d])
    have issued: "issued c' = insert name (issued c)" using fresh_name_issued [OF name] by blast
    show "var_name v \<in> issued c'"
      using m
    proof
      assume "k \<noteq> key \<and> (k, v) \<in> set (variables lp)"
      then have "var_name v \<in> issued c" using old(1) by blast
      then show ?thesis unfolding issued by (rule insertI2)
    qed (simp add: issued)
    show "var_name_to_def_pc lp' (var_name v) = Some (fst k)"
      using m
    proof
      assume "k \<noteq> key \<and> (k, v) \<in> set (variables lp)"
      then have "var_name v \<noteq> name" "var_name_to_def_pc lp (var_name v) = Some (fst k)"
        using old(2) assms(1) unfolding names_ok_def by blast+
      then show ?thesis by (simp add: lp')
    qed (simp add: lp')
    fix k' v'
    assume "(k', v') \<in> set (variables lp')" "var_name v = var_name v'"
    moreover from this have "k' = key \<and> v' = \<lparr>var_name = name, var_type = ty_of key\<rparr> \<or> k' \<noteq> key \<and> (k', v') \<in> set (variables lp)"
      by (simp add: lp' update_mem [OF d])
    ultimately show "k = k'" using m old(2) assms(1) unfolding names_ok_def by (metis variable.select_convs(1))
  qed
  show "fst ` set (variables lp') = insert key (fst ` set (variables lp))" by (simp add: lp' dom_update)
qed

lemma assign_names_ok:
  "names_ok (issued c) lp \<Longrightarrow>
   names_ok (issued (fst (fold (assign_name ty_of) keys (c, lp)))) (snd (fold (assign_name ty_of) keys (c, lp))) \<and>
   fst ` set (variables (snd (fold (assign_name ty_of) keys (c, lp)))) = set keys \<union> fst ` set (variables lp)"
proof (induction keys arbitrary: c lp)
  case (Cons key keys)
  obtain c' lp' where step: "assign_name ty_of key (c, lp) = (c', lp')" by (cases "assign_name ty_of key (c, lp)")
  then show ?case using Cons.IH [OF assign_name_ok(1) [OF Cons.prems step]] assign_name_ok(2) [OF Cons.prems step] by auto
qed simp

lemma assign_variables_names:
  "\<exists>used. names_ok used (assign_variables cfg df empty_lifted)"
  "fst ` set (variables (assign_variables cfg df empty_lifted)) = set (definition_order cfg df)"
proof -
  let ?c = "\<lparr>var_counter = 0, ptr_counter = 0, cond_counter = 0\<rparr>"
  have "names_ok (issued ?c) empty_lifted" by (simp add: names_ok_def empty_lifted_def)
  note * = assign_names_ok [OF this]
  show "\<exists>used. names_ok used (assign_variables cfg df empty_lifted)"
    using * by (auto simp: assign_variables_def Let_def names_ok_def intro!: exI)
  show "fst ` set (variables (assign_variables cfg df empty_lifted)) = set (definition_order cfg df)"
    using * by (simp add: assign_variables_def Let_def empty_lifted_def)
qed


section \<open>Values of definitions\<close>

text \<open>Each definition of the graph has one value.\<close>

lemma distinct_concat_map:
  "distinct xs \<Longrightarrow> (\<And>x. x \<in> set xs \<Longrightarrow> distinct (f x)) \<Longrightarrow>
   (\<And>x y. x \<in> set xs \<Longrightarrow> y \<in> set xs \<Longrightarrow> x \<noteq> y \<Longrightarrow> set (f x) \<inter> set (f y) = {}) \<Longrightarrow> distinct (concat (map f xs))"
proof (induction xs)
  case (Cons x xs)
  have "distinct (concat (map f xs))" using Cons by simp
  moreover have "set (f x) \<inter> set (concat (map f xs)) = {}"
  proof -
    have "set (f x) \<inter> set (f y) = {}" if "y \<in> set xs" for y
      using Cons.prems(1,3) that by (metis distinct.simps(2) list.set_intros(1,2))
    then show ?thesis by auto
  qed
  ultimately show ?case using Cons.prems(2) by simp
qed simp

definition def_keys :: "(usize \<times> instruction) list \<Rightarrow> (usize \<times> u8) list" where
  "def_keys xs = concat (map (\<lambda>(pc, i). map (Pair pc) (instr_defs i)) xs)"

lemma all_defs_keys: "map (\<lambda>(pc, reg, _). (pc, reg)) (all_defs cfg) = concat (map (\<lambda>b. def_keys (block_code cfg b)) (sorted_blocks cfg))"
  by (simp add: all_defs_def def_keys_def map_concat comp_def split_def)

lemma block_code_split:
  "block_code cfg b = pre @ x # post \<Longrightarrow> \<exists>block. get_block cfg b = Some block \<and> block_instrs block = pre @ x # post"
  by (cases "get_block cfg b") (simp_all add: block_code_def)

lemma unique_place:
  assumes "unique_pcs cfg" "block_code cfg b = pre @ (pc, i) # post" "block_code cfg b' = pre' @ (pc, i') # post'"
  shows "b = b' \<and> pre = pre'"
  using block_code_split [OF assms(2)] block_code_split [OF assms(3)] assms(1) unfolding unique_pcs_def by blast

lemma def_keys_mem: "(pc, reg) \<in> set (def_keys xs) \<longleftrightarrow> (\<exists>i. (pc, i) \<in> set xs \<and> reg \<in> set (instr_defs i))"
  by (auto simp: def_keys_def)

lemma split_distinct: "(\<And>pre x post pre' post'. xs = pre @ x # post \<Longrightarrow> xs = pre' @ x # post' \<Longrightarrow> pre = pre') \<Longrightarrow> distinct xs"
proof (induction xs)
  case (Cons x xs)
  have "x \<notin> set xs"
  proof
    assume "x \<in> set xs"
    then obtain ys zs where "xs = ys @ x # zs" by (auto simp: in_set_conv_decomp)
    then show False using Cons.prems [of "[]" x xs "x # ys" zs] by simp
  qed
  moreover have "distinct xs"
  proof (rule Cons.IH)
    fix pre y post pre' post'
    assume "xs = pre @ y # post" "xs = pre' @ y # post'"
    then show "pre = pre'" using Cons.prems [of "x # pre" y post "x # pre'" post'] by simp
  qed
  ultimately show ?case by simp
qed simp

lemma def_keys_distinct:
  assumes "unique_pcs cfg"
  shows "distinct (def_keys (block_code cfg b))"
  unfolding def_keys_def
proof (rule distinct_concat_map)
  show "distinct (block_code cfg b)"
    by (rule split_distinct) (metis assms surj_pair unique_place)
  show "distinct (case x of (pc, i) \<Rightarrow> map (Pair pc) (instr_defs i))" for x :: "usize \<times> instruction"
    by (cases x) (simp add: instr_defs_def distinct_map inj_on_def)
  fix x y :: "usize \<times> instruction"
  assume mem: "x \<in> set (block_code cfg b)" "y \<in> set (block_code cfg b)" "x \<noteq> y"
  obtain pc i pc' i' where xy: "x = (pc, i)" "y = (pc', i')" by (cases x, cases y)
  obtain pre post pre' post' where "block_code cfg b = pre @ x # post" "block_code cfg b = pre' @ y # post'"
    using mem(1,2) by (metis in_set_conv_decomp)
  then have "pc \<noteq> pc'" using unique_place [OF assms] mem(3) unfolding xy by (metis append_same_eq list.inject same_append_eq)
  then show "set (case x of (pc, i) \<Rightarrow> map (Pair pc) (instr_defs i)) \<inter> set (case y of (pc, i) \<Rightarrow> map (Pair pc) (instr_defs i)) = {}"
    by (auto simp: xy)
qed

lemma all_defs_distinct:
  assumes "unique_pcs cfg" "distinct (map fst (blocks cfg))"
  shows "distinct (map (\<lambda>(pc, reg, _). (pc, reg)) (all_defs cfg))"
  unfolding all_defs_keys
proof (rule distinct_concat_map)
  show "distinct (sorted_blocks cfg)" using assms(2) by (simp add: sorted_blocks_def)
  show "distinct (def_keys (block_code cfg b))" for b by (rule def_keys_distinct [OF assms(1)])
  show "set (def_keys (block_code cfg b)) \<inter> set (def_keys (block_code cfg b')) = {}" if "b \<noteq> b'" for b b'
  proof -
    have False if "(pc, i) \<in> set (block_code cfg b)" "(pc, i') \<in> set (block_code cfg b')" for pc i i'
      using that \<open>b \<noteq> b'\<close> unique_place [OF assms(1)] by (metis in_set_conv_decomp)
    then show ?thesis by (auto simp: def_keys_mem)
  qed
qed

lemma add_def_kinds:
  "map ssa_kind (fst (fold add_def ds (vals, m))) = map ssa_kind vals @ map (\<lambda>(pc, reg, b). SsaInstr pc reg b) ds"
proof (induction ds arbitrary: vals m)
  case (Cons d ds)
  then show ?case by (cases d) (simp add: add_def_simp new_value_def)
qed simp

lemma initial_values_kinds: "x \<in> set initial_values \<Longrightarrow> ssa_kind x \<noteq> SsaInstr pc reg b"
  by (auto simp: initial_values_def ssa_regs_def new_value_def)

lemma instr_value_unique:
  assumes distinct: "distinct (map (\<lambda>(pc, reg, _). (pc, reg)) (all_defs cfg))"
    and v: "kind_at (base_values cfg) v = Some (SsaInstr pc reg b)" "kind_at (base_values cfg) v' = Some (SsaInstr pc reg b')"
  shows "v = v'"
proof -
  let ?n = "length initial_values"
  have kinds: "map ssa_kind (base_values cfg) = map ssa_kind initial_values @ map (\<lambda>(pc, reg, b). SsaInstr pc reg b) (all_defs cfg)"
    by (simp add: base_values_def def_values_def add_def_kinds)
  have place: "?n \<le> x \<and> x - ?n < length (all_defs cfg) \<and> all_defs cfg ! (x - ?n) = (pc, reg, c)"
    if "kind_at (base_values cfg) x = Some (SsaInstr pc reg c)" for x c
  proof -
    have len: "length (base_values cfg) = ?n + length (all_defs cfg)" using kinds by (metis length_append length_map)
    have x: "x < length (base_values cfg)" "map ssa_kind (base_values cfg) ! x = SsaInstr pc reg c"
      using that by (simp_all add: kind_at_def split: if_splits)
    have "\<not> x < ?n"
    proof
      assume "x < ?n"
      then have "ssa_kind (initial_values ! x) = SsaInstr pc reg c" using x(2) unfolding kinds by (simp add: nth_append)
      then show False using initial_values_kinds nth_mem [OF \<open>x < ?n\<close>] by blast
    qed
    then show ?thesis using x len unfolding kinds by (auto simp: nth_append split: prod.splits)
  qed
  have i: "?n \<le> v" "v - ?n < length (all_defs cfg)" "map (\<lambda>(pc, reg, _). (pc, reg)) (all_defs cfg) ! (v - ?n) = (pc, reg)"
    "?n \<le> v'" "v' - ?n < length (all_defs cfg)" "map (\<lambda>(pc, reg, _). (pc, reg)) (all_defs cfg) ! (v' - ?n) = (pc, reg)"
    using place [OF v(1)] place [OF v(2)] by simp_all
  then have "v - ?n = v' - ?n" using nth_eq_iff_index_eq [OF distinct, of "v - ?n" "v' - ?n"] by simp
  then show ?thesis using i(1,4) by simp
qed


section \<open>Merges\<close>

definition operands_ok :: "ssa_value \<Rightarrow> bool" where
  "operands_ok x \<longleftrightarrow> ssa_operands x = [] \<or> distinct (ssa_operands x) \<and> 2 \<le> length (ssa_operands x)"

lemma operands_ok_new: "list_all operands_ok vals \<Longrightarrow> list_all operands_ok (new_value vals kind)"
  by (simp add: new_value_def operands_ok_def)

lemma list_all_update: "list_all P xs \<Longrightarrow> P x \<Longrightarrow> list_all P (xs[i := x])"
  using set_update_subset_insert [of xs i x] by (auto simp: list_all_iff)

lemma base_operands: "list_all operands_ok (base_values cfg)"
proof -
  have "list_all operands_ok vals \<Longrightarrow> list_all operands_ok (fst (fold add_def ds (vals, m)))" for ds vals m
  proof (induction ds arbitrary: vals m)
    case (Cons d ds)
    then show ?case by (cases d) (simp add: add_def_simp operands_ok_new)
  qed simp
  moreover have "list_all operands_ok initial_values"
    by (simp add: initial_values_def ssa_regs_def new_value_def operands_ok_def)
  ultimately show ?thesis unfolding base_values_def def_values_def by blast
qed

lemma merge_reg_operands: "list_all operands_ok (st_values st) \<Longrightarrow> list_all operands_ok (st_values (snd (merge_reg b preds reg st)))"
  by (simp add: merge_reg_def operands_ok_new split: list.split option.split)

lemma merge_fold_operands:
  "list_all operands_ok (st_values (snd acc)) \<Longrightarrow> list_all operands_ok (st_values (snd (fold (merge_step b preds) regs acc)))"
  by (induction regs arbitrary: acc) (simp_all add: merge_step_snd merge_reg_operands)

lemma in_state_operands: "list_all operands_ok (st_values st) \<Longrightarrow> list_all operands_ok (st_values (snd (in_state cfg b block st)))"
  by (simp add: in_state_def merge_fold_operands)

lemma update_block_operands:
  "list_all operands_ok (st_values (fst acc)) \<Longrightarrow> list_all operands_ok (st_values (fst (update_block cfg dm b acc)))"
  using in_state_operands [of "fst acc" cfg b]
  by (auto simp: update_block_def Let_def split_def split: option.split)

lemma fixpoint_operands:
  "list_all operands_ok (st_values (fst acc)) \<Longrightarrow> list_all operands_ok (st_values (fst (fixpoint n cfg dm order acc)))"
proof (induction n cfg dm order acc rule: fixpoint.induct)
  case (2 n cfg dm order st changed)
  have "list_all operands_ok (st_values (fst acc)) \<Longrightarrow>
      list_all operands_ok (st_values (fst (fold (update_block cfg dm) bs acc)))" for bs acc
    by (induction bs arbitrary: acc) (simp_all add: update_block_operands)
  then show ?case using 2 by simp
qed simp

lemma phi_operands_ok:
  "list_all operands_ok (fst acc) \<Longrightarrow> list_all operands_ok (fst (phi_operands cfg st e acc))"
  by (auto simp: phi_operands_def Let_def split_def operands_ok_def incoming_def intro!: list_all_update split: option.split)

lemma ssa_operands_ok:
  assumes "ssa_build cfg t = Some ssa"
  shows "list_all operands_ok (ssa_values ssa)"
proof -
  have fold: "list_all operands_ok (fst acc) \<Longrightarrow> list_all operands_ok (fst (fold (phi_operands cfg st) es acc))" for es st acc
    by (induction es arbitrary: acc) (simp_all add: phi_operands_ok)
  have "list_all operands_ok (st_values (fst (converge cfg t)))"
    using fixpoint_operands [of "(initial_state (base_values cfg), True)"] base_operands
    by (simp add: converge_def base_values_def initial_state_def split_def Let_def)
  then show ?thesis
    using assms fold by (auto simp: ssa_build_def split_def Let_def)
qed

lemma value_kind_at: "value_kind ssa v = kind_at (ssa_values ssa) v"
  by (simp add: value_kind_def kind_at_def)

lemma ssa_kinds:
  assumes "ssa_build cfg t = Some ssa" "value_kind ssa v = Some (SsaInstr pc reg b)"
  shows "kind_at (base_values cfg) v = Some (SsaInstr pc reg b)"
proof -
  obtain st c where st: "converge cfg t = (st, c)" by (cases "converge cfg t")
  then have "ssa_values ssa = fst (fold (phi_operands cfg st) (phi_entries cfg st) (st_values st, Map.empty))"
    using assms(1) by (auto simp: ssa_build_def split_def Let_def)
  then have "kind_at (st_values st) v = Some (SsaInstr pc reg b)"
    using assms(2) by (simp add: value_kind_at phi_operands_fold_kind)
  then show ?thesis using converge_spec(2) [OF st] unfolding adds_phis_def by blast
qed

lemma unique_name_operands:
  "unique_name lp ssa vs acc = Some name \<Longrightarrow> v \<in> set vs \<Longrightarrow>
   \<exists>pc reg b. value_kind ssa v = Some (SsaInstr pc reg b) \<and> variable_name lp (pc, reg) = Some name"
proof -
  have "unique_name lp ssa vs acc = Some name \<Longrightarrow> (acc = None \<or> acc = Some name) \<and>
      (\<forall>v \<in> set vs. \<exists>pc reg b. value_kind ssa v = Some (SsaInstr pc reg b) \<and> variable_name lp (pc, reg) = Some name)"
    by (induction lp ssa vs acc rule: unique_name.induct) (auto split: option.splits ssa_value_kind.splits if_splits)
  then show "unique_name lp ssa vs acc = Some name \<Longrightarrow> v \<in> set vs \<Longrightarrow>
      \<exists>pc reg b. value_kind ssa v = Some (SsaInstr pc reg b) \<and> variable_name lp (pc, reg) = Some name" by blast
qed

lemma variable_nameD: "variable_name lp key = Some name \<Longrightarrow> \<exists>v. (key, v) \<in> set (variables lp) \<and> name = var_name v"
  by (auto simp: variable_name_def dest: map_of_SomeD)

lemma names_ok_inj:
  "names_ok used lp \<Longrightarrow> variable_name lp key = Some name \<Longrightarrow> variable_name lp key' = Some name \<Longrightarrow> key = key'"
  unfolding names_ok_def by (blast dest: variable_nameD)

lemma phi_unresolved:
  assumes names: "names_ok used lp" and ssa: "ssa_build cfg t = Some ssa"
    and distinct: "distinct (map (\<lambda>(pc, reg, _). (pc, reg)) (all_defs cfg))"
  shows "resolve_phi_to_single_name lp ssa v = None"
proof (rule ccontr)
  assume "resolve_phi_to_single_name lp ssa v \<noteq> None"
  then obtain vs name where vs: "value_operands ssa v = Some vs" "vs \<noteq> []" "unique_name lp ssa vs None = Some name"
    by (auto simp: resolve_phi_to_single_name_def split: option.splits if_splits)
  have "operands_ok (ssa_values ssa ! v)"
    using ssa_operands_ok [OF ssa] vs(1) by (simp add: value_operands_def list_all_length split: if_splits)
  then have "distinct vs" "2 \<le> length vs" using vs(1,2) by (auto simp: operands_ok_def value_operands_def split: if_splits)
  then obtain x y rest where xy: "vs = x # y # rest" "x \<noteq> y" by (cases vs; cases "tl vs") auto
  obtain pc reg b where x: "value_kind ssa x = Some (SsaInstr pc reg b)" "variable_name lp (pc, reg) = Some name"
    using unique_name_operands [OF vs(3), of x] xy(1) by auto
  obtain pc' reg' b' where y: "value_kind ssa y = Some (SsaInstr pc' reg' b')" "variable_name lp (pc', reg') = Some name"
    using unique_name_operands [OF vs(3), of y] xy(1) by auto
  have "(pc, reg) = (pc', reg')" using names_ok_inj [OF names x(2) y(2)] .
  then have "x = y" using instr_value_unique [OF distinct ssa_kinds [OF ssa x(1)]] ssa_kinds [OF ssa y(1)] by simp
  then show False using xy(2) by simp
qed


section \<open>Names at uses\<close>

lemma lower_use_keeps [simp]:
  "variables (lower_use ssa key lp) = variables lp" "var_name_to_def_pc (lower_use ssa key lp) = var_name_to_def_pc lp"
  by (simp_all add: lower_use_def split: option.split)

lemma lower_fold_keeps [simp]:
  "variables (fold (lower_use ssa) keys lp) = variables lp"
  "var_name_to_def_pc (fold (lower_use ssa) keys lp) = var_name_to_def_pc lp"
  by (induction keys arbitrary: lp) simp_all

lemma variable_name_cong: "variables lp = variables lp' \<Longrightarrow> variable_name lp = variable_name lp'"
  by (simp add: variable_name_def fun_eq_iff)

lemma use_name_cong:
  assumes "variables lp = variables lp'"
  shows "use_name lp ssa v = use_name lp' ssa v"
proof -
  have "unique_name lp ssa vs acc = unique_name lp' ssa vs acc" for vs acc
    by (induction vs arbitrary: acc)
      (simp_all only: unique_name.simps variable_name_cong [OF assms] cong: option.case_cong ssa_value_kind.case_cong if_cong)
  then show ?thesis
    by (simp add: use_name_def resolve_phi_to_single_name_def variable_name_cong [OF assms] split: option.split ssa_value_kind.split)
qed

definition lowered_name :: "lifted_program \<Rightarrow> ssa_program \<Rightarrow> usize \<times> u8 \<Rightarrow> string option" where
  "lowered_name lp ssa key = (case use_value_by_pc_reg ssa key of Some v \<Rightarrow> use_name lp ssa v | None \<Rightarrow> None)"

lemma lower_use_at:
  "map_of (var_at_use (lower_use ssa key lp)) k =
     (if k = key then (case lowered_name lp ssa key of Some n \<Rightarrow> Some n | None \<Rightarrow> map_of (var_at_use lp) k)
      else map_of (var_at_use lp) k)"
  by (auto simp: lower_use_def lowered_name_def update_conv' split: option.split)

lemma lowered_name_cong: "variables lp = variables lp' \<Longrightarrow> lowered_name lp ssa key = lowered_name lp' ssa key"
  using use_name_cong [of lp lp' ssa] by (simp add: lowered_name_def split: option.split)

lemma lower_fold_at:
  "k \<in> set keys \<Longrightarrow> lowered_name lp ssa k = Some n \<Longrightarrow> map_of (var_at_use (fold (lower_use ssa) keys lp)) k = Some n"
proof (induction keys rule: rev_induct)
  case (snoc key keys)
  have "lowered_name (fold (lower_use ssa) keys lp) ssa key = lowered_name lp ssa key" by (rule lowered_name_cong) simp
  then show ?case using snoc by (auto simp: lower_use_at)
qed simp

lemma use_key_mem:
  assumes "ssa_build cfg t = Some ssa" "use_value_by_pc_reg ssa (pc, reg) = Some v"
  shows "(pc, reg) \<in> set (use_keys cfg)"
proof -
  obtain us us' where us: "uses_of_blocks cfg (snd (def_values cfg)) (fst (converge cfg t)) (block_order cfg t) us = Some us'"
      "use_value_by_pc_reg ssa = use_map us'" "use_map us = Map.empty"
    using assms(1) by (auto simp: ssa_build_def split_def Let_def)
  obtain b block m where b: "get_block cfg b = Some block" "read_at (snd (def_values cfg)) (block_instrs block) m pc reg v"
    using uses_of_blocks_spec [OF us(1), of pc reg v] assms(2) us(2,3) by auto
  then obtain i where "(pc, i) \<in> set (block_instrs block)" "reg \<in> set (instr_uses i)"
    unfolding read_at_def by (metis in_set_conv_decomp)
  moreover have "(b, block) \<in> set (blocks cfg)" using b(1) by (auto simp: get_block_def dest: map_of_SomeD)
  ultimately show ?thesis by (force simp: use_keys_def cfg_instructions_def)
qed

lemma defs_at_pc_analyze: "program_graph cfg \<Longrightarrow> defs_at_pc (analyze cfg) = defs_at_pc (collect_def_use cfg program_graph.initial)"
  by (simp add: analyze_def Let_def compute_liveness_def build_chains_def program_graph.initial_def)

lemma defined_variable:
  assumes g: "program_graph cfg" and b: "get_block cfg b = Some block" "(pc, i) \<in> set (block_instrs block)" "reg \<in> set (instr_defs i)"
  shows "\<exists>name. variable_name (assign_variables cfg (analyze cfg) empty_lifted) (pc, reg) = Some name"
proof -
  have "entry_of (defs_at_pc (analyze cfg)) pc = fst (extract_def_use i)"
    unfolding defs_at_pc_analyze [OF g] using program_graph.collected [OF g b(1,2)] by blast
  moreover have "reg \<in> set (fst (extract_def_use i))" using b(3) by (simp add: instr_defs_def extract_def_use_def)
  ultimately obtain ds where ds: "defs_at_pc (analyze cfg) pc = Some ds" "reg \<in> set ds"
    by (cases "defs_at_pc (analyze cfg) pc") (simp_all add: entry_of_def)
  have "b \<in> set (sorted_blocks cfg)" "(pc, i) \<in> set (block_code cfg b)"
    using b(1,2) by (force simp: sorted_blocks_def get_block_def block_code_def dest: map_of_SomeD)+
  then have "(pc, reg) \<in> set (definition_order cfg (analyze cfg))" using ds by (force simp: definition_order_def)
  then have "(pc, reg) \<in> fst ` set (variables (assign_variables cfg (analyze cfg) empty_lifted))"
    by (simp add: assign_variables_names(2))
  then show ?thesis
    by (cases "map_of (variables (assign_variables cfg (analyze cfg) empty_lifted)) (pc, reg)")
      (auto simp: variable_name_def map_of_eq_None_iff)
qed

lemma instr_value_defined:
  assumes "kind_at (base_values cfg) v = Some (SsaInstr pc reg b)"
  shows "(pc, reg, b) \<in> set (all_defs cfg)"
proof -
  have "v < length (base_values cfg)" "SsaInstr pc reg b = ssa_kind (base_values cfg ! v)"
    using assms by (simp_all add: kind_at_def split: if_splits)
  then have "SsaInstr pc reg b \<in> set (map ssa_kind (base_values cfg))" by simp
  also have "map ssa_kind (base_values cfg) = map ssa_kind initial_values @ map (\<lambda>(pc, reg, b). SsaInstr pc reg b) (all_defs cfg)"
    by (simp add: base_values_def def_values_def add_def_kinds)
  finally show ?thesis by (auto dest: initial_values_kinds [of _ pc reg b] simp: eq_commute [of "SsaInstr pc reg b"])
qed


section \<open>Properties\<close>

text \<open>Every definition has a name of its own: the variables are those of the definitions of the graph, no two
  share a name, and the index finds the position of a name.\<close>

theorem variable_names_unique:
  assumes "lp = assign_variables cfg df empty_lifted" "(key, v) \<in> set (variables lp)"
  shows "key \<in> set (definition_order cfg df) \<and> var_name_to_def_pc lp (var_name v) = Some (fst key) \<and>
    {k. variable_name lp k = Some (var_name v)} = {key}"
proof -
  obtain used where ok: "names_ok used lp" using assms(1) assign_variables_names(1) by blast
  have "key \<in> fst ` set (variables lp)" using assms(2) by force
  then have "key \<in> set (definition_order cfg df)" using assms(1) assign_variables_names(2) by simp
  moreover have "var_name_to_def_pc lp (var_name v) = Some (fst key)" "distinct (map fst (variables lp))"
    using ok assms(2) unfolding names_ok_def by blast+
  moreover from this have "variable_name lp key = Some (var_name v)" using assms(2) by (simp add: variable_name_def)
  ultimately show ?thesis using names_ok_inj [OF ok] by blast
qed

definition sum_program :: decoded_program where
  "sum_program = \<lparr>jump_table = [], instructions = [(0, LoadImm 2 5), (3, ThreeReg Add64 3 2 1), (6, Trap)],
     code_len = 7, memory_base = None\<rparr>"

definition sum_graph :: control_flow_graph where
  "sum_graph = reorder (build sum_program) []"

definition sum_tree :: dominator_tree where
  "sum_tree = the (compute sum_graph)"

theorem variable_names_unique_witness:
  "{k. variable_name (assign_variables sum_graph (analyze sum_graph) empty_lifted) k = Some ''var_1''} = {(3, 3)}"
proof -
  have "((3, 3), \<lparr>var_name = ''var_1'', var_type = TU64\<rparr>)
      \<in> set (variables (assign_variables sum_graph (analyze sum_graph) empty_lifted))" by code_simp
  from variable_names_unique [OF refl this] show ?thesis by simp
qed

text \<open>C14: the name that the value graph gives a use belongs to the reaching definition: in the graph of a decoded
  program whose entry is no jump target, when the value of a use is a definition, the use is given the name
  of that definition's variable, the index points to it, and it is the last definition of the register on
  every walk from the entry to the use.\<close>

theorem use_names_sound:
  assumes p: "valid_program p" and cfg: "cfg = reorder (build p) bs"
    and entry: "cfg_preds cfg 0 = []" and converged: "\<not> snd (converge cfg t)" and ssa: "ssa_build cfg t = Some ssa"
    and lp: "lp = lower_ssa_to_lifted_uses cfg ssa (assign_variables cfg (analyze cfg) empty_lifted)"
    and use: "use_value_by_pc_reg ssa (pc, reg) = Some v" "value_kind ssa v = Some (SsaInstr dpc dreg dblock)"
    and walk: "entry_walk cfg (ws @ [b])" and at: "block_code cfg b = pre @ (pc, i) # post"
  shows "\<exists>name. map_of (var_at_use lp) (pc, reg) = Some name \<and> variable_name lp (dpc, reg) = Some name \<and>
    var_name_to_def_pc lp name = Some dpc \<and> last_def reg (walk_events cfg ws @ At b # execs pre) = Some dpc"
proof -
  let ?lp = "assign_variables cfg (analyze cfg) empty_lifted"
  have d: "dreg = reg" "last_def reg (walk_events cfg ws @ At b # execs pre) = Some dpc"
    using ssa_use_sound [OF valid_wf [OF p] cfg entry converged ssa use(1) walk at] use(2)
    by (auto simp: describes_def value_kind_at)
  have g: "program_graph cfg" unfolding cfg by (rule program_graph_build [OF p])
  have "(dpc, reg, dblock) \<in> set (all_defs cfg)"
    using instr_value_defined [OF ssa_kinds [OF ssa use(2)]] d(1) by simp
  then obtain j where "(dpc, j) \<in> set (block_code cfg dblock)" "reg \<in> set (instr_defs j)"
    by (auto simp: all_defs_def)
  then obtain block where "get_block cfg dblock = Some block" "(dpc, j) \<in> set (block_instrs block)" "reg \<in> set (instr_defs j)"
    by (cases "get_block cfg dblock") (auto simp: block_code_def)
  then obtain name where name: "variable_name ?lp (dpc, reg) = Some name" using defined_variable [OF g] by blast
  have "lowered_name ?lp ssa (pc, reg) = Some name" using use d(1) name by (simp add: lowered_name_def use_name_def)
  then have "map_of (var_at_use lp) (pc, reg) = Some name"
    unfolding lp lower_ssa_to_lifted_uses_def by (rule lower_fold_at [OF use_key_mem [OF ssa use(1)]])
  moreover have same: "variables lp = variables ?lp" "var_name_to_def_pc lp = var_name_to_def_pc ?lp"
    by (simp_all add: lp lower_ssa_to_lifted_uses_def)
  moreover have "variable_name lp (dpc, reg) = Some name" using name variable_name_cong [OF same(1)] by simp
  moreover have "var_name_to_def_pc lp name = Some dpc"
  proof -
    obtain var where "((dpc, reg), var) \<in> set (variables ?lp)" "name = var_name var" using variable_nameD [OF name] by blast
    then show ?thesis using assign_variables_names(1) [of cfg "analyze cfg"] same(2) by (auto simp: names_ok_def)
  qed
  ultimately show ?thesis using d(2) by blast
qed

lemma sum_facts:
  "valid_program sum_program" "cfg_preds sum_graph 0 = []" "\<not> snd (converge sum_graph sum_tree)"
  "entry_walk sum_graph ([] @ [0])"
  "block_code sum_graph 0 = [(0, LoadImm 2 5)] @ (3, ThreeReg Add64 3 2 1) # [(6, Trap)]"
  by (simp add: valid_program_def wf_program_def sum_program_def) code_simp+

lemma sum_values:
  "map_option (\<lambda>ssa. (use_value_by_pc_reg ssa (3, 2), value_kind ssa 26)) (ssa_build sum_graph sum_tree)
     = Some (Some 26, Some (SsaInstr 0 2 0))"
  by code_simp

theorem use_names_sound_witness:
  "\<exists>ssa name. ssa_build sum_graph sum_tree = Some ssa \<and>
     map_of (var_at_use (lower_ssa_to_lifted_uses sum_graph ssa (assign_variables sum_graph (analyze sum_graph) empty_lifted))) (3, 2) = Some name \<and>
     last_def 2 (walk_events sum_graph [] @ At 0 # execs [(0, LoadImm 2 5)]) = Some 0"
proof -
  obtain ssa where ssa: "ssa_build sum_graph sum_tree = Some ssa" "use_value_by_pc_reg ssa (3, 2) = Some 26"
      "value_kind ssa 26 = Some (SsaInstr 0 2 0)"
    using sum_values by (auto simp: map_option_eq_Some)
  show ?thesis
    using use_names_sound [OF sum_facts(1) sum_graph_def sum_facts(2,3) ssa(1) refl ssa(2,3) sum_facts(4,5)] ssa(1) by blast
qed

text \<open>A merge never gets a name from its operands: they are different definitions, and different definitions
  have different names. Its uses keep the name that one of the reaching definitions gave them.\<close>

theorem phi_never_resolved:
  assumes "wf_program p" "cfg = reorder (build p) bs" "ssa_build cfg t = Some ssa"
  shows "resolve_phi_to_single_name (assign_variables cfg df empty_lifted) ssa v = None"
proof -
  have "distinct (map fst (blocks cfg))" using assms(2) by (simp add: reorder_same(5) keys_build)
  then have "distinct (map (\<lambda>(pc, reg, _). (pc, reg)) (all_defs cfg))"
    using all_defs_distinct unique_pcs_build [OF assms(1)] assms(2) by blast
  then show ?thesis using phi_unresolved assign_variables_names(1) assms(3) by blast
qed

theorem phi_never_resolved_witness:
  "\<exists>ssa. ssa_build merge_graph merge_tree = Some ssa \<and> value_kind ssa 28 = Some (SsaPhi 6 1) \<and>
     resolve_phi_to_single_name (assign_variables merge_graph (analyze merge_graph) empty_lifted) ssa 28 = None"
proof -
  obtain ssa where ssa: "ssa_build merge_graph merge_tree = Some ssa" "kind_at (ssa_values ssa) 28 = Some (SsaPhi 6 1)"
    using merge_values by (auto simp: map_option_eq_Some)
  then show ?thesis
    using phi_never_resolved [OF merge_facts(1) merge_graph_def ssa(1)] by (simp add: value_kind_at)
qed

text \<open>In this program the use after the branch is given the name of the definition on one of the two paths, a
  variable that the other path never assigns.\<close>

theorem merge_use_named_after_one_path:
  "map_option (\<lambda>ssa. let lp = lower_ssa_to_lifted_uses merge_graph ssa (assign_variables merge_graph (analyze merge_graph) empty_lifted)
       in (map_of (var_at_use lp) (6, 1), variable_name lp (3, 1))) (ssa_build merge_graph merge_tree)
     = Some (Some ''var_0'', Some ''var_0'') \<and>
   entry_walk merge_graph [0, 6] \<and> last_def 1 (walk_events merge_graph [0] @ [At 6]) = None"
  by (intro conjI) code_simp+

end
