(* ===== verification/Lifted_Correct.thy ===== *)
theory Lifted_Correct
  imports Lifted_Passes Expression_Correct Dominators_Correct
begin

text \<open>
  The rewriting passes replace equals by equals. A valuation is a model of a lifted program when every
  variable has the value of its defining expression; the passes for constants, copies and folding keep
  the value of every expression in every model, and keep the models. Folding and copy propagation leave
  nothing to do. Named stack slots are stored before they are loaded.
\<close>

section \<open>Models\<close>

definition models :: "valuation \<Rightarrow> lifted_program \<Rightarrow> bool" where
  "models env lp \<longleftrightarrow> (\<forall>key v e. (key, v) \<in> set (variables lp) \<longrightarrow> expr_at lp (fst key) = Some e \<longrightarrow>
     \<not> is_raw_or_store e \<longrightarrow> var_value env (var_name v) = eval env e)"

lemma modelsD:
  "models env lp \<Longrightarrow> (key, v) \<in> set (variables lp) \<Longrightarrow> expr_at lp (fst key) = Some e \<Longrightarrow> \<not> is_raw_or_store e \<Longrightarrow>
   var_value env (var_name v) = eval env e"
  unfolding models_def by blast

text \<open>The same expressions up to their form: the positions, the values, and which are statements.\<close>

definition same_expr :: "valuation \<Rightarrow> expression \<Rightarrow> expression \<Rightarrow> bool" where
  "same_expr env e e' \<longleftrightarrow> eval env e' = eval env e \<and> is_raw_or_store e' = is_raw_or_store e"

definition same_values :: "valuation \<Rightarrow> lifted_program \<Rightarrow> lifted_program \<Rightarrow> bool" where
  "same_values env lp lp' \<longleftrightarrow> variables lp' = variables lp \<and>
     (\<forall>pc. rel_option (same_expr env) (expr_at lp pc) (expr_at lp' pc))"

lemma same_expr_refl [simp]: "same_expr env e e"
  by (simp add: same_expr_def)

lemma same_expr_trans: "same_expr env a b \<Longrightarrow> same_expr env b c \<Longrightarrow> same_expr env a c"
  by (simp add: same_expr_def)

lemma rel_same_refl [simp]: "rel_option (same_expr env) x x"
  by (cases x) simp_all

lemma same_values_refl [simp]: "same_values env lp lp"
  by (simp add: same_values_def)

lemma rel_same_trans: "rel_option (same_expr env) x y \<Longrightarrow> rel_option (same_expr env) y z \<Longrightarrow> rel_option (same_expr env) x z"
  by (cases x; cases y; cases z) (auto intro: same_expr_trans)

lemma same_values_trans: "same_values env a b \<Longrightarrow> same_values env b c \<Longrightarrow> same_values env a c"
  unfolding same_values_def using rel_same_trans by metis

lemma same_valuesD:
  "same_values env lp lp' \<Longrightarrow> expr_at lp' pc = Some e' \<Longrightarrow> \<exists>e. expr_at lp pc = Some e \<and> same_expr env e e'"
  by (auto simp: same_values_def option_rel_Some2 dest: spec [of _ pc])

text \<open>What keeps the values keeps the models.\<close>

lemma models_same: "models env lp \<Longrightarrow> same_values env lp lp' \<Longrightarrow> models env lp'"
  unfolding models_def
proof (intro allI impI)
  fix key v e'
  assume m: "\<forall>key v e. (key, v) \<in> set (variables lp) \<longrightarrow> expr_at lp (fst key) = Some e \<longrightarrow> \<not> is_raw_or_store e \<longrightarrow>
      var_value env (var_name v) = eval env e"
    and s: "same_values env lp lp'" and v: "(key, v) \<in> set (variables lp')"
    and e': "expr_at lp' (fst key) = Some e'" "\<not> is_raw_or_store e'"
  obtain e where "expr_at lp (fst key) = Some e" "same_expr env e e'" using same_valuesD [OF s e'(1)] by blast
  moreover have "(key, v) \<in> set (variables lp)" using v s by (simp add: same_values_def)
  ultimately have "var_value env (var_name v) = eval env e" using m e'(2) unfolding same_expr_def by blast
  then show "var_value env (var_name v) = eval env e'" using \<open>same_expr env e e'\<close> by (simp add: same_expr_def)
qed

text \<open>A pass that keeps the values of the models it starts from; such passes compose.\<close>

definition keeps :: "valuation \<Rightarrow> (lifted_program \<Rightarrow> lifted_program) \<Rightarrow> bool" where
  "keeps env f \<longleftrightarrow> (\<forall>lp. models env lp \<longrightarrow> same_values env lp (f lp))"

lemma keepsD: "keeps env f \<Longrightarrow> models env lp \<Longrightarrow> same_values env lp (f lp) \<and> models env (f lp)"
  unfolding keeps_def by (blast intro: models_same)

lemma keeps_comp: "keeps env f \<Longrightarrow> keeps env g \<Longrightarrow> keeps env (\<lambda>lp. g (f lp))"
  unfolding keeps_def by (blast intro: models_same same_values_trans)

lemma keeps_fold: "(\<And>x. keeps env (f x)) \<Longrightarrow> keeps env (fold f xs)"
proof (induction xs)
  case (Cons x xs)
  then show ?case using keeps_comp [of env "f x" "fold f xs"] by (simp add: comp_def)
qed (simp add: keeps_def)


section \<open>Rewriting expressions\<close>

lemma eliminate_same [simp]: "same_values env lp (eliminate pc lp') = same_values env lp lp'"
  by (simp add: same_values_def)

lemma map_exprs_same: "(\<And>e. same_expr env e (f e)) \<Longrightarrow> same_values env lp (map_exprs f lp)"
  by (simp add: same_values_def option.rel_map option.rel_refl)

lemma set_expr_same: "expr_at lp pc = Some e \<Longrightarrow> same_expr env e e' \<Longrightarrow> same_values env lp (set_expr pc e' lp)"
  by (simp add: same_values_def)

text \<open>Replacing a variable by an expression of its value. A statement is not put for a variable.\<close>

lemma substitute_statement: "\<not> is_raw_or_store r \<Longrightarrow> is_raw_or_store (substitute_var e x r) = is_raw_or_store e"
  by (cases e) (simp_all add: is_raw_or_store_def)

lemma substitute_same: "var_value env x = eval env r \<Longrightarrow> \<not> is_raw_or_store r \<Longrightarrow> same_expr env e (substitute_var e x r)"
  by (simp add: same_expr_def substitute_same_value substitute_statement)

lemma rename_statement: "is_raw_or_store (rename_vars_multi e m) = is_raw_or_store e"
  by (cases e) (simp_all add: is_raw_or_store_def split: option.split)

lemma rename_same: "(\<And>n n'. m n = Some n' \<Longrightarrow> var_value env n' = var_value env n) \<Longrightarrow> same_expr env e (rename_vars_multi e m)"
  by (simp add: same_expr_def rename_same_value rename_statement)


section \<open>Constants\<close>

lemma propagate_constant_same:
  assumes "\<And>name. variable_name lp key = Some name \<Longrightarrow> var_value env name = c"
  shows "same_values env lp (propagate_constant (key, c) lp)"
proof (cases "variable_name lp key")
  case (Some name)
  then have "same_expr env e (substitute_var e name (Const c))" for e
    using assms by (intro substitute_same) (simp_all add: is_raw_or_store_def)
  then show ?thesis using map_exprs_same by (simp add: propagate_constant_def Some)
qed (simp add: propagate_constant_def)

lemma single_use_constant_value:
  assumes "models env lp" "distinct (map fst (variables lp))" "(key, c) \<in> set (single_use_constants lp)" "variable_name lp key = Some name"
  shows "var_value env name = c"
proof -
  obtain v where v: "(key, v) \<in> set (variables lp)" "expr_at lp (fst key) = Some (Const c)"
    using assms(3) by (auto simp: single_use_constants_def split: option.splits expression.splits if_splits)
  then have "name = var_name v" using assms(2,4) by (simp add: variable_name_def)
  then show ?thesis using modelsD [OF assms(1) v] by (simp add: is_raw_or_store_def)
qed

lemma propagate_constants_same:
  assumes "models env lp" "distinct (map fst (variables lp))"
  shows "same_values env lp (propagate_constants lp)"
proof -
  have "same_values env lp lp' \<Longrightarrow> set ds \<subseteq> set (single_use_constants lp) \<Longrightarrow> same_values env lp (fold propagate_constant ds lp')" for ds lp'
  proof (induction ds arbitrary: lp')
    case (Cons d ds)
    obtain key c where d: "d = (key, c)" by (cases d)
    have "variable_name lp' key = variable_name lp key" using Cons.prems(1) by (simp add: variable_name_def same_values_def)
    then have "same_values env lp' (propagate_constant (key, c) lp')"
      using single_use_constant_value [OF assms, of key c] Cons.prems(2) d by (intro propagate_constant_same) auto
    then have "same_values env lp (propagate_constant d lp')" using Cons.prems(1) same_values_trans d by blast
    then show ?case using Cons by simp
  qed simp
  then show ?thesis by (simp add: propagate_constants_def)
qed


section \<open>Folding\<close>

text \<open>What a candidate is: a variable with the position of its definition, which is no statement.\<close>

definition foldable :: "lifted_program \<Rightarrow> usize \<times> string \<times> usize \<Rightarrow> bool" where
  "foldable lp c \<longleftrightarrow> (\<exists>key v e. (key, v) \<in> set (variables lp) \<and> fst key = fst c \<and> var_name v = fst (snd c) \<and>
     expr_at lp (fst c) = Some e \<and> \<not> is_raw_or_store e)"

lemma foldableI:
  "((dpc, reg), v) \<in> set (variables lp) \<Longrightarrow> expr_at lp dpc = Some e \<Longrightarrow> \<not> is_raw_or_store e \<Longrightarrow> foldable lp (dpc, var_name v, upc)"
  unfolding foldable_def by force

lemma foldable_same: "same_values env lp lp' \<Longrightarrow> foldable lp c \<Longrightarrow> foldable lp' c"
proof -
  assume s: "same_values env lp lp'" and "foldable lp c"
  then obtain key v e where e: "(key, v) \<in> set (variables lp)" "fst key = fst c" "var_name v = fst (snd c)"
      "expr_at lp (fst c) = Some e" "\<not> is_raw_or_store e"
    unfolding foldable_def by blast
  have "rel_option (same_expr env) (Some e) (expr_at lp' (fst c))" using s e(4) unfolding same_values_def by metis
  then obtain e' where "expr_at lp' (fst c) = Some e'" "same_expr env e e'" by (auto simp: option_rel_Some1)
  moreover have "(key, v) \<in> set (variables lp')" using e(1) s by (simp add: same_values_def)
  ultimately show "foldable lp' c" using e(2,3,5) unfolding foldable_def same_expr_def by blast
qed

lemma apply_fold_same:
  assumes "models env lp" "foldable lp c"
  shows "same_values env lp (fst (apply_fold c (lp, changed)))"
proof -
  obtain dpc name upc where c: "c = (dpc, name, upc)" by (cases c)
  obtain key v e where e: "(key, v) \<in> set (variables lp)" "fst key = dpc" "var_name v = name" "expr_at lp dpc = Some e" "\<not> is_raw_or_store e"
    using assms(2) unfolding foldable_def c by auto
  have "var_value env name = eval env e" using modelsD [OF assms(1) e(1)] e by simp
  then show ?thesis
    using e(4,5) set_expr_same substitute_same by (simp add: apply_fold_def c split: option.split)
qed

lemma fold_round_same:
  "models env lp \<Longrightarrow> \<forall>c \<in> set cs. foldable lp c \<Longrightarrow> same_values env lp (fst (fold apply_fold cs (lp, changed)))"
proof (induction cs arbitrary: lp changed)
  case (Cons c cs)
  obtain lp' ch where step: "apply_fold c (lp, changed) = (lp', ch)" by (cases "apply_fold c (lp, changed)")
  have s: "same_values env lp lp'" using apply_fold_same [OF Cons.prems(1), of c changed] Cons.prems(2) step by simp
  have "same_values env lp' (fst (fold apply_fold cs (lp', ch)))"
    by (rule Cons.IH) (use models_same [OF Cons.prems(1) s] foldable_same [OF s] Cons.prems(2) in auto)
  then show ?case using same_values_trans [OF s] by (simp add: step)
qed simp

lemma fold_candidate_foldable:
  assumes "d \<in> set (variables lp)" "c \<in> set (fold_candidate later_of lp d)"
  shows "foldable lp c"
proof -
  obtain dpc reg v where d: "d = ((dpc, reg), v)" by (metis prod.collapse)
  obtain e upc where "expr_at lp dpc = Some e" "\<not> is_raw_or_store e" "c = (dpc, var_name v, upc)"
    using assms(2) unfolding fold_candidate_def d
    by (cases "expr_at lp dpc") (auto simp: Let_def split: if_splits option.splits)
  then show ?thesis using foldableI assms(1) unfolding d by blast
qed

lemma side_effect_free: "\<not> has_side_effects e \<Longrightarrow> \<not> is_raw_or_store e"
  by (cases e) (simp_all add: is_raw_or_store_def)

lemma cross_candidate_foldable:
  assumes "d \<in> set (variables lp)" "c \<in> set (cross_candidate block_of bodies t ssa lp d)"
  shows "foldable lp c"
proof -
  obtain dpc reg v where d: "d = ((dpc, reg), v)" by (metis prod.collapse)
  obtain e upc where "expr_at lp dpc = Some e" "\<not> has_side_effects e" "c = (dpc, var_name v, upc)"
    using assms(2) unfolding cross_candidate_def d
    by (cases "expr_at lp dpc") (auto simp: Let_def split: if_splits option.splits)
  then show ?thesis using foldableI side_effect_free assms(1) unfolding d by blast
qed

lemma fold_loop_same: "models env lp \<Longrightarrow> same_values env lp (fold_loop cfg lp)"
proof (induction cfg lp rule: fold_loop.induct)
  case (1 cfg lp)
  obtain lp' changed where r: "fold apply_fold (fold_candidates cfg lp) (lp, False) = (lp', changed)"
    by (cases "fold apply_fold (fold_candidates cfg lp) (lp, False)")
  have "\<forall>c \<in> set (fold_candidates cfg lp). foldable lp c"
    using fold_candidate_foldable by (auto simp: fold_candidates_def)
  then have s: "same_values env lp lp'" using fold_round_same [OF 1(2), of "fold_candidates cfg lp" False] r by simp
  show ?case
    using 1(1) [OF r [symmetric] refl] s models_same [OF 1(2) s] same_values_trans [OF s]
    by (subst fold_loop.simps) (simp add: r)
qed

lemma cross_loop_same: "models env lp \<Longrightarrow> same_values env lp (cross_loop cfg t ssa lp)"
proof (induction cfg t ssa lp rule: cross_loop.induct)
  case (1 cfg t ssa lp)
  obtain lp' changed where r: "fold apply_fold (cross_candidates cfg t ssa lp) (lp, False) = (lp', changed)"
    by (cases "fold apply_fold (cross_candidates cfg t ssa lp) (lp, False)")
  have "\<forall>c \<in> set (cross_candidates cfg t ssa lp). foldable lp c"
    using cross_candidate_foldable by (auto simp: cross_candidates_def Let_def)
  then have s: "same_values env lp lp'" using fold_round_same [OF 1(2), of "cross_candidates cfg t ssa lp" False] r by simp
  show ?case
    using 1(1) [OF r [symmetric] refl] s models_same [OF 1(2) s] same_values_trans [OF s]
    by (subst cross_loop.simps) (simp add: r)
qed


section \<open>Copies\<close>

definition equal_names :: "valuation \<Rightarrow> (string \<times> string) list \<Rightarrow> bool" where
  "equal_names env m \<longleftrightarrow> (\<forall>a b. map_of m a = Some b \<longrightarrow> var_value env b = var_value env a)"

lemma equal_names_update: "equal_names env m \<Longrightarrow> var_value env b = var_value env a \<Longrightarrow> equal_names env (AList.update a b m)"
  by (simp add: equal_names_def update_conv')

lemma chase_value: "equal_names env m \<Longrightarrow> var_value env (chase m seen target) = var_value env target"
proof (induction m seen target rule: chase.induct)
  case (1 m seen target)
  then show ?case by (subst chase.simps) (auto simp: equal_names_def split: option.split)
qed

lemma resolve_key_equal: "equal_names env m \<Longrightarrow> equal_names env (resolve_key key m)"
  using chase_value [of env m]
  by (auto simp: resolve_key_def equal_names_update equal_names_def [of env m] split: option.split intro!: equal_names_update)

lemma resolve_chains_equal: "equal_names env m \<Longrightarrow> equal_names env (resolve_chains m)"
proof -
  have "equal_names env m \<Longrightarrow> equal_names env (fold resolve_key keys m)" for keys m
    by (induction keys arbitrary: m) (simp_all add: resolve_key_equal)
  then show "equal_names env m \<Longrightarrow> equal_names env (resolve_chains m)" unfolding resolve_chains_def by blast
qed

lemma copy_definitionD:
  "(dpc, name, source) \<in> set (copy_definitions processed lp) \<Longrightarrow>
   \<exists>key v. (key, v) \<in> set (variables lp) \<and> fst key = dpc \<and> var_name v = name \<and> expr_at lp dpc = Some (Var source)"
  by (force simp: copy_definitions_def split: if_splits option.splits expression.splits)

lemma copy_definition_value:
  assumes "models env lp" "(dpc, name, source) \<in> set (copy_definitions processed lp)"
  shows "var_value env source = var_value env name"
proof -
  obtain key v where kv: "(key, v) \<in> set (variables lp)" "expr_at lp (fst key) = Some (Var source)" "var_name v = name"
    using copy_definitionD [OF assms(2)] by blast
  then show ?thesis using modelsD [OF assms(1) kv(1,2)] by (simp add: is_raw_or_store_def)
qed

lemma rename_entries_equal:
  assumes "models env lp" "set cs \<subseteq> set (copy_definitions processed lp)"
  shows "equal_names env (rename_entries cs)"
proof -
  have "equal_names env (fold (\<lambda>(_, name, source). AList.update name source) cs m)"
    if "equal_names env m" "set cs \<subseteq> set (copy_definitions processed lp)" for cs m
    using that
  proof (induction cs arbitrary: m)
    case (Cons c cs)
    obtain dpc name source where c: "c = (dpc, name, source)" by (cases c)
    have "var_value env source = var_value env name"
      by (rule copy_definition_value [OF assms(1), of dpc name source processed]) (use Cons.prems(2) c in simp)
    then have "equal_names env (AList.update name source m)" by (rule equal_names_update [OF Cons.prems(1)])
    then show ?case using Cons.IH [of "AList.update name source m"] Cons.prems(2) by (simp add: c)
  qed simp
  moreover have "equal_names env []" by (simp add: equal_names_def)
  ultimately show ?thesis using assms(2) unfolding rename_entries_def by blast
qed

lemma rename_all_same: "equal_names env m \<Longrightarrow> same_values env lp (rename_all (map_of m) lp)"
  by (simp add: same_values_def option.rel_map equal_names_def rename_same option.rel_refl)

lemma fold_eliminate_same [simp]: "same_values env lp (fold eliminate pcs lp') = same_values env lp lp'"
  by (simp add: same_values_def)

lemma copy_loop_same: "models env lp \<Longrightarrow> same_values env lp (copy_loop processed lp)"
proof (induction processed lp rule: copy_loop.induct)
  case (1 processed lp)
  let ?cs = "copy_definitions processed lp"
  let ?lp = "fold eliminate (map fst ?cs) (rename_all (map_of (resolve_chains (rename_entries ?cs))) lp)"
  have s: "same_values env lp ?lp"
    using rename_all_same [OF resolve_chains_equal [OF rename_entries_equal [OF 1(2) order_refl]]] by simp
  show ?case
  proof (cases "?cs = []")
    case False
    have "same_values env ?lp (copy_loop (processed \<union> set (map fst ?cs)) ?lp)"
      by (rule 1(1) [OF refl False models_same [OF 1(2) s]])
    then show ?thesis using same_values_trans [OF s] False by (subst copy_loop.simps) (simp add: Let_def)
  qed (subst copy_loop.simps, simp)
qed


section \<open>Nothing left to do\<close>

lemma apply_fold_quiet:
  "\<not> snd (apply_fold c acc) \<Longrightarrow> apply_fold c acc = acc \<and> (expr_at (fst acc) (fst c) = None \<or> expr_at (fst acc) (snd (snd c)) = None)"
  by (cases c; cases acc) (auto simp: apply_fold_def split: option.splits)

lemma fold_apply_changed: "snd acc \<Longrightarrow> snd (fold apply_fold cs acc)"
  by (induction cs arbitrary: acc) (simp_all add: apply_fold_step)

lemma fold_apply_quiet:
  "\<not> snd (fold apply_fold cs (lp, False)) \<Longrightarrow> fst (fold apply_fold cs (lp, False)) = lp \<and>
   (\<forall>c \<in> set cs. expr_at lp (fst c) = None \<or> expr_at lp (snd (snd c)) = None)"
proof (induction cs)
  case (Cons c cs)
  have "\<not> snd (apply_fold c (lp, False))" using Cons.prems fold_apply_changed [of "apply_fold c (lp, False)" cs] by auto
  note q = apply_fold_quiet [OF this]
  then show ?case using Cons by simp
qed simp

lemma fold_candidate_parts:
  assumes "c \<in> set (fold_candidate later_of lp d)"
  shows "expr_at lp (fst c) \<noteq> None \<and> snd (snd c) \<in> fst ` set (expressions lp) \<union> fst ` fst ` set (var_at_use lp)"
proof -
  obtain e pcs where e: "expr_at lp (fst (fst d)) = Some e" "fst c = fst (fst d)"
      "List.find (\<lambda>pc. pc \<in> build_var_use_index lp (var_name (snd d))) pcs = Some (snd (snd c))"
    using assms unfolding fold_candidate_def
    by (cases "expr_at lp (fst (fst d))") (auto simp: Let_def split: if_splits option.splits)
  then have "snd (snd c) \<in> build_var_use_index lp (var_name (snd d))" by (auto simp: find_Some_iff)
  then show ?thesis using e(1,2) by (auto simp: build_var_use_index_def image_iff) (metis fst_conv)+
qed

lemma expr_keys: "dom (expr_at lp) = fst ` set (expressions lp)"
  by (simp add: expr_at_def dom_map_of_conv_image_fst)

definition uses_have_expressions :: "lifted_program \<Rightarrow> bool" where
  "uses_have_expressions lp \<longleftrightarrow> fst ` fst ` set (var_at_use lp) \<subseteq> dom (expr_at lp)"

lemma apply_fold_uses: "uses_have_expressions (fst acc) \<Longrightarrow> uses_have_expressions (fst (apply_fold c acc))"
  by (cases c; cases acc) (auto simp: uses_have_expressions_def apply_fold_def split: option.splits)

lemma fold_apply_uses: "uses_have_expressions (fst acc) \<Longrightarrow> uses_have_expressions (fst (fold apply_fold cs acc))"
  by (induction cs arbitrary: acc) (simp_all add: apply_fold_uses)

lemma fold_loop_complete: "uses_have_expressions lp \<Longrightarrow> fold_candidates cfg (fold_loop cfg lp) = []"
proof (induction cfg lp rule: fold_loop.induct)
  case (1 cfg lp)
  obtain lp' changed where r: "fold apply_fold (fold_candidates cfg lp) (lp, False) = (lp', changed)"
    by (cases "fold apply_fold (fold_candidates cfg lp) (lp, False)")
  show ?case
  proof (cases changed)
    case True
    have "uses_have_expressions lp'" using fold_apply_uses [of "(lp, False)"] 1(2) r by (metis fst_conv)
    then show ?thesis using 1(1) [OF r [symmetric] refl True] by (subst fold_loop.simps) (simp add: r True)
  next
    case False
    have quiet: "lp' = lp" "\<forall>c \<in> set (fold_candidates cfg lp). expr_at lp (fst c) = None \<or> expr_at lp (snd (snd c)) = None"
      using fold_apply_quiet [of "fold_candidates cfg lp" lp] r False by simp_all
    have "expr_at lp (fst c) \<noteq> None \<and> expr_at lp (snd (snd c)) \<noteq> None" if "c \<in> set (fold_candidates cfg lp)" for c
    proof -
      obtain d where "c \<in> set (fold_candidate (same_block_pcs cfg) lp d)" using \<open>c \<in> _\<close> by (auto simp: fold_candidates_def)
      then have "expr_at lp (fst c) \<noteq> None" "snd (snd c) \<in> dom (expr_at lp)"
        using fold_candidate_parts 1(2) unfolding uses_have_expressions_def expr_keys [symmetric] by blast+
      then show ?thesis by blast
    qed
    then have "c \<notin> set (fold_candidates cfg lp)" for c using quiet(2) by metis
    then have "fold_candidates cfg lp = []" by (metis list.set_intros(1) neq_Nil_conv)
    then show ?thesis by (subst fold_loop.simps) (simp add: r False quiet(1))
  qed
qed

lemma copy_definitions_mono: "A \<subseteq> B \<Longrightarrow> copy_definitions A lp = [] \<Longrightarrow> copy_definitions B lp = []"
  by (fastforce simp: copy_definitions_def split: if_splits prod.splits)

lemma copy_loop_complete:
  "processed \<subseteq> eliminated_pcs lp \<Longrightarrow> copy_definitions (eliminated_pcs (copy_loop processed lp)) (copy_loop processed lp) = []"
proof (induction processed lp rule: copy_loop.induct)
  case (1 processed lp)
  let ?cs = "copy_definitions processed lp"
  show ?case
  proof (cases "?cs = []")
    case True
    then have "copy_definitions (eliminated_pcs lp) lp = []" using copy_definitions_mono [OF 1(2)] by blast
    then show ?thesis using True by (subst (1 2) copy_loop.simps) simp
  next
    case False
    let ?lp = "fold eliminate (map fst ?cs) (rename_all (map_of (resolve_chains (rename_entries ?cs))) lp)"
    have "processed \<union> set (map fst ?cs) \<subseteq> eliminated_pcs ?lp" using 1(2) by auto
    then have "copy_definitions (eliminated_pcs (copy_loop (processed \<union> set (map fst ?cs)) ?lp)) (copy_loop (processed \<union> set (map fst ?cs)) ?lp) = []"
      by (rule 1(1) [OF refl False])
    moreover have "copy_loop processed lp = copy_loop (processed \<union> set (map fst ?cs)) ?lp"
      using False by (subst copy_loop.simps) (simp add: Let_def)
    ultimately show ?thesis by (simp only:)
  qed
qed


section \<open>Eliminated variables\<close>

definition indexed :: "lifted_program \<Rightarrow> bool" where
  "indexed lp \<longleftrightarrow> (\<forall>name e. eliminated_definition lp name = Some e \<longrightarrow> \<not> is_raw_or_store e \<and>
     (\<exists>key v. (key, v) \<in> set (variables lp) \<and> var_name v = name \<and> expr_at lp (fst key) = Some e))"

lemma eliminated_definition_value:
  assumes "models env lp" "indexed lp" "eliminated_definition lp name = Some e"
  shows "eval env e = var_value env name"
proof -
  obtain key v where "(key, v) \<in> set (variables lp)" "var_name v = name" "expr_at lp (fst key) = Some e" "\<not> is_raw_or_store e"
    using assms(2,3) unfolding indexed_def by blast
  then show ?thesis using modelsD [OF assms(1)] by metis
qed

lemma resolve_value:
  assumes "models env lp" "indexed lp"
  shows "eval env (resolve_eliminated_vars_depth lp e depth) = eval env e"
proof -
  have "lp' = lp \<Longrightarrow> eval env (resolve_eliminated_vars_depth lp' e depth) = eval env e" for lp'
  proof (induction lp' e depth rule: resolve_eliminated_vars_depth.induct)
    case (1 lp' e depth)
    show ?case
    proof (cases "depth > 10")
      case True
      then show ?thesis by (subst resolve_eliminated_vars_depth.simps) simp
    next
      case False
      show ?thesis
      proof (cases e)
        case (Var name)
        show ?thesis
        proof (cases "eliminated_definition lp' name")
          case None
          then show ?thesis using Var by (subst resolve_eliminated_vars_depth.simps) simp
        next
          case (Some d)
          have "eval env (resolve_eliminated_vars_depth lp' d (depth + 1)) = eval env d"
            by (rule 1(1) [OF False Var Some 1(9)])
          then show ?thesis using Var Some False eliminated_definition_value [OF assms] 1(9)
            by (subst resolve_eliminated_vars_depth.simps) simp
        qed
      next
        case (Call name args)
        have "map (eval env) (map (\<lambda>a. resolve_eliminated_vars_depth lp' a depth) args) = map (eval env) args"
          using 1(8) [OF False Call _ 1(9)] by simp
        then show ?thesis using Call False by (subst resolve_eliminated_vars_depth.simps) (simp only: expression.case if_False eval.simps)
      next
        case (BinOp opr l r)
        then show ?thesis using 1(2,3) [OF False BinOp 1(9)] False by (subst resolve_eliminated_vars_depth.simps) simp
      next
        case (UnaryOp opr x)
        then show ?thesis using 1(4) [OF False UnaryOp 1(9)] False by (subst resolve_eliminated_vars_depth.simps) simp
      next
        case (Load w b off)
        then show ?thesis using 1(5) [OF False Load 1(9)] False by (subst resolve_eliminated_vars_depth.simps) simp
      next
        case (Store w b off v)
        then show ?thesis using 1(6,7) [OF False Store 1(9)] False by (subst resolve_eliminated_vars_depth.simps) simp
      qed (subst resolve_eliminated_vars_depth.simps, simp)+
    qed
  qed
  then show ?thesis by simp
qed


section \<open>Stack slots\<close>

lemma dominating_store:
  assumes cfg: "cfg = reorder (build p) bs" "compute cfg = Some t"
    and d: "dominates t store load" "store \<noteq> load" and walk: "entry_walk cfg (ws @ [load])"
  shows "store \<in> set ws"
proof -
  obtain t' where t': "compute cfg = Some t'" "\<forall>a b. dominates t' a b \<longleftrightarrow> a = b \<or> reachable cfg b \<and> on_every_walk cfg a b"
    using reordered.dominates_exact [of p bs] cfg(1) by blast
  then have "on_every_walk cfg store load" using cfg(2) d by auto
  then have "store \<in> set (ws @ [load])" using walk unfolding on_every_walk_def by (metis last_snoc)
  then show ?thesis using d(2) by simp
qed

lemma recovered_slots:
  "map_of (fold (\<lambda>slot. AList.update slot (slot_variable slot)) slots m) slot =
     (if slot \<in> set slots then Some (slot_variable slot) else map_of m slot)"
  by (induction slots arbitrary: m) (auto simp: update_conv')

lemma recover_stack_vars:
  assumes "stack_vars lp = []" "map_of (stack_vars (recover_stack_variables cfg t lp)) slot = Some name"
  shows "slot_recoverable (block_of_pc cfg) t lp slot \<and> name = slot_variable slot"
proof -
  have "map_of (fold (\<lambda>slot. AList.update slot (slot_variable slot)) (filter (slot_recoverable (block_of_pc cfg) t lp)
      (sorted_list_of_set (\<Union> (set (map (collect_stack_slots \<circ> snd) (expressions lp)))))) []) slot = Some name"
    using assms by (simp add: recover_stack_variables_def Let_def map_exprs_def split: if_splits)
  then show ?thesis unfolding recovered_slots by (simp split: if_splits)
qed


section \<open>Properties\<close>

text \<open>C13: inlining constants, propagating copies, folding within a block and folding across blocks keep the value
  of every expression under every valuation that gives the variables the values of their definitions, and
  keep these valuations.\<close>

theorem rewriting_keeps_values:
  assumes "models env lp" "distinct (map fst (variables lp))"
    and "lp' \<in> {propagate_constants lp, propagate_copies lp, fold_expressions cfg lp, fold_expressions_cross_block cfg t ssa lp}"
  shows "same_values env lp lp' \<and> models env lp'"
proof -
  have "same_values env lp lp'"
    using assms propagate_constants_same copy_loop_same fold_loop_same cross_loop_same
    by (auto simp: propagate_copies_def fold_expressions_def fold_expressions_cross_block_def)
  then show ?thesis using models_same [OF assms(1)] by blast
qed

text \<open>Putting back the definitions of eliminated variables keeps the value of every expression under these
  valuations, when the index points to definitions.\<close>

theorem resolving_keeps_value:
  "models env lp \<Longrightarrow> indexed lp \<Longrightarrow> eval env (resolve_eliminated_vars lp e) = eval env e"
  unfolding resolve_eliminated_vars_def by (rule resolve_value)

text \<open>A program that adds two constants to a register and stores the sum.\<close>

definition sample_lifted :: lifted_program where
  "sample_lifted = empty_lifted\<lparr>
     variables := [((0, 2), \<lparr>var_name = ''var_0'', var_type = TU64\<rparr>), ((3, 3), \<lparr>var_name = ''var_1'', var_type = TU64\<rparr>)],
     expressions := [(0, Const 5), (3, BinOp BAdd (Var ''var_0'') (Var ''r1'')), (6, Store U64 (Var ''r2'') 8 (Var ''var_1''))],
     var_at_use := [((3, 2), ''var_0''), ((6, 3), ''var_1'')],
     var_name_to_def_pc := [''var_0'' \<mapsto> 0, ''var_1'' \<mapsto> 3]\<rparr>"

definition sample_block :: control_flow_graph where
  "sample_block = add_block (cfg_new 0) \<lparr>start_pc = 0, end_pc = 10,
     block_instrs = [(0, LoadImm 2 5), (3, ThreeReg Add64 3 2 1), (6, StoreInd StoreIndU64 2 3 8), (9, Trap)],
     successors = [], predecessors = []\<rparr>"

definition sample_model :: valuation where
  "sample_model = sample_valuation\<lparr>var_value := \<lambda>n. if n = ''var_0'' then 5 else if n = ''var_1'' then 13 else 8\<rparr>"

lemma sample_models: "models sample_model sample_lifted"
  by (auto simp: models_def sample_lifted_def sample_model_def expr_at_def)

theorem rewriting_keeps_values_witness:
  "expr_at (fold_expressions sample_block sample_lifted) 6 = Some (Store U64 (Var ''r2'') 8 (BinOp BAdd (Const 5) (Var ''r1''))) \<and>
   same_values sample_model sample_lifted (fold_expressions sample_block sample_lifted)"
proof
  have "distinct (map fst (variables sample_lifted))" by code_simp
  then show "same_values sample_model sample_lifted (fold_expressions sample_block sample_lifted)"
    using rewriting_keeps_values [OF sample_models] by blast
qed code_simp

theorem resolving_keeps_value_witness:
  "resolve_eliminated_vars (eliminate 3 sample_lifted) (Var ''var_1'') = BinOp BAdd (Var ''var_0'') (Var ''r1'') \<and>
   eval sample_model (resolve_eliminated_vars (eliminate 3 sample_lifted) (Var ''var_1'')) = 13"
proof
  have "models sample_model (eliminate 3 sample_lifted)"
    using models_same [OF sample_models, of "eliminate 3 sample_lifted"] by simp
  moreover have "indexed (eliminate 3 sample_lifted)"
    by (auto simp: indexed_def eliminated_definition_def sample_lifted_def eliminate_def expr_at_def empty_lifted_def is_raw_or_store_def
        split: if_splits option.splits)
  ultimately show "eval sample_model (resolve_eliminated_vars (eliminate 3 sample_lifted) (Var ''var_1'')) = 13"
    by (simp add: resolving_keeps_value sample_model_def)
qed code_simp

text \<open>C36: folding stops with nothing left to fold, and copy propagation with every copy eliminated.\<close>

theorem rewriting_completes:
  assumes "uses_have_expressions lp"
  shows "fold_candidates cfg (fold_expressions cfg lp) = [] \<and>
    copy_definitions (eliminated_pcs (propagate_copies lp)) (propagate_copies lp) = []"
  unfolding fold_expressions_def propagate_copies_def
  by (intro conjI fold_loop_complete [OF assms] copy_loop_complete) simp

theorem rewriting_completes_witness:
  "fold_candidates sample_block sample_lifted \<noteq> [] \<and>
   fold_candidates sample_block (fold_expressions sample_block sample_lifted) = []"
proof
  have "uses_have_expressions sample_lifted" by (simp add: uses_have_expressions_def sample_lifted_def expr_at_def)
  then show "fold_candidates sample_block (fold_expressions sample_block sample_lifted) = []"
    using rewriting_completes by blast
qed code_simp

text \<open>C15: a slot of the stack gets a name only when it is stored before it is loaded: on every walk from the entry to
  a block that loads a named slot, an earlier block stores it.\<close>

theorem named_slots_stored:
  assumes "cfg = reorder (build p) bs" "compute cfg = Some t" "stack_vars lp = []"
    and "map_of (stack_vars (recover_stack_variables cfg t lp)) slot = Some name"
    and "load \<in> slot_blocks loaded_slots (block_of_pc cfg) lp slot" "entry_walk cfg (ws @ [load])"
  shows "set ws \<inter> slot_blocks stored_slots (block_of_pc cfg) lp slot \<noteq> {}"
proof -
  have "slot_recoverable (block_of_pc cfg) t lp slot" using recover_stack_vars [OF assms(3,4)] by blast
  then obtain store where s: "store \<in> slot_blocks stored_slots (block_of_pc cfg) lp slot" "store \<noteq> load" "dominates t store load"
    using assms(5) by (auto simp: slot_recoverable_def Let_def)
  then have "store \<in> set ws" using dominating_store [OF assms(1,2) s(3,2) assms(6)] by blast
  then show ?thesis using s(1) by blast
qed

definition slot_program :: decoded_program where
  "slot_program = \<lparr>jump_table = [],
     instructions = [(0, StoreInd StoreIndU64 1 2 8), (3, BranchImm BranchEqImm 2 0 6), (6, LoadInd LoadIndU64 3 1 8), (9, Trap)],
     code_len = 10, memory_base = None\<rparr>"

definition slot_graph :: control_flow_graph where
  "slot_graph = reorder (build slot_program) []"

definition slot_lifted :: lifted_program where
  "slot_lifted = empty_lifted\<lparr>
     expressions := [(0, Store U64 (Var ''ptr_0'') 8 (Var ''r2'')), (6, Load U64 (Var ''ptr_0'') 8)]\<rparr>"

theorem named_slots_stored_witness:
  "map_of (stack_vars (recover_stack_variables slot_graph (the (compute slot_graph)) slot_lifted)) (''ptr_0'', 8) = Some ''ptr_0_8'' \<and>
   set [0] \<inter> slot_blocks stored_slots (block_of_pc slot_graph) slot_lifted (''ptr_0'', 8) \<noteq> {}"
proof
  show name: "map_of (stack_vars (recover_stack_variables slot_graph (the (compute slot_graph)) slot_lifted)) (''ptr_0'', 8) = Some ''ptr_0_8''"
    by code_simp
  obtain t where t: "compute slot_graph = Some t" using reordered.dominates_exact [of slot_program "[]"] by (auto simp: slot_graph_def)
  have none: "stack_vars slot_lifted = []" by (simp add: slot_lifted_def empty_lifted_def)
  have load: "6 \<in> slot_blocks loaded_slots (block_of_pc slot_graph) slot_lifted (''ptr_0'', 8)" by code_simp
  have walk: "entry_walk slot_graph ([0] @ [6])" by code_simp
  have "map_of (stack_vars (recover_stack_variables slot_graph t slot_lifted)) (''ptr_0'', 8) = Some ''ptr_0_8''"
    using name t by simp
  from named_slots_stored [OF slot_graph_def t none this load walk]
  show "set [0] \<inter> slot_blocks stored_slots (block_of_pc slot_graph) slot_lifted (''ptr_0'', 8) \<noteq> {}" .
qed


section \<open>What the passes lose\<close>

definition lines_block :: "(usize \<times> instruction) list \<Rightarrow> control_flow_graph" where
  "lines_block instrs = add_block (cfg_new 0) \<lparr>start_pc = 0, end_pc = 100, block_instrs = instrs, successors = [], predecessors = []\<rparr>"

text \<open>A byte is stored and eight bytes are loaded: the load becomes the stored variable. The same happens with a
  store to another address in between when both pointers are equal, and across a call of the host.\<close>

theorem forwarding_ignores_width:
  "expr_at (forward_store_loads (lines_block [(0, StoreInd StoreIndU8 1 2 8), (3, LoadInd LoadIndU64 3 1 8)])
      (empty_lifted\<lparr>expressions := [(0, Store U8 (Var ''r1'') 8 (Var ''r2'')), (3, Load U64 (Var ''r1'') 8)]\<rparr>)) 3 = Some (Var ''r2'')"
  by code_simp

theorem forwarding_ignores_aliases:
  "expr_at (forward_store_loads (lines_block [(0, StoreInd StoreIndU64 1 2 0), (3, StoreInd StoreIndU64 4 5 0), (6, Ecalli 3), (9, LoadInd LoadIndU64 3 1 0)])
      (empty_lifted\<lparr>expressions := [(0, Store U64 (Var ''r1'') 0 (Var ''r2'')), (3, Store U64 (Var ''r4'') 0 (Var ''r5'')),
         (6, Call ''read'' []), (9, Load U64 (Var ''r1'') 0)]\<rparr>)) 9 = Some (Var ''r2'')"
  by code_simp

text \<open>A load is folded past a store to the same address.\<close>

theorem folding_moves_loads:
  "let lp = empty_lifted\<lparr>variables := [((0, 3), \<lparr>var_name = ''var_0'', var_type = TU64\<rparr>)],
       expressions := [(0, Load U64 (Var ''r1'') 0), (3, Store U64 (Var ''r1'') 0 (Const 7)), (6, Store U64 (Var ''r4'') 0 (Var ''var_0''))]\<rparr>
   in expr_at (fold_expressions (lines_block [(0, LoadInd LoadIndU64 3 1 0), (3, StoreImmInd StoreImmIndU64 1 0 7), (6, StoreInd StoreIndU64 4 3 0)]) lp) 6
     = Some (Store U64 (Var ''r4'') 0 (Load U64 (Var ''r1'') 0))"
  by code_simp

text \<open>A constant whose only use is raw text, here a conditional move, is eliminated though its name stays in the text.\<close>

theorem raw_use_dangles:
  "let lp = propagate_constants (empty_lifted\<lparr>variables := [((0, 3), \<lparr>var_name = ''var_0'', var_type = TU64\<rparr>)],
       expressions := [(0, Const 5), (3, Raw ''if (r2 != 0) var_1 = var_0'')], var_at_use := [((3, 3), ''var_0'')]\<rparr>)
   in 0 \<in> eliminated_pcs lp \<and> expr_at lp 3 = Some (Raw ''if (r2 != 0) var_1 = var_0'')"
  by code_simp

end
