(* ===== verification/Text.thy ===== *)
theory Text
  imports Prelude "HOL-Library.Char_ord" "HOL-Library.List_Lexorder"
begin

text \<open>
  Strings as the passes over the emitted pseudo-code see them (the helpers of
  \<open>src/structuring/emission.rs\<close> and the methods of \<open>str\<close> they call): white space, lines, prefixes,
  substrings, identifiers, renamings, and the syntax of labels, jumps, bindings and assignments.

  The emitted text is ASCII, so a string is its list of bytes. A \<open>HashMap\<close> of aliases, which the
  code sorts before it uses it, is an association list with distinct keys.
\<close>

section \<open>Characters and white space\<close>

definition line_feed :: char where
  "line_feed = CHR 0x0A"

definition is_space :: "char \<Rightarrow> bool" where
  "is_space c \<longleftrightarrow> c \<in> {CHR 0x09, CHR 0x0A, CHR 0x0B, CHR 0x0C, CHR 0x0D, CHR '' ''}"

definition is_ascii_space :: "char \<Rightarrow> bool" where
  "is_ascii_space c \<longleftrightarrow> c \<in> {CHR 0x09, CHR 0x0A, CHR 0x0C, CHR 0x0D, CHR '' ''}"

definition is_ascii_digit :: "char \<Rightarrow> bool" where
  "is_ascii_digit c \<longleftrightarrow> c \<in> set ''0123456789''"

definition is_ascii_alpha :: "char \<Rightarrow> bool" where
  "is_ascii_alpha c \<longleftrightarrow> c \<in> set ''abcdefghijklmnopqrstuvwxyzABCDEFGHIJKLMNOPQRSTUVWXYZ''"

definition is_hex_digit :: "char \<Rightarrow> bool" where
  "is_hex_digit c \<longleftrightarrow> c \<in> set ''0123456789abcdefABCDEF''"

definition is_ident_byte :: "char \<Rightarrow> bool" where
  "is_ident_byte c \<longleftrightarrow> is_ascii_alpha c \<or> is_ascii_digit c \<or> c = CHR ''_''"

definition trim_start :: "string \<Rightarrow> string" where
  "trim_start s = dropWhile is_space s"

definition trim_end :: "string \<Rightarrow> string" where
  "trim_end s = rev (dropWhile is_space (rev s))"

definition trim :: "string \<Rightarrow> string" where
  "trim s = trim_end (trim_start s)"

definition indent_of :: "string \<Rightarrow> string" where
  "indent_of s = takeWhile is_space s"

definition is_blank :: "string \<Rightarrow> bool" where
  "is_blank s \<longleftrightarrow> trim s = []"


section \<open>Prefixes and substrings\<close>

definition starts_with :: "string \<Rightarrow> string \<Rightarrow> bool" where
  "starts_with p s \<longleftrightarrow> take (length p) s = p"

definition ends_with :: "string \<Rightarrow> string \<Rightarrow> bool" where
  "ends_with p s \<longleftrightarrow> starts_with (rev p) (rev s)"

definition strip_prefix :: "string \<Rightarrow> string \<Rightarrow> string option" where
  "strip_prefix p s = (if starts_with p s then Some (drop (length p) s) else None)"

definition strip_suffix :: "string \<Rightarrow> string \<Rightarrow> string option" where
  "strip_suffix p s = (if ends_with p s then Some (take (length s - length p) s) else None)"

text \<open>What follows the first occurrence of a substring, and what precedes it.\<close>

fun split_at :: "string \<Rightarrow> string \<Rightarrow> (string \<times> string) option" where
  "split_at p [] = (if p = [] then Some ([], []) else None)"
| "split_at p (c # s) =
     (if starts_with p (c # s) then Some ([], drop (length p) (c # s))
      else map_option (\<lambda>(a, b). (c # a, b)) (split_at p s))"

definition contains :: "string \<Rightarrow> string \<Rightarrow> bool" where
  "contains p s \<longleftrightarrow> split_at p s \<noteq> None"

fun join_with :: "string \<Rightarrow> string list \<Rightarrow> string" where
  "join_with sep [] = []"
| "join_with sep [x] = x"
| "join_with sep (x # y # xs) = x @ sep @ join_with sep (y # xs)"

text \<open>\<open>str::split\<close> on one character.\<close>

fun split_char :: "char \<Rightarrow> string \<Rightarrow> string list" where
  "split_char d [] = [[]]"
| "split_char d (c # s) =
     (if c = d then [] # split_char d s
      else case split_char d s of [] \<Rightarrow> [[c]] | x # xs \<Rightarrow> (c # x) # xs)"


section \<open>Lines\<close>

text \<open>\<open>str::lines\<close>: a line ends at a newline, which a carriage return may precede; text after the
  last newline is a line unless it is empty.\<close>

definition chomp :: "string \<Rightarrow> string" where
  "chomp l = (if l \<noteq> [] \<and> last l = CHR 0x0D then butlast l else l)"

fun lines_from :: "string \<Rightarrow> string \<Rightarrow> string list" where
  "lines_from cur [] = (if cur = [] then [] else [rev cur])"
| "lines_from cur (c # s) =
     (if c = line_feed then chomp (rev cur) # lines_from [] s else lines_from (c # cur) s)"

definition lines :: "string \<Rightarrow> string list" where
  "lines s = lines_from [] s"

text \<open>Every pass ends with \<open>join("\n")\<close> and a final newline.\<close>

definition unlines :: "string list \<Rightarrow> string" where
  "unlines ls = join_with [line_feed] ls @ [line_feed]"

definition on_lines :: "(string list \<Rightarrow> string list) \<Rightarrow> string \<Rightarrow> string" where
  "on_lines f s = unlines (f (lines s))"


section \<open>Labels and jumps\<close>

definition is_block_label_name :: "string \<Rightarrow> bool" where
  "is_block_label_name label \<longleftrightarrow>
     (case strip_prefix ''block_'' label of
        None \<Rightarrow> False
      | Some hex_suffix \<Rightarrow> hex_suffix \<noteq> [] \<and> list_all is_hex_digit hex_suffix)"

definition parse_block_label_name :: "string \<Rightarrow> string option" where
  "parse_block_label_name line =
     (let trimmed = trim line in
      if \<not> (starts_with ''block_'' trimmed \<and> ends_with '':'' trimmed) then None
      else if is_block_label_name (butlast trimmed) then Some (butlast trimmed) else None)"

definition is_label_line :: "string \<Rightarrow> bool" where
  "is_label_line line \<longleftrightarrow> parse_block_label_name line \<noteq> None"

definition parse_goto_target :: "string \<Rightarrow> string option" where
  "parse_goto_target trimmed =
     Option.bind (strip_prefix ''goto '' trimmed) (\<lambda>rest.
     Option.bind (strip_suffix '';'' rest) (\<lambda>rest.
     if is_block_label_name (trim rest) then Some (trim rest) else None))"

text \<open>The labels a line jumps to: what follows each \<open>goto\<close>, up to the first one without a name.\<close>

lemma split_at_length: "split_at p s = Some (a, b) \<Longrightarrow> length b + length p \<le> length s"
  by (induction s arbitrary: a) (auto simp: starts_with_def split: if_splits dest: arg_cong [where f = length])

function goto_labels :: "string \<Rightarrow> string list" where
  "goto_labels rest = (case split_at ''goto '' rest of
      None \<Rightarrow> []
    | Some (_, after) \<Rightarrow>
        let label = takeWhile is_ident_byte after in
        if label = [] then []
        else (if is_block_label_name label then [label] else []) @ goto_labels (drop (length label) after))"
  by pat_completeness auto
termination
  by (relation "measure length") (auto dest: split_at_length)

declare goto_labels.simps [simp del]

definition count_char :: "char \<Rightarrow> string \<Rightarrow> int" where
  "count_char c s = int (length (filter (\<lambda>x. x = c) s))"

text \<open>How a line changes the depth of the braces.\<close>

definition opens :: "string \<Rightarrow> int" where
  "opens t = count_char (CHR ''{'') t"

definition closes :: "string \<Rightarrow> int" where
  "closes t = count_char (CHR ''}'') t"

definition is_return_statement :: "string \<Rightarrow> bool" where
  "is_return_statement trimmed \<longleftrightarrow>
     (case strip_prefix ''return'' trimmed of
        None \<Rightarrow> False
      | Some [] \<Rightarrow> True
      | Some (c # _) \<Rightarrow> is_space c \<or> c = CHR ''('' \<or> c = CHR '';'')"

definition is_control_flow_terminator :: "string \<Rightarrow> bool" where
  "is_control_flow_terminator trimmed \<longleftrightarrow>
     starts_with ''goto '' trimmed \<and> ends_with '';'' trimmed \<or>
     trimmed = ''break;'' \<or> trimmed = ''break'' \<or>
     trimmed = ''continue;'' \<or> trimmed = ''continue'' \<or>
     is_return_statement trimmed \<or>
     starts_with ''halt('' trimmed"


section \<open>Identifiers\<close>

text \<open>\<open>prev\<close> is the byte before the rest of the text.\<close>

definition boundary :: "char option \<Rightarrow> bool" where
  "boundary prev \<longleftrightarrow> (case prev of None \<Rightarrow> True | Some c \<Rightarrow> \<not> is_ident_byte c)"

definition first_char :: "string \<Rightarrow> char option" where
  "first_char s = (case s of [] \<Rightarrow> None | c # _ \<Rightarrow> Some c)"

definition matches_ident :: "string \<Rightarrow> char option \<Rightarrow> string \<Rightarrow> bool" where
  "matches_ident name prev s \<longleftrightarrow>
     starts_with name s \<and> boundary prev \<and> boundary (first_char (drop (length name) s))"

fun replace_from :: "string \<Rightarrow> string \<Rightarrow> nat \<Rightarrow> char option \<Rightarrow> string \<Rightarrow> string" where
  "replace_from from to skip prev [] = []"
| "replace_from from to (Suc skip) prev (c # s) = replace_from from to skip (Some c) s"
| "replace_from from to 0 prev (c # s) =
     (if matches_ident from prev (c # s) then to @ replace_from from to (length from - 1) (Some c) s
      else c # replace_from from to 0 (Some c) s)"

text \<open>The \<open>skip\<close> counter is the rest of a match that has been replaced.\<close>

definition replace_identifier :: "string \<Rightarrow> string \<Rightarrow> string \<Rightarrow> string" where
  "replace_identifier input from to =
     (if from = [] \<or> from = to then input else replace_from from to 0 None input)"

fun occurs_from :: "string \<Rightarrow> char option \<Rightarrow> string \<Rightarrow> bool" where
  "occurs_from name prev [] = False"
| "occurs_from name prev (c # s) = (matches_ident name prev (c # s) \<or> occurs_from name (Some c) s)"

definition raw_contains_identifier :: "string \<Rightarrow> string \<Rightarrow> bool" where
  "raw_contains_identifier raw name \<longleftrightarrow> name \<noteq> [] \<and> occurs_from name None raw"

function collect_identifiers :: "string \<Rightarrow> string list" where
  "collect_identifiers [] = []"
| "collect_identifiers (c # s) =
     (if is_ascii_alpha c \<or> c = CHR ''_''
      then (c # takeWhile is_ident_byte s) # collect_identifiers (dropWhile is_ident_byte s)
      else collect_identifiers s)"
  by pat_completeness auto
termination
  by (relation "measure length") (auto simp: less_Suc_eq_le length_dropWhile_le)

definition is_register_name :: "string \<Rightarrow> bool" where
  "is_register_name name \<longleftrightarrow>
     (case strip_prefix ''r'' name of None \<Rightarrow> False | Some rest \<Rightarrow> rest \<noteq> [] \<and> list_all is_ascii_digit rest)"

definition is_local_temp_name :: "string \<Rightarrow> bool" where
  "is_local_temp_name name \<longleftrightarrow>
     starts_with ''ptr_'' name \<or> starts_with ''var_'' name \<or> starts_with ''cond_'' name"


section \<open>Aliases\<close>

type_synonym aliases = "(string \<times> string) list"

text \<open>A chain of aliases is followed at most as often as there are aliases.\<close>

fun chase_alias :: "nat \<Rightarrow> aliases \<Rightarrow> string \<Rightarrow> string" where
  "chase_alias 0 al cur = cur"
| "chase_alias (Suc guard) al cur = (case map_of al cur of
      None \<Rightarrow> cur
    | Some nxt \<Rightarrow> if nxt = cur then cur else chase_alias guard al nxt)"

definition resolve_alias :: "string \<Rightarrow> aliases \<Rightarrow> string" where
  "resolve_alias name al = chase_alias (length al) al name"

text \<open>Longer names first, names of one length in their order.\<close>

definition alias_order :: "aliases \<Rightarrow> aliases" where
  "alias_order al = sort_key (\<lambda>p. - int (length (fst p))) (sort_key fst al)"

definition apply_aliases :: "string \<Rightarrow> aliases \<Rightarrow> string" where
  "apply_aliases input al =
     fold (\<lambda>(from, to) out. replace_identifier out from to)
          (map (\<lambda>(from, to). (from, resolve_alias to al)) (alias_order al)) input"


section \<open>Bindings and assignments\<close>

definition parse_let_binding :: "string \<Rightarrow> (string \<times> string) option" where
  "parse_let_binding line = Option.bind (strip_prefix ''let '' line) (\<lambda>rest.
     let name = takeWhile is_ident_byte rest; tail = trim_start (drop (length name) rest) in
     if name = [] then None
     else Some (name,
       if starts_with '':'' tail then (case split_at ''='' tail of Some (_, v) \<Rightarrow> trim_start v | None \<Rightarrow> [])
       else if starts_with ''='' tail then trim_start (tl tail)
       else []))"

definition parse_simple_local_assignment :: "string \<Rightarrow> (string \<times> string) option" where
  "parse_simple_local_assignment trimmed =
     (if starts_with ''let '' trimmed \<or> starts_with ''if '' trimmed \<or> starts_with ''while '' trimmed \<or>
         starts_with ''goto '' trimmed \<or> starts_with ''return'' trimmed \<or> starts_with ''case '' trimmed \<or>
         starts_with ''default'' trimmed \<or> ends_with '':'' trimmed \<or> ends_with ''{'' trimmed \<or>
         contains ''=='' trimmed \<or> contains ''!='' trimmed \<or> contains ''>='' trimmed \<or> contains ''<='' trimmed
      then None
      else case split_at ''='' trimmed of
        None \<Rightarrow> None
      | Some (lhs, rhs) \<Rightarrow> if is_local_temp_name (trim lhs) then Some (trim lhs, trim rhs) else None)"

text \<open>A call is an opening parenthesis after an identifier, unless the identifier is the suffix of an
  unsigned or signed operator. \<open>prior\<close> is the text before, last byte first.\<close>

definition call_before :: "string \<Rightarrow> bool" where
  "call_before prior =
     (let b = dropWhile is_ascii_space prior; ident = takeWhile is_ident_byte b; prev = dropWhile is_ident_byte b in
      ident \<noteq> [] \<and>
      \<not> (ident \<in> {''u'', ''s''} \<and> prev \<noteq> [] \<and> hd prev \<in> set ''></*%''))"

fun probable_call :: "string \<Rightarrow> string \<Rightarrow> bool" where
  "probable_call prior [] = False"
| "probable_call prior (c # s) = ((c = CHR ''('' \<and> call_before prior) \<or> probable_call (c # prior) s)"

definition has_probable_call :: "string \<Rightarrow> bool" where
  "has_probable_call expr = probable_call [] expr"

definition is_pure_let_rhs :: "string \<Rightarrow> bool" where
  "is_pure_let_rhs rhs \<longleftrightarrow> \<not> has_probable_call rhs"

end
