(* ===== verification/Text_Passes.thy ===== *)
theory Text_Passes
  imports Text "HOL-Library.AList"
begin

text \<open>
  The passes over the emitted pseudo-code (\<open>fix_blank_lines\<close> and what it calls in
  \<open>src/structuring/emission.rs\<close>): collapsing labels, removing jumps, unreachable lines and labels
  nothing jumps to, turning conditional jumps into blocks, and removing assignments and bindings.

  Every pass reads the lines of its input and joins the lines it keeps; it is modelled on lists of
  lines. A scan with an index that only grows is a recursion on the rest of the lines; what has been
  kept so far, where the pass looks back, is an argument. The depth of the braces, an \<open>i32\<close> in the
  code, is an integer: a text has far fewer than \<open>2 ^ 31\<close> braces.
\<close>

section \<open>Labels\<close>

text \<open>A run of labels becomes its first label, the others become aliases of it.\<close>

fun take_aliases :: "string \<Rightarrow> string list \<Rightarrow> aliases \<Rightarrow> string list \<times> aliases" where
  "take_aliases canonical [] al = ([], al)"
| "take_aliases canonical (l # ls) al = (case parse_block_label_name l of
      Some label \<Rightarrow> take_aliases canonical ls (AList.update label canonical al)
    | None \<Rightarrow> (l # ls, al))"

lemma take_aliases_length: "take_aliases c ls al = (rest, al') \<Longrightarrow> length rest \<le> length ls"
  by (induction ls arbitrary: al) (auto split: option.splits intro: le_SucI)

function collapse_runs :: "string list \<Rightarrow> aliases \<Rightarrow> string list \<times> aliases" where
  "collapse_runs [] al = ([], al)"
| "collapse_runs (l # ls) al = (case parse_block_label_name l of
      Some canonical \<Rightarrow>
        let (rest, al1) = take_aliases canonical ls al; (out, al2) = collapse_runs rest al1 in (l # out, al2)
    | None \<Rightarrow> let (out, al1) = collapse_runs ls al in (l # out, al1))"
  by pat_completeness auto
termination
  by (relation "measure (\<lambda>(ls, al). length ls)") (auto simp: less_Suc_eq_le split: prod.splits dest: take_aliases_length)

definition collapse_lines :: "string list \<Rightarrow> string list" where
  "collapse_lines ls = (let (collapsed, al) = collapse_runs ls [] in
     if al = [] then collapsed else map (\<lambda>l. apply_aliases l al) collapsed)"

definition collapse_consecutive_labels :: "string \<Rightarrow> string" where
  "collapse_consecutive_labels = on_lines collapse_lines"

definition collect_referenced_labels :: "string list \<Rightarrow> string set" where
  "collect_referenced_labels ls = set (concat (map goto_labels ls))"

definition collect_label_reference_counts :: "string list \<Rightarrow> string \<Rightarrow> nat option" where
  "collect_label_reference_counts ls label =
     (let refs = length (filter (\<lambda>l. l = label) (concat (map goto_labels ls))) in
      if refs \<noteq> 0 \<or> Some label \<in> set (map parse_block_label_name ls) then Some refs else None)"

text \<open>Blank lines at the start, at the end and after another blank line are dropped; both
  \<open>prune_unused_labels\<close> and \<open>prune_unused_pure_let_definitions\<close> do this.\<close>

fun drop_blank_runs :: "bool \<Rightarrow> string list \<Rightarrow> string list" where
  "drop_blank_runs skip_blank [] = []"
| "drop_blank_runs skip_blank (l # ls) =
     (if is_blank l then (if skip_blank then drop_blank_runs True ls else l # drop_blank_runs True ls)
      else l # drop_blank_runs False ls)"

definition compact_blank :: "string list \<Rightarrow> string list" where
  "compact_blank ls = rev (dropWhile is_blank (rev (drop_blank_runs True ls)))"

definition unused_label :: "string set \<Rightarrow> string \<Rightarrow> bool" where
  "unused_label referenced l \<longleftrightarrow> (case parse_block_label_name l of None \<Rightarrow> False | Some label \<Rightarrow> label \<notin> referenced)"

definition prune_labels_lines :: "string list \<Rightarrow> string list" where
  "prune_labels_lines ls = compact_blank (filter (\<lambda>l. \<not> unused_label (collect_referenced_labels ls) l) ls)"

definition prune_unused_labels :: "string \<Rightarrow> string" where
  "prune_unused_labels = on_lines prune_labels_lines"


section \<open>Jumps\<close>

text \<open>The body of a label: the lines up to the next label, to the end of the enclosing block, or to
  the first terminator that is not inside a block. Blank lines are left out.\<close>

fun block_body :: "int \<Rightarrow> string list \<Rightarrow> string list \<times> string list" where
  "block_body depth [] = ([], [])"
| "block_body depth (l # ls) =
     (let trimmed = trim l; new_depth = depth + opens trimmed - closes trimmed in
      if trimmed = [] then block_body depth ls
      else if is_label_line l then ([], l # ls)
      else if trimmed = ''}'' \<and> new_depth < 0 then ([], l # ls)
      else if new_depth = 0 \<and> is_control_flow_terminator trimmed then ([l], ls)
      else let (body, rest) = block_body new_depth ls in (l # body, rest))"

lemma block_body_length: "block_body d ls = (body, rest) \<Longrightarrow> length rest \<le> length ls"
  by (induction d ls arbitrary: body rule: block_body.induct)
     (auto simp: Let_def split: prod.splits if_splits intro: le_SucI)

function collect_block_bodies :: "string list \<Rightarrow> (string \<rightharpoonup> string list) \<Rightarrow> (string \<rightharpoonup> string list)" where
  "collect_block_bodies [] bodies = bodies"
| "collect_block_bodies (l # ls) bodies = (case parse_block_label_name l of
      Some label \<Rightarrow>
        let (body, rest) = block_body 0 ls in collect_block_bodies rest (bodies(label \<mapsto> body))
    | None \<Rightarrow> collect_block_bodies ls bodies)"
  by pat_completeness auto
termination
  by (relation "measure (\<lambda>(ls, bodies). length ls)") (auto simp: less_Suc_eq_le split: prod.splits dest: block_body_length [OF sym])

text \<open>Skipping a body that has been moved into an \<open>else\<close>.\<close>

fun skip_body :: "int \<Rightarrow> string list \<Rightarrow> string list" where
  "skip_body depth [] = []"
| "skip_body depth (l # ls) =
     (let trimmed = trim l; depth' = depth + opens trimmed - closes trimmed in
      if trimmed = [] then skip_body depth ls
      else if depth = 0 \<and> is_label_line l then l # ls
      else if depth' < 0 then l # ls
      else skip_body depth' ls)"

lemma skip_body_length: "length (skip_body d ls) \<le> length ls"
  by (induction d ls rule: skip_body.induct) (auto simp: Let_def intro: le_SucI)

text \<open>The label that follows a jump: the next one outside of nested blocks, or the one right after the
  end of the enclosing block.\<close>

definition first_label :: "string list \<Rightarrow> string option" where
  "first_label ls = (case dropWhile is_blank ls of [] \<Rightarrow> None | l # _ \<Rightarrow> parse_block_label_name l)"

fun next_label :: "int \<Rightarrow> string list \<Rightarrow> string option" where
  "next_label depth [] = None"
| "next_label depth (l # ls) =
     (let ahead = trim l; depth' = depth + opens ahead - closes ahead in
      if ahead = [] then next_label depth ls
      else if depth' < 0 then first_label ls
      else if depth' = 0 \<and> is_label_line l then parse_block_label_name l
      else next_label depth' ls)"

definition is_simple_body :: "string list \<Rightarrow> bool" where
  "is_simple_body body \<longleftrightarrow> list_all (\<lambda>l. \<not> contains ''{'' l \<and> \<not> contains ''}'' l) body"

text \<open>What an \<open>else\<close> that holds only a jump becomes: the body of the jump's target if that is simple
  and jumped to only from here; nothing if the target follows.\<close>

datatype else_goto
  = InlineElse string "string list" \<comment> \<open>the label and the lines that replace the jump\<close>
  | DropElse
  | KeepElse

definition else_goto_at :: "(string \<rightharpoonup> string list) \<Rightarrow> (string \<Rightarrow> nat option) \<Rightarrow> string \<Rightarrow> string list \<Rightarrow> else_goto" where
  "else_goto_at bodies counts l ls = (case ls of
      l1 # l2 # rest \<Rightarrow>
        if trim l = ''} else {'' \<and> trim l2 = ''}'' then
          (case parse_goto_target (trim l1) of
             None \<Rightarrow> KeepElse
           | Some label \<Rightarrow>
               (case bodies label of
                  Some body \<Rightarrow>
                    if body \<noteq> [] \<and> is_simple_body body \<and> counts label = Some 1
                    then InlineElse label (map (\<lambda>b. if is_blank b then b else indent_of l1 @ trim b) body)
                    else if first_label rest = Some label then DropElse else KeepElse
                | None \<Rightarrow> if first_label rest = Some label then DropElse else KeepElse))
        else KeepElse
    | _ \<Rightarrow> KeepElse)"

definition is_redundant_goto :: "string \<Rightarrow> string list \<Rightarrow> bool" where
  "is_redundant_goto l ls \<longleftrightarrow>
     (case parse_goto_target (trim l) of None \<Rightarrow> False | Some label \<Rightarrow> next_label 0 ls = Some label)"

function elide_gotos :: "(string \<rightharpoonup> string list) \<Rightarrow> (string \<Rightarrow> nat option) \<Rightarrow> string set \<Rightarrow> string list \<Rightarrow> string list" where
  "elide_gotos bodies counts inlined [] = []"
| "elide_gotos bodies counts inlined (l # ls) = (case else_goto_at bodies counts l ls of
      InlineElse label body \<Rightarrow>
        l # body @ [ls ! 1] @ elide_gotos bodies counts (insert label inlined) (drop 2 ls)
    | DropElse \<Rightarrow> ls ! 1 # elide_gotos bodies counts inlined (drop 2 ls)
    | KeepElse \<Rightarrow>
        if (case parse_block_label_name l of None \<Rightarrow> False | Some label \<Rightarrow> label \<in> inlined)
        then elide_gotos bodies counts inlined (skip_body 0 ls)
        else if is_redundant_goto l ls then elide_gotos bodies counts inlined ls
        else l # elide_gotos bodies counts inlined ls)"
  by pat_completeness auto
termination
  by (relation "measure (\<lambda>(b, c, i, ls). length ls)") (auto simp: less_Suc_eq_le skip_body_length)

definition elide_lines :: "string list \<Rightarrow> string list" where
  "elide_lines ls = elide_gotos (collect_block_bodies ls Map.empty) (collect_label_reference_counts ls) {} ls"

definition elide_redundant_gotos :: "string \<Rightarrow> string" where
  "elide_redundant_gotos = on_lines elide_lines"


section \<open>Conditional jumps\<close>

text \<open>The text up to the parenthesis that closes the condition, and the text after it.\<close>

fun close_paren :: "int \<Rightarrow> string \<Rightarrow> (string \<times> string) option" where
  "close_paren depth [] = None"
| "close_paren depth (c # s) =
     (if c = CHR ''('' then map_option (\<lambda>(a, b). (c # a, b)) (close_paren (depth + 1) s)
      else if c = CHR '')'' then
        (if depth = 1 then Some ([], s) else map_option (\<lambda>(a, b). (c # a, b)) (close_paren (depth - 1) s))
      else map_option (\<lambda>(a, b). (c # a, b)) (close_paren depth s))"

definition parse_conditional_goto :: "string \<Rightarrow> (string \<times> string) option" where
  "parse_conditional_goto trimmed =
     Option.bind (strip_prefix ''if ('' trimmed) (\<lambda>rest.
     Option.bind (close_paren 1 rest) (\<lambda>(cond, after).
     Option.bind (strip_prefix ''goto '' (trim after)) (\<lambda>jump.
     Option.bind (strip_suffix '';'' jump) (\<lambda>target.
     if is_block_label_name (trim target) then Some (cond, trim target) else None))))"

fun parens_balanced :: "int \<Rightarrow> string \<Rightarrow> bool" where
  "parens_balanced depth [] = (depth = 0)"
| "parens_balanced depth (c # s) =
     (if c = CHR ''('' then parens_balanced (depth + 1) s
      else if c = CHR '')'' then (if depth - 1 < 0 then False else parens_balanced (depth - 1) s)
      else parens_balanced depth s)"

definition invert_condition_text :: "string \<Rightarrow> string" where
  "invert_condition_text cond =
     (let c = trim cond; inner = take (length c - 3) (drop 2 c) in
      if starts_with ''!('' c \<and> ends_with '')'' c \<and> parens_balanced 0 inner then inner
      else ''!('' @ c @ '')'')"

text \<open>The lines a conditional jump skips, if its label follows them outside of every block they open.\<close>

fun skipped_lines :: "string \<Rightarrow> int \<Rightarrow> string list \<Rightarrow> (string list \<times> string list) option" where
  "skipped_lines target depth [] = None"
| "skipped_lines target depth (l # ls) =
     (let ahead = trim l; depth' = depth + opens ahead - closes ahead in
      if ahead = [] then skipped_lines target depth ls
      else case parse_block_label_name l of
        Some label \<Rightarrow> if label = target \<and> depth = 0 then Some ([], l # ls) else None
      | None \<Rightarrow> if depth' < 0 then None
                else map_option (\<lambda>(body, rest). (l # body, rest)) (skipped_lines target depth' ls))"

lemma skipped_lines_length: "skipped_lines t d ls = Some (body, rest) \<Longrightarrow> length rest \<le> length ls"
  by (induction t d ls arbitrary: body rule: skipped_lines.induct)
     (auto simp: Let_def split: if_splits option.splits intro: le_SucI)

definition inverted_block :: "string \<Rightarrow> string \<Rightarrow> string list \<Rightarrow> string list" where
  "inverted_block l cond body =
     [indent_of l @ ''if ('' @ invert_condition_text cond @ '') {''] @
     map (\<lambda>b. indent_of l @ ''    '' @ trim b) body @
     [indent_of l @ ''}'']"

function invert_gotos :: "string list \<Rightarrow> string list" where
  "invert_gotos [] = []"
| "invert_gotos (l # ls) = (case parse_conditional_goto (trim l) of
      None \<Rightarrow> l # invert_gotos ls
    | Some (cond, target) \<Rightarrow>
        (case skipped_lines target 0 ls of
           None \<Rightarrow> l # invert_gotos ls
         | Some (body, rest) \<Rightarrow>
             if body = [] then l # invert_gotos ls
             else inverted_block l cond body @ invert_gotos rest))"
  by pat_completeness auto
termination
  by (relation "measure length") (auto simp: less_Suc_eq_le dest: skipped_lines_length)

definition invert_conditional_gotos :: "string \<Rightarrow> string" where
  "invert_conditional_gotos = on_lines invert_gotos"

end
