(* ===== verification/Text_Cleanup.thy ===== *)
theory Text_Cleanup
  imports Text_Passes
begin

text \<open>
  The remaining passes over the emitted pseudo-code (\<open>src/structuring/emission.rs\<close>): unreachable lines,
  redundant assignments, unused bindings, missing declarations, blank lines, and \<open>fix_blank_lines\<close>,
  which runs them all.
\<close>

section \<open>Unreachable lines\<close>

text \<open>The lines kept so far end with the \<open>}\<close> of an \<open>else\<close>; its \<open>} else {\<close> and the \<open>if\<close> above it are
  found by counting braces backwards.\<close>

fun find_else :: "string list \<Rightarrow> nat \<Rightarrow> int \<Rightarrow> nat option" where
  "find_else kept 0 depth = None"
| "find_else kept (Suc pos) depth =
     (let t = trim (kept ! pos) in
      if t = ''} else {'' then (if depth = 1 then Some pos else find_else kept pos depth)
      else find_else kept pos (depth + closes t - opens t))"

fun find_if :: "string list \<Rightarrow> nat \<Rightarrow> int \<Rightarrow> nat option" where
  "find_if kept 0 depth = None"
| "find_if kept (Suc pos) depth =
     (let t = trim (kept ! pos); depth' = depth + closes t - opens t in
      if t = ''} else {'' then find_if kept pos depth
      else if depth' = 0 \<and> starts_with ''if '' t \<and> ends_with ''{'' t then Some pos
      else find_if kept pos depth')"

record if_else_range =
  if_open :: nat
  else_open :: nat
  else_close :: nat

definition find_enclosing_if_else :: "string list \<Rightarrow> if_else_range option" where
  "find_enclosing_if_else kept =
     (if kept = [] \<or> trim (last kept) \<noteq> ''}'' then None
      else Option.bind (find_else kept (length kept - 1) 1) (\<lambda>e.
           map_option (\<lambda>i. \<lparr>if_open = i, else_open = e, else_close = length kept - 1\<rparr>) (find_if kept e 1)))"

text \<open>The last line of a branch that is not blank: the index goes down to the line after its start.\<close>

fun last_nonblank :: "string list \<Rightarrow> nat \<Rightarrow> nat \<Rightarrow> nat" where
  "last_nonblank kept start 0 = 0"
| "last_nonblank kept start (Suc pos) =
     (if start + 1 < Suc pos then (if is_blank (kept ! pos) then last_nonblank kept start pos else pos)
      else Suc pos)"

definition both_branches_terminate :: "string list \<Rightarrow> if_else_range \<Rightarrow> bool" where
  "both_branches_terminate kept r \<longleftrightarrow>
     is_control_flow_terminator (trim (kept ! last_nonblank kept (if_open r) (else_open r))) \<and>
     is_control_flow_terminator (trim (kept ! last_nonblank kept (else_open r) (else_close r)))"

definition closes_terminal_else :: "string list \<Rightarrow> bool" where
  "closes_terminal_else kept \<longleftrightarrow>
     (case find_enclosing_if_else kept of None \<Rightarrow> False | Some r \<Rightarrow> both_branches_terminate kept r)"

definition resumes_after_else :: "string \<Rightarrow> bool" where
  "resumes_after_else l \<longleftrightarrow> is_label_line l \<or> trim l = ''}''"

fun drop_after_else :: "string list \<Rightarrow> string list" where
  "drop_after_else [] = []"
| "drop_after_else (l # ls) =
     (if \<not> is_blank l \<and> resumes_after_else l then l # ls else drop_after_else ls)"

lemma drop_after_else_length: "length (drop_after_else ls) \<le> length ls"
  by (induction ls) (auto intro: le_SucI)

function after_control_flow :: "string list \<Rightarrow> string list \<Rightarrow> string list" where
  "after_control_flow kept [] = kept"
| "after_control_flow kept (l # ls) =
     (let kept' = kept @ [l] in
      if trim l = ''}'' \<and> closes_terminal_else kept' then after_control_flow kept' (drop_after_else ls)
      else after_control_flow kept' ls)"
  by pat_completeness auto
termination
  by (relation "measure (\<lambda>(kept, ls). length ls)") (auto simp: less_Suc_eq_le drop_after_else_length)

definition remove_unreachable_after_control_flow :: "string \<Rightarrow> string" where
  "remove_unreachable_after_control_flow = on_lines (after_control_flow [])"

definition resumes_after_terminator :: "string \<Rightarrow> bool" where
  "resumes_after_terminator l \<longleftrightarrow>
     trim l = ''}'' \<or> trim l = ''} else {'' \<or> is_label_line l \<or>
     starts_with ''case '' (trim l) \<or> trim l = ''default:''"

definition is_comment :: "string \<Rightarrow> bool" where
  "is_comment l \<longleftrightarrow> starts_with ''//'' (trim l)"

fun drop_unreachable :: "string list \<Rightarrow> string list" where
  "drop_unreachable [] = []"
| "drop_unreachable (l # ls) =
     (if is_blank l \<or> is_comment l then drop_unreachable ls
      else if resumes_after_terminator l then l # ls
      else drop_unreachable ls)"

lemma drop_unreachable_length: "length (drop_unreachable ls) \<le> length ls"
  by (induction ls) (auto intro: le_SucI)

function cut_after_terminators :: "string list \<Rightarrow> string list" where
  "cut_after_terminators [] = []"
| "cut_after_terminators (l # ls) =
     l # cut_after_terminators (if is_control_flow_terminator (trim l) then drop_unreachable ls else ls)"
  by pat_completeness auto
termination
  by (relation "measure length") (auto simp: less_Suc_eq_le drop_unreachable_length)

definition remove_unreachable_after_terminators :: "string \<Rightarrow> string" where
  "remove_unreachable_after_terminators = on_lines cut_after_terminators"


section \<open>Assignments\<close>

text \<open>A line that is blank or a comment.\<close>

definition is_idle :: "string \<Rightarrow> bool" where
  "is_idle l \<longleftrightarrow> is_blank l \<or> is_comment l"

text \<open>The lines up to one that satisfies a predicate, that one, and the rest; nothing if a label comes
  first.\<close>

fun up_to :: "(string \<Rightarrow> bool) \<Rightarrow> string list \<Rightarrow> (string list \<times> string \<times> string list) option" where
  "up_to P [] = None"
| "up_to P (l # ls) =
     (if P l then Some ([], l, ls)
      else if is_label_line l then None
      else map_option (\<lambda>(a, m, b). (l # a, m, b)) (up_to P ls))"

lemma up_to_length: "up_to P ls = Some (a, m, b) \<Longrightarrow> length a + length b < length ls"
  by (induction ls arbitrary: a) (auto split: if_splits)

definition is_else :: "string \<Rightarrow> bool" where
  "is_else l \<longleftrightarrow> trim l = ''} else {''"

definition is_close :: "string \<Rightarrow> bool" where
  "is_close l \<longleftrightarrow> trim l = ''}''"

text \<open>\<open>if (c) { x = e; goto L; } else { } x = e\<close>: the assignment of a body that is one assignment and
  a jump, and the lines after an \<open>else\<close> without the same assignment.\<close>

definition assignment_and_jump :: "string list \<Rightarrow> (string \<times> string) option" where
  "assignment_and_jump then_body = (case filter (\<lambda>l. \<not> is_idle l) then_body of
      [assign, jump] \<Rightarrow>
        if parse_goto_target (trim jump) = None then None else parse_simple_local_assignment (trim assign)
    | _ \<Rightarrow> None)"

definition without_assignment :: "string \<times> string \<Rightarrow> string list \<Rightarrow> string list option" where
  "without_assignment assign ls = (case dropWhile is_idle ls of
      [] \<Rightarrow> None
    | nxt # rest \<Rightarrow>
        if parse_simple_local_assignment (trim nxt) = Some assign then Some (takeWhile is_idle ls @ rest) else None)"

text \<open>The lines up to the closing brace of the \<open>else\<close>, the assignment that is put there, the brace, and
  the rest.\<close>

definition fallthrough_assignment ::
  "string \<Rightarrow> string list \<Rightarrow> (string list \<times> string \<times> string list \<times> string list) option" where
  "fallthrough_assignment if_line ls =
     (if \<not> (starts_with ''if ('' (trim if_line) \<and> ends_with ''{'' (trim if_line)) then None
      else Option.bind (up_to is_else ls) (\<lambda>(then_body, else_line, ls2).
      Option.bind (up_to is_close ls2) (\<lambda>(else_body, close_line, ls3).
      Option.bind (assignment_and_jump then_body) (\<lambda>(lhs, rhs).
      if list_ex (\<lambda>l. \<not> is_idle l) else_body then None
      else map_option (\<lambda>rest.
             (then_body @ [else_line] @ else_body,
              replicate (length (indent_of else_line) + 4) (CHR '' '') @ lhs @ '' = '' @ rhs,
              [close_line], rest))
           (without_assignment (lhs, rhs) ls3)))))"

lemma dropWhile_Cons_length: "dropWhile P xs = y # ys \<Longrightarrow> length (takeWhile P xs) + length ys < length xs"
proof -
  assume "dropWhile P xs = y # ys"
  then have "length xs = length (takeWhile P xs @ y # ys)" by (metis takeWhile_dropWhile_id)
  then show ?thesis by simp
qed

lemma without_assignment_length: "without_assignment a ls = Some rest \<Longrightarrow> length rest < length ls"
  by (auto simp: without_assignment_def split: list.split_asm if_split_asm dest!: dropWhile_Cons_length)

lemma fallthrough_assignment_length:
  "fallthrough_assignment l ls = Some (a, new, c, rest) \<Longrightarrow> length rest \<le> length ls"
  by (auto simp: fallthrough_assignment_def bind_eq_Some_conv split: if_split_asm
           dest!: up_to_length without_assignment_length)

function normalize_else :: "string list \<Rightarrow> string list" where
  "normalize_else [] = []"
| "normalize_else (l # ls) = (case fallthrough_assignment l ls of
      None \<Rightarrow> l # normalize_else ls
    | Some (prior, new, close, rest) \<Rightarrow> l # prior @ [new] @ close @ normalize_else rest)"
  by pat_completeness auto
termination
  by (relation "measure length") (auto simp: less_Suc_eq_le dest: fallthrough_assignment_length [OF sym] fallthrough_assignment_length)

definition normalize_empty_else_fallthrough_assignment :: "string \<Rightarrow> string" where
  "normalize_empty_else_fallthrough_assignment = on_lines normalize_else"

text \<open>The only assignment of an \<open>else\<close> body, with its distance from the start of the body, and the
  lines after the body.\<close>

fun else_assignment ::
  "nat \<Rightarrow> (nat \<times> string \<times> string) option \<Rightarrow> string list \<Rightarrow> ((nat \<times> string \<times> string) \<times> string list) option" where
  "else_assignment j found [] = None"
| "else_assignment j found (l # ls) =
     (if trim l = ''}'' then map_option (\<lambda>f. (f, ls)) found
      else if is_idle l then else_assignment (j + 1) found ls
      else case parse_simple_local_assignment (trim l) of
        None \<Rightarrow> None
      | Some (lhs, rhs) \<Rightarrow>
          (case found of Some _ \<Rightarrow> None | None \<Rightarrow> else_assignment (j + 1) (Some (j, lhs, rhs)) ls))"

definition next_assignment :: "string list \<Rightarrow> (string \<times> string) option" where
  "next_assignment ls = (case dropWhile is_idle ls of [] \<Rightarrow> None | l # _ \<Rightarrow> parse_simple_local_assignment (trim l))"

definition repeated_in_else :: "string list \<Rightarrow> nat set" where
  "repeated_in_else ls = set (concat (map (\<lambda>i.
     if trim (ls ! i) \<noteq> ''} else {'' then []
     else case else_assignment (i + 1) None (drop (i + 1) ls) of
       None \<Rightarrow> []
     | Some ((j, lhs, rhs), after) \<Rightarrow> if next_assignment after = Some (lhs, rhs) then [j] else [])
     [0..<length ls]))"

text \<open>An assignment that the next line overwrites.\<close>

definition overwritten :: "string list \<Rightarrow> nat set \<Rightarrow> nat \<Rightarrow> bool" where
  "overwritten ls drop_line i \<longleftrightarrow>
     i \<notin> drop_line \<and>
     (case parse_simple_local_assignment (trim (ls ! i)) of
        None \<Rightarrow> False
      | Some (lhs, _) \<Rightarrow>
          let after = drop (i + 1) ls; j = i + 1 + length (takeWhile is_idle after) in
          j < length ls \<and> j \<notin> drop_line \<and>
          (case parse_simple_local_assignment (trim (ls ! j)) of None \<Rightarrow> False | Some (lhs2, _) \<Rightarrow> lhs2 = lhs))"

definition elide_assignments :: "string list \<Rightarrow> string list" where
  "elide_assignments ls =
     (let drop1 = repeated_in_else ls;
          drop2 = fold (\<lambda>i d. if overwritten ls d i then insert i d else d) [0..<length ls] drop1
      in map (\<lambda>i. ls ! i) (filter (\<lambda>i. i \<notin> drop2) [0..<length ls]))"

definition elide_redundant_assignments :: "string \<Rightarrow> string" where
  "elide_redundant_assignments = on_lines elide_assignments"


section \<open>Bindings and declarations\<close>

text \<open>The identifiers a line uses: those of a binding's right-hand side, or of the whole line.\<close>

definition used_identifiers :: "string \<Rightarrow> string list" where
  "used_identifiers l = (case parse_let_binding (trim l) of
      Some (_, rhs) \<Rightarrow> collect_identifiers rhs
    | None \<Rightarrow> collect_identifiers (trim l))"

definition removable_let :: "string list \<Rightarrow> string \<Rightarrow> bool" where
  "removable_let ls l \<longleftrightarrow> (case parse_let_binding (trim l) of
      None \<Rightarrow> False
    | Some (name, rhs) \<Rightarrow> name \<notin> set (concat (map used_identifiers ls)) \<and> is_pure_let_rhs rhs)"

function prune_lets :: "string list \<Rightarrow> string list" where
  "prune_lets ls =
     (if list_ex (removable_let ls) ls then prune_lets (filter (\<lambda>l. \<not> removable_let ls l) ls) else ls)"
  by pat_completeness auto
termination
  by (relation "measure length") (auto simp: list_ex_iff intro: length_filter_less)

declare prune_lets.simps [simp del]

definition prune_lets_lines :: "string list \<Rightarrow> string list" where
  "prune_lets_lines ls = compact_blank (prune_lets ls)"

definition prune_unused_pure_let_definitions :: "string \<Rightarrow> string" where
  "prune_unused_pure_let_definitions = on_lines prune_lets_lines"

text \<open>The parameters of a header; the slice between its parentheses panics if the last closing one comes
  prior the first opening one.\<close>

definition header_params :: "string \<Rightarrow> string list option" where
  "header_params header =
     (case (split_at ''('' header, split_at '')'' (rev header)) of
        (Some (prior, _), Some (after, _)) \<Rightarrow>
          let open1 = length prior + 1; close = length header - length after - 1 in
          if open1 \<le> close
          then Some (filter (\<lambda>n. n \<noteq> []) (map (\<lambda>raw. trim (takeWhile (\<lambda>c. c \<noteq> CHR '':'') raw))
                      (split_char (CHR '','') (take (close - open1) (drop open1 header)))))
          else None
      | _ \<Rightarrow> Some [])"

definition is_counted :: "string \<Rightarrow> bool" where
  "is_counted l \<longleftrightarrow> \<not> is_idle l"

definition missing_locals :: "string list \<Rightarrow> string list \<Rightarrow> string list" where
  "missing_locals params body =
     (let counted = filter is_counted body;
          declared = concat (map (\<lambda>l. case parse_let_binding (trim l) of Some (n, _) \<Rightarrow> [n] | None \<Rightarrow> []) counted);
          referenced = filter is_local_temp_name (concat (map (\<lambda>l. collect_identifiers (trim l)) counted))
      in sort (remdups (filter (\<lambda>n. n \<notin> set declared \<and> n \<notin> set params) referenced)))"

definition is_declaration :: "string \<Rightarrow> bool" where
  "is_declaration l \<longleftrightarrow> is_blank l \<or> starts_with ''let '' (trim l)"

definition add_missing_local_declarations :: "string \<Rightarrow> string option" where
  "add_missing_local_declarations input = (case lines input of
      [] \<Rightarrow> Some input
    | header # body \<Rightarrow>
        if \<not> starts_with ''fn '' (trim header) then Some input
        else case header_params (trim header) of
          None \<Rightarrow> None
        | Some params \<Rightarrow>
            let missing = missing_locals params body in
            if missing = [] then Some input
            else Some (unlines ([header] @ takeWhile is_declaration body @
                         map (\<lambda>n. ''    let '' @ n) missing @ dropWhile is_declaration body)))"


section \<open>Result lengths\<close>

definition trim_end_brackets :: "string \<Rightarrow> string" where
  "trim_end_brackets s = rev (dropWhile (\<lambda>c. c = CHR '']'') (rev s))"

definition infer_result_len_from_store :: "string \<Rightarrow> u64 option" where
  "infer_result_len_from_store line =
     Option.bind (split_at ''='' (trim line)) (\<lambda>(lhs, _).
     Option.bind (split_at ''['' (trim lhs)) (\<lambda>(width, addr).
     if \<not> ends_with '']'' (trim_end addr) then None
     else if trim (trim_end_brackets (trim_end addr)) \<noteq> ''RESULT_PTR + 0x50000'' then None
     else if trim width = ''u8'' then Some 1
     else if trim width = ''u16'' then Some 2
     else if trim width = ''u32'' then Some 4
     else if trim width = ''u64'' then Some 8
     else None))"

definition result_len_line :: "string list \<Rightarrow> string \<Rightarrow> string list \<Rightarrow> string option" where
  "result_len_line prior l ls =
     (if trim l \<noteq> ''RESULT_LEN = RESULT_PTR'' then None
      else case (dropWhile is_idle prior, dropWhile is_idle ls) of
        (prev # _, nxt # _) \<Rightarrow>
          if trim nxt = ''HEAP_PTR = 4''
          then map_option (\<lambda>len. indent_of l @ ''RESULT_LEN = '' @ show_nat (unat len)) (infer_result_len_from_store prev)
          else None
      | _ \<Rightarrow> None)"

text \<open>\<open>prior\<close> is what has been written, last line first.\<close>

fun normalize_len :: "string list \<Rightarrow> string list \<Rightarrow> string list" where
  "normalize_len prior [] = rev prior"
| "normalize_len prior (l # ls) =
     normalize_len ((case result_len_line prior l ls of None \<Rightarrow> l | Some l' \<Rightarrow> l') # prior) ls"

fun any_result_len :: "string list \<Rightarrow> string list \<Rightarrow> bool" where
  "any_result_len prior [] = False"
| "any_result_len prior (l # ls) = (case result_len_line prior l ls of
      Some _ \<Rightarrow> True
    | None \<Rightarrow> any_result_len (l # prior) ls)"

definition normalize_result_len_metadata :: "string \<Rightarrow> string" where
  "normalize_result_len_metadata input =
     (if any_result_len [] (lines input) then unlines (normalize_len [] (lines input)) else input)"


section \<open>Blank lines and the whole pipeline\<close>

definition closes_next :: "string list \<Rightarrow> bool" where
  "closes_next ls = (case dropWhile is_blank ls of [] \<Rightarrow> False | l # _ \<Rightarrow> starts_with ''}'' (trim l))"

fun drop_blank_before_close :: "string list \<Rightarrow> string list" where
  "drop_blank_before_close [] = []"
| "drop_blank_before_close (l # ls) =
     (if is_blank l \<and> closes_next ls then drop_blank_before_close ls else l # drop_blank_before_close ls)"

fun blank_after_close :: "string list \<Rightarrow> string list" where
  "blank_after_close [] = []"
| "blank_after_close [l] = [l]"
| "blank_after_close (l # m # ls) =
     (if (trim l = ''}'' \<or> trim l = ''};'') \<and> \<not> is_blank m \<and> \<not> starts_with ''}'' (trim m) \<and> trim m \<noteq> ''} else {''
      then l # [] # blank_after_close (m # ls)
      else l # blank_after_close (m # ls))"

fun dedup_returns :: "bool \<Rightarrow> string list \<Rightarrow> string list" where
  "dedup_returns prev_was_return [] = []"
| "dedup_returns prev_was_return (l # ls) =
     (if trim l = ''return'' then (if prev_was_return then dedup_returns True ls else l # dedup_returns True ls)
      else l # dedup_returns (prev_was_return \<and> is_blank l) ls)"

text \<open>A pass is repeated until it changes nothing, at most \<open>n\<close> times.\<close>

fun repeat_pass :: "nat \<Rightarrow> (string \<Rightarrow> string) \<Rightarrow> string \<Rightarrow> string" where
  "repeat_pass 0 f text = text"
| "repeat_pass (Suc n) f text = (let nxt = f text in if nxt = text then text else repeat_pass n f nxt)"

definition goto_round :: "string \<Rightarrow> string" where
  "goto_round text = prune_unused_labels (invert_conditional_gotos (remove_unreachable_after_terminators
     (remove_unreachable_after_control_flow (elide_redundant_gotos text))))"

definition assignment_round :: "string \<Rightarrow> string" where
  "assignment_round text = elide_redundant_assignments (normalize_empty_else_fallthrough_assignment text)"

definition layout :: "string list \<Rightarrow> string list" where
  "layout ls = dedup_returns False (blank_after_close (drop_blank_before_close ls))"

definition fix_blank_lines :: "string \<Rightarrow> string" where
  "fix_blank_lines input =
     normalize_result_len_metadata (prune_unused_pure_let_definitions
       (repeat_pass 3 assignment_round (repeat_pass 4 goto_round
         (collapse_consecutive_labels (on_lines layout input)))))"

end
