(* ===== verification/Text_Correct.thy ===== *)
theory Text_Correct
  imports Text_Cleanup
begin

text \<open>
  What the passes over the emitted text keep (\<open>fix_blank_lines\<close> and the helpers it calls in
  \<open>src/structuring/emission.rs\<close>): a renaming replaces exactly the identifiers that are the name, pruning
  labels drops exactly the labels nothing jumps to, pruning bindings leaves no binding that could go; and
  inputs on which a pass changes what the text means.
\<close>

section \<open>Renaming\<close>

text \<open>The reference: a text is a sequence of maximal runs of identifier characters and of single other
  characters.\<close>

fun tokens :: "string \<Rightarrow> string list" where
  "tokens [] = []"
| "tokens (c # s) =
     (if is_ident_byte c
      then case tokens s of
        (d # t) # ts \<Rightarrow> if is_ident_byte d then (c # d # t) # ts else [c] # (d # t) # ts
      | ts \<Rightarrow> [c] # ts
      else [c] # tokens s)"

definition rename_tokens :: "string \<Rightarrow> string \<Rightarrow> string \<Rightarrow> string" where
  "rename_tokens from to s = concat (map (\<lambda>t. if t = from then to else t) (tokens s))"

lemma tokens_nonempty: "[] \<notin> set (tokens s)"
  by (induction s rule: tokens.induct) (auto split: list.splits if_splits)

lemma concat_tokens [simp]: "concat (tokens s) = s"
  by (induction s rule: tokens.induct) (auto split: list.splits if_splits)

lemma tokens_run:
  "c # s \<noteq> [] \<Longrightarrow> is_ident_byte c \<Longrightarrow> tokens (c # s) = (c # takeWhile is_ident_byte s) # tokens (dropWhile is_ident_byte s)"
proof (induction s arbitrary: c)
  case (Cons d s)
  show ?case
  proof (cases "is_ident_byte d")
    case True
    then have "tokens (d # s) = (d # takeWhile is_ident_byte s) # tokens (dropWhile is_ident_byte s)"
      using Cons.IH [of d] by simp
    then show ?thesis using True Cons.prems by simp
  next
    case False
    then show ?thesis using Cons.prems by simp
  qed
qed simp

lemma tokens_other: "\<not> is_ident_byte c \<Longrightarrow> tokens (c # s) = [c] # tokens s"
  by simp

declare tokens.simps(2) [simp del]

lemma starts_with_append [simp]: "starts_with p (p @ s)"
  by (simp add: starts_with_def)

lemma boundary_after_run: "boundary (first_char (dropWhile is_ident_byte s))"
  by (induction s) (auto simp: boundary_def first_char_def)

text \<open>At the start of a run the name matches exactly if it is the run.\<close>

lemma matches_run:
  assumes "from \<noteq> []" "list_all is_ident_byte from" "boundary prev" "is_ident_byte c"
  shows "matches_ident from prev (c # s) \<longleftrightarrow> from = c # takeWhile is_ident_byte s"
proof -
  let ?run = "c # takeWhile is_ident_byte s" and ?rest = "dropWhile is_ident_byte s"
  have split: "c # s = ?run @ ?rest" by simp
  have rest: "boundary (first_char ?rest)"
    by (rule boundary_after_run)
  show ?thesis
  proof
    assume "from = ?run"
    then show "matches_ident from prev (c # s)"
      unfolding matches_ident_def using assms(3) rest split
      by (metis append_eq_conv_conj starts_with_append)
  next
    assume m: "matches_ident from prev (c # s)"
    then obtain tl where tl: "c # s = from @ tl" "boundary (first_char tl)"
      unfolding matches_ident_def starts_with_def by (metis append_take_drop_id)
    have "takeWhile is_ident_byte (from @ tl) = from @ takeWhile is_ident_byte tl"
      using assms(2) by (induction "from") auto
    moreover have "takeWhile is_ident_byte tl = []"
      using tl(2) by (cases tl) (auto simp: boundary_def first_char_def)
    ultimately have "takeWhile is_ident_byte (c # s) = from" using tl(1) by simp
    then show "from = ?run" using assms(4) by simp
  qed
qed

lemma no_match_inside: "boundary prev = False \<Longrightarrow> \<not> matches_ident from prev s"
  by (simp add: matches_ident_def)

lemma no_match_other:
  assumes "from \<noteq> []" "list_all is_ident_byte from" "\<not> is_ident_byte c"
  shows "\<not> matches_ident from prev (c # s)"
  using assms by (cases "from") (auto simp: matches_ident_def starts_with_def)

text \<open>The rest of a run is copied, or skipped.\<close>

lemma replace_inside:
  "list_all is_ident_byte r \<Longrightarrow> is_ident_byte p \<Longrightarrow>
   replace_from from to 0 (Some p) (r @ s) = r @ replace_from from to 0 (Some (last (p # r))) s"
  by (induction r arbitrary: p) (auto simp: no_match_inside boundary_def)

lemma replace_skip:
  "replace_from from to (length r) (Some p) (r @ s) = replace_from from to 0 (Some (last (p # r))) s"
  by (induction r arbitrary: p) auto

lemma replace_from_tokens:
  assumes "from \<noteq> []" "list_all is_ident_byte from"
  shows "boundary prev \<or> boundary (first_char s) \<Longrightarrow> replace_from from to 0 prev s = rename_tokens from to s"
proof (induction s arbitrary: prev rule: length_induct)
  case (1 s)
  show ?case
  proof (cases s)
    case Nil
    then show ?thesis by (simp add: rename_tokens_def)
  next
    case (Cons c s')
    show ?thesis
    proof (cases "is_ident_byte c")
      case False
      have "replace_from from to 0 (Some c) s' = rename_tokens from to s'"
        using 1 Cons False by (simp add: boundary_def)
      moreover have "[c] \<noteq> from" using False assms by (cases "from") auto
      ultimately show ?thesis using no_match_other [OF assms False] False Cons
        by (simp add: rename_tokens_def tokens_other)
    next
      case True
      let ?run = "takeWhile is_ident_byte s'" and ?rest = "dropWhile is_ident_byte s'"
      have prev: "boundary prev" using 1(2) Cons True by (simp add: boundary_def first_char_def)
      have rest: "boundary (first_char ?rest)"
        by (rule boundary_after_run)
      have "length ?rest < length s" using Cons length_dropWhile_le [of is_ident_byte s'] by simp
      then have IH: "replace_from from to 0 p ?rest = rename_tokens from to ?rest" for p using 1(1) rest by blast
      have run: "list_all is_ident_byte ?run" by (auto simp: list_all_iff dest: set_takeWhileD)
      have tok: "rename_tokens from to s = (if c # ?run = from then to else c # ?run) @ rename_tokens from to ?rest"
        unfolding rename_tokens_def Cons by (subst tokens_run) (simp_all add: True)
      have split: "s' = ?run @ ?rest" by simp
      show ?thesis
      proof (cases "from = c # ?run")
        case match: True
        then have "replace_from from to 0 prev s = to @ replace_from from to (length ?run) (Some c) (?run @ ?rest)"
          using matches_run [OF assms prev True, of s'] Cons by simp
        then show ?thesis unfolding replace_skip IH tok using match by simp
      next
        case False
        then have "replace_from from to 0 prev s = c # replace_from from to 0 (Some c) (?run @ ?rest)"
          using matches_run [OF assms prev True, of s'] Cons by simp
        then show ?thesis unfolding replace_inside [OF run True] IH tok using False by simp
      qed
    qed
  qed
qed

lemma replace_identifier_tokens:
  assumes "from \<noteq> []" "list_all is_ident_byte from"
  shows "replace_identifier s from to = rename_tokens from to s"
proof (cases "from = to")
  case True
  then have "(\<lambda>t. if t = from then to else t) = (\<lambda>t. t)" by auto
  then have "rename_tokens from to s = s" by (simp add: rename_tokens_def)
  then show ?thesis using True by (simp add: replace_identifier_def)
next
  case False
  then show ?thesis using assms replace_from_tokens [OF assms, of None s to]
    by (simp add: replace_identifier_def boundary_def)
qed

text \<open>Searching for a name finds it exactly if it is one of the tokens.\<close>

lemma occurs_inside:
  "list_all is_ident_byte r \<Longrightarrow> is_ident_byte p \<Longrightarrow>
   occurs_from name (Some p) (r @ s) = occurs_from name (Some (last (p # r))) s"
  by (induction r arbitrary: p) (auto simp: no_match_inside boundary_def)

lemma occurs_from_tokens:
  assumes "name \<noteq> []" "list_all is_ident_byte name"
  shows "boundary prev \<or> boundary (first_char s) \<Longrightarrow> occurs_from name prev s \<longleftrightarrow> name \<in> set (tokens s)"
proof (induction s arbitrary: prev rule: length_induct)
  case (1 s)
  show ?case
  proof (cases s)
    case Nil
    then show ?thesis by simp
  next
    case (Cons c s')
    show ?thesis
    proof (cases "is_ident_byte c")
      case False
      have "occurs_from name (Some c) s' \<longleftrightarrow> name \<in> set (tokens s')"
        using 1 Cons False by (simp add: boundary_def)
      moreover have "[c] \<noteq> name" using False assms by (cases name) auto
      ultimately show ?thesis using no_match_other [OF assms False] False Cons by (auto simp: tokens_other)
    next
      case True
      let ?run = "takeWhile is_ident_byte s'" and ?rest = "dropWhile is_ident_byte s'"
      have prev: "boundary prev" using 1(2) Cons True by (simp add: boundary_def first_char_def)
      have rest: "boundary (first_char ?rest)"
        by (rule boundary_after_run)
      have "length ?rest < length s" using Cons length_dropWhile_le [of is_ident_byte s'] by simp
      then have IH: "occurs_from name p ?rest \<longleftrightarrow> name \<in> set (tokens ?rest)" for p using 1(1) rest by blast
      have run: "list_all is_ident_byte ?run" by (auto simp: list_all_iff dest: set_takeWhileD)
      have "occurs_from name (Some c) s' \<longleftrightarrow> name \<in> set (tokens ?rest)"
        using occurs_inside [OF run True, of name ?rest] IH by simp
      then show ?thesis using matches_run [OF assms prev True, of s'] tokens_run [of c s'] True Cons by auto
    qed
  qed
qed

text \<open>C12: A renaming of a local name in the emitted text (the passes use it for label aliases and for the
  names of folded bindings) replaces exactly the identifiers that are that name: the text is cut
  into maximal runs of identifier characters and single other characters, and every token equal to the
  name is replaced, never a part of a longer identifier. Whether a text mentions a name is whether the
  name is one of these tokens.\<close>

theorem renaming_exact:
  assumes "name \<noteq> []" "list_all is_ident_byte name"
  shows "replace_identifier s name new = rename_tokens name new s \<and>
    (raw_contains_identifier s name \<longleftrightarrow> name \<in> set (tokens s))"
  using replace_identifier_tokens [OF assms] occurs_from_tokens [OF assms, of None s] assms(1)
  by (simp_all add: raw_contains_identifier_def boundary_def)

theorem renaming_exact_witness:
  "replace_identifier ''r1 = r10 + r1'' ''r1'' ''arg'' = ''arg = r10 + arg'' \<and>
   rename_tokens ''r1'' ''arg'' ''r1 = r10 + r1'' = ''arg = r10 + arg'' \<and>
   \<not> raw_contains_identifier ''r10 + xr1'' ''r1''"
proof -
  have name: "''r1'' \<noteq> []" "list_all is_ident_byte ''r1''" by code_simp+
  have "rename_tokens ''r1'' ''arg'' ''r1 = r10 + r1'' = ''arg = r10 + arg''" by code_simp
  moreover have "''r1'' \<notin> set (tokens ''r10 + xr1'')" by code_simp
  ultimately show ?thesis
    using renaming_exact [OF name, of "''r1 = r10 + r1''" "''arg''"] renaming_exact [OF name, of "''r10 + xr1''"]
    by simp
qed


section \<open>Labels\<close>

lemma split_at_chars: "split_at p s = Some ab \<Longrightarrow> set p \<subseteq> set s"
proof (induction p s arbitrary: ab rule: split_at.induct)
  case (2 p c s)
  show ?case
  proof (cases "starts_with p (c # s)")
    case True
    then show ?thesis unfolding starts_with_def using set_take_subset by metis
  next
    case False
    then obtain ab' where "split_at p s = Some ab'" using 2(2) by auto
    then show ?thesis using 2(1) [OF False] by auto
  qed
qed (auto split: if_splits)

lemma no_goto: "CHR ''g'' \<notin> set s \<Longrightarrow> goto_labels s = []"
  using split_at_chars [of "''goto ''" s] by (cases "split_at ''goto '' s") (auto simp: goto_labels.simps)

lemma trim_chars: "c \<in> set l \<Longrightarrow> is_space c \<or> c \<in> set (trim l)"
proof -
  have drop: "c \<in> set s \<Longrightarrow> is_space c \<or> c \<in> set (dropWhile is_space s)" for s
    by (induction s) auto
  show "c \<in> set l \<Longrightarrow> is_space c \<or> c \<in> set (trim l)"
    using drop [of l] drop [of "rev (trim_start l)"] by (auto simp: trim_def trim_end_def trim_start_def)
qed

lemma hex_not_g: "is_hex_digit c \<Longrightarrow> c \<noteq> CHR ''g''"
  by (auto simp: is_hex_digit_def)

lemma label_no_goto: "parse_block_label_name l \<noteq> None \<Longrightarrow> goto_labels l = []"
proof (rule no_goto, rule notI)
  assume l: "parse_block_label_name l \<noteq> None" and g: "CHR ''g'' \<in> set l"
  let ?t = "trim l"
  have t: "is_block_label_name (butlast ?t)" "ends_with '':'' ?t"
    using l by (auto simp: parse_block_label_name_def Let_def split: if_splits)
  then have rev: "take (Suc 0) (rev ?t) = '':''" by (simp add: ends_with_def starts_with_def)
  then obtain u where "rev ?t = CHR '':'' # u" by (cases "rev ?t") auto
  then have "?t = rev u @ '':''" by (metis rev.simps(2) rev_rev_ident)
  then have last: "?t \<noteq> []" "last ?t = CHR '':''" by simp_all
  obtain hx where hx: "strip_prefix ''block_'' (butlast ?t) = Some hx" "list_all is_hex_digit hx"
    using t(1) by (auto simp: is_block_label_name_def split: option.splits)
  then have "butlast ?t = ''block_'' @ hx"
    by (auto simp: strip_prefix_def starts_with_def split: if_splits) (metis append_Cons append_Nil append_take_drop_id)
  then have "?t = (''block_'' @ hx) @ [CHR '':'']" using last by (metis append_butlast_last_id)
  moreover have "CHR ''g'' \<notin> set hx" using hx(2) hex_not_g by (auto simp: list_all_iff)
  ultimately have "CHR ''g'' \<notin> set ?t" by simp
  moreover have "\<not> is_space CHR ''g''" by (simp add: is_space_def)
  ultimately show False using trim_chars [OF g] by blast
qed

lemma blank_no_goto: "is_blank l \<Longrightarrow> goto_labels l = []"
  using trim_chars [of "CHR ''g''" l] by (intro no_goto) (auto simp: is_blank_def is_space_def)

lemma drop_blank_runs_filter: "filter (\<lambda>l. \<not> is_blank l) (drop_blank_runs b ls) = filter (\<lambda>l. \<not> is_blank l) ls"
  by (induction b ls rule: drop_blank_runs.induct) auto

lemma compact_blank_filter: "filter (\<lambda>l. \<not> is_blank l) (compact_blank ls) = filter (\<lambda>l. \<not> is_blank l) ls"
proof -
  have "filter (\<lambda>l. \<not> is_blank l) (dropWhile is_blank xs) = filter (\<lambda>l. \<not> is_blank l) xs" for xs by (induction xs) auto
  then show ?thesis by (simp add: compact_blank_def rev_filter [symmetric] drop_blank_runs_filter)
qed

lemma blank_not_label: "is_blank l \<Longrightarrow> parse_block_label_name l = None"
  by (simp add: is_blank_def parse_block_label_name_def starts_with_def)

lemma referenced_nonblank: "collect_referenced_labels ls = (\<Union>l \<in> {l \<in> set ls. \<not> is_blank l}. set (goto_labels l))"
  using blank_no_goto by (fastforce simp: collect_referenced_labels_def)

lemma label_pruning:
  "filter (\<lambda>l. \<not> is_blank l) (prune_labels_lines ls) =
     filter (\<lambda>l. \<not> is_blank l \<and> \<not> unused_label (collect_referenced_labels ls) l) ls"
  "collect_referenced_labels (prune_labels_lines ls) = collect_referenced_labels ls"
  "l \<in> set (prune_labels_lines ls) \<Longrightarrow> \<not> unused_label (collect_referenced_labels (prune_labels_lines ls)) l"
proof -
  show f: "filter (\<lambda>l. \<not> is_blank l) (prune_labels_lines ls) =
     filter (\<lambda>l. \<not> is_blank l \<and> \<not> unused_label (collect_referenced_labels ls) l) ls"
    by (simp add: prune_labels_lines_def compact_blank_filter conj_commute)
  have "set (filter (\<lambda>l. \<not> is_blank l) (prune_labels_lines ls)) =
      {l \<in> set ls. \<not> is_blank l \<and> \<not> unused_label (collect_referenced_labels ls) l}"
    unfolding f by auto
  then have s: "{l \<in> set (prune_labels_lines ls). \<not> is_blank l} =
      {l \<in> set ls. \<not> is_blank l \<and> \<not> unused_label (collect_referenced_labels ls) l}" by simp
  have "goto_labels l = []" if "unused_label R l" for R l
    using that label_no_goto by (auto simp: unused_label_def split: option.splits)
  then show r: "collect_referenced_labels (prune_labels_lines ls) = collect_referenced_labels ls"
    unfolding referenced_nonblank [of "prune_labels_lines ls"] s referenced_nonblank [of ls] by fastforce
  assume l: "l \<in> set (prune_labels_lines ls)"
  show "\<not> unused_label (collect_referenced_labels (prune_labels_lines ls)) l"
  proof (cases "is_blank l")
    case True
    then show ?thesis by (simp add: unused_label_def blank_not_label)
  next
    case False
    then have "l \<in> {l \<in> set (prune_labels_lines ls). \<not> is_blank l}" using l by simp
    then show ?thesis unfolding s r by simp
  qed
qed


section \<open>Bindings\<close>

lemma used_mono: "set ls \<subseteq> set ls' \<Longrightarrow> set (concat (map used_identifiers ls)) \<subseteq> set (concat (map used_identifiers ls'))"
  by auto

lemma binding_pruning:
  "prune_lets ls = filter (\<lambda>l. l \<in> set (prune_lets ls)) ls"
  "\<not> list_ex (removable_let (prune_lets ls)) (prune_lets ls)"
  "l \<in> set ls \<Longrightarrow> l \<notin> set (prune_lets ls) \<Longrightarrow> \<exists>name rhs. parse_let_binding (trim l) = Some (name, rhs) \<and>
     is_pure_let_rhs rhs \<and> name \<notin> set (concat (map used_identifiers (prune_lets ls)))"
proof (induction ls rule: prune_lets.induct)
  case (1 ls)
  let ?ls = "filter (\<lambda>l. \<not> removable_let ls l) ls"
  note step = prune_lets.simps [of ls]
  {
    case 1
    show ?case
    proof (cases "list_ex (removable_let ls) ls")
      case True
      have "prune_lets ?ls = filter (\<lambda>l. l \<in> set (prune_lets ?ls)) ?ls" by (rule "1.IH"(1) [OF True])
      then have "prune_lets ls = filter (\<lambda>l. l \<in> set (prune_lets ls)) ?ls" using step True by simp
      moreover have "set (prune_lets ls) \<subseteq> set ?ls" using calculation by (metis filter_is_subset)
      ultimately show ?thesis by (smt (verit, best) filter_cong filter_filter mem_Collect_eq set_filter subsetD)
    next
      case False
      then show ?thesis using step by simp
    qed
  next
    case 2
    show ?case using "1.IH"(2) step by (cases "list_ex (removable_let ls) ls") simp_all
  next
    case 3
    show ?case
    proof (cases "list_ex (removable_let ls) ls")
      case True
      then have eq: "prune_lets ls = prune_lets ?ls" using step by simp
      have sub: "set (prune_lets ?ls) \<subseteq> set ls" using "1.IH"(1) [OF True] by (metis (no_types, lifting) filter_is_subset subset_trans)
      show ?thesis
      proof (cases "removable_let ls l")
        case rem: True
        then obtain name rhs where "parse_let_binding (trim l) = Some (name, rhs)" "is_pure_let_rhs rhs"
            "name \<notin> set (concat (map used_identifiers ls))"
          by (auto simp: removable_let_def split: option.splits)
        then show ?thesis using used_mono [OF sub] unfolding eq by blast
      next
        case False
        then show ?thesis using "1.IH"(3) [OF True] 3 unfolding eq by simp
      qed
    next
      case False
      then show ?thesis using 3 step by simp
    qed
  }
qed


text \<open>Pruning labels drops exactly the label lines whose label no jump names: the other lines that are
  not blank stay, in their order; the labels that are jumped to are the same after it, so no jump loses its
  label, and one pruning is enough: no label without a jump to it is left.\<close>

theorem label_pruning_exact:
  "filter (\<lambda>l. \<not> is_blank l) (prune_labels_lines ls) =
     filter (\<lambda>l. \<not> is_blank l \<and> \<not> unused_label (collect_referenced_labels ls) l) ls \<and>
   collect_referenced_labels (prune_labels_lines ls) = collect_referenced_labels ls \<and>
   \<not> list_ex (unused_label (collect_referenced_labels (prune_labels_lines ls))) (prune_labels_lines ls)"
  using label_pruning(1,2) label_pruning(3) [of _ ls] by (simp add: list_ex_iff)

text \<open>C38: Pruning bindings removes only bindings: what is left is a subsequence of the lines in their
  order, every line that is gone is a \<open>let\<close> whose right-hand side makes no call and whose name no
  remaining line uses, and the pass reaches its fixed point: no binding that could go is left.\<close>

theorem binding_pruning_exact:
  "prune_lets ls = filter (\<lambda>l. l \<in> set (prune_lets ls)) ls \<and>
   set ls - set (prune_lets ls) \<subseteq>
     {l. \<exists>name rhs. parse_let_binding (trim l) = Some (name, rhs) \<and> is_pure_let_rhs rhs \<and>
        name \<notin> set (concat (map used_identifiers (prune_lets ls)))} \<and>
   \<not> list_ex (removable_let (prune_lets ls)) (prune_lets ls)"
  using binding_pruning(1,2) binding_pruning(3) [of _ ls] by blast

end
