(* ===== verification/Emission.thy ===== *)
theory Emission
  imports Lifted_Passes Text
begin

text \<open>
  What the emitter of pseudo-code needs from the program (\<open>src/structuring/emission.rs\<close>): conditions
  and operands as text, values of registers and calls with explicit arguments, labels, reachable
  blocks, and the declarations that are hoisted to the top.

  A \<open>HashMap\<close> of aliases is an association list (theory \<open>Text\<close>); the maps that are only looked up are
  partial maps. The keys of \<open>var_name_to_def_pc\<close> are names of variables, so the loop over that map is a
  loop over the names of the variables.
\<close>

section \<open>Conditions\<close>

primrec cond_op_text :: "cond_op \<Rightarrow> string" where
  "cond_op_text CEq = ''==''"
| "cond_op_text CNe = ''!=''"
| "cond_op_text CLtS = ''<s''"
| "cond_op_text CLeS = ''<=s''"
| "cond_op_text CGeS = ''>=s''"
| "cond_op_text CGtS = ''>s''"
| "cond_op_text CLeU = ''<=u''"
| "cond_op_text CGeU = ''>=u''"
| "cond_op_text CLtU = ''<u''"
| "cond_op_text CGtU = ''>u''"

primrec format_operand :: "operand \<Rightarrow> string" where
  "format_operand (OReg r) = show_reg r"
| "format_operand (OImm v) = show_i32 v"

definition condition_text :: "string \<Rightarrow> cond_op \<Rightarrow> string \<Rightarrow> string" where
  "condition_text l opr r = l @ '' '' @ cond_op_text opr @ '' '' @ r"

definition format_condition :: "condition \<Rightarrow> string" where
  "format_condition c = condition_text (format_operand (lhs c)) (cond_op c) (format_operand (rhs c))"

primrec invert_cond_op :: "cond_op \<Rightarrow> cond_op" where
  "invert_cond_op CEq = CNe"
| "invert_cond_op CNe = CEq"
| "invert_cond_op CLtS = CGeS"
| "invert_cond_op CLeS = CGtS"
| "invert_cond_op CGeS = CLtS"
| "invert_cond_op CGtS = CLeS"
| "invert_cond_op CLeU = CGtU"
| "invert_cond_op CGeU = CLtU"
| "invert_cond_op CLtU = CGeU"
| "invert_cond_op CGtU = CLeU"

definition invert_condition :: "condition \<Rightarrow> condition" where
  "invert_condition c = c\<lparr>cond_op := invert_cond_op (cond_op c)\<rparr>"

text \<open>A loop whose branch leaves it, and whose body is on the fallthrough, is printed with the inverse of
  its branch's condition.\<close>

definition should_invert_loop_condition :: "control_flow_graph \<Rightarrow> usize \<Rightarrow> usize list \<Rightarrow> bool" where
  "should_invert_loop_condition cfg header_pc lbody = (case get_block cfg header_pc of
      None \<Rightarrow> False
    | Some header_block \<Rightarrow>
        if block_instrs header_block = [] then False
        else let (branch_pc, instr) = last (block_instrs header_block); shape = classify instr in
        if \<not> is_conditional_branch shape then False
        else case branch_offset shape of
          None \<Rightarrow> False
        | Some offset \<Rightarrow>
            let branch_target = compute_jump_target branch_pc offset in
            branch_target \<notin> set lbody \<and>
            list_ex (\<lambda>succ. succ \<noteq> branch_target \<and> succ \<in> set lbody) (successors header_block))"

definition maybe_invert_loop_condition :: "control_flow_graph \<Rightarrow> usize \<Rightarrow> usize list \<Rightarrow> condition \<Rightarrow> condition" where
  "maybe_invert_loop_condition cfg header_pc lbody c =
     (if should_invert_loop_condition cfg header_pc lbody then invert_condition c else c)"

definition last_instruction_pc :: "control_flow_graph \<Rightarrow> usize \<Rightarrow> usize option" where
  "last_instruction_pc cfg block_pc = (case get_block cfg block_pc of
      None \<Rightarrow> None
    | Some b \<Rightarrow> if block_instrs b = [] then None else Some (fst (last (block_instrs b))))"

definition name_uses :: "lifted_program \<Rightarrow> string \<Rightarrow> nat" where
  "name_uses lp name = length (filter (\<lambda>n. n = name) (map snd (var_at_use lp)))"

text \<open>The definition of a name, if its instruction is not printed.\<close>

definition hidden_definition :: "lifted_program \<Rightarrow> usize set \<Rightarrow> string \<Rightarrow> expression option" where
  "hidden_definition lp emission_eliminated name = (case var_name_to_def_pc lp name of
      None \<Rightarrow> None
    | Some dpc \<Rightarrow> if dpc \<in> eliminated_pcs lp \<or> dpc \<in> emission_eliminated then expr_at lp dpc else None)"

definition resolved_text :: "lifted_program \<Rightarrow> expression \<Rightarrow> string" where
  "resolved_text lp e = format_expression (resolve_eliminated_vars lp e) (lifted_format_context lp)"

definition format_operand_lifted :: "operand \<Rightarrow> usize \<Rightarrow> lifted_program \<Rightarrow> usize set option \<Rightarrow> string" where
  "format_operand_lifted opd branch_pc lp emission_eliminated = (case opd of
      OReg r \<Rightarrow> (case map_of (var_at_use lp) (branch_pc, r) of
          None \<Rightarrow> show_reg r
        | Some name \<Rightarrow>
            (case hidden_definition lp (case emission_eliminated of Some s \<Rightarrow> s | None \<Rightarrow> {}) name of
               None \<Rightarrow> name
             | Some e \<Rightarrow> if name_uses lp name \<le> 1 then resolved_text lp e else name))
    | OImm v \<Rightarrow> show_i32 v)"

text \<open>A test of a boolean against zero prints the boolean's definition, or its negation.\<close>

definition inlined_condition :: "condition \<Rightarrow> usize \<Rightarrow> lifted_program \<Rightarrow> string option" where
  "inlined_condition c branch_pc lp = (case (lhs c, rhs c) of
      (OReg reg, OImm v) \<Rightarrow>
        if v = 0 \<and> cond_op c \<in> {CNe, CEq}
        then case map_of (var_at_use lp) (branch_pc, reg) of
          None \<Rightarrow> None
        | Some name \<Rightarrow>
            (case expression_for_var lp name of
               None \<Rightarrow> None
             | Some e \<Rightarrow>
                 if is_boolean_expr e
                 then let resolved = resolve_eliminated_vars lp e in
                      Some (if cond_op c = CEq
                            then format_expression (simplify_expression (UnaryOp UNot resolved)) (lifted_format_context lp)
                            else format_expression resolved (lifted_format_context lp))
                 else None)
        else None
    | _ \<Rightarrow> None)"

definition format_condition_lifted :: "condition \<Rightarrow> usize \<Rightarrow> lifted_program \<Rightarrow> usize set option \<Rightarrow> string" where
  "format_condition_lifted c branch_pc lp emission_eliminated = (case inlined_condition c branch_pc lp of
      Some text \<Rightarrow> text
    | None \<Rightarrow> condition_text (format_operand_lifted (lhs c) branch_pc lp emission_eliminated) (cond_op c)
                             (format_operand_lifted (rhs c) branch_pc lp emission_eliminated))"

definition format_condition_maybe_lifted ::
  "condition \<Rightarrow> control_flow_graph \<Rightarrow> usize \<Rightarrow> lifted_program option \<Rightarrow> usize set option \<Rightarrow> string" where
  "format_condition_maybe_lifted c cfg header_pc lifted emission_eliminated =
     (case (lifted, last_instruction_pc cfg header_pc) of
        (Some lp, Some branch_pc) \<Rightarrow> format_condition_lifted c branch_pc lp emission_eliminated
      | _ \<Rightarrow> format_condition c)"

definition format_instruction :: "instruction \<Rightarrow> string" where
  "format_instruction instr = format_raw (classify instr)"


section \<open>Instructions and calls\<close>

definition format_add_operand :: "lifted_program \<Rightarrow> usize \<Rightarrow> u8 \<Rightarrow> aliases \<Rightarrow> string" where
  "format_add_operand lp upc reg al = (case map_of (var_at_use lp) (upc, reg) of
      None \<Rightarrow> show_reg reg
    | Some name \<Rightarrow> (case hidden_definition lp {} name of
          Some e \<Rightarrow> apply_aliases (resolved_text lp e) al
        | None \<Rightarrow> resolve_alias name al))"

definition recover_folded_addition_rhs :: "lifted_program \<Rightarrow> usize \<Rightarrow> instruction \<Rightarrow> aliases \<Rightarrow> string option" where
  "recover_folded_addition_rhs lp pc instr al = (case expr_at lp pc of
      Some (Const _) \<Rightarrow>
        (case instr of
           ThreeReg opc dst src1 src2 \<Rightarrow>
             if opc \<in> {Add32, Add64}
             then Some (format_add_operand lp pc src1 al @ '' + '' @ format_add_operand lp pc src2 al)
             else None
         | _ \<Rightarrow> None)
    | _ \<Rightarrow> None)"

definition recover_folded_addition_assignment ::
  "lifted_program \<Rightarrow> usize \<Rightarrow> instruction \<Rightarrow> string \<Rightarrow> aliases \<Rightarrow> string" where
  "recover_folded_addition_assignment lp pc instr raw_line al =
     (case (recover_folded_addition_rhs lp pc instr al, split_at '' = '' raw_line) of
        (Some r, Some (prior, _)) \<Rightarrow> trim_end prior @ '' = '' @ r
      | _ \<Rightarrow> raw_line)"

text \<open>A printed line, and the variables declared so far.\<close>

definition format_pc_with_local_declarations ::
  "lifted_program \<Rightarrow> usize \<Rightarrow> instruction \<Rightarrow> string set \<Rightarrow> aliases \<Rightarrow> string option \<times> string set" where
  "format_pc_with_local_declarations lp pc instr declared al =
     (if pc \<in> eliminated_pcs lp then (None, declared)
      else case format_pc_raw lp pc instr of
        None \<Rightarrow> (None, declared)
      | Some (raw, declare_var) \<Rightarrow>
          let line = apply_aliases (recover_folded_addition_assignment lp pc instr raw al) al in
          (case declare_var of
             None \<Rightarrow> (Some line, declared)
           | Some name \<Rightarrow>
               let resolved = resolve_alias name al in
               if \<not> is_register_name resolved \<and> resolved \<notin> declared
               then (Some (''let '' @ line), insert resolved declared)
               else (Some line, declared)))"

text \<open>What a register holds after an instruction, as text.\<close>

definition folded_value :: "lifted_program \<Rightarrow> usize set \<Rightarrow> usize \<Rightarrow> expression option" where
  "folded_value lp emission_eliminated pc =
     (if pc \<in> eliminated_pcs lp \<or> pc \<in> emission_eliminated
      then case expr_at lp pc of
        None \<Rightarrow> None
      | Some e \<Rightarrow> if is_raw_or_store e then None else Some e
      else None)"

definition register_value_after_instruction ::
  "lifted_program \<Rightarrow> usize \<Rightarrow> instruction \<Rightarrow> usize set \<Rightarrow> aliases \<Rightarrow> (u8 \<times> string) option" where
  "register_value_after_instruction lp pc instr emission_eliminated al = (case def_reg (classify instr) of
      None \<Rightarrow> None
    | Some reg \<Rightarrow>
        (case folded_value lp emission_eliminated pc of
           Some e \<Rightarrow>
             let value = apply_aliases (resolved_text lp e) al in
             if value = show_reg reg then None else Some (reg, value)
         | None \<Rightarrow>
             (case variable_name lp (pc, reg) of
                Some name \<Rightarrow> Some (reg, resolve_alias name al)
              | None \<Rightarrow> Some (reg, show_reg reg))))"

definition format_call_arg ::
  "lifted_program \<Rightarrow> usize \<Rightarrow> u8 \<Rightarrow> (u8 \<rightharpoonup> string) \<Rightarrow> aliases \<Rightarrow> usize set \<Rightarrow> string" where
  "format_call_arg lp call_pc reg block_reg_values al emission_eliminated = (case block_reg_values reg of
      Some value \<Rightarrow> value
    | None \<Rightarrow>
        (case map_of (var_at_use lp) (call_pc, reg) of
           None \<Rightarrow> show_reg reg
         | Some name \<Rightarrow>
             (case hidden_definition lp emission_eliminated name of
                Some e \<Rightarrow> apply_aliases (resolved_text lp e) al
              | None \<Rightarrow> resolve_alias name al)))"

definition format_named_call ::
  "lifted_program \<Rightarrow> string \<Rightarrow> usize \<Rightarrow> (u8 \<rightharpoonup> string) \<Rightarrow> aliases \<Rightarrow> usize set \<Rightarrow> string" where
  "format_named_call lp callee call_pc block_reg_values al emission_eliminated =
     (let args = (case call_param_regs lp callee of
          None \<Rightarrow> []
        | Some regs \<Rightarrow> map (\<lambda>reg. format_call_arg lp call_pc reg block_reg_values al emission_eliminated) regs)
      in callee @ ''('' @ join_with '', '' args @ '')'')"


section \<open>Labels and reachable blocks\<close>

definition show_hex4 :: "nat \<Rightarrow> string" where
  "show_hex4 n = (let digits = show_base 16 n in replicate (4 - length digits) (CHR ''0'') @ digits)"

definition block_label :: "usize \<Rightarrow> string" where
  "block_label pc = ''block_'' @ show_hex4 pc"

text \<open>The targets a structure, and an instruction, may jump to.\<close>

definition structure_targets :: "cf_structure \<Rightarrow> usize list" where
  "structure_targets s = (case s of
      Switch _ _ cases _ \<Rightarrow> map snd cases
    | IfThenElse _ then_blocks else_blocks _ _ \<Rightarrow> then_blocks @ else_blocks
    | Loop _ _ _ _ \<Rightarrow> [])"

definition instruction_targets :: "usize \<times> instruction \<Rightarrow> usize list" where
  "instruction_targets pi = (case pi of (pc, instr) \<Rightarrow>
     (case instr of
        Jump offset \<Rightarrow> [compute_jump_target pc offset]
      | _ \<Rightarrow>
          (case branch_offset (classify instr) of
             Some offset \<Rightarrow> if is_conditional_branch (classify instr) then [compute_jump_target pc offset] else []
           | None \<Rightarrow> [])))"

definition goto_targets :: "control_flow_graph \<Rightarrow> cf_structure list \<Rightarrow> usize set" where
  "goto_targets cfg ss = set (filter (\<lambda>pc. get_block cfg pc \<noteq> None)
     (concat (map structure_targets ss) @ concat (map instruction_targets (cfg_instructions cfg))))"

definition build_block_labels :: "control_flow_graph \<Rightarrow> cf_structure list \<Rightarrow> usize \<Rightarrow> string option" where
  "build_block_labels cfg ss pc = (if pc \<in> goto_targets cfg ss then Some (block_label pc) else None)"

definition format_goto_target :: "usize \<Rightarrow> (usize \<rightharpoonup> string) \<Rightarrow> string" where
  "format_goto_target target labels = (case labels target of Some l \<Rightarrow> l | None \<Rightarrow> show_pc target)"

function reach_queue :: "control_flow_graph \<Rightarrow> usize list \<Rightarrow> usize set \<Rightarrow> usize set" where
  "reach_queue cfg [] seen = seen"
| "reach_queue cfg (pc # queue) seen =
     (if pc \<in> seen then reach_queue cfg queue seen
      else reach_queue cfg (queue @ cfg_succs cfg pc) (insert pc seen))"
  by pat_completeness auto
termination
proof (relation "measures [\<lambda>(cfg, queue, seen). card ((edge_targets cfg \<union> set queue) - seen),
    \<lambda>(cfg, queue, seen). length queue]", goal_cases)
  case (2 cfg pc queue seen)
  have "card ((edge_targets cfg \<union> set queue) - seen) \<le> card ((edge_targets cfg \<union> set (pc # queue)) - seen)"
    by (rule card_mono) auto
  then show ?case by auto
next
  case (3 cfg pc queue seen)
  have "set (cfg_succs cfg pc) \<subseteq> edge_targets cfg" by (auto intro: cfg_succs_target)
  then have "(edge_targets cfg \<union> set (queue @ cfg_succs cfg pc)) - insert pc seen
      \<subset> (edge_targets cfg \<union> set (pc # queue)) - seen" using 3 by auto
  then show ?case by (auto intro!: psubset_card_mono)
qed auto

definition compute_reachable_blocks :: "control_flow_graph \<Rightarrow> usize \<Rightarrow> usize set" where
  "compute_reachable_blocks cfg entry = reach_queue cfg [entry] {}"


section \<open>Hoisted declarations\<close>

fun expression_uses_var :: "expression \<Rightarrow> string \<Rightarrow> bool" where
  "expression_uses_var (Var n) name = (n = name)"
| "expression_uses_var (BinOp opr l r) name = (expression_uses_var l name \<or> expression_uses_var r name)"
| "expression_uses_var (UnaryOp opr operand) name = expression_uses_var operand name"
| "expression_uses_var (Load width base offset) name = expression_uses_var base name"
| "expression_uses_var (Store width base offset v) name = (expression_uses_var base name \<or> expression_uses_var v name)"
| "expression_uses_var (Call callee args) name = list_ex (\<lambda>a. expression_uses_var a name) args"
| "expression_uses_var (Raw text) name = raw_contains_identifier text name"
| "expression_uses_var (Const v) name = False"

definition build_pc_to_block_index :: "control_flow_graph \<Rightarrow> usize \<Rightarrow> usize option" where
  "build_pc_to_block_index cfg =
     map_of (rev (concat (map (\<lambda>(_, b). map (\<lambda>(pc, _). (pc, start_pc b)) (block_instrs b)) (blocks cfg))))"

record hoisted_decl =
  hoisted_name :: string
  hoisted_type :: "string option"

text \<open>The names the instructions declare when they are printed, each with its position.\<close>

definition printed_declarations :: "lifted_program \<Rightarrow> control_flow_graph \<Rightarrow> (string \<times> usize) list" where
  "printed_declarations lp cfg = concat (map (\<lambda>(pc, instr).
     case format_pc_raw lp pc instr of Some (_, Some name) \<Rightarrow> [(name, pc)] | _ \<Rightarrow> []) (cfg_instructions cfg))"

text \<open>Where a name is defined and its type: the index of definitions first, then the variables, then
  the instructions that declare it.\<close>

definition definition_of :: "lifted_program \<Rightarrow> control_flow_graph \<Rightarrow> string \<Rightarrow> (usize \<times> string option) option" where
  "definition_of lp cfg name = (case var_name_to_def_pc lp name of
      Some dpc \<Rightarrow> Some (dpc, map_option (\<lambda>(k, v). var_type_display (var_type v))
        (find (\<lambda>(k, v). fst k = dpc \<and> var_name v = name) (variables lp)))
    | None \<Rightarrow>
        (case find (\<lambda>(k, v). var_name v = name) (variables lp) of
           Some (k, v) \<Rightarrow> Some (fst k, Some (var_type_display (var_type v)))
         | None \<Rightarrow> map_option (\<lambda>pc. (pc, None)) (map_of (printed_declarations lp cfg) name)))"

definition defined_names :: "lifted_program \<Rightarrow> control_flow_graph \<Rightarrow> string list" where
  "defined_names lp cfg = remdups (map (\<lambda>(k, v). var_name v) (variables lp) @ map fst (printed_declarations lp cfg))"

definition is_visible :: "lifted_program \<Rightarrow> control_flow_graph \<Rightarrow> usize \<Rightarrow> bool" where
  "is_visible lp cfg pc \<longleftrightarrow> pc \<notin> eliminated_pcs lp \<and>
     (case build_pc_to_block_index cfg pc of Some b \<Rightarrow> b \<notin> suppressed_blocks lp | None \<Rightarrow> True)"

definition needs_hoist :: "lifted_program \<Rightarrow> control_flow_graph \<Rightarrow> string \<Rightarrow> usize \<Rightarrow> usize \<Rightarrow> bool" where
  "needs_hoist lp cfg name dpc def_block \<longleftrightarrow>
     (case expr_at lp dpc of Some e \<Rightarrow> expression_uses_var e name | None \<Rightarrow> False) \<or>
     list_ex (\<lambda>(upc, e). upc \<noteq> dpc \<and> expression_uses_var e name \<and> is_visible lp cfg upc \<and>
        (case build_pc_to_block_index cfg upc of None \<Rightarrow> False | Some use_block \<Rightarrow> use_block \<noteq> def_block))
       (expressions lp)"

definition hoisted_definition :: "lifted_program \<Rightarrow> control_flow_graph \<Rightarrow> string \<Rightarrow> hoisted_decl list" where
  "hoisted_definition lp cfg name = (case definition_of lp cfg name of
      None \<Rightarrow> []
    | Some (dpc, ty) \<Rightarrow>
        (case build_pc_to_block_index cfg dpc of
           None \<Rightarrow> []
         | Some def_block \<Rightarrow>
             if is_visible lp cfg dpc \<and> needs_hoist lp cfg name dpc def_block
             then [\<lparr>hoisted_name = name, hoisted_type = ty\<rparr>] else []))"

definition collect_hoisted_declarations :: "lifted_program \<Rightarrow> control_flow_graph \<Rightarrow> hoisted_decl list" where
  "collect_hoisted_declarations lp cfg =
     (let decls = concat (map (hoisted_definition lp cfg) (defined_names lp cfg));
          decls = decls @ (case heap_alloc_data_ptr lp of
              Some name \<Rightarrow> if name \<in> set (map hoisted_name decls) then [] else [\<lparr>hoisted_name = name, hoisted_type = None\<rparr>]
            | None \<Rightarrow> [])
      in sort_key hoisted_name decls)"

end
