(* ===== verification/Emission_Plan.thy ===== *)
theory Emission_Plan
  imports Emission
begin

text \<open>
  The decisions taken before pseudo-code is emitted (\<open>build_emission_plan\<close> and what it calls in
  \<open>src/structuring/emission.rs\<close>): which loops are printed as counting loops, which instructions are
  printed in a header instead of in their block, the order and reachability of the blocks of a loop,
  and the blocks that print nothing.

  The maps from headers to structures are partial maps. The body of a loop, a \<open>HashSet\<close> in the code, is
  its sorted list of blocks here.
\<close>

definition only_element :: "'a list \<Rightarrow> 'a option" where
  "only_element xs = (case xs of [x] \<Rightarrow> Some x | _ \<Rightarrow> None)"

lemma only_element_iff [simp]: "only_element xs = Some x \<longleftrightarrow> xs = [x]"
  by (auto simp: only_element_def split: list.split)


section \<open>Structures by header\<close>

type_synonym structure_map = "usize \<rightharpoonup> cf_structure"

definition loop_map_of :: "cf_structure list \<Rightarrow> structure_map" where
  "loop_map_of ss = fold (\<lambda>s m. case s of Loop h _ _ _ \<Rightarrow> m(h \<mapsto> s) | _ \<Rightarrow> m) ss Map.empty"

definition if_map_of :: "cf_structure list \<Rightarrow> structure_map" where
  "if_map_of ss = fold (\<lambda>s m. case s of IfThenElse h _ _ _ _ \<Rightarrow> m(h \<mapsto> s) | _ \<Rightarrow> m) ss Map.empty"

definition switch_map_of :: "bool \<Rightarrow> cf_structure list \<Rightarrow> structure_map" where
  "switch_map_of dispatch ss = fold (\<lambda>s m. case s of
     Switch h _ _ d \<Rightarrow> if d = dispatch then m(h \<mapsto> s) else m | _ \<Rightarrow> m) ss Map.empty"

definition if_branches :: "structure_map \<Rightarrow> usize \<Rightarrow> (usize list \<times> usize list) option" where
  "if_branches if_map block_pc = (case if_map block_pc of
      Some (IfThenElse _ then_blocks else_blocks _ _) \<Rightarrow> Some (then_blocks, else_blocks)
    | _ \<Rightarrow> None)"

definition body_nodes :: "usize set \<Rightarrow> usize list" where
  "body_nodes body = sorted_list_of_set body"


section \<open>Counting loops\<close>

record for_loop_info =
  init_str :: string
  step_str :: string
  init_pc :: usize
  step_pc :: usize
  cond_reg :: u8

definition is_flow :: "instruction \<Rightarrow> bool" where
  "is_flow instr \<longleftrightarrow> (case instr of Fallthrough \<Rightarrow> True | Jump _ \<Rightarrow> True | _ \<Rightarrow> False)"

text \<open>The last instruction that defines a register, among those that are not skipped.\<close>

definition last_definition :: "usize set \<Rightarrow> u8 \<Rightarrow> (usize \<times> instruction) list \<Rightarrow> (usize \<times> instruction) option" where
  "last_definition skipped reg instrs =
     find (\<lambda>(pc, instr). pc \<notin> skipped \<and> \<not> is_flow instr \<and> def_reg (classify instr) = Some reg) (rev instrs)"

definition init_text :: "lifted_program \<Rightarrow> string \<times> string option \<Rightarrow> string" where
  "init_text lp rd = (case rd of (raw, declare_var) \<Rightarrow>
     (case declare_var of Some dv \<Rightarrow> if dv \<notin> declared_vars lp then ''let '' @ raw else raw | None \<Rightarrow> raw))"

definition detect_for_loop_pattern ::
  "control_flow_graph \<Rightarrow> usize \<Rightarrow> usize \<Rightarrow> usize list \<Rightarrow> condition option \<Rightarrow> lifted_program option \<Rightarrow> for_loop_info option" where
  "detect_for_loop_pattern cfg header_pc latch_pc body c lifted =
     Option.bind lifted (\<lambda>lp.
     Option.bind c (\<lambda>c.
     Option.bind (case lhs c of OReg reg \<Rightarrow> Some reg | OImm _ \<Rightarrow> None) (\<lambda>reg.
     Option.bind (get_block cfg header_pc) (\<lambda>header_block.
     Option.bind (only_element (filter (\<lambda>p. p \<notin> set body) (predecessors header_block))) (\<lambda>init_block_pc.
     Option.bind (get_block cfg init_block_pc) (\<lambda>init_block.
     Option.bind (last_definition {} reg (block_instrs init_block)) (\<lambda>(ipc, init_instr).
     Option.bind (format_pc_raw lp ipc init_instr) (\<lambda>init.
     Option.bind (get_block cfg latch_pc) (\<lambda>latch_block.
     Option.bind (last_definition (eliminated_pcs lp) reg (block_instrs latch_block)) (\<lambda>(spc, step_instr).
     Option.bind (format_pc_raw lp spc step_instr) (\<lambda>step.
     Some \<lparr>init_str = init_text lp init, step_str = fst step, init_pc = ipc, step_pc = spc, cond_reg = reg\<rparr>)))))))))))"


section \<open>Loop bodies\<close>

datatype loop_terminal_action = Break | Continue

primrec keyword :: "loop_terminal_action \<Rightarrow> string" where
  "keyword Break = ''break''"
| "keyword Continue = ''continue''"

definition ends_in_trap :: "basic_block \<Rightarrow> bool" where
  "ends_in_trap b \<longleftrightarrow> block_instrs b \<noteq> [] \<and> snd (last (block_instrs b)) = Trap"

definition terminal_action :: "control_flow_graph \<Rightarrow> usize \<Rightarrow> usize list \<Rightarrow> usize \<Rightarrow> loop_terminal_action option" where
  "terminal_action cfg block_pc body header_pc = (case get_block cfg block_pc of
      None \<Rightarrow> None
    | Some block \<Rightarrow>
        if ends_in_trap block then None
        else if list_ex (\<lambda>s. s \<notin> set body \<and> s \<noteq> header_pc) (successors block) then Some Break
        else if length (successors block) = 1 \<and> successors block ! 0 = header_pc then Some Continue
        else None)"

definition is_trap_only_block :: "control_flow_graph \<Rightarrow> usize \<Rightarrow> bool" where
  "is_trap_only_block cfg block_pc \<longleftrightarrow> (case get_block cfg block_pc of
      None \<Rightarrow> False
    | Some b \<Rightarrow> length (block_instrs b) = 1 \<and> snd (block_instrs b ! 0) = Trap)"

text \<open>Depth-first order of the blocks of a loop. A recursive call is made for a block of the body that has
  not been visited, so the number of blocks bounds the depth.\<close>

definition body_succs :: "control_flow_graph \<Rightarrow> usize list \<Rightarrow> usize \<Rightarrow> usize \<Rightarrow> usize list" where
  "body_succs cfg body header_pc pc = sort (filter (\<lambda>s. s \<in> set body \<and> s \<noteq> header_pc) (cfg_succs cfg pc))"

definition body_branches :: "structure_map \<Rightarrow> usize list \<Rightarrow> usize \<Rightarrow> usize \<Rightarrow> usize list" where
  "body_branches if_map body header_pc pc = (case if_branches if_map pc of
      None \<Rightarrow> []
    | Some (then_blocks, else_blocks) \<Rightarrow> sort (filter (\<lambda>b. b \<in> set body \<and> b \<noteq> header_pc) (then_blocks @ else_blocks)))"

fun dfs_loop_body_order ::
  "nat \<Rightarrow> control_flow_graph \<Rightarrow> structure_map \<Rightarrow> usize list \<Rightarrow> usize \<Rightarrow> usize \<Rightarrow> usize set \<times> usize list \<Rightarrow> usize set \<times> usize list" where
  "dfs_loop_body_order 0 cfg if_map body header_pc pc acc = acc"
| "dfs_loop_body_order (Suc depth) cfg if_map body header_pc pc acc = (case acc of (visited, post_order) \<Rightarrow>
     if pc \<in> visited then acc
     else let (visited, post_order) =
            fold (dfs_loop_body_order depth cfg if_map body header_pc)
                 (body_succs cfg body header_pc pc @ body_branches if_map body header_pc pc)
                 (insert pc visited, post_order)
          in (visited, post_order @ [pc]))"

definition compute_loop_body_order :: "control_flow_graph \<Rightarrow> structure_map \<Rightarrow> usize list \<Rightarrow> usize \<Rightarrow> usize list" where
  "compute_loop_body_order cfg if_map body header_pc =
     rev (snd (fold (dfs_loop_body_order (length body) cfg if_map body header_pc) (body_succs cfg body header_pc header_pc) ({}, [])))"

text \<open>Blocks of a loop that are reached without passing a block that leaves or repeats the loop.\<close>

definition fork_terminates :: "control_flow_graph \<Rightarrow> structure_map \<Rightarrow> usize list \<Rightarrow> usize \<Rightarrow> usize \<Rightarrow> bool" where
  "fork_terminates cfg if_map body header_pc pc = (case if_branches if_map pc of
      None \<Rightarrow> False
    | Some (then_blocks, else_blocks) \<Rightarrow> then_blocks \<noteq> [] \<and> else_blocks \<noteq> [] \<and>
        list_all (\<lambda>b. terminal_action cfg b body header_pc \<noteq> None) (then_blocks @ else_blocks))"

definition loop_next :: "control_flow_graph \<Rightarrow> structure_map \<Rightarrow> usize list \<Rightarrow> usize \<Rightarrow> usize \<Rightarrow> usize list" where
  "loop_next cfg if_map body header_pc pc =
     (if terminal_action cfg pc body header_pc \<noteq> None \<or> fork_terminates cfg if_map body header_pc pc then []
      else filter (\<lambda>s. s \<in> set body \<and> s \<noteq> header_pc) (cfg_succs cfg pc) @
           (case if_branches if_map pc of
              None \<Rightarrow> []
            | Some (then_blocks, else_blocks) \<Rightarrow> filter (\<lambda>b. b \<in> set body) (then_blocks @ else_blocks)))"

lemma loop_next_body: "set (loop_next cfg if_map body h pc) \<subseteq> set body"
  by (auto simp: loop_next_def split: option.splits prod.splits)

function loop_reach ::
  "control_flow_graph \<Rightarrow> structure_map \<Rightarrow> usize list \<Rightarrow> usize \<Rightarrow> usize list \<Rightarrow> usize set \<Rightarrow> usize set" where
  "loop_reach cfg if_map body header_pc [] seen = seen"
| "loop_reach cfg if_map body header_pc (pc # work) seen =
     (if pc \<in> seen then loop_reach cfg if_map body header_pc work seen
      else loop_reach cfg if_map body header_pc (work @ loop_next cfg if_map body header_pc pc) (insert pc seen))"
  by pat_completeness auto
termination
proof (relation "measures [\<lambda>(cfg, m, body, h, work, seen). card ((set body \<union> set work) - seen),
    \<lambda>(cfg, m, body, h, work, seen). length work]", goal_cases)
  case (2 cfg m body h pc work seen)
  have "card ((set body \<union> set work) - seen) \<le> card ((set body \<union> set (pc # work)) - seen)"
    by (rule card_mono) auto
  then show ?case by auto
next
  case (3 cfg m body h pc work seen)
  have "(set body \<union> set (work @ loop_next cfg m body h pc)) - insert pc seen
      \<subset> (set body \<union> set (pc # work)) - seen" using 3 loop_next_body [of cfg m body h pc] by auto
  then show ?case by (auto intro!: psubset_card_mono)
qed auto

definition compute_loop_reachable :: "control_flow_graph \<Rightarrow> structure_map \<Rightarrow> usize list \<Rightarrow> usize \<Rightarrow> usize set" where
  "compute_loop_reachable cfg if_map body header_pc =
     loop_reach cfg if_map body header_pc
       (filter (\<lambda>s. s \<in> set body \<and> s \<noteq> header_pc) (cfg_succs cfg header_pc)) {}"


section \<open>Blocks that print nothing\<close>

text \<open>With names, every instruction that is neither eliminated nor a fallthrough may print a line.\<close>

definition block_may_emit_output ::
  "control_flow_graph \<Rightarrow> lifted_program option \<Rightarrow> usize set \<Rightarrow> usize \<Rightarrow> bool \<Rightarrow> bool" where
  "block_may_emit_output cfg lifted emission_eliminated block_pc skip_terminator =
     (if (case lifted of Some lp \<Rightarrow> block_pc \<in> suppressed_blocks lp | None \<Rightarrow> False) then False
      else case get_block cfg block_pc of
        None \<Rightarrow> False
      | Some block \<Rightarrow>
          let printed = (if skip_terminator then butlast (block_instrs block) else block_instrs block) in
          (case lifted of
             Some lp \<Rightarrow>
               list_ex (\<lambda>(pc, instr). pc \<notin> eliminated_pcs lp \<and> pc \<notin> emission_eliminated \<and> instr \<noteq> Fallthrough) printed \<or>
               epilogue_blocks lp block_pc \<noteq> None
           | None \<Rightarrow> printed \<noteq> []))"

definition blocks_guaranteed_no_output_no_loop ::
  "control_flow_graph \<Rightarrow> structure_map \<Rightarrow> structure_map \<Rightarrow> lifted_program option \<Rightarrow> usize set \<Rightarrow> usize list \<Rightarrow> bool" where
  "blocks_guaranteed_no_output_no_loop cfg if_map loop_map lifted emission_eliminated bs \<longleftrightarrow>
     list_all (\<lambda>pc. loop_map pc = None \<and> if_map pc = None \<and>
       \<not> block_may_emit_output cfg lifted emission_eliminated pc False) bs"

record loop_plan_inputs =
  inp_header :: usize
  inp_latch :: usize
  has_for_latch :: bool
  inp_body_order :: "usize list"
  inp_reachable :: "usize set"
  inp_last_emittable :: "usize option"
  inp_actions :: "usize \<Rightarrow> loop_terminal_action option"

text \<open>A block of the body that prints nothing.\<close>

definition silent_body_block ::
  "control_flow_graph \<Rightarrow> structure_map \<Rightarrow> structure_map \<Rightarrow> lifted_program option \<Rightarrow> usize set \<Rightarrow> loop_plan_inputs \<Rightarrow> usize \<Rightarrow> bool" where
  "silent_body_block cfg if_map loop_map lifted elim inp body_pc \<longleftrightarrow>
     (if body_pc = inp_header inp \<or> body_pc \<notin> inp_reachable inp then True
      else if loop_map body_pc \<noteq> None \<or> if_map body_pc \<noteq> None then False
      else if body_pc = inp_latch inp \<and> has_for_latch inp then \<not> block_may_emit_output cfg lifted elim body_pc True
      else case inp_actions inp body_pc of
        Some action \<Rightarrow> \<not> block_may_emit_output cfg lifted elim body_pc True \<and>
          action = Continue \<and> inp_last_emittable inp = Some body_pc
      | None \<Rightarrow> \<not> block_may_emit_output cfg lifted elim body_pc False)"

definition is_force_empty_loop_body ::
  "control_flow_graph \<Rightarrow> structure_map \<Rightarrow> structure_map \<Rightarrow> lifted_program option \<Rightarrow> usize set \<Rightarrow> loop_plan_inputs \<Rightarrow> bool" where
  "is_force_empty_loop_body cfg if_map loop_map lifted elim inp \<longleftrightarrow>
     \<not> block_may_emit_output cfg lifted elim (inp_header inp) True \<and>
     list_all (silent_body_block cfg if_map loop_map lifted elim inp) (inp_body_order inp)"


section \<open>Conditions whose definition is printed in the condition\<close>

definition is_safe_condition_def_elimination ::
  "lifted_program \<Rightarrow> control_flow_graph \<Rightarrow> string \<Rightarrow> usize \<Rightarrow> usize \<Rightarrow> dominator_tree \<Rightarrow> bool" where
  "is_safe_condition_def_elimination lp cfg name dpc branch_pc t \<longleftrightarrow>
     name_uses lp name = 1 \<and>
     (case (build_pc_to_block_index cfg dpc, build_pc_to_block_index cfg branch_pc) of
        (Some def_block, Some branch_block) \<Rightarrow>
          dominates t def_block branch_block \<and> is_synthetic_boolean_temp lp name dpc
      | _ \<Rightarrow> False)"

definition condition_def_to_eliminate ::
  "usize \<Rightarrow> condition \<Rightarrow> lifted_program option \<Rightarrow> control_flow_graph \<Rightarrow> dominator_tree \<Rightarrow> usize option" where
  "condition_def_to_eliminate branch_pc c lifted cfg t =
     Option.bind lifted (\<lambda>lp.
     Option.bind (case (lhs c, rhs c) of
         (OReg reg, OImm v) \<Rightarrow> if v = 0 \<and> cond_op c \<in> {CNe, CEq} then Some reg else None
       | _ \<Rightarrow> None) (\<lambda>reg.
     Option.bind (map_of (var_at_use lp) (branch_pc, reg)) (\<lambda>name.
     Option.bind (var_name_to_def_pc lp name) (\<lambda>dpc.
     if is_safe_condition_def_elimination lp cfg name dpc branch_pc t then Some dpc else None))))"

definition structure_condition :: "cf_structure \<Rightarrow> (usize \<times> condition) option" where
  "structure_condition s = (case s of
      Loop header _ _ c \<Rightarrow> map_option (Pair header) c
    | IfThenElse header _ _ _ c \<Rightarrow> map_option (Pair header) c
    | Switch _ _ _ _ \<Rightarrow> None)"

definition condition_elimination ::
  "control_flow_graph \<Rightarrow> lifted_program option \<Rightarrow> dominator_tree \<Rightarrow> cf_structure \<Rightarrow> usize list" where
  "condition_elimination cfg lifted t s = (case structure_condition s of
      None \<Rightarrow> []
    | Some (header_pc, c) \<Rightarrow>
        (case last_instruction_pc cfg header_pc of
           None \<Rightarrow> []
         | Some branch_pc \<Rightarrow> branch_pc #
             (case condition_def_to_eliminate branch_pc c lifted cfg t of Some dpc \<Rightarrow> [dpc] | None \<Rightarrow> [])))"

definition collect_condition_elimination_pcs ::
  "cf_structure list \<Rightarrow> control_flow_graph \<Rightarrow> lifted_program option \<Rightarrow> dominator_tree \<Rightarrow> usize set" where
  "collect_condition_elimination_pcs ss cfg lifted t = set (concat (map (condition_elimination cfg lifted t) ss))"


section \<open>The plan\<close>

datatype empty_loop_fallback = CollapseToHeaderSideEffects | EmitContinue

record loop_render_plan =
  non_header_body :: "usize list"
  lifted_suppressed_non_header :: "usize set"
  body_order :: "usize list"
  plan_reachable :: "usize set"
  last_emittable :: "usize option"
  force_empty_body :: bool
  empty_body_fallback :: empty_loop_fallback
  terminal_actions :: "usize \<Rightarrow> loop_terminal_action option"

record emission_plan =
  for_loop_map :: "usize \<rightharpoonup> for_loop_info"
  emission_eliminated_pcs :: "usize set"
  var_aliases :: aliases
  loop_plans :: "usize \<rightharpoonup> loop_render_plan"
  fully_suppressed_if_headers :: "usize set"
  empty_then_if_headers_no_loop :: "usize set"
  empty_else_if_headers_no_loop :: "usize set"
  force_empty_if_headers_no_loop :: "usize set"

definition empty_plan :: emission_plan where
  "empty_plan = \<lparr>for_loop_map = Map.empty, emission_eliminated_pcs = {}, var_aliases = [], loop_plans = Map.empty,
     fully_suppressed_if_headers = {}, empty_then_if_headers_no_loop = {}, empty_else_if_headers_no_loop = {},
     force_empty_if_headers_no_loop = {}\<rparr>"

text \<open>\<open>EmissionPlan::loop_terminal_action\<close>.\<close>

definition planned_action :: "emission_plan \<Rightarrow> usize \<Rightarrow> usize \<Rightarrow> loop_terminal_action option" where
  "planned_action plan header block_pc =
     Option.bind (loop_plans plan header) (\<lambda>p. terminal_actions p block_pc)"

text \<open>The step of a counting loop is printed with the variable of its initialisation.\<close>

definition note_for_loop :: "lifted_program option \<Rightarrow> usize \<Rightarrow> for_loop_info \<Rightarrow> emission_plan \<Rightarrow> emission_plan" where
  "note_for_loop lifted header info plan =
     (let names = (case lifted of
          None \<Rightarrow> None
        | Some lp \<Rightarrow>
            (case (variable_name lp (init_pc info, cond_reg info), variable_name lp (step_pc info, cond_reg info)) of
               (Some init_name, Some step_name) \<Rightarrow> if init_name \<noteq> step_name then Some (init_name, step_name) else None
             | _ \<Rightarrow> None));
          plan = plan\<lparr>emission_eliminated_pcs := insert (init_pc info) (emission_eliminated_pcs plan)\<rparr>
      in case names of
        None \<Rightarrow> plan\<lparr>for_loop_map := (for_loop_map plan)(header \<mapsto> info)\<rparr>
      | Some (init_name, step_name) \<Rightarrow>
          plan\<lparr>var_aliases := AList.update step_name init_name (var_aliases plan),
               for_loop_map := (for_loop_map plan)
                 (header \<mapsto> info\<lparr>step_str := replace_identifier (step_str info) step_name init_name\<rparr>)\<rparr>)"

definition note_structure ::
  "control_flow_graph \<Rightarrow> lifted_program option \<Rightarrow> cf_structure \<Rightarrow> emission_plan \<Rightarrow> emission_plan" where
  "note_structure cfg lifted s plan = (case s of
      Loop header latch body c \<Rightarrow>
        (case detect_for_loop_pattern cfg header latch (body_nodes body) c lifted of
           None \<Rightarrow> plan
         | Some info \<Rightarrow> note_for_loop lifted header info plan)
    | IfThenElse header then_blocks else_blocks _ _ \<Rightarrow>
        if then_blocks \<noteq> [] \<and>
           (case lifted of None \<Rightarrow> False
            | Some lp \<Rightarrow> list_all (\<lambda>bp. bp \<in> suppressed_blocks lp) (then_blocks @ else_blocks))
        then plan\<lparr>fully_suppressed_if_headers := insert header (fully_suppressed_if_headers plan)\<rparr>
        else plan
    | Switch _ _ _ _ \<Rightarrow> plan)"

text \<open>The steps of the counting loops that were found.\<close>

definition step_pcs :: "cf_structure list \<Rightarrow> emission_plan \<Rightarrow> usize set" where
  "step_pcs ss plan = set (concat (map (\<lambda>s. case s of
     Loop header _ _ _ \<Rightarrow> (case for_loop_map plan header of Some info \<Rightarrow> [step_pc info] | None \<Rightarrow> [])
   | _ \<Rightarrow> []) ss))"

text \<open>A variable that is never used is printed as its register.\<close>

definition unused_variable_aliases :: "lifted_program \<Rightarrow> aliases \<Rightarrow> aliases" where
  "unused_variable_aliases lp al = fold (\<lambda>((dpc, reg), v) al.
     if starts_with ''var_'' (var_name v) \<and> name_uses lp (var_name v) = 0 \<and> map_of al (var_name v) = None
     then AList.update (var_name v) (show_reg reg) al else al) (variables lp) al"

definition note_empty_branches ::
  "control_flow_graph \<Rightarrow> structure_map \<Rightarrow> structure_map \<Rightarrow> lifted_program option \<Rightarrow> cf_structure \<Rightarrow> emission_plan \<Rightarrow> emission_plan" where
  "note_empty_branches cfg if_map loop_map lifted s plan = (case s of
      IfThenElse header then_blocks else_blocks _ _ \<Rightarrow>
        let silent = blocks_guaranteed_no_output_no_loop cfg if_map loop_map lifted (emission_eliminated_pcs plan);
            then_empty = silent then_blocks;
            else_empty = (else_blocks = [] \<or> list_all (is_trap_only_block cfg) else_blocks \<or> silent else_blocks);
            add = (\<lambda>b hs. if b then insert header hs else hs)
        in plan\<lparr>
          empty_then_if_headers_no_loop := add then_empty (empty_then_if_headers_no_loop plan),
          empty_else_if_headers_no_loop := add (else_blocks \<noteq> [] \<and> else_empty) (empty_else_if_headers_no_loop plan),
          force_empty_if_headers_no_loop := add (then_empty \<and> else_empty) (force_empty_if_headers_no_loop plan)\<rparr>
    | _ \<Rightarrow> plan)"

definition plan_of_loop ::
  "control_flow_graph \<Rightarrow> structure_map \<Rightarrow> structure_map \<Rightarrow> lifted_program option \<Rightarrow> emission_plan \<Rightarrow> usize \<Rightarrow> usize \<Rightarrow> usize list \<Rightarrow> loop_render_plan" where
  "plan_of_loop cfg if_map loop_map lifted plan header_pc latch body =
     (let actions = (\<lambda>pc. terminal_action cfg pc body header_pc);
          inner = filter (\<lambda>bp. bp \<noteq> header_pc) body;
          order = compute_loop_body_order cfg if_map body header_pc;
          reach = compute_loop_reachable cfg if_map body header_pc;
          emittable = filter (\<lambda>pc. pc \<noteq> header_pc \<and> pc \<in> reach) order;
          final = (if emittable = [] then None else Some (last emittable));
          inp = \<lparr>inp_header = header_pc, inp_latch = latch, has_for_latch = (for_loop_map plan header_pc \<noteq> None),
                 inp_body_order = order, inp_reachable = reach, inp_last_emittable = final, inp_actions = actions\<rparr>
      in \<lparr>non_header_body = inner,
          lifted_suppressed_non_header =
            (case lifted of Some lp \<Rightarrow> set (filter (\<lambda>bp. bp \<in> suppressed_blocks lp) inner) | None \<Rightarrow> {}),
          body_order = order, plan_reachable = reach, last_emittable = final,
          force_empty_body = is_force_empty_loop_body cfg if_map loop_map lifted (emission_eliminated_pcs plan) inp,
          empty_body_fallback = (if length inner > 3 then CollapseToHeaderSideEffects else EmitContinue),
          terminal_actions = actions\<rparr>)"

definition plan_loops ::
  "control_flow_graph \<Rightarrow> structure_map \<Rightarrow> structure_map \<Rightarrow> lifted_program option \<Rightarrow> emission_plan \<Rightarrow> emission_plan" where
  "plan_loops cfg if_map loop_map lifted plan = plan\<lparr>loop_plans := (\<lambda>header. case loop_map header of
      Some (Loop _ latch body _) \<Rightarrow> Some (plan_of_loop cfg if_map loop_map lifted plan header latch (body_nodes body))
    | _ \<Rightarrow> None)\<rparr>"

definition build_emission_plan ::
  "control_flow_graph \<Rightarrow> cf_structure list \<Rightarrow> lifted_program option \<Rightarrow> dominator_tree \<Rightarrow> emission_plan" where
  "build_emission_plan cfg ss lifted t =
     (let if_map = if_map_of ss; loop_map = loop_map_of ss;
          plan = fold (note_structure cfg lifted) ss empty_plan;
          plan = plan\<lparr>emission_eliminated_pcs := emission_eliminated_pcs plan \<union> step_pcs ss plan\<rparr>;
          plan = (case lifted of Some lp \<Rightarrow> plan\<lparr>var_aliases := unused_variable_aliases lp (var_aliases plan)\<rparr> | None \<Rightarrow> plan);
          plan = plan\<lparr>emission_eliminated_pcs :=
            emission_eliminated_pcs plan \<union> collect_condition_elimination_pcs ss cfg lifted t\<rparr>;
          plan = fold (note_empty_branches cfg if_map loop_map lifted) ss plan
      in plan_loops cfg if_map loop_map lifted plan)"

end
