(* ===== verification/Emitter.thy ===== *)
theory Emitter
  imports Emission_Plan Text_Cleanup
begin

text \<open>
  The emitter of pseudo-code (\<open>Emitter\<close> in \<open>src/structuring/emission.rs\<close>): blocks, conditionals, loops,
  switches and dispatch loops, each appending to the output and recording the blocks it has emitted.

  What the emitter only reads is an environment, what it changes is a state. The mutual recursion
  of conditionals and loops is bounded by an argument that stands for the depth of the call stack;
  \<open>None\<close> is a recursion that does not fit into it. That a reducible graph never needs more than two levels
  for every block is proved in \<open>Emission_Total\<close>, and so is that no depth suffices for some other graphs.
\<close>

section \<open>Environment and state\<close>

record emit_env =
  e_cfg :: control_flow_graph
  e_lifted :: "lifted_program option"
  e_labels :: "usize \<rightharpoonup> string"
  e_ifs :: structure_map
  e_loops :: structure_map
  e_switch_headers :: "usize set"
  e_plan :: emission_plan
  e_reachable :: "usize set"
  e_rpo :: "usize \<rightharpoonup> nat"

record emitter =
  out :: string
  emitted :: "usize set"
  declared :: "string set"
  dispatch_loop_header :: "usize option"

definition write_line :: "string \<Rightarrow> emitter \<Rightarrow> emitter" where
  "write_line text em = em\<lparr>out := out em @ text @ [line_feed]\<rparr>"

definition mark :: "usize list \<Rightarrow> emitter \<Rightarrow> emitter" where
  "mark pcs em = em\<lparr>emitted := set pcs \<union> emitted em\<rparr>"

definition indentation :: "nat \<Rightarrow> string" where
  "indentation n = concat (replicate n ''    '')"

definition is_suppressed :: "emit_env \<Rightarrow> usize \<Rightarrow> bool" where
  "is_suppressed env pc \<longleftrightarrow> (case e_lifted env of Some lp \<Rightarrow> pc \<in> suppressed_blocks lp | None \<Rightarrow> False)"

definition block_has_visible_predecessor :: "emit_env \<Rightarrow> usize \<Rightarrow> bool" where
  "block_has_visible_predecessor env block_pc = (case get_block (e_cfg env) block_pc of
      None \<Rightarrow> False
    | Some block \<Rightarrow> list_ex (\<lambda>pred. \<not> is_suppressed env pred) (predecessors block))"

definition should_hide_label :: "emit_env \<Rightarrow> usize \<Rightarrow> bool" where
  "should_hide_label env block_pc = (case e_lifted env of
      None \<Rightarrow> False
    | Some lp \<Rightarrow>
        if block_pc \<in> suppressed_blocks lp then True
        else if block_pc \<notin> hidden_labels lp then False
        else \<not> block_has_visible_predecessor env block_pc)"

definition label_for_target :: "emit_env \<Rightarrow> usize \<Rightarrow> string" where
  "label_for_target env target = (case e_labels env target of Some l \<Rightarrow> l | None \<Rightarrow> block_label target)"

definition write_label :: "emit_env \<Rightarrow> usize \<Rightarrow> emitter \<Rightarrow> emitter" where
  "write_label env pc em = (case e_labels env pc of
      Some label \<Rightarrow> if should_hide_label env pc then em else write_line (label @ '':'') em
    | None \<Rightarrow> em)"

definition shown_condition :: "emit_env \<Rightarrow> usize \<Rightarrow> condition option \<Rightarrow> string" where
  "shown_condition env header c =
     apply_aliases
       (case c of
          Some c \<Rightarrow> format_condition_maybe_lifted c (e_cfg env) header (e_lifted env)
                     (Some (emission_eliminated_pcs (e_plan env)))
        | None \<Rightarrow> ''...'')
       (var_aliases (e_plan env))"


section \<open>Blocks\<close>

text \<open>The text of one instruction of a lifted program, if it prints one, and the declared variables.\<close>

definition call_text :: "emit_env \<Rightarrow> lifted_program \<Rightarrow> usize \<Rightarrow> (u8 \<rightharpoonup> string) \<Rightarrow> string \<Rightarrow> string" where
  "call_text env lp pc regs callee =
     format_named_call lp callee pc regs (var_aliases (e_plan env)) (emission_eliminated_pcs (e_plan env))"

definition jump_text ::
  "emit_env \<Rightarrow> lifted_program \<Rightarrow> usize option \<Rightarrow> usize option \<Rightarrow> usize \<Rightarrow> i32 \<Rightarrow> (u8 \<rightharpoonup> string) \<Rightarrow> string option" where
  "jump_text env lp dispatch fallthrough_target pc offset regs = (case direct_call_sites lp pc of
      Some callee \<Rightarrow> Some (call_text env lp pc regs callee)
    | None \<Rightarrow>
        let target = compute_jump_target pc offset in
        (case map_of (call_targets lp) target of
           Some callee \<Rightarrow> Some (call_text env lp pc regs callee)
         | None \<Rightarrow>
             if Some target = fallthrough_target then None
             else if Some target = dispatch then Some ''continue''
             else Some (''goto '' @ label_for_target env target @ '';'')))"

definition branch_text :: "emit_env \<Rightarrow> usize option \<Rightarrow> usize \<Rightarrow> usize \<Rightarrow> instruction \<Rightarrow> i32 \<Rightarrow> string" where
  "branch_text env dispatch block_pc pc instr offset =
     (let target = compute_jump_target pc offset; c = shown_condition env block_pc (extract_condition instr) in
      if Some target = dispatch then ''if ('' @ c @ '') continue;''
      else ''if ('' @ c @ '') goto '' @ label_for_target env target @ '';'')"

definition lifted_instruction_text ::
  "emit_env \<Rightarrow> lifted_program \<Rightarrow> usize option \<Rightarrow> usize option \<Rightarrow> usize \<Rightarrow> usize \<times> instruction \<Rightarrow> (u8 \<rightharpoonup> string) \<Rightarrow>
   string set \<Rightarrow> string option \<times> string set" where
  "lifted_instruction_text env lp dispatch fallthrough_target block_pc pi regs decls = (case pi of (pc, instr) \<Rightarrow>
     (if pc \<in> eliminated_pcs lp \<or> pc \<in> emission_eliminated_pcs (e_plan env) then (None, decls)
      else let plain = format_pc_with_local_declarations lp pc instr decls (var_aliases (e_plan env)) in
      (case instr of
         Jump offset \<Rightarrow> (jump_text env lp dispatch fallthrough_target pc offset regs, decls)
       | JumpInd reg _ \<Rightarrow>
           (case resolve_indirect_call lp pc reg of
              Some callee \<Rightarrow> (Some (call_text env lp pc regs callee), decls)
            | None \<Rightarrow> plain)
       | Fallthrough \<Rightarrow> (None, decls)
       | _ \<Rightarrow>
           (case (is_conditional_branch (classify instr), branch_offset (classify instr)) of
              (True, Some offset) \<Rightarrow> (Some (branch_text env dispatch block_pc pc instr offset), decls)
            | _ \<Rightarrow> plain))))"

definition emit_instruction ::
  "emit_env \<Rightarrow> string \<Rightarrow> usize option \<Rightarrow> usize \<Rightarrow> usize \<times> instruction \<Rightarrow> emitter \<times> (u8 \<rightharpoonup> string) \<Rightarrow> emitter \<times> (u8 \<rightharpoonup> string)" where
  "emit_instruction env prefix fallthrough_target block_pc pi acc = (case acc of (em, regs) \<Rightarrow>
     (case e_lifted env of
        None \<Rightarrow> (write_line (prefix @ show_pc (fst pi) @ '': '' @ format_instruction (snd pi)) em, regs)
      | Some lp \<Rightarrow>
          let regs = (case register_value_after_instruction lp (fst pi) (snd pi)
                        (emission_eliminated_pcs (e_plan env)) (var_aliases (e_plan env)) of
                        Some (reg, value) \<Rightarrow> regs(reg \<mapsto> value) | None \<Rightarrow> regs);
              (text, decls) = lifted_instruction_text env lp (dispatch_loop_header em) fallthrough_target block_pc pi regs (declared em);
              em = em\<lparr>declared := decls\<rparr>
          in (case text of Some t \<Rightarrow> write_line (prefix @ t) em | None \<Rightarrow> em, regs)))"

text \<open>The allocation that is printed in the entry block, and the end of a function.\<close>

definition heap_alloc_text :: "emit_env \<Rightarrow> usize \<Rightarrow> string option" where
  "heap_alloc_text env block_pc =
     Option.bind (e_lifted env) (\<lambda>lp.
     Option.bind (lifted_heap_alloc lp) (\<lambda>h.
     if block_pc \<noteq> entry_pc (e_cfg env) then None
     else Some ((case heap_alloc_data_ptr lp of Some name \<Rightarrow> name @ '' = '' | None \<Rightarrow> []) @
                ''heap_alloc('' @ show_nat (unat (alloc_size h)) @ '')'')))"

definition epilogue_text :: "emit_env \<Rightarrow> usize \<Rightarrow> string option" where
  "epilogue_text env block_pc =
     Option.bind (e_lifted env) (\<lambda>lp.
     map_option (\<lambda>kind. case kind of Return _ \<Rightarrow> ''return'' | Halt _ \<Rightarrow> ''halt()'') (epilogue_blocks lp block_pc))"

definition write_option :: "string \<Rightarrow> string option \<Rightarrow> emitter \<Rightarrow> emitter" where
  "write_option prefix text em = (case text of Some t \<Rightarrow> write_line (prefix @ t) em | None \<Rightarrow> em)"

definition emit_block_body_with_fallthrough ::
  "emit_env \<Rightarrow> usize \<Rightarrow> nat \<Rightarrow> bool \<Rightarrow> usize option \<Rightarrow> emitter \<Rightarrow> emitter" where
  "emit_block_body_with_fallthrough env block_pc indent skip_terminator fallthrough_target em =
     (if is_suppressed env block_pc then em
      else let prefix = indentation indent;
               start = write_line (prefix @ ''// @'' @ show_hex4 block_pc) em;
               instrs = (case get_block (e_cfg env) block_pc of
                   None \<Rightarrow> []
                 | Some b \<Rightarrow> if skip_terminator then butlast (block_instrs b) else block_instrs b);
               em1 = fst (fold (emit_instruction env prefix fallthrough_target block_pc) instrs (start, Map.empty));
               em2 = write_option prefix (epilogue_text env block_pc) (write_option prefix (heap_alloc_text env block_pc) em1)
           in if list_all is_space (drop (length (out start)) (out em2))
              then em2\<lparr>out := take (length (out em)) (out em2)\<rparr>
              else em2\<lparr>out := out em2 @ [line_feed]\<rparr>)"

definition emit_block_body :: "emit_env \<Rightarrow> usize \<Rightarrow> nat \<Rightarrow> bool \<Rightarrow> emitter \<Rightarrow> emitter" where
  "emit_block_body env block_pc indent skip_terminator em =
     emit_block_body_with_fallthrough env block_pc indent skip_terminator None em"

definition emit_block_with_loop_control_and_fallthrough ::
  "emit_env \<Rightarrow> usize \<Rightarrow> nat \<Rightarrow> usize option \<Rightarrow> usize option \<Rightarrow> emitter \<Rightarrow> string option \<times> emitter" where
  "emit_block_with_loop_control_and_fallthrough env block_pc indent loop_context fallthrough_target em =
     (case Option.bind loop_context (\<lambda>header. planned_action (e_plan env) header block_pc) of
        Some action \<Rightarrow> (Some (keyword action), emit_block_body env block_pc indent True em)
      | None \<Rightarrow> (None, emit_block_body_with_fallthrough env block_pc indent False fallthrough_target em))"

definition emit_block_with_loop_control ::
  "emit_env \<Rightarrow> usize \<Rightarrow> nat \<Rightarrow> usize option \<Rightarrow> emitter \<Rightarrow> string option \<times> emitter" where
  "emit_block_with_loop_control env block_pc indent loop_context em =
     emit_block_with_loop_control_and_fallthrough env block_pc indent loop_context None em"


section \<open>Straight-line regions\<close>

definition is_structured_header :: "emit_env \<Rightarrow> usize \<Rightarrow> bool" where
  "is_structured_header env pc \<longleftrightarrow> e_loops env pc \<noteq> None \<or> e_ifs env pc \<noteq> None \<or> pc \<in> e_switch_headers env"

definition is_ignorable_unreachable_predecessor :: "emit_env \<Rightarrow> usize \<Rightarrow> bool" where
  "is_ignorable_unreachable_predecessor env pred_pc =
     (if pred_pc \<in> e_reachable env then False
      else case get_block (e_cfg env) pred_pc of
        None \<Rightarrow> False
      | Some block \<Rightarrow> list_all (\<lambda>(pc, instr). instr = Fallthrough) (block_instrs block))"

text \<open>The block that a straight-line region continues with.\<close>

definition region_next :: "emit_env \<Rightarrow> usize set \<Rightarrow> usize set \<Rightarrow> usize \<Rightarrow> usize option" where
  "region_next env placed seen current =
     Option.bind (get_block (e_cfg env) current) (\<lambda>block.
     if block_instrs block = [] \<or> snd (last (block_instrs block)) \<noteq> Fallthrough then None
     else Option.bind (only_element (successors block)) (\<lambda>succ.
          Option.bind (get_block (e_cfg env) succ) (\<lambda>succ_block.
          if succ \<in> placed \<or> succ \<in> seen \<or> is_structured_header env succ then None
          else if length (filter (\<lambda>pred. pred \<in> e_reachable env \<or> \<not> is_ignorable_unreachable_predecessor env pred)
                           (predecessors succ_block)) \<noteq> 1 then None
          else Some succ)))"

lemma region_next_new:
  assumes "region_next env em seen current = Some succ"
  shows "succ \<in> cfg_nodes (e_cfg env)" "succ \<notin> seen" "succ \<in> set (cfg_succs (e_cfg env) current)"
  using assms by (auto simp: region_next_def bind_eq_Some_conv cfg_nodes_dom cfg_succs_def split: if_splits)

function region_from :: "emit_env \<Rightarrow> usize set \<Rightarrow> usize set \<Rightarrow> usize \<Rightarrow> usize list" where
  "region_from env placed seen current = (case region_next env placed seen current of
      None \<Rightarrow> [current]
    | Some succ \<Rightarrow> current # region_from env placed (insert succ seen) succ)"
  by pat_completeness auto
termination
proof (relation "measure (\<lambda>(env, placed, seen, current). card (cfg_nodes (e_cfg env) - seen))", goal_cases)
  case (2 env em seen current succ)
  from region_next_new [OF 2] have "cfg_nodes (e_cfg env) - insert succ seen \<subset> cfg_nodes (e_cfg env) - seen" by blast
  then show ?case by (simp add: psubset_card_mono)
qed simp

definition collect_linear_region :: "emit_env \<Rightarrow> usize set \<Rightarrow> usize \<Rightarrow> usize list" where
  "collect_linear_region env placed first = region_from env placed {first} first"

text \<open>At the end of a region, a single successor that is printed next needs no jump.\<close>

definition region_fallthrough :: "emit_env \<Rightarrow> emitter \<Rightarrow> usize \<Rightarrow> usize list \<Rightarrow> usize option" where
  "region_fallthrough env em block_pc rest = (case rest of
      nxt # _ \<Rightarrow> Some nxt
    | [] \<Rightarrow> Option.bind (only_element (cfg_succs (e_cfg env) block_pc)) (\<lambda>succ.
          if succ \<notin> emitted em \<and> is_structured_header env succ then Some succ else None))"

fun emit_region :: "emit_env \<Rightarrow> nat \<Rightarrow> bool \<Rightarrow> usize list \<Rightarrow> emitter \<Rightarrow> emitter" where
  "emit_region env indent labelled [] em = em"
| "emit_region env indent labelled (pc # rest) em =
     (let em = (if labelled then write_label env pc em else em) in
      emit_region env indent True rest
        (mark [pc] (emit_block_body_with_fallthrough env pc indent False (region_fallthrough env em pc rest) em)))"

definition emit_linear_region :: "emit_env \<Rightarrow> usize \<Rightarrow> nat \<Rightarrow> emitter \<Rightarrow> emitter" where
  "emit_linear_region env first indent em =
     emit_region env indent False (collect_linear_region env (emitted em) first) em"


section \<open>Switches recovered from chains of conditionals\<close>

record collected_switch =
  sw_reg :: u8
  sw_cases :: "(i32 \<times> usize list \<times> usize) list"
  default_blocks :: "usize list option"
  header_pcs :: "usize list"
  chain_header_pcs :: "usize list"

text \<open>The register and the constant of an equality test.\<close>

definition equality_test :: "condition \<Rightarrow> (u8 \<times> i32) option" where
  "equality_test c =
     (if cond_op c \<noteq> CEq then None
      else case (lhs c, rhs c) of
        (OReg r, OImm v) \<Rightarrow> Some (r, v)
      | (OImm v, OReg r) \<Rightarrow> Some (r, v)
      | _ \<Rightarrow> None)"

record chain =
  chain_cases :: "(i32 \<times> usize list \<times> usize) list"
  chain_headers :: "usize list"
  chain_seen_headers :: "usize list"
  chain_reg :: "u8 option"

definition finish_chain :: "chain \<Rightarrow> usize list option \<Rightarrow> collected_switch option" where
  "finish_chain ch dflt =
     (if length (chain_cases ch) + (if dflt = None then 0 else 1) < 3 then None
      else map_option (\<lambda>reg. \<lparr>sw_reg = reg, sw_cases = chain_cases ch, default_blocks = dflt,
             header_pcs = chain_headers ch, chain_header_pcs = chain_seen_headers ch\<rparr>) (chain_reg ch))"

definition extend_chain :: "i32 \<Rightarrow> u8 \<Rightarrow> usize list \<Rightarrow> usize \<Rightarrow> chain \<Rightarrow> chain" where
  "extend_chain imm reg then_blocks header ch =
     (let ch = ch\<lparr>chain_reg := Some reg, chain_seen_headers := chain_seen_headers ch @ [header]\<rparr> in
      if imm \<in> set (map fst (chain_cases ch)) then ch
      else ch\<lparr>chain_headers := chain_headers ch @ [header], chain_cases := chain_cases ch @ [(imm, then_blocks, header)]\<rparr>)"

text \<open>One conditional of the chain: the chain is no switch, or is complete, or goes on.\<close>

datatype chain_move = NoSwitch | Complete "collected_switch option" | ContinueAt usize chain

definition chain_step :: "emit_env \<Rightarrow> usize \<Rightarrow> chain \<Rightarrow> chain_move" where
  "chain_step env current ch = (case e_ifs env current of
      Some (IfThenElse header then_blocks else_blocks _ (Some c)) \<Rightarrow>
        (case equality_test c of
           None \<Rightarrow> NoSwitch
         | Some (reg, imm) \<Rightarrow>
             if (case chain_reg ch of Some existing \<Rightarrow> existing \<noteq> reg | None \<Rightarrow> False) \<or>
                length then_blocks \<noteq> 1 \<or>
                (chain_cases ch \<noteq> [] \<and>
                 block_may_emit_output (e_cfg env) (e_lifted env) (emission_eliminated_pcs (e_plan env)) header True)
             then NoSwitch
             else let ch = extend_chain imm reg then_blocks header ch in
               (case else_blocks of
                  [else_pc] \<Rightarrow>
                    if e_ifs env else_pc \<noteq> None then ContinueAt else_pc ch
                    else Complete (finish_chain
                      (ch\<lparr>chain_headers := chain_headers ch @ [else_pc],
                          chain_seen_headers := chain_seen_headers ch @ [else_pc]\<rparr>) (Some else_blocks))
                | _ \<Rightarrow> Complete (finish_chain ch None)))
    | _ \<Rightarrow> Complete (finish_chain ch None))"

text \<open>\<open>None\<close>: the walk along the chain does not end within the bound.\<close>

fun walk_chain :: "nat \<Rightarrow> emit_env \<Rightarrow> usize \<Rightarrow> chain \<Rightarrow> collected_switch option option" where
  "walk_chain 0 env current ch = None"
| "walk_chain (Suc n) env current ch = (case chain_step env current ch of
      NoSwitch \<Rightarrow> Some None
    | Complete result \<Rightarrow> Some result
    | ContinueAt else_pc ch \<Rightarrow> walk_chain n env else_pc ch)"

definition empty_chain :: chain where
  "empty_chain = \<lparr>chain_cases = [], chain_headers = [], chain_seen_headers = [], chain_reg = None\<rparr>"

definition try_collect_switch_cases :: "nat \<Rightarrow> emit_env \<Rightarrow> usize \<Rightarrow> collected_switch option option" where
  "try_collect_switch_cases n env block_pc = walk_chain n env block_pc empty_chain"

end
