(* ===== verification/Pseudo_Code.thy ===== *)
theory Pseudo_Code
  imports Emitter
begin

text \<open>
  Structured emission (\<open>src/structuring/emission.rs\<close>): conditionals, loops, switches, dispatch loops,
  and \<open>pseudo_code\<close> with its work list, its function header and the passes over the text; and
  \<open>StructuralAnalysis::summarize\<close>.

  The first argument of the recursive operations is the depth of the call stack that is available;
  \<open>None\<close> means that it did not suffice. \<open>pseudo_code\<close> takes the same bound for its work list.
\<close>

section \<open>Conditionals\<close>

text \<open>The blocks of a branch; what follows a \<open>break\<close> or \<open>continue\<close> is not emitted.\<close>

fun emit_branch ::
  "(usize \<Rightarrow> emitter \<Rightarrow> (string option \<times> emitter) option) \<Rightarrow> string \<Rightarrow> usize list \<Rightarrow> emitter \<Rightarrow> emitter option" where
  "emit_branch emit inner_prefix [] em = Some em"
| "emit_branch emit inner_prefix (b # bs) em = (case emit b em of
      None \<Rightarrow> None
    | Some (Some kw, em) \<Rightarrow> Some (mark [b] (write_line (inner_prefix @ kw) em))
    | Some (None, em) \<Rightarrow> emit_branch emit inner_prefix bs (mark [b] em))"

text \<open>The \<open>else\<close> branch is emitted first and gets its \<open>} else {\<close> if it printed anything.\<close>

definition emit_else ::
  "emit_env \<Rightarrow> (usize list \<Rightarrow> emitter \<Rightarrow> emitter option) \<Rightarrow> usize \<Rightarrow> usize list \<Rightarrow> string \<Rightarrow> usize option \<Rightarrow> emitter \<Rightarrow>
   (bool \<times> emitter) option" where
  "emit_else env branch header else_blocks prefix loop_context em =
     (if else_blocks = [] then Some (False, em)
      else if loop_context = None \<and> header \<in> empty_else_if_headers_no_loop (e_plan env)
      then Some (False, mark else_blocks em)
      else map_option (\<lambda>em'.
             let pos = length (out em); has_content = pos < length (out em') in
             (has_content,
              if has_content
              then em'\<lparr>out := take pos (out em') @ prefix @ ''} else {'' @ [line_feed] @ drop pos (out em')\<rparr>
              else em'))
           (branch else_blocks em))"

definition emit_then ::
  "emit_env \<Rightarrow> (usize list \<Rightarrow> emitter \<Rightarrow> emitter option) \<Rightarrow> usize \<Rightarrow> usize list \<Rightarrow> usize option \<Rightarrow> emitter \<Rightarrow>
   (bool \<times> emitter) option" where
  "emit_then env branch header then_blocks loop_context em =
     (if loop_context = None \<and> header \<in> empty_then_if_headers_no_loop (e_plan env)
      then Some (False, mark then_blocks em)
      else map_option (\<lambda>em'. (length (out em) < length (out em'), em')) (branch then_blocks em))"

definition emit_if_with ::
  "emit_env \<Rightarrow> (usize list \<Rightarrow> emitter \<Rightarrow> emitter option) \<Rightarrow> usize \<Rightarrow> usize list \<Rightarrow> usize list \<Rightarrow> condition option \<Rightarrow>
   nat \<Rightarrow> usize option \<Rightarrow> emitter \<Rightarrow> emitter option" where
  "emit_if_with env branch header then_blocks else_blocks c indent loop_context em =
     (if header \<in> fully_suppressed_if_headers (e_plan env) \<or>
         loop_context = None \<and> header \<in> force_empty_if_headers_no_loop (e_plan env)
      then Some (mark (then_blocks @ else_blocks @ [header]) (emit_block_body env header indent True em))
      else let prefix = indentation indent;
               em0 = emit_block_body env header indent True em;
               if_start = length (out em0);
               em1 = write_line (prefix @ ''if ('' @ shown_condition env header c @ '') {'') em0
           in Option.bind (emit_then env branch header then_blocks loop_context em1) (\<lambda>(has_then, em2).
              map_option (\<lambda>(has_else, em3).
                mark [header]
                  (if has_then \<or> has_else then write_line (prefix @ ''}'') em3
                   else em3\<lparr>out := take if_start (out em3)\<rparr>))
              (emit_else env branch header else_blocks prefix loop_context em2)))"


section \<open>Recovered switches\<close>

text \<open>The variable that is switched on is declared if it is defined in this graph.\<close>

definition has_local_def :: "emit_env \<Rightarrow> lifted_program \<Rightarrow> string \<Rightarrow> bool" where
  "has_local_def env lp name = (case var_name_to_def_pc lp name of
      None \<Rightarrow> False
    | Some dpc \<Rightarrow> list_ex (\<lambda>(pc, instr). pc = dpc) (cfg_instructions (e_cfg env)))"

definition variable_type_text :: "lifted_program \<Rightarrow> string \<Rightarrow> string" where
  "variable_type_text lp name = (case find (\<lambda>(k, v). var_name v = name) (variables lp) of
      Some (k, v) \<Rightarrow> var_type_display (var_type v)
    | None \<Rightarrow> ''u64'')"

definition switch_variable :: "emit_env \<Rightarrow> usize \<Rightarrow> u8 \<Rightarrow> string \<Rightarrow> emitter \<Rightarrow> string \<times> emitter" where
  "switch_variable env header reg prefix em = (case
      Option.bind (e_lifted env) (\<lambda>lp.
      Option.bind (last_instruction_pc (e_cfg env) header) (\<lambda>branch_pc.
      map_option (Pair lp) (map_of (var_at_use lp) (branch_pc, reg)))) of
      None \<Rightarrow> (show_reg reg, em)
    | Some (lp, name) \<Rightarrow> (name,
        if has_local_def env lp name \<and> name \<notin> declared em
        then write_line (prefix @ ''let '' @ name @ '': '' @ variable_type_text lp name @ '';'')
               (em\<lparr>declared := insert name (declared em)\<rparr>)
        else em))"

text \<open>The last line of the output, if it transfers control.\<close>

definition case_body_ends_with_jump :: "emitter \<Rightarrow> bool" where
  "case_body_ends_with_jump em =
     (let ls = lines (trim_end (out em)) in
      ls \<noteq> [] \<and> (is_control_flow_terminator (trim (last ls)) \<or> trim (last ls) = ''halt();''))"

fun emit_case_blocks ::
  "emit_env \<Rightarrow> nat \<Rightarrow> usize option \<Rightarrow> usize list \<Rightarrow> emitter \<Rightarrow> bool \<times> emitter" where
  "emit_case_blocks env indent loop_context [] em = (False, em)"
| "emit_case_blocks env indent loop_context (b # bs) em =
     (case emit_block_with_loop_control env b indent loop_context em of
        (Some kw, em) \<Rightarrow> (True, mark [b] (write_line (indentation indent @ kw) em))
      | (None, em) \<Rightarrow> emit_case_blocks env indent loop_context bs (mark [b] em))"

definition emit_case :: "emit_env \<Rightarrow> nat \<Rightarrow> usize option \<Rightarrow> usize list \<Rightarrow> emitter \<Rightarrow> emitter" where
  "emit_case env indent loop_context bs em =
     (let (had_ctrl, em) = emit_case_blocks env (indent + 2) loop_context bs em in
      if had_ctrl \<or> case_body_ends_with_jump em then em else write_line (indentation (indent + 2) @ ''break;'') em)"

definition emit_recovered_switch ::
  "emit_env \<Rightarrow> collected_switch \<Rightarrow> nat \<Rightarrow> usize option \<Rightarrow> emitter \<Rightarrow> emitter" where
  "emit_recovered_switch env sw indent loop_context em =
     (let prefix = indentation indent; case_prefix = indentation (indent + 1);
          first_header = snd (snd (sw_cases sw ! 0));
          em = emit_block_body env first_header indent True em;
          (name, em) = switch_variable env first_header (sw_reg sw) prefix em;
          em = write_line (prefix @ ''switch ('' @ apply_aliases name (var_aliases (e_plan env)) @ '') {'') em;
          em = fold (\<lambda>(value, then_blocks, header) em.
                 emit_case env indent loop_context then_blocks
                   (mark [header] (write_line (case_prefix @ ''case '' @ show_i32 value @ '':'') em))) (sw_cases sw) em;
          em = (case default_blocks sw of
                  Some bs \<Rightarrow> emit_case env indent loop_context bs (write_line (case_prefix @ ''default:'') em)
                | None \<Rightarrow> em)
      in mark (header_pcs sw @ chain_header_pcs sw) (write_line (prefix @ ''}'') em))"


section \<open>The recursion\<close>

text \<open>\<open>emit_block_or_inline_if\<close>, given how a nested conditional is emitted.\<close>

definition block_or_inline_if ::
  "(usize \<Rightarrow> usize list \<Rightarrow> usize list \<Rightarrow> condition option \<Rightarrow> emitter \<Rightarrow> emitter option) \<Rightarrow>
   nat \<Rightarrow> emit_env \<Rightarrow> nat \<Rightarrow> usize option \<Rightarrow> usize \<Rightarrow> emitter \<Rightarrow> (string option \<times> emitter) option" where
  "block_or_inline_if nested depth env indent loop_context block_pc em = (case e_ifs env block_pc of
      Some (IfThenElse header then_blocks else_blocks _ c) \<Rightarrow>
        Option.bind (try_collect_switch_cases depth env block_pc) (\<lambda>recovered.
        case recovered of
          Some sw \<Rightarrow> Some (None, emit_recovered_switch env sw indent loop_context em)
        | None \<Rightarrow> map_option (Pair None) (nested block_pc then_blocks else_blocks c em))
    | _ \<Rightarrow> Some (emit_block_with_loop_control env block_pc indent loop_context em))"

fun emit_if ::
  "nat \<Rightarrow> emit_env \<Rightarrow> usize \<Rightarrow> usize list \<Rightarrow> usize list \<Rightarrow> condition option \<Rightarrow> nat \<Rightarrow> usize option \<Rightarrow> emitter \<Rightarrow> emitter option" where
  "emit_if 0 env header then_blocks else_blocks c indent loop_context em = None"
| "emit_if (Suc depth) env header then_blocks else_blocks c indent loop_context em =
     emit_if_with env
       (emit_branch
         (block_or_inline_if
           (\<lambda>h tb eb c. emit_if depth env h tb eb c (indent + 1) loop_context)
           depth env (indent + 1) loop_context)
         (indentation (indent + 1)))
       header then_blocks else_blocks c indent loop_context em"


section \<open>Loops\<close>

definition default_loop_plan :: "usize \<Rightarrow> usize list \<Rightarrow> loop_render_plan" where
  "default_loop_plan header_pc body =
     (let inner = filter (\<lambda>bp. bp \<noteq> header_pc) body in
      \<lparr>non_header_body = inner, lifted_suppressed_non_header = {}, body_order = inner, plan_reachable = set inner,
       last_emittable = (if inner = [] then None else Some (last inner)), force_empty_body = False,
       empty_body_fallback = EmitContinue, terminal_actions = Map.empty\<rparr>)"

definition loop_plan_of :: "emit_env \<Rightarrow> usize \<Rightarrow> usize list \<Rightarrow> loop_render_plan" where
  "loop_plan_of env header_pc body = (case loop_plans (e_plan env) header_pc of
      Some plan \<Rightarrow> plan
    | None \<Rightarrow> default_loop_plan header_pc body)"

definition loop_head_text :: "emit_env \<Rightarrow> usize \<Rightarrow> usize list \<Rightarrow> condition option \<Rightarrow> string" where
  "loop_head_text env header_pc body c =
     (let cond_str = shown_condition env header_pc (map_option (maybe_invert_loop_condition (e_cfg env) header_pc body) c);
          al = var_aliases (e_plan env)
      in case for_loop_map (e_plan env) header_pc of
        Some info \<Rightarrow> ''for ('' @ apply_aliases (init_str info) al @ ''; '' @ cond_str @ ''; '' @
                     apply_aliases (step_str info) al @ '') {''
      | None \<Rightarrow> ''while ('' @ cond_str @ '') {'')"

definition next_body_block :: "loop_render_plan \<Rightarrow> usize \<Rightarrow> usize set \<Rightarrow> usize list \<Rightarrow> usize option" where
  "next_body_block plan header_pc placed rest =
     find (\<lambda>nxt. nxt \<noteq> header_pc \<and> nxt \<in> plan_reachable plan \<and> nxt \<notin> placed \<and> nxt \<notin> lifted_suppressed_non_header plan) rest"

text \<open>A block of the body that is neither a loop nor a conditional.\<close>

definition emit_plain_body_block ::
  "emit_env \<Rightarrow> loop_render_plan \<Rightarrow> usize \<Rightarrow> usize \<Rightarrow> nat \<Rightarrow> usize \<Rightarrow> usize list \<Rightarrow> emitter \<Rightarrow> emitter" where
  "emit_plain_body_block env plan header_pc latch indent body_pc rest em =
     (let target = next_body_block plan header_pc (emitted em) rest in
      mark [body_pc]
       (if body_pc = latch \<and> for_loop_map (e_plan env) header_pc \<noteq> None
        then emit_block_body_with_fallthrough env body_pc (indent + 1) True target em
        else case emit_block_with_loop_control_and_fallthrough env body_pc (indent + 1) (Some header_pc) target em of
          (Some kw, em) \<Rightarrow>
            if kw = ''continue'' \<and> last_emittable plan = Some body_pc then em
            else write_line (indentation (indent + 1) @ kw) em
        | (None, em) \<Rightarrow> em))"

text \<open>The blocks of the body in their order, given how a nested loop and a conditional are emitted.\<close>

fun emit_loop_blocks ::
  "(usize \<Rightarrow> usize list \<Rightarrow> usize \<Rightarrow> condition option \<Rightarrow> emitter \<Rightarrow> emitter option) \<Rightarrow>
   (usize \<Rightarrow> usize list \<Rightarrow> usize list \<Rightarrow> condition option \<Rightarrow> emitter \<Rightarrow> emitter option) \<Rightarrow>
   emit_env \<Rightarrow> loop_render_plan \<Rightarrow> usize \<Rightarrow> usize \<Rightarrow> nat \<Rightarrow> usize list \<Rightarrow> emitter \<Rightarrow> emitter option" where
  "emit_loop_blocks nested_loop nested_if env plan header_pc latch indent [] em = Some em"
| "emit_loop_blocks nested_loop nested_if env plan header_pc latch indent (body_pc # rest) em =
     (let continue_with = emit_loop_blocks nested_loop nested_if env plan header_pc latch indent rest in
      if body_pc = header_pc \<or> body_pc \<in> emitted em then continue_with em
      else if body_pc \<notin> plan_reachable plan then continue_with (mark [body_pc] em)
      else case e_loops env body_pc of
        Some (Loop _ inner_latch inner_body inner_c) \<Rightarrow>
          Option.bind (nested_loop body_pc (body_nodes inner_body) inner_latch inner_c em) continue_with
      | _ \<Rightarrow>
          (case e_ifs env body_pc of
             Some (IfThenElse _ then_blocks else_blocks _ c) \<Rightarrow>
               Option.bind (nested_if body_pc then_blocks else_blocks c em) continue_with
           | _ \<Rightarrow> continue_with (emit_plain_body_block env plan header_pc latch indent body_pc rest em)))"

definition close_loop ::
  "emit_env \<Rightarrow> loop_render_plan \<Rightarrow> usize \<Rightarrow> nat \<Rightarrow> nat \<Rightarrow> emitter \<Rightarrow> emitter" where
  "close_loop env plan header_pc indent before_loop em =
     (if force_empty_body plan
      then (case empty_body_fallback plan of
          CollapseToHeaderSideEffects \<Rightarrow>
            emit_block_body env header_pc indent True (em\<lparr>out := take before_loop (out em)\<rparr>)
        | EmitContinue \<Rightarrow>
            write_line (indentation indent @ ''}'') (write_line (indentation (indent + 1) @ ''continue'') em))
      else write_line (indentation indent @ ''}'') em)"

definition has_unemitted_body :: "loop_render_plan \<Rightarrow> emitter \<Rightarrow> bool" where
  "has_unemitted_body plan em \<longleftrightarrow> non_header_body plan = [] \<or>
     list_ex (\<lambda>bp. bp \<notin> emitted em \<and> bp \<notin> lifted_suppressed_non_header plan) (non_header_body plan)"

fun emit_loop ::
  "nat \<Rightarrow> emit_env \<Rightarrow> usize \<Rightarrow> usize list \<Rightarrow> usize \<Rightarrow> condition option \<Rightarrow> nat \<Rightarrow> emitter \<Rightarrow> emitter option" where
  "emit_loop 0 env header_pc body latch c indent em = None"
| "emit_loop (Suc depth) env header_pc body latch c indent em =
     (let plan = loop_plan_of env header_pc body in
      if \<not> has_unemitted_body plan em
      then Some (emit_block_body env header_pc indent True (mark (header_pc # body) em))
      else
        let before_loop = length (out em);
            em1 = write_line (indentation indent @ loop_head_text env header_pc body c) em;
            em2 = emit_block_body env header_pc (indent + 1) True em1
        in map_option (\<lambda>em3. mark body (close_loop env plan header_pc indent before_loop em3))
          (emit_loop_blocks
            (\<lambda>h b l c. emit_loop depth env h b l c (indent + 1))
            (\<lambda>h tb eb c. emit_if depth env h tb eb c (indent + 1) (Some header_pc))
            env plan header_pc latch indent (body_order plan) em2))"


section \<open>Switches\<close>

type_synonym switch_cases = "(u32 list \<times> usize) list"

definition switch_case_text :: "emit_env \<Rightarrow> usize option \<Rightarrow> u32 list \<times> usize \<Rightarrow> string" where
  "switch_case_text env dispatch vt = (case vt of (values, target) \<Rightarrow>
     ''case '' @ join_with '', '' (map (\<lambda>v. show_nat (unat v)) values) @
     (if Some target = dispatch then '': continue;''
      else '': goto '' @ format_goto_target target (e_labels env) @ '';''))"

definition emit_switch :: "emit_env \<Rightarrow> usize \<Rightarrow> u8 \<Rightarrow> switch_cases \<Rightarrow> nat \<Rightarrow> emitter \<Rightarrow> emitter" where
  "emit_switch env block_pc reg cases indent em =
     (let prefix = indentation indent; case_prefix = indentation (indent + 1);
          em = emit_block_body env block_pc indent True em;
          (name, em) = switch_variable env block_pc reg prefix em;
          em = write_line (prefix @ ''switch ('' @ apply_aliases name (var_aliases (e_plan env)) @ '') {'') em;
          em = fold (\<lambda>vt em. write_line (case_prefix @ switch_case_text env (dispatch_loop_header em) vt) em) cases em
      in mark [block_pc] (write_line (prefix @ ''}'') em))"

text \<open>A breadth-first search over successors; \<open>found\<close> is whether a block jumps back to the header.\<close>

function finds_back_edge :: "control_flow_graph \<Rightarrow> usize set \<Rightarrow> usize \<Rightarrow> usize list \<Rightarrow> usize set \<Rightarrow> bool" where
  "finds_back_edge cfg scope header [] visited = False"
| "finds_back_edge cfg scope header (pc # queue) visited =
     (if pc \<in> visited \<or> pc \<notin> scope then finds_back_edge cfg scope header queue (insert pc visited)
      else header \<in> set (cfg_succs cfg pc) \<or>
        finds_back_edge cfg scope header
          (queue @ filter (\<lambda>s. s \<notin> insert pc visited \<and> s \<in> scope) (cfg_succs cfg pc)) (insert pc visited))"
  by pat_completeness auto
termination
proof (relation "measures [\<lambda>(cfg, scope, h, queue, visited). card ((edge_targets cfg \<union> set queue) - visited),
    \<lambda>(cfg, scope, h, queue, visited). length queue]", goal_cases)
  case (2 cfg scope h pc queue visited)
  have "card ((edge_targets cfg \<union> set queue) - insert pc visited) \<le> card ((edge_targets cfg \<union> set (pc # queue)) - visited)"
    by (rule card_mono) auto
  then show ?case by auto
next
  case (3 cfg scope h pc queue visited)
  have "(edge_targets cfg \<union> set (queue @ filter (\<lambda>s. s \<notin> insert pc visited \<and> s \<in> scope) (cfg_succs cfg pc))) - insert pc visited
      \<subset> (edge_targets cfg \<union> set (pc # queue)) - visited" using 3 by (auto dest: cfg_succs_target)
  then show ?case by (auto intro!: psubset_card_mono)
qed auto

definition dispatch_roots :: "switch_cases \<Rightarrow> usize list" where
  "dispatch_roots cases = remdups (sort (map snd cases))"

definition should_emit_dispatch_loop :: "emit_env \<Rightarrow> usize \<Rightarrow> switch_cases \<Rightarrow> emitter \<Rightarrow> bool" where
  "should_emit_dispatch_loop env header_pc cases em =
     (if get_block (e_cfg env) header_pc = None then False
      else let roots = filter (\<lambda>target. target \<noteq> header_pc \<and> get_block (e_cfg env) target \<noteq> None \<and>
                 target \<in> set (cfg_succs (e_cfg env) header_pc) \<and> target \<notin> emitted em \<and> target \<in> e_reachable env)
                 (dispatch_roots cases)
           in 2 \<le> length roots \<and> finds_back_edge (e_cfg env) (e_reachable env) header_pc roots {})"

text \<open>The blocks of a region that is emitted together: a breadth-first search that marks the blocks it
  collects. For a loop header the search goes on at the exits of the loop, and the header is left to
  \<open>emit_loop\<close>.\<close>

definition loop_exits :: "control_flow_graph \<Rightarrow> usize list \<Rightarrow> usize list" where
  "loop_exits cfg body = concat (map (\<lambda>body_pc. filter (\<lambda>s. s \<notin> set body) (cfg_succs cfg body_pc)) body)"

definition region_succs :: "emit_env \<Rightarrow> structure_map \<Rightarrow> usize \<Rightarrow> usize list" where
  "region_succs env loops pc = (case loops pc of
      Some (Loop _ _ body _) \<Rightarrow> loop_exits (e_cfg env) (body_nodes body)
    | _ \<Rightarrow> cfg_succs (e_cfg env) pc)"

lemma region_succs_targets: "set (region_succs env loops pc) \<subseteq> edge_targets (e_cfg env)"
  by (auto simp: region_succs_def loop_exits_def dest: cfg_succs_target split: option.splits cf_structure.splits)

definition is_loop_header :: "structure_map \<Rightarrow> usize \<Rightarrow> bool" where
  "is_loop_header loops pc \<longleftrightarrow> (case loops pc of Some (Loop _ _ _ _) \<Rightarrow> True | _ \<Rightarrow> False)"

function collect_region ::
  "emit_env \<Rightarrow> structure_map \<Rightarrow> usize set \<Rightarrow> usize list \<Rightarrow> usize set \<Rightarrow> usize set \<Rightarrow> usize list \<times> usize set" where
  "collect_region env loops excluded [] visited placed = ([], placed)"
| "collect_region env loops excluded (pc # queue) visited placed =
     (if pc \<in> excluded then collect_region env loops excluded queue visited placed
      else if pc \<in> visited \<or> pc \<in> placed \<or> pc \<notin> e_reachable env
      then collect_region env loops excluded queue (insert pc visited) placed
      else let visited' = insert pc visited;
               placed' = (if is_loop_header loops pc then placed else insert pc placed);
               succs = filter (\<lambda>s. s \<notin> excluded \<and> s \<notin> visited' \<and> s \<notin> placed' \<and> s \<in> e_reachable env) (region_succs env loops pc);
               (order, final) = collect_region env loops excluded (queue @ succs) visited' placed'
           in (pc # order, final))"
  by pat_completeness auto
termination
proof (relation "measures [\<lambda>(env, loops, ex, queue, visited, placed). card ((edge_targets (e_cfg env) \<union> set queue) - visited),
    \<lambda>(env, loops, ex, queue, visited, placed). length queue]", goal_cases)
  case (2 env loops ex pc queue visited placed)
  have "card ((edge_targets (e_cfg env) \<union> set queue) - visited) \<le> card ((edge_targets (e_cfg env) \<union> set (pc # queue)) - visited)"
    by (rule card_mono) auto
  then show ?case by auto
next
  case (3 env loops ex pc queue visited placed)
  have "card ((edge_targets (e_cfg env) \<union> set queue) - insert pc visited) \<le> card ((edge_targets (e_cfg env) \<union> set (pc # queue)) - visited)"
    by (rule card_mono) auto
  then show ?case by auto
next
  case (4 env loops ex pc queue visited placed visited' placed' succs)
  then have "(edge_targets (e_cfg env) \<union> set (queue @ succs)) - visited' \<subset> (edge_targets (e_cfg env) \<union> set (pc # queue)) - visited"
    using region_succs_targets [of env loops pc] by auto
  then show ?case by (auto intro!: psubset_card_mono)
qed auto

definition rpo_key :: "emit_env \<Rightarrow> usize \<Rightarrow> nat" where
  "rpo_key env pc = (case e_rpo env pc of Some i \<Rightarrow> i | None \<Rightarrow> 2 ^ 64 - 1)"

text \<open>One block of such a region.\<close>

definition emit_region_block :: "nat \<Rightarrow> emit_env \<Rightarrow> nat \<Rightarrow> usize \<Rightarrow> emitter \<Rightarrow> emitter option" where
  "emit_region_block depth env indent block_pc em = (case e_loops env block_pc of
      Some (Loop _ latch body c) \<Rightarrow> emit_loop depth env block_pc (body_nodes body) latch c indent em
    | _ \<Rightarrow> (case e_ifs env block_pc of
        Some (IfThenElse _ then_blocks else_blocks _ c) \<Rightarrow>
          emit_if depth env block_pc then_blocks else_blocks c indent None em
      | _ \<Rightarrow> Some (emit_block_body env block_pc indent False em)))"

fun emit_all :: "(usize \<Rightarrow> emitter \<Rightarrow> emitter option) \<Rightarrow> usize list \<Rightarrow> emitter \<Rightarrow> emitter option" where
  "emit_all f [] em = Some em"
| "emit_all f (pc # pcs) em = Option.bind (f pc em) (emit_all f pcs)"

text \<open>The targets of a dispatch loop. Their labels are written whether hidden or not.\<close>

definition write_plain_label :: "emit_env \<Rightarrow> nat \<Rightarrow> usize \<Rightarrow> emitter \<Rightarrow> emitter" where
  "write_plain_label env indent pc em = (case e_labels env pc of
      Some label \<Rightarrow> write_line (indentation indent @ label @ '':'') em
    | None \<Rightarrow> em)"

definition emit_dispatch_target :: "nat \<Rightarrow> emit_env \<Rightarrow> usize \<Rightarrow> nat \<Rightarrow> usize \<Rightarrow> emitter \<Rightarrow> emitter option" where
  "emit_dispatch_target depth env dispatch_header indent target_pc em =
     (if target_pc = dispatch_header \<or> target_pc \<in> emitted em \<or> get_block (e_cfg env) target_pc = None \<or>
         target_pc \<notin> e_reachable env
      then Some em
      else let em = write_line (indentation indent @ label_for_target env target_pc @ '':'') em;
               (order, placed) = collect_region env Map.empty {dispatch_header} [target_pc] {} (emitted em)
           in emit_all (\<lambda>pc em. emit_region_block depth env indent pc
                          (if pc \<noteq> target_pc then write_plain_label env indent pc em else em))
                (filter (\<lambda>pc. pc \<in> e_reachable env) (sort_key (rpo_key env) order)) (em\<lparr>emitted := placed\<rparr>))"

definition emit_dispatch_targets :: "nat \<Rightarrow> emit_env \<Rightarrow> usize \<Rightarrow> switch_cases \<Rightarrow> nat \<Rightarrow> emitter \<Rightarrow> emitter option" where
  "emit_dispatch_targets depth env dispatch_header cases indent em =
     emit_all (emit_dispatch_target depth env dispatch_header indent) (dispatch_roots cases) em"

definition emit_dispatch_loop :: "nat \<Rightarrow> emit_env \<Rightarrow> usize \<Rightarrow> u8 \<Rightarrow> switch_cases \<Rightarrow> emitter \<Rightarrow> emitter option" where
  "emit_dispatch_loop depth env header_pc reg cases em =
     (let local_cases = filter (\<lambda>(vals, target). get_block (e_cfg env) target \<noteq> None \<and>
            (target = header_pc \<or> target \<in> set (cfg_succs (e_cfg env) header_pc) \<and> target \<notin> emitted em \<and>
             target \<in> e_reachable env)) cases
      in if local_cases = [] then Some (emit_linear_region env header_pc 0 em)
         else let previous = dispatch_loop_header em;
                  em = (write_line ''loop {'' em)\<lparr>dispatch_loop_header := Some header_pc\<rparr>;
                  em = emit_switch env header_pc reg local_cases 1 em
              in map_option (\<lambda>em. write_line ''}'' (em\<lparr>dispatch_loop_header := previous\<rparr>))
                   (emit_dispatch_targets depth env header_pc local_cases 1 em))"

text \<open>Labelled blocks that the walk did not reach.\<close>

definition emit_switch_target :: "nat \<Rightarrow> emit_env \<Rightarrow> usize \<Rightarrow> emitter \<Rightarrow> emitter option" where
  "emit_switch_target depth env target_pc em =
     (if target_pc \<in> emitted em \<or> target_pc \<notin> e_reachable env then Some em
      else let em = write_label env target_pc em;
               (order, placed) = collect_region env (e_loops env) {} [target_pc] {} (emitted em)
           in emit_all (\<lambda>pc em. emit_region_block depth env 0 pc (if pc \<noteq> target_pc then write_label env pc em else em))
                (filter (\<lambda>pc. pc \<in> e_reachable env) (sort_key (rpo_key env) order)) (em\<lparr>emitted := placed\<rparr>))"

definition switch_targets :: "emit_env \<Rightarrow> emitter \<Rightarrow> usize list" where
  "switch_targets env em = sort_key (rpo_key env) (filter (\<lambda>pc. e_labels env pc \<noteq> None \<and> pc \<notin> emitted em \<and> pc \<in> e_reachable env)
     (map fst (blocks (e_cfg env))))"

definition emit_switch_targets :: "nat \<Rightarrow> emit_env \<Rightarrow> emitter \<Rightarrow> emitter option" where
  "emit_switch_targets depth env em = emit_all (emit_switch_target depth env) (switch_targets env em) em"


section \<open>The walk over the graph\<close>

record function_signature =
  sig_name :: string
  sig_params :: "u8 list"

definition param_text :: "control_flow_graph \<Rightarrow> lifted_program option \<Rightarrow> u8 \<Rightarrow> string" where
  "param_text cfg lifted reg = (case Option.bind lifted (\<lambda>lp. map_option (Pair lp) (map_of (var_at_use lp) (entry_pc cfg, reg))) of
      Some (lp, name) \<Rightarrow> name @ '': '' @ variable_type_text lp name
    | None \<Rightarrow> show_reg reg @ '': u64'')"

definition header_line :: "control_flow_graph \<Rightarrow> lifted_program option \<Rightarrow> function_signature \<Rightarrow> string" where
  "header_line cfg lifted sig =
     ''fn '' @ sig_name sig @ ''('' @ join_with '', '' (map (param_text cfg lifted) (sig_params sig)) @ '') {'' @ [line_feed]"

definition hoisted_text :: "hoisted_decl list \<Rightarrow> string" where
  "hoisted_text decls =
     (if decls = [] then []
      else concat (map (\<lambda>d. ''let '' @ hoisted_name d @
             (case hoisted_type d of Some ty \<Rightarrow> '': '' @ ty | None \<Rightarrow> []) @ [line_feed]) decls) @ [line_feed])"

definition rpo_positions :: "dominator_tree \<Rightarrow> usize \<Rightarrow> nat option" where
  "rpo_positions t = map_of (rev (zip (rpo t) [0..<length (rpo t)]))"

definition switch_header_set :: "cf_structure list \<Rightarrow> usize set" where
  "switch_header_set ss = set (concat (map (\<lambda>s. case s of Switch header _ _ _ \<Rightarrow> [header] | _ \<Rightarrow> []) ss))"

definition make_env :: "structural_analysis \<Rightarrow> control_flow_graph \<Rightarrow> lifted_program option \<Rightarrow> emit_env" where
  "make_env sa cfg lifted =
     \<lparr>e_cfg = cfg, e_lifted = lifted, e_labels = build_block_labels cfg (structures sa), e_ifs = if_map_of (structures sa),
      e_loops = loop_map_of (structures sa),
      e_switch_headers = switch_header_set (structures sa),
      e_plan = build_emission_plan cfg (structures sa) lifted (dom_tree sa),
      e_reachable = compute_reachable_blocks cfg (entry_pc cfg), e_rpo = rpo_positions (dom_tree sa)\<rparr>"

text \<open>A block of the work list, by the structure it is the header of.\<close>

definition emit_top_if :: "nat \<Rightarrow> emit_env \<Rightarrow> usize \<Rightarrow> emitter \<Rightarrow> emitter option" where
  "emit_top_if depth env block_pc em = Option.bind (try_collect_switch_cases depth env block_pc) (\<lambda>recovered.
     case recovered of
       Some sw \<Rightarrow> Some (emit_recovered_switch env sw 0 None em)
     | None \<Rightarrow> (case e_ifs env block_pc of
         Some (IfThenElse _ then_blocks else_blocks _ c) \<Rightarrow> emit_if depth env block_pc then_blocks else_blocks c 0 None em
       | _ \<Rightarrow> Some em))"

definition emit_top :: "nat \<Rightarrow> emit_env \<Rightarrow> cf_structure list \<Rightarrow> usize \<Rightarrow> emitter \<Rightarrow> emitter option" where
  "emit_top depth env ss block_pc em =
     (let dispatch = (case switch_map_of True ss block_pc of Some (Switch _ reg cases _) \<Rightarrow> Some (reg, cases) | _ \<Rightarrow> None);
          render = (case dispatch of Some (reg, cases) \<Rightarrow> should_emit_dispatch_loop env block_pc cases em | None \<Rightarrow> False);
          em = (if render then em else write_label env block_pc em)
      in case e_loops env block_pc of
           Some (Loop _ latch body c) \<Rightarrow> emit_loop depth env block_pc (body_nodes body) latch c 0 em
         | _ \<Rightarrow>
             if e_ifs env block_pc \<noteq> None then emit_top_if depth env block_pc em
             else case dispatch of
               Some (reg, cases) \<Rightarrow>
                 if render then emit_dispatch_loop depth env block_pc reg cases em
                 else Some (emit_linear_region env block_pc 0 em)
             | None \<Rightarrow>
                 (case switch_map_of False ss block_pc of
                    Some (Switch _ reg cases _) \<Rightarrow> Some (emit_switch env block_pc reg cases 0 em)
                  | _ \<Rightarrow> Some (emit_linear_region env block_pc 0 em)))"

text \<open>The successors that are queued after a block, in reverse postorder; the queue remembers what has
  ever been queued.\<close>

definition fresh_successors :: "emit_env \<Rightarrow> usize \<Rightarrow> emitter \<Rightarrow> usize set \<Rightarrow> usize list" where
  "fresh_successors env block_pc em queued =
     sort_key (rpo_key env) (remdups (filter (\<lambda>s. s \<in> e_reachable env \<and> s \<notin> emitted em \<and> s \<notin> queued)
       (cfg_succs (e_cfg env) block_pc)))"

definition idom_of :: "dominator_tree \<Rightarrow> usize \<Rightarrow> usize" where
  "idom_of t pc = (case idom t pc of Some d \<Rightarrow> d | None \<Rightarrow> pc)"

text \<open>The work list; its first argument bounds the number of its steps.\<close>

fun emit_pending ::
  "nat \<Rightarrow> nat \<Rightarrow> emit_env \<Rightarrow> cf_structure list \<Rightarrow> dominator_tree \<Rightarrow> usize list \<Rightarrow> usize set \<Rightarrow> emitter \<Rightarrow> emitter option" where
  "emit_pending steps depth env ss t [] queued em = Some em"
| "emit_pending 0 depth env ss t (block_pc # pending) queued em = None"
| "emit_pending (Suc steps) depth env ss t (block_pc # pending) queued em =
     (if block_pc \<notin> e_reachable env \<or> get_block (e_cfg env) block_pc = None \<or> block_pc \<in> emitted em
      then emit_pending steps depth env ss t pending queued em
      else if idom_of t block_pc \<noteq> block_pc \<and> idom_of t block_pc \<notin> emitted em
      then emit_pending steps depth env ss t (pending @ [block_pc]) queued em
      else Option.bind (emit_top depth env ss block_pc em) (\<lambda>em.
        let succs = fresh_successors env block_pc em queued in
        emit_pending steps depth env ss t (succs @ pending) (set succs \<union> queued) em))"

definition initial_pending :: "control_flow_graph \<Rightarrow> dominator_tree \<Rightarrow> usize list" where
  "initial_pending cfg t = (if get_block cfg (entry_pc cfg) \<noteq> None then [entry_pc cfg] else rpo t)"

definition initial_emitter :: "control_flow_graph \<Rightarrow> lifted_program option \<Rightarrow> function_signature option \<Rightarrow> emitter" where
  "initial_emitter cfg lifted sig =
     (let hoisted = (case lifted of Some lp \<Rightarrow> collect_hoisted_declarations lp cfg | None \<Rightarrow> []) in
      \<lparr>out = (case sig of Some _ \<Rightarrow> [] | None \<Rightarrow> ''=== Pseudo-Code ==='' @ [line_feed, line_feed]) @ hoisted_text hoisted,
       emitted = {},
       declared = (case lifted of Some lp \<Rightarrow> declared_vars lp \<union> set (map hoisted_name hoisted) | None \<Rightarrow> {}),
       dispatch_loop_header = None\<rparr>)"

definition emit_program ::
  "nat \<Rightarrow> structural_analysis \<Rightarrow> control_flow_graph \<Rightarrow> lifted_program option \<Rightarrow> function_signature option \<Rightarrow> emitter option" where
  "emit_program bound sa cfg lifted sig =
     (let env = make_env sa cfg lifted; pending = initial_pending cfg (dom_tree sa) in
      Option.bind
        (emit_pending bound bound env (structures sa) (dom_tree sa) pending (set pending) (initial_emitter cfg lifted sig))
        (emit_switch_targets bound env))"

text \<open>The body is indented, and the declarations that are missing are added.\<close>

definition indent_body :: "string \<Rightarrow> string" where
  "indent_body text = concat (map (\<lambda>l. (if l = [] then [] else ''    '' @ l) @ [line_feed]) (lines text))"

definition pseudo_code ::
  "nat \<Rightarrow> structural_analysis \<Rightarrow> control_flow_graph \<Rightarrow> lifted_program option \<Rightarrow> function_signature option \<Rightarrow> string option" where
  "pseudo_code bound sa cfg lifted sig =
     Option.bind (emit_program bound sa cfg lifted sig) (\<lambda>em.
     case sig of
       None \<Rightarrow> Some (fix_blank_lines (out em))
     | Some s \<Rightarrow> map_option fix_blank_lines
         (add_missing_local_declarations (header_line cfg lifted s @ indent_body (out em) @ ''}'' @ [line_feed])))"


section \<open>Summary\<close>

definition structure_text :: "cf_structure \<Rightarrow> string" where
  "structure_text s = (case s of
      Loop header latch body c \<Rightarrow>
        [line_feed] @ ''  Loop: header='' @ show_pc header @ '', latch='' @ show_pc latch @ '', body_size='' @
        show_nat (card body) @ (case c of Some c \<Rightarrow> '', condition='' @ format_condition c | None \<Rightarrow> []) @ [line_feed]
    | IfThenElse header then_blocks else_blocks join c \<Rightarrow>
        [line_feed] @ ''  '' @ (if else_blocks = [] then ''if-then'' else ''if-then-else'') @ '': header='' @ show_pc header @
        (if then_blocks = [] then [] else '', then=['' @ show_pc (then_blocks ! 0) @ '']'') @
        (if else_blocks = [] then [] else '', else=['' @ show_pc (else_blocks ! 0) @ '']'') @
        (case join of Some j \<Rightarrow> '', join='' @ show_pc j | None \<Rightarrow> []) @
        (case c of Some c \<Rightarrow> '', condition='' @ format_condition c | None \<Rightarrow> []) @ [line_feed]
    | Switch header reg cases _ \<Rightarrow>
        [line_feed] @ ''  Switch: header='' @ show_pc header @ '', reg=r'' @ show_nat (unat reg) @ '', cases='' @
        show_nat (length cases) @ [line_feed])"

definition count_structures :: "(cf_structure \<Rightarrow> bool) \<Rightarrow> cf_structure list \<Rightarrow> string" where
  "count_structures P ss = show_nat (length (filter P ss)) @ [line_feed]"

definition summarize_structures :: "structural_analysis \<Rightarrow> string" where
  "summarize_structures sa =
     ''=== Structural Analysis ==='' @ [line_feed, line_feed] @
     ''Loops detected: '' @ count_structures (\<lambda>s. case s of Loop _ _ _ _ \<Rightarrow> True | _ \<Rightarrow> False) (structures sa) @
     ''If-then-else detected: '' @ count_structures (\<lambda>s. case s of IfThenElse _ _ _ _ _ \<Rightarrow> True | _ \<Rightarrow> False) (structures sa) @
     ''Switch/case detected: '' @ count_structures (\<lambda>s. case s of Switch _ _ _ _ \<Rightarrow> True | _ \<Rightarrow> False) (structures sa) @
     concat (map structure_text (structures sa))"

end
