(* ===== verification/Emission_Correct.thy ===== *)
theory Emission_Correct
  imports Pseudo_Code Structuring_Correct
begin

text \<open>
  What the emitter decides before and while it prints (\<open>src/structuring/emission.rs\<close>): the conditions in
  the heads of loops and conditionals select the blocks that are printed under them, the reachable
  blocks are those on a walk from the entry, the blocks of a loop are listed completely and once, and
  the blocks that are skipped as silent would have printed nothing.

  The meaning of a branch is the documented convention of the machine: a branch on two registers
  compares the second with the first; an immediate is extended with its sign to 64 bits.
\<close>

section \<open>The meaning of branches and conditions\<close>

primrec imm_branch_taken :: "branch_imm_op \<Rightarrow> u64 \<Rightarrow> u64 \<Rightarrow> bool" where
  "imm_branch_taken BranchEqImm a b = (a = b)"
| "imm_branch_taken BranchNeImm a b = (a \<noteq> b)"
| "imm_branch_taken BranchLtSImm a b = (sint a < sint b)"
| "imm_branch_taken BranchLeSImm a b = (sint a \<le> sint b)"
| "imm_branch_taken BranchGeSImm a b = (sint a \<ge> sint b)"
| "imm_branch_taken BranchGtSImm a b = (sint a > sint b)"
| "imm_branch_taken BranchLeUImm a b = (a \<le> b)"
| "imm_branch_taken BranchGeUImm a b = (a \<ge> b)"
| "imm_branch_taken BranchLtUImm a b = (a < b)"
| "imm_branch_taken BranchGtUImm a b = (a > b)"

primrec reg_branch_taken :: "branch_reg_op \<Rightarrow> u64 \<Rightarrow> u64 \<Rightarrow> bool" where
  "reg_branch_taken BranchEq a b = (b = a)"
| "reg_branch_taken BranchNe a b = (b \<noteq> a)"
| "reg_branch_taken BranchLtS a b = (sint b < sint a)"
| "reg_branch_taken BranchGeS a b = (sint b \<ge> sint a)"
| "reg_branch_taken BranchGeU a b = (b \<ge> a)"
| "reg_branch_taken BranchLtU a b = (b < a)"

definition branch_taken :: "(u8 \<Rightarrow> u64) \<Rightarrow> instruction \<Rightarrow> bool" where
  "branch_taken regs instr = (case instr of
      BranchImm opc reg v _ \<Rightarrow> imm_branch_taken opc (regs reg) (scast v)
    | BranchReg opc reg1 reg2 _ \<Rightarrow> reg_branch_taken opc (regs reg1) (regs reg2)
    | _ \<Rightarrow> False)"

primrec cond_op_holds :: "cond_op \<Rightarrow> u64 \<Rightarrow> u64 \<Rightarrow> bool" where
  "cond_op_holds CEq a b = (a = b)"
| "cond_op_holds CNe a b = (a \<noteq> b)"
| "cond_op_holds CLtS a b = (sint a < sint b)"
| "cond_op_holds CLeS a b = (sint a \<le> sint b)"
| "cond_op_holds CGeS a b = (sint a \<ge> sint b)"
| "cond_op_holds CGtS a b = (sint a > sint b)"
| "cond_op_holds CLeU a b = (a \<le> b)"
| "cond_op_holds CGeU a b = (a \<ge> b)"
| "cond_op_holds CLtU a b = (a < b)"
| "cond_op_holds CGtU a b = (a > b)"

primrec operand_value :: "(u8 \<Rightarrow> u64) \<Rightarrow> operand \<Rightarrow> u64" where
  "operand_value regs (OReg r) = regs r"
| "operand_value regs (OImm v) = scast v"

definition condition_holds :: "(u8 \<Rightarrow> u64) \<Rightarrow> condition \<Rightarrow> bool" where
  "condition_holds regs c = cond_op_holds (cond_op c) (operand_value regs (lhs c)) (operand_value regs (rhs c))"

text \<open>Where a block that ends in a conditional branch goes.\<close>

definition branch_goes_to :: "(u8 \<Rightarrow> u64) \<Rightarrow> usize \<times> instruction \<Rightarrow> usize \<Rightarrow> usize" where
  "branch_goes_to regs pi fallthrough = (case branch_offset (classify (snd pi)) of
      Some offset \<Rightarrow> if branch_taken regs (snd pi) then compute_jump_target (fst pi) offset else fallthrough
    | None \<Rightarrow> fallthrough)"

lemma extracted_condition_holds:
  "extract_condition instr = Some c \<Longrightarrow> condition_holds regs c \<longleftrightarrow> branch_taken regs instr"
proof (cases instr)
  case (BranchImm opc reg v off)
  then show "extract_condition instr = Some c \<Longrightarrow> ?thesis"
    by (cases opc) (auto simp: extract_condition_def condition_holds_def branch_taken_def)
next
  case (BranchReg opc reg1 reg2 off)
  then show "extract_condition instr = Some c \<Longrightarrow> ?thesis"
    by (cases opc) (auto simp: extract_condition_def condition_holds_def branch_taken_def)
qed (simp_all add: extract_condition_def)

lemma inverted_holds: "condition_holds regs (invert_condition c) \<longleftrightarrow> \<not> condition_holds regs c"
  by (cases "cond_op c") (auto simp: condition_holds_def invert_condition_def)

text \<open>A block with two successors ends in a conditional branch; the first is its target.\<close>

lemma two_successors:
  assumes "get_block (build p) s = Some b" "successors b = [t, f]"
  obtains pc i off where "block_instrs b \<noteq> []" "last (block_instrs b) = (pc, i)" "is_conditional_branch (classify i)"
    "branch_offset (classify i) = Some off" "t = compute_jump_target pc off"
proof -
  let ?B = "program_blocks p"
  obtain j where j: "j < length ?B" "b = connect_blocks ?B ! j" using assms(1) unfolding blocks_build by blast
  have bi: "block_instrs b = block_instrs (?B ! j)" using connected_fields [OF j(1)] j(2) by simp
  have ne: "block_instrs b \<noteq> []" using blocks_nonempty [of p] nth_mem [OF j(1)] bi by auto
  obtain pc i where last: "last (block_instrs b) = (pc, i)" by fastforce
  have edges: "successors b = (case branch_offset (classify i) of
         Some off \<Rightarrow> filter (\<lambda>t. t \<in> set (map start_pc ?B)) [compute_jump_target pc off] | None \<Rightarrow> [])
      @ (if falls_through (classify i) then fallthrough_pc ?B j else [])"
    using block_edges [OF j(1)] last bi j(2) by simp
  have one: "length (fallthrough_pc ?B j) \<le> 1" by (simp add: fallthrough_pc_def)
  have "branch_offset (classify i) \<noteq> None"
  proof
    assume "branch_offset (classify i) = None"
    then have "length (successors b) \<le> 1" using edges one by simp
    then show False by (simp add: assms(2))
  qed
  then obtain off where off: "branch_offset (classify i) = Some off" by blast
  have ft: "falls_through (classify i)" and t: "t = compute_jump_target pc off"
    using edges assms(2) off by (auto simp: fallthrough_pc_def split: if_splits)
  have "is_conditional_branch (classify i)"
    using ft branch_offset_terminator [OF off] by (simp add: falls_through_def)
  then show thesis by (rule that [OF ne last _ off t])
qed

lemma terminator_condition_last:
  "get_block cfg h = Some b \<Longrightarrow> block_instrs b \<noteq> [] \<Longrightarrow>
   terminator_condition cfg h = extract_condition (snd (last (block_instrs b)))"
  by (simp add: terminator_condition_def)

lemma loop_condition_selects:
  assumes b: "get_block cfg h = Some b" "block_instrs b \<noteq> []" "last (block_instrs b) = (pc, i)"
    and i: "is_conditional_branch (classify i)" "branch_offset (classify i) = Some off"
    and succs: "successors b = [compute_jump_target pc off, f]"
    and one: "(compute_jump_target pc off \<in> set body) \<noteq> (f \<in> set body)"
    and c: "extract_condition i = Some c"
  shows "condition_holds regs (maybe_invert_loop_condition cfg h body c) \<longleftrightarrow> branch_goes_to regs (pc, i) f \<in> set body"
proof -
  have "should_invert_loop_condition cfg h body \<longleftrightarrow> f \<in> set body"
    using b i succs one by (auto simp: should_invert_loop_condition_def)
  then show ?thesis
    using one i extracted_condition_holds [OF c, of regs]
    by (auto simp: maybe_invert_loop_condition_def inverted_holds branch_goes_to_def)
qed

lemma graph_of_program: "g = reorder (build p) bs \<Longrightarrow> flow_graph g"
  by (simp add: reordered.flow_graph_axioms)

lemma loop_body_finite:
  assumes g: "flow_graph g" and m: "Loop h l body c \<in> set (detect_loops g (the (compute g)) D)"
  shows "finite body"
proof -
  have "body \<subseteq> insert h {n. reachable g n}"
    using flow_graph.loop_sound [OF g m] by blast
  moreover have "finite {n. reachable g n}"
    by (rule finite_subset [of _ "insert (entry_pc g) (set (compute_rpo g))"])
       (auto simp: flow_graph.reachable_iff [OF g])
  ultimately show ?thesis using finite_subset by blast
qed


lemma detected_loop_selects:
  assumes "g = reorder (build p) bs" "get_block g h = Some b" "successors b = [s1, s2]"
    and m: "Loop h l body (Some c) \<in> set (detect_loops g (the (compute g)) D)" and one: "(s1 \<in> body) \<noteq> (s2 \<in> body)"
  shows "condition_holds regs (maybe_invert_loop_condition g h (body_nodes body) c) \<longleftrightarrow>
    branch_goes_to regs (last (block_instrs b)) s2 \<in> body"
proof -
  have gb: "get_block (build p) h = Some b" using assms(1,2) by (simp add: reorder_same(1) keys_build)
  obtain pc i off where i: "block_instrs b \<noteq> []" "last (block_instrs b) = (pc, i)" "is_conditional_branch (classify i)"
      "branch_offset (classify i) = Some off" "s1 = compute_jump_target pc off"
    by (rule two_successors [OF gb assms(3)])
  have "Loop h l body (Some c) \<in> set (found_loops g (the (compute g)) D)"
    using m reordered.detect_loops_found [of p bs] unfolding assms(1) by blast
  then have "terminator_condition g h = Some c" unfolding assms(1) reordered.found_loops_mem by simp
  then have c: "extract_condition i = Some c" using terminator_condition_last [OF assms(2) i(1)] i(2) by simp
  have [simp]: "set (body_nodes body) = body"
    using loop_body_finite [OF graph_of_program [OF assms(1)] m] by (simp add: body_nodes_def)
  have "successors b = [compute_jump_target pc off, s2]"
    "(compute_jump_target pc off \<in> set (body_nodes body)) \<noteq> (s2 \<in> set (body_nodes body))"
    using one assms(3) i(5) by auto
  from loop_condition_selects [OF assms(2) i(1,2,3,4) this c, of regs] show ?thesis using i(2) by simp
qed

lemma detected_if_selects:
  assumes "g = reorder (build p) bs" "get_block g h = Some b" "successors b = [s1, s2]"
    and m: "IfThenElse h ts es j (Some c) \<in> set (detect_if_then_else g (the (compute g)) D)" and ne: "s1 \<noteq> s2"
  shows "ts = [s1]" "es = (if j = Some s2 then [] else [s2])"
    "condition_holds regs c \<longleftrightarrow> branch_goes_to regs (last (block_instrs b)) s2 = s1"
proof -
  have gb: "get_block (build p) h = Some b" using assms(1,2) by (simp add: reorder_same(1) keys_build)
  obtain pc i off where i: "block_instrs b \<noteq> []" "last (block_instrs b) = (pc, i)" "is_conditional_branch (classify i)"
      "branch_offset (classify i) = Some off" "s1 = compute_jump_target pc off"
    by (rule two_successors [OF gb assms(3)])
  obtain block x y where sides: "get_block g h = Some block" "successors block = [x, y]" "Some c = terminator_condition g h"
      "(ts, es) = (if Some x = j then ([], [y]) else if Some y = j then ([x], []) else ([x], [y]))"
    by (rule if_of_block_mem [OF conjunct2 [OF detect_if_mem [OF m]]])
  have xy: "x = s1" "y = s2" using sides(1,2) assms(2,3) by simp_all
  have "ts \<noteq> []"
    by (rule reordered.if_sound [OF m [unfolded assms(1)]]) (use xy ne sides(1,2) assms(1) in \<open>auto simp: cfg_succs_def\<close>)
  then show "ts = [s1]" "es = (if j = Some s2 then [] else [s2])" using sides(4) xy by (auto split: if_splits)
  have "extract_condition i = Some c" using terminator_condition_last [OF assms(2) i(1)] i(2) sides(3) by simp
  from extracted_condition_holds [OF this, of regs]
  show "condition_holds regs c \<longleftrightarrow> branch_goes_to regs (last (block_instrs b)) s2 = s1"
    using i ne by (simp add: branch_goes_to_def)
qed


section \<open>Reachable blocks\<close>

lemma reach_queue_result:
  "\<lbrakk>\<And>x y. x \<in> seen \<Longrightarrow> edge cfg x y \<Longrightarrow> y \<in> seen \<union> set queue; \<And>x. x \<in> seen \<union> set queue \<Longrightarrow> (edge cfg)\<^sup>*\<^sup>* e x\<rbrakk> \<Longrightarrow>
   seen \<union> set queue \<subseteq> reach_queue cfg queue seen \<and>
   (\<forall>x y. x \<in> reach_queue cfg queue seen \<and> edge cfg x y \<longrightarrow> y \<in> reach_queue cfg queue seen) \<and>
   (\<forall>x \<in> reach_queue cfg queue seen. (edge cfg)\<^sup>*\<^sup>* e x)"
proof (induction cfg queue seen rule: reach_queue.induct)
  case (2 cfg pc queue seen)
  show ?case
  proof (cases "pc \<in> seen")
    case True
    then show ?thesis using "2.IH"(1) [OF True] "2.prems" by (auto simp: insert_absorb)
  next
    case False
    have step: "y \<in> insert pc seen \<union> set (queue @ cfg_succs cfg pc)" if "x \<in> insert pc seen" "edge cfg x y" for x y
      using that "2.prems"(1) by (auto simp: edge_def)
    have succ: "(edge cfg)\<^sup>*\<^sup>* e x" if "x \<in> set (cfg_succs cfg pc)" for x
    proof (rule rtranclp.rtrancl_into_rtrancl)
      show "(edge cfg)\<^sup>*\<^sup>* e pc" using "2.prems"(2) [of pc] by simp
      show "edge cfg pc x" using that by (simp add: edge_def)
    qed
    then have "(edge cfg)\<^sup>*\<^sup>* e x" if "x \<in> insert pc seen \<union> set (queue @ cfg_succs cfg pc)" for x
      using that "2.prems"(2) [of x] by auto
    from "2.IH"(2) [OF False step this] False show ?thesis by auto
  qed
qed auto

lemma compute_reachable_exact: "compute_reachable_blocks cfg e = {b. (edge cfg)\<^sup>*\<^sup>* e b}"
proof -
  have r: "e \<in> compute_reachable_blocks cfg e"
      "\<And>x y. x \<in> compute_reachable_blocks cfg e \<Longrightarrow> edge cfg x y \<Longrightarrow> y \<in> compute_reachable_blocks cfg e"
      "\<And>x. x \<in> compute_reachable_blocks cfg e \<Longrightarrow> (edge cfg)\<^sup>*\<^sup>* e x"
    using reach_queue_result [of "{}" cfg "[e]" e] by (simp_all add: compute_reachable_blocks_def)
  have "b \<in> compute_reachable_blocks cfg e" if "(edge cfg)\<^sup>*\<^sup>* e b" for b
    using that by (induction rule: rtranclp_induct) (fact r(1), rule r(2))
  then show ?thesis using r(3) by blast
qed

lemma reachable_rtrancl: "reachable cfg b \<longleftrightarrow> (edge cfg)\<^sup>*\<^sup>* (entry_pc cfg) b"
proof
  assume "(edge cfg)\<^sup>*\<^sup>* (entry_pc cfg) b"
  then show "reachable cfg b" by (induction rule: rtranclp_induct) (auto intro: reachable_edge)
next
  assume "reachable cfg b"
  then obtain xs where "entry_walk cfg xs" "last xs = b" by (auto simp: reachable_def)
  then show "(edge cfg)\<^sup>*\<^sup>* (entry_pc cfg) b"
  proof (induction xs arbitrary: b rule: rev_induct)
    case (snoc x xs)
    then show ?case
      by (cases "xs = []") (auto simp: entry_walk_snoc intro: rtranclp.rtrancl_into_rtrancl)
  qed (simp add: entry_walk_def)
qed

lemma reachable_blocks_exact: "compute_reachable_blocks cfg (entry_pc cfg) = {b. reachable cfg b}"
  by (simp add: compute_reachable_exact reachable_rtrancl)


section \<open>The blocks of a loop, in order\<close>

text \<open>A depth-first search with the step \<open>S\<close> extends what it has visited by a closed set of new blocks,
  each listed once.\<close>

definition extends_by :: "(usize \<Rightarrow> usize list) \<Rightarrow> usize list \<Rightarrow> usize set \<times> usize list \<Rightarrow> usize set \<times> usize list \<Rightarrow> bool" where
  "extends_by S starts acc acc' \<longleftrightarrow> (\<exists>Q. acc' = (fst acc \<union> set Q, snd acc @ Q) \<and> distinct Q \<and> set Q \<inter> fst acc = {} \<and>
     set starts \<subseteq> fst acc \<union> set Q \<and> (\<forall>x \<in> set Q. set (S x) \<subseteq> fst acc \<union> set Q) \<and>
     (\<forall>x \<in> set Q. \<exists>s \<in> set starts. (\<lambda>a b. b \<in> set (S a))\<^sup>*\<^sup>* s x))"

lemma extends_by_refl: "set starts \<subseteq> fst acc \<Longrightarrow> extends_by S starts acc acc"
  unfolding extends_by_def by (rule exI [of _ "[]"]) simp

lemma extends_by_trans:
  assumes "extends_by S xs a b" "extends_by S ys b c"
  shows "extends_by S (xs @ ys) a c"
proof -
  obtain P where P: "b = (fst a \<union> set P, snd a @ P)" "distinct P" "set P \<inter> fst a = {}" "set xs \<subseteq> fst a \<union> set P"
    "\<And>x. x \<in> set P \<Longrightarrow> set (S x) \<subseteq> fst a \<union> set P" "\<And>x. x \<in> set P \<Longrightarrow> \<exists>s \<in> set xs. (\<lambda>a b. b \<in> set (S a))\<^sup>*\<^sup>* s x"
    using assms(1) unfolding extends_by_def by blast
  obtain Q where Q: "c = (fst b \<union> set Q, snd b @ Q)" "distinct Q" "set Q \<inter> fst b = {}" "set ys \<subseteq> fst b \<union> set Q"
    "\<And>x. x \<in> set Q \<Longrightarrow> set (S x) \<subseteq> fst b \<union> set Q" "\<And>x. x \<in> set Q \<Longrightarrow> \<exists>s \<in> set ys. (\<lambda>a b. b \<in> set (S a))\<^sup>*\<^sup>* s x"
    using assms(2) unfolding extends_by_def by blast
  show ?thesis unfolding extends_by_def
  proof (rule exI [of _ "P @ Q"], intro conjI ballI)
    show "c = (fst a \<union> set (P @ Q), snd a @ P @ Q)" using P(1) Q(1) by auto
    show "distinct (P @ Q)" "set (P @ Q) \<inter> fst a = {}" using P Q by auto
    show "set (xs @ ys) \<subseteq> fst a \<union> set (P @ Q)" using P(1,4) Q(4) by auto
    show "set (S x) \<subseteq> fst a \<union> set (P @ Q)" if "x \<in> set (P @ Q)" for x
    proof (cases "x \<in> set P")
      case True
      then show ?thesis using P(5) by fastforce
    next
      case False
      then show ?thesis using Q(5) [of x] that P(1) by auto
    qed
    show "\<exists>s \<in> set (xs @ ys). (\<lambda>a b. b \<in> set (S a))\<^sup>*\<^sup>* s x" if "x \<in> set (P @ Q)" for x
      using that P(6) Q(6) by fastforce
  qed
qed

lemma extends_by_fold:
  assumes "\<And>x acc. x \<in> set xs \<Longrightarrow> V \<subseteq> fst acc \<Longrightarrow> extends_by S [x] acc (f x acc)" "V \<subseteq> fst acc"
  shows "extends_by S xs acc (fold f xs acc)"
  using assms
proof (induction xs arbitrary: acc)
  case (Cons x xs)
  have e: "extends_by S [x] acc (f x acc)" by (rule Cons.prems) (simp_all add: Cons.prems)
  then have "fst acc \<subseteq> fst (f x acc)" by (auto simp: extends_by_def)
  then have "extends_by S xs (f x acc) (fold f xs (f x acc))"
    by (intro Cons.IH) (use Cons.prems in auto)
  from extends_by_trans [OF e this] show ?case by simp
qed (simp add: extends_by_refl)

lemma extends_by_root:
  assumes "x \<notin> V" "extends_by S (S x) (insert x V, P) (V', P')"
  shows "extends_by S [x] (V, P) (V', P' @ [x])"
proof -
  obtain Q where Q: "V' = insert x V \<union> set Q" "P' = P @ Q" "distinct Q" "set Q \<inter> insert x V = {}" "set (S x) \<subseteq> insert x V \<union> set Q"
    "\<And>y. y \<in> set Q \<Longrightarrow> set (S y) \<subseteq> insert x V \<union> set Q" "\<And>y. y \<in> set Q \<Longrightarrow> \<exists>s \<in> set (S x). (\<lambda>a b. b \<in> set (S a))\<^sup>*\<^sup>* s y"
    using assms(2) unfolding extends_by_def by auto
  show ?thesis unfolding extends_by_def
  proof (rule exI [of _ "Q @ [x]"], intro conjI ballI)
    show "(V', P' @ [x]) = (fst (V, P) \<union> set (Q @ [x]), snd (V, P) @ Q @ [x])" using Q(1,2) by auto
    show "distinct (Q @ [x])" "set (Q @ [x]) \<inter> fst (V, P) = {}" using Q(3,4) assms(1) by auto
    show "set [x] \<subseteq> fst (V, P) \<union> set (Q @ [x])" by simp
    show "set (S y) \<subseteq> fst (V, P) \<union> set (Q @ [x])" if "y \<in> set (Q @ [x])" for y
      using that Q(5,6) by fastforce
    show "\<exists>s \<in> set [x]. (\<lambda>a b. b \<in> set (S a))\<^sup>*\<^sup>* s y" if "y \<in> set (Q @ [x])" for y
      using that Q(7) [of y] by (auto intro: converse_rtranclp_into_rtranclp)
  qed
qed

definition body_step :: "control_flow_graph \<Rightarrow> structure_map \<Rightarrow> usize list \<Rightarrow> usize \<Rightarrow> usize \<Rightarrow> usize list" where
  "body_step cfg if_map body h pc = body_succs cfg body h pc @ body_branches if_map body h pc"

lemma body_step_inside: "set (body_step cfg if_map body h pc) \<subseteq> set body - {h}"
  by (auto simp: body_step_def body_succs_def body_branches_def split: option.splits)

lemma dfs_order_extends:
  "pc \<in> set body \<Longrightarrow> card (set body - fst acc) \<le> depth \<Longrightarrow>
   extends_by (body_step cfg if_map body h) [pc] acc (dfs_loop_body_order depth cfg if_map body h pc acc)"
proof (induction depth arbitrary: pc acc)
  case 0
  then have "set [pc] \<subseteq> fst acc" by auto
  then show ?case by (simp add: extends_by_refl)
next
  case (Suc depth)
  show ?case
  proof (cases "pc \<in> fst acc")
    case True
    then show ?thesis by (cases acc) (auto intro: extends_by_refl)
  next
    case False
    obtain V P where acc: "acc = (V, P)" by fastforce
    let ?f = "dfs_loop_body_order depth cfg if_map body h" and ?S = "body_step cfg if_map body h"
    have "set body - insert pc V \<subset> set body - V" using False Suc.prems(1) acc by auto
    then have "card (set body - insert pc V) < card (set body - V)" by (simp add: psubset_card_mono)
    then have c: "card (set body - insert pc V) \<le> depth" using Suc.prems(2) acc by simp
    have "extends_by ?S (?S pc) (insert pc V, P) (fold ?f (?S pc) (insert pc V, P))"
    proof (rule extends_by_fold [of _ "insert pc V"])
      fix x and a :: "usize set \<times> usize list"
      assume x: "x \<in> set (?S pc)" "insert pc V \<subseteq> fst a"
      have "card (set body - fst a) \<le> card (set body - insert pc V)" using x(2) by (intro card_mono) auto
      then show "extends_by ?S [x] a (?f x a)" using Suc.IH [of x a] x(1) body_step_inside c by fastforce
    qed simp
    then have "extends_by ?S [pc] (V, P) (fst (fold ?f (?S pc) (insert pc V, P)), snd (fold ?f (?S pc) (insert pc V, P)) @ [pc])"
      using False acc by (intro extends_by_root) simp_all
    then show ?thesis using False by (simp add: acc body_step_def [of cfg if_map body h pc] case_prod_beta)
  qed
qed

lemma loop_body_order_exact:
  "distinct (compute_loop_body_order cfg if_map body h) \<and>
   set (compute_loop_body_order cfg if_map body h) =
     {x. \<exists>s \<in> set (body_succs cfg body h h). (\<lambda>a b. b \<in> set (body_step cfg if_map body h a))\<^sup>*\<^sup>* s x}"
proof -
  let ?S = "body_step cfg if_map body h" and ?f = "dfs_loop_body_order (length body) cfg if_map body h"
  have "extends_by ?S (body_succs cfg body h h) ({}, []) (fold ?f (body_succs cfg body h h) ({}, []))"
  proof (rule extends_by_fold [of _ "{}"])
    fix x and a :: "usize set \<times> usize list"
    assume "x \<in> set (body_succs cfg body h h)"
    moreover have "card (set body - fst a) \<le> card (set body)" by (rule card_mono) auto
    then have "card (set body - fst a) \<le> length body" using card_length [of body] by linarith
    ultimately show "extends_by ?S [x] a (?f x a)" by (intro dfs_order_extends) (auto simp: body_succs_def)
  qed simp
  then obtain Q where Q: "snd (fold ?f (body_succs cfg body h h) ({}, [])) = Q" "distinct Q"
    "set (body_succs cfg body h h) \<subseteq> set Q" "\<And>x. x \<in> set Q \<Longrightarrow> set (?S x) \<subseteq> set Q"
    "\<And>x. x \<in> set Q \<Longrightarrow> \<exists>s \<in> set (body_succs cfg body h h). (\<lambda>a b. b \<in> set (?S a))\<^sup>*\<^sup>* s x"
    by (auto simp: extends_by_def)
  have "x \<in> set Q" if "(\<lambda>a b. b \<in> set (?S a))\<^sup>*\<^sup>* s x" "s \<in> set (body_succs cfg body h h)" for s x
    using that by (induction rule: rtranclp_induct) (use Q(3,4) in auto)
  then show ?thesis using Q(1,2,5) by (auto simp: compute_loop_body_order_def)
qed

text \<open>In a natural loop whose header dominates its blocks, nothing is left out.\<close>

lemma walk_inside_loop:
  assumes entry: "\<And>p n. edge cfg p n \<Longrightarrow> n \<in> set body \<Longrightarrow> p \<notin> set body \<Longrightarrow> n = h"
  shows "entry_walk cfg xs \<Longrightarrow> last xs = n \<Longrightarrow> n \<in> set body \<Longrightarrow> h \<in> set xs \<Longrightarrow> n \<noteq> h \<Longrightarrow>
    \<exists>s \<in> set (body_succs cfg body h h). (\<lambda>a b. b \<in> set (body_step cfg if_map body h a))\<^sup>*\<^sup>* s n"
proof (induction xs arbitrary: n rule: rev_induct)
  case (snoc m xs)
  have m: "m = n" using snoc.prems(2) by simp
  then have h: "h \<in> set xs" using snoc.prems(4,5) by auto
  then have "xs \<noteq> []" by auto
  then have w: "entry_walk cfg xs" "edge cfg (last xs) n" using snoc.prems(1) m by (simp_all add: entry_walk_snoc)
  have inside: "last xs \<in> set body" using entry [OF w(2)] snoc.prems(3,5) by blast
  show ?case
  proof (cases "last xs = h")
    case True
    then have "n \<in> set (body_succs cfg body h h)" using w(2) snoc.prems(3,5) by (auto simp: body_succs_def edge_def)
    then show ?thesis by blast
  next
    case False
    then obtain s where s: "s \<in> set (body_succs cfg body h h)" "(\<lambda>a b. b \<in> set (body_step cfg if_map body h a))\<^sup>*\<^sup>* s (last xs)"
      using snoc.IH [OF w(1) refl inside h] by blast
    have "n \<in> set (body_step cfg if_map body h (last xs))"
      using w(2) snoc.prems(3,5) by (auto simp: body_step_def body_succs_def edge_def)
    then show ?thesis using s by (meson rtranclp.rtrancl_into_rtrancl)
  qed
qed (simp add: entry_walk_def)

lemma detected_loop_order:
  assumes g: "flow_graph g" and m: "Loop h l body c \<in> set (detect_loops g (the (compute g)) D)"
  shows "distinct (compute_loop_body_order g if_map (body_nodes body) h)"
    "set (compute_loop_body_order g if_map (body_nodes body) h) = body - {h}"
proof -
  let ?S = "\<lambda>a b. b \<in> set (body_step g if_map (body_nodes body) h a)"
  have body: "set (body_nodes body) = body" using loop_body_finite [OF g m] by (simp add: body_nodes_def)
  note loop = flow_graph.loop_sound [OF g m]
  have "\<exists>s \<in> set (body_succs g (body_nodes body) h h). ?S\<^sup>*\<^sup>* s n" if n: "n \<in> body" "n \<noteq> h" for n
  proof -
    obtain xs where xs: "entry_walk g xs" "last xs = n" "h \<in> set xs"
      using loop(3) [OF n(1)] n(2) by (auto simp: reachable_def on_every_walk_def)
    show ?thesis by (rule walk_inside_loop [OF _ xs(1,2) _ xs(3) n(2)]) (use loop(4) n(1) body in auto)
  qed
  moreover have "n \<in> body - {h}" if "s \<in> set (body_succs g (body_nodes body) h h)" "?S\<^sup>*\<^sup>* s n" for s n
    using that(2,1)
  proof (induction rule: rtranclp_induct)
    case base
    then show ?case by (auto simp: body_succs_def body)
  next
    case (step y z)
    then show ?case using body_step_inside [of g if_map "body_nodes body" h y] body by blast
  qed
  ultimately show "set (compute_loop_body_order g if_map (body_nodes body) h) = body - {h}"
    using loop_body_order_exact [of g if_map "body_nodes body" h] by blast
  show "distinct (compute_loop_body_order g if_map (body_nodes body) h)"
    using loop_body_order_exact [of g if_map "body_nodes body" h] by blast
qed


section \<open>Silent blocks\<close>

lemma write_option_None [simp]: "write_option prefix None em = em"
  by (simp add: write_option_def)

lemma hidden_instruction:
  assumes "e_lifted env = Some lp"
    and "fst pi \<in> eliminated_pcs lp \<or> fst pi \<in> emission_eliminated_pcs (e_plan env) \<or> snd pi = Fallthrough"
  shows "\<exists>regs'. emit_instruction env prefix ft b pi (em, regs) = (em, regs')"
proof -
  have "fst (lifted_instruction_text env lp d ft b pi rs decls) = None \<and> snd (lifted_instruction_text env lp d ft b pi rs decls) = decls"
    for d rs decls
    using assms(2) by (cases pi) (auto simp: lifted_instruction_text_def)
  then show ?thesis using assms(1) by (simp add: emit_instruction_def case_prod_beta Let_def)
qed

lemma hidden_instructions:
  assumes "e_lifted env = Some lp"
    and "\<And>pi. pi \<in> set is \<Longrightarrow> fst pi \<in> eliminated_pcs lp \<or> fst pi \<in> emission_eliminated_pcs (e_plan env) \<or> snd pi = Fallthrough"
  shows "fst (fold (emit_instruction env prefix ft b) is (em, regs)) = em"
  using assms(2)
proof (induction "is" arbitrary: regs)
  case (Cons pi pis)
  obtain regs' where "emit_instruction env prefix ft b pi (em, regs) = (em, regs')"
    using hidden_instruction [OF assms(1) Cons.prems [of pi], of prefix ft b em regs] by auto
  then show ?case using Cons by simp
qed simp

abbreviation may_print :: "emit_env \<Rightarrow> usize \<Rightarrow> bool \<Rightarrow> bool" where
  "may_print env pc skip \<equiv>
     block_may_emit_output (e_cfg env) (e_lifted env) (emission_eliminated_pcs (e_plan env)) pc skip"

lemma silent_block:
  assumes silent: "\<not> may_print env pc skip" and block: "get_block (e_cfg env) pc \<noteq> None" and heap: "heap_alloc_text env pc = None"
  shows "emit_block_body_with_fallthrough env pc indent skip ft em = em"
proof (cases "is_suppressed env pc")
  case True
  then show ?thesis by (simp add: emit_block_body_with_fallthrough_def)
next
  case False
  obtain b where b: "get_block (e_cfg env) pc = Some b" using block by blast
  let ?is = "if skip then butlast (block_instrs b) else block_instrs b"
  have unsupp: "\<not> (case e_lifted env of Some lp \<Rightarrow> pc \<in> suppressed_blocks lp | None \<Rightarrow> False)"
    using False by (simp add: is_suppressed_def)
  have quiet: "fst (fold (emit_instruction env prefix ft pc) ?is (st, Map.empty)) = st \<and> epilogue_text env pc = None" for prefix st
  proof (cases "e_lifted env")
    case None
    then show ?thesis using silent b by (simp add: block_may_emit_output_def epilogue_text_def Let_def)
  next
    case (Some lp)
    then have "\<not> list_ex (\<lambda>(pc, instr). pc \<notin> eliminated_pcs lp \<and> pc \<notin> emission_eliminated_pcs (e_plan env) \<and> instr \<noteq> Fallthrough) ?is"
        "epilogue_blocks lp pc = None"
      using silent b unsupp by (auto simp: block_may_emit_output_def Let_def)
    then show ?thesis using hidden_instructions [OF Some, of ?is] Some
      by (fastforce simp: list_ex_iff epilogue_text_def)
  qed
  then have "fst (fold (emit_instruction env (indentation indent) ft pc) ?is (write_line (indentation indent @ ''// @'' @ show_hex4 pc) em, Map.empty))
      = write_line (indentation indent @ ''// @'' @ show_hex4 pc) em" "epilogue_text env pc = None"
    by blast+
  then show ?thesis
    using False b heap by (simp add: emit_block_body_with_fallthrough_def Let_def write_line_def)
qed

text \<open>A branch whose blocks are silent, neither loops nor conditionals, prints nothing when it is emitted.\<close>

lemma silent_branch:
  assumes "blocks_guaranteed_no_output_no_loop (e_cfg env) (e_ifs env) loops (e_lifted env) (emission_eliminated_pcs (e_plan env)) bs"
    and "\<And>b. b \<in> set bs \<Longrightarrow> get_block (e_cfg env) b \<noteq> None \<and> heap_alloc_text env b = None"
  shows "emit_branch (block_or_inline_if nested depth env indent None) prefix bs em = Some (mark bs em)"
  using assms
proof (induction bs arbitrary: em)
  case Nil
  then show ?case by (simp add: mark_def)
next
  case (Cons b bs)
  have "e_ifs env b = None" "\<not> may_print env b False"
    using Cons.prems(1) by (simp_all add: blocks_guaranteed_no_output_no_loop_def)
  then have "block_or_inline_if nested depth env indent None b em = Some (None, em)" for em
    using silent_block [of env b False indent None em] Cons.prems(2) [of b]
    by (simp add: block_or_inline_if_def emit_block_with_loop_control_def emit_block_with_loop_control_and_fallthrough_def)
  moreover have "emit_branch (block_or_inline_if nested depth env indent None) prefix bs (mark [b] em)
      = Some (mark bs (mark [b] em))"
    by (rule Cons.IH) (use Cons.prems in \<open>simp_all add: blocks_guaranteed_no_output_no_loop_def\<close>)
  moreover have "mark bs (mark [b] em) = mark (b # bs) em" by (simp add: mark_def insert_commute)
  ultimately show ?case by simp
qed

text \<open>A loop whose body is said to be empty prints nothing for it.\<close>

lemma silent_body_blocks:
  assumes plan: "\<And>pc. planned_action (e_plan env) h pc = inp_actions inp pc"
    and inp: "inp_header inp = h" "inp_latch inp = latch" "has_for_latch inp = (for_loop_map (e_plan env) h \<noteq> None)"
      "inp_reachable inp = plan_reachable plan" "inp_last_emittable inp = last_emittable plan"
    and silent: "list_all (silent_body_block (e_cfg env) (e_ifs env) (e_loops env) (e_lifted env) (emission_eliminated_pcs (e_plan env)) inp) bs"
    and blocks: "\<And>b. b \<in> set bs \<Longrightarrow> get_block (e_cfg env) b \<noteq> None \<and> heap_alloc_text env b = None"
  shows "\<exists>marked. set marked \<subseteq> set bs \<and> emit_loop_blocks f g env plan h latch indent bs em = Some (mark marked em)"
  using silent blocks
proof (induction bs arbitrary: em)
  case Nil
  show ?case by (rule exI [of _ "[]"]) (simp add: mark_def)
next
  case (Cons b bs)
  have rest: "\<exists>marked. set marked \<subseteq> set bs \<and> emit_loop_blocks f g env plan h latch indent bs em = Some (mark marked em)" for em
    by (rule Cons.IH) (use Cons.prems in simp_all)
  have marked: "\<exists>marked. set marked \<subseteq> set (b # bs) \<and>
      emit_loop_blocks f g env plan h latch indent bs (mark [b] em) = Some (mark marked em)"
  proof -
    obtain m where "set m \<subseteq> set bs" "emit_loop_blocks f g env plan h latch indent bs (mark [b] em) = Some (mark m (mark [b] em))"
      using rest by blast
    moreover have "mark m (mark [b] em) = mark (b # m) em" by (simp add: mark_def insert_commute)
    ultimately show ?thesis by (intro exI [of _ "b # m"]) auto
  qed
  show ?case
  proof (cases "b = h \<or> b \<in> emitted em")
    case True
    then show ?thesis using rest [of em] by (auto simp: Let_def)
  next
    case out: False
    show ?thesis
    proof (cases "b \<in> plan_reachable plan")
      case False
      then show ?thesis using out marked by (auto simp: Let_def)
    next
      case True
      have "silent_body_block (e_cfg env) (e_ifs env) (e_loops env) (e_lifted env) (emission_eliminated_pcs (e_plan env)) inp b"
        using Cons.prems(1) by simp
      note sil = this [unfolded silent_body_block_def]
      have plain: "e_loops env b = None" "e_ifs env b = None" using sil out True inp by (auto split: if_splits)
      have "emit_plain_body_block env plan h latch indent b bs em = mark [b] em"
      proof (cases "b = latch \<and> for_loop_map (e_plan env) h \<noteq> None")
        case counting: True
        then have "\<not> may_print env b True" using sil out True inp plain by simp
        then show ?thesis using counting silent_block Cons.prems(2) [of b] by (simp add: emit_plain_body_block_def Let_def)
      next
        case no_for: False
        show ?thesis
        proof (cases "inp_actions inp b")
          case None
          then have "\<not> may_print env b False" using sil out True inp plain no_for by (simp split: if_splits)
          then show ?thesis using None no_for silent_block Cons.prems(2) [of b] plan
            by (auto simp: emit_plain_body_block_def Let_def emit_block_with_loop_control_and_fallthrough_def)
        next
          case (Some a)
          then have "\<not> may_print env b True" "a = Continue" "last_emittable plan = Some b"
            using sil out True inp plain no_for by (simp_all split: if_splits)
          then show ?thesis using Some no_for silent_block Cons.prems(2) [of b] plan
            by (auto simp: emit_plain_body_block_def Let_def emit_block_with_loop_control_and_fallthrough_def emit_block_body_def)
        qed
      qed
      then show ?thesis using out True plain marked by (simp add: Let_def)
    qed
  qed
qed


section \<open>The plan of an analysed graph\<close>

lemma if_map_of_mem: "if_map_of ss h = Some s \<Longrightarrow> s \<in> set ss \<and> (\<exists>ts es j c. s = IfThenElse h ts es j c)"
proof -
  have "fold (\<lambda>s m. case s of IfThenElse h _ _ _ _ \<Rightarrow> m(h \<mapsto> s) | _ \<Rightarrow> m) ss m h = Some s \<Longrightarrow>
      m h = Some s \<or> s \<in> set ss \<and> (\<exists>ts es j c. s = IfThenElse h ts es j c)" for m
    by (induction ss arbitrary: m) (fastforce split: cf_structure.splits if_splits)+
  then show "if_map_of ss h = Some s \<Longrightarrow> s \<in> set ss \<and> (\<exists>ts es j c. s = IfThenElse h ts es j c)"
    unfolding if_map_of_def by fastforce
qed

lemma loop_map_of_mem: "loop_map_of ss h = Some s \<Longrightarrow> s \<in> set ss \<and> (\<exists>l body c. s = Loop h l body c)"
proof -
  have "fold (\<lambda>s m. case s of Loop h _ _ _ \<Rightarrow> m(h \<mapsto> s) | _ \<Rightarrow> m) ss m h = Some s \<Longrightarrow>
      m h = Some s \<or> s \<in> set ss \<and> (\<exists>l body c. s = Loop h l body c)" for m
    by (induction ss arbitrary: m) (fastforce split: cf_structure.splits if_splits)+
  then show "loop_map_of ss h = Some s \<Longrightarrow> s \<in> set ss \<and> (\<exists>l body c. s = Loop h l body c)"
    unfolding loop_map_of_def by fastforce
qed

lemma note_empty_keeps:
  "emission_eliminated_pcs (fold (note_empty_branches cfg im lm lifted) ss plan) = emission_eliminated_pcs plan"
  "for_loop_map (fold (note_empty_branches cfg im lm lifted) ss plan) = for_loop_map plan"
  by (induction ss arbitrary: plan) (simp_all add: note_empty_branches_def Let_def split: cf_structure.split)

lemma note_empty_flags:
  "h \<in> empty_then_if_headers_no_loop (fold (note_empty_branches cfg im lm lifted) ss plan) \<Longrightarrow>
   h \<in> empty_then_if_headers_no_loop plan \<or> (\<exists>ts es j c. IfThenElse h ts es j c \<in> set ss \<and>
     blocks_guaranteed_no_output_no_loop cfg im lm lifted (emission_eliminated_pcs plan) ts)"
  "h \<in> empty_else_if_headers_no_loop (fold (note_empty_branches cfg im lm lifted) ss plan) \<Longrightarrow>
   h \<in> empty_else_if_headers_no_loop plan \<or> (\<exists>ts es j c. IfThenElse h ts es j c \<in> set ss \<and>
     (list_all (is_trap_only_block cfg) es \<or>
      blocks_guaranteed_no_output_no_loop cfg im lm lifted (emission_eliminated_pcs plan) es))"
proof (induction ss arbitrary: plan)
  case (Cons s ss)
  have elim: "emission_eliminated_pcs (note_empty_branches cfg im lm lifted s plan) = emission_eliminated_pcs plan" for plan
    by (simp add: note_empty_branches_def Let_def split: cf_structure.split)
  {
    case 1
    then consider "h \<in> empty_then_if_headers_no_loop (note_empty_branches cfg im lm lifted s plan)"
      | "\<exists>ts es j c. IfThenElse h ts es j c \<in> set ss \<and>
          blocks_guaranteed_no_output_no_loop cfg im lm lifted (emission_eliminated_pcs plan) ts"
      using Cons.IH(1) [of "note_empty_branches cfg im lm lifted s plan"] unfolding elim fold_simps by blast
    then show ?case
    proof cases
      case 1
      then show ?thesis
        by (cases s) (auto simp: note_empty_branches_def Let_def split: if_splits)
    qed auto
  next
    case 2
    then consider "h \<in> empty_else_if_headers_no_loop (note_empty_branches cfg im lm lifted s plan)"
      | "\<exists>ts es j c. IfThenElse h ts es j c \<in> set ss \<and> (list_all (is_trap_only_block cfg) es \<or>
          blocks_guaranteed_no_output_no_loop cfg im lm lifted (emission_eliminated_pcs plan) es)"
      using Cons.IH(2) [of "note_empty_branches cfg im lm lifted s plan"] unfolding elim fold_simps by blast
    then show ?case
    proof cases
      case 1
      then show ?thesis
        by (cases s) (auto simp: note_empty_branches_def Let_def split: if_splits)
    next
      case 2
      then show ?thesis by (meson list.set_intros(2))
    qed
  }
qed simp_all

lemma note_structure_flags:
  "empty_then_if_headers_no_loop (fold (note_structure cfg lifted) ss plan) = empty_then_if_headers_no_loop plan"
  "empty_else_if_headers_no_loop (fold (note_structure cfg lifted) ss plan) = empty_else_if_headers_no_loop plan"
  by (induction ss arbitrary: plan)
     (simp_all add: note_structure_def note_for_loop_def Let_def split: cf_structure.split option.split)

lemma plan_loops_fields [simp]:
  "emission_eliminated_pcs (plan_loops cfg im lm lifted plan) = emission_eliminated_pcs plan"
  "for_loop_map (plan_loops cfg im lm lifted plan) = for_loop_map plan"
  "empty_then_if_headers_no_loop (plan_loops cfg im lm lifted plan) = empty_then_if_headers_no_loop plan"
  "empty_else_if_headers_no_loop (plan_loops cfg im lm lifted plan) = empty_else_if_headers_no_loop plan"
  by (simp_all add: plan_loops_def)

lemma built_plan_flags:
  assumes "plan = build_emission_plan cfg ss lifted t"
  shows "h \<in> empty_then_if_headers_no_loop plan \<Longrightarrow> \<exists>ts es j c. IfThenElse h ts es j c \<in> set ss \<and>
     blocks_guaranteed_no_output_no_loop cfg (if_map_of ss) (loop_map_of ss) lifted (emission_eliminated_pcs plan) ts"
    "h \<in> empty_else_if_headers_no_loop plan \<Longrightarrow> \<exists>ts es j c. IfThenElse h ts es j c \<in> set ss \<and>
     (list_all (is_trap_only_block cfg) es \<or>
      blocks_guaranteed_no_output_no_loop cfg (if_map_of ss) (loop_map_of ss) lifted (emission_eliminated_pcs plan) es)"
  using note_empty_flags [of h cfg "if_map_of ss" "loop_map_of ss" lifted ss]
  by (fastforce simp: assms build_emission_plan_def Let_def note_empty_keeps note_structure_flags empty_plan_def split: option.splits)+

lemma built_plan_loop:
  assumes "plan = build_emission_plan cfg ss lifted t" "loop_map_of ss h = Some (Loop h' latch body c)"
  shows "\<exists>plan'. loop_plans plan h = Some (plan_of_loop cfg (if_map_of ss) (loop_map_of ss) lifted plan' h latch (body_nodes body)) \<and>
    emission_eliminated_pcs plan' = emission_eliminated_pcs plan \<and> for_loop_map plan' = for_loop_map plan"
proof -
  have "\<exists>plan'. plan = plan_loops cfg (if_map_of ss) (loop_map_of ss) lifted plan'"
    unfolding assms(1) build_emission_plan_def Let_def by (rule exI, rule refl)
  then obtain plan' where "plan = plan_loops cfg (if_map_of ss) (loop_map_of ss) lifted plan'" by blast
  then show ?thesis using assms(2) by (intro exI [of _ plan']) (simp add: plan_loops_def)
qed

lemma structures_of_analysis:
  "IfThenElse h ts es j c \<in> set (structures (analyze_with_dom_tree g p t E)) \<Longrightarrow>
     \<exists>ex. IfThenElse h ts es j c \<in> set (detect_if_then_else g t ex)"
  "Loop h l body c \<in> set (structures (analyze_with_dom_tree g p t E)) \<Longrightarrow>
     \<exists>D. Loop h l body c \<in> set (detect_loops g t D)"
proof -
  have loops: "s \<in> set (detect_loops g t D) \<Longrightarrow> \<exists>h l body c. s = Loop h l body c" for s D
    unfolding detect_loops_def using dedup_by_key_set
    by (fastforce simp: found_loops_def loop_of_edge_def Let_def split: if_splits)
  show "IfThenElse h ts es j c \<in> set (structures (analyze_with_dom_tree g p t E)) \<Longrightarrow>
      \<exists>ex. IfThenElse h ts es j c \<in> set (detect_if_then_else g t ex)"
    using loops only_switches by (fastforce simp: analyze_with_dom_tree_def Let_def split: if_splits)
  show "Loop h l body c \<in> set (structures (analyze_with_dom_tree g p t E)) \<Longrightarrow> \<exists>D. Loop h l body c \<in> set (detect_loops g t D)"
    using only_ifs only_switches by (fastforce simp: analyze_with_dom_tree_def Let_def split: if_splits)
qed

lemma if_header_unique:
  assumes "IfThenElse h ts es j c \<in> set (detect_if_then_else g t ex)" "IfThenElse h ts' es' j' c' \<in> set (detect_if_then_else g t ex')"
  shows "ts = ts' \<and> es = es' \<and> j = j' \<and> c = c'"
proof -
  obtain block a b where 1: "get_block g h = Some block" "successors block = [a, b]" "j = find_join_point g a b h t"
      "c = terminator_condition g h" "(ts, es) = (if Some a = j then ([], [b]) else if Some b = j then ([a], []) else ([a], [b]))"
    by (rule if_of_block_mem [OF conjunct2 [OF detect_if_mem [OF assms(1)]]])
  obtain block' a' b' where 2: "get_block g h = Some block'" "successors block' = [a', b']" "j' = find_join_point g a' b' h t"
      "c' = terminator_condition g h" "(ts', es') = (if Some a' = j' then ([], [b']) else if Some b' = j' then ([a'], []) else ([a'], [b']))"
    by (rule if_of_block_mem [OF conjunct2 [OF detect_if_mem [OF assms(2)]]])
  have "block' = block" "a' = a" "b' = b" using 1(1,2) 2(1,2) by simp_all
  then show ?thesis using 1(3,4,5) 2(3,4,5) by (metis prod.inject)
qed


lemma make_env_fields [simp]:
  "e_cfg (make_env sa cfg lifted) = cfg" "e_lifted (make_env sa cfg lifted) = lifted"
  "e_labels (make_env sa cfg lifted) = build_block_labels cfg (structures sa)"
  "e_ifs (make_env sa cfg lifted) = if_map_of (structures sa)"
  "e_loops (make_env sa cfg lifted) = loop_map_of (structures sa)"
  "e_plan (make_env sa cfg lifted) = build_emission_plan cfg (structures sa) lifted (dom_tree sa)"
  "e_reachable (make_env sa cfg lifted) = compute_reachable_blocks cfg (entry_pc cfg)"
  "e_rpo (make_env sa cfg lifted) = rpo_positions (dom_tree sa)"
  by (simp_all add: make_env_def)

lemma analysis_tree [simp]: "dom_tree (analyze_with_dom_tree g p t E) = t"
  by (simp add: analyze_with_dom_tree_def Let_def)

lemma not_entry_no_heap: "b \<noteq> entry_pc (e_cfg env) \<Longrightarrow> heap_alloc_text env b = None"
  by (auto simp: heap_alloc_text_def Option.bind_eq_None_conv)

lemma entry_on_every_walk: "on_every_walk cfg (entry_pc cfg) n"
  unfolding on_every_walk_def entry_walk_def by (metis hd_in_set)

lemma if_sides:
  assumes g: "flow_graph g" and m: "IfThenElse h ts es j c \<in> set (detect_if_then_else g (the (compute g)) D)"
    and b: "b \<in> set ts \<union> set es"
  shows "edge g h b" "get_block g b \<noteq> None" "b \<noteq> entry_pc g" "reachable g h"
proof -
  obtain x y where r: "reachable g h" "h \<notin> D" "cfg_succs g h = [x, y]" "\<not> on_every_walk g x h" "\<not> on_every_walk g y h"
    "j = None \<or> reaches g x (the j) \<and> reaches g y (the j)" "set ts \<union> set es \<subseteq> {x, y}"
    "{x, y} \<subseteq> set ts \<union> set es \<union> set_option j" "ts = [] \<longrightarrow> x = y"
    by (rule flow_graph.if_sound [OF g m])
  show e: "edge g h b" using r(3,7) b by (auto simp: edge_def)
  show "get_block g b \<noteq> None" using flow_graph.edge_target [OF g e] unfolding cfg_nodes_dom by blast
  show "b \<noteq> entry_pc g" using r(4,5,7) b entry_on_every_walk by blast
  show "reachable g h" by (rule r(1))
qed

lemma analysed_if:
  assumes "e_ifs (make_env (analyze_with_dom_tree g p t E) g lifted) h = Some s"
  obtains ts es j c D where "s = IfThenElse h ts es j c" "IfThenElse h ts es j c \<in> set (detect_if_then_else g t D)"
    "IfThenElse h ts es j c \<in> set (structures (analyze_with_dom_tree g p t E))"
  using assms if_map_of_mem [of "structures (analyze_with_dom_tree g p t E)" h s] structures_of_analysis(1) by fastforce

lemma analysed_loop:
  assumes "e_loops (make_env (analyze_with_dom_tree g p t E) g lifted) h = Some s"
  obtains l body c D where "s = Loop h l body c" "Loop h l body c \<in> set (detect_loops g t D)"
  using assms loop_map_of_mem [of "structures (analyze_with_dom_tree g p t E)" h s] structures_of_analysis(2) by fastforce

lemma silent_then_else:
  assumes g: "flow_graph g" and env: "env = make_env (analyze_with_dom_tree g p (the (compute g)) E) g lifted"
    and i: "e_ifs env h = Some (IfThenElse h ts es j c)"
  shows "h \<in> empty_then_if_headers_no_loop (e_plan env) \<Longrightarrow>
      emit_branch (block_or_inline_if nested depth env indent None) prefix ts em = Some (mark ts em)"
    "h \<in> empty_else_if_headers_no_loop (e_plan env) \<Longrightarrow> \<not> list_all (is_trap_only_block g) es \<Longrightarrow>
      emit_branch (block_or_inline_if nested depth env indent None) prefix es em = Some (mark es em)"
proof -
  let ?ss = "structures (analyze_with_dom_tree g p (the (compute g)) E)"
  obtain D where D: "IfThenElse h ts es j c \<in> set (detect_if_then_else g (the (compute g)) D)"
    using analysed_if [of g p "the (compute g)" E lifted h "IfThenElse h ts es j c"] i unfolding env by fastforce
  have unique: "ts' = ts \<and> es' = es" if "IfThenElse h ts' es' j' c' \<in> set ?ss" for ts' es' j' c'
    using structures_of_analysis(1) [OF that] if_header_unique [OF _ D] by blast
  have blocks: "get_block (e_cfg env) b \<noteq> None \<and> heap_alloc_text env b = None" if "b \<in> set ts \<union> set es" for b
    using if_sides [OF g D that] not_entry_no_heap [of b env] unfolding env by simp
  have plan: "e_plan env = build_emission_plan g ?ss lifted (the (compute g))" by (simp add: env)
  have fields: "e_cfg env = g" "e_ifs env = if_map_of ?ss" "e_loops env = loop_map_of ?ss" "e_lifted env = lifted"
    by (simp_all add: env)
  show "emit_branch (block_or_inline_if nested depth env indent None) prefix ts em = Some (mark ts em)"
    if "h \<in> empty_then_if_headers_no_loop (e_plan env)"
  proof (rule silent_branch)
    show "blocks_guaranteed_no_output_no_loop (e_cfg env) (e_ifs env) (e_loops env) (e_lifted env) (emission_eliminated_pcs (e_plan env)) ts"
      using built_plan_flags(1) [OF plan that] unique unfolding fields by blast
  qed (use blocks in blast)
  show "emit_branch (block_or_inline_if nested depth env indent None) prefix es em = Some (mark es em)"
    if "h \<in> empty_else_if_headers_no_loop (e_plan env)" "\<not> list_all (is_trap_only_block g) es"
  proof (rule silent_branch)
    show "blocks_guaranteed_no_output_no_loop (e_cfg env) (e_ifs env) (e_loops env) (e_lifted env) (emission_eliminated_pcs (e_plan env)) es"
      using built_plan_flags(2) [OF plan that(1)] that(2) unique unfolding fields by blast
  qed (use blocks in blast)
qed

lemma silent_loop:
  assumes g: "flow_graph g" and env: "env = make_env (analyze_with_dom_tree g p (the (compute g)) E) g lifted"
    and i: "e_loops env h = Some (Loop h l body c)" and plan: "loop_plans (e_plan env) h = Some plan" "force_empty_body plan"
  shows "\<exists>marked. set marked \<subseteq> body \<and> emit_loop_blocks f f' env plan h l indent (body_order plan) em = Some (mark marked em)"
proof -
  let ?ss = "structures (analyze_with_dom_tree g p (the (compute g)) E)"
  obtain D where D: "Loop h l body c \<in> set (detect_loops g (the (compute g)) D)"
    using analysed_loop [of g p "the (compute g)" E lifted h "Loop h l body c"] i unfolding env by fastforce
  note loop = flow_graph.loop_sound [OF g D]
  have p: "e_plan env = build_emission_plan g ?ss lifted (the (compute g))" by (simp add: env)
  have fields: "e_cfg env = g" "e_ifs env = if_map_of ?ss" "e_loops env = loop_map_of ?ss" "e_lifted env = lifted"
    by (simp_all add: env)
  obtain plan' where plan': "plan = plan_of_loop g (if_map_of ?ss) (loop_map_of ?ss) lifted plan' h l (body_nodes body)"
      "emission_eliminated_pcs plan' = emission_eliminated_pcs (e_plan env)" "for_loop_map plan' = for_loop_map (e_plan env)"
    using built_plan_loop [OF p, of h h l body c] i plan(1) fields by auto
  let ?order = "compute_loop_body_order g (if_map_of ?ss) (body_nodes body) h"
  have order: "body_order plan = ?order" "set ?order = body - {h}"
    using detected_loop_order [OF g D] by (simp_all add: plan'(1) plan_of_loop_def Let_def)
  have blocks: "get_block (e_cfg env) b \<noteq> None \<and> heap_alloc_text env b = None" if b: "b \<in> body - {h}" for b
  proof
    have "b \<noteq> entry_pc g" using loop(3) [of b] b on_every_walk_entry [of g h] by auto
    then show "heap_alloc_text env b = None" by (rule not_entry_no_heap [of b env, unfolded fields])
    have "reaches_avoiding g h l b" using loop(2) b by (simp add: natural_loop_def)
    then have "b \<in> cfg_nodes g"
      using flow_graph.edge_source [OF g] loop(1) by (auto elim: reaches_avoiding.cases)
    then show "get_block (e_cfg env) b \<noteq> None" unfolding fields cfg_nodes_dom by blast
  qed
  define inp where "inp = \<lparr>inp_header = h, inp_latch = l, has_for_latch = (for_loop_map (e_plan env) h \<noteq> None),
    inp_body_order = ?order, inp_reachable = plan_reachable plan, inp_last_emittable = last_emittable plan,
    inp_actions = (\<lambda>pc. terminal_action g pc (body_nodes body) h)\<rparr>"
  have "is_force_empty_loop_body g (if_map_of ?ss) (loop_map_of ?ss) lifted (emission_eliminated_pcs (e_plan env)) inp"
    using plan(2) plan'(2,3) by (simp add: plan'(1) plan_of_loop_def Let_def inp_def)
  then have all: "list_all (silent_body_block (e_cfg env) (e_ifs env) (e_loops env) (e_lifted env) (emission_eliminated_pcs (e_plan env)) inp) (body_order plan)"
    unfolding fields order(1) by (simp add: is_force_empty_loop_body_def inp_def)
  have actions: "planned_action (e_plan env) h pc = inp_actions inp pc" for pc
    using plan(1) by (simp add: planned_action_def inp_def plan'(1) plan_of_loop_def Let_def)
  have "\<exists>marked. set marked \<subseteq> set (body_order plan) \<and>
      emit_loop_blocks f f' env plan h l indent (body_order plan) em = Some (mark marked em)"
  proof (rule silent_body_blocks [OF actions _ _ _ _ _ all])
    show "inp_header inp = h" "inp_latch inp = l" "has_for_latch inp = (for_loop_map (e_plan env) h \<noteq> None)"
      "inp_reachable inp = plan_reachable plan" "inp_last_emittable inp = last_emittable plan"
      by (simp_all add: inp_def)
    show "get_block (e_cfg env) b \<noteq> None \<and> heap_alloc_text env b = None" if "b \<in> set (body_order plan)" for b
      by (rule blocks) (use that order in simp)
  qed
  then obtain marked where m: "set marked \<subseteq> set (body_order plan)"
    "emit_loop_blocks f f' env plan h l indent (body_order plan) em = Some (mark marked em)" by blast
  have "set (body_order plan) \<subseteq> body" by (simp only: order Diff_subset)
  with m show ?thesis by (intro exI [of _ marked]) simp
qed


section \<open>Properties\<close>

text \<open>A loop that is left at its head: test, decrement, jump back, trap.\<close>

definition counting_program :: decoded_program where
  "counting_program = \<lparr>jump_table = [],
     instructions = [(0, BranchImm BranchEqImm 1 0 8), (3, TwoRegImm AddImm64 1 1 (- 1)), (6, Jump (- 6)), (8, Trap)],
     code_len = 9, memory_base = None\<rparr>"

lemma counting_loops:
  "detect_loops (reorder (build counting_program) []) (the (compute (reorder (build counting_program) []))) {}
   = [Loop 0 3 {0, 3} (Some \<lparr>cond_op = CEq, lhs = OReg 1, rhs = OImm 0\<rparr>)]"
  by code_simp

text \<open>C8: for the graph of every program, the condition printed at the head of a loop of which one branch
  stays inside holds, for all values of the registers, exactly when the branch at the end of the header
  goes to a block of the loop; and the condition of a conditional holds exactly when the branch goes to
  its first successor, which is the block printed under it, the other one under \<open>else\<close> or after it.\<close>

theorem printed_conditions_select:
  assumes "g = reorder (build p) bs" "get_block g h = Some b" "successors b = [s1, s2]" "s1 \<noteq> s2"
  shows "(Loop h l body (Some c) \<in> set (detect_loops g (the (compute g)) D) \<and> (s1 \<in> body) \<noteq> (s2 \<in> body) \<longrightarrow>
      (condition_holds regs (maybe_invert_loop_condition g h (body_nodes body) c) \<longleftrightarrow>
       branch_goes_to regs (last (block_instrs b)) s2 \<in> body)) \<and>
    (IfThenElse h ts es j (Some c) \<in> set (detect_if_then_else g (the (compute g)) D) \<longrightarrow>
      ts = [s1] \<and> es = (if j = Some s2 then [] else [s2]) \<and>
      (condition_holds regs c \<longleftrightarrow> branch_goes_to regs (last (block_instrs b)) s2 = s1))"
  by (intro conjI impI; (elim conjE)?;
      (rule detected_loop_selects [OF assms(1-3)] detected_if_selects [OF assms(1-3) _ assms(4)]; assumption))

theorem printed_conditions_select_witness:
  "condition_holds (\<lambda>r. 5) (maybe_invert_loop_condition (reorder (build counting_program) []) 0 (body_nodes {0, 3})
       \<lparr>cond_op = CEq, lhs = OReg 1, rhs = OImm 0\<rparr>)
   \<longleftrightarrow> branch_goes_to (\<lambda>r. 5) (0, BranchImm BranchEqImm 1 0 8) 3 \<in> {0, 3}"
proof -
  have b: "get_block (reorder (build counting_program) []) 0 = Some \<lparr>start_pc = 0, end_pc = 3,
      block_instrs = [(0, BranchImm BranchEqImm 1 0 8)], successors = [8, 3], predecessors = [3]\<rparr>"
    by code_simp
  show ?thesis
    using printed_conditions_select [OF refl b, of 8 3 3 "{0, 3}" "\<lparr>cond_op = CEq, lhs = OReg 1, rhs = OImm 0\<rparr>" "{}" "\<lambda>r. 5"]
      counting_loops
    by simp
qed

text \<open>C11: the order in which the body of a detected loop is printed lists every block of the loop but its header,
  each exactly once: the bound on the depth of the search suffices, and no block is missed.\<close>

theorem loop_blocks_listed:
  assumes "g = reorder (build p) bs" "Loop h l body c \<in> set (detect_loops g (the (compute g)) D)"
  shows "distinct (compute_loop_body_order g if_map (body_nodes body) h) \<and>
    set (compute_loop_body_order g if_map (body_nodes body) h) = body - {h}"
  using detected_loop_order [OF graph_of_program [OF assms(1)] assms(2)] by blast

theorem loop_blocks_listed_witness:
  "set (compute_loop_body_order (reorder (build counting_program) []) Map.empty (body_nodes {0, 3}) 0) = {0, 3} - {0}"
  using loop_blocks_listed [OF refl, of 0 3 "{0, 3}" "Some \<lparr>cond_op = CEq, lhs = OReg 1, rhs = OImm 0\<rparr>" counting_program "[]" "{}" Map.empty]
    counting_loops by simp

text \<open>C10: the blocks that are left out as silent would have printed nothing. Emitting the branch of a conditional
  whose \<open>then\<close> side is marked silent, or whose \<open>else\<close> side is and is not a mere trap, only records its blocks; and
  emitting the body of a loop that is marked empty only records blocks of the loop.\<close>

theorem silent_code_skipped:
  assumes "g = reorder (build p) bs" "env = make_env (analyze_with_dom_tree g p (the (compute g)) E) g lifted"
  shows "(e_ifs env h = Some (IfThenElse h ts es j c) \<longrightarrow>
      (h \<in> empty_then_if_headers_no_loop (e_plan env) \<longrightarrow>
        emit_branch (block_or_inline_if nested depth env indent None) prefix ts em = Some (mark ts em)) \<and>
      (h \<in> empty_else_if_headers_no_loop (e_plan env) \<and> \<not> list_all (is_trap_only_block g) es \<longrightarrow>
        emit_branch (block_or_inline_if nested depth env indent None) prefix es em = Some (mark es em))) \<and>
    (e_loops env h = Some (Loop h l body c) \<and> loop_plans (e_plan env) h = Some plan \<and> force_empty_body plan \<longrightarrow>
      (\<exists>marked. set marked \<subseteq> body \<and>
        emit_loop_blocks f f' env plan h l indent (body_order plan) em = Some (mark marked em)))"
  by (intro conjI impI; (elim conjE)?; (rule silent_then_else [OF graph_of_program [OF assms(1)] assms(2)] silent_loop [OF graph_of_program [OF assms(1)] assms(2)]; assumption))

theorem silent_code_skipped_witness:
  "let g = reorder (build triangle_program) [];
       env = make_env (analyze_with_dom_tree g triangle_program (the (compute g)) {}) g (Some (empty_lifted\<lparr>eliminated_pcs := {3}\<rparr>))
   in emit_branch (block_or_inline_if (\<lambda>_ _ _ _ _. None) 5 env 1 None) ''    '' [3]
        \<lparr>out = [], emitted = {}, declared = {}, dispatch_loop_header = None\<rparr>
      = Some (mark [3] \<lparr>out = [], emitted = {}, declared = {}, dispatch_loop_header = None\<rparr>)"
proof -
  let ?g = "reorder (build triangle_program) []"
  let ?env = "make_env (analyze_with_dom_tree ?g triangle_program (the (compute ?g)) {}) ?g (Some (empty_lifted\<lparr>eliminated_pcs := {3}\<rparr>))"
  have "e_ifs ?env 0 = Some (IfThenElse 0 [6] [3] None (Some \<lparr>cond_op = CEq, lhs = OReg 1, rhs = OImm 0\<rparr>))"
    by code_simp
  moreover have "0 \<in> empty_else_if_headers_no_loop (e_plan ?env)" by code_simp
  moreover have "\<not> list_all (is_trap_only_block ?g) [3]" by code_simp
  ultimately show ?thesis
    using silent_code_skipped [OF refl refl, of triangle_program "[]" "{}" "Some (empty_lifted\<lparr>eliminated_pcs := {3}\<rparr>)" 0 "[6]" "[3]"]
    unfolding Let_def by blast
qed

end
