(* ===== verification/Emission_Progress.thy ===== *)
theory Emission_Progress
  imports Emission_Correct "HOL-Library.Sublist"
begin

text \<open>
  What the emitter (\<open>Emitter\<close> and \<open>pseudo_code\<close> in \<open>src/structuring/emission.rs\<close>) does to its state, for
  every structured graph: it only appends to the output, it records a block only when a walk over recorded
  blocks leads to it, its work list never puts a block back, and on a reducible graph its recursion and its
  work list end within a bound that is linear in the number of blocks.

  A graph with its structures is the locale \<open>structured_graph\<close>; the analysis of every program is an
  interpretation of it.
\<close>

section \<open>Growth\<close>

text \<open>\<open>b\<close> is reached from \<open>a\<close> by a walk all of whose further blocks are in \<open>X\<close>.\<close>

definition connects :: "control_flow_graph \<Rightarrow> usize set \<Rightarrow> usize \<Rightarrow> usize \<Rightarrow> bool" where
  "connects cfg X a b \<longleftrightarrow> (\<lambda>u v. edge cfg u v \<and> v \<in> X)\<^sup>*\<^sup>* a b"

lemma connects_refl [simp]: "connects cfg X a a"
  by (simp add: connects_def)

lemma connects_trans: "connects cfg X a b \<Longrightarrow> connects cfg X b c \<Longrightarrow> connects cfg X a c"
  unfolding connects_def by (rule rtranclp_trans)

lemma connects_edge: "edge cfg a b \<Longrightarrow> b \<in> X \<Longrightarrow> connects cfg X a b"
  unfolding connects_def by blast

lemma connects_mono: "connects cfg X a b \<Longrightarrow> X \<subseteq> Y \<Longrightarrow> connects cfg Y a b"
  unfolding connects_def by (erule mono_rtranclp [rule_format, rotated]) blast

lemma connects_reaches: "connects cfg X a b \<Longrightarrow> reaches cfg a b"
  unfolding connects_def by (erule mono_rtranclp [rule_format, rotated]) blast

text \<open>The output is extended, blocks are added, and every recorded block is reached from a root or from
  a block that was recorded before.\<close>

definition spreads :: "control_flow_graph \<Rightarrow> usize set \<Rightarrow> emitter \<Rightarrow> emitter \<Rightarrow> bool" where
  "spreads cfg S em em' \<longleftrightarrow> prefix (out em) (out em') \<and> emitted em \<subseteq> emitted em' \<and>
     (\<forall>n \<in> emitted em'. \<exists>s \<in> S \<union> emitted em. connects cfg (emitted em') s n)"

definition frames :: "emitter \<Rightarrow> emitter \<Rightarrow> bool" where
  "frames em em' \<longleftrightarrow> prefix (out em) (out em') \<and> emitted em' = emitted em"

lemma frames_refl [simp]: "frames em em"
  by (simp add: frames_def)

lemma frames_trans: "frames a b \<Longrightarrow> frames b c \<Longrightarrow> frames a c"
  by (auto simp: frames_def intro: prefix_order.trans)

lemma frames_spreads: "frames em em' \<Longrightarrow> spreads cfg S em em'"
  unfolding frames_def spreads_def by (metis UnCI connects_refl order_refl)

lemma spreads_refl [simp]: "spreads cfg S em em"
  by (simp add: frames_spreads)

lemma spreads_trans:
  assumes "spreads cfg S a b" "spreads cfg S b c"
  shows "spreads cfg S a c"
  unfolding spreads_def
proof (intro conjI ballI)
  show "prefix (out a) (out c)" "emitted a \<subseteq> emitted c"
    using assms by (auto simp: spreads_def intro: prefix_order.trans)
  fix n assume "n \<in> emitted c"
  then obtain s where s: "s \<in> S \<union> emitted b" "connects cfg (emitted c) s n" using assms(2) by (auto simp: spreads_def)
  show "\<exists>s \<in> S \<union> emitted a. connects cfg (emitted c) s n"
  proof (cases "s \<in> S")
    case False
    then obtain r where "r \<in> S \<union> emitted a" "connects cfg (emitted b) r s"
      using s(1) assms(1) by (auto simp: spreads_def)
    moreover have "emitted b \<subseteq> emitted c" using assms(2) by (simp add: spreads_def)
    ultimately show ?thesis using s(2) connects_mono connects_trans by metis
  qed (use s(2) in blast)
qed

lemma spreads_mono: "spreads cfg S a b \<Longrightarrow> S \<subseteq> T \<Longrightarrow> spreads cfg T a b"
  unfolding spreads_def by blast

lemma spreads_frame: "spreads cfg S a b \<Longrightarrow> frames b c \<Longrightarrow> spreads cfg S a c"
  by (meson frames_spreads spreads_trans)

lemma frame_spreads: "frames a b \<Longrightarrow> spreads cfg S b c \<Longrightarrow> spreads cfg S a c"
  by (meson frames_spreads spreads_trans)

text \<open>Roots that were recorded and are reached from other roots are not needed.\<close>

lemma spreads_roots:
  assumes "spreads cfg T a b" "\<And>t. t \<in> T \<Longrightarrow> \<exists>s \<in> S \<union> emitted a. connects cfg (emitted b) s t"
  shows "spreads cfg S a b"
  using assms unfolding spreads_def by (metis UnCI UnE connects_trans)

lemma spreads_mark:
  assumes "\<And>p. p \<in> set ps \<Longrightarrow> \<exists>s \<in> S \<union> emitted em. connects cfg (set ps \<union> emitted em) s p"
  shows "spreads cfg S em (mark ps em)"
  unfolding spreads_def mark_def using assms by auto (metis UnCI connects_refl)

lemma emitted_mark [simp]: "emitted (mark ps em) = set ps \<union> emitted em" "out (mark ps em) = out em"
  by (simp_all add: mark_def)

lemma spreads_emitted: "spreads cfg S a b \<Longrightarrow> n \<in> emitted a \<Longrightarrow> n \<in> emitted b"
  by (auto simp: spreads_def)


section \<open>Operations that only print\<close>

lemma frames_write_line [simp]: "frames em (write_line t em)"
  by (simp add: frames_def write_line_def)

lemma frames_declared [simp]: "frames em (em\<lparr>declared := d\<rparr>)"
  by (simp add: frames_def)

lemma frames_write_option [simp]: "frames em (write_option p t em)"
  by (cases t) (simp_all add: write_option_def)

lemma frames_write_label [simp]: "frames em (write_label env pc em)"
  by (simp add: write_label_def split: option.split)

lemma frames_write_plain_label [simp]: "frames em (write_plain_label env i pc em)"
  by (simp add: write_plain_label_def split: option.split)

lemma frames_fold: "(\<And>x em. x \<in> set xs \<Longrightarrow> frames em (f x em)) \<Longrightarrow> frames em (fold f xs em)"
proof (induction xs arbitrary: em)
  case (Cons x xs)
  have "frames em (f x em)" "frames (f x em) (fold f xs (f x em))" using Cons by simp_all
  then show ?case using frames_trans by simp
qed simp

lemma frames_emit_instruction: "frames (fst acc) (fst (emit_instruction env pre ft b pi acc))"
proof (cases acc)
  case (Pair em regs)
  have "frames em (write_line t (em\<lparr>declared := d\<rparr>))" for t d
    by (rule frames_trans [OF frames_declared frames_write_line])
  then show ?thesis using Pair
    by (simp add: emit_instruction_def Let_def case_prod_beta split: option.split)
qed

lemma frames_emit_instructions: "frames (fst acc) (fst (fold (emit_instruction env pre ft b) pis acc))"
proof (induction pis arbitrary: acc)
  case (Cons pi pis)
  then show ?case using frames_trans [OF frames_emit_instruction [of acc env pre ft b pi]] by simp
qed simp

lemma frames_emit_block_body_with_fallthrough [simp]:
  "frames em (emit_block_body_with_fallthrough env pc indent skip ft em)"
proof (cases "is_suppressed env pc")
  case True
  then show ?thesis by (simp add: emit_block_body_with_fallthrough_def)
next
  case False
  define start where "start = write_line (indentation indent @ ''// @'' @ show_hex4 pc) em"
  define instrs where "instrs = (case get_block (e_cfg env) pc of None \<Rightarrow> []
    | Some b \<Rightarrow> if skip then butlast (block_instrs b) else block_instrs b)"
  define em2 where "em2 = write_option (indentation indent) (epilogue_text env pc)
    (write_option (indentation indent) (heap_alloc_text env pc)
      (fst (fold (emit_instruction env (indentation indent) ft pc) instrs (start, Map.empty))))"
  have "frames em start" by (simp add: start_def)
  also have "frames start (fst (fold (emit_instruction env (indentation indent) ft pc) instrs (start, Map.empty)))"
    using frames_emit_instructions [of "(start, Map.empty)"] by simp
  finally (frames_trans) have "frames em em2"
    unfolding em2_def by (meson frames_trans frames_write_option)
  then have e: "prefix (out em) (out em2)" "emitted em2 = emitted em" by (simp_all add: frames_def)
  have "emit_block_body_with_fallthrough env pc indent skip ft em =
      (if list_all is_space (drop (length (out start)) (out em2)) then em2\<lparr>out := take (length (out em)) (out em2)\<rparr>
       else em2\<lparr>out := out em2 @ [line_feed]\<rparr>)"
    using False by (simp add: emit_block_body_with_fallthrough_def Let_def em2_def start_def instrs_def)
  moreover have "take (length (out em)) (out em2) = out em" using e(1) by (metis append_eq_conv_conj prefixE)
  ultimately show ?thesis using e by (auto simp: frames_def intro: prefix_order.trans)
qed

lemma frames_emit_block_body [simp]: "frames em (emit_block_body env pc indent skip em)"
  by (simp add: emit_block_body_def)

lemma frames_loop_control [simp]:
  "frames em (snd (emit_block_with_loop_control_and_fallthrough env pc indent lc ft em))"
  "frames em (snd (emit_block_with_loop_control env pc indent lc em))"
  by (simp_all add: emit_block_with_loop_control_def emit_block_with_loop_control_and_fallthrough_def split: option.split)

lemma frames_switch_variable [simp]: "frames em (snd (switch_variable env h reg pre em))"
proof -
  have "frames em (write_line t (em\<lparr>declared := d\<rparr>))" for t d
    by (rule frames_trans [OF frames_declared frames_write_line])
  then show ?thesis by (simp add: switch_variable_def split: option.split prod.split)
qed


text \<open>The blocks an operation may record.\<close>

definition adds :: "usize set \<Rightarrow> emitter \<Rightarrow> emitter \<Rightarrow> bool" where
  "adds X em em' \<longleftrightarrow> prefix (out em) (out em') \<and> emitted em \<subseteq> emitted em' \<and> emitted em' \<subseteq> X \<union> emitted em"

lemma frames_adds: "frames em em' \<Longrightarrow> adds X em em'"
  by (auto simp: frames_def adds_def)

lemma adds_trans: "adds X a b \<Longrightarrow> adds X b c \<Longrightarrow> adds X a c"
  by (auto simp: adds_def intro: prefix_order.trans)

lemma adds_mono: "adds X a b \<Longrightarrow> X \<subseteq> Y \<Longrightarrow> adds Y a b"
  by (auto simp: adds_def)

lemma adds_mark: "set ps \<subseteq> X \<Longrightarrow> adds X em (mark ps em)"
  by (auto simp: adds_def)

lemma adds_fold: "(\<And>x em. x \<in> set xs \<Longrightarrow> adds X em (f x em)) \<Longrightarrow> adds X em (fold f xs em)"
proof (induction xs arbitrary: em)
  case (Cons x xs)
  have "adds X em (f x em)" "adds X (f x em) (fold f xs (f x em))" using Cons by simp_all
  then show ?case using adds_trans by simp
qed (simp add: frames_adds)

lemma adds_emit_case_blocks: "set bs \<subseteq> X \<Longrightarrow> adds X em (snd (emit_case_blocks env indent lc bs em))"
proof (induction bs arbitrary: em)
  case (Cons b bs)
  obtain kw em1 where e: "emit_block_with_loop_control env b indent lc em = (kw, em1)" by fastforce
  then have f: "frames em em1" using frames_loop_control(2) [of em env b indent lc] by simp
  show ?case
  proof (cases kw)
    case None
    have "adds X em (mark [b] em1)" using f Cons.prems by (intro adds_trans [OF frames_adds adds_mark]) simp_all
    moreover have "adds X (mark [b] em1) (snd (emit_case_blocks env indent lc bs (mark [b] em1)))"
      using Cons by simp
    ultimately show ?thesis using e None adds_trans by simp
  next
    case (Some k)
    have "adds X em (mark [b] (write_line t em1))" for t
      using f Cons.prems by (intro adds_trans [OF frames_adds adds_mark] frames_trans [OF f frames_write_line]) simp_all
    then show ?thesis using e Some by simp
  qed
qed (simp add: frames_adds)

lemma adds_emit_case: "set bs \<subseteq> X \<Longrightarrow> adds X em (emit_case env indent lc bs em)"
proof -
  assume "set bs \<subseteq> X"
  then have "adds X em (snd (emit_case_blocks env (indent + 2) lc bs em))" by (rule adds_emit_case_blocks)
  then show ?thesis
    by (auto simp: emit_case_def case_prod_beta Let_def intro: adds_trans [OF _ frames_adds])
qed

definition switch_blocks :: "collected_switch \<Rightarrow> usize set" where
  "switch_blocks sw = (\<Union>(v, bs, h) \<in> set (sw_cases sw). insert h (set bs)) \<union>
     (case default_blocks sw of Some bs \<Rightarrow> set bs | None \<Rightarrow> {}) \<union> set (header_pcs sw) \<union> set (chain_header_pcs sw)"

lemma adds_emit_recovered_switch:
  "adds (switch_blocks sw) em (emit_recovered_switch env sw indent lc em)"
  "set (chain_header_pcs sw) \<subseteq> emitted (emit_recovered_switch env sw indent lc em)"
proof -
  let ?X = "switch_blocks sw"
  define em1 where "em1 = emit_block_body env (snd (snd (sw_cases sw ! 0))) indent True em"
  define em2 where "em2 = snd (switch_variable env (snd (snd (sw_cases sw ! 0))) (sw_reg sw) (indentation indent) em1)"
  define name where "name = fst (switch_variable env (snd (snd (sw_cases sw ! 0))) (sw_reg sw) (indentation indent) em1)"
  define em3 where "em3 = write_line (indentation indent @ ''switch ('' @ apply_aliases name (var_aliases (e_plan env)) @ '') {'') em2"
  define case_of where "case_of = (\<lambda>(v :: i32, bs, h) em. emit_case env indent lc bs
    (mark [h] (write_line (indentation (indent + 1) @ ''case '' @ show_i32 v @ '':'') em)))"
  define em4 where "em4 = fold case_of (sw_cases sw) em3"
  define em5 where "em5 = (case default_blocks sw of
      Some bs \<Rightarrow> emit_case env indent lc bs (write_line (indentation (indent + 1) @ ''default:'') em4) | None \<Rightarrow> em4)"
  have result: "emit_recovered_switch env sw indent lc em
      = mark (header_pcs sw @ chain_header_pcs sw) (write_line (indentation indent @ ''}'') em5)"
    unfolding emit_recovered_switch_def Let_def em5_def em4_def em3_def em2_def em1_def name_def case_of_def case_prod_unfold
    by (rule refl)
  have "frames em em3" unfolding em3_def em2_def em1_def
    by (meson frames_emit_block_body frames_switch_variable frames_trans frames_write_line)
  then have 3: "adds ?X em em3" by (rule frames_adds)
  have "adds ?X e (case_of x e)" if "x \<in> set (sw_cases sw)" for x e
  proof -
    obtain v bs h where x: "x = (v, bs, h)" by (cases x)
    then have sub: "set bs \<subseteq> ?X" "set [h] \<subseteq> ?X" using that by (auto simp: switch_blocks_def)
    show ?thesis unfolding x case_of_def prod.case
      by (rule adds_trans [OF frames_adds [OF frames_write_line] adds_trans [OF adds_mark adds_emit_case]]) (use sub in simp_all)
  qed
  then have 4: "adds ?X em3 em4" unfolding em4_def by (rule adds_fold)
  have 5: "adds ?X em4 em5"
  proof (cases "default_blocks sw")
    case None
    then show ?thesis by (simp add: em5_def frames_adds)
  next
    case (Some bs)
    then have sub: "set bs \<subseteq> ?X" by (auto simp: switch_blocks_def)
    have "adds ?X em4 (emit_case env indent lc bs (write_line t em4))" for t
      by (rule adds_trans [OF frames_adds [OF frames_write_line] adds_emit_case [OF sub]])
    then show ?thesis by (simp add: em5_def Some)
  qed
  have "set (header_pcs sw @ chain_header_pcs sw) \<subseteq> ?X" by (auto simp: switch_blocks_def)
  then have "adds ?X em5 (emit_recovered_switch env sw indent lc em)"
    unfolding result by (intro adds_trans [OF frames_adds [OF frames_write_line] adds_mark])
  with 3 4 5 show "adds ?X em (emit_recovered_switch env sw indent lc em)" by (meson adds_trans)
  show "set (chain_header_pcs sw) \<subseteq> emitted (emit_recovered_switch env sw indent lc em)" by (auto simp: result)
qed


section \<open>Graphs with their structures\<close>

locale structured_graph = flow_graph cfg for cfg :: control_flow_graph +
  fixes env :: emit_env
  assumes env_graph: "e_cfg env = cfg"
    and env_reachable: "e_reachable env = {b. reachable cfg b}"
    and env_ifs: "e_ifs env h = Some s \<Longrightarrow> \<exists>ts es j c. s = IfThenElse h ts es j c \<and> reachable cfg h \<and>
      (\<forall>b \<in> set ts \<union> set es. edge cfg h b \<and> \<not> on_every_walk cfg b h)"
    and env_loops: "e_loops env h = Some s \<Longrightarrow> \<exists>l body c. s = Loop h l body c \<and> finite body \<and> h \<in> body \<and>
      (\<forall>n \<in> body. connects cfg body h n \<and> (n = h \<or> reachable cfg n \<and> on_every_walk cfg h n))"
    and env_plans: "loop_plans (e_plan env) h = Some plan \<Longrightarrow> e_loops env h = Some (Loop h l body c) \<Longrightarrow>
      set (body_order plan) \<subseteq> body"
begin

lemma if_branches_edges:
  assumes "e_ifs env h = Some (IfThenElse h' ts es j c)" "b \<in> set ts \<union> set es"
  shows "h' = h" "edge cfg h b" "\<not> on_every_walk cfg b h" "reachable cfg h"
  using env_ifs [OF assms(1)] assms(2) by auto

text \<open>What the walk along a chain of conditionals has seen is a path.\<close>

definition chain_ok :: "usize \<Rightarrow> usize \<Rightarrow> chain \<Rightarrow> bool" where
  "chain_ok start current ch \<longleftrightarrow>
     (chain_seen_headers ch = [] \<and> current = start \<and> chain_reg ch = None \<or>
      start \<in> set (chain_seen_headers ch) \<and> (\<exists>x \<in> set (chain_seen_headers ch). edge cfg x current)) \<and>
     set (chain_headers ch) \<subseteq> set (chain_seen_headers ch) \<and>
     (\<forall>x \<in> set (chain_seen_headers ch). connects cfg (set (chain_seen_headers ch)) start x) \<and>
     (\<forall>(v, bs, h) \<in> set (chain_cases ch). h \<in> set (chain_seen_headers ch) \<and> (\<forall>b \<in> set bs. edge cfg h b))"

definition switch_ok :: "usize \<Rightarrow> collected_switch \<Rightarrow> bool" where
  "switch_ok start sw \<longleftrightarrow> start \<in> set (chain_header_pcs sw) \<and>
     (\<forall>x \<in> set (chain_header_pcs sw). connects cfg (set (chain_header_pcs sw)) start x) \<and>
     (\<forall>x \<in> switch_blocks sw. x \<in> set (chain_header_pcs sw) \<or> (\<exists>h \<in> set (chain_header_pcs sw). edge cfg h x))"

text \<open>Adding a block that the last one of the path goes to.\<close>

lemma path_extended:
  assumes "x \<in> set xs" "edge cfg x y" "\<forall>z \<in> set xs. connects cfg (set xs) start z"
  shows "\<forall>z \<in> set (xs @ [y]). connects cfg (set (xs @ [y])) start z"
proof
  fix z assume z: "z \<in> set (xs @ [y])"
  have mono: "connects cfg (set (xs @ [y])) start w" if "w \<in> set xs" for w
    using assms(3) that connects_mono [of cfg "set xs" start w "set (xs @ [y])"] by auto
  show "connects cfg (set (xs @ [y])) start z"
  proof (cases "z \<in> set xs")
    case False
    then have "z = y" using z by simp
    then show ?thesis using connects_trans [OF mono [OF assms(1)] connects_edge [OF assms(2)]] by simp
  qed (rule mono)
qed

lemma extend_chain_ok:
  assumes ok: "chain_ok start h ch" and edges: "\<forall>b \<in> set ts. edge cfg h b"
  shows "let ch' = extend_chain imm reg ts h ch; seen = set (chain_seen_headers ch') in
     chain_reg ch' = Some reg \<and> start \<in> seen \<and> h \<in> seen \<and> set (chain_headers ch') \<subseteq> seen \<and>
     (\<forall>x \<in> seen. connects cfg seen start x) \<and>
     (\<forall>(v, bs, h) \<in> set (chain_cases ch'). h \<in> seen \<and> (\<forall>b \<in> set bs. edge cfg h b))"
proof -
  let ?ch' = "extend_chain imm reg ts h ch"
  have seen: "chain_seen_headers ?ch' = chain_seen_headers ch @ [h]" by (simp add: extend_chain_def Let_def)
  have "\<forall>x \<in> set (chain_seen_headers ch @ [h]). connects cfg (set (chain_seen_headers ch @ [h])) start x"
  proof (cases "chain_seen_headers ch = []")
    case True
    then show ?thesis using ok by (auto simp: chain_ok_def)
  next
    case False
    then obtain x where "x \<in> set (chain_seen_headers ch)" "edge cfg x h" using ok by (auto simp: chain_ok_def)
    then show ?thesis using path_extended [of x "chain_seen_headers ch" h start] ok by (auto simp: chain_ok_def)
  qed
  moreover have "start \<in> set (chain_seen_headers ch @ [h])" using ok by (auto simp: chain_ok_def)
  moreover have "chain_reg ?ch' = Some reg" by (simp add: extend_chain_def Let_def)
  moreover have "set (chain_headers ?ch') \<subseteq> set (chain_seen_headers ch @ [h])"
    using ok by (auto simp: chain_ok_def extend_chain_def Let_def)
  moreover have "\<forall>(v, bs, h') \<in> set (chain_cases ?ch'). h' \<in> set (chain_seen_headers ch @ [h]) \<and> (\<forall>b \<in> set bs. edge cfg h' b)"
    using ok edges by (auto simp: chain_ok_def extend_chain_def Let_def split: if_splits)
  ultimately show ?thesis unfolding Let_def seen by simp
qed

lemma finish_chain_ok:
  assumes "finish_chain ch dflt = Some sw" "start \<in> set (chain_seen_headers ch)"
    and "set (chain_headers ch) \<subseteq> set (chain_seen_headers ch)"
    and "\<forall>x \<in> set (chain_seen_headers ch). connects cfg (set (chain_seen_headers ch)) start x"
    and "\<forall>(v, bs, h) \<in> set (chain_cases ch). h \<in> set (chain_seen_headers ch) \<and> (\<forall>b \<in> set bs. edge cfg h b)"
    and "\<And>bs. dflt = Some bs \<Longrightarrow> set bs \<subseteq> set (chain_seen_headers ch)"
  shows "switch_ok start sw"
proof -
  have sw: "chain_header_pcs sw = chain_seen_headers ch" "header_pcs sw = chain_headers ch" "sw_cases sw = chain_cases ch"
    "default_blocks sw = dflt"
    using assms(1) by (auto simp: finish_chain_def split: if_splits)
  show ?thesis unfolding switch_ok_def
  proof (intro conjI ballI)
    show "start \<in> set (chain_header_pcs sw)" using assms(2) sw by simp
    show "connects cfg (set (chain_header_pcs sw)) start x" if "x \<in> set (chain_header_pcs sw)" for x
      using assms(4) sw that by simp
    show "x \<in> set (chain_header_pcs sw) \<or> (\<exists>h \<in> set (chain_header_pcs sw). edge cfg h x)" if m: "x \<in> switch_blocks sw" for x
    proof -
      consider v bs h where "(v, bs, h) \<in> set (chain_cases ch)" "x = h \<or> x \<in> set bs" | "x \<in> set (chain_seen_headers ch)"
        using m assms(3,6) unfolding switch_blocks_def sw by (auto split: option.splits)
      then show ?thesis
      proof cases
        case 1
        then have "h \<in> set (chain_seen_headers ch)" "\<forall>b \<in> set bs. edge cfg h b" using assms(5) by auto
        then show ?thesis using 1(2) unfolding sw by blast
      qed (simp add: sw)
    qed
  qed
qed

lemma chain_step_other:
  assumes "\<nexists>h ts es j c. e_ifs env current = Some (IfThenElse h ts es j (Some c))"
  shows "chain_step env current ch = Complete (finish_chain ch None)"
proof (cases "e_ifs env current")
  case (Some s)
  show ?thesis
  proof (cases s)
    case (IfThenElse h ts es j c)
    then have "c = None" using assms Some by (cases c) auto
    then show ?thesis using Some IfThenElse by (simp add: chain_step_def)
  qed (simp_all add: chain_step_def Some)
qed (simp add: chain_step_def)

lemma chain_step_if:
  assumes "e_ifs env current = Some (IfThenElse h ts es j (Some c))" "equality_test c = Some (reg, imm)"
    and "chain_step env current ch \<noteq> NoSwitch"
  shows "chain_step env current ch = (let ch = extend_chain imm reg ts h ch in
    case es of [e] \<Rightarrow>
        if e_ifs env e \<noteq> None then ContinueAt e ch
        else Complete (finish_chain (ch\<lparr>chain_headers := chain_headers ch @ [e],
                 chain_seen_headers := chain_seen_headers ch @ [e]\<rparr>) (Some es))
    | _ \<Rightarrow> Complete (finish_chain ch None))"
  using assms(3) unfolding chain_step_def assms(1) option.case cf_structure.case assms(2) prod.case
  by (simp split: if_split_asm)

lemma chain_step_test:
  assumes "e_ifs env current = Some (IfThenElse h ts es j (Some c))" "chain_step env current ch \<noteq> NoSwitch"
  obtains reg imm where "equality_test c = Some (reg, imm)"
  using assms by (cases "equality_test c") (auto simp: chain_step_def)

lemma chain_step_ok:
  assumes ok: "chain_ok start current ch"
  shows "chain_step env current ch = Complete (Some sw) \<Longrightarrow> switch_ok start sw"
    "chain_step env current ch = ContinueAt nxt ch' \<Longrightarrow> chain_ok start nxt ch' \<and> (\<exists>h' ts es j c.
       e_ifs env current = Some (IfThenElse h' ts es j c) \<and> nxt \<in> set es \<and> e_ifs env nxt \<noteq> None)"
proof -
  have none: "switch_ok start sw" if "finish_chain ch None = Some sw"
  proof -
    have "chain_reg ch \<noteq> None" using that by (auto simp: finish_chain_def split: if_splits)
    then show ?thesis using ok finish_chain_ok [OF that, of start] by (auto simp: chain_ok_def)
  qed
  show "chain_step env current ch = Complete (Some sw) \<Longrightarrow> switch_ok start sw"
  proof -
    assume step: "chain_step env current ch = Complete (Some sw)"
    show ?thesis
    proof (cases "\<exists>h ts es j c. e_ifs env current = Some (IfThenElse h ts es j (Some c))")
      case False
      then have "finish_chain ch None = Some sw" using step chain_step_other by simp
      then show ?thesis by (rule none)
    next
      case True
      then obtain h ts es j c where i: "e_ifs env current = Some (IfThenElse h ts es j (Some c))" by blast
      note branch = if_branches_edges [OF i]
      obtain reg imm where t: "equality_test c = Some (reg, imm)" by (rule chain_step_test [OF i, of ch]) (use step in simp)
      let ?ch' = "extend_chain imm reg ts h ch"
      have h: "h = current" using env_ifs [OF i] by auto
      have ext: "start \<in> set (chain_seen_headers ?ch')" "h \<in> set (chain_seen_headers ?ch')"
          "set (chain_headers ?ch') \<subseteq> set (chain_seen_headers ?ch')"
          "\<forall>x \<in> set (chain_seen_headers ?ch'). connects cfg (set (chain_seen_headers ?ch')) start x"
          "\<forall>(v, bs, h) \<in> set (chain_cases ?ch'). h \<in> set (chain_seen_headers ?ch') \<and> (\<forall>b \<in> set bs. edge cfg h b)"
        using extend_chain_ok [OF ok, of ts imm reg] branch(2) h unfolding Let_def by blast+
      consider "finish_chain ?ch' None = Some sw"
        | e where "es = [e]" "finish_chain (?ch'\<lparr>chain_headers := chain_headers ?ch' @ [e],
            chain_seen_headers := chain_seen_headers ?ch' @ [e]\<rparr>) (Some [e]) = Some sw"
        using step chain_step_if [OF i t, of ch] by (auto simp: Let_def split: if_splits list.splits)
      then show ?thesis
      proof cases
        case 1
        from finish_chain_ok [OF 1 ext(1,3,4,5)] show ?thesis by simp
      next
        case 2
        have "edge cfg h e" using branch(2) 2(1) h by simp
        note path = path_extended [OF ext(2) this ext(4)]
        show ?thesis by (rule finish_chain_ok [OF 2(2)]) (use ext path in \<open>auto simp: case_prod_beta\<close>)
      qed
    qed
  qed
  assume step: "chain_step env current ch = ContinueAt nxt ch'"
  then obtain h ts es j c where i: "e_ifs env current = Some (IfThenElse h ts es j (Some c))"
    using chain_step_other [of current ch] by fastforce
  note branch = if_branches_edges [OF i]
  obtain reg imm where t: "equality_test c = Some (reg, imm)" by (rule chain_step_test [OF i, of ch]) (use step in simp)
  have h: "h = current" using env_ifs [OF i] by auto
  have e: "es = [nxt]" "e_ifs env nxt \<noteq> None" "ch' = extend_chain imm reg ts h ch"
    using step chain_step_if [OF i t, of ch] by (auto simp: Let_def split: if_splits list.splits)
  have "chain_ok start nxt ch'" using extend_chain_ok [OF ok, of ts imm reg] branch(2) h e
    unfolding Let_def chain_ok_def by auto
  then show "chain_ok start nxt ch' \<and> (\<exists>h' ts es j c.
       e_ifs env current = Some (IfThenElse h' ts es j c) \<and> nxt \<in> set es \<and> e_ifs env nxt \<noteq> None)"
    using i e by auto
qed

lemma walk_chain_ok: "chain_ok start current ch \<Longrightarrow> walk_chain n env current ch = Some (Some sw) \<Longrightarrow> switch_ok start sw"
proof (induction n arbitrary: current ch)
  case (Suc n)
  then show ?case using chain_step_ok [OF Suc.prems(1)] by (auto split: chain_move.splits)
qed simp

lemma collected_switch_ok: "try_collect_switch_cases n env b = Some (Some sw) \<Longrightarrow> switch_ok b sw"
  unfolding try_collect_switch_cases_def
  by (rule walk_chain_ok [of b b]) (simp_all add: chain_ok_def empty_chain_def)

lemma spreads_recovered_switch:
  assumes "switch_ok b sw"
  shows "spreads cfg {b} em (emit_recovered_switch env sw indent lc em)" "b \<in> emitted (emit_recovered_switch env sw indent lc em)"
proof -
  let ?em' = "emit_recovered_switch env sw indent lc em"
  have a: "adds (switch_blocks sw) em ?em'" and m: "set (chain_header_pcs sw) \<subseteq> emitted ?em'"
    by (rule adds_emit_recovered_switch)+
  then show "b \<in> emitted ?em'" using assms by (auto simp: switch_ok_def)
  have chain: "connects cfg (emitted ?em') b x" if "x \<in> set (chain_header_pcs sw)" for x
    using assms that connects_mono [OF _ m] by (auto simp: switch_ok_def)
  have "\<exists>s \<in> {b} \<union> emitted em. connects cfg (emitted ?em') s n" if n: "n \<in> emitted ?em'" for n
  proof (cases "n \<in> emitted em")
    case False
    then have "n \<in> switch_blocks sw" using a n by (auto simp: adds_def)
    then consider "n \<in> set (chain_header_pcs sw)" | h where "h \<in> set (chain_header_pcs sw)" "edge cfg h n"
      using assms by (auto simp: switch_ok_def)
    then have "connects cfg (emitted ?em') b n"
    proof cases
      case 2
      then show ?thesis using connects_trans [OF chain connects_edge [of cfg h n]] n by blast
    qed (rule chain)
    then show ?thesis by blast
  qed (use connects_refl in blast)
  then show "spreads cfg {b} em ?em'" using a by (auto simp: spreads_def adds_def)
qed


section \<open>Conditionals and loops\<close>

lemma spreads_child:
  assumes "spreads cfg {b} em em1" "edge cfg h b" "frames em1 em2"
  shows "spreads cfg {h} em (mark [b] em2)"
proof (rule spreads_roots)
  have "spreads cfg {b} em2 (mark [b] em2)" by (rule spreads_mark) (use connects_refl in auto)
  then show "spreads cfg {b} em (mark [b] em2)" using assms(1,3) spreads_frame spreads_trans by blast
  show "\<exists>s \<in> {h} \<union> emitted em. connects cfg (emitted (mark [b] em2)) s t" if "t \<in> {b}" for t
    using that connects_edge [OF assms(2), of "emitted (mark [b] em2)"] by auto
qed

lemma spreads_emit_branch:
  assumes "\<And>b em x em'. b \<in> set bs \<Longrightarrow> emit b em = Some (x, em') \<Longrightarrow> spreads cfg {b} em em'"
    and "\<And>b. b \<in> set bs \<Longrightarrow> edge cfg h b"
  shows "emit_branch emit pre bs em = Some em' \<Longrightarrow> spreads cfg {h} em em'"
  using assms
proof (induction bs arbitrary: em)
  case (Cons b bs)
  obtain kw em1 where e: "emit b em = Some (kw, em1)" using Cons.prems(1) by (cases "emit b em") auto
  have b: "spreads cfg {b} em em1" "edge cfg h b" using Cons.prems(2) [OF _ e] Cons.prems(3) by simp_all
  show ?case
  proof (cases kw)
    case None
    then have "emit_branch emit pre bs (mark [b] em1) = Some em'" using Cons.prems(1) e by simp
    then have "spreads cfg {h} (mark [b] em1) em'" by (rule Cons.IH) (use Cons.prems in auto)
    then show ?thesis using spreads_child [OF b frames_refl] spreads_trans by blast
  next
    case (Some k)
    then have "em' = mark [b] (write_line (pre @ k) em1)" using Cons.prems(1) e by simp
    then show ?thesis using spreads_child [OF b frames_write_line] by simp
  qed
qed simp

lemma spreads_out:
  assumes "spreads cfg S em em'" "prefix (out em) t"
  shows "spreads cfg S em (em'\<lparr>out := t\<rparr>)"
  using assms by (simp add: spreads_def)

lemma take_prefix: "prefix (a :: 'a list) b \<Longrightarrow> take (length a) b = a"
  by (metis append_eq_conv_conj prefixE)

lemma spreads_marked_sides:
  "(\<And>b. b \<in> set bs \<Longrightarrow> edge cfg h b) \<Longrightarrow> spreads cfg {h} em (mark bs em)"
  by (rule spreads_mark) (use connects_edge [of cfg h] in fastforce)

lemma spreads_emit_then:
  assumes "\<And>em em'. branch ts em = Some em' \<Longrightarrow> spreads cfg {h} em em'" "\<And>b. b \<in> set ts \<Longrightarrow> edge cfg h b"
  shows "emit_then env branch h ts lc em = Some (x, em') \<Longrightarrow> spreads cfg {h} em em'"
  using assms spreads_marked_sides [of ts h em] by (auto simp: emit_then_def split: if_splits)

lemma spreads_emit_else:
  assumes branch: "\<And>em em'. branch es em = Some em' \<Longrightarrow> spreads cfg {h} em em'" and edges: "\<And>b. b \<in> set es \<Longrightarrow> edge cfg h b"
    and e: "emit_else env branch h es pre lc em = Some (x, em')"
  shows "spreads cfg {h} em em'"
proof -
  consider (empty) "es = []" | (skipped) "es \<noteq> []" "lc = None \<and> h \<in> empty_else_if_headers_no_loop (e_plan env)"
    | (full) "es \<noteq> []" "\<not> (lc = None \<and> h \<in> empty_else_if_headers_no_loop (e_plan env))" by blast
  then show ?thesis
  proof cases
    case empty
    then show ?thesis using e by (simp add: emit_else_def)
  next
    case skipped
    then have "em' = mark es em" using e by (simp add: emit_else_def)
    then show ?thesis using spreads_marked_sides [OF edges] by simp
  next
    case full
    then obtain em1 where b: "branch es em = Some em1" and em': "em' = (if length (out em) < length (out em1)
        then em1\<lparr>out := take (length (out em)) (out em1) @ pre @ ''} else {'' @ [line_feed] @ drop (length (out em)) (out em1)\<rparr>
        else em1)"
      using e by (cases "branch es em") (auto simp add: emit_else_def Let_def)
    have s: "spreads cfg {h} em em1" by (rule branch [OF b])
    then have "prefix (out em) (out em1)" by (simp add: spreads_def)
    then have "spreads cfg {h} em (em1\<lparr>out := take (length (out em)) (out em1) @ t\<rparr>)" for t
      by (intro spreads_out [OF s]) (simp add: take_prefix)
    then show ?thesis using s unfolding em' by simp
  qed
qed

lemma spreads_header: "spreads cfg {h} em em1 \<Longrightarrow> spreads cfg {h} em (mark [h] em1)"
  by (rule spreads_trans [OF _ spreads_mark]) (use connects_refl in auto)

lemma spreads_emit_if_with:
  assumes branch: "\<And>bs em em'. (\<And>b. b \<in> set bs \<Longrightarrow> edge cfg h b) \<Longrightarrow> branch bs em = Some em' \<Longrightarrow> spreads cfg {h} em em'"
    and edges: "\<And>b. b \<in> set ts \<union> set es \<Longrightarrow> edge cfg h b"
    and e: "emit_if_with env branch h ts es c indent lc em = Some em'"
  shows "spreads cfg {h} em em' \<and> h \<in> emitted em'"
proof -
  let ?b = "emit_block_body env h indent True em"
  have short: "spreads cfg {h} em (mark (ts @ es @ [h]) ?b)"
  proof (rule frame_spreads [OF frames_emit_block_body spreads_mark])
    fix p assume "p \<in> set (ts @ es @ [h])"
    then consider "p = h" | "edge cfg h p" using edges by auto
    then show "\<exists>s \<in> {h} \<union> emitted ?b. connects cfg (set (ts @ es @ [h]) \<union> emitted ?b) s p"
      using \<open>p \<in> _\<close> connects_edge [of cfg h p] by cases auto
  qed
  show ?thesis
  proof (cases "h \<in> fully_suppressed_if_headers (e_plan env) \<or> lc = None \<and> h \<in> force_empty_if_headers_no_loop (e_plan env)")
    case True
    then have "em' = mark (ts @ es @ [h]) ?b" using e by (simp only: emit_if_with_def if_True option.inject)
    then show ?thesis using short by simp
  next
    case False
    let ?w = "write_line (indentation indent @ ''if ('' @ shown_condition env h c @ '') {'') ?b"
    note e' = e [unfolded emit_if_with_def Let_def if_not_P [OF False]]
    obtain ht em2 where t: "emit_then env branch h ts lc ?w = Some (ht, em2)" using e' by (auto simp only: bind_eq_Some_conv)
    then obtain he em3 where el: "emit_else env branch h es (indentation indent) lc em2 = Some (he, em3)"
      using e' by (auto simp only: Option.bind_lunit prod.case map_option_eq_Some)
    have em': "em' = mark [h] (if ht \<or> he then write_line (indentation indent @ ''}'') em3 else em3\<lparr>out := take (length (out ?b)) (out em3)\<rparr>)"
      using e' by (simp only: t el Option.bind_lunit prod.case option.map option.inject)
    have bw: "spreads cfg {h} ?b ?w" by (simp add: frames_spreads)
    have "spreads cfg {h} ?w em2" by (rule spreads_emit_then [OF _ _ t]) (use branch edges in auto)
    moreover have "spreads cfg {h} em2 em3" by (rule spreads_emit_else [OF _ _ el]) (use branch edges in auto)
    ultimately have b3: "spreads cfg {h} ?b em3" using bw spreads_trans by blast
    then have "prefix (out ?b) (out em3)" by (simp add: spreads_def)
    then have "spreads cfg {h} ?b (em3\<lparr>out := take (length (out ?b)) (out em3)\<rparr>)" by (intro spreads_out [OF b3]) (simp add: take_prefix)
    moreover have "spreads cfg {h} ?b (write_line t em3)" for t by (rule spreads_frame [OF b3 frames_write_line])
    ultimately have "spreads cfg {h} ?b em'" unfolding em' by (intro spreads_header) (simp only: if_cancel split: if_split, blast)
    moreover have "h \<in> emitted em'" unfolding em' emitted_mark by simp
    ultimately show ?thesis using frame_spreads [OF frames_emit_block_body] by blast
  qed
qed

lemma ifs_cases:
  obtains (none) "e_ifs env b = None" | (some) ts es j c where "e_ifs env b = Some (IfThenElse b ts es j c)"
  using env_ifs [of b] by (cases "e_ifs env b") blast+

lemma spreads_block_or_inline_if:
  assumes nested: "\<And>ts es j c em em'. e_ifs env b = Some (IfThenElse b ts es j c) \<Longrightarrow> nested b ts es c em = Some em' \<Longrightarrow> spreads cfg {b} em em'"
    and e: "block_or_inline_if nested depth env indent lc b em = Some (kw, em')"
  shows "spreads cfg {b} em em'"
proof (cases b rule: ifs_cases)
  case none
  then show ?thesis using e frames_loop_control(2) [of em env b indent lc]
    by (simp add: block_or_inline_if_def frames_spreads)
next
  case (some ts es j c)
  obtain r where r: "try_collect_switch_cases depth env b = Some r" using e some
    by (auto simp: block_or_inline_if_def bind_eq_Some_conv)
  show ?thesis
  proof (cases r)
    case None
    then have "nested b ts es c em = Some em'" using e some r by (simp add: block_or_inline_if_def)
    then show ?thesis by (rule nested [OF some])
  next
    case (Some sw)
    then have "em' = emit_recovered_switch env sw indent lc em" using e some r by (simp add: block_or_inline_if_def)
    then show ?thesis using spreads_recovered_switch(1) [OF collected_switch_ok [of depth b sw]] r Some by simp
  qed
qed

lemma spreads_emit_if:
  "e_ifs env h = Some (IfThenElse h ts es j c) \<Longrightarrow> emit_if n env h ts es c' indent lc em = Some em' \<Longrightarrow>
   spreads cfg {h} em em' \<and> h \<in> emitted em'"
proof (induction n arbitrary: h ts es j c c' indent em em')
  case (Suc n)
  note branches = if_branches_edges [OF Suc.prems(1)]
  let ?nested = "\<lambda>h tb eb c. emit_if n env h tb eb c (indent + 1) lc"
  have blocks: "spreads cfg {b} em em'" if "block_or_inline_if ?nested n env (indent + 1) lc b em = Some (kw, em')" for b em em' kw
    by (rule spreads_block_or_inline_if [OF _ that]) (use Suc.IH in blast)
  show ?case
  proof (rule spreads_emit_if_with)
    show "emit_if_with env (emit_branch (block_or_inline_if ?nested n env (indent + 1) lc) (indentation (indent + 1)))
        h ts es c' indent lc em = Some em'"
      using Suc.prems(2) by simp
    show "spreads cfg {h} em em'"
      if "\<And>b. b \<in> set bs \<Longrightarrow> edge cfg h b" "emit_branch (block_or_inline_if ?nested n env (indent + 1) lc) (indentation (indent + 1)) bs em = Some em'"
      for bs em em'
      by (rule spreads_emit_branch [OF blocks that(1) that(2)])
  qed (use branches in blast)
qed simp


lemma spreads_mark_roots: "set ps \<subseteq> X \<Longrightarrow> spreads cfg X em (mark ps em)"
  by (rule spreads_mark) (use connects_refl in blast)

lemma loops_cases:
  obtains (none) "e_loops env b = None" | (some) l body c where "e_loops env b = Some (Loop b l body c)" "finite body" "b \<in> body"
      "\<And>n. n \<in> body \<Longrightarrow> connects cfg body b n" "\<And>n. n \<in> body \<Longrightarrow> n = b \<or> reachable cfg n \<and> on_every_walk cfg b n"
  using env_loops [of b] by (cases "e_loops env b") blast+

lemma spreads_plain_body_block: "b \<in> X \<Longrightarrow> spreads cfg X em (emit_plain_body_block env plan h latch indent b bs em)"
proof -
  assume b: "b \<in> X"
  let ?t = "next_body_block plan h (emitted em) bs"
  obtain kw em1 where lc: "emit_block_with_loop_control_and_fallthrough env b (indent + 1) (Some h) ?t em = (kw, em1)" by fastforce
  then have 1: "frames em em1" using frames_loop_control(1) [of em env b "indent + 1" "Some h" ?t] by simp
  have "frames em (if b = latch \<and> for_loop_map (e_plan env) h \<noteq> None
      then emit_block_body_with_fallthrough env b (indent + 1) True ?t em
      else case (kw, em1) of
        (Some kw, em) \<Rightarrow> if kw = ''continue'' \<and> last_emittable plan = Some b then em else write_line (indentation (indent + 1) @ kw) em
      | (None, em) \<Rightarrow> em)" (is "frames em ?e")
    using 1 frames_trans [OF 1 frames_write_line] by (simp split: option.split)
  then have "spreads cfg X em (mark [b] ?e)" using b by (intro frame_spreads [OF _ spreads_mark_roots]) auto
  then show ?thesis unfolding emit_plain_body_block_def Let_def lc .
qed

lemma spreads_emit_loop_blocks:
  assumes nl: "\<And>b l body c em em'. e_loops env b = Some (Loop b l body c) \<Longrightarrow> nested_loop b (body_nodes body) l c em = Some em' \<Longrightarrow> spreads cfg {b} em em'"
    and ni: "\<And>b ts es j c em em'. e_ifs env b = Some (IfThenElse b ts es j c) \<Longrightarrow> nested_if b ts es c em = Some em' \<Longrightarrow> spreads cfg {b} em em'"
  shows "set bs \<subseteq> X \<Longrightarrow> emit_loop_blocks nested_loop nested_if env plan h latch indent bs em = Some em' \<Longrightarrow> spreads cfg X em em'"
proof (induction bs arbitrary: em)
  case (Cons b bs)
  let ?rest = "emit_loop_blocks nested_loop nested_if env plan h latch indent bs"
  have b: "{b} \<subseteq> X" using Cons.prems(1) by simp
  have go: "spreads cfg X em em'" if "spreads cfg X em em1" "?rest em1 = Some em'" for em1
    using spreads_trans [OF that(1) Cons.IH] Cons.prems(1) that(2) by simp
  consider (over) "b = h \<or> b \<in> emitted em" | (dead) "\<not> (b = h \<or> b \<in> emitted em)" "b \<notin> plan_reachable plan"
    | (live) "\<not> (b = h \<or> b \<in> emitted em)" "b \<in> plan_reachable plan" by blast
  then show ?case
  proof cases
    case over
    then show ?thesis using Cons.prems(2) go [of em] by (simp add: Let_def)
  next
    case dead
    then have "?rest (mark [b] em) = Some em'" using Cons.prems(2) by (simp add: Let_def)
    moreover have "spreads cfg X em (mark [b] em)" by (rule spreads_mark_roots) (use b in simp)
    ultimately show ?thesis using go by blast
  next
    case live
    show ?thesis
    proof (cases b rule: loops_cases)
      case (some l body c)
      then obtain em1 where "nested_loop b (body_nodes body) l c em = Some em1" "?rest em1 = Some em'"
        using Cons.prems(2) live by (auto simp: Let_def bind_eq_Some_conv)
      then show ?thesis using go nl [OF some(1)] spreads_mono b by blast
    next
      case no_loop: none
      show ?thesis
      proof (cases b rule: ifs_cases)
        case (some ts es j c)
        then obtain em1 where "nested_if b ts es c em = Some em1" "?rest em1 = Some em'"
          using Cons.prems(2) live no_loop by (auto simp: Let_def bind_eq_Some_conv)
        then show ?thesis using go ni [OF some(1)] spreads_mono b by blast
      next
        case none
        then have "?rest (emit_plain_body_block env plan h latch indent b bs em) = Some em'"
          using Cons.prems(2) live no_loop by (simp add: Let_def)
        then show ?thesis using go spreads_plain_body_block [of b X] b by blast
      qed
    qed
  qed
qed simp

lemma loop_plan_order:
  assumes "e_loops env h = Some (Loop h l body c)" "finite body"
  shows "set (body_order (loop_plan_of env h (body_nodes body))) \<subseteq> body"
  using env_plans [OF _ assms(1)] assms(2)
  by (auto simp: loop_plan_of_def default_loop_plan_def Let_def body_nodes_def split: option.split)

lemma spreads_close_loop:
  assumes s: "spreads cfg X em em3" and o: "before_loop = length (out em)"
  shows "spreads cfg X em (close_loop env plan h indent before_loop em3)"
proof -
  have "prefix (out em) (out em3)" using s by (simp add: spreads_def)
  then have "spreads cfg X em (em3\<lparr>out := take before_loop (out em3)\<rparr>)"
    by (intro spreads_out [OF s]) (simp add: o take_prefix)
  then have "spreads cfg X em (emit_block_body env h indent True (em3\<lparr>out := take before_loop (out em3)\<rparr>))"
    by (rule spreads_frame) simp
  moreover have "spreads cfg X em (write_line t em3)" "spreads cfg X em (write_line t' (write_line t em3))" for t t'
    using spreads_frame [OF s] frames_trans [OF frames_write_line frames_write_line] by simp_all
  ultimately show ?thesis by (simp add: close_loop_def split: empty_loop_fallback.split)
qed

lemma spreads_emit_loop:
  "e_loops env h = Some (Loop h l body c) \<Longrightarrow> emit_loop n env h (body_nodes body) l c' indent em = Some em' \<Longrightarrow>
   spreads cfg {h} em em' \<and> body \<subseteq> emitted em'"
proof (induction n arbitrary: h l body c c' indent em em')
  case (Suc n)
  from Suc.prems(1) have loop: "finite body" "h \<in> body" "\<And>n. n \<in> body \<Longrightarrow> connects cfg body h n"
    by (cases h rule: loops_cases; simp)+
  have nodes [simp]: "set (body_nodes body) = body" using loop(1) by (simp add: body_nodes_def)
  let ?plan = "loop_plan_of env h (body_nodes body)"
  have roots: "spreads cfg {h} a b" if "spreads cfg body a b" "body \<subseteq> emitted b" for a b
    by (rule spreads_roots [OF that(1)]) (use connects_mono [OF loop(3) that(2)] in blast)
  show ?case
  proof (cases "has_unemitted_body ?plan em")
    case False
    then have em': "em' = emit_block_body env h indent True (mark (h # body_nodes body) em)"
      using Suc.prems(2) by (simp add: Let_def)
    have f: "frames (mark (h # body_nodes body) em) em'" unfolding em' by simp
    have "spreads cfg body em (mark (h # body_nodes body) em)" by (rule spreads_mark_roots) (use loop(2) in simp)
    then have "spreads cfg body em em'" by (rule spreads_frame [OF _ f])
    moreover have "body \<subseteq> emitted em'" using f by (auto simp: frames_def)
    ultimately show ?thesis using roots by blast
  next
    case True
    let ?nl = "\<lambda>h b l c. emit_loop n env h b l c (indent + 1)"
    let ?ni = "\<lambda>h tb eb c. emit_if n env h tb eb c (indent + 1) (Some h)"
    let ?em1 = "write_line (indentation indent @ loop_head_text env h (body_nodes body) c') em"
    let ?em2 = "emit_block_body env h (indent + 1) True ?em1"
    obtain em3 where em3: "emit_loop_blocks ?nl (\<lambda>h' tb eb c. emit_if n env h' tb eb c (indent + 1) (Some h)) env ?plan h l indent (body_order ?plan) ?em2 = Some em3"
      and em': "em' = mark (body_nodes body) (close_loop env ?plan h indent (length (out em)) em3)"
      using Suc.prems(2) True by (auto simp: Let_def)
    have "frames em ?em2" by (rule frames_trans [OF frames_write_line frames_emit_block_body])
    moreover have "spreads cfg body ?em2 em3"
      by (rule spreads_emit_loop_blocks [OF _ _ loop_plan_order [OF Suc.prems(1) loop(1)] em3])
         (use Suc.IH spreads_emit_if in blast)+
    ultimately have "spreads cfg body em em3" by (rule frame_spreads)
    then have "spreads cfg body em (close_loop env ?plan h indent (length (out em)) em3)" by (rule spreads_close_loop) simp
    then have "spreads cfg body em em'" unfolding em' by (rule spreads_trans [OF _ spreads_mark_roots]) simp
    moreover have "body \<subseteq> emitted em'" by (simp add: em')
    ultimately show ?thesis using roots by blast
  qed
qed simp



section \<open>Regions, switches and dispatch loops\<close>

lemma region_from_path:
  "env' = env \<Longrightarrow> successively (edge cfg) (region_from env' placed seen current) \<and>
   (\<exists>rest. region_from env' placed seen current = current # rest)"
proof (induction env' placed seen current rule: region_from.induct)
  case (1 env' placed seen current)
  show ?case
  proof (cases "region_next env' placed seen current")
    case (Some succ)
    then have "edge cfg current succ" using region_next_new(3) env_graph 1(2) by (fastforce simp: edge_def)
    then show ?thesis using 1(1) [OF Some 1(2)] Some by auto
  qed simp
qed

lemma spreads_emit_region:
  "successively (edge cfg) bs \<Longrightarrow> bs \<noteq> [] \<Longrightarrow>
   spreads cfg {hd bs} em (emit_region env indent labelled bs em) \<and> set bs \<subseteq> emitted (emit_region env indent labelled bs em)"
proof (induction bs arbitrary: em labelled)
  case (Cons b bs)
  let ?l = "if labelled then write_label env b em else em"
  let ?e = "mark [b] (emit_block_body_with_fallthrough env b indent False (region_fallthrough env ?l b bs) ?l)"
  have r: "emit_region env indent labelled (b # bs) em = emit_region env indent True bs ?e" by (simp only: emit_region.simps Let_def)
  have "frames em ?l" by simp
  then have "frames em (emit_block_body_with_fallthrough env b indent False (region_fallthrough env ?l b bs) ?l)"
    by (rule frames_trans) simp
  then have e: "spreads cfg {b} em ?e" by (rule frame_spreads [OF _ spreads_mark_roots]) simp
  show ?case
  proof (cases bs)
    case Nil
    then show ?thesis unfolding r using e by simp
  next
    case (Cons c cs)
    have edge: "edge cfg b c" "successively (edge cfg) bs" using Cons.prems(1) Cons by simp_all
    let ?em' = "emit_region env indent True bs ?e"
    have IH: "spreads cfg {c} ?e ?em'" "set bs \<subseteq> emitted ?em'" using Cons.IH [OF edge(2), of ?e True] Cons by auto
    have b: "b \<in> emitted ?e" by simp
    have "spreads cfg {b} ?e ?em'"
    proof (rule spreads_roots [OF IH(1)])
      show "\<exists>s \<in> {b} \<union> emitted ?e. connects cfg (emitted ?em') s t" if "t \<in> {c}" for t
        using that connects_edge [OF edge(1), of "emitted ?em'"] IH(2) Cons by auto
    qed
    then show ?thesis unfolding r using spreads_trans [OF e] IH(2) spreads_emitted [OF IH(1) b] by auto
  qed
qed simp

lemma spreads_emit_linear_region:
  "spreads cfg {b} em (emit_linear_region env b indent em) \<and> b \<in> emitted (emit_linear_region env b indent em)"
proof -
  obtain rest where "collect_linear_region env (emitted em) b = b # rest" "successively (edge cfg) (b # rest)"
    using region_from_path [OF refl, of "emitted em" "{b}" b] by (auto simp: collect_linear_region_def)
  then show ?thesis using spreads_emit_region [of "b # rest" em indent False] by (simp add: emit_linear_region_def)
qed

lemma spreads_emit_switch:
  "spreads cfg {b} em (emit_switch env b reg cases indent em) \<and> b \<in> emitted (emit_switch env b reg cases indent em)"
proof -
  define em1 where "em1 = emit_block_body env b indent True em"
  obtain name em2 where v: "switch_variable env b reg (indentation indent) em1 = (name, em2)" by fastforce
  define em3 where "em3 = write_line (indentation indent @ ''switch ('' @ apply_aliases name (var_aliases (e_plan env)) @ '') {'') em2"
  define em4 where "em4 = fold (\<lambda>vt em. write_line (indentation (indent + 1) @ switch_case_text env (dispatch_loop_header em) vt) em) cases em3"
  have r: "emit_switch env b reg cases indent em = mark [b] (write_line (indentation indent @ ''}'') em4)"
    unfolding emit_switch_def Let_def em1_def [symmetric] v prod.case em3_def em4_def by (rule refl)
  have "frames em1 em2" using frames_switch_variable [of em1 env b reg "indentation indent"] v by simp
  moreover have "frames em em1" "frames em2 em3" "frames em3 em4"
    by (simp_all add: em1_def em3_def em4_def frames_fold)
  ultimately have "frames em (write_line (indentation indent @ ''}'') em4)" by (meson frames_trans frames_write_line)
  then show ?thesis unfolding r by (simp add: frame_spreads [OF _ spreads_mark_roots])
qed

lemma spreads_emit_all:
  assumes "\<And>pc em em'. pc \<in> set pcs \<Longrightarrow> pc \<in> emitted em \<Longrightarrow> f pc em = Some em' \<Longrightarrow> spreads cfg S em em'"
  shows "set pcs \<subseteq> emitted em \<Longrightarrow> emit_all f pcs em = Some em' \<Longrightarrow> spreads cfg S em em'"
  using assms
proof (induction pcs arbitrary: em)
  case (Cons pc pcs)
  then obtain em1 where f: "f pc em = Some em1" "emit_all f pcs em1 = Some em'" by (auto simp: bind_eq_Some_conv)
  have 1: "spreads cfg S em em1" by (rule Cons.prems(3) [OF _ _ f(1)]) (use Cons.prems(1) in simp_all)
  then have "set pcs \<subseteq> emitted em1" using Cons.prems(1) by (auto simp: spreads_def)
  then have "spreads cfg S em1 em'" by (rule Cons.IH [OF _ f(2)]) (rule Cons.prems(3), simp_all)
  with 1 show ?case by (rule spreads_trans)
qed simp

lemma spreads_emit_region_block:
  assumes "emit_region_block depth env indent b em = Some em'"
  shows "spreads cfg {b} em em' \<and> (e_loops env b \<noteq> None \<longrightarrow> b \<in> emitted em')"
proof (cases b rule: loops_cases)
  case (some l body c)
  then have "emit_loop depth env b (body_nodes body) l c indent em = Some em'" using assms by (simp add: emit_region_block_def)
  from spreads_emit_loop [OF some(1) this] show ?thesis using some(3) by blast
next
  case no_loop: none
  show ?thesis
  proof (cases b rule: ifs_cases)
    case (some ts es j c)
    then show ?thesis using assms no_loop spreads_emit_if [OF some] by (auto simp: emit_region_block_def)
  next
    case none
    then have "em' = emit_block_body env b indent False em" using assms no_loop by (simp add: emit_region_block_def)
    then show ?thesis using no_loop by (simp add: frames_spreads)
  qed
qed

lemma collect_region_spreads:
  "\<lbrakk>collect_region env' loops ex queue visited placed = (ord, final); loops = Map.empty; env' = env;
    \<And>q. q \<in> set queue \<Longrightarrow> q \<in> S \<or> (\<exists>x \<in> placed. edge cfg x q)\<rbrakk> \<Longrightarrow>
   placed \<subseteq> final \<and> set ord \<subseteq> final \<and> (\<forall>n \<in> final. \<exists>s \<in> S \<union> placed. connects cfg final s n)"
proof (induction env' loops ex queue visited placed arbitrary: ord final rule: collect_region.induct)
  case (1 env' loops ex visited placed)
  then have "placed = final" "ord = []" by simp_all
  moreover have "\<exists>s \<in> S \<union> placed. connects cfg placed s n" if "n \<in> placed" for n
    by (rule bexI [of _ n]) (use that in simp_all)
  ultimately show ?case by simp
next
  case (2 env' loops ex pc queue visited placed)
  consider (excluded) "pc \<in> ex" | (seen) "pc \<notin> ex" "pc \<in> visited \<or> pc \<in> placed \<or> pc \<notin> e_reachable env'"
    | (new) "pc \<notin> ex" "\<not> (pc \<in> visited \<or> pc \<in> placed \<or> pc \<notin> e_reachable env')" by blast
  then show ?case
  proof cases
    case excluded
    then show ?thesis using 2(1) 2(4-7) by simp
  next
    case seen
    then show ?thesis using 2(2) 2(4-7) by simp
  next
    case new
    let ?succs = "filter (\<lambda>s. s \<notin> ex \<and> s \<notin> insert pc visited \<and> s \<notin> insert pc placed \<and> s \<in> e_reachable env') (region_succs env' loops pc)"
    have no_loop: "is_loop_header loops pc = False" "region_succs env' loops pc = cfg_succs cfg pc"
      using 2(5,6) env_graph by (simp_all add: is_loop_header_def region_succs_def)
    obtain ord' where rest: "collect_region env' loops ex (queue @ ?succs) (insert pc visited) (insert pc placed) = (ord', final)"
      "ord = pc # ord'"
      using 2(4) new no_loop(1) by (auto simp: Let_def split: prod.splits)
    have "insert pc placed \<subseteq> final \<and> set ord' \<subseteq> final \<and> (\<forall>n \<in> final. \<exists>s \<in> S \<union> insert pc placed. connects cfg final s n)"
    proof (rule 2(3) [OF new refl _ refl rest(1) 2(5,6)])
      show "insert pc placed = (if is_loop_header loops pc then placed else insert pc placed)" by (simp add: no_loop)
      show "q \<in> S \<or> (\<exists>x \<in> insert pc placed. edge cfg x q)" if "q \<in> set (queue @ ?succs)" for q
        using that 2(7) [of q] no_loop(2) by (auto simp: edge_def)
    qed
    then have f: "insert pc placed \<subseteq> final" "set ord' \<subseteq> final" "\<And>n. n \<in> final \<Longrightarrow> \<exists>s \<in> S \<union> insert pc placed. connects cfg final s n"
      by blast+
    have pc: "\<exists>s \<in> S \<union> placed. connects cfg final s pc"
    proof (cases "pc \<in> S")
      case True
      then show ?thesis using connects_refl by blast
    next
      case False
      then obtain x where "x \<in> placed" "edge cfg x pc" using 2(7) [of pc] by auto
      then show ?thesis using f(1) connects_edge [of cfg x pc final] by blast
    qed
    then have "\<exists>s \<in> S \<union> placed. connects cfg final s n" if "n \<in> final" for n
      using f(3) [OF that] connects_trans [of cfg final _ pc n] by auto
    then show ?thesis using f(1,2) rest(2) by auto
  qed
qed


lemma spreads_emit_dispatch_target:
  assumes "emit_dispatch_target depth env dh indent t em = Some em'"
  shows "spreads cfg {t} em em' \<and> (em' = em \<or> t \<in> emitted em')"
proof (cases "t = dh \<or> t \<in> emitted em \<or> get_block (e_cfg env) t = None \<or> t \<notin> e_reachable env")
  case True
  then have "em' = em" using assms by (simp only: emit_dispatch_target_def if_True option.inject)
  then show ?thesis by simp
next
  case False
  let ?w = "write_line (indentation indent @ label_for_target env t @ '':'') em"
  obtain ord placed where c: "collect_region env Map.empty {dh} [t] {} (emitted em) = (ord, placed)" by fastforce
  have w: "emitted ?w = emitted em" by (simp add: write_line_def)
  let ?f = "\<lambda>pc em. emit_region_block depth env indent pc (if pc \<noteq> t then write_plain_label env indent pc em else em)"
  have e: "emit_all ?f (filter (\<lambda>pc. pc \<in> e_reachable env) (sort_key (rpo_key env) ord)) (?w\<lparr>emitted := placed\<rparr>) = Some em'"
    using assms False by (simp only: emit_dispatch_target_def if_False Let_def w c prod.case)
  have r: "emitted em \<subseteq> placed" "set ord \<subseteq> placed" "\<forall>n \<in> placed. \<exists>s \<in> {t} \<union> emitted em. connects cfg placed s n"
    using collect_region_spreads [OF c refl refl, of "{t}"] by auto
  have t: "t \<in> placed"
  proof -
    have "collect_region env Map.empty {dh} [t] {} (emitted em) = (case collect_region env Map.empty {dh}
        (filter (\<lambda>s. s \<notin> {dh} \<and> s \<notin> {t} \<and> s \<notin> insert t (emitted em) \<and> s \<in> e_reachable env) (region_succs env Map.empty t)) {t} (insert t (emitted em))
        of (ord, final) \<Rightarrow> (t # ord, final))"
      using False by (simp add: is_loop_header_def Let_def)
    then have "t \<in> set ord" using c by (auto split: prod.splits)
    then show ?thesis using r(2) by blast
  qed
  have 1: "spreads cfg {t} em (?w\<lparr>emitted := placed\<rparr>)"
    using r by (simp add: spreads_def write_line_def)
  have 2: "spreads cfg {t} (?w\<lparr>emitted := placed\<rparr>) em'"
  proof (rule spreads_emit_all [OF _ _ e])
    show "set (filter (\<lambda>pc. pc \<in> e_reachable env) (sort_key (rpo_key env) ord)) \<subseteq> emitted (?w\<lparr>emitted := placed\<rparr>)"
      using r(2) by auto
    fix pc em1 em2
    assume pc: "pc \<in> emitted em1" and b: "?f pc em1 = Some em2"
    have "frames em1 (if pc \<noteq> t then write_plain_label env indent pc em1 else em1)" by simp
    then have "spreads cfg {pc} em1 em2" using spreads_emit_region_block [OF b] frame_spreads by blast
    then show "spreads cfg {t} em1 em2" by (rule spreads_roots) (use pc in \<open>auto intro: bexI [where x = pc]\<close>)
  qed
  have "t \<in> emitted em'" by (rule spreads_emitted [OF 2]) (simp add: t)
  then show ?thesis using spreads_trans [OF 1 2] by blast
qed

lemma spreads_dispatch_targets:
  assumes "\<And>t. t \<in> set ts \<Longrightarrow> t = h \<or> edge cfg h t"
  shows "emit_all (emit_dispatch_target depth env dh indent) ts em = Some em' \<Longrightarrow> h \<in> emitted em \<Longrightarrow> spreads cfg {h} em em'"
  using assms
proof (induction ts arbitrary: em)
  case (Cons t ts)
  then obtain em1 where f: "emit_dispatch_target depth env dh indent t em = Some em1"
      "emit_all (emit_dispatch_target depth env dh indent) ts em1 = Some em'" by (auto simp: bind_eq_Some_conv)
  note s = spreads_emit_dispatch_target [OF f(1)]
  have 1: "spreads cfg {h} em em1"
  proof (cases "em1 = em")
    case False
    then have "t \<in> emitted em1" using s by simp
    then show ?thesis using Cons.prems(2) Cons.prems(3) [of t] connects_edge [of cfg h t "emitted em1"] connects_refl
      by (intro spreads_roots [OF conjunct1 [OF s]]) auto
  qed simp
  moreover have "spreads cfg {h} em1 em'"
    by (rule Cons.IH [OF f(2) spreads_emitted [OF 1 Cons.prems(2)] Cons.prems(3)]) simp
  ultimately show ?case by (rule spreads_trans)
qed simp

lemma spreads_emit_dispatch_loop:
  assumes "emit_dispatch_loop depth env h reg cases em = Some em'"
  shows "spreads cfg {h} em em' \<and> h \<in> emitted em'"
proof -
  define local_cases where "local_cases = filter (\<lambda>(vals, target). get_block (e_cfg env) target \<noteq> None \<and>
            (target = h \<or> target \<in> set (cfg_succs (e_cfg env) h) \<and> target \<notin> emitted em \<and>
             target \<in> e_reachable env)) cases"
  note e = assms [unfolded emit_dispatch_loop_def Let_def, folded local_cases_def]
  show ?thesis
  proof (cases "local_cases = []")
    case True
    then have "em' = emit_linear_region env h 0 em"
      using e by (simp add: True)
    then show ?thesis using spreads_emit_linear_region by simp
  next
    case False
    let ?w = "(write_line ''loop {'' em)\<lparr>dispatch_loop_header := Some h\<rparr>"
    let ?s = "emit_switch env h reg local_cases 1 ?w"
    obtain em1 where t: "emit_dispatch_targets depth env h local_cases 1 ?s = Some em1"
      and em': "em' = write_line ''}'' (em1\<lparr>dispatch_loop_header := dispatch_loop_header em\<rparr>)"
      using e False by auto
    have "frames em ?w" by (simp add: frames_def write_line_def)
    then have 1: "spreads cfg {h} em ?s" "h \<in> emitted ?s" using spreads_emit_switch frame_spreads by blast+
    have "t = h \<or> edge cfg h t" if "t \<in> set (dispatch_roots local_cases)" for t
      using that by (auto simp: dispatch_roots_def local_cases_def edge_def env_graph)
    then have 2: "spreads cfg {h} ?s em1"
      using spreads_dispatch_targets t 1(2) unfolding emit_dispatch_targets_def by blast
    have "frames em1 em'" unfolding em' by (simp add: frames_def write_line_def)
    then show ?thesis using 1 2 spreads_trans spreads_frame spreads_emitted by blast
  qed
qed

lemma spreads_emit_top_if:
  assumes "emit_top_if depth env b em = Some em'" "e_ifs env b \<noteq> None"
  shows "spreads cfg {b} em em' \<and> b \<in> emitted em'"
proof -
  obtain ts es j c where i: "e_ifs env b = Some (IfThenElse b ts es j c)"
    using assms(2) by (cases b rule: ifs_cases) auto
  obtain r where r: "try_collect_switch_cases depth env b = Some r"
    using assms(1) by (auto simp: emit_top_if_def bind_eq_Some_conv)
  show ?thesis
  proof (cases r)
    case None
    then show ?thesis using assms(1) r i spreads_emit_if [OF i] by (auto simp: emit_top_if_def)
  next
    case (Some sw)
    then have em': "em' = emit_recovered_switch env sw 0 None em" using assms(1) r by (simp add: emit_top_if_def)
    have "switch_ok b sw" by (rule collected_switch_ok) (use r Some in simp)
    then show ?thesis unfolding em' using spreads_recovered_switch by blast
  qed
qed

lemma spreads_emit_top:
  assumes "emit_top depth env ss b em = Some em'"
  shows "spreads cfg {b} em em' \<and> b \<in> emitted em'"
proof -
  define dispatch where "dispatch = (case switch_map_of True ss b of Some (Switch _ reg cases _) \<Rightarrow> Some (reg, cases) | _ \<Rightarrow> None)"
  define render where "render = (case dispatch of Some (reg, cases) \<Rightarrow> should_emit_dispatch_loop env b cases em | None \<Rightarrow> False)"
  define em1 where "em1 = (if render then em else write_label env b em)"
  note e = assms [unfolded emit_top_def Let_def, folded dispatch_def, folded render_def, folded em1_def]
  have f: "frames em em1" by (simp add: em1_def)
  have "spreads cfg {b} em1 em' \<and> b \<in> emitted em'"
  proof (cases b rule: loops_cases)
    case (some l body c)
    have "emit_loop depth env b (body_nodes body) l c 0 em1 = Some em'" using e by (simp add: some(1))
    from spreads_emit_loop [OF some(1) this] some(3) show ?thesis by blast
  next
    case no_loop: none
    show ?thesis
    proof (cases "e_ifs env b = None")
      case False
      then have "emit_top_if depth env b em1 = Some em'" using e by (simp add: no_loop)
      then show ?thesis using False by (rule spreads_emit_top_if)
    next
      case True
      then have e': "(case dispatch of
            Some (reg, cases) \<Rightarrow> if render then emit_dispatch_loop depth env b reg cases em1 else Some (emit_linear_region env b 0 em1)
          | None \<Rightarrow> (case switch_map_of False ss b of
              Some (Switch _ reg cases _) \<Rightarrow> Some (emit_switch env b reg cases 0 em1)
            | _ \<Rightarrow> Some (emit_linear_region env b 0 em1))) = Some em'"
        using e by (simp add: no_loop)
      show ?thesis
      proof (cases dispatch)
        case None
        then have "em' = emit_linear_region env b 0 em1 \<or> (\<exists>reg cases. em' = emit_switch env b reg cases 0 em1)"
          using e' by (auto split: option.splits cf_structure.splits)
        then show ?thesis using spreads_emit_linear_region spreads_emit_switch by blast
      next
        case (Some rc)
        obtain reg cases where rc: "rc = (reg, cases)" by fastforce
        show ?thesis
        proof (cases render)
          case True
          then have "emit_dispatch_loop depth env b reg cases em1 = Some em'" using e' Some rc by simp
          then show ?thesis by (rule spreads_emit_dispatch_loop)
        next
          case False
          then have "em' = emit_linear_region env b 0 em1" using e' Some rc by simp
          then show ?thesis using spreads_emit_linear_region by blast
        qed
      qed
    qed
  qed
  then show ?thesis using frame_spreads [OF f] by blast
qed

end

end
