(* ===== verification/Emission_Total.thy ===== *)
theory Emission_Total
  imports Emission_Progress
begin

text \<open>
  The emitter ends (\<open>pseudo_code\<close> in \<open>src/structuring/emission.rs\<close>): on a reducible graph the recursion of
  conditionals and loops is bounded by twice the number of blocks and one more, the work list never puts
  a block back behind its dominator, and every block some jump may name is recorded in the end. On a graph
  with an irreducible part inside a loop the recursion need not end at all.
\<close>

section \<open>The work list\<close>

lemma on_every_walkD: "on_every_walk cfg a b \<Longrightarrow> entry_walk cfg xs \<Longrightarrow> last xs = b \<Longrightarrow> a \<in> set xs"
  by (simp add: on_every_walk_def)

lemma spreadsD: "spreads cfg S em em' \<Longrightarrow> n \<in> emitted em' \<Longrightarrow> \<exists>s \<in> S \<union> emitted em. connects cfg (emitted em') s n"
  unfolding spreads_def by blast

context structured_graph
begin

abbreviation tree :: dominator_tree where
  "tree \<equiv> the (compute cfg)"

lemma idom_on_every_walk:
  assumes "idom tree b = Some d" "reachable cfg b"
  shows "on_every_walk cfg d b"
proof -
  obtain I where I: "idom_loop (length order + 2) cfg (index_of order) (2 * length order + 1) order [entry_pc cfg \<mapsto> entry_pc cfg] = Some I"
      "exact_tree cfg I"
    using compute_exact by blast
  then have t: "I b = Some d" using assms(1) by (simp add: compute_def Let_def)
  show ?thesis
  proof (cases "b = entry_pc cfg")
    case True
    then have "d = b" using t I(2) by (simp add: exact_tree_def tree_shape_def)
    then show ?thesis using True on_every_walk_entry by simp
  next
    case False
    then have "b \<in> set order" using assms(2) reachable_iff by simp
    moreover have "anc I d b" using t by (cases "d = b") (auto intro: anc_self anc_up)
    ultimately show ?thesis using I(2) by (simp add: exact_tree_def)
  qed
qed

text \<open>Recorded blocks are reached from the entry over recorded blocks.\<close>

definition rooted :: "usize set \<Rightarrow> bool" where
  "rooted X \<longleftrightarrow> (\<forall>n \<in> X. connects cfg X (entry_pc cfg) n) \<and> (X \<noteq> {} \<longrightarrow> entry_pc cfg \<in> X)"

lemma connects_walk:
  "connects cfg X (entry_pc cfg) n \<Longrightarrow> entry_pc cfg \<in> X \<Longrightarrow> \<exists>xs. entry_walk cfg xs \<and> last xs = n \<and> set xs \<subseteq> X"
  unfolding connects_def
proof (induction rule: rtranclp_induct)
  case base
  then show ?case by (intro exI [of _ "[entry_pc cfg]"]) simp
next
  case (step u v)
  then obtain xs where xs: "entry_walk cfg xs" "last xs = u" "set xs \<subseteq> X" by blast
  then have "xs \<noteq> []" by (auto simp: entry_walk_def)
  then show ?case using xs step.hyps(2) by (intro exI [of _ "xs @ [v]"]) (simp add: entry_walk_snoc)
qed

text \<open>A block the work list may hold: one it skips, the entry, or a successor of a recorded block.\<close>

definition expected :: "usize set \<Rightarrow> usize \<Rightarrow> bool" where
  "expected X b \<longleftrightarrow> \<not> reachable cfg b \<or> get_block cfg b = None \<or> b = entry_pc cfg \<or> (\<exists>x \<in> X. edge cfg x b)"

lemma expected_mono: "expected X b \<Longrightarrow> X \<subseteq> Y \<Longrightarrow> expected Y b"
  unfolding expected_def by blast

lemma idom_recorded:
  assumes X: "rooted X" and b: "reachable cfg b" "get_block cfg b \<noteq> None" "expected X b" and d: "idom_of tree b \<noteq> b"
  shows "idom_of tree b \<in> X"
proof -
  let ?d = "idom_of tree b"
  have "idom tree b = Some ?d" using d by (auto simp: idom_of_def split: option.splits)
  then have walk: "on_every_walk cfg ?d b" using idom_on_every_walk b(1) by simp
  then have "b \<noteq> entry_pc cfg" using d on_every_walk_entry by auto
  then obtain x where x: "x \<in> X" "edge cfg x b" using b by (auto simp: expected_def)
  then have "entry_pc cfg \<in> X" "connects cfg X (entry_pc cfg) x" using X by (auto simp: rooted_def)
  then obtain xs where xs: "entry_walk cfg xs" "last xs = x" "set xs \<subseteq> X" using connects_walk by blast
  then have "xs \<noteq> []" by (auto simp: entry_walk_def)
  then have "entry_walk cfg (xs @ [b])" using xs x(2) by (simp add: entry_walk_snoc)
  then have "?d \<in> set (xs @ [b])" by (rule on_every_walkD [OF walk]) simp
  then show ?thesis using d xs(3) by auto
qed

lemma rooted_spreads:
  assumes X: "rooted (emitted em)" and s: "spreads cfg {b} em em'" "b \<in> emitted em'"
    and b: "b = entry_pc cfg \<or> (\<exists>x \<in> emitted em. edge cfg x b)"
  shows "rooted (emitted em')"
proof -
  have mono: "emitted em \<subseteq> emitted em'" using s(1) by (simp add: spreads_def)
  have e: "entry_pc cfg \<in> emitted em'" using X b s(2) mono by (auto simp: rooted_def)
  have old: "connects cfg (emitted em') (entry_pc cfg) n" if "n \<in> emitted em" for n
    using X that connects_mono mono unfolding rooted_def by blast
  have new: "connects cfg (emitted em') (entry_pc cfg) b"
    using b old connects_trans connects_edge [OF _ s(2)] connects_refl by metis
  have "connects cfg (emitted em') (entry_pc cfg) n" if n: "n \<in> emitted em'" for n
  proof -
    obtain r where r: "r \<in> {b} \<union> emitted em" "connects cfg (emitted em') r n" using spreadsD [OF s(1) n] by blast
    then have "connects cfg (emitted em') (entry_pc cfg) r" using old new by blast
    then show ?thesis using r(2) by (rule connects_trans)
  qed
  then show ?thesis using e by (simp add: rooted_def)
qed

lemma fresh_successors_set:
  "set (fresh_successors env b em queued) \<subseteq> set (cfg_succs cfg b) - queued" "distinct (fresh_successors env b em queued)"
  by (auto simp: fresh_successors_def env_graph)

text \<open>With enough steps the work list is emptied; a block is never put back.\<close>

lemma work_list_ends:
  assumes total: "\<And>b em. reachable cfg b \<Longrightarrow> emit_top depth env ss b em \<noteq> None"
  shows "rooted (emitted em) \<Longrightarrow> (\<And>b. b \<in> set pending \<Longrightarrow> expected (emitted em) b) \<Longrightarrow>
    length pending + card (edge_targets cfg - queued) \<le> steps \<Longrightarrow>
    \<exists>em'. emit_pending steps depth env ss tree pending queued em = Some em' \<and> rooted (emitted em')"
proof (induction steps arbitrary: pending queued em)
  case 0
  then show ?case by simp
next
  case (Suc steps)
  show ?case
  proof (cases pending)
    case Nil
    then show ?thesis using Suc.prems(1) by simp
  next
    case (Cons b rest)
    have b: "expected (emitted em) b" and rest: "\<And>b. b \<in> set rest \<Longrightarrow> expected (emitted em) b"
      using Suc.prems(2) Cons by simp_all
    show ?thesis
    proof (cases "b \<notin> e_reachable env \<or> get_block (e_cfg env) b = None \<or> b \<in> emitted em")
      case True
      then have "emit_pending (Suc steps) depth env ss tree pending queued em = emit_pending steps depth env ss tree rest queued em"
        unfolding Cons by (simp only: emit_pending.simps if_True)
      then show ?thesis using Suc.IH [OF Suc.prems(1) rest] Suc.prems(3) Cons by simp
    next
      case False
      then have live: "reachable cfg b" "get_block cfg b \<noteq> None" using env_reachable env_graph by auto
      have stay: "\<not> (idom_of tree b \<noteq> b \<and> idom_of tree b \<notin> emitted em)"
        using idom_recorded [OF Suc.prems(1) live b] by blast
      obtain em1 where em1: "emit_top depth env ss b em = Some em1" using total [OF live(1)] by blast
      let ?succs = "fresh_successors env b em1 queued"
      have e: "emit_pending (Suc steps) depth env ss tree pending queued em
          = emit_pending steps depth env ss tree (?succs @ rest) (set ?succs \<union> queued) em1"
        unfolding Cons by (simp only: emit_pending.simps if_not_P [OF False] if_not_P [OF stay] em1 Option.bind_lunit Let_def)
      note s = spreads_emit_top [OF em1]
      have mono: "emitted em \<subseteq> emitted em1" using s by (auto simp: spreads_def)
      have r: "rooted (emitted em1)"
        using rooted_spreads [OF Suc.prems(1) conjunct1 [OF s] conjunct2 [OF s]] b live by (auto simp: expected_def)
      have ex: "expected (emitted em1) x" if "x \<in> set (?succs @ rest)" for x
      proof (cases "x \<in> set ?succs")
        case True
        then have "edge cfg b x" using fresh_successors_set(1) by (auto simp: edge_def)
        then show ?thesis using s by (auto simp: expected_def)
      next
        case False
        then show ?thesis using that rest expected_mono mono by auto
      qed
      have sub: "set ?succs \<subseteq> edge_targets cfg - queued"
        using fresh_successors_set(1) cfg_succs_target by blast
      have "card (set ?succs \<union> (edge_targets cfg - (set ?succs \<union> queued))) = length ?succs + card (edge_targets cfg - (set ?succs \<union> queued))"
        by (subst card_Un_disjoint) (auto simp: distinct_card [OF fresh_successors_set(2)])
      moreover have "set ?succs \<union> (edge_targets cfg - (set ?succs \<union> queued)) = edge_targets cfg - queued" using sub by blast
      ultimately have "length (?succs @ rest) + card (edge_targets cfg - (set ?succs \<union> queued)) \<le> steps"
        using Suc.prems(3) Cons by simp
      from Suc.IH [OF r ex this] show ?thesis unfolding e by blast
    qed
  qed
qed

end


section \<open>Depth on a reducible graph\<close>

text \<open>A forward edge does not go to a block that dominates its source; a graph is reducible when the
  forward edges have no cycle.\<close>

definition forward_edge :: "control_flow_graph \<Rightarrow> usize \<Rightarrow> usize \<Rightarrow> bool" where
  "forward_edge cfg u v \<longleftrightarrow> edge cfg u v \<and> reachable cfg u \<and> \<not> on_every_walk cfg v u"

definition reducible :: "control_flow_graph \<Rightarrow> bool" where
  "reducible cfg \<longleftrightarrow> (\<forall>n. \<not> (forward_edge cfg)\<^sup>+\<^sup>+ n n)"

context structured_graph
begin

definition rank :: "usize \<Rightarrow> nat" where
  "rank u = card {v. (forward_edge cfg)\<^sup>+\<^sup>+ u v}"

definition region_size :: "usize \<Rightarrow> nat" where
  "region_size h = card {x \<in> cfg_nodes cfg. reachable cfg x \<and> on_every_walk cfg h x}"

lemma forward_nodes: "(forward_edge cfg)\<^sup>+\<^sup>+ u v \<Longrightarrow> v \<in> cfg_nodes cfg"
  by (induction rule: tranclp_induct) (auto simp: forward_edge_def intro: edge_target)

lemma forward_finite [simp]: "finite {v. (forward_edge cfg)\<^sup>+\<^sup>+ u v}"
  by (rule finite_subset [of _ "cfg_nodes cfg"]) (auto intro: forward_nodes)

lemma rank_decreases:
  assumes "reducible cfg" "forward_edge cfg u v"
  shows "rank v < rank u"
  unfolding rank_def
proof (rule psubset_card_mono)
  show "{w. (forward_edge cfg)\<^sup>+\<^sup>+ v w} \<subset> {w. (forward_edge cfg)\<^sup>+\<^sup>+ u w}"
  proof
    show "{w. (forward_edge cfg)\<^sup>+\<^sup>+ v w} \<subseteq> {w. (forward_edge cfg)\<^sup>+\<^sup>+ u w}"
      using assms(2) by (auto intro: tranclp_into_tranclp2)
    show "{w. (forward_edge cfg)\<^sup>+\<^sup>+ v w} \<noteq> {w. (forward_edge cfg)\<^sup>+\<^sup>+ u w}"
      using assms by (auto simp: reducible_def)
  qed
qed simp

lemma rank_bound: "rank u \<le> card (cfg_nodes cfg)"
  unfolding rank_def by (rule card_mono) (auto intro: forward_nodes)

lemma region_smaller:
  assumes "on_every_walk cfg h x" "x \<noteq> h" "reachable cfg x" "h \<in> cfg_nodes cfg"
  shows "region_size x < region_size h"
  unfolding region_size_def
proof (rule psubset_card_mono)
  have rh: "reachable cfg h"
  proof -
    obtain xs where xs: "entry_walk cfg xs" "last xs = x" "h \<in> set xs"
      using assms(1,3) by (auto simp: reachable_def on_every_walk_def)
    then obtain as bs where "xs = as @ h # bs" by (meson split_list)
    then have "entry_walk cfg (as @ [h])" using xs(1) entry_walk_prefix [of cfg "as @ [h]" bs] by simp
    then show ?thesis by (auto simp: reachable_def)
  qed
  have trans: "on_every_walk cfg h y" if "on_every_walk cfg x y" for y
    unfolding on_every_walk_def
  proof (intro allI impI)
    fix ys assume ys: "entry_walk cfg ys \<and> last ys = y"
    then have "x \<in> set ys" using that by (simp add: on_every_walk_def)
    then obtain as bs where "ys = as @ x # bs" by (meson split_list)
    then have "entry_walk cfg (as @ [x])" "set (as @ [x]) \<subseteq> set ys"
      using ys entry_walk_prefix [of cfg "as @ [x]" bs] by auto
    moreover have "h \<in> set (as @ [x])" by (rule on_every_walkD [OF assms(1)]) (use calculation in simp_all)
    ultimately show "h \<in> set ys" by blast
  qed
  have not: "\<not> on_every_walk cfg x h"
  proof
    assume xh: "on_every_walk cfg x h"
    obtain xs where "entry_walk cfg xs" "last xs = h" using rh by (auto simp: reachable_def)
    then obtain ys where ys: "entry_walk cfg ys" "distinct ys" "last ys = h" by (metis simple_walk)
    then obtain as bs where split: "ys = as @ x # bs" using xh split_list by (fastforce simp: on_every_walk_def)
    then have "entry_walk cfg (as @ [x])" using ys(1) entry_walk_prefix [of cfg "as @ [x]" bs] by simp
    then have "h \<in> set (as @ [x])" by (rule on_every_walkD [OF assms(1)]) simp
    then have "h \<in> set as" using assms(2) by simp
    moreover have "h \<in> set (x # bs)" using ys(3) split by (metis last_appendR last_in_set list.discI)
    ultimately show False using ys(2) split by auto
  qed
  have "h \<in> {y \<in> cfg_nodes cfg. reachable cfg y \<and> on_every_walk cfg h y}"
    using rh assms(4) by (auto simp: on_every_walk_def entry_walk_def)
  then show "{y \<in> cfg_nodes cfg. reachable cfg y \<and> on_every_walk cfg x y} \<subset>
      {y \<in> cfg_nodes cfg. reachable cfg y \<and> on_every_walk cfg h y}"
    using trans not by blast
qed simp


lemma if_forward: "e_ifs env h = Some (IfThenElse h' ts es j c) \<Longrightarrow> b \<in> set ts \<union> set es \<Longrightarrow> forward_edge cfg h b"
  using if_branches_edges [of h h' ts es j c b] by (simp add: forward_edge_def)

lemma chain_forward:
  assumes "chain_step env current ch = ContinueAt nxt ch'"
  shows "forward_edge cfg current nxt"
proof -
  obtain h ts es j c where i: "e_ifs env current = Some (IfThenElse h ts es j (Some c))"
    using assms chain_step_other [of current ch] by fastforce
  obtain reg imm where t: "equality_test c = Some (reg, imm)"
    by (rule chain_step_test [OF i, of ch]) (use assms in simp)
  have "es = [nxt]" using assms chain_step_if [OF i t, of ch] by (auto simp: Let_def split: if_splits list.splits)
  then show ?thesis using if_forward [OF i] by simp
qed

lemma walk_chain_total:
  assumes "reducible cfg"
  shows "rank current < n \<Longrightarrow> walk_chain n env current ch \<noteq> None"
proof (induction n arbitrary: current ch)
  case (Suc n)
  show ?case
  proof (cases "chain_step env current ch")
    case (ContinueAt nxt ch')
    then have "rank nxt < rank current" by (rule rank_decreases [OF assms chain_forward])
    then show ?thesis using Suc ContinueAt by simp
  qed simp_all
qed simp

lemma emit_branch_total:
  "(\<And>b em. b \<in> set bs \<Longrightarrow> emit b em \<noteq> None) \<Longrightarrow> emit_branch emit pre bs em \<noteq> None"
proof (induction bs arbitrary: em)
  case (Cons b bs)
  obtain kw em1 where "emit b em = Some (kw, em1)" using Cons.prems [of b em] by auto
  then show ?case using Cons by (cases kw) simp_all
qed simp

lemma emit_if_with_total:
  assumes "\<And>em. branch ts em \<noteq> None" "\<And>em. branch es em \<noteq> None"
  shows "emit_if_with env branch h ts es c indent lc em \<noteq> None"
proof -
  have t: "emit_then env branch h ts lc em \<noteq> None" for em unfolding emit_then_def
    using assms(1) by (simp only: map_option_is_None option.distinct split: if_split) simp
  have e: "emit_else env branch h es pre lc em \<noteq> None" for em pre
    unfolding emit_else_def Let_def using assms(2)
    by (simp only: map_option_is_None option.distinct split: if_split) simp
  show ?thesis
  proof (cases "h \<in> fully_suppressed_if_headers (e_plan env) \<or> lc = None \<and> h \<in> force_empty_if_headers_no_loop (e_plan env)")
    case True
    then show ?thesis by (simp only: emit_if_with_def if_True option.distinct not_False_eq_True)
  next
    case False
    then show ?thesis unfolding emit_if_with_def Let_def if_not_P [OF False]
      using t e by (simp only: Option.bind_eq_None_conv case_prod_beta map_option_is_None) blast
  qed
qed

lemma emit_if_total:
  assumes red: "reducible cfg"
  shows "e_ifs env h = Some (IfThenElse h ts es j c) \<Longrightarrow> rank h < n \<Longrightarrow> emit_if n env h ts es c' indent lc em \<noteq> None"
proof (induction n arbitrary: h ts es j c c' indent em)
  case (Suc n)
  let ?nested = "\<lambda>h tb eb c. emit_if n env h tb eb c (indent + 1) lc"
  have blocks: "block_or_inline_if ?nested n env (indent + 1) lc b em \<noteq> None" if "b \<in> set ts \<union> set es" for b em
  proof -
    have small: "rank b < n" using rank_decreases [OF red if_forward [OF Suc.prems(1) that]] Suc.prems(2) by simp
    show ?thesis
    proof (cases b rule: ifs_cases)
      case (some ts' es' j' c2)
      obtain r where "try_collect_switch_cases n env b = Some r"
        using walk_chain_total [OF red small, of empty_chain] by (auto simp: try_collect_switch_cases_def)
      moreover have "?nested b ts' es' c2 em \<noteq> None" by (rule Suc.IH [OF some small])
      ultimately show ?thesis using some by (cases r) (auto simp: block_or_inline_if_def)
    qed (simp add: block_or_inline_if_def)
  qed
  show ?case unfolding emit_if.simps
    by (rule emit_if_with_total; rule emit_branch_total; rule blocks; simp)
qed simp

lemma emit_loop_blocks_total:
  assumes nl: "\<And>b l body c em. b \<in> set bs \<Longrightarrow> b \<noteq> h \<Longrightarrow> e_loops env b = Some (Loop b l body c) \<Longrightarrow> nested_loop b (body_nodes body) l c em \<noteq> None"
    and ni: "\<And>b ts es j c em. b \<in> set bs \<Longrightarrow> b \<noteq> h \<Longrightarrow> e_ifs env b = Some (IfThenElse b ts es j c) \<Longrightarrow> nested_if b ts es c em \<noteq> None"
  shows "emit_loop_blocks nested_loop nested_if env plan h latch indent bs em \<noteq> None"
  using assms
proof (induction bs arbitrary: em)
  case (Cons b bs)
  let ?rest = "emit_loop_blocks nested_loop nested_if env plan h latch indent bs"
  have rest: "?rest em \<noteq> None" for em by (rule Cons.IH) (use Cons.prems in simp_all)
  show ?case
  proof (cases "b = h \<or> b \<in> emitted em \<or> b \<notin> plan_reachable plan")
    case True
    then show ?thesis using rest by (auto simp: Let_def)
  next
    case live: False
    show ?thesis
    proof (cases b rule: loops_cases)
      case (some l body c)
      obtain em1 where "nested_loop b (body_nodes body) l c em = Some em1"
        using Cons.prems(1) [OF _ _ some(1)] live by auto
      then show ?thesis using live some(1) rest by (simp add: Let_def)
    next
      case no_loop: none
      show ?thesis
      proof (cases b rule: ifs_cases)
        case (some ts es j c)
        obtain em1 where "nested_if b ts es c em = Some em1" using Cons.prems(2) [OF _ _ some] live by auto
        then show ?thesis using live no_loop some rest by (simp add: Let_def)
      next
        case none
        then show ?thesis using live no_loop rest by (simp add: Let_def)
      qed
    qed
  qed
qed simp

abbreviation block_count :: nat where
  "block_count \<equiv> card (cfg_nodes cfg)"

lemma emit_loop_total:
  assumes red: "reducible cfg"
  shows "e_loops env h = Some (Loop h l body c) \<Longrightarrow> region_size h + block_count < n \<Longrightarrow>
    emit_loop n env h (body_nodes body) l c' indent em \<noteq> None"
proof (induction n arbitrary: h l body c c' indent em)
  case (Suc n)
  from Suc.prems(1) have loop: "finite body" "h \<in> body" "\<And>n. n \<in> body \<Longrightarrow> connects cfg body h n"
      "\<And>n. n \<in> body \<Longrightarrow> n = h \<or> reachable cfg n \<and> on_every_walk cfg h n"
    by (cases h rule: loops_cases; simp)+
  let ?plan = "loop_plan_of env h (body_nodes body)"
  have smaller: "region_size b < region_size h" if b: "b \<in> set (body_order ?plan)" "b \<noteq> h" for b
  proof -
    have m: "b \<in> body" using b(1) loop_plan_order [OF Suc.prems(1) loop(1)] by blast
    then have "connects cfg body h b" by (rule loop(3))
    then obtain u where "edge cfg h u"
      using b(2) unfolding connects_def by (cases rule: converse_rtranclpE) blast+
    then have "h \<in> cfg_nodes cfg" by (rule edge_source)
    then show ?thesis using region_smaller loop(4) [OF m] b(2) by blast
  qed
  have "emit_loop_blocks (\<lambda>h b l c. emit_loop n env h b l c (indent + 1))
      (\<lambda>h' tb eb c. emit_if n env h' tb eb c (indent + 1) (Some h)) env ?plan h l indent (body_order ?plan) e \<noteq> None" for e
  proof (rule emit_loop_blocks_total)
    fix b l' body' c'' em
    assume b: "b \<in> set (body_order ?plan)" "b \<noteq> h" "e_loops env b = Some (Loop b l' body' c'')"
    show "emit_loop n env b (body_nodes body') l' c'' (indent + 1) em \<noteq> None"
      by (rule Suc.IH [OF b(3)]) (use smaller [OF b(1,2)] Suc.prems(2) in simp)
  next
    fix b ts es j c'' em
    assume b: "b \<in> set (body_order ?plan)" "b \<noteq> h" "e_ifs env b = Some (IfThenElse b ts es j c'')"
    show "emit_if n env b ts es c'' (indent + 1) (Some h) em \<noteq> None"
      by (rule emit_if_total [OF red b(3)]) (use smaller [OF b(1,2)] Suc.prems(2) rank_bound [of b] in simp)
  qed
  then show ?case by (auto simp: Let_def)
qed simp

lemma region_size_bound: "region_size h \<le> block_count"
  unfolding region_size_def by (rule card_mono) auto

lemma emit_region_block_total:
  assumes "reducible cfg" "2 * block_count < depth"
  shows "emit_region_block depth env indent b em \<noteq> None"
proof (cases b rule: loops_cases)
  case (some l body c)
  then show ?thesis using emit_loop_total [OF assms(1) some(1)] region_size_bound [of b] assms(2)
    by (simp add: emit_region_block_def)
next
  case no_loop: none
  show ?thesis
  proof (cases b rule: ifs_cases)
    case (some ts es j c)
    then show ?thesis using emit_if_total [OF assms(1) some] rank_bound [of b] assms(2) no_loop
      by (simp add: emit_region_block_def)
  qed (simp add: emit_region_block_def no_loop)
qed

lemma emit_all_total: "(\<And>pc em. pc \<in> set pcs \<Longrightarrow> f pc em \<noteq> None) \<Longrightarrow> emit_all f pcs em \<noteq> None"
proof (induction pcs arbitrary: em)
  case (Cons pc pcs)
  obtain em1 where "f pc em = Some em1" using Cons.prems [of pc em] by auto
  then show ?case using Cons by simp
qed simp

lemma emit_regions_total:
  assumes "reducible cfg" "2 * block_count < depth"
  shows "emit_all (\<lambda>pc em. emit_region_block depth env indent pc (g pc em)) pcs em \<noteq> None"
  by (rule emit_all_total) (rule emit_region_block_total [OF assms])

lemma emit_top_total:
  assumes red: "reducible cfg" and d: "2 * block_count < depth"
  shows "emit_top depth env ss b em \<noteq> None"
proof -
  define dispatch where "dispatch = (case switch_map_of True ss b of Some (Switch _ reg cases _) \<Rightarrow> Some (reg, cases) | _ \<Rightarrow> None)"
  define render where "render = (case dispatch of Some (reg, cases) \<Rightarrow> should_emit_dispatch_loop env b cases em | None \<Rightarrow> False)"
  define em1 where "em1 = (if render then em else write_label env b em)"
  note e = emit_top_def [of depth env ss b em, unfolded Let_def, folded dispatch_def, folded render_def, folded em1_def]
  have target: "emit_dispatch_target depth env dh indent t em \<noteq> None" for dh indent t em
    unfolding emit_dispatch_target_def Let_def case_prod_beta
    by (simp only: emit_regions_total [OF red d] option.distinct split: if_split) simp
  then have "emit_dispatch_targets depth env dh cases indent em \<noteq> None" for dh cases indent em
    unfolding emit_dispatch_targets_def by (rule emit_all_total)
  then have loop: "emit_dispatch_loop depth env b reg cases em \<noteq> None" for reg cases em
    unfolding emit_dispatch_loop_def Let_def by (simp only: map_option_is_None option.distinct split: if_split) simp
  show ?thesis
  proof (cases b rule: loops_cases)
    case (some l body c)
    then show ?thesis using emit_loop_total [OF red some(1)] region_size_bound [of b] d by (simp add: e)
  next
    case no_loop: none
    show ?thesis
    proof (cases b rule: ifs_cases)
      case (some ts es j c)
      obtain r where "try_collect_switch_cases depth env b = Some r"
        using walk_chain_total [OF red, of b depth empty_chain] rank_bound [of b] d by (auto simp: try_collect_switch_cases_def)
      moreover have "emit_if depth env b ts es c 0 None em1 \<noteq> None"
        using emit_if_total [OF red some] rank_bound [of b] d by simp
      ultimately show ?thesis using some by (cases r) (simp_all add: e no_loop emit_top_if_def)
    next
      case none
      then show ?thesis using loop by (auto simp: e no_loop split: option.split prod.split cf_structure.split)
    qed
  qed
qed

lemma emit_switch_targets_total:
  assumes "reducible cfg" "2 * block_count < depth"
  shows "emit_switch_targets depth env em \<noteq> None"
proof -
  have "emit_switch_target depth env t em \<noteq> None" for t em
    unfolding emit_switch_target_def Let_def case_prod_beta
    by (simp only: emit_regions_total [OF assms] option.distinct split: if_split) simp
  then show ?thesis unfolding emit_switch_targets_def by (rule emit_all_total)
qed



section \<open>Labelled blocks are recorded\<close>

lemma collect_region_grows:
  "collect_region env' loops ex queue visited placed = (ord, final) \<Longrightarrow> placed \<subseteq> final"
proof (induction env' loops ex queue visited placed arbitrary: ord final rule: collect_region.induct)
  case (2 env' loops ex pc queue visited placed)
  consider (excluded) "pc \<in> ex" | (seen) "pc \<notin> ex" "pc \<in> visited \<or> pc \<in> placed \<or> pc \<notin> e_reachable env'"
    | (new) "pc \<notin> ex" "\<not> (pc \<in> visited \<or> pc \<in> placed \<or> pc \<notin> e_reachable env')" by blast
  then show ?case
  proof cases
    case new
    then obtain ord' q v where "collect_region env' loops ex q v (if is_loop_header loops pc then placed else insert pc placed) = (ord', final)"
      "q = queue @ filter (\<lambda>s. s \<notin> ex \<and> s \<notin> insert pc visited \<and> s \<notin> (if is_loop_header loops pc then placed else insert pc placed) \<and>
          s \<in> e_reachable env') (region_succs env' loops pc)" "v = insert pc visited"
      using 2(4) by (auto simp: Let_def split: prod.splits)
    then show ?thesis using 2(3) [OF new refl refl refl] by (auto split: if_splits)
  qed (use 2 in simp_all)
qed simp

lemma switch_target_recorded:
  assumes "emit_switch_target depth env t em = Some em'"
  shows "emitted em \<subseteq> emitted em'" "t \<in> e_reachable env \<Longrightarrow> t \<in> emitted em'"
proof -
  have "emitted em \<subseteq> emitted em' \<and> (t \<in> e_reachable env \<longrightarrow> t \<in> emitted em')"
  proof (cases "t \<in> emitted em \<or> t \<notin> e_reachable env")
    case True
    then have "em' = em" using assms by (simp only: emit_switch_target_def if_True option.inject)
    then show ?thesis using True by blast
  next
    case False
    let ?w = "write_label env t em"
    have w: "emitted ?w = emitted em" using frames_write_label by (simp add: frames_def)
    obtain ord placed where c: "collect_region env (e_loops env) {} [t] {} (emitted em) = (ord, placed)" by fastforce
    let ?f = "\<lambda>pc em. emit_region_block depth env 0 pc (if pc \<noteq> t then write_label env pc em else em)"
    have e: "emit_all ?f (filter (\<lambda>pc. pc \<in> e_reachable env) (sort_key (rpo_key env) ord)) (?w\<lparr>emitted := placed\<rparr>) = Some em'"
      using assms False by (simp only: emit_switch_target_def if_False Let_def w c prod.case)
    have t: "t \<in> set ord \<and> (t \<in> placed \<or> is_loop_header (e_loops env) t)"
    proof -
      let ?p = "if is_loop_header (e_loops env) t then emitted em else insert t (emitted em)"
      obtain ord' where o: "collect_region env (e_loops env) {} (filter (\<lambda>s. s \<notin> {} \<and> s \<notin> insert t {} \<and> s \<notin> ?p \<and> s \<in> e_reachable env)
          (region_succs env (e_loops env) t)) (insert t {}) ?p = (ord', placed)" "ord = t # ord'"
        using c False by (auto simp: Let_def split: prod.splits)
      then show ?thesis using collect_region_grows [OF o(1)] by (auto split: if_splits)
    qed
    have grow: "emitted a \<subseteq> emitted b \<and> (\<forall>pc \<in> set pcs. e_loops env pc \<noteq> None \<longrightarrow> pc \<in> emitted b)"
      if "emit_all ?f pcs a = Some b" for pcs a b
      using that
    proof (induction pcs arbitrary: a)
      case (Cons pc pcs)
      then obtain a1 where f: "?f pc a = Some a1" "emit_all ?f pcs a1 = Some b" by (auto simp: bind_eq_Some_conv)
      have "emitted (if pc \<noteq> t then write_label env pc a else a) = emitted a"
        using frames_write_label by (simp add: frames_def)
      then have "emitted a \<subseteq> emitted a1" "e_loops env pc \<noteq> None \<longrightarrow> pc \<in> emitted a1"
        using spreads_emit_region_block [OF f(1)] by (auto simp: spreads_def)
      then show ?case using Cons.IH [OF f(2)] by auto
    qed simp
    have "placed \<subseteq> emitted em'" using grow [OF e] by simp
    moreover have "t \<in> emitted em'" if "t \<notin> placed"
    proof -
      have "e_loops env t \<noteq> None" using that t by (auto simp: is_loop_header_def split: option.splits)
      then show ?thesis using grow [OF e] t False by auto
    qed
    ultimately show ?thesis using collect_region_grows [OF c] by blast
  qed
  then show "emitted em \<subseteq> emitted em'" "t \<in> e_reachable env \<Longrightarrow> t \<in> emitted em'" by blast+
qed

lemma switch_targets_recorded:
  assumes "emit_switch_targets depth env em = Some em'" "reachable cfg pc" "e_labels env pc \<noteq> None" "pc \<in> cfg_nodes cfg"
  shows "pc \<in> emitted em'"
proof -
  have all: "emitted a \<subseteq> emitted b \<and> (\<forall>t \<in> set ts. t \<in> e_reachable env \<longrightarrow> t \<in> emitted b)"
    if "emit_all (emit_switch_target depth env) ts a = Some b" for ts a b
    using that
  proof (induction ts arbitrary: a)
    case (Cons t ts)
    then obtain a1 where f: "emit_switch_target depth env t a = Some a1" "emit_all (emit_switch_target depth env) ts a1 = Some b"
      by (auto simp: bind_eq_Some_conv)
    then show ?case using switch_target_recorded [OF f(1)] Cons.IH [OF f(2)] by auto
  qed simp
  have "pc \<in> emitted em \<or> pc \<in> set (switch_targets env em)"
    using assms(2-4) by (auto simp: switch_targets_def env_graph env_reachable cfg_nodes_def)
  then show ?thesis using all [OF assms(1) [unfolded emit_switch_targets_def]] assms(2) env_reachable by blast
qed

end


section \<open>Every program\<close>

lemma loop_connected:
  assumes g: "flow_graph g" and m: "Loop h l body c \<in> set (detect_loops g (the (compute g)) D)" and n: "n \<in> body"
  shows "connects g body h n"
proof (cases "n = h")
  case False
  have body: "set (body_nodes body) = body" using loop_body_finite [OF g m] by (simp add: body_nodes_def)
  note loop = flow_graph.loop_sound [OF g m]
  obtain xs where xs: "entry_walk g xs" "last xs = n" "h \<in> set xs"
    using loop(3) [OF n] False by (auto simp: reachable_def on_every_walk_def)
  obtain s where s: "s \<in> set (body_succs g (body_nodes body) h h)"
      "(\<lambda>a b. b \<in> set (body_step g Map.empty (body_nodes body) h a))\<^sup>*\<^sup>* s n"
    using walk_inside_loop [of g "body_nodes body" h xs n Map.empty] loop(4) xs n False body by blast
  have step: "edge g a b \<and> b \<in> body" if "b \<in> set (body_step g Map.empty (body_nodes body) h a)" for a b
    using that body by (auto simp: body_step_def body_branches_def if_branches_def body_succs_def edge_def)
  have "connects g body s n" unfolding connects_def
    using s(2) by (rule mono_rtranclp [rule_format, rotated]) (rule step)
  moreover have "connects g body h s" by (rule connects_edge) (use s(1) body in \<open>auto simp: body_succs_def edge_def\<close>)
  ultimately show ?thesis by (metis connects_trans)
qed simp

lemma analysed_graph:
  assumes g: "flow_graph g"
  shows "structured_graph g (make_env (analyze_with_dom_tree g p (the (compute g)) E) g lifted)"
proof (intro structured_graph.intro structured_graph_axioms.intro g, goal_cases)
  case 1
  show ?case by simp
next
  case 2
  show ?case by (simp add: reachable_blocks_exact)
next
  case (3 h s)
  obtain ts es j c D where s: "s = IfThenElse h ts es j c"
      "IfThenElse h ts es j c \<in> set (detect_if_then_else g (the (compute g)) D)"
    by (rule analysed_if [OF 3])
  obtain x y where r: "reachable g h" "h \<notin> D" "cfg_succs g h = [x, y]"
    "\<not> on_every_walk g x h" "\<not> on_every_walk g y h"
    "j = None \<or> reaches g x (the j) \<and> reaches g y (the j)" "set ts \<union> set es \<subseteq> {x, y}"
    "{x, y} \<subseteq> set ts \<union> set es \<union> set_option j" "ts = [] \<longrightarrow> x = y"
    by (rule flow_graph.if_sound [OF g s(2)])
  have "edge g h b \<and> \<not> on_every_walk g b h" if "b \<in> set ts \<union> set es" for b
    using that r by (auto simp: edge_def)
  then show ?case using s(1) r(1) by blast
next
  case (4 h s)
  obtain l body c D where s: "s = Loop h l body c"
      "Loop h l body c \<in> set (detect_loops g (the (compute g)) D)"
    by (rule analysed_loop [OF 4])
  note loop = flow_graph.loop_sound [OF g s(2)]
  have "h \<in> body" using loop(2) by (simp add: natural_loop_def)
  moreover have "finite body" by (rule loop_body_finite [OF g s(2)])
  moreover have "connects g body h n" if "n \<in> body" for n by (rule loop_connected [OF g s(2) that])
  ultimately show ?case using s(1) loop(3) by blast
next
  case (5 h plan l body c)
  obtain l' body' c' D where s: "Loop h l body c = Loop h l' body' c'"
      "Loop h l' body' c' \<in> set (detect_loops g (the (compute g)) D)"
    by (rule analysed_loop [OF 5(2)])
  have "loop_map_of (structures (analyze_with_dom_tree g p (the (compute g)) E)) h = Some (Loop h l body c)"
    using 5(2) by simp
  from built_plan_loop [OF refl this, of g lifted "the (compute g)"]
  have "\<exists>m. body_order plan = compute_loop_body_order g m (body_nodes body) h"
    using 5(1) by (auto simp: plan_of_loop_def Let_def)
  then show ?case using detected_loop_order(2) [OF g s(2)] s(1) by auto
qed

interpretation analysed: structured_graph "reorder (build p) bs"
  "make_env (analyze_with_dom_tree (reorder (build p) bs) p (the (compute (reorder (build p) bs))) E) (reorder (build p) bs) lifted"
  for p bs E lifted
  by (rule analysed_graph [OF reordered.flow_graph_axioms])

lemma edge_targets_closed:
  assumes g: "flow_graph g"
  shows "edge_targets g \<subseteq> cfg_nodes g"
proof
  fix t assume "t \<in> edge_targets g"
  then obtain s b where "(s, b) \<in> set (blocks g)" "t \<in> set (successors b)"
    by (auto simp: edge_targets_def)
  then have "get_block g s = Some b"
    using flow_graph.keys_distinct [OF g] by (simp add: get_block_def)
  then show "t \<in> cfg_nodes g"
    using flow_graph.succs_closed [OF g, of t s] \<open>t \<in> set (successors b)\<close> by (simp add: cfg_succs_def)
qed

lemma initial_emitted [simp]: "emitted (initial_emitter cfg lifted sig) = {}"
  by (simp add: initial_emitter_def Let_def)

lemma emit_program_ends:
  assumes g: "flow_graph g" and red: "reducible g" and bound: "2 * card (cfg_nodes g) < bound"
  shows "\<exists>em. emit_program bound (analyze_with_dom_tree g p (the (compute g)) E) g lifted sig = Some em \<and>
    (\<forall>b \<in> goto_targets g (structures (analyze_with_dom_tree g p (the (compute g)) E)). reachable g b \<longrightarrow> b \<in> emitted em)"
proof -
  let ?sa = "analyze_with_dom_tree g p (the (compute g)) E"
  let ?env = "make_env ?sa g lifted"
  let ?pending = "initial_pending g (the (compute g))"
  let ?em = "initial_emitter g lifted sig"
  note struct = analysed_graph [OF g, of p E lifted]
  have N: "card (edge_targets g) \<le> card (cfg_nodes g)"
    by (rule card_mono) (simp_all add: edge_targets_closed [OF g])
  have pending: "length ?pending + card (edge_targets g - set ?pending) \<le> bound \<and>
      (\<forall>b \<in> set ?pending. structured_graph.expected g (emitted ?em) b)"
  proof (cases "get_block g (entry_pc g) = None")
    case False
    have "card (edge_targets g - set ?pending) \<le> card (edge_targets g)" by (rule card_mono) auto
    then show ?thesis using False N bound
      by (simp add: initial_pending_def structured_graph.expected_def [OF struct])
  next
    case True
    have only: "b = entry_pc g" if r: "reachable g b" for b
    proof -
      obtain xs where xs: "entry_walk g xs" "last xs = b" using r by (auto simp: reachable_def)
      have "cfg_succs g (entry_pc g) = []" using True by (simp add: cfg_succs_def)
      then have "tl xs = []" using xs(1) by (cases xs rule: remdups_adj.cases) (auto simp: entry_walk_def edge_def)
      then show ?thesis using xs by (cases xs) (auto simp: entry_walk_def)
    qed
    have p: "?pending = compute_rpo g" using True flow_graph.rpo_compute [OF g] by (simp add: initial_pending_def)
    have "length (compute_rpo g) \<le> card (cfg_nodes g)"
      using flow_graph.order_shape(1,2) [OF g] distinct_card [of "compute_rpo g"] card_mono [of "cfg_nodes g" "set (compute_rpo g)"]
      by simp
    moreover have "card (edge_targets g - set ?pending) \<le> card (edge_targets g)" by (rule card_mono) auto
    ultimately show ?thesis using N bound only unfolding p
      by (auto simp: structured_graph.expected_def [OF struct])
  qed
  have total: "emit_top bound ?env (structures ?sa) b em \<noteq> None" for b em
    using structured_graph.emit_top_total [OF struct red bound] by simp
  have "structured_graph.rooted g (emitted ?em)"
    unfolding structured_graph.rooted_def [OF struct] by simp
  then obtain em1 where em1: "emit_pending bound bound ?env (structures ?sa) (the (compute g)) ?pending (set ?pending) ?em = Some em1"
    using structured_graph.work_list_ends [OF struct, of bound "structures ?sa", OF total, of ?em ?pending "set ?pending" bound] pending
    by blast
  obtain em2 where em2: "emit_switch_targets bound ?env em1 = Some em2"
    using structured_graph.emit_switch_targets_total [OF struct red bound] by blast
  have e: "emit_program bound ?sa g lifted sig = Some em2"
    using em1 em2 by (simp add: emit_program_def Let_def)
  have "b \<in> emitted em2" if b: "b \<in> goto_targets g (structures ?sa)" "reachable g b" for b
  proof -
    have "get_block g b \<noteq> None" "e_labels ?env b \<noteq> None"
      using b(1) by (auto simp: goto_targets_def build_block_labels_def)
    moreover from this have "b \<in> cfg_nodes g" by (auto simp: cfg_nodes_dom)
    ultimately show ?thesis
      using structured_graph.switch_targets_recorded [OF struct em2 b(2)] by blast
  qed
  then show ?thesis using e by blast
qed

text \<open>A numbering that increases along the forward edges shows that a graph is reducible.\<close>

lemma reducible_numbering:
  assumes "\<And>u v. forward_edge cfg u v \<Longrightarrow> f u < (f v :: nat)"
  shows "reducible cfg"
  unfolding reducible_def
proof (rule allI, rule notI)
  have less: "f u < f v" if "(forward_edge cfg)\<^sup>+\<^sup>+ u v" for u v
    using that by (induction rule: tranclp_induct) (auto dest: assms)
  fix n assume "(forward_edge cfg)\<^sup>+\<^sup>+ n n"
  then show False using less by blast
qed


section \<open>Recursion without end\<close>

text \<open>Two conditionals, each of which is the \<open>then\<close> branch of the other.\<close>

lemma mutual_conditionals:
  assumes a: "e_ifs env a = Some (IfThenElse a (b # ts) es j c)" and b: "e_ifs env b = Some (IfThenElse b (a # ts') es' j' c')"
    and shown: "a \<notin> fully_suppressed_if_headers (e_plan env)" "b \<notin> fully_suppressed_if_headers (e_plan env)"
    and no_switch: "chain_step env a empty_chain \<in> {NoSwitch, Complete None}" "chain_step env b empty_chain \<in> {NoSwitch, Complete None}"
  shows "emit_if n env a (b # ts) es d indent (Some l) em = None \<and> emit_if n env b (a # ts') es' d' indent' (Some l) em' = None"
proof (induction n arbitrary: d indent em d' indent' em')
  case (Suc n)
  have inner: "block_or_inline_if (\<lambda>h tb eb c. emit_if n env h tb eb c i (Some l)) n env i' (Some l) b em = None"
    "block_or_inline_if (\<lambda>h tb eb c. emit_if n env h tb eb c i (Some l)) n env i' (Some l) a em = None" for i i' em
    using Suc no_switch by (cases n; auto simp: block_or_inline_if_def a b try_collect_switch_cases_def)+
  show ?case
    using shown by (simp add: emit_if_with_def emit_then_def inner)
qed simp


text \<open>A block of the body whose conditional does not end keeps the loop from ending, if only plain blocks
  come before it.\<close>

lemma emit_loop_blocks_stuck:
  assumes "set xs \<inter> {b. e_loops env b \<noteq> None \<or> e_ifs env b \<noteq> None} = {}" "b \<notin> set xs" "b \<notin> emitted em" "b \<noteq> h"
    and "b \<in> plan_reachable plan" "e_loops env b = None" "e_ifs env b = Some (IfThenElse h' ts es j c)"
    and "\<And>em. nested_if b ts es c em = None"
  shows "emit_loop_blocks nested_loop nested_if env plan h latch indent (xs @ b # ys) em = None"
  using assms
proof (induction xs arbitrary: em)
  case (Cons x xs)
  have plain: "e_loops env x = None" "e_ifs env x = None" using Cons.prems(1) by auto
  have "emitted (emit_plain_body_block env plan h latch indent x (xs @ b # ys) em) = insert x (emitted em)"
    using frames_loop_control(1) frames_emit_block_body_with_fallthrough
    by (auto simp: emit_plain_body_block_def Let_def frames_def write_line_def split: option.split prod.split)
      (metis snd_conv)+
  then show ?case using Cons plain by (auto simp: Let_def)
qed simp


section \<open>Properties\<close>

lemma counting_reducible: "reducible (reorder (build counting_program) [])"
proof (rule reducible_numbering [where f = id])
  let ?g = "reorder (build counting_program) []"
  fix u v assume f: "forward_edge ?g u v"
  then have e: "edge ?g u v" "\<not> on_every_walk ?g v u" by (simp_all add: forward_edge_def)
  have "cfg_nodes ?g = {0, 3, 8}" by code_simp
  then have u: "u \<in> {0, 3, 8}" using reordered.edge_source [OF e(1)] by simp
  have s: "cfg_succs ?g 0 = [8, 3]" "cfg_succs ?g 3 = [0]" "cfg_succs ?g 8 = []" "entry_pc ?g = 0" by code_simp+
  then have "v \<noteq> 0" using entry_on_every_walk [of ?g u] e(2) by (cases "v = 0") auto
  then show "id u < id v" using u e(1) s by (auto simp: edge_def)
qed

text \<open>C2: for every program whose graph is reducible, the emission ends when the bound on the depth of its recursion
  and on the length of its work list exceeds twice the number of blocks, and every reachable block that is the target
  of a branch, a jump or a structure has then been emitted, so that no label a jump names is left out.\<close>

theorem emission_terminates:
  assumes "g = reorder (build p) bs" "reducible g" "2 * card (cfg_nodes g) < bound"
  shows "\<exists>em. emit_program bound (analyze_with_dom_tree g p (the (compute g)) E) g lifted sig = Some em \<and>
    (\<forall>b \<in> goto_targets g (structures (analyze_with_dom_tree g p (the (compute g)) E)). reachable g b \<longrightarrow> b \<in> emitted em)"
  using graph_of_program [OF assms(1)] assms(2,3) by (rule emit_program_ends)

theorem emission_terminates_witness:
  "emit_program 7 (analyze_with_dom_tree (reorder (build counting_program) []) counting_program
      (the (compute (reorder (build counting_program) []))) {}) (reorder (build counting_program) []) None None \<noteq> None"
proof -
  have "2 * card (cfg_nodes (reorder (build counting_program) [])) < 7" by code_simp
  from emission_terminates [OF refl counting_reducible this, of "{}" None None] show ?thesis by auto
qed

text \<open>A loop whose body is entered at two of its blocks: each of the two ends in a branch to the other.\<close>

definition nested_program :: decoded_program where
  "nested_program = \<lparr>jump_table = [],
     instructions = [(0, BranchImm BranchEqImm 1 0 5), (3, BranchImm BranchEqImm 2 0 2), (4, Jump 6),
       (5, BranchImm BranchEqImm 3 0 (- 2)), (6, Jump 4), (10, Jump (- 10))],
     code_len = 11, memory_base = None\<rparr>"

abbreviation nested_analysis :: structural_analysis where
  "nested_analysis \<equiv> analyze_with_dom_tree (build nested_program) nested_program (the (compute (build nested_program))) {}"

abbreviation nested_env :: emit_env where
  "nested_env \<equiv> make_env nested_analysis (build nested_program) None"

lemma nested_facts:
  "e_ifs nested_env 3 = Some (IfThenElse 3 [5] [4] (Some 10) (Some \<lparr>cond_op = CEq, lhs = OReg 2, rhs = OImm 0\<rparr>))"
  "e_ifs nested_env 5 = Some (IfThenElse 5 [3] [6] (Some 10) (Some \<lparr>cond_op = CEq, lhs = OReg 3, rhs = OImm 0\<rparr>))"
  "e_loops nested_env 3 = None"
  "e_loops nested_env 0 = Some (Loop 0 10 {0, 3, 4, 5, 6, 10} (Some \<lparr>cond_op = CEq, lhs = OReg 1, rhs = OImm 0\<rparr>))"
  "fully_suppressed_if_headers (e_plan nested_env) = {}"
  "chain_step nested_env 3 empty_chain = Complete None" "chain_step nested_env 5 empty_chain = Complete None"
  "body_nodes {0, 3, 4, 5, 6, 10} = [0, 3, 4, 5, 6, 10]"
  by code_simp+

lemma nested_plan:
  "map_option body_order (loop_plans (e_plan nested_env) 0) = Some [3, 5, 6, 4, 10]"
  "map_option (\<lambda>p. 3 \<in> plan_reachable p) (loop_plans (e_plan nested_env) 0) = Some True"
  "map_option (\<lambda>p. has_unemitted_body p (initial_emitter (build nested_program) None None)) (loop_plans (e_plan nested_env) 0) = Some True"
  by code_simp+

lemma nested_loop_stuck: "emit_loop n nested_env 0 [0, 3, 4, 5, 6, 10] 10 c 0 em0 = None" if "emitted em0 = {}"
proof (cases n)
  case (Suc m)
  obtain plan where plan: "loop_plans (e_plan nested_env) 0 = Some plan" "body_order plan = [3, 5, 6, 4, 10]"
      "3 \<in> plan_reachable plan" "has_unemitted_body plan (initial_emitter (build nested_program) None None)"
    using nested_plan by (cases "loop_plans (e_plan nested_env) 0") auto
  have unemitted: "has_unemitted_body plan em0" using plan(4) that by (simp add: has_unemitted_body_def)
  have stuck: "emit_if m nested_env 3 [5] [4] d i (Some l) em = None" for d i l em
    using mutual_conditionals [OF nested_facts(1,2)] nested_facts(5,6,7) by simp
  let ?e = "emit_block_body nested_env 0 1 True (write_line (indentation 0 @ loop_head_text nested_env 0 [0, 3, 4, 5, 6, 10] c) em0)"
  have "emitted ?e = {}" using frames_emit_block_body that by (simp add: frames_def write_line_def)
  then have "emit_loop_blocks (\<lambda>h b l c. emit_loop m nested_env h b l c (0 + 1)) (\<lambda>h tb eb c. emit_if m nested_env h tb eb c (0 + 1) (Some 0))
      nested_env plan 0 10 0 ([] @ 3 # [5, 6, 4, 10]) ?e = None"
    using plan(3) by (intro emit_loop_blocks_stuck [OF _ _ _ _ _ nested_facts(3,1)] stuck) simp_all
  then show ?thesis using unemitted unfolding Suc by (simp add: loop_plan_of_def plan(1,2) Let_def del: make_env_fields)
qed simp

text \<open>The emission of a program with an irreducible part inside a loop does not end: whatever depth is available to
  its recursion, it is exceeded, because two conditionals are each emitted inside the other.\<close>

theorem emission_overflows: "emit_program bound nested_analysis (build nested_program) None None = None"
proof -
  have pending: "initial_pending (build nested_program) (dom_tree nested_analysis) = [0]" by code_simp
  have skip: "\<not> (0 \<notin> e_reachable nested_env \<or> get_block (e_cfg nested_env) 0 = None \<or> (0 :: nat) \<in> {})" by code_simp
  have idom: "idom_of (dom_tree nested_analysis) 0 = 0" by code_simp
  have top: "emit_top bound nested_env (structures nested_analysis) 0 em = None" if "emitted em = {}" for em
  proof -
    have "emitted (write_label nested_env 0 em) = {}" using that frames_write_label by (simp add: frames_def)
    then show ?thesis using that nested_loop_stuck by (simp add: emit_top_def Let_def nested_facts(4,8) del: make_env_fields)
  qed
  have "emit_pending bound bound nested_env (structures nested_analysis) (dom_tree nested_analysis) [0] {0}
      (initial_emitter (build nested_program) None None) = None"
    using skip idom top [of "initial_emitter (build nested_program) None None"] by (cases bound) (simp_all del: make_env_fields)
  then show ?thesis by (simp add: emit_program_def Let_def pending del: make_env_fields analysis_tree)
qed

end
