(* ===== verification/Emission_Examples.thy ===== *)
theory Emission_Examples
  imports Text_Correct Emission_Total
begin

text \<open>
  Inputs on which what is printed does not do what the program does: three small programs through the
  whole emission, and short texts through single passes of \<open>fix_blank_lines\<close>
  (\<open>src/structuring/emission.rs\<close>). Each is evaluated by the kernel.
\<close>

section \<open>Programs\<close>

definition printed :: "decoded_program \<Rightarrow> string option" where
  "printed p = pseudo_code 20 (analyze_with_dom_tree (build p) p (the (compute (build p))) {}) (build p) None None"

text \<open>A loop in one branch of a conditional, a trap in the other.\<close>

definition loop_in_branch_program :: decoded_program where
  "loop_in_branch_program = \<lparr>jump_table = [],
     instructions = [(0, BranchImm BranchEqImm 1 0 4), (3, Trap), (4, BranchImm BranchNeImm 2 0 0),
                     (7, LoadImm 3 1), (9, Trap)],
     code_len = 10, memory_base = None\<rparr>"

text \<open>A block that can be reached need not be printed. Of a conditional whose one branch is a loop and
  whose other branch is a trap, only the header of the loop is printed: the block the loop leaves to is
  reachable in the graph, but no line of the output comes from it; the branch that only traps is left out
  as well.\<close>

theorem reachable_block_lost:
  "7 \<in> compute_reachable_blocks (build loop_in_branch_program) 0 \<and>
   printed loop_in_branch_program =
     Some (unlines [''=== Pseudo-Code ==='', '''', ''if (r1 == 0) {'', ''    // @0004'',
           ''    0x0004: if (r2 != 0) jump 0'', ''}''])"
  by (intro conjI; code_simp)

text \<open>A header that computes something before its test: the computation is printed after the test.\<close>

lemma header_printed_after_test:
  "printed \<lparr>jump_table = [],
       instructions = [(0, LoadImm 2 7), (3, BranchImm BranchEqImm 1 0 7), (6, TwoRegImm AddImm64 1 1 (-1)),
                       (8, Jump (-8)), (10, Trap)],
       code_len = 11, memory_base = None\<rparr> =
     Some (unlines [''=== Pseudo-Code ==='', '''', ''while (r1 != 0) {'', ''    // @0000'', ''    0x0000: r2 = 7'', '''',
           ''    // @0006'', ''    0x0006: r1 = r1 +64 -1'', ''}'', '''', ''// @000a'', ''0x000a: trap''])"
  by code_simp

text \<open>A loop that tests at its end is printed as one that tests at its start.\<close>

lemma test_moved_to_start:
  "printed \<lparr>jump_table = [],
       instructions = [(0, TwoRegImm AddImm64 1 1 (-1)), (3, BranchImm BranchNeImm 1 0 (-3)), (6, Trap)],
       code_len = 7, memory_base = None\<rparr> =
     Some (unlines [''=== Pseudo-Code ==='', '''', ''while (r1 != 0) {'', ''    // @0000'',
           ''    0x0000: r1 = r1 +64 -1'', ''}'', '''', ''// @0006'', ''0x0006: trap''])"
  by code_simp


section \<open>Texts\<close>

text \<open>Passes over the emitted text that change what it means. A jump is removed when its label is the
  next one, although lines stand between them, which now run; a jump at the end of a loop's body out of
  the loop is removed, and the loop goes round again; the body of a label is moved into an \<open>else\<close> although it
  went on to the label below it; an assignment is removed because the next line assigns the same variable,
  although that line reads it; and of the lines that are removed after a \<open>return\<close>, the closing brace of a
  removed block stays.\<close>

theorem passes_change_meaning:
  "elide_lines [''goto block_0001;'', ''y = 1'', ''block_0001:'', ''return''] = [''y = 1'', ''block_0001:'', ''return''] \<and>
   elide_lines [''while (c) {'', ''    goto block_0001;'', ''}'', ''block_0001:'', ''return''] =
     [''while (c) {'', ''}'', ''block_0001:'', ''return''] \<and>
   elide_lines [''if (c) {'', ''    return'', ''} else {'', ''    goto block_0002;'', ''}'', ''x = 1'', ''return'',
                ''block_0002:'', ''y = 1'', ''block_0001:'', ''z = 2'', ''return''] =
     [''if (c) {'', ''    return'', ''} else {'', ''    y = 1'', ''}'', ''x = 1'', ''return'',
      ''block_0001:'', ''z = 2'', ''return''] \<and>
   elide_assignments [''var_0 = 1'', ''var_0 = var_0 + 2''] = [''var_0 = var_0 + 2''] \<and>
   cut_after_terminators [''return'', ''if (d) {'', ''    x = 1'', ''}'', ''block_0001:''] = [''return'', ''}'', ''block_0001:'']"
  by (intro conjI; code_simp)

end
