(* ===== verification/Decompile.thy ===== *)
theory Decompile
  imports Pseudo_Code Idioms_Correct
begin

text \<open>
  The library interface (\<open>src/lib.rs\<close>): the whole way from bytes to pseudo-code, the pruning of functions,
  the positions that are dropped around calls and halts, and the blocks that are suppressed.

  A hash set is a set; \<open>iter\<close> lists the elements of a set in the order of an iteration. The call graph is a
  map; its values are visited here in the order of the functions.
\<close>

section \<open>Pruning functions\<close>

definition is_trivial_unreachable_stub :: "control_flow_graph \<Rightarrow> pvm_function \<Rightarrow> bool" where
  "is_trivial_unreachable_stub cfg func \<longleftrightarrow>
     (\<forall>block_pc \<in> fn_blocks func. case get_block cfg block_pc of
        None \<Rightarrow> True
      | Some block \<Rightarrow> list_all (\<lambda>(_, instr). instr = Trap \<or> instr = Fallthrough) (block_instrs block))"

definition keeps_function :: "control_flow_graph \<Rightarrow> decoded_program \<Rightarrow> pvm_function \<Rightarrow> bool" where
  "keeps_function cfg p func \<longleftrightarrow>
     fn_entry func = entry_pc cfg \<or> fn_entry func \<in> unat ` set (jump_table p) \<or>
     (case get_block cfg (fn_entry func) of None \<Rightarrow> False | Some block \<Rightarrow> predecessors block \<noteq> []) \<or>
     \<not> is_trivial_unreachable_stub cfg func"

definition prune_unreachable_trivial_functions ::
  "control_flow_graph \<Rightarrow> decoded_program \<Rightarrow> pvm_function list \<Rightarrow> pvm_function list" where
  "prune_unreachable_trivial_functions cfg p detected_functions = filter (keeps_function cfg p) detected_functions"


section \<open>Redundant preparation of calls\<close>

text \<open>The register is read before it is written again, up to the jump.\<close>

fun used_before_kill :: "u8 \<Rightarrow> (usize \<times> instruction) list \<Rightarrow> bool" where
  "used_before_kill reg [] = False"
| "used_before_kill reg ((_, instr) # rest) =
     (let (defs, uses) = def_use (classify instr) in
      if reg \<in> set uses then True else if reg \<in> set defs then False else used_before_kill reg rest)"

definition is_load_imm :: "instruction \<Rightarrow> bool" where
  "is_load_imm instr = (case instr of LoadImm _ _ \<Rightarrow> True | LoadImm64 _ _ \<Rightarrow> True | _ \<Rightarrow> False)"

text \<open>The position of a load that prepares nothing; \<open>rest\<close> is what follows it, up to the jump.\<close>

definition redundant_setup ::
  "direct_call_pattern \<Rightarrow> u8 set \<Rightarrow> usize \<times> instruction \<Rightarrow> (usize \<times> instruction) list \<Rightarrow> usize option" where
  "redundant_setup pat needed x rest = (let (pc, instr) = x in
     if pc = load_imm_pc pat \<or> \<not> is_load_imm instr then None
     else case def_reg (classify instr) of
       None \<Rightarrow> None
     | Some reg \<Rightarrow> if reg = 0 \<or> reg \<in> needed \<or> used_before_kill reg rest then None else Some pc)"

text \<open>All positions before the jump, which is the last instruction of the list.\<close>

fun redundant_setups :: "direct_call_pattern \<Rightarrow> u8 set \<Rightarrow> (usize \<times> instruction) list \<Rightarrow> usize list" where
  "redundant_setups pat needed (x # y # rest) =
     (case redundant_setup pat needed x (y # rest) of None \<Rightarrow> [] | Some pc \<Rightarrow> [pc]) @ redundant_setups pat needed (y # rest)"
| "redundant_setups pat needed instrs = []"

definition live_at :: "data_flow_analysis \<Rightarrow> usize \<Rightarrow> u8 set" where
  "live_at df pc = (case live_in df pc of Some regs \<Rightarrow> regs | None \<Rightarrow> {})"

definition needed_by_call :: "data_flow_analysis \<Rightarrow> (string \<rightharpoonup> u8 list) \<Rightarrow> direct_call_pattern \<Rightarrow> u8 set" where
  "needed_by_call df params pat =
     set (case params (pattern_callee_name pat) of Some regs \<Rightarrow> regs | None \<Rightarrow> []) \<union> live_at df (return_pc pat)"

text \<open>The instructions of a block up to the jump, if it is there.\<close>

definition up_to_jump :: "usize \<Rightarrow> (usize \<times> instruction) list \<Rightarrow> (usize \<times> instruction) list" where
  "up_to_jump pc instrs =
     (case dropWhile (\<lambda>x. fst x \<noteq> pc) instrs of [] \<Rightarrow> [] | j # _ \<Rightarrow> takeWhile (\<lambda>x. fst x \<noteq> pc) instrs @ [j])"

definition setups_of_pattern ::
  "control_flow_graph \<Rightarrow> data_flow_analysis \<Rightarrow> (string \<rightharpoonup> u8 list) \<Rightarrow> direct_call_pattern \<Rightarrow> usize list" where
  "setups_of_pattern cfg df params pat = (case get_block cfg (caller_block_pc pat) of
      None \<Rightarrow> []
    | Some block \<Rightarrow>
        redundant_setups pat (needed_by_call df params pat) (up_to_jump (jump_pc pat) (block_instrs block)))"

definition redundant_call_setup_pcs_for_function ::
  "control_flow_graph \<Rightarrow> data_flow_analysis \<Rightarrow> direct_call_pattern list \<Rightarrow> (string \<rightharpoonup> u8 list) \<Rightarrow> usize set" where
  "redundant_call_setup_pcs_for_function cfg df patterns params =
     set (concat (map (setups_of_pattern cfg df params) patterns))"


section \<open>Redundant preparation of halts\<close>

definition is_halt_setup_side_effecting :: "instruction_shape \<Rightarrow> bool" where
  "is_halt_setup_side_effecting shape = (case shape of
      ShStore _ _ _ _ \<Rightarrow> True
    | ShStoreAbsolute _ _ _ \<Rightarrow> True
    | ShStoreImm _ _ _ \<Rightarrow> True
    | ShStoreImmInd _ _ _ _ \<Rightarrow> True
    | ShJump _ \<Rightarrow> True
    | ShJumpInd _ \<Rightarrow> True
    | ShLoadImmJump _ _ _ \<Rightarrow> True
    | ShLoadImmJumpInd _ _ _ \<Rightarrow> True
    | ShBranchImm _ _ _ _ \<Rightarrow> True
    | ShBranchReg _ _ _ _ \<Rightarrow> True
    | ShEcalli _ \<Rightarrow> True
    | ShUnknown _ \<Rightarrow> True
    | ShNoOp name \<Rightarrow> name = ''trap''
    | _ \<Rightarrow> False)"

definition is_eliminable_halt_setup_shape :: "instruction_shape \<Rightarrow> bool" where
  "is_eliminable_halt_setup_shape shape = (case shape of
      ShNoOp name \<Rightarrow> name = ''fallthrough''
    | ShLoadImm _ _ \<Rightarrow> True
    | ShBinReg _ _ _ _ _ \<Rightarrow> True
    | ShBinImm _ _ _ _ _ \<Rightarrow> True
    | ShBinImmRev _ _ _ _ _ \<Rightarrow> True
    | ShUnary _ _ _ \<Rightarrow> True
    | ShLoad _ _ _ _ \<Rightarrow> True
    | ShLoadAbsolute _ _ _ \<Rightarrow> True
    | ShCmovReg _ _ _ _ \<Rightarrow> True
    | ShCmovImm _ _ _ _ \<Rightarrow> True
    | _ \<Rightarrow> False)"

text \<open>One instruction, from the last to the first: the registers needed after it and what is dropped.\<close>

definition halt_step :: "usize set \<Rightarrow> usize \<times> instruction \<Rightarrow> u8 set \<times> usize set \<Rightarrow> u8 set \<times> usize set" where
  "halt_step epilogue x acc = (let (pc, instr) = x; (needed_regs, eliminated) = acc in
     if pc \<in> epilogue then acc
     else let shape = classify instr; (defs, uses) = def_use shape in
       if is_halt_setup_side_effecting shape then (needed_regs - set defs \<union> set uses, eliminated)
       else if set defs \<inter> needed_regs = {} \<and> is_eliminable_halt_setup_shape shape then (needed_regs, insert pc eliminated)
       else (needed_regs - set defs \<union> set uses, eliminated))"

definition halt_setups :: "usize set \<Rightarrow> (usize \<times> instruction) list \<Rightarrow> usize set" where
  "halt_setups epilogue instrs = snd (foldr (halt_step epilogue) instrs ({}, {}))"

definition redundant_halt_setup_pcs_for_function ::
  "control_flow_graph \<Rightarrow> (usize \<rightharpoonup> epilogue_kind) \<Rightarrow> usize set" where
  "redundant_halt_setup_pcs_for_function cfg epilogues =
     \<Union> (set (map (\<lambda>(block_pc, block). case epilogues block_pc of
         Some (Halt halt_pcs) \<Rightarrow> halt_setups (set halt_pcs) (block_instrs block)
       | _ \<Rightarrow> {}) (blocks cfg)))"


section \<open>Suppressed blocks\<close>

text \<open>Everything reached from a queue without entering a stop block.\<close>

function suppress_loop :: "control_flow_graph \<Rightarrow> usize set \<Rightarrow> usize list \<Rightarrow> usize set \<Rightarrow> usize set" where
  "suppress_loop cfg stop [] suppressed = suppressed"
| "suppress_loop cfg stop (bp # queue) suppressed =
     (if bp \<in> suppressed then suppress_loop cfg stop queue suppressed
      else let suppressed = insert bp suppressed in
        suppress_loop cfg stop (queue @ filter (\<lambda>s. s \<notin> suppressed \<and> s \<notin> stop) (cfg_succs cfg bp)) suppressed)"
  by pat_completeness auto

termination
proof (relation "measures [\<lambda>(cfg, stop, queue, suppressed). card ((edge_targets cfg \<union> set queue) - suppressed),
    \<lambda>(cfg, stop, queue, suppressed). length queue]", goal_cases)
  case (2 cfg stop bp queue suppressed)
  then have "(edge_targets cfg \<union> set (bp # queue)) - suppressed = (edge_targets cfg \<union> set queue) - suppressed" by auto
  then show ?case by simp
next
  case (3 cfg stop bp queue suppressed x)
  let ?q = "queue @ filter (\<lambda>s. s \<notin> x \<and> s \<notin> stop) (cfg_succs cfg bp)"
  have "set ?q \<subseteq> set queue \<union> edge_targets cfg" using cfg_succs_target by auto
  then have "(edge_targets cfg \<union> set ?q) - x \<subset> (edge_targets cfg \<union> set (bp # queue)) - suppressed" using 3 by auto
  then have "card ((edge_targets cfg \<union> set ?q) - x) < card ((edge_targets cfg \<union> set (bp # queue)) - suppressed)"
    by (intro psubset_card_mono) auto
  then show ?case by simp
qed simp

text \<open>A block of the jump table at which only trampolines arrive.\<close>

definition is_continuation :: "control_flow_graph \<Rightarrow> pvm_function \<Rightarrow> u32 list \<Rightarrow> direct_call_pattern list \<Rightarrow> usize \<Rightarrow> bool" where
  "is_continuation cfg func jt patterns bp \<longleftrightarrow>
     bp \<in> fn_blocks func \<and> bp \<noteq> fn_entry func \<and> bp \<in> unat ` set jt \<and>
     (case get_block cfg bp of
        None \<Rightarrow> False
      | Some block \<Rightarrow> list_all (\<lambda>pred. pred \<in> jump_target_pc ` set patterns) (predecessors block))"

definition suppression_stop_pcs ::
  "control_flow_graph \<Rightarrow> pvm_function \<Rightarrow> u32 list \<Rightarrow> direct_call_pattern list \<Rightarrow> usize set" where
  "suppression_stop_pcs cfg func jt patterns =
     caller_block_pc ` set patterns \<union> return_pc ` set patterns \<union> Set.filter (is_continuation cfg func jt patterns) (fn_blocks func)"

definition suppress_calls ::
  "control_flow_graph \<Rightarrow> pvm_function \<Rightarrow> u32 list \<Rightarrow> direct_call_pattern list \<Rightarrow> usize set \<Rightarrow> usize set" where
  "suppress_calls cfg func jt patterns suppressed =
     fold (\<lambda>pat suppressed.
         if jump_target_pc pat \<in> fn_blocks func \<and> pattern_callee_name pat \<noteq> fn_name func
         then suppress_loop cfg (suppression_stop_pcs cfg func jt patterns) [jump_target_pc pat] suppressed
         else suppressed) patterns suppressed"

text \<open>A suppressed block is shown again when control arrives from a block that is not suppressed, unless over
  the edge of a call, and so is everything suppressed that it leads to.\<close>

definition has_live_incoming_edge ::
  "control_flow_graph \<Rightarrow> direct_call_pattern list \<Rightarrow> usize set \<Rightarrow> usize \<Rightarrow> bool" where
  "has_live_incoming_edge cfg patterns suppressed block_pc \<longleftrightarrow> (case get_block cfg block_pc of
      None \<Rightarrow> False
    | Some block \<Rightarrow> list_ex (\<lambda>pred. pred \<notin> suppressed \<and>
        (pred, block_pc) \<notin> (\<lambda>pat. (caller_block_pc pat, jump_target_pc pat)) ` set patterns) (predecessors block))"

function unsuppress_loop :: "control_flow_graph \<Rightarrow> usize list \<Rightarrow> usize set \<Rightarrow> usize set" where
  "unsuppress_loop cfg [] suppressed = suppressed"
| "unsuppress_loop cfg (bp # queue) suppressed =
     (if bp \<notin> suppressed then unsuppress_loop cfg queue suppressed
      else let suppressed = suppressed - {bp} in
        unsuppress_loop cfg (queue @ filter (\<lambda>s. s \<in> suppressed) (cfg_succs cfg bp)) suppressed)"
  by pat_completeness auto

termination
proof (relation "measures [\<lambda>(cfg, queue, suppressed). card ((edge_targets cfg \<union> set queue) \<inter> suppressed),
    \<lambda>(cfg, queue, suppressed). length queue]", goal_cases)
  case (2 cfg bp queue suppressed)
  then have "(edge_targets cfg \<union> set (bp # queue)) \<inter> suppressed = (edge_targets cfg \<union> set queue) \<inter> suppressed" by auto
  then show ?case by simp
next
  case (3 cfg bp queue suppressed x)
  let ?q = "queue @ filter (\<lambda>s. s \<in> x) (cfg_succs cfg bp)"
  have "set ?q \<subseteq> set queue \<union> edge_targets cfg" using cfg_succs_target by auto
  then have "(edge_targets cfg \<union> set ?q) \<inter> x \<subset> (edge_targets cfg \<union> set (bp # queue)) \<inter> suppressed" using 3 by auto
  then have "card ((edge_targets cfg \<union> set ?q) \<inter> x) < card ((edge_targets cfg \<union> set (bp # queue)) \<inter> suppressed)"
    by (intro psubset_card_mono) auto
  then show ?case by simp
qed simp

definition unsuppress_blocks_with_live_incoming_edges ::
  "(usize set \<Rightarrow> usize list) \<Rightarrow> control_flow_graph \<Rightarrow> direct_call_pattern list \<Rightarrow> usize set \<Rightarrow> usize set" where
  "unsuppress_blocks_with_live_incoming_edges iter cfg patterns suppressed =
     unsuppress_loop cfg (filter (has_live_incoming_edge cfg patterns suppressed) (iter suppressed)) suppressed"


section \<open>Heap allocation\<close>

text \<open>The pieces of a text between characters that are not part of an identifier.\<close>

fun ident_pieces :: "string \<Rightarrow> string list" where
  "ident_pieces [] = [[]]"
| "ident_pieces (c # s) =
     (if is_ident_byte c then (case ident_pieces s of t # ts \<Rightarrow> (c # t) # ts | [] \<Rightarrow> [[c]]) else [] # ident_pieces s)"

fun expr_uses_var :: "expression \<Rightarrow> string \<Rightarrow> bool" where
  "expr_uses_var (Var n) name = (n = name)"
| "expr_uses_var (BinOp opr l r) name = (expr_uses_var l name \<or> expr_uses_var r name)"
| "expr_uses_var (UnaryOp opr operand) name = expr_uses_var operand name"
| "expr_uses_var (Load width base offset) name = expr_uses_var base name"
| "expr_uses_var (Store width base offset v) name = (expr_uses_var base name \<or> expr_uses_var v name)"
| "expr_uses_var (Call callee args) name = list_ex (\<lambda>a. expr_uses_var a name) args"
| "expr_uses_var (Raw text) name = (name \<in> set (ident_pieces text))"
| "expr_uses_var (Const v) name = False"

text \<open>The variable of a stack slot that the pointer arithmetic stores to.\<close>

definition arithmetic_var :: "lifted_program \<Rightarrow> usize \<Rightarrow> string list" where
  "arithmetic_var lp pc = (case expr_at lp pc of
      Some (Store _ (Var base_name) offset _) \<Rightarrow>
        (case map_of (stack_vars lp) (base_name, offset) of Some name \<Rightarrow> [name] | None \<Rightarrow> [])
    | _ \<Rightarrow> [])"

definition used_elsewhere :: "lifted_program \<Rightarrow> usize list \<Rightarrow> string \<Rightarrow> bool" where
  "used_elsewhere lp arith_pcs name \<longleftrightarrow>
     list_ex (\<lambda>(pc, e). pc \<notin> set arith_pcs \<and> pc \<notin> lifted_program.eliminated_pcs lp \<and> expr_uses_var e name) (expressions lp)"

definition suppress_allocation :: "heap_alloc_pattern \<Rightarrow> lifted_program \<Rightarrow> lifted_program" where
  "suppress_allocation h lp =
     (let lp = lp\<lparr>
          lifted_program.eliminated_pcs := lifted_program.eliminated_pcs lp \<union> set (heap_alloc_pattern.eliminated_pcs h)
            \<union> set (heap_ptr_arithmetic_pcs h) \<union> set (header_write_pcs h),
          suppressed_blocks := suppressed_blocks lp \<union> set (sbrk_blocks h),
          hidden_labels := insert (convergence_block_pc h) (hidden_labels lp),
          lifted_program.linear_memory_offset := heap_alloc_pattern.linear_memory_offset h\<rparr>;
          arith_pcs = heap_ptr_arithmetic_pcs h
      in lp\<lparr>heap_alloc_data_ptr :=
             (case find (used_elsewhere lp arith_pcs) (concat (map (arithmetic_var lp) arith_pcs)) of
                Some name \<Rightarrow> Some name | None \<Rightarrow> heap_alloc_data_ptr lp),
           lifted_heap_alloc := Some h\<rparr>)"

definition apply_heap_alloc_suppression ::
  "control_flow_graph \<Rightarrow> usize \<Rightarrow> u64 option \<Rightarrow> lifted_program \<Rightarrow> lifted_program" where
  "apply_heap_alloc_suppression cfg entry mem_base lp =
     (case detect_heap_alloc_pattern cfg entry mem_base of None \<Rightarrow> lp | Some h \<Rightarrow> suppress_allocation h lp)"


section \<open>The whole way\<close>

record function_info =
  info_name :: string
  info_entry_pc :: usize
  info_block_count :: nat
  info_param_count :: nat

record decompile_output =
  output_pseudo_code :: string
  function_count :: nat
  output_functions :: "function_info list"
  output_warnings :: "string list"

text \<open>\<open>Display\<close> of an error is its \<open>Debug\<close> text.\<close>

definition error_text :: "decode_error \<Rightarrow> string" where
  "error_text e = (case e of
      UnexpectedEof \<Rightarrow> ''UnexpectedEof''
    | InvalidOpcode opcode \<Rightarrow> ''InvalidOpcode('' @ show_nat (unat opcode) @ '')''
    | InvalidVarInt \<Rightarrow> ''InvalidVarInt''
    | InvalidMask \<Rightarrow> ''InvalidMask''
    | UnsupportedJumpTableEntrySize n \<Rightarrow> ''UnsupportedJumpTableEntrySize('' @ show_nat (unat n) @ '')''
    | TrailingData \<Rightarrow> ''TrailingData'')"

definition map_error :: "('e \<Rightarrow> 'f) \<Rightarrow> ('e, 'a) outcome \<Rightarrow> ('f, 'a) outcome" where
  "map_error f r = (case r of Inl (Raised e) \<Rightarrow> Inl (Raised (f e)) | Inl Panicked \<Rightarrow> Inl Panicked | Inr x \<Rightarrow> Inr x)"

definition or_else :: "('e, 'a) outcome \<Rightarrow> ('e, 'a) outcome \<Rightarrow> ('e, 'a) outcome" where
  "or_else r other = (case r of Inl (Raised _) \<Rightarrow> other | _ \<Rightarrow> r)"

definition unknown_opcodes :: "decoded_program \<Rightarrow> u8 list" where
  "unknown_opcodes p = concat (map (\<lambda>(_, instr). case instr of Unknown opcode _ \<Rightarrow> [opcode] | _ \<Rightarrow> []) (instructions p))"

definition opcode_warnings :: "decoded_program \<Rightarrow> string list" where
  "opcode_warnings p = (let found = unknown_opcodes p in
     map (\<lambda>opcode. ''Unknown opcode '' @ show_opcode opcode @ '': '' @ show_nat (count_list found opcode) @ '' occurrence(s)'')
       (sort (remdups found)))"

text \<open>What the analyses of the whole program hand to every function.\<close>

record program_analysis =
  pa_program :: decoded_program
  pa_cfg :: control_flow_graph
  pa_functions :: "pvm_function list"
  pa_patterns :: "direct_call_pattern list"
  pa_call_targets :: "(usize \<times> string) list"
  pa_params :: "string \<rightharpoonup> u8 list"

definition program_call_targets ::
  "(usize set \<Rightarrow> usize list) \<Rightarrow> control_flow_graph \<Rightarrow> pvm_function list \<Rightarrow> (usize \<times> string) list" where
  "program_call_targets iter cfg functions =
     fold (\<lambda>call. AList.update (callee_entry call) (site_callee_name call))
       (concat (map (\<lambda>f. case build_call_graph iter cfg functions (fn_entry f) of Some calls \<Rightarrow> calls | None \<Rightarrow> []) functions)) []"

definition function_graph_of :: "(usize set \<Rightarrow> usize list) \<Rightarrow> program_analysis \<Rightarrow> pvm_function \<Rightarrow> control_flow_graph" where
  "function_graph_of iter pa func =
     build_function_cfg iter (pa_cfg pa) func (pa_patterns pa) (jump_table (pa_program pa))"

definition params_of :: "control_flow_graph \<Rightarrow> pvm_function \<Rightarrow> u8 list" where
  "params_of cfg func = sorted_list_of_set (live_at (analyze cfg) (fn_entry func))"

definition analyze_program :: "(usize set \<Rightarrow> usize list) \<Rightarrow> decoded_program \<Rightarrow> program_analysis" where
  "analyze_program iter p =
     (let cfg = build p;
          functions = prune_unreachable_trivial_functions cfg p (detect_functions cfg);
          pa = \<lparr>pa_program = p, pa_cfg = cfg, pa_functions = functions,
                pa_patterns = detect_direct_call_patterns cfg functions p,
                pa_call_targets = program_call_targets iter cfg functions, pa_params = Map.empty\<rparr>
      in pa\<lparr>pa_params := map_of (rev (map (\<lambda>f. (fn_name f, params_of (function_graph_of iter pa f) f)) functions))\<rparr>)"

definition epilogue_pcs :: "epilogue_kind \<Rightarrow> usize list" where
  "epilogue_pcs kind = (case kind of Return pcs \<Rightarrow> pcs | Halt pcs \<Rightarrow> pcs)"

text \<open>The positions that are dropped from a function: its epilogues, its prologue, and the preparation of
  halts and calls.\<close>

definition function_eliminated_pcs :: "program_analysis \<Rightarrow> control_flow_graph \<Rightarrow> data_flow_analysis \<Rightarrow> usize \<Rightarrow> usize set" where
  "function_eliminated_pcs pa cfg df entry =
     (let epilogues = detect_epilogues cfg in
      \<Union> (set (map (\<lambda>(block_pc, _). case epilogues block_pc of Some kind \<Rightarrow> set (epilogue_pcs kind) | None \<Rightarrow> {}) (blocks cfg))) \<union>
      set (detect_prologue cfg entry) \<union>
      redundant_halt_setup_pcs_for_function cfg epilogues \<union>
      load_imm_pc ` set (pa_patterns pa) \<union>
      redundant_call_setup_pcs_for_function cfg df (pa_patterns pa) (pa_params pa))"

definition annotate ::
  "program_analysis \<Rightarrow> control_flow_graph \<Rightarrow> data_flow_analysis \<Rightarrow> usize \<Rightarrow> lifted_program \<Rightarrow> lifted_program" where
  "annotate pa cfg df entry lp =
     (let lp = lp\<lparr>call_targets := pa_call_targets pa,
          direct_call_sites := map_of (rev (map (\<lambda>pat. (jump_pc pat, pattern_callee_name pat)) (pa_patterns pa))),
          call_param_regs := pa_params pa,
          lifted_memory_base := memory_base (pa_program pa)\<rparr>
      in lp\<lparr>lifted_program.eliminated_pcs := lifted_program.eliminated_pcs lp \<union> function_eliminated_pcs pa cfg df entry,
           epilogue_blocks := epilogue_blocks lp ++ detect_epilogues cfg\<rparr>)"

definition suppress_function_blocks ::
  "(usize set \<Rightarrow> usize list) \<Rightarrow> program_analysis \<Rightarrow> control_flow_graph \<Rightarrow> pvm_function \<Rightarrow> lifted_program \<Rightarrow> lifted_program" where
  "suppress_function_blocks iter pa cfg func lp =
     lp\<lparr>suppressed_blocks := unsuppress_blocks_with_live_incoming_edges iter cfg (pa_patterns pa)
          (suppress_calls cfg func (jump_table (pa_program pa)) (pa_patterns pa) (suppressed_blocks lp))\<rparr>"

text \<open>The lifted program of one function; \<open>None\<close>: the construction of the value graph panics.\<close>

definition lift_function ::
  "(usize set \<Rightarrow> usize list) \<Rightarrow> program_analysis \<Rightarrow> pvm_function \<Rightarrow> (dominator_tree \<times> lifted_program) option" where
  "lift_function iter pa func =
     (let cfg = function_graph_of iter pa func; df = analyze cfg in
      Option.bind (compute cfg) (\<lambda>t.
      map_option (\<lambda>lp. (t,
          apply_heap_alloc_suppression cfg (fn_entry func) (memory_base (pa_program pa))
            (suppress_function_blocks iter pa cfg func (annotate pa cfg df (fn_entry func) lp))))
        (lift_with_dom_tree cfg df t)))"

definition function_text ::
  "(usize set \<Rightarrow> usize list) \<Rightarrow> nat \<Rightarrow> program_analysis \<Rightarrow> pvm_function \<Rightarrow> string option" where
  "function_text iter bound pa func =
     Option.bind (lift_function iter pa func) (\<lambda>(t, lp).
     let cfg = function_graph_of iter pa func;
         structural = analyze_with_dom_tree cfg (pa_program pa) t (fn_entry ` set (pa_functions pa));
         sig = \<lparr>sig_name = fn_name func,
           sig_params = (case pa_params pa (fn_name func) of Some regs \<Rightarrow> regs | None \<Rightarrow> [])\<rparr>
     in pseudo_code bound structural cfg (Some lp) (Some sig))"

definition info_of :: "program_analysis \<Rightarrow> pvm_function \<Rightarrow> function_info" where
  "info_of pa func = \<lparr>info_name = fn_name func, info_entry_pc = fn_entry func,
     info_block_count = card (fn_blocks func),
     info_param_count = length (case pa_params pa (fn_name func) of Some regs \<Rightarrow> regs | None \<Rightarrow> [])\<rparr>"

fun join_texts :: "string option list \<Rightarrow> string option" where
  "join_texts [] = Some []"
| "join_texts (t # ts) = Option.bind t (\<lambda>text. map_option (\<lambda>rest. text @ [line_feed] @ rest) (join_texts ts))"

text \<open>\<open>bound\<close> limits the recursion of the emission; a panic, and a text that is not emitted within the bound,
  make the result \<open>Panicked\<close>.\<close>

definition render_program :: "(usize set \<Rightarrow> usize list) \<Rightarrow> nat \<Rightarrow> decoded_program \<Rightarrow> (string, decompile_output) outcome" where
  "render_program iter bound p =
     (let pa = analyze_program iter p in
      case join_texts (map (function_text iter bound pa) (pa_functions pa)) of
        None \<Rightarrow> Inl Panicked
      | Some text \<Rightarrow> Inr \<lparr>output_pseudo_code = text, function_count = length (pa_functions pa),
          output_functions = map (info_of pa) (pa_functions pa), output_warnings = opcode_warnings p\<rparr>)"

definition decode_any :: "u8 list \<Rightarrow> decoded_program decoded" where
  "decode_any bytes = bind_result (try_strip_metadata bytes) (\<lambda>stripped. or_else (decode_spi stripped) (decode_blob stripped))"

definition decompile_to_pseudocode ::
  "(usize set \<Rightarrow> usize list) \<Rightarrow> nat \<Rightarrow> u8 list \<Rightarrow> (string, decompile_output) outcome" where
  "decompile_to_pseudocode iter bound bytes =
     bind_result (map_error error_text (decode_any bytes)) (render_program iter bound)"

end
