(* ===== verification/Decompile_Correct.thy ===== *)
theory Decompile_Correct
  imports Decompile Text_Correct Ssa_Correct
begin

text \<open>
  What the library interface (\<open>src/lib.rs\<close>) drops from the output is not needed: the suppressed blocks are
  exactly those that only calls lead to, the functions that are pruned do nothing, the instructions that
  prepare a halt or a call and are left out change nothing that is read afterwards. The last needs two
  provisos, and without each of them something that is needed is dropped.
\<close>

section \<open>Names in expressions\<close>

lemma ident_pieces_run:
  "ident_pieces s = takeWhile is_ident_byte s # (case dropWhile is_ident_byte s of [] \<Rightarrow> [] | c # r \<Rightarrow> ident_pieces r)"
  by (induction s) auto

lemma ident_pieces_tokens:
  assumes "name \<noteq> []" "list_all is_ident_byte name"
  shows "name \<in> set (ident_pieces s) \<longleftrightarrow> name \<in> set (tokens s)"
proof (induction s rule: length_induct)
  case (1 s)
  have other: "[c] \<noteq> name" if "\<not> is_ident_byte c" for c using assms that by (cases name) auto
  show ?case
  proof (cases s)
    case Nil
    then show ?thesis using assms by simp
  next
    case (Cons c s')
    show ?thesis
    proof (cases "is_ident_byte c")
      case False
      then show ?thesis using 1 Cons other [OF False] assms(1) by (simp add: tokens_other)
    next
      case True
      let ?rest = "dropWhile is_ident_byte s'"
      have run: "tokens s = (c # takeWhile is_ident_byte s') # tokens ?rest"
        unfolding Cons by (rule tokens_run) (simp_all add: True)
      have pieces: "ident_pieces s = (c # takeWhile is_ident_byte s') # (case ?rest of [] \<Rightarrow> [] | d # r \<Rightarrow> ident_pieces r)"
        using Cons True by (subst ident_pieces_run) simp
      show ?thesis
      proof (cases ?rest)
        case none: Nil
        show ?thesis unfolding run pieces none by simp
      next
        case rest: (Cons d r)
        have d: "\<not> is_ident_byte d" using rest by (metis hd_dropWhile list.discI list.sel(1))
        have "length r < length s" using Cons rest length_dropWhile_le [of is_ident_byte s'] by simp
        then have "name \<in> set (ident_pieces r) \<longleftrightarrow> name \<in> set (tokens r)" using 1 by blast
        then show ?thesis unfolding run pieces rest using other [OF d] by (simp add: tokens_other [OF d])
      qed
    qed
  qed
qed

lemma uses_var_agree:
  assumes "name \<noteq> []" "list_all is_ident_byte name"
  shows "expr_uses_var e name \<longleftrightarrow> expression_uses_var e name"
proof (induction e)
  case (Call callee args)
  then show ?case by (auto simp: list_ex_iff)
next
  case (Raw s)
  then show ?case using ident_pieces_tokens [OF assms] occurs_from_tokens [OF assms, of None s] assms(1)
    by (simp add: raw_contains_identifier_def boundary_def)
qed simp_all


section \<open>Suppressed blocks\<close>

lemma suppress_loop_mono: "suppressed \<subseteq> suppress_loop cfg stop queue suppressed"
  by (induction cfg stop queue suppressed rule: suppress_loop.induct) (auto simp: Let_def)

lemma suppress_loop_queue: "set queue \<subseteq> suppress_loop cfg stop queue suppressed"
proof (induction cfg stop queue suppressed rule: suppress_loop.induct)
  case (2 cfg stop bp queue suppressed)
  show ?case
  proof (cases "bp \<in> suppressed")
    case True
    then show ?thesis using "2.IH"(1) suppress_loop_mono [of suppressed cfg stop queue] by auto
  next
    case False
    let ?q = "queue @ filter (\<lambda>s. s \<notin> insert bp suppressed \<and> s \<notin> stop) (cfg_succs cfg bp)"
    have "set ?q \<subseteq> suppress_loop cfg stop ?q (insert bp suppressed)" by (rule "2.IH"(2) [OF False refl])
    then show ?thesis using False suppress_loop_mono [of "insert bp suppressed" cfg stop ?q] by auto
  qed
qed simp

lemma suppress_loop_closed:
  "x \<in> suppress_loop cfg stop queue suppressed \<Longrightarrow> x \<notin> suppressed \<Longrightarrow> edge cfg x y \<Longrightarrow> y \<notin> stop \<Longrightarrow>
   y \<in> suppress_loop cfg stop queue suppressed"
proof (induction cfg stop queue suppressed rule: suppress_loop.induct)
  case (2 cfg stop bp queue suppressed)
  show ?case
  proof (cases "bp \<in> suppressed")
    case True
    then show ?thesis using "2.IH"(1) "2.prems" by simp
  next
    case False
    let ?q = "queue @ filter (\<lambda>s. s \<notin> insert bp suppressed \<and> s \<notin> stop) (cfg_succs cfg bp)"
    let ?R = "suppress_loop cfg stop ?q (insert bp suppressed)"
    have R: "suppress_loop cfg stop (bp # queue) suppressed = ?R" using False by simp
    show ?thesis
    proof (cases "x = bp")
      case True
      then have "y \<in> set ?q \<or> y \<in> insert bp suppressed" using "2.prems"(3,4) by (auto simp: edge_def)
      then show ?thesis unfolding R using suppress_loop_queue [of ?q cfg stop "insert bp suppressed"]
          suppress_loop_mono [of "insert bp suppressed" cfg stop ?q] by blast
    next
      case other: False
      show ?thesis unfolding R
        by (rule "2.IH"(2) [OF False refl]) (use "2.prems" other R in simp_all)
    qed
  qed
qed simp

lemma suppress_loop_reach:
  "y \<in> suppress_loop cfg stop queue suppressed \<Longrightarrow> y \<notin> suppressed \<Longrightarrow>
   \<exists>x \<in> set queue. (\<lambda>a b. edge cfg a b \<and> b \<notin> stop)\<^sup>*\<^sup>* x y"
proof (induction cfg stop queue suppressed rule: suppress_loop.induct)
  case (2 cfg stop bp queue suppressed)
  let ?S = "\<lambda>a b. edge cfg a b \<and> b \<notin> stop"
  show ?case
  proof (cases "bp \<in> suppressed")
    case True
    then show ?thesis using "2.IH"(1) "2.prems" by auto
  next
    case False
    let ?q = "queue @ filter (\<lambda>s. s \<notin> insert bp suppressed \<and> s \<notin> stop) (cfg_succs cfg bp)"
    have R: "y \<in> suppress_loop cfg stop ?q (insert bp suppressed)" using "2.prems"(1) False by simp
    show ?thesis
    proof (cases "y = bp")
      case other: False
      have "\<exists>x \<in> set ?q. ?S\<^sup>*\<^sup>* x y"
        by (rule "2.IH"(2) [OF False refl R]) (use "2.prems"(2) other in simp)
      then obtain x where x: "x \<in> set ?q" "?S\<^sup>*\<^sup>* x y" by blast
      show ?thesis
      proof (cases "x \<in> set queue")
        case False
        then have "?S bp x" using x(1) by (auto simp: edge_def)
        then have "?S\<^sup>*\<^sup>* bp y" using x(2) by (rule converse_rtranclp_into_rtranclp)
        then show ?thesis by auto
      qed (use x(2) in auto)
    qed auto
  qed
qed simp

lemma unsuppress_loop_sub: "unsuppress_loop cfg queue S \<subseteq> S"
  by (induction cfg queue S rule: unsuppress_loop.induct) (auto simp: Let_def)

lemma unsuppress_loop_queue: "set queue \<inter> unsuppress_loop cfg queue S = {}"
proof (induction cfg queue S rule: unsuppress_loop.induct)
  case (2 cfg bp queue S)
  show ?case
  proof (cases "bp \<in> S")
    case True
    let ?q = "queue @ filter (\<lambda>s. s \<in> S - {bp}) (cfg_succs cfg bp)"
    have "bp \<notin> unsuppress_loop cfg ?q (S - {bp})" using unsuppress_loop_sub [of cfg ?q "S - {bp}"] by blast
    moreover have "set ?q \<inter> unsuppress_loop cfg ?q (S - {bp}) = {}" by (rule "2.IH"(2)) (simp_all add: True)
    ultimately show ?thesis using True by auto
  next
    case False
    then show ?thesis using "2.IH"(1) unsuppress_loop_sub [of cfg queue S] by auto
  qed
qed simp

lemma unsuppress_loop_closed:
  "x \<in> S \<Longrightarrow> x \<notin> unsuppress_loop cfg queue S \<Longrightarrow> edge cfg x y \<Longrightarrow> y \<notin> unsuppress_loop cfg queue S"
proof (induction cfg queue S rule: unsuppress_loop.induct)
  case (2 cfg bp queue S)
  show ?case
  proof (cases "bp \<in> S")
    case True
    let ?q = "queue @ filter (\<lambda>s. s \<in> S - {bp}) (cfg_succs cfg bp)"
    let ?R = "unsuppress_loop cfg ?q (S - {bp})"
    have R: "unsuppress_loop cfg (bp # queue) S = ?R" using True by simp
    show ?thesis
    proof (cases "x = bp")
      case True
      then have "y \<in> set ?q \<or> y \<notin> S - {bp}" using "2.prems"(3) by (auto simp: edge_def)
      then show ?thesis unfolding R
        using unsuppress_loop_queue [of ?q cfg "S - {bp}"] unsuppress_loop_sub [of cfg ?q "S - {bp}"] by blast
    next
      case other: False
      show ?thesis unfolding R
        by (rule "2.IH"(2)) (use "2.prems" other True R in simp_all)
    qed
  next
    case False
    then show ?thesis using "2.IH"(1) "2.prems" by simp
  qed
qed simp

lemma unsuppress_loop_reach:
  "y \<in> S \<Longrightarrow> y \<notin> unsuppress_loop cfg queue S \<Longrightarrow>
   \<exists>x \<in> set queue \<inter> S. (\<lambda>a b. edge cfg a b \<and> b \<in> S)\<^sup>*\<^sup>* x y"
proof (induction cfg queue S rule: unsuppress_loop.induct)
  case (2 cfg bp queue S)
  let ?E = "\<lambda>a b. edge cfg a b \<and> b \<in> S"
  show ?case
  proof (cases "bp \<in> S")
    case True
    let ?q = "queue @ filter (\<lambda>s. s \<in> S - {bp}) (cfg_succs cfg bp)"
    show ?thesis
    proof (cases "y = bp")
      case other: False
      have "y \<notin> unsuppress_loop cfg ?q (S - {bp})" using "2.prems"(2) True by simp
      then have "\<exists>x \<in> set ?q \<inter> (S - {bp}). (\<lambda>a b. edge cfg a b \<and> b \<in> S - {bp})\<^sup>*\<^sup>* x y"
        by (intro "2.IH"(2)) (use "2.prems"(1) other True in simp_all)
      then obtain x where x: "x \<in> set ?q \<inter> S" "(\<lambda>a b. edge cfg a b \<and> b \<in> S - {bp})\<^sup>*\<^sup>* x y" by blast
      have m: "?E\<^sup>*\<^sup>* x y" by (rule mono_rtranclp [rule_format, OF _ x(2)]) simp
      show ?thesis
      proof (cases "x \<in> set queue")
        case False
        then have "?E bp x" using x(1) by (auto simp: edge_def)
        then have "?E\<^sup>*\<^sup>* bp y" using m by (rule converse_rtranclp_into_rtranclp)
        then show ?thesis using True by auto
      qed (use x(1) m in auto)
    qed (use True in auto)
  next
    case False
    then show ?thesis using "2.IH"(1) "2.prems" by auto
  qed
qed simp

definition call_edges :: "direct_call_pattern list \<Rightarrow> (usize \<times> usize) set" where
  "call_edges patterns = (\<lambda>pat. (caller_block_pc pat, jump_target_pc pat)) ` set patterns"

text \<open>A set of blocks is closed to the outside if it is entered only by calls.\<close>

definition entered_by_calls :: "control_flow_graph \<Rightarrow> direct_call_pattern list \<Rightarrow> usize set \<Rightarrow> usize set \<Rightarrow> bool" where
  "entered_by_calls cfg patterns S T \<longleftrightarrow>
     T \<subseteq> S \<and> (\<forall>y \<in> T. \<forall>x. edge cfg x y \<and> x \<notin> T \<longrightarrow> x \<notin> S \<and> (x, y) \<in> call_edges patterns)"

lemma unsuppress_greatest:
  assumes g: "flow_graph cfg" and i: "set (iter S) = S"
  shows "entered_by_calls cfg patterns S (unsuppress_blocks_with_live_incoming_edges iter cfg patterns S)"
    "entered_by_calls cfg patterns S T \<Longrightarrow> T \<subseteq> unsuppress_blocks_with_live_incoming_edges iter cfg patterns S"
proof -
  let ?q = "filter (has_live_incoming_edge cfg patterns S) (iter S)"
  let ?R = "unsuppress_loop cfg ?q S"
  have R: "unsuppress_blocks_with_live_incoming_edges iter cfg patterns S = ?R"
    by (simp add: unsuppress_blocks_with_live_incoming_edges_def)
  note sub = unsuppress_loop_sub [of cfg ?q S] and queue = unsuppress_loop_queue [of ?q cfg S]
  have live: "has_live_incoming_edge cfg patterns S y \<longleftrightarrow> (\<exists>x. edge cfg x y \<and> x \<notin> S \<and> (x, y) \<notin> call_edges patterns)" for y
  proof (cases "y \<in> cfg_nodes cfg")
    case True
    then obtain b where b: "get_block cfg y = Some b" by (auto simp: cfg_nodes_dom)
    then have "x \<in> set (predecessors b) \<longleftrightarrow> edge cfg x y" for x
      using flow_graph.preds_iff_succs [OF g True, of x] by (simp add: cfg_preds_def edge_def)
    then show ?thesis using b by (auto simp: has_live_incoming_edge_def list_ex_iff call_edges_def)
  next
    case False
    then show ?thesis using flow_graph.edge_target [OF g, of _ y]
      by (auto simp: has_live_incoming_edge_def cfg_nodes_dom split: option.split)
  qed
  show "entered_by_calls cfg patterns S (unsuppress_blocks_with_live_incoming_edges iter cfg patterns S)"
    unfolding R entered_by_calls_def
  proof (intro conjI ballI allI impI)
    fix y x assume y: "y \<in> ?R" and x: "edge cfg x y \<and> x \<notin> ?R"
    have "y \<in> S" "y \<notin> set ?q" using sub queue y by blast+
    then have "\<not> has_live_incoming_edge cfg patterns S y" using i by simp
    moreover show "x \<notin> S" using unsuppress_loop_closed [of x S cfg ?q y] x y by blast
    ultimately show "(x, y) \<in> call_edges patterns" using live x by blast
  qed (use sub in blast)
  show "T \<subseteq> unsuppress_blocks_with_live_incoming_edges iter cfg patterns S" if T: "entered_by_calls cfg patterns S T"
    unfolding R
  proof (rule ccontr)
    assume "\<not> T \<subseteq> ?R"
    then obtain y where y: "y \<in> T" "y \<in> S - ?R" using T by (auto simp: entered_by_calls_def)
    then obtain x where x: "x \<in> set ?q \<inter> S" "(\<lambda>a b. edge cfg a b \<and> b \<in> S)\<^sup>*\<^sup>* x y"
      using unsuppress_loop_reach [of y S cfg ?q] by blast
    have "x \<notin> T" using x(1) T live [of x] by (auto simp: entered_by_calls_def)
    from x(2) this x(1) have "y \<notin> T \<and> y \<in> S"
    proof (induction rule: rtranclp_induct)
      case (step a b)
      then show ?case using T by (auto simp: entered_by_calls_def)
    qed simp
    then show False using y by blast
  qed
qed

text \<open>The blocks of the calls of a function: what a jump to another function reaches before it comes to a
  caller, to a return address or to a continuation.\<close>

definition called_blocks :: "control_flow_graph \<Rightarrow> pvm_function \<Rightarrow> u32 list \<Rightarrow> direct_call_pattern list \<Rightarrow> usize set" where
  "called_blocks cfg func jt patterns = {y. \<exists>pat \<in> set patterns. jump_target_pc pat \<in> fn_blocks func \<and>
     pattern_callee_name pat \<noteq> fn_name func \<and>
     (\<lambda>a b. edge cfg a b \<and> b \<notin> suppression_stop_pcs cfg func jt patterns)\<^sup>*\<^sup>* (jump_target_pc pat) y}"

lemma suppress_calls_exact: "suppress_calls cfg func jt patterns {} = called_blocks cfg func jt patterns"
proof -
  let ?stop = "suppression_stop_pcs cfg func jt patterns"
  let ?E = "\<lambda>a b. edge cfg a b \<and> b \<notin> ?stop"
  define ok where "ok pat \<longleftrightarrow> jump_target_pc pat \<in> fn_blocks func \<and> pattern_callee_name pat \<noteq> fn_name func" for pat :: direct_call_pattern
  define step where "step = (\<lambda>pat S. if ok pat then suppress_loop cfg ?stop [jump_target_pc pat] S else S)"
  have "fold step pats S = S \<union> {y. \<exists>pat \<in> set pats. ok pat \<and> ?E\<^sup>*\<^sup>* (jump_target_pc pat) y}"
    if "\<forall>x \<in> S. \<forall>y. ?E x y \<longrightarrow> y \<in> S" for pats S
    using that
  proof (induction pats arbitrary: S)
    case (Cons pat pats)
    let ?T = "{y. ok pat \<and> ?E\<^sup>*\<^sup>* (jump_target_pc pat) y}"
    have s: "step pat S = S \<union> ?T"
    proof (cases "ok pat")
      case True
      let ?R = "suppress_loop cfg ?stop [jump_target_pc pat] S"
      have sub: "S \<subseteq> ?R" and start: "jump_target_pc pat \<in> ?R"
        using suppress_loop_mono [of S cfg ?stop "[jump_target_pc pat]"]
          suppress_loop_queue [of "[jump_target_pc pat]" cfg ?stop S] by simp_all
      have closed: "y \<in> ?R" if "x \<in> ?R" "?E x y" for x y
        using suppress_loop_closed [OF that(1), of y] Cons.prems sub that(2) by blast
      have "y \<in> ?R" if "?E\<^sup>*\<^sup>* (jump_target_pc pat) y" for y
        using that by (induction rule: rtranclp_induct) (use start in simp, use closed in blast)
      moreover have "?R \<subseteq> S \<union> {y. ?E\<^sup>*\<^sup>* (jump_target_pc pat) y}"
        using suppress_loop_reach [of _ cfg ?stop "[jump_target_pc pat]" S] by auto
      ultimately show ?thesis unfolding step_def using True sub by auto
    qed (simp add: step_def)
    have "\<forall>x \<in> S \<union> ?T. \<forall>y. ?E x y \<longrightarrow> y \<in> S \<union> ?T"
      using Cons.prems by (auto intro: rtranclp.rtrancl_into_rtrancl)
    from Cons.IH [OF this] show ?case unfolding fold_simps s by auto
  qed simp
  from this [of "{}" patterns] show ?thesis
    by (simp add: suppress_calls_def called_blocks_def step_def ok_def conj_assoc)
qed


section \<open>Running a block\<close>

text \<open>What an instruction computes is a parameter: \<open>val\<close> gives what it writes to a register and \<open>act\<close> what it
  does to the rest of the machine, from the values it reads and the rest of the machine. A conditional move
  also reads its target, which keeps its value when the condition fails.\<close>

definition is_cmov :: "instruction \<Rightarrow> bool" where
  "is_cmov instr \<longleftrightarrow> (case classify instr of ShCmovReg _ _ _ _ \<Rightarrow> True | ShCmovImm _ _ _ _ \<Rightarrow> True | _ \<Rightarrow> False)"

definition is_sbrk :: "instruction \<Rightarrow> bool" where
  "is_sbrk instr \<longleftrightarrow> (case classify instr of ShUnary opr _ _ \<Rightarrow> opr = USbrk | _ \<Rightarrow> False)"

definition writes :: "instruction \<Rightarrow> u8 list" where
  "writes instr = fst (def_use (classify instr))"

definition reads :: "instruction \<Rightarrow> u8 list" where
  "reads instr = snd (def_use (classify instr)) @ (if is_cmov instr then writes instr else [])"

definition acts :: "instruction \<Rightarrow> bool" where
  "acts instr \<longleftrightarrow> is_sbrk instr \<or> (case classify instr of
      ShNoOp name \<Rightarrow> name \<noteq> ''fallthrough''
    | ShLoadImm _ _ \<Rightarrow> False
    | ShBinReg _ _ _ _ _ \<Rightarrow> False
    | ShBinImm _ _ _ _ _ \<Rightarrow> False
    | ShBinImmRev _ _ _ _ _ \<Rightarrow> False
    | ShUnary _ _ _ \<Rightarrow> False
    | ShLoad _ _ _ _ \<Rightarrow> False
    | ShLoadAbsolute _ _ _ \<Rightarrow> False
    | ShCmovReg _ _ _ _ \<Rightarrow> False
    | ShCmovImm _ _ _ _ \<Rightarrow> False
    | _ \<Rightarrow> True)"

definition exec ::
  "(instruction \<Rightarrow> u64 list \<Rightarrow> 'm \<Rightarrow> u8 \<Rightarrow> u64) \<Rightarrow> (instruction \<Rightarrow> u64 list \<Rightarrow> 'm \<Rightarrow> 'm) \<Rightarrow> instruction \<Rightarrow>
   (u8 \<Rightarrow> u64) \<times> 'm \<Rightarrow> (u8 \<Rightarrow> u64) \<times> 'm" where
  "exec val act instr s = (let (regs, m) = s; vs = map regs (reads instr) in
     (\<lambda>r. if r \<in> set (writes instr) then val instr vs m r else regs r, if acts instr then act instr vs m else m))"

definition run ::
  "(instruction \<Rightarrow> u64 list \<Rightarrow> 'm \<Rightarrow> u8 \<Rightarrow> u64) \<Rightarrow> (instruction \<Rightarrow> u64 list \<Rightarrow> 'm \<Rightarrow> 'm) \<Rightarrow> usize set \<Rightarrow>
   (usize \<times> instruction) list \<Rightarrow> (u8 \<Rightarrow> u64) \<times> 'm \<Rightarrow> (u8 \<Rightarrow> u64) \<times> 'm" where
  "run val act dropped instrs s = fold (\<lambda>(pc, instr) s. if pc \<in> dropped then s else exec val act instr s) instrs s"

lemma run_simps [simp]:
  "run val act dropped [] s = s"
  "run val act dropped ((pc, instr) # rest) s = run val act dropped rest (if pc \<in> dropped then s else exec val act instr s)"
  "run val act dropped (xs @ ys) s = run val act dropped ys (run val act dropped xs s)"
  by (simp_all add: run_def)

lemma run_same_dropped:
  "(\<And>p. p \<in> fst ` set instrs \<Longrightarrow> p \<in> dropped \<longleftrightarrow> p \<in> dropped') \<Longrightarrow> run val act dropped instrs s = run val act dropped' instrs s"
proof (induction instrs arbitrary: s)
  case (Cons x instrs)
  obtain pc i where x: "x = (pc, i)" by (cases x)
  have "run val act dropped instrs t = run val act dropped' instrs t" for t by (rule Cons.IH) (use Cons.prems in simp)
  moreover have "pc \<in> dropped \<longleftrightarrow> pc \<in> dropped'" by (rule Cons.prems) (simp add: x)
  ultimately show ?case by (simp add: x)
qed simp

lemma exec_eq:
  "exec val act instr (regs, m) =
     (\<lambda>r. if r \<in> set (writes instr) then val instr (map regs (reads instr)) m r else regs r,
      if acts instr then act instr (map regs (reads instr)) m else m)"
  by (simp add: exec_def Let_def)

lemma exec_same:
  assumes "\<forall>r \<in> set (reads instr). r1 r = r2 r"
  shows "snd (exec val act instr (r1, m)) = snd (exec val act instr (r2, m))"
    "r \<in> set (writes instr) \<Longrightarrow> fst (exec val act instr (r1, m)) r = fst (exec val act instr (r2, m)) r"
    "r \<notin> set (writes instr) \<Longrightarrow> fst (exec val act instr (r1, m)) r = r1 r"
proof -
  have "map r1 (reads instr) = map r2 (reads instr)" using assms by simp
  then show "snd (exec val act instr (r1, m)) = snd (exec val act instr (r2, m))"
    "r \<in> set (writes instr) \<Longrightarrow> fst (exec val act instr (r1, m)) r = fst (exec val act instr (r2, m)) r"
    by (simp_all add: exec_eq del: map_eq_conv)
qed (simp add: exec_eq)


section \<open>Preparation of halts\<close>

lemma sound_shapes:
  assumes "\<not> is_sbrk instr"
  shows "acts instr \<Longrightarrow> is_eliminable_halt_setup_shape (classify instr) \<Longrightarrow> False"
    "acts instr \<Longrightarrow> is_halt_setup_side_effecting (classify instr) \<or> (\<exists>name. classify instr = ShNoOp name \<and> name \<notin> {''trap'', ''fallthrough''})"
  using assms
  by (auto simp: acts_def is_eliminable_halt_setup_shape_def is_halt_setup_side_effecting_def split: instruction_shape.splits)

lemma halt_step_eliminated:
  "snd (halt_step ep (pc, instr) (N, E)) = E \<or> snd (halt_step ep (pc, instr) (N, E)) = insert pc E"
  by (simp add: halt_step_def Let_def split: prod.split)

lemma halt_scan_pcs: "snd (foldr (halt_step ep) ys ({}, {})) \<subseteq> fst ` set ys"
proof (induction ys)
  case (Cons x ys)
  obtain pc instr N E where "x = (pc, instr)" "foldr (halt_step ep) ys ({}, {}) = (N, E)" by (metis surj_pair)
  then show ?case using Cons halt_step_eliminated [of ep pc instr N E] by auto
qed simp

lemma halt_scan_sound:
  assumes "distinct (map fst ys)" "fst ` set ys \<inter> ep = {}" "\<forall>(_, i) \<in> set ys. \<not> is_cmov i \<and> \<not> is_sbrk i"
    and "\<forall>r \<in> fst (foldr (halt_step ep) ys ({}, {})). r1 r = r2 r"
  shows "snd (run val act (snd (foldr (halt_step ep) ys ({}, {}))) ys (r1, m)) = snd (run val act {} ys (r2, m))"
  using assms
proof (induction ys arbitrary: r1 r2 m)
  case (Cons x ys)
  obtain pc instr where x: "x = (pc, instr)" by (cases x)
  obtain N E where f: "foldr (halt_step ep) ys ({}, {}) = (N, E)" by (cases "foldr (halt_step ep) ys ({}, {})")
  have pc: "pc \<notin> fst ` set ys" "pc \<notin> ep" "\<not> is_cmov instr" "\<not> is_sbrk instr" using Cons.prems(1,2,3) x by auto
  have E: "E \<subseteq> fst ` set ys" using halt_scan_pcs [of ep ys] f by simp
  have IH: "snd (run val act E ys (s1, k)) = snd (run val act {} ys (s2, k))" if "\<forall>r \<in> N. s1 r = s2 r" for s1 s2 k
    using Cons.IH [of s1 s2 k] Cons.prems(1,2,3) that by (simp add: f x)
  let ?defs = "set (writes instr)" and ?uses = "set (snd (def_use (classify instr)))"
  have reads: "set (reads instr) = ?uses" using pc(3) by (simp add: reads_def)
  show ?case
  proof (cases "?defs \<inter> N = {} \<and> is_eliminable_halt_setup_shape (classify instr) \<and> \<not> is_halt_setup_side_effecting (classify instr)")
    case drop: True
    then have step: "halt_step ep x (N, E) = (N, insert pc E)"
      using pc(2) by (simp add: halt_step_def x Let_def writes_def split_def)
    have "\<not> acts instr" using sound_shapes(1) [OF pc(4)] drop by blast
    then have m: "snd (exec val act instr (r2, m)) = m" by (simp add: exec_eq)
    have r: "\<forall>r \<in> N. r1 r = fst (exec val act instr (r2, m)) r"
      using Cons.prems(4) drop by (auto simp: f step exec_eq)
    have "run val act (insert pc E) ys (r1, m) = run val act E ys (r1, m)"
      by (rule run_same_dropped) (use pc(1) in auto)
    then show ?thesis using IH [OF r, of m] m step by (simp add: f x) (metis prod.collapse)
  next
    case keep: False
    then have step: "halt_step ep x (N, E) = (N - ?defs \<union> ?uses, E)"
      using pc(2) by (auto simp: halt_step_def x Let_def writes_def split_def)
    have agree: "\<forall>r \<in> N - ?defs \<union> ?uses. r1 r = r2 r" using Cons.prems(4) by (simp add: f step)
    then have same: "\<forall>r \<in> set (reads instr). r1 r = r2 r" unfolding reads by blast
    have r: "\<forall>r \<in> N. fst (exec val act instr (r1, m)) r = fst (exec val act instr (r2, m)) r"
    proof
      fix r assume "r \<in> N"
      then show "fst (exec val act instr (r1, m)) r = fst (exec val act instr (r2, m)) r"
        using exec_same(2,3) [OF same, of r] agree by (cases "r \<in> ?defs") (auto simp: exec_eq)
    qed
    have "pc \<notin> E" using E pc(1) by blast
    then show ?thesis using IH [OF r, of "snd (exec val act instr (r2, m))"] exec_same(1) [OF same, of val act m] step
      by (simp add: f x) (metis prod.collapse)
  qed
qed simp

lemma halt_epilogue_shape:
  assumes "halt_epilogue instrs = Some (Halt pcs)"
  obtains body lp jp r v offset where "instrs = body @ [(lp, LoadImm r v), (jp, JumpInd r offset)]" "pcs = [lp, jp]"
proof -
  have len: "length instrs \<ge> 2" using assms by (simp add: halt_epilogue_def split: if_splits)
  then obtain xs b where xs: "instrs = xs @ [b]" by (cases instrs rule: rev_cases) auto
  then obtain body a where "xs = body @ [a]" using len by (cases xs rule: rev_cases) auto
  with xs have i: "instrs = body @ [a, b]" by simp
  show thesis using that assms unfolding i
    by (auto simp: halt_epilogue_def nth_append split: instruction.splits if_splits prod.splits)
qed

lemma halt_block_sound:
  assumes e: "halt_epilogue instrs = Some (Halt pcs)" and d: "distinct (map fst instrs)"
    and ok: "\<forall>(_, i) \<in> set instrs. \<not> is_cmov i \<and> \<not> is_sbrk i"
  shows "snd (run val act (halt_setups (set pcs) instrs) instrs s) = snd (run val act {} instrs s)"
proof -
  obtain body lp jp r v offset where i: "instrs = body @ [(lp, LoadImm r v), (jp, JumpInd r offset)]" "pcs = [lp, jp]"
    by (rule halt_epilogue_shape [OF e])
  let ?ep = "set pcs" and ?E = "snd (foldr (halt_step (set pcs)) body ({}, {}))"
  have "foldr (halt_step ?ep) instrs ({}, {}) = foldr (halt_step ?ep) body ({}, {})"
    by (simp add: i halt_step_def)
  then have E: "halt_setups ?ep instrs = ?E" by (simp add: halt_setups_def)
  obtain regs m where s: "s = (regs, m)" by (cases s)
  have "snd (run val act ?E body (regs, m)) = snd (run val act {} body (regs, m))"
    by (rule halt_scan_sound) (use d ok i in auto)
  moreover have "lp \<notin> ?E" "jp \<notin> ?E" using halt_scan_pcs [of ?ep body] d i by auto
  moreover have "lp \<noteq> jp" using d i by auto
  ultimately show ?thesis unfolding E s unfolding i(1)
    by (cases "run val act ?E body (regs, m)"; cases "run val act {} body (regs, m)")
       (simp add: exec_eq writes_def reads_def acts_def is_cmov_def is_sbrk_def def_use_def)
qed


section \<open>Preparation of calls\<close>

text \<open>Two states agree for the rest of a block if they differ only in registers that are not needed after it and
  that it does not read before it writes them.\<close>

definition agree :: "u8 set \<Rightarrow> (usize \<times> instruction) list \<Rightarrow> (u8 \<Rightarrow> u64) \<times> 'm \<Rightarrow> (u8 \<Rightarrow> u64) \<times> 'm \<Rightarrow> bool" where
  "agree needed rest s1 s2 \<longleftrightarrow> snd s1 = snd s2 \<and>
     (\<forall>r. fst s1 r = fst s2 r \<or> r \<noteq> 0 \<and> r \<notin> needed \<and> \<not> used_before_kill r rest)"

lemma agree_exec:
  assumes a: "agree needed ((pc, instr) # rest) s1 s2" and c: "\<not> is_cmov instr"
  shows "agree needed rest (exec val act instr s1) (exec val act instr s2)"
proof -
  obtain r1 r2 m where s: "s1 = (r1, m)" "s2 = (r2, m)" using a by (cases s1; cases s2) (auto simp: agree_def)
  have reads: "set (reads instr) = set (snd (def_use (classify instr)))" using c by (simp add: reads_def)
  have same: "\<forall>r \<in> set (reads instr). r1 r = r2 r"
    using a by (auto simp: agree_def reads split_def Let_def s)
  have "fst (exec val act instr (r1, m)) r = fst (exec val act instr (r2, m)) r \<or>
      r \<noteq> 0 \<and> r \<notin> needed \<and> \<not> used_before_kill r rest" for r
  proof (cases "r \<in> set (writes instr)")
    case True
    then show ?thesis using exec_same(2) [OF same, of r val act m] by blast
  next
    case False
    then have "fst (exec val act instr (r1, m)) r = r1 r" "fst (exec val act instr (r2, m)) r = r2 r" by (simp_all add: exec_eq)
    then show ?thesis using a False same
      by (auto simp: agree_def writes_def split_def Let_def reads s split: if_splits)
  qed
  then show ?thesis using exec_same(1) [OF same, of val act m] by (simp add: agree_def s)
qed

lemma load_imm_facts:
  "is_load_imm instr \<Longrightarrow> \<not> acts instr \<and> reads instr = [] \<and> (def_reg (classify instr) = Some reg \<longleftrightarrow> writes instr = [reg])"
  by (cases instr) (auto simp: is_load_imm_def acts_def is_sbrk_def reads_def is_cmov_def writes_def def_use_def def_reg_def)

lemma agree_drop:
  assumes a: "agree needed ((pc, instr) # rest) s1 s2" and d: "redundant_setup pat needed (pc, instr) rest \<noteq> None"
  shows "agree needed rest s1 (exec val act instr s2)"
proof -
  obtain r2 m where s: "s2 = (r2, m)" by (cases s2)
  obtain reg where reg: "is_load_imm instr" "def_reg (classify instr) = Some reg" "reg \<noteq> 0" "reg \<notin> needed" "\<not> used_before_kill reg rest"
    using d by (auto simp: redundant_setup_def split: if_splits option.splits)
  note facts = load_imm_facts [OF reg(1), of reg]
  have uses: "snd (def_use (classify instr)) = []" using facts by (simp add: reads_def)
  have defs: "fst (def_use (classify instr)) = [reg]" using facts reg(2) by (simp add: writes_def)
  show ?thesis
    using a reg facts by (auto simp: agree_def exec_eq split_def Let_def uses defs s split: if_splits)
qed

lemma agree_run_single:
  assumes "agree needed [x] s1 s2" "\<forall>(_, i) \<in> set [x]. \<not> is_cmov i"
  shows "agree needed [] (run val act {} [x] s1) (run val act {} [x] s2)"
  using assms by (cases x) (auto intro!: agree_exec)

lemma redundant_setups_pcs: "set (redundant_setups pat needed ys) \<subseteq> fst ` set ys"
  by (induction pat needed ys rule: redundant_setups.induct)
     (auto simp: redundant_setup_def split: option.splits if_splits)

lemma call_scan_sound:
  assumes "distinct (map fst ys)" "\<forall>(_, i) \<in> set ys. \<not> is_cmov i" "agree needed ys s1 s2"
  shows "agree needed [] (run val act (set (redundant_setups pat needed ys)) ys s1) (run val act {} ys s2)"
  using assms
proof (induction pat needed ys arbitrary: s1 s2 rule: redundant_setups.induct)
  case (1 pat needed x y rest)
  obtain pc instr where x: "x = (pc, instr)" by (cases x)
  let ?K = "set (redundant_setups pat needed (y # rest))"
  have pc: "pc \<notin> fst ` set (y # rest)" "\<not> is_cmov instr" using "1.prems"(1,2) x by auto
  have K: "pc \<notin> ?K" using redundant_setups_pcs [of pat needed "y # rest"] pc(1) by blast
  have d: "distinct (map fst (y # rest))" "\<forall>(_, i) \<in> set (y # rest). \<not> is_cmov i" using "1.prems"(1,2) by auto
  have run: "run val act D (x # y # rest) s = run val act D (y # rest) (if pc \<in> D then s else exec val act instr s)" for D s
    by (simp only: x run_simps(2))
  show ?case
  proof (cases "redundant_setup pat needed x (y # rest)")
    case None
    have "set (redundant_setups pat needed (x # y # rest)) = ?K" by (simp add: None)
    then show ?thesis using "1.IH" [OF d agree_exec [OF "1.prems"(3) [unfolded x] pc(2)]] K unfolding run by simp
  next
    case (Some p)
    then have p: "p = pc" by (auto simp: redundant_setup_def x split: if_splits option.splits)
    have some: "redundant_setup pat needed (pc, instr) (y # rest) \<noteq> None" using Some x by simp
    have D: "set (redundant_setups pat needed (x # y # rest)) = insert pc ?K" by (simp add: Some p)
    have "run val act (insert pc ?K) (y # rest) s = run val act ?K (y # rest) s" for s
      by (rule run_same_dropped) (use pc(1) in auto)
    then show ?thesis using "1.IH" [OF d agree_drop [OF "1.prems"(3) [unfolded x] some]] unfolding D run by simp
  qed
next
  case "2_2"
  from agree_run_single [OF "2_2.prems"(3,2)] show ?case by (simp only: redundant_setups.simps list.set)
qed simp


section \<open>The code of a function\<close>

lemma code_add_edge:
  "get_block (add_edge x y g) z = Some b \<Longrightarrow> \<exists>b0. get_block g z = Some b0 \<and> block_instrs b = block_instrs b0"
  by (auto simp: add_edge_def get_block_modify split: if_splits)

definition same_code :: "control_flow_graph \<Rightarrow> control_flow_graph \<Rightarrow> bool" where
  "same_code g h \<longleftrightarrow> (\<forall>z b. get_block h z = Some b \<longrightarrow> (\<exists>b0. get_block g z = Some b0 \<and> block_instrs b = block_instrs b0))"

lemma same_code_trans: "same_code g h \<Longrightarrow> same_code h k \<Longrightarrow> same_code g k"
  unfolding same_code_def by metis

lemma same_code_fold: "(\<And>x g. same_code g (f x g)) \<Longrightarrow> same_code g (fold f xs g)"
proof (induction xs arbitrary: g)
  case (Cons x xs)
  then show ?case using same_code_trans [of g "f x g"] by simp
qed (simp add: same_code_def)

lemma same_code_edge: "same_code g (add_edge x y g)" and same_code_refl: "same_code g g"
  using code_add_edge [of x y g] by (auto simp: same_code_def)

lemma function_code:
  assumes "set_iteration iter" "flow_graph cfg" "fn_blocks f \<subseteq> cfg_nodes cfg"
  shows "same_code cfg (build_function_cfg iter cfg f pats jt)"
proof -
  have "same_code cfg (sub_blocks iter cfg f)"
    using set_iteration.get_block_sub_blocks(1) [OF assms]
    by (auto simp: same_code_def restrict_block_def split: if_splits)
  moreover have "same_code g (add_return_edge f pat g)" for pat g
    by (simp add: add_return_edge_def same_code_edge same_code_refl)
  moreover have "same_code g (add_trampoline_edge f jt pat g)" for pat g
    by (simp add: add_trampoline_edge_def Let_def same_code_edge same_code_refl split: option.split list.split)
  ultimately have "same_code cfg (fold (add_return_edge f) pats (sub_blocks iter cfg f))"
      "same_code g (fold (add_trampoline_edge f jt) pats g)" for g
    using same_code_trans [OF _ same_code_fold [of "add_return_edge f"]] same_code_fold [of "add_trampoline_edge f jt"] by blast+
  then show ?thesis unfolding build_function_cfg_def by (rule same_code_trans)
qed

lemma pa_fields [simp]:
  "pa_program (analyze_program iter p) = p" "pa_cfg (analyze_program iter p) = build p"
  "pa_functions (analyze_program iter p) = prune_unreachable_trivial_functions (build p) p (detect_functions (build p))"
  "pa_patterns (analyze_program iter p) =
     detect_direct_call_patterns (build p) (prune_unreachable_trivial_functions (build p) p (detect_functions (build p))) p"
  by (simp_all add: analyze_program_def Let_def)

lemma kept_function:
  "f \<in> set (pa_functions (analyze_program iter p)) \<Longrightarrow> f \<in> set (detect_functions (build p))"
  by (simp add: prune_unreachable_trivial_functions_def)

lemma unique_pcs_same_code: "unique_pcs g \<Longrightarrow> same_code g h \<Longrightarrow> unique_pcs h"
  unfolding unique_pcs_def same_code_def by metis

lemma repeated_key:
  "\<not> distinct (map fst xs) \<Longrightarrow> \<exists>pre pc i mid i' post. xs = pre @ (pc, i) # mid @ (pc, i') # post"
proof (induction xs)
  case (Cons x xs)
  obtain pc i where x: "x = (pc, i)" by (cases x)
  show ?case
  proof (cases "pc \<in> fst ` set xs")
    case True
    then obtain i' where "(pc, i') \<in> set xs" by auto
    then obtain mid post where "xs = mid @ (pc, i') # post" by (meson split_list)
    then show ?thesis unfolding x by (intro exI [of _ "[]"]) auto
  next
    case False
    then obtain pre pc' i mid i' post where "xs = pre @ (pc', i) # mid @ (pc', i') # post" using Cons x by auto
    then show ?thesis by (intro exI [of _ "x # pre"]) auto
  qed
qed simp

lemma unique_pcs_distinct:
  assumes u: "unique_pcs g" and b: "get_block g x = Some b"
  shows "distinct (map fst (block_instrs b))"
    "get_block g y = Some c \<Longrightarrow> x \<noteq> y \<Longrightarrow> fst ` set (block_instrs b) \<inter> fst ` set (block_instrs c) = {}"
proof -
  show "distinct (map fst (block_instrs b))"
  proof (rule ccontr)
    assume "\<not> distinct (map fst (block_instrs b))"
    then obtain pre pc i mid i' post where "block_instrs b = pre @ (pc, i) # mid @ (pc, i') # post"
      using repeated_key by blast
    then have "block_instrs b = pre @ (pc, i) # (mid @ (pc, i') # post)" "block_instrs b = (pre @ (pc, i) # mid) @ (pc, i') # post"
      by simp_all
    then have "pre = pre @ (pc, i) # mid" using u b unfolding unique_pcs_def by blast
    then show False by simp
  qed
  show "fst ` set (block_instrs b) \<inter> fst ` set (block_instrs c) = {}" if c: "get_block g y = Some c" "x \<noteq> y"
  proof (rule ccontr)
    assume "\<not> ?thesis"
    then obtain pc i i' where "(pc, i) \<in> set (block_instrs b)" "(pc, i') \<in> set (block_instrs c)" by auto
    then obtain pre post pre' post' where "block_instrs b = pre @ (pc, i) # post" "block_instrs c = pre' @ (pc, i') # post'"
      by (meson split_list)
    then show False using u b c unfolding unique_pcs_def by blast
  qed
qed

lemma function_graph_facts:
  assumes i: "set_iteration iter" and f: "f \<in> set (pa_functions (analyze_program iter p))"
    and g: "g = function_graph_of iter (analyze_program iter p) f"
  shows "flow_graph g" "cfg_nodes g = fn_blocks f" "entry_pc g = fn_entry f" "fn_entry f \<in> cfg_nodes g"
    "same_code (build p) g"
proof -
  note fn = kept_function [OF f]
  have g': "g = build_function_cfg iter (build p) f (pa_patterns (analyze_program iter p)) (jump_table p)"
    by (simp add: g function_graph_of_def)
  show "flow_graph g" "cfg_nodes g = fn_blocks f" "entry_pc g = fn_entry f" "fn_entry f \<in> cfg_nodes g"
    unfolding g' using set_iteration.function_flow_graph [OF i built.flow_graph_axioms fn] by blast+
  have "fn_blocks f \<subseteq> cfg_nodes (build p)" using built.functions_partition(2) [OF fn] by simp
  then show "same_code (build p) g" unfolding g' by (rule function_code [OF i built.flow_graph_axioms])
qed

lemma function_unique_pcs:
  assumes "wf_program p" "set_iteration iter" "f \<in> set (pa_functions (analyze_program iter p))"
    and "g = function_graph_of iter (analyze_program iter p) f"
  shows "unique_pcs g"
proof -
  have "unique_pcs (build p)"
    using unique_pcs_build [OF assms(1), of "[]"] unfolding unique_pcs_def reorder_same(1) [OF keys_build] .
  then show ?thesis by (rule unique_pcs_same_code [OF _ function_graph_facts(5) [OF assms(2-4)]])
qed

text \<open>What is dropped from a block that halts.\<close>

lemma halts_of_block:
  assumes g: "flow_graph g" "unique_pcs g" and b: "get_block g x = Some b"
    and e: "halt_epilogue (block_instrs b) = Some (Halt pcs)" and pc: "pc \<in> fst ` set (block_instrs b)"
  shows "pc \<in> redundant_halt_setup_pcs_for_function g (detect_epilogues g) \<longleftrightarrow> pc \<in> halt_setups (set pcs) (block_instrs b)"
proof -
  have scan: "halt_setups ep ys \<subseteq> fst ` set ys" for ep ys
    unfolding halt_setups_def by (rule halt_scan_pcs)
  have eb: "detect_epilogues g x = Some (Halt pcs)" using b e by (simp add: detect_epilogues_def block_epilogue_def)
  have member: "q \<in> redundant_halt_setup_pcs_for_function g (detect_epilogues g) \<longleftrightarrow>
      (\<exists>y c pcs'. get_block g y = Some c \<and> detect_epilogues g y = Some (Halt pcs') \<and> q \<in> halt_setups (set pcs') (block_instrs c))" for q
  proof -
    have "(y, c) \<in> set (blocks g) \<longleftrightarrow> get_block g y = Some c" for y c
      using flow_graph.keys_distinct [OF g(1)] by (simp add: get_block_def)
    moreover have "q \<in> (case o' of Some (Halt pcs) \<Rightarrow> A pcs | _ \<Rightarrow> {}) \<longleftrightarrow> (\<exists>pcs. o' = Some (Halt pcs) \<and> q \<in> A pcs)" for o' A
      by (cases o') (auto split: epilogue_kind.split)
    ultimately show ?thesis unfolding redundant_halt_setup_pcs_for_function_def Union_iff set_map bex_simps(7)
      by (auto simp only: split_def fst_conv snd_conv prod.collapse Bex_def split_paired_Ex)
  qed
  show ?thesis
  proof
    assume "pc \<in> halt_setups (set pcs) (block_instrs b)"
    then show "pc \<in> redundant_halt_setup_pcs_for_function g (detect_epilogues g)"
      unfolding member using eb b by blast
  next
    assume "pc \<in> redundant_halt_setup_pcs_for_function g (detect_epilogues g)"
    then obtain y c pcs' where c: "get_block g y = Some c" "detect_epilogues g y = Some (Halt pcs')" "pc \<in> halt_setups (set pcs') (block_instrs c)"
      unfolding member by blast
    then have "x = y" using unique_pcs_distinct(2) [OF g(2) b c(1)] scan pc by blast
    then show "pc \<in> halt_setups (set pcs) (block_instrs b)" using c b eb by simp
  qed
qed


section \<open>Properties\<close>

text \<open>C7: The blocks of a function that stay suppressed are exactly the largest part of its call trampolines
  that control enters only over the edges of calls: of the blocks that the jumps to other functions reach
  (before a caller, a return address or a continuation), none is hidden that a shown block leads to
  otherwise, nor one that a block shown for this reason leads to, and every set of blocks with this property
  stays hidden.\<close>

theorem suppressed_only_from_calls:
  assumes "set_iteration iter" "f \<in> set (pa_functions (analyze_program iter p))"
    and "pa = analyze_program iter p" "g = function_graph_of iter pa f" "suppressed_blocks lp = {}"
  shows "entered_by_calls g (pa_patterns pa) (called_blocks g f (jump_table p) (pa_patterns pa))
      (suppressed_blocks (suppress_function_blocks iter pa g f lp)) \<and>
    (\<forall>T. entered_by_calls g (pa_patterns pa) (called_blocks g f (jump_table p) (pa_patterns pa)) T \<longrightarrow>
      T \<subseteq> suppressed_blocks (suppress_function_blocks iter pa g f lp))"
proof -
  note g = function_graph_facts [OF assms(1,2) assms(4) [unfolded assms(3)]]
  let ?S = "called_blocks g f (jump_table p) (pa_patterns pa)"
  have "?S \<subseteq> cfg_nodes g"
  proof
    fix y assume "y \<in> ?S"
    then obtain x where x: "x \<in> cfg_nodes g"
        "(\<lambda>a b. edge g a b \<and> b \<notin> suppression_stop_pcs g f (jump_table p) (pa_patterns pa))\<^sup>*\<^sup>* x y"
      using g(2) by (auto simp: called_blocks_def)
    from x(2,1) show "y \<in> cfg_nodes g"
    proof (induction rule: rtranclp_induct)
      case (step a b)
      then show ?case using flow_graph.edge_target [OF g(1), of a b] by blast
    qed
  qed
  then have i: "set (iter ?S) = ?S"
    by (intro set_iteration.iter_set [OF assms(1)] finite_subset [OF _ cfg_nodes_finite])
  have "suppressed_blocks (suppress_function_blocks iter pa g f lp) =
      unsuppress_blocks_with_live_incoming_edges iter g (pa_patterns pa) ?S"
    by (simp add: suppress_function_blocks_def assms(3,5) suppress_calls_exact)
  then show ?thesis using unsuppress_greatest [OF g(1), of iter ?S, OF i] by simp
qed

lemma call_program_kept: "main_function \<in> set (pa_functions (analyze_program sorted_list_of_set call_program))"
  unfolding pa_fields by code_simp

theorem suppressed_only_from_calls_witness:
  "let pa = analyze_program sorted_list_of_set call_program; g = function_graph_of sorted_list_of_set pa main_function
   in entered_by_calls g (pa_patterns pa) (called_blocks g main_function [15] (pa_patterns pa))
        (suppressed_blocks (suppress_function_blocks sorted_list_of_set pa g main_function empty_lifted))"
  using suppressed_only_from_calls [OF ascending.set_iteration_axioms call_program_kept refl refl, of empty_lifted]
  by (simp add: Let_def empty_lifted_def call_program_def)

text \<open>C5: What is left out as the preparation of a halt changes nothing but registers that nothing reads: whatever
  the instructions compute, a block that ends in a halt does the same to memory and to the outside when it
  runs without them, provided it has no conditional move and does not grow the heap. Loads are taken not to
  fault.\<close>

theorem halt_setup_unneeded:
  assumes "wf_program p" "set_iteration iter" "f \<in> set (pa_functions (analyze_program iter p))"
    and "g = function_graph_of iter (analyze_program iter p) f" "get_block g x = Some b"
    and "halt_epilogue (block_instrs b) = Some (Halt pcs)" "\<forall>(_, i) \<in> set (block_instrs b). \<not> is_cmov i \<and> \<not> is_sbrk i"
  shows "snd (run val act (redundant_halt_setup_pcs_for_function g (detect_epilogues g)) (block_instrs b) s) =
    snd (run val act {} (block_instrs b) s)"
proof -
  note u = function_unique_pcs [OF assms(1-4)] and fg = function_graph_facts(1) [OF assms(2-4)]
  have "run val act (redundant_halt_setup_pcs_for_function g (detect_epilogues g)) (block_instrs b) s =
      run val act (halt_setups (set pcs) (block_instrs b)) (block_instrs b) s"
    by (rule run_same_dropped) (rule halts_of_block [OF fg u assms(5,6)])
  then show ?thesis using halt_block_sound [OF assms(6) unique_pcs_distinct(1) [OF u assms(5)] assms(7)] by simp
qed

text \<open>A meaning of the instructions for the examples: loads of constants and moves, and a trace of what is stored
  and of the growth of the heap.\<close>

definition demo_value :: "instruction \<Rightarrow> u64 list \<Rightarrow> u64 list \<Rightarrow> u8 \<Rightarrow> u64" where
  "demo_value instr vs m r = (case instr of
      LoadImm _ v \<Rightarrow> scast v
    | CmovIz _ _ _ \<Rightarrow> if vs ! 1 = 0 then vs ! 0 else vs ! 2
    | _ \<Rightarrow> 0)"

definition demo_action :: "instruction \<Rightarrow> u64 list \<Rightarrow> u64 list \<Rightarrow> u64 list" where
  "demo_action instr vs m = (case instr of StoreInd _ _ _ _ \<Rightarrow> m @ vs | TwoReg _ _ _ \<Rightarrow> m @ [0] | _ \<Rightarrow> m)"

text \<open>A block that sets register 3 for nothing and halts.\<close>

definition halting_program :: decoded_program where
  "halting_program = \<lparr>jump_table = [],
     instructions = [(0, LoadImm 3 5), (3, LoadImm 0 (- 0x10000)), (9, JumpInd 0 0)], code_len = 11, memory_base = None\<rparr>"

definition halting_function :: pvm_function where
  "halting_function = \<lparr>fn_entry = 0, fn_blocks = {0}, fn_name = ''main''\<rparr>"

abbreviation halting_graph :: control_flow_graph where
  "halting_graph \<equiv> function_graph_of sorted_list_of_set (analyze_program sorted_list_of_set halting_program) halting_function"

lemma halting_facts:
  "wf_program halting_program" "halting_function \<in> set (pa_functions (analyze_program sorted_list_of_set halting_program))"
  "map_option block_instrs (get_block halting_graph 0) = Some (instructions halting_program)"
  "halt_epilogue (instructions halting_program) = Some (Halt [3, 9])"
  "list_all (\<lambda>(_, i). \<not> is_cmov i \<and> \<not> is_sbrk i) (instructions halting_program)"
  "redundant_halt_setup_pcs_for_function halting_graph (detect_epilogues halting_graph) = {0}"
proof -
  show "wf_program halting_program" by code_simp
  show "halting_function \<in> set (pa_functions (analyze_program sorted_list_of_set halting_program))"
    unfolding pa_fields by code_simp
qed (unfold function_graph_of_def pa_fields, code_simp+)

theorem halt_setup_unneeded_witness:
  "snd (run demo_value demo_action {0} (instructions halting_program) ((\<lambda>r. 1), [])) =
   snd (run demo_value demo_action {} (instructions halting_program) ((\<lambda>r. 1), []))"
proof -
  obtain b where b: "get_block halting_graph 0 = Some b" "block_instrs b = instructions halting_program"
    using halting_facts(3) by auto
  show ?thesis
    using halt_setup_unneeded [OF halting_facts(1) ascending.set_iteration_axioms halting_facts(2) refl b(1), of "[3, 9]" demo_value demo_action "((\<lambda>r. 1), [])"]
      halting_facts(4-6) b(2) by (simp add: list_all_iff)
qed

text \<open>C6: What is left out as the preparation of a direct call is not needed: whatever the instructions compute,
  the block runs up to its jump with the same effect on memory, and it comes to the callee with the same
  values in the return address, in every parameter of the callee and in every register that is live at the
  return address, provided it has no conditional move. Loads are taken not to fault.\<close>

theorem call_setup_unneeded:
  assumes "wf_program p" "set_iteration iter" "f \<in> set (pa_functions (analyze_program iter p))"
    and "g = function_graph_of iter (analyze_program iter p) f" "get_block g (caller_block_pc pat) = Some b"
    and "\<forall>(_, i) \<in> set (block_instrs b). \<not> is_cmov i" "instrs = up_to_jump (jump_pc pat) (block_instrs b)"
  shows "snd (run val act (set (setups_of_pattern g df params pat)) instrs s) = snd (run val act {} instrs s) \<and>
    (\<forall>r \<in> insert 0 (needed_by_call df params pat).
      fst (run val act (set (setups_of_pattern g df params pat)) instrs s) r = fst (run val act {} instrs s) r)"
proof -
  let ?P = "\<lambda>x. fst x \<noteq> jump_pc pat"
  have "\<exists>rest. block_instrs b = instrs @ rest \<or> instrs = []"
  proof (cases "dropWhile ?P (block_instrs b)")
    case (Cons j rest)
    then have "block_instrs b = takeWhile ?P (block_instrs b) @ j # rest" by (metis takeWhile_dropWhile_id)
    then show ?thesis unfolding assms(7) up_to_jump_def Cons by (intro exI [of _ rest]) simp
  next
    case Nil
    then show ?thesis unfolding assms(7) up_to_jump_def Nil by simp
  qed
  then have "distinct (map fst instrs)" "\<forall>(_, i) \<in> set instrs. \<not> is_cmov i"
    using unique_pcs_distinct(1) [OF function_unique_pcs [OF assms(1-4)] assms(5)] assms(6) by auto
  moreover have "agree (needed_by_call df params pat) instrs s s" by (simp add: agree_def)
  ultimately have "agree (needed_by_call df params pat) []
      (run val act (set (setups_of_pattern g df params pat)) instrs s) (run val act {} instrs s)"
    using call_scan_sound [of instrs "needed_by_call df params pat" s s val act pat] assms(5,7)
    by (simp add: setups_of_pattern_def)
  then show ?thesis by (auto simp: agree_def)
qed

text \<open>A caller that sets register 5, which the callee does not read, before the return address and the jump.\<close>

definition setup_program :: decoded_program where
  "setup_program = \<lparr>jump_table = [18],
     instructions = [(0, LoadImm 5 7), (3, LoadImm64 0 2), (13, Jump 10), (18, Trap), (23, TwoRegImm AddImm64 2 2 (- 8)), (26, JumpInd 0 0)],
     code_len = 28, memory_base = None\<rparr>"

abbreviation setup_graph :: control_flow_graph where
  "setup_graph \<equiv> function_graph_of sorted_list_of_set (analyze_program sorted_list_of_set setup_program) main_function"

definition setup_call :: direct_call_pattern where
  "setup_call = \<lparr>caller_block_pc = 0, load_imm_pc = 3, jump_pc = 13, jump_target_pc = 23, return_pc = 18, pattern_callee_name = ''func_1''\<rparr>"

lemma setup_facts:
  "wf_program setup_program" "main_function \<in> set (pa_functions (analyze_program sorted_list_of_set setup_program))"
  "map_option block_instrs (get_block setup_graph (caller_block_pc setup_call)) = Some (take 3 (instructions setup_program))"
  "list_all (\<lambda>(_, i). \<not> is_cmov i) (take 3 (instructions setup_program))"
  "up_to_jump (jump_pc setup_call) (take 3 (instructions setup_program)) = take 3 (instructions setup_program)"
  "set (setups_of_pattern setup_graph (analyze setup_graph) Map.empty setup_call) = {0}"
proof -
  show "wf_program setup_program" by code_simp
  show "main_function \<in> set (pa_functions (analyze_program sorted_list_of_set setup_program))" unfolding pa_fields by code_simp
qed (unfold function_graph_of_def pa_fields, code_simp+)

theorem call_setup_unneeded_witness:
  "fst (run demo_value demo_action {0} (take 3 (instructions setup_program)) ((\<lambda>r. 1), [])) 0 =
   fst (run demo_value demo_action {} (take 3 (instructions setup_program)) ((\<lambda>r. 1), [])) 0"
proof -
  obtain b where b: "get_block setup_graph (caller_block_pc setup_call) = Some b" "block_instrs b = take 3 (instructions setup_program)"
    using setup_facts(3) by auto
  have "\<forall>(_, i) \<in> set (block_instrs b). \<not> is_cmov i" using setup_facts(4) unfolding b(2) list_all_iff .
  from call_setup_unneeded [OF setup_facts(1) ascending.set_iteration_axioms setup_facts(2) refl b(1) this
      setup_facts(5) [symmetric, folded b(2)], where df = "analyze setup_graph" and params = Map.empty and
        val = demo_value and act = demo_action and s = "((\<lambda>r. 1), [])"]
  show ?thesis unfolding b(2) setup_facts(6) by blast
qed

text \<open>C37: Pruning loses no code: a block of a function that is pruned holds nothing but traps and fallthroughs,
  and the function is not the entry of the program, is in no jump table, and no block leads to it.\<close>

theorem pruned_functions_trivial:
  assumes "f \<in> set (detect_functions (build p))" "f \<notin> set (pa_functions (analyze_program iter p))"
  shows "(\<forall>x \<in> fn_blocks f. \<forall>b. get_block (build p) x = Some b \<longrightarrow> snd ` set (block_instrs b) \<subseteq> {Trap, Fallthrough}) \<and>
    fn_entry f \<noteq> entry_pc (build p) \<and> fn_entry f \<notin> unat ` set (jump_table p) \<and>
    {x. edge (build p) x (fn_entry f)} = {}"
proof -
  have n: "\<not> keeps_function (build p) p f" using assms by (simp add: prune_unreachable_trivial_functions_def)
  have "fn_entry f \<in> cfg_nodes (build p)" using built.functions_partition(2) [OF assms(1)] by auto
  then obtain b where b: "get_block (build p) (fn_entry f) = Some b" by (auto simp: cfg_nodes_dom)
  then have "predecessors b = []" using n by (simp add: keeps_function_def)
  then have "cfg_preds (build p) (fn_entry f) = []" using b by (simp add: cfg_preds_def)
  then have "{x. edge (build p) x (fn_entry f)} = {}"
    using built.preds_iff_succs [OF \<open>fn_entry f \<in> cfg_nodes (build p)\<close>] by (auto simp: edge_def)
  then show ?thesis using n
    by (fastforce simp: keeps_function_def is_trivial_unreachable_stub_def list_all_iff split: option.splits)
qed

text \<open>A lone trap after the jump of the entry is pruned.\<close>

definition stub_program :: decoded_program where
  "stub_program = \<lparr>jump_table = [], instructions = [(0, Jump 0), (5, Trap)], code_len = 6, memory_base = None\<rparr>"

theorem pruned_functions_trivial_witness:
  "fst ` set (blocks (build stub_program)) = {0, 5} \<and> {x. edge (build stub_program) x 5} = {}"
proof
  show "fst ` set (blocks (build stub_program)) = {0, 5}" by code_simp
  have "\<lparr>fn_entry = 5, fn_blocks = {5}, fn_name = ''func_0''\<rparr> \<in> set (detect_functions (build stub_program))"
    "\<lparr>fn_entry = 5, fn_blocks = {5}, fn_name = ''func_0''\<rparr> \<notin> set (pa_functions (analyze_program sorted_list_of_set stub_program))"
    unfolding pa_fields by code_simp+
  from pruned_functions_trivial [OF this] show "{x. edge (build stub_program) x 5} = {}" by simp
qed

text \<open>Both provisos are needed. Of a block that sets register 3, moves another value there on a condition and
  stores it, the first step is dropped although the move keeps its value when the condition fails: what is
  stored changes. And growing the heap is dropped like a computation when nothing reads its result.\<close>

theorem halt_setup_drops_needed:
  "(let instrs = [(0, LoadImm 3 5), (6, CmovIz 3 4 5), (9, StoreInd StoreIndU64 1 3 0), (14, LoadImm 0 (- 0x10000)), (20, JumpInd 0 0)];
       s = (\<lambda>r. 1, [])
   in halt_epilogue instrs = Some (Halt [14, 20]) \<and> halt_setups {14, 20} instrs = {0} \<and>
      snd (run demo_value demo_action {} instrs s) = [1, 5] \<and> snd (run demo_value demo_action {0} instrs s) = [1, 1]) \<and>
   (let instrs = [(0, TwoReg Sbrk 3 4), (3, LoadImm 0 (- 0x10000)), (9, JumpInd 0 0)]; s = (\<lambda>r. 1, [])
   in halt_epilogue instrs = Some (Halt [3, 9]) \<and> halt_setups {3, 9} instrs = {0} \<and>
      snd (run demo_value demo_action {} instrs s) = [0] \<and> snd (run demo_value demo_action {0} instrs s) = [])"
  by code_simp

end
