(* ===== verification/Decompile_Total.thy ===== *)
theory Decompile_Total
  imports Decompile_Correct Emission_Total
begin

text \<open>
  The whole way of \<open>decompile_to_pseudocode\<close> (\<open>src/lib.rs\<close>): it returns a text for every input that decodes to
  a program whose functions have reducible graphs and that names no register above 12; it panics on some
  input of seven bytes that does.
\<close>

section \<open>The header of a function\<close>

lemma split_at_char: "split_at [c] s = Some (a, b) \<Longrightarrow> s = a @ c # b \<and> c \<notin> set a"
  by (induction s arbitrary: a) (auto simp: starts_with_def split: if_splits)

lemma split_at_found: "c \<notin> set a \<Longrightarrow> split_at [c] (a @ c # b) = Some (a, b)"
  by (induction a) (auto simp: starts_with_def)

lemma lines_from_extends:
  "cur \<noteq> [] \<Longrightarrow> hd cur \<noteq> CHR 0x0D \<Longrightarrow> \<exists>w rest. lines_from (rev w0 @ cur) s = (rev cur @ w) # rest"
proof (induction s arbitrary: w0)
  case (Cons c s)
  show ?case
  proof (cases "c = line_feed")
    case True
    have "chomp (rev cur @ w0) = rev cur @ (if w0 \<noteq> [] \<and> last w0 = CHR 0x0D then butlast w0 else w0)"
      using Cons.prems by (auto simp: chomp_def last_rev butlast_append)
    then show ?thesis using True by auto
  next
    case False
    then show ?thesis using Cons.IH [OF Cons.prems, of "w0 @ [c]"] by simp
  qed
qed auto

lemma lines_from_moves: "line_feed \<notin> set u \<Longrightarrow> lines_from cur (u @ s) = lines_from (rev u @ cur) s"
  by (induction u arbitrary: cur) auto

lemma first_line:
  assumes "line_feed \<notin> set u" "u \<noteq> []" "last u \<noteq> CHR 0x0D"
  obtains w rest where "lines (u @ s) = (u @ w) # rest"
  using lines_from_extends [of "rev u" "[]" s] assms lines_from_moves [of u "[]" s] that
  by (auto simp: lines_def hd_rev)

lemma trim_extends:
  assumes "u \<noteq> []" "\<not> is_space (hd u)" "\<not> is_space (last u)"
  obtains w' where "trim (u @ w) = u @ w'"
proof -
  have "trim_start (u @ w) = u @ w" using assms(1,2) by (cases u) (simp_all add: trim_start_def)
  moreover have "dropWhile is_space (rev u) = rev u" using assms(1,3) by (cases u rule: rev_cases) simp_all
  then have "\<exists>w'. trim_end (u @ w) = u @ w'"
    using dropWhile_append2 [of "rev w" is_space "rev u"]
    by (cases "\<forall>c \<in> set w. is_space c") (auto simp: trim_end_def dropWhile_append1)
  ultimately show thesis using that by (auto simp: trim_def)
qed

lemma header_params_defined:
  assumes "CHR ''('' \<notin> set u" "CHR '')'' \<notin> set u"
  shows "header_params (u @ CHR ''('' # w) \<noteq> None"
proof -
  have "length u + 1 \<le> length (u @ CHR ''('' # w) - length after - 1"
    if "split_at '')'' (rev (u @ CHR ''('' # w)) = Some (after, x)" for after x
  proof -
    have s: "rev w @ CHR ''('' # rev u = after @ CHR '')'' # x" using split_at_char [OF that] by simp
    have "length after < length w"
    proof (rule ccontr)
      assume "\<not> length after < length w"
      then have "CHR '')'' # x = drop (length after) (rev w @ CHR ''('' # rev u)" "length w \<le> length after"
        unfolding s by simp_all
      then have "CHR '')'' \<in> set (CHR ''('' # rev u)"
        by (metis (no_types, lifting) append_Nil drop_all drop_append in_set_dropD length_rev list.set_intros(1))
      then show False using assms by simp
    qed
    then show ?thesis by simp
  qed
  then show ?thesis unfolding header_params_def split_at_found [OF assms(1)]
    by (auto simp: Let_def split: option.split)
qed

lemma show_base_digits: "set (show_base 10 n) \<subseteq> set ''0123456789''"
  by (induction n rule: less_induct) (subst show_base.simps, auto split: if_splits simp: nth_Cons')

lemma function_name_plain:
  assumes "f \<in> set (detect_functions cfg)"
  shows "set (fn_name f) \<inter> {CHR ''('', CHR '')'', line_feed} = {}"
proof -
  obtain n where n: "map fn_name (filter (\<lambda>f. fn_name f \<noteq> ''main'') (detect_functions cfg)) = map func_name [0..<n]"
    using detect_numbered by blast
  show ?thesis
  proof (cases "fn_name f = ''main''")
    case False
    then have "fn_name f \<in> set (map fn_name (filter (\<lambda>f. fn_name f \<noteq> ''main'') (detect_functions cfg)))"
      using assms by auto
    then obtain k where "fn_name f = func_name k" unfolding n by auto
    then show ?thesis using show_base_digits [of k] by (auto simp: func_name_def show_nat_def line_feed_def)
  qed (simp add: line_feed_def)
qed

lemma declarations_defined:
  assumes "set name \<inter> {CHR ''('', CHR '')'', line_feed} = {}"
  shows "add_missing_local_declarations (''fn '' @ name @ ''('' @ s) \<noteq> None"
proof -
  let ?u = "''fn '' @ name @ ''(''"
  obtain w rest where l: "lines (?u @ s) = (?u @ w) # rest"
    by (rule first_line [of ?u s]) (use assms in \<open>auto simp: line_feed_def\<close>)
  obtain w' where t: "trim (?u @ w) = ?u @ w'"
    by (rule trim_extends [of ?u w]) (auto simp: is_space_def)
  have "header_params (''fn '' @ name @ CHR ''('' # w') \<noteq> None"
    using header_params_defined [of "''fn '' @ name" w'] assms by auto
  then show ?thesis using l t
    by (auto simp: add_missing_local_declarations_def starts_with_def Let_def)
qed


section \<open>Every function is printed\<close>

lemma block_of_program:
  assumes "wf_program p" "get_block (build p) x = Some b"
  shows "set (block_instrs b) \<subseteq> set (instructions p)"
proof -
  obtain j where j: "j < length (program_blocks p)" "b = connect_blocks (program_blocks p) ! j"
    using assms(2) unfolding blocks_build by blast
  have "block_instrs b = block_instrs (program_blocks p ! j)" using connected_fields [OF j(1)] j(2) by simp
  moreover have "program_blocks p ! j \<in> set (program_blocks p)" using j(1) by (rule nth_mem)
  ultimately have "set (block_instrs b) \<subseteq> set (concat (map block_instrs (program_blocks p)))" by auto
  then show ?thesis unfolding program_blocks_def create_blocks_concat [OF assms(1)] .
qed

lemma lift_defined:
  assumes g: "flow_graph g" and u: "\<forall>b. uses_within (block_code g b)"
  shows "\<exists>t lp. compute g = Some t \<and> lift_with_dom_tree g df t = Some lp"
proof -
  obtain t where t: "compute g = Some t" using flow_graph.dominates_exact [OF g] by blast
  obtain ssa where "ssa_build g t = Some ssa" using ssa_total [OF u] by blast
  then show ?thesis using t by (simp add: lift_with_dom_tree_def Let_def)
qed

lemma function_text_defined:
  assumes i: "set_iteration iter" and f: "f \<in> set (pa_functions (analyze_program iter p))"
    and u: "uses_within (instructions p)" and p: "wf_program p"
    and red: "reducible (function_graph_of iter (analyze_program iter p) f)" and bound: "2 * card (fn_blocks f) < bound"
  shows "function_text iter bound (analyze_program iter p) f \<noteq> None"
proof -
  let ?pa = "analyze_program iter p"
  let ?g = "function_graph_of iter ?pa f"
  note g = function_graph_facts [OF i f refl]
  have code: "set (block_code ?g b) \<subseteq> set (instructions p)" for b
  proof (cases "get_block ?g b")
    case (Some c)
    then obtain c0 where c0: "get_block (build p) b = Some c0" "block_instrs c = block_instrs c0"
      using g(5) unfolding same_code_def by blast
    then show ?thesis using block_of_program [OF p c0(1)] Some by (auto simp: block_code_def)
  qed (simp add: block_code_def)
  then have "\<forall>b. uses_within (block_code ?g b)"
    using u subsetD [OF code] unfolding uses_within_def list_all_iff by blast
  then obtain t lp where t: "compute ?g = Some t" "lift_with_dom_tree ?g (analyze ?g) t = Some lp"
    using lift_defined [OF g(1)] by blast
  obtain lp' where lp': "lift_function iter ?pa f = Some (t, lp')"
    using t by (simp add: lift_function_def Let_def)
  have "\<exists>em. emit_program bound (analyze_with_dom_tree ?g p (the (compute ?g)) E) ?g (Some lp') (Some sig) = Some em" for E sig
    using emit_program_ends [OF g(1) red, of bound p E "Some lp'" "Some sig"] bound g(2) by auto
  then obtain em where em: "emit_program bound (analyze_with_dom_tree ?g p t (fn_entry ` set (pa_functions ?pa))) ?g (Some lp')
      (Some \<lparr>sig_name = fn_name f, sig_params = (case pa_params ?pa (fn_name f) of Some regs \<Rightarrow> regs | None \<Rightarrow> [])\<rparr>) = Some em"
    unfolding t(1) option.sel by blast
  obtain txt0 where "add_missing_local_declarations (header_line ?g (Some lp')
      \<lparr>sig_name = fn_name f, sig_params = (case pa_params ?pa (fn_name f) of Some regs \<Rightarrow> regs | None \<Rightarrow> [])\<rparr> @
      indent_body (out em) @ ''}'' @ [line_feed]) = Some txt0"
    using declarations_defined [OF function_name_plain [OF kept_function [OF f]]] by (fastforce simp: header_line_def)
  then show ?thesis by (simp only: function_text_def lp' pseudo_code_def Let_def em Option.bind_lunit split option.case pa_fields(1)) simp
qed

lemma join_texts_defined: "None \<notin> set ts \<Longrightarrow> \<exists>text. join_texts ts = Some text"
proof (induction ts)
  case (Cons t ts)
  then show ?case by (cases t) auto
qed simp

lemma decode_any_valid: "decode_any bytes = Inr p \<Longrightarrow> wf_program p"
  using decode_blob_valid decode_spi_valid
  by (auto simp: decode_any_def decode_blob_def or_else_def bind_result_def valid_wf split: sum.splits fault.splits)


section \<open>Properties\<close>

text \<open>C1: The decompiler returns. For every input that decodes to a program that names only the thirteen
  registers and whose functions have reducible graphs, the whole way to pseudo-code ends without a panic once
  the bound on the emission exceeds twice the number of blocks of every function, in whatever order the sets
  are iterated; the output describes exactly the functions that are not pruned, and warns of exactly the
  opcodes that are unknown.\<close>

theorem decompile_returns:
  assumes "set_iteration iter" "decode_any bytes = Inr p" "uses_within (instructions p)"
    and "\<forall>f \<in> set (pa_functions (analyze_program iter p)).
      reducible (function_graph_of iter (analyze_program iter p) f) \<and> 2 * card (fn_blocks f) < bound"
  shows "\<exists>out. decompile_to_pseudocode iter bound bytes = Inr out \<and>
    function_count out = length (output_functions out) \<and>
    map info_entry_pc (output_functions out) = map fn_entry (filter (keeps_function (build p) p) (detect_functions (build p))) \<and>
    output_warnings out = opcode_warnings p"
proof -
  let ?pa = "analyze_program iter p"
  have "None \<notin> set (map (function_text iter bound ?pa) (pa_functions ?pa))"
    using function_text_defined [OF assms(1) _ assms(3) decode_any_valid [OF assms(2)]] assms(4) by fastforce
  then obtain s where "join_texts (map (function_text iter bound ?pa) (pa_functions ?pa)) = Some s"
    using join_texts_defined by blast
  then have "decompile_to_pseudocode iter bound bytes = Inr \<lparr>output_pseudo_code = s, function_count = length (pa_functions ?pa),
      output_functions = map (info_of ?pa) (pa_functions ?pa), output_warnings = opcode_warnings p\<rparr>"
    by (simp only: decompile_to_pseudocode_def assms(2) render_program_def Let_def map_error_def sum.case bind_result_simps option.case)
  then show ?thesis
    by (simp add: info_of_def comp_def prune_unreachable_trivial_functions_def)
qed

text \<open>A blob with a fallthrough and a trap, and one of seven bytes that reads register 13.\<close>

definition small_input :: "u8 list" where
  "small_input = [0, 0, 2, 1, 0, 3]"

definition small_input_program :: decoded_program where
  "small_input_program = \<lparr>jump_table = [], instructions = [(0, Fallthrough), (1, Trap)], code_len = 2, memory_base = None\<rparr>"

definition panicking_input :: "u8 list" where
  "panicking_input = [0, 0, 3, 149, 0xD1, 0, 5]"

definition panicking_program :: decoded_program where
  "panicking_program = \<lparr>jump_table = [], instructions = [(0, TwoRegImm AddImm64 1 13 0), (2, Trap)], code_len = 3, memory_base = None\<rparr>"

lemma decode_small: "decode_any small_input = Inr small_input_program"
proof -
  have "try_strip_metadata small_input = Inr small_input" by code_simp
  moreover have "decode_spi small_input = Inl (Raised UnexpectedEof)"
    by (simp add: small_input_def decode_spi_def read_u24_def read_u16_def remaining_def cursor_new_def advance_def slice_def Let_def)
  moreover have "decode_blob small_input = Inr small_input_program" by code_simp
  ultimately show ?thesis by (simp add: decode_any_def or_else_def)
qed

lemma decode_panicking: "decode_any panicking_input = Inr panicking_program"
proof -
  have "try_strip_metadata panicking_input = Inr panicking_input" by code_simp
  moreover have "decode_spi panicking_input = Inl (Raised UnexpectedEof)"
    by (simp add: panicking_input_def decode_spi_def read_u24_def read_u16_def remaining_def cursor_new_def advance_def slice_def Let_def)
  moreover have "decode_blob panicking_input = Inr panicking_program" by code_simp
  ultimately show ?thesis by (simp add: decode_any_def or_else_def)
qed

lemma small_functions:
  "pa_functions (analyze_program sorted_list_of_set small_input_program) = [\<lparr>fn_entry = 0, fn_blocks = {0}, fn_name = ''main''\<rparr>]"
  unfolding pa_fields by code_simp

lemma small_reducible:
  "reducible (function_graph_of sorted_list_of_set (analyze_program sorted_list_of_set small_input_program)
     \<lparr>fn_entry = 0, fn_blocks = {0}, fn_name = ''main''\<rparr>)" (is "reducible ?g")
proof (rule reducible_numbering [where f = id])
  have "list_all (\<lambda>(_, b). successors b = []) (blocks ?g)"
    unfolding function_graph_of_def pa_fields by code_simp
  then have "cfg_succs ?g u = []" for u
    by (auto simp: cfg_succs_def get_block_def list_all_iff split: option.split dest!: map_of_SomeD)
  then show "id u < id v" if "forward_edge ?g u v" for u v using that by (simp add: forward_edge_def edge_def)
qed

theorem decompile_returns_witness:
  "\<exists>out. decompile_to_pseudocode sorted_list_of_set 3 small_input = Inr out \<and> function_count out = 1"
proof -
  have u: "uses_within (instructions small_input_program)" by code_simp
  have n: "map fn_entry (filter (keeps_function (build small_input_program) small_input_program)
      (detect_functions (build small_input_program))) = [0]" by code_simp
  have "\<forall>f \<in> set (pa_functions (analyze_program sorted_list_of_set small_input_program)).
      reducible (function_graph_of sorted_list_of_set (analyze_program sorted_list_of_set small_input_program) f) \<and> 2 * card (fn_blocks f) < 3"
    unfolding small_functions using small_reducible by simp
  from decompile_returns [OF ascending.set_iteration_axioms decode_small u this, unfolded n]
  obtain out where "decompile_to_pseudocode sorted_list_of_set 3 small_input = Inr out"
      "function_count out = length (map info_entry_pc (output_functions out))" "map info_entry_pc (output_functions out) = [0]"
    by auto
  then show ?thesis by (intro exI [of _ out]) simp
qed

text \<open>A seven-byte input makes the decompiler panic, whatever the bound: it decodes to a program that reads
  register 13, for which the construction of the value graph has no value, although the decoder accepts
  every four-bit register number.\<close>

theorem decompile_panics:
  "length panicking_input = 7 \<and> decompile_to_pseudocode sorted_list_of_set bound panicking_input = Inl Panicked"
proof
  let ?pa = "analyze_program sorted_list_of_set panicking_program"
  let ?f = "\<lparr>fn_entry = 0, fn_blocks = {0}, fn_name = ''main''\<rparr> :: pvm_function"
  have f: "pa_functions ?pa = [?f]" unfolding pa_fields by code_simp
  have "Option.bind (compute (function_graph_of sorted_list_of_set ?pa ?f)) (ssa_build (function_graph_of sorted_list_of_set ?pa ?f)) = None"
    unfolding function_graph_of_def pa_fields by code_simp
  then have "lift_function sorted_list_of_set ?pa ?f = None"
    by (cases "compute (function_graph_of sorted_list_of_set ?pa ?f)") (simp_all add: lift_function_def lift_with_dom_tree_def Let_def)
  then have "function_text sorted_list_of_set bound ?pa ?f = None" by (simp add: function_text_def)
  then show "decompile_to_pseudocode sorted_list_of_set bound panicking_input = Inl Panicked"
    by (simp only: decompile_to_pseudocode_def decode_panicking render_program_def Let_def map_error_def sum.case bind_result_simps f
        list.map join_texts.simps Option.bind_lzero option.case)
qed (simp add: panicking_input_def)

end
