(* ===== verification/Spec2Isabelle.thy ===== *)
theory Spec2Isabelle
  imports Varint Instruction Decoder Decoder_Correct Container_Correct Cfg Dataflow Dataflow_Correct Dominators Dominators_Correct Structuring Structuring_Correct
    Functions Idioms Functions_Correct Function_Graphs Idioms_Correct
    Ssa Ssa_Correct Expression Expression_Correct Expression_Format Format_Correct
    Lifted Lifted_Passes Lifted_Names Lifted_Correct
    Text Text_Passes Text_Cleanup Text_Correct Emission Emission_Plan Emitter Pseudo_Code
    Emission_Correct Emission_Progress Emission_Total Emission_Examples
    Decompile Decompile_Correct Decompile_Total
begin

text \<open>
  The PVM decompiler reads a program of the Polkadot virtual machine and prints pseudo-code for it. This
  development models the crate from the bytes of the input to the text it returns, and proves what the
  stages promise each other and what the text promises the reader.

  \<^bold>\<open>The program.\<close> \<open>decompile_to_pseudocode\<close> (\<open>src/lib.rs\<close>) runs the stages in one order:
  \<^item> \<open>decoder.rs\<close>, with \<open>varint.rs\<close> and \<open>instruction.rs\<close>, turns the bytes into a list of instructions with their
    positions. It tries the plain container first, then the container of a standard program, and strips a
    metadata prefix.
  \<^item> \<open>cfg.rs\<close> cuts the list into basic blocks and joins them by edges; \<open>functions.rs\<close> splits the graph into
    functions, gives each a graph of its own and recognises the idioms of the compiler in it.
  \<^item> \<open>dataflow.rs\<close> (liveness, definitions and uses), \<open>ir/ssa.rs\<close> (a value for each definition, merge and use) and
    \<open>lifting.rs\<close> (named variables, expression trees, the passes that rewrite them, their text) work on the
    graph of a function.
  \<^item> \<open>structuring/analysis.rs\<close> finds dominators, loops, conditionals and switches, and
    \<open>structuring/emission.rs\<close> prints the blocks in that structure and passes over the printed lines.
  \<^item> \<open>lib.rs\<close> prunes functions and leaves out blocks and instructions that only prepare calls, halts or
    allocations.

  \<^bold>\<open>Values.\<close> Machine integers are words of their width, signed where the code has them signed. A \<open>Result\<close> or a
  panic is a value of the type \<open>outcome\<close> of \<open>Prelude\<close>: \<open>Inl (Raised e)\<close>, \<open>Inl Panicked\<close> or \<open>Inr x\<close>; indexing and
  slicing out of range is a panic. Arithmetic of \<open>usize\<close> is on natural numbers, with the casts and the
  saturation of the code written out; a pointer has 64 bits, and
  \<open>decode_blob_on\<close> has the width as an argument, because the room reserved for the jump table depends on it. An allocation that fails
  for lack of memory is not modelled. A \<open>HashMap\<close> or \<open>HashSet\<close> is iterated in an order the code does not
  determine: the graph is an association list and what is proved holds for every \<open>reorder\<close> of it, and where
  a set is iterated the order is an argument of the definition (locale \<open>set_iteration\<close>).

  \<^bold>\<open>The theories,\<close> in the order of the stages; those named \<open>_Correct\<close>, \<open>_Progress\<close>, \<open>_Total\<close>, \<open>_Examples\<close> and \<open>Function_Graphs\<close> hold
  proofs, the others the definitions.
  \<^item> \<open>Prelude\<close>: words, outcomes, slices, common facts on lists.
  \<^item> \<open>Varint\<close>, \<open>Instruction\<close>, \<open>Decoder\<close>: the decoders. \<open>Decoder_Correct\<close> has a reference assembler and the readers as
    instances of the locales \<open>cursor_reader\<close> and \<open>fixed_reader\<close> (a reader only moves forward, and never panics);
    \<open>Container_Correct\<close> the containers. Shown: round trips, no panic, what the decoded list holds.
  \<^item> \<open>Cfg\<close>: the graph of a program with its correctness. The locale \<open>flow_graph\<close> is what all later analyses rely on
    (blocks filed under their start, edges inside the graph, successors and predecessors that agree); it is
    interpreted for the graph of every program, for every reordering of it and, in \<open>Function_Graphs\<close>,
    shown of the graph of every detected function.
  \<^item> \<open>Dataflow\<close>, \<open>Dataflow_Correct\<close>: the worklists against path-based definitions (\<open>live_at\<close>, \<open>clear_use\<close>). The code bounds the
    rounds of the worklist and the steps of a chain by constants (200 blocks for a chain); what is lost beyond them is part of the statements.
  \<^item> \<open>Dominators\<close>, \<open>Dominators_Correct\<close>, \<open>Structuring\<close>, \<open>Structuring_Correct\<close>: dominance exactly as defined by walks, components, natural
    loops, conditionals, switches.
  \<^item> \<open>Functions\<close>, \<open>Idioms\<close> with \<open>Functions_Correct\<close>, \<open>Function_Graphs\<close>, \<open>Idioms_Correct\<close>: components, call graph, graphs of functions,
    epilogues, prologues, heap allocation.
  \<^item> \<open>Ssa\<close>, \<open>Ssa_Correct\<close>: the value graph and what a use of a value means on every walk.
  \<^item> \<open>Expression\<close>, \<open>Expression_Format\<close>, \<open>Lifted\<close>, \<open>Lifted_Passes\<close>, \<open>Lifted_Names\<close>: expressions and the lifted program. \<open>Expression_Correct\<close> gives
    expressions a value, \<open>Format_Correct\<close> reads formatted text back, \<open>Lifted_Correct\<close> shows that the passes
    replace equals by equals.
  \<^item> \<open>Emission\<close> (conditions, labels, declarations), \<open>Emission_Plan\<close> (what is decided before printing), \<open>Emitter\<close> and
    \<open>Pseudo_Code\<close> (what prints; the state is a record of the lines, the blocks recorded and the work list). \<open>Emission_Correct\<close>
    has the meaning of conditions and of silent branches, \<open>Emission_Progress\<close> what each step does to
    the state, \<open>Emission_Total\<close> that printing ends (locale \<open>structured_graph\<close>), \<open>Emission_Examples\<close> programs whose text
    goes wrong.
  \<^item> \<open>Text\<close>, \<open>Text_Passes\<close>, \<open>Text_Cleanup\<close>, \<open>Text_Correct\<close>: the methods of \<open>str\<close> the passes use, the passes over the printed lines, and what
    renaming and pruning keep.
  \<^item> \<open>Decompile\<close>, \<open>Decompile_Correct\<close>, \<open>Decompile_Total\<close>: \<open>lib.rs\<close>. A small machine (registers, memory and a trace of effects, with the
    meaning of the instructions as parameters) shows that what is left out is not needed, and
    \<open>decompile_returns\<close> puts the stages together.

  \<^bold>\<open>Loops and bounds.\<close> Structural and measured recursion is total in HOL. A loop without an obvious measure has a
  bound as its first argument, and no result (\<open>None\<close>, or a panic in \<open>Decompile\<close>) stands for not having ended: the
  iteration for dominators ends (\<open>dominator_tree_exact\<close>), as do folding and copy propagation (\<open>rewriting_completes\<close>), and
  printing ends on a reducible graph for every bound above twice the number of its blocks
  (\<open>emission_terminates\<close>, for the recursion and the work list alike). \<open>decompile_returns\<close> asks for that bound for every
  function. On graphs that are not reducible printing need not end (\<open>emission_overflows\<close>). Limits that are
  in the code itself, on rounds, chains and nesting, are kept as they are.

  \<^bold>\<open>Hypotheses.\<close> The code from outside that the model takes as an argument is the order of hash iteration;
  the meaning of instructions is an argument where a statement holds for every meaning. A theorem with a hypothesis
  is followed by a witness that applies it to a concrete program. Theorems that are not numbered are
  lemmas, or concrete inputs on which the code does not do what it means to: for example
  \<open>loops_depend_on_order\<close>, \<open>entry_function_lost\<close>, \<open>ssa_entry_parameter_lost\<close>, \<open>folding_moves_loads\<close>, \<open>passes_change_meaning\<close>,
  \<open>halt_setup_drops_needed\<close>.

  \<^bold>\<open>Not modelled.\<close> \<open>main.rs\<close> (arguments, files, terminal, the order of the same stages again), \<open>decompile.rs\<close> (runs the
  external tools that turn LLVM text into C, with a small built-in converter), \<open>llvm_lift.rs\<close> (the
  optional back end that prints LLVM text), \<open>llm_refine.rs\<close> (sends the text to a service) and \<open>wasm.rs\<close> (bindings). Of
  the modelled files the textual summaries that are only displayed and the tests are left out.
\<close>

end
